(* ===== verification/Prelude.thy ===== *)
theory Prelude
  imports Main "HOL-Library.Word" "HOL-Library.Multiset"
begin

text \<open>
  Shared base of the development.  It holds the result type of fallible C functions and
  its sequencing operator, the error values (one per \<open>ereport\<close>, \<open>elog\<close>, assertion
  or out-of-range memory access the modelled code contains), the theorem collections used
  by the component proofs, and generic facts on lists and multisets.
\<close>

named_theorems hnsw_const \<open>definitions of the numeric constants and size macros\<close>
named_theorems hnsw_err \<open>inversion facts for the result type\<close>

section \<open>Results and errors\<close>

text \<open>
  A C function that may leave through \<open>ereport(ERROR, ...)\<close> returns \<open>error + 'a\<close>;
  \<open>Inl\<close> carries the error.  \<open>UndefinedBehaviour\<close> marks a memory access or call
  the C standard gives no meaning to (a null pointer, an index outside an array);
  \<open>AssertionFailed\<close> marks a violated \<open>Assert\<close>; \<open>Diverges\<close> marks a loop that
  does not end.
\<close>

datatype error =
    ErrExpectedDim int int
  | ErrTooFewDims
  | ErrTooManyDims
  | ErrDifferentDims int int
  | ErrNaN
  | ErrInfinite
  | ErrSyntax
  | ErrStart
  | ErrJunk
  | ErrOutOfRange
  | ErrTypmodCount
  | ErrTypmodMin
  | ErrTypmodMax
  | ErrUnused int
  | ErrInsufficientData
  | ErrIntegerSize int
  | ErrOverflow
  | ErrCorruptedPage
  | ErrCorruptedLinePointer
  | ErrInvalidOffnum nat
  | ErrNotHnswIndex
  | ErrAddItem
  | ErrTupleTooLarge
  | ErrBadBlock nat
  | ErrNoOrder
  | ErrSnapshot
  | ErrTypeNotSupported
  | ErrNoDimensions
  | ErrColumnDims int
  | ErrEfConstruction
  | ErrSpecifiedTwice string
  | ErrInvalidValue string
  | ErrValueOutOfBounds string
  | ErrUnrecognizedParameter string
  | ErrNotInParseTable string
  | UndefinedBehaviour
  | AssertionFailed
  | Diverges

type_synonym 'a result = "error + 'a"

definition rbind :: "'a result \<Rightarrow> ('a \<Rightarrow> 'b result) \<Rightarrow> 'b result" where
  "rbind r f = (case r of Inl e \<Rightarrow> Inl e | Inr x \<Rightarrow> f x)"

definition guard :: "bool \<Rightarrow> error \<Rightarrow> unit result" where
  "guard c e = (if c then Inr () else Inl e)"

lemma rbind_simps [simp]:
  "rbind (Inl e) f = Inl e"
  "rbind (Inr x) f = f x"
  by (simp_all add: rbind_def)

lemma rbind_InrE [hnsw_err]:
  "rbind r f = Inr y \<longleftrightarrow> (\<exists>x. r = Inr x \<and> f x = Inr y)"
  by (cases r) auto

lemma rbind_InlE [hnsw_err]:
  "rbind r f = Inl e \<longleftrightarrow> r = Inl e \<or> (\<exists>x. r = Inr x \<and> f x = Inl e)"
  by (cases r) auto

lemma guard_simps [simp]:
  "guard True e = Inr ()"
  "guard False e = Inl e"
  by (simp_all add: guard_def)

lemma guard_eq [hnsw_err]:
  "guard c e = Inr u \<longleftrightarrow> c"
  "guard c e = Inl e' \<longleftrightarrow> \<not> c \<and> e' = e"
  by (auto simp: guard_def)

lemma rbind_cong [fundef_cong]:
  "r = r' \<Longrightarrow> (\<And>x. r' = Inr x \<Longrightarrow> f x = g x) \<Longrightarrow> rbind r f = rbind r' g"
  by (cases r') auto

text \<open>Reading an element of a C array whose length the model knows.\<close>

definition nth_r :: "'a list \<Rightarrow> nat \<Rightarrow> 'a result" where
  "nth_r xs i = (if i < length xs then Inr (xs ! i) else Inl UndefinedBehaviour)"

lemma nth_r_eq [hnsw_err]:
  "nth_r xs i = Inr x \<longleftrightarrow> i < length xs \<and> xs ! i = x"
  "nth_r xs i = Inl e \<longleftrightarrow> length xs \<le> i \<and> e = UndefinedBehaviour"
  by (auto simp: nth_r_def)

lemma nth_r_simps [simp]: "i < length xs \<Longrightarrow> nth_r xs i = Inr (xs ! i)"
  by (simp add: nth_r_def)

end
