(* ===== verification/CFloat.thy ===== *)
theory CFloat
  imports Prelude
begin

text \<open>
  The C types \<open>float\<close> and \<open>double\<close> (PostgreSQL's \<open>float4\<close> and \<open>float8\<close>), as
  their IEEE 754 bit patterns.  Arithmetic rounds to nearest, ties to even, in the width of
  the C type of the operation (\<open>FLT_EVAL_METHOD\<close> 0, no contraction), which is what the
  supported x86-64 and AArch64 builds do.  Every finite number of a format is an integer
  multiple of the format's smallest subnormal, so the exact value of a finite number is the
  integer \<open>f_int\<close> in that unit and all exact intermediate results are fractions of
  integers; the definitions therefore compute.

  The lemmas show that representable values survive rounding, that the order used by the C
  comparison operators is the order of the values, and which operations can produce a NaN.
\<close>

section \<open>Formats and bit patterns\<close>

type_synonym float4 = "32 word"
type_synonym float8 = "64 word"

record fmt =
  mbits :: nat
  ebits :: nat

definition binary32 :: fmt where
  "binary32 = \<lparr>mbits = 23, ebits = 8\<rparr>"

definition binary64 :: fmt where
  "binary64 = \<lparr>mbits = 52, ebits = 11\<rparr>"

definition inf_mag :: "fmt \<Rightarrow> nat" where
  "inf_mag F = (2 ^ ebits F - 1) * 2 ^ mbits F"

definition sign_bit :: "fmt \<Rightarrow> nat" where
  "sign_bit F = 2 ^ (mbits F + ebits F)"

definition nan_mag :: "fmt \<Rightarrow> nat" where
  "nan_mag F = inf_mag F + 2 ^ (mbits F - 1)"

text \<open>The exponent of the unit: a finite number is an integer times \<open>2 ^ - unit_exp F\<close>.\<close>

definition unit_exp :: "fmt \<Rightarrow> nat" where
  "unit_exp F = 2 ^ (ebits F - 1) - 2 + mbits F"

text \<open>Sign and magnitude of a bit pattern.\<close>

definition f_neg :: "fmt \<Rightarrow> nat \<Rightarrow> bool" where
  "f_neg F n = odd (n div sign_bit F)"

definition f_mag :: "fmt \<Rightarrow> nat \<Rightarrow> nat" where
  "f_mag F n = n mod sign_bit F"

definition f_make :: "fmt \<Rightarrow> bool \<Rightarrow> nat \<Rightarrow> nat" where
  "f_make F s g = (if s then sign_bit F + g else g)"

definition f_isnan :: "fmt \<Rightarrow> nat \<Rightarrow> bool" where
  "f_isnan F n = (inf_mag F < f_mag F n)"

definition f_isinf :: "fmt \<Rightarrow> nat \<Rightarrow> bool" where
  "f_isinf F n = (f_mag F n = inf_mag F)"

definition f_isfin :: "fmt \<Rightarrow> nat \<Rightarrow> bool" where
  "f_isfin F n = (f_mag F n < inf_mag F)"

definition f_iszero :: "fmt \<Rightarrow> nat \<Rightarrow> bool" where
  "f_iszero F n = (f_mag F n = 0)"

text \<open>The absolute value of a finite magnitude, in units.\<close>

definition mag_int :: "fmt \<Rightarrow> nat \<Rightarrow> nat" where
  "mag_int F g = (let e = g div 2 ^ mbits F; f = g mod 2 ^ mbits F
     in if e = 0 then f else (2 ^ mbits F + f) * 2 ^ (e - 1))"

definition f_int :: "fmt \<Rightarrow> nat \<Rightarrow> int" where
  "f_int F n = (if f_neg F n then - int (mag_int F (f_mag F n)) else int (mag_int F (f_mag F n)))"

text \<open>The C comparison operators: false as soon as an operand is a NaN; otherwise
  sign-magnitude order, where the two zeros are equal.\<close>

definition f_key :: "fmt \<Rightarrow> nat \<Rightarrow> int" where
  "f_key F n = (if f_neg F n then - int (f_mag F n) else int (f_mag F n))"

definition f_lt :: "fmt \<Rightarrow> nat \<Rightarrow> nat \<Rightarrow> bool" where
  "f_lt F a b = (\<not> f_isnan F a \<and> \<not> f_isnan F b \<and> f_key F a < f_key F b)"

definition f_le :: "fmt \<Rightarrow> nat \<Rightarrow> nat \<Rightarrow> bool" where
  "f_le F a b = (\<not> f_isnan F a \<and> \<not> f_isnan F b \<and> f_key F a \<le> f_key F b)"

definition f_eq :: "fmt \<Rightarrow> nat \<Rightarrow> nat \<Rightarrow> bool" where
  "f_eq F a b = (\<not> f_isnan F a \<and> \<not> f_isnan F b \<and> f_key F a = f_key F b)"

section \<open>Rounding\<close>

fun lg2 :: "nat \<Rightarrow> nat" where
  "lg2 n = (if n < 2 then 0 else Suc (lg2 (n div 2)))"

declare lg2.simps [simp del]

text \<open>\<open>drop_of F q\<close> is the number of low-order bits of the integer part \<open>q\<close> that do
  not fit the significand.\<close>

definition drop_of :: "fmt \<Rightarrow> nat \<Rightarrow> nat" where
  "drop_of F q = lg2 q - mbits F"

definition mag_of :: "fmt \<Rightarrow> nat \<Rightarrow> nat \<Rightarrow> nat" where
  "mag_of F j n = min (j * 2 ^ mbits F + n) (inf_mag F)"

text \<open>Round the fraction \<open>num / den\<close> (in units) to the nearest magnitude, ties to
  even; too large a value becomes an infinity.\<close>

definition round_mag :: "fmt \<Rightarrow> nat \<Rightarrow> nat \<Rightarrow> nat" where
  "round_mag F num den =
     (let j = drop_of F (num div den); d = den * 2 ^ j; n = num div d; r = num mod d
      in mag_of F j (if 2 * r > d \<or> (2 * r = d \<and> odd n) then n + 1 else n))"

text \<open>Integer square root.\<close>

fun isqrt :: "nat \<Rightarrow> nat" where
  "isqrt n = (if n = 0 then 0
     else let r = 2 * isqrt (n div 4) in if (r + 1) * (r + 1) \<le> n then r + 1 else r)"

declare isqrt.simps [simp del]

text \<open>Round the square root of \<open>R\<close> (both in units) to the nearest magnitude.\<close>

definition round_sqrt_mag :: "fmt \<Rightarrow> nat \<Rightarrow> nat" where
  "round_sqrt_mag F R =
     (let q = isqrt R; j = drop_of F q; n = q div 2 ^ j; h = (2 * n + 1) * 2 ^ j
      in mag_of F j (if 4 * R > h * h \<or> (4 * R = h * h \<and> odd n) then n + 1 else n))"

section \<open>Arithmetic\<close>

definition f_nan :: "fmt \<Rightarrow> nat" where
  "f_nan F = nan_mag F"

definition f_inf :: "fmt \<Rightarrow> bool \<Rightarrow> nat" where
  "f_inf F s = f_make F s (inf_mag F)"

text \<open>An exact sum that is zero is \<open>-0\<close> only when both operands are negative zeros.\<close>

definition f_add :: "fmt \<Rightarrow> nat \<Rightarrow> nat \<Rightarrow> nat" where
  "f_add F a b =
     (if f_isnan F a \<or> f_isnan F b then f_nan F
      else if f_isinf F a then
        (if f_isinf F b \<and> f_neg F a \<noteq> f_neg F b then f_nan F else f_inf F (f_neg F a))
      else if f_isinf F b then f_inf F (f_neg F b)
      else let s = f_int F a + f_int F b
        in if s = 0 then f_make F (f_neg F a \<and> f_neg F b) 0
           else f_make F (s < 0) (round_mag F (nat \<bar>s\<bar>) 1))"

definition f_negate :: "fmt \<Rightarrow> nat \<Rightarrow> nat" where
  "f_negate F a = f_make F (\<not> f_neg F a) (f_mag F a)"

definition f_sub :: "fmt \<Rightarrow> nat \<Rightarrow> nat \<Rightarrow> nat" where
  "f_sub F a b = f_add F a (if f_isnan F b then b else f_negate F b)"

definition f_mul :: "fmt \<Rightarrow> nat \<Rightarrow> nat \<Rightarrow> nat" where
  "f_mul F a b =
     (let s = (f_neg F a \<noteq> f_neg F b) in
      if f_isnan F a \<or> f_isnan F b then f_nan F
      else if f_isinf F a then (if f_iszero F b then f_nan F else f_inf F s)
      else if f_isinf F b then (if f_iszero F a then f_nan F else f_inf F s)
      else f_make F s (round_mag F (mag_int F (f_mag F a) * mag_int F (f_mag F b)) (2 ^ unit_exp F)))"

definition f_div :: "fmt \<Rightarrow> nat \<Rightarrow> nat \<Rightarrow> nat" where
  "f_div F a b =
     (let s = (f_neg F a \<noteq> f_neg F b) in
      if f_isnan F a \<or> f_isnan F b then f_nan F
      else if f_isinf F a then (if f_isinf F b then f_nan F else f_inf F s)
      else if f_isinf F b then f_make F s 0
      else if f_iszero F b then (if f_iszero F a then f_nan F else f_inf F s)
      else f_make F s (round_mag F (mag_int F (f_mag F a) * 2 ^ unit_exp F) (mag_int F (f_mag F b))))"

definition f_sqrt :: "fmt \<Rightarrow> nat \<Rightarrow> nat" where
  "f_sqrt F a =
     (if f_isnan F a then f_nan F
      else if f_iszero F a then a
      else if f_neg F a then f_nan F
      else if f_isinf F a then a
      else f_make F False (round_sqrt_mag F (mag_int F (f_mag F a) * 2 ^ unit_exp F)))"

text \<open>Conversion between formats.\<close>

definition f_conv :: "fmt \<Rightarrow> fmt \<Rightarrow> nat \<Rightarrow> nat" where
  "f_conv F G a =
     (if f_isnan F a then f_nan G
      else if f_isinf F a then f_inf G (f_neg F a)
      else f_make G (f_neg F a)
        (round_mag G (mag_int F (f_mag F a) * 2 ^ unit_exp G) (2 ^ unit_exp F)))"

section \<open>The C operations on \<open>float\<close> and \<open>double\<close>\<close>

definition op2 :: "(nat \<Rightarrow> nat \<Rightarrow> nat) \<Rightarrow> 'a::len word \<Rightarrow> 'a word \<Rightarrow> 'a word" where
  "op2 f a b = of_nat (f (unat a) (unat b))"

definition f4_sub :: "float4 \<Rightarrow> float4 \<Rightarrow> float4" where
  "f4_sub = op2 (f_sub binary32)"

definition f4_mul :: "float4 \<Rightarrow> float4 \<Rightarrow> float4" where
  "f4_mul = op2 (f_mul binary32)"

definition f8_add :: "float8 \<Rightarrow> float8 \<Rightarrow> float8" where
  "f8_add = op2 (f_add binary64)"

definition f8_sub :: "float8 \<Rightarrow> float8 \<Rightarrow> float8" where
  "f8_sub = op2 (f_sub binary64)"

definition f8_mul :: "float8 \<Rightarrow> float8 \<Rightarrow> float8" where
  "f8_mul = op2 (f_mul binary64)"

definition f8_div :: "float8 \<Rightarrow> float8 \<Rightarrow> float8" where
  "f8_div = op2 (f_div binary64)"

definition f8_sqrt :: "float8 \<Rightarrow> float8" where
  "f8_sqrt a = of_nat (f_sqrt binary64 (unat a))"

definition f8_of_f4 :: "float4 \<Rightarrow> float8" where
  "f8_of_f4 a = of_nat (f_conv binary32 binary64 (unat a))"

definition f4_of_f8 :: "float8 \<Rightarrow> float4" where
  "f4_of_f8 a = of_nat (f_conv binary64 binary32 (unat a))"

definition f4_isnan :: "float4 \<Rightarrow> bool" where
  "f4_isnan a = f_isnan binary32 (unat a)"

definition f4_isinf :: "float4 \<Rightarrow> bool" where
  "f4_isinf a = f_isinf binary32 (unat a)"

definition f8_isnan :: "float8 \<Rightarrow> bool" where
  "f8_isnan a = f_isnan binary64 (unat a)"

definition f8_isinf :: "float8 \<Rightarrow> bool" where
  "f8_isinf a = f_isinf binary64 (unat a)"

definition f4_key :: "float4 \<Rightarrow> int" where
  "f4_key a = f_key binary32 (unat a)"

definition f8_key :: "float8 \<Rightarrow> int" where
  "f8_key a = f_key binary64 (unat a)"

definition f4_lt :: "float4 \<Rightarrow> float4 \<Rightarrow> bool" where
  "f4_lt a b = f_lt binary32 (unat a) (unat b)"

definition f4_le :: "float4 \<Rightarrow> float4 \<Rightarrow> bool" where
  "f4_le a b = f_le binary32 (unat a) (unat b)"

definition f8_lt :: "float8 \<Rightarrow> float8 \<Rightarrow> bool" where
  "f8_lt a b = f_lt binary64 (unat a) (unat b)"

definition f8_eq :: "float8 \<Rightarrow> float8 \<Rightarrow> bool" where
  "f8_eq a b = f_eq binary64 (unat a) (unat b)"

definition f8_zero :: float8 where
  "f8_zero = 0"

definition f8_one :: float8 where
  "f8_one = 0x3FF0000000000000"

definition f8_infinity :: float8 where
  "f8_infinity = 0x7FF0000000000000"

definition f8_neg_infinity :: float8 where
  "f8_neg_infinity = 0xFFF0000000000000"


section \<open>Rounding facts\<close>

lemma lg2_bounds: "0 < n \<Longrightarrow> 2 ^ lg2 n \<le> n \<and> n < 2 ^ Suc (lg2 n)"
proof (induction n rule: lg2.induct)
  case (1 n)
  show ?case
  proof (cases "n < 2")
    case True
    with "1.prems" show ?thesis by (simp add: lg2.simps)
  next
    case False
    then have "2 ^ lg2 (n div 2) \<le> n div 2" "n div 2 < 2 ^ Suc (lg2 (n div 2))"
      using "1.IH" by simp_all
    then have "2 * 2 ^ lg2 (n div 2) \<le> n" "n < 2 * 2 ^ Suc (lg2 (n div 2))"
      by linarith+
    with False show ?thesis by (simp add: lg2.simps [of n])
  qed
qed

lemma lg2_unique: "2 ^ k \<le> n \<Longrightarrow> n < 2 ^ Suc k \<Longrightarrow> lg2 n = k"
proof -
  assume a: "2 ^ k \<le> n" "n < 2 ^ Suc k"
  then have "0 < n" using zero_less_power [of "2::nat" k] by linarith
  then have b: "2 ^ lg2 n \<le> n" "n < 2 ^ Suc (lg2 n)" using lg2_bounds by auto
  have "(2::nat) ^ k < 2 ^ Suc (lg2 n)" "(2::nat) ^ lg2 n < 2 ^ Suc k"
    using a b by linarith+
  then have "k < Suc (lg2 n)" "lg2 n < Suc k"
    by (meson one_less_numeral_iff power_less_imp_less_exp semiring_norm(76))+
  then show ?thesis by simp
qed

lemma lg2_less: "n < 2 ^ Suc k \<Longrightarrow> lg2 n \<le> k"
proof (cases "n = 0")
  case False
  assume "n < 2 ^ Suc k"
  moreover have "2 ^ lg2 n \<le> n" using False lg2_bounds by simp
  ultimately have "(2::nat) ^ lg2 n < 2 ^ Suc k" by linarith
  then have "lg2 n < Suc k"
    by (meson one_less_numeral_iff power_less_imp_less_exp semiring_norm(76))
  then show ?thesis by simp
qed (simp add: lg2.simps)

lemma isqrt_bounds: "isqrt n * isqrt n \<le> n \<and> n < (isqrt n + 1) * (isqrt n + 1)"
proof (induction n rule: isqrt.induct)
  case (1 n)
  show ?case
  proof (cases "n = 0")
    case True
    then show ?thesis by (simp add: isqrt.simps)
  next
    case False
    define s where "s = isqrt (n div 4)"
    have s: "s * s \<le> n div 4" "n div 4 < (s + 1) * (s + 1)"
      using "1.IH" [OF False] by (simp_all add: s_def)
    have lo: "(2 * s) * (2 * s) \<le> n" using s(1) by simp
    have hi: "n < (2 * s + 2) * (2 * s + 2)" using s(2) by (simp add: algebra_simps)
    have eq: "isqrt n = (if (2 * s + 1) * (2 * s + 1) \<le> n then 2 * s + 1 else 2 * s)"
      using False by (simp add: isqrt.simps [of n] s_def Let_def)
    show ?thesis
      using lo hi by (cases "(2 * s + 1) * (2 * s + 1) \<le> n") (simp_all add: eq)
  qed
qed

text \<open>The facts below hold in every format with at least one fraction bit and two exponent
  bits; they are proved once and then instantiated for \<open>float\<close> and \<open>double\<close>.\<close>

locale float_format =
  fixes F :: fmt
  assumes frac: "1 \<le> mbits F"
    and expo: "2 \<le> ebits F"
begin

lemma sign_bit_pos [simp]: "0 < sign_bit F"
  by (simp add: sign_bit_def)

lemma inf_mag_pos: "0 < inf_mag F"
proof -
  have "(2::nat) ^ 1 < 2 ^ ebits F" using expo by (intro power_strict_increasing) auto
  then show ?thesis by (simp add: inf_mag_def)
qed

lemma inf_lt_sign: "inf_mag F < sign_bit F"
proof -
  have "inf_mag F = 2 ^ mbits F * 2 ^ ebits F - 2 ^ mbits F"
    by (simp add: inf_mag_def algebra_simps diff_mult_distrib)
  moreover have "0 < (2::nat) ^ mbits F" "0 < (2::nat) ^ mbits F * 2 ^ ebits F" by simp_all
  ultimately show ?thesis unfolding sign_bit_def power_add by linarith
qed

lemma nan_lt_sign: "nan_mag F < sign_bit F"
proof -
  have "(2::nat) ^ (mbits F - 1) < 2 ^ mbits F"
    using frac by (intro power_strict_increasing) auto
  moreover have "inf_mag F + 2 ^ mbits F = sign_bit F"
    by (simp add: inf_mag_def sign_bit_def power_add diff_mult_distrib algebra_simps)
  ultimately show ?thesis unfolding nan_mag_def by linarith
qed

lemma f_make_fields [simp]:
  assumes "g < sign_bit F"
  shows "f_mag F (f_make F s g) = g" and "f_neg F (f_make F s g) = s"
proof -
  have "(sign_bit F + g) div sign_bit F = 1"
    using assms by (simp add: div_nat_eqI)
  with assms show "f_mag F (f_make F s g) = g" "f_neg F (f_make F s g) = s"
    by (simp_all add: f_mag_def f_neg_def f_make_def)
qed

lemma f_make_less: "g < sign_bit F \<Longrightarrow> f_make F s g < 2 * sign_bit F"
  by (simp add: f_make_def)

lemma f_mag_less [simp]: "f_mag F n < sign_bit F"
  by (simp add: f_mag_def sign_bit_def)

lemma f_make_id: "n < 2 * sign_bit F \<Longrightarrow> f_make F (f_neg F n) (f_mag F n) = n"
proof -
  assume n: "n < 2 * sign_bit F"
  have p: "0 < sign_bit F" by (simp add: sign_bit_def)
  show ?thesis
  proof (cases "n < sign_bit F")
    case True
    then show ?thesis by (simp add: f_make_def f_neg_def f_mag_def)
  next
    case False
    then have "n div sign_bit F = 1" using n p by (simp add: div_nat_eqI)
    moreover from this have "n mod sign_bit F = n - sign_bit F"
      using minus_mod_eq_mult_div [of n "sign_bit F"] False by (metis diff_diff_cancel minus_mod_eq_div_mult mod_less_eq_dividend mult_1)
    ultimately show ?thesis using False by (simp add: f_make_def f_neg_def f_mag_def)
  qed
qed

lemma round_mag_le: "round_mag F num den \<le> inf_mag F"
  by (simp add: round_mag_def mag_of_def Let_def)

lemma round_sqrt_mag_le: "round_sqrt_mag F R \<le> inf_mag F"
  by (simp add: round_sqrt_mag_def mag_of_def Let_def)

lemma round_lt_sign [simp]:
  "round_mag F num den < sign_bit F" "round_sqrt_mag F R < sign_bit F"
  using round_mag_le [of num den] round_sqrt_mag_le [of R] inf_lt_sign by linarith+

lemma round_mag_0 [simp]: "round_mag F 0 den = 0"
  using inf_mag_pos by (simp add: round_mag_def mag_of_def drop_of_def lg2.simps)

text \<open>A representable value is a fixed point of rounding.\<close>

lemma round_mag_exact:
  assumes g: "g < inf_mag F" and k: "0 < k"
  shows "round_mag F (mag_int F g * k) k = g"
proof -
  define B where "B = (2::nat) ^ mbits F"
  define e where "e = g div B"
  define f where "f = g mod B"
  have B: "0 < B" by (simp add: B_def)
  have f: "f < B" by (simp add: f_def B)
  have geq: "g = e * B + f" by (simp add: e_def f_def)
  have q: "mag_int F g * k div k = mag_int F g" using k by simp
  show ?thesis
  proof (cases "e = 0")
    case True
    have m: "mag_int F g = f" using True by (simp add: mag_int_def Let_def e_def f_def B_def)
    have "lg2 f \<le> mbits F" using f by (intro lg2_less) (simp add: B_def)
    then have j: "drop_of F (f * k div k) = 0" using k unfolding drop_of_def by simp
    have "round_mag F (mag_int F g * k) k = mag_of F 0 f"
      unfolding m round_mag_def j Let_def using k by simp
    with True g show ?thesis by (simp add: mag_of_def geq)
  next
    case False
    have m: "mag_int F g = (B + f) * 2 ^ (e - 1)"
      using False by (simp add: mag_int_def Let_def e_def f_def B_def)
    have "lg2 (mag_int F g) = mbits F + (e - 1)"
    proof (rule lg2_unique)
      show "2 ^ (mbits F + (e - 1)) \<le> mag_int F g" by (simp add: m power_add B_def)
      have "(B + f) * 2 ^ (e - 1) < (2 * B) * 2 ^ (e - 1)"
        using f by (intro mult_strict_right_mono) auto
      then show "mag_int F g < 2 ^ Suc (mbits F + (e - 1))" by (simp add: m power_add B_def)
    qed
    then have j: "drop_of F (mag_int F g * k div k) = e - 1" unfolding q drop_of_def by simp
    have "mag_int F g * k div (k * 2 ^ (e - 1)) = B + f" "mag_int F g * k mod (k * 2 ^ (e - 1)) = 0"
      using k by (simp_all add: m)
    then have "round_mag F (mag_int F g * k) k = mag_of F (e - 1) (B + f)"
      unfolding round_mag_def j Let_def using k by simp
    moreover have "(e - 1) * B + (B + f) = g"
      using False by (cases e) (simp_all add: geq)
    ultimately show ?thesis using g by (simp add: mag_of_def flip: B_def)
  qed
qed

lemma mag_int_less: "mag_int F x < 2 ^ mbits F * 2 ^ (x div 2 ^ mbits F)"
proof -
  define B where "B = (2::nat) ^ mbits F"
  have B: "0 < B" by (simp add: B_def)
  have "mag_int F x < B * 2 ^ (x div B)"
  proof (cases "x div B = 0")
    case True
    then show ?thesis using B by (simp add: mag_int_def Let_def flip: B_def)
  next
    case False
    have "(B + x mod B) * 2 ^ (x div B - 1) < (2 * B) * 2 ^ (x div B - 1)"
      using B by (intro mult_strict_right_mono) auto
    also have "\<dots> = B * 2 ^ (x div B)" using False by (cases "x div B") auto
    finally show ?thesis using False by (simp add: mag_int_def Let_def flip: B_def)
  qed
  then show ?thesis by (simp add: B_def)
qed

text \<open>A quotient well below the largest exponent does not round to an infinity.\<close>

lemma round_mag_lt_inf:
  assumes q: "num div den < 2 ^ (mbits F + K)" and K: "K + 2 < 2 ^ ebits F - 1"
  shows "round_mag F num den < inf_mag F"
proof -
  define B q' j n where "B = (2::nat) ^ mbits F" and "q' = num div den" and "j = drop_of F q'"
    and "n = num div (den * 2 ^ j)"
  have j: "j \<le> K"
  proof (cases K)
    case 0
    then show ?thesis using q lg2_less [of q' "mbits F"] by (simp add: j_def drop_of_def q'_def)
  next
    case (Suc k)
    then show ?thesis using q lg2_less [of q' "mbits F + k"] by (simp add: j_def drop_of_def q'_def)
  qed
  have "q' < 2 * B * 2 ^ j"
  proof (cases "q' = 0")
    case False
    then have "q' < 2 ^ Suc (lg2 q')" using lg2_bounds by simp
    also have "\<dots> \<le> 2 ^ Suc (mbits F + j)" by (intro power_increasing) (auto simp: j_def drop_of_def)
    finally show ?thesis by (simp add: B_def power_add)
  qed (simp add: B_def)
  moreover have "n = q' div 2 ^ j" by (simp add: n_def q'_def div_mult2_eq)
  ultimately have "n < 2 * B" by (simp add: less_mult_imp_div_less)
  then have "j * B + (n + 1) \<le> (j + 2) * B" by simp
  also have "\<dots> \<le> (K + 2) * B" using j by simp
  also have "\<dots> < (2 ^ ebits F - 1) * B" using K by (intro mult_strict_right_mono) (auto simp: B_def)
  finally have m: "j * B + (n + 1) < inf_mag F" by (simp add: inf_mag_def B_def)
  have "round_mag F num den \<le> j * B + (n + 1)"
    unfolding round_mag_def Let_def mag_of_def by (simp add: B_def j_def n_def q'_def min_le_iff_disj)
  with m show ?thesis by simp
qed

lemma mag_int_mono:
  assumes "g < h"
  shows "mag_int F g < mag_int F h"
proof -
  define B where "B = (2::nat) ^ mbits F"
  have B: "0 < B" by (simp add: B_def)
  have up: "mag_int F x < B * 2 ^ (x div B)" for x
    unfolding B_def by (rule mag_int_less)
  have lo: "B * 2 ^ (x div B - 1) \<le> mag_int F x" if "x div B \<noteq> 0" for x
    using that by (simp add: mag_int_def Let_def flip: B_def)
  have "g div B \<le> h div B" using assms by (intro div_le_mono) auto
  moreover have "g mod B < h mod B" if "g div B = h div B"
    using assms div_mult_mod_eq [of g B] div_mult_mod_eq [of h B] that by (metis nat_add_left_cancel_less)
  ultimately consider "g div B < h div B" | "g div B = h div B" "g mod B < h mod B"
    by linarith
  then show ?thesis
  proof cases
    case 1
    then have "g div B \<le> h div B - 1" by linarith
    then have "B * 2 ^ (g div B) \<le> B * 2 ^ (h div B - 1)"
      by (intro mult_le_mono2 power_increasing) auto
    with up [of g] have "mag_int F g < B * 2 ^ (h div B - 1)" by linarith
    with lo [of h] 1 show ?thesis by linarith
  next
    case 2
    then show ?thesis by (simp add: mag_int_def Let_def flip: B_def)
  qed
qed

lemma mag_int_less_iff: "mag_int F g < mag_int F h \<longleftrightarrow> g < h"
  using mag_int_mono by (metis linorder_neqE_nat order_less_asym order_less_irrefl)

lemma mag_int_0 [simp]: "mag_int F 0 = 0"
  by (simp add: mag_int_def)

text \<open>The C order on finite numbers is the order of their values.\<close>

lemma f_lt_iff_value:
  assumes "f_isfin F a" "f_isfin F b"
  shows "f_lt F a b \<longleftrightarrow> f_int F a < f_int F b"
proof -
  have pos: "0 < mag_int F g \<longleftrightarrow> 0 < g" for g
    using mag_int_less_iff [of 0 g] by simp
  have "\<not> f_isnan F a" "\<not> f_isnan F b"
    using assms by (simp_all add: f_isnan_def f_isfin_def)
  moreover have "f_key F a < f_key F b \<longleftrightarrow> f_int F a < f_int F b"
    using mag_int_less_iff [of "f_mag F a" "f_mag F b"] mag_int_less_iff [of "f_mag F b" "f_mag F a"]
      pos [of "f_mag F a"] pos [of "f_mag F b"]
    by (auto simp: f_key_def f_int_def)
  ultimately show ?thesis by (simp add: f_lt_def)
qed

text \<open>Which operations stay clear of NaN and of a negative sign.\<close>

lemma f_class_make [simp]:
  "g < sign_bit F \<Longrightarrow> f_isnan F (f_make F s g) = (inf_mag F < g)"
  "g < sign_bit F \<Longrightarrow> f_isinf F (f_make F s g) = (g = inf_mag F)"
  by (simp_all add: f_isnan_def f_isinf_def)

lemma f_inf_class [simp]:
  "\<not> f_isnan F (f_inf F s)" "f_neg F (f_inf F s) = s" "f_mag F (f_inf F s) = inf_mag F"
  using inf_lt_sign by (simp_all add: f_inf_def)

lemma f_round_notnan [simp]: "\<not> f_isnan F (f_make F s (round_mag F num den))"
  using round_mag_le [of num den] by (simp add: not_less)

lemma f_negate_class [simp]:
  "f_isnan F (f_negate F b) = f_isnan F b" "f_isinf F (f_negate F b) = f_isinf F b"
  "f_neg F (f_negate F b) = (\<not> f_neg F b)" "f_mag F (f_negate F b) = f_mag F b"
  by (simp_all add: f_negate_def f_isnan_def f_isinf_def)

lemma f_int_negate [simp]: "f_int F (f_negate F b) = - f_int F b"
  by (simp add: f_int_def)

lemma f_isfin_class:
  "f_isfin F a \<Longrightarrow> \<not> f_isnan F a" "f_isfin F a \<Longrightarrow> \<not> f_isinf F a"
  by (simp_all add: f_isfin_def f_isnan_def f_isinf_def)

lemma f_add_nonneg:
  assumes "\<not> f_isnan F a" "\<not> f_neg F a" "\<not> f_isnan F b" "\<not> f_neg F b"
  shows "\<not> f_isnan F (f_add F a b)" and "\<not> f_neg F (f_add F a b)"
  using assms inf_mag_pos by (auto simp: f_add_def Let_def f_int_def)

lemma f_mul_self_nonneg:
  assumes "\<not> f_isnan F a"
  shows "\<not> f_isnan F (f_mul F a a)" and "\<not> f_neg F (f_mul F a a)"
  using assms inf_mag_pos by (auto simp: f_mul_def Let_def f_isinf_def f_iszero_def)

lemma f_sqrt_nonneg:
  assumes "\<not> f_isnan F a" "\<not> f_neg F a"
  shows "\<not> f_isnan F (f_sqrt F a)" and "\<not> f_neg F (f_sqrt F a)"
  using assms round_sqrt_mag_le by (auto simp: f_sqrt_def not_less)

lemma f_sub_notnan:
  assumes "f_isfin F a" "f_isfin F b"
  shows "\<not> f_isnan F (f_sub F a b)"
  using assms inf_mag_pos
  by (auto simp: f_sub_def f_add_def Let_def f_isfin_class)

lemma f_sub_mag_sym:
  assumes "f_isfin F a" "f_isfin F b"
  shows "f_mag F (f_sub F a b) = f_mag F (f_sub F b a)"
proof -
  have eq: "f_int F a - f_int F b = 0 \<longleftrightarrow> f_int F b - f_int F a = 0"
    "\<bar>f_int F a - f_int F b\<bar> = \<bar>f_int F b - f_int F a\<bar>" by linarith+
  show ?thesis
    using assms by (simp add: f_sub_def f_add_def Let_def f_isfin_class eq)
qed

lemma f_sub_self_mag: "f_isfin F a \<Longrightarrow> f_mag F (f_sub F a a) = 0"
  by (simp add: f_sub_def f_add_def Let_def f_isfin_class)

lemma f_mul_self_mag: "f_mag F a = f_mag F b \<Longrightarrow> f_mul F a a = f_mul F b b"
  by (simp add: f_mul_def Let_def f_isnan_def f_isinf_def f_iszero_def)

lemma f_mul_self_zero: "f_mag F a = 0 \<Longrightarrow> f_mul F a a = 0"
  using inf_mag_pos by (simp add: f_mul_def Let_def f_isnan_def f_isinf_def f_make_def)

lemma f_mul_commute: "f_mul F a b = f_mul F b a"
proof -
  have s: "(f_neg F a \<noteq> f_neg F b) = (f_neg F b \<noteq> f_neg F a)" by auto
  have z: "f_isinf F c \<Longrightarrow> \<not> f_iszero F c" for c
    using inf_mag_pos by (simp add: f_isinf_def f_iszero_def)
  show ?thesis
    unfolding f_mul_def Let_def s using z [of a] z [of b] by (simp add: mult.commute)
qed

lemma f_div_notnan:
  assumes "\<not> f_isnan F a" "\<not> f_isinf F a" "\<not> f_isnan F b" "\<not> f_iszero F b"
  shows "\<not> f_isnan F (f_div F a b)"
  using assms by (simp add: f_div_def Let_def)

lemma f_make_lt2: "g < sign_bit F \<Longrightarrow> f_make F s g < 2 * sign_bit F"
  by (simp add: f_make_def)

lemma f_nan_lt: "f_nan F < 2 * sign_bit F"
  using nan_lt_sign by (simp add: f_nan_def)

lemma f_inf_lt: "f_inf F s < 2 * sign_bit F"
  using inf_lt_sign by (simp add: f_inf_def f_make_lt2)

lemmas f_ops_lt = f_make_lt2 f_nan_lt f_inf_lt sign_bit_pos

lemma f_results_lt:
  "f_add F a b < 2 * sign_bit F" "f_sub F a b < 2 * sign_bit F"
  "f_mul F a b < 2 * sign_bit F" "f_div F a b < 2 * sign_bit F"
  by (simp_all add: f_add_def f_sub_def f_mul_def f_div_def Let_def f_ops_lt)

lemma f_sqrt_lt: "a < 2 * sign_bit F \<Longrightarrow> f_sqrt F a < 2 * sign_bit F"
  by (simp add: f_sqrt_def f_ops_lt)

end

text \<open>Conversion between two formats.\<close>

locale float_conv = src: float_format F + dst: float_format G for F :: fmt and G :: fmt
begin

lemma f_conv_lt: "f_conv F G a < 2 * sign_bit G"
  by (simp add: f_conv_def dst.f_ops_lt)

lemma f_conv_notnan: "\<not> f_isnan F a \<Longrightarrow> \<not> f_isnan G (f_conv F G a)"
  by (simp add: f_conv_def)

lemma f_conv_neg: "\<not> f_isnan F a \<Longrightarrow> f_neg G (f_conv F G a) = f_neg F a"
  by (simp add: f_conv_def)

lemma f_conv_mag:
  "\<not> f_isnan F a \<Longrightarrow> \<not> f_isnan F b \<Longrightarrow> f_mag F a = f_mag F b \<Longrightarrow>
   f_mag G (f_conv F G a) = f_mag G (f_conv F G b)"
  by (simp add: f_conv_def f_isinf_def)

lemma f_conv_zero: "f_mag F a = 0 \<Longrightarrow> f_mag G (f_conv F G a) = 0"
  using src.inf_mag_pos dst.sign_bit_pos by (simp add: f_conv_def f_isnan_def f_isinf_def)

end

interpretation b32: float_format binary32
  by unfold_locales (simp_all add: binary32_def)

interpretation b64: float_format binary64
  by unfold_locales (simp_all add: binary64_def)

interpretation widen: float_conv binary32 binary64
  by unfold_locales

interpretation narrow: float_conv binary64 binary32
  by unfold_locales

section \<open>Facts on the C operations\<close>

lemma two_sign_bit [simp]:
  "2 * sign_bit binary32 = 4294967296" "2 * sign_bit binary64 = 18446744073709551616"
  by (simp_all add: sign_bit_def binary32_def binary64_def)

lemma unat_of_nat4: "n < 2 * sign_bit binary32 \<Longrightarrow> unat (of_nat n :: float4) = n"
  by (simp add: unat_of_nat take_bit_nat_eq_self_iff)

lemma unat_of_nat8: "n < 2 * sign_bit binary64 \<Longrightarrow> unat (of_nat n :: float8) = n"
  by (simp add: unat_of_nat take_bit_nat_eq_self_iff)

lemma unat_lt4 [simp]: "unat (a :: float4) < 2 * sign_bit binary32"
  using unsigned_less [of a] by simp

lemma unat_lt8 [simp]: "unat (a :: float8) < 2 * sign_bit binary64"
  using unsigned_less [of a] by simp

lemmas unat_f_ops =
  unat_of_nat4 [OF b32.f_results_lt(2)] unat_of_nat4 [OF b32.f_results_lt(3)]
  unat_of_nat8 [OF b64.f_results_lt(1)] unat_of_nat8 [OF b64.f_results_lt(2)]
  unat_of_nat8 [OF b64.f_results_lt(3)] unat_of_nat8 [OF b64.f_results_lt(4)]
  unat_of_nat8 [OF b64.f_sqrt_lt [OF unat_lt8]]
  unat_of_nat8 [OF widen.f_conv_lt] unat_of_nat4 [OF narrow.f_conv_lt]

lemmas f_op_defs = f4_sub_def f4_mul_def f8_add_def f8_sub_def f8_mul_def f8_div_def
  f8_sqrt_def f8_of_f4_def f4_of_f8_def op2_def

lemma f8_lt_key: "f8_lt a b \<longleftrightarrow> \<not> f8_isnan a \<and> \<not> f8_isnan b \<and> f8_key a < f8_key b"
  by (simp add: f8_lt_def f_lt_def f8_isnan_def f8_key_def)

lemma f4_lt_key: "f4_lt a b \<longleftrightarrow> \<not> f4_isnan a \<and> \<not> f4_isnan b \<and> f4_key a < f4_key b"
  by (simp add: f4_lt_def f_lt_def f4_isnan_def f4_key_def)

lemma f4_le_key: "f4_le a b \<longleftrightarrow> \<not> f4_isnan a \<and> \<not> f4_isnan b \<and> f4_key a \<le> f4_key b"
  by (simp add: f4_le_def f_le_def f4_isnan_def f4_key_def)

text \<open>\<open>f8_pos\<close>: neither a NaN nor sign-bit negative.\<close>

definition f8_pos :: "float8 \<Rightarrow> bool" where
  "f8_pos a = (\<not> f8_isnan a \<and> \<not> f_neg binary64 (unat a))"

definition f4_finite :: "float4 \<Rightarrow> bool" where
  "f4_finite a = (\<not> f4_isnan a \<and> \<not> f4_isinf a)"

lemma f4_finite_fin: "f4_finite a \<longleftrightarrow> f_isfin binary32 (unat a)"
  by (auto simp: f4_finite_def f4_isnan_def f4_isinf_def f_isnan_def f_isinf_def f_isfin_def)

lemma f8_add_pos: "f8_pos a \<Longrightarrow> f8_pos b \<Longrightarrow> f8_pos (f8_add a b)"
  by (simp add: f8_pos_def f8_isnan_def f_op_defs unat_f_ops b64.f_add_nonneg)

lemma f8_square_pos: "\<not> f8_isnan a \<Longrightarrow> f8_pos (f8_mul a a)"
  by (simp add: f8_pos_def f8_isnan_def f_op_defs unat_f_ops b64.f_mul_self_nonneg)

lemma f8_sqrt_pos: "f8_pos a \<Longrightarrow> f8_pos (f8_sqrt a)"
  by (simp add: f8_pos_def f8_isnan_def f_op_defs unat_f_ops b64.f_sqrt_nonneg)

lemma f8_pos_zero: "f8_pos f8_zero"
  by (simp add: f8_pos_def f8_isnan_def f8_zero_def f_isnan_def f_mag_def f_neg_def)

lemma f8_pos_key: "f8_pos a \<Longrightarrow> 0 \<le> f8_key a"
  by (simp add: f8_pos_def f8_key_def f_key_def)

lemma f8_of_f4_notnan: "\<not> f4_isnan a \<Longrightarrow> \<not> f8_isnan (f8_of_f4 a)"
  by (simp add: f4_isnan_def f8_isnan_def f_op_defs unat_f_ops widen.f_conv_notnan)

lemma f8_of_f4_finite:
  assumes "f4_finite a"
  shows "\<not> f8_isinf (f8_of_f4 a)"
proof -
  let ?g = "f_mag binary32 (unat a)"
  have g: "?g < inf_mag binary32" using assms by (simp add: f4_finite_fin f_isfin_def)
  then have "?g div 2 ^ 23 \<le> 254" by (simp add: inf_mag_def binary32_def)
  then have "(2::nat) ^ (?g div 2 ^ 23) \<le> 2 ^ 254" by (intro power_increasing) auto
  moreover have "mag_int binary32 ?g < 2 ^ 23 * 2 ^ (?g div 2 ^ 23)"
    using b32.mag_int_less [of ?g] by (simp add: binary32_def)
  ultimately have "mag_int binary32 ?g < 2 ^ 23 * 2 ^ 254"
    by (meson less_le_trans mult_le_mono2)
  then have m: "mag_int binary32 ?g * 2 ^ 925 < 2 ^ 1202" by simp
  have "mag_int binary32 ?g * 2 ^ unit_exp binary64 div 2 ^ unit_exp binary32 = mag_int binary32 ?g * 2 ^ 925"
    by (simp add: unit_exp_def binary32_def binary64_def)
  then have "round_mag binary64 (mag_int binary32 ?g * 2 ^ unit_exp binary64) (2 ^ unit_exp binary32) < inf_mag binary64"
    using m by (intro b64.round_mag_lt_inf [of _ _ 1150]) (simp_all add: binary64_def)
  with g have "\<not> f_isinf binary64 (f_conv binary32 binary64 (unat a))"
    by (simp add: f_conv_def f_isnan_def f_isinf_def)
  then show ?thesis by (simp add: f8_isinf_def f8_of_f4_def unat_f_ops)
qed

lemma f4_sub_notnan: "f4_finite a \<Longrightarrow> f4_finite b \<Longrightarrow> \<not> f4_isnan (f4_sub a b)"
  by (simp add: f4_finite_fin f4_isnan_def f_op_defs unat_f_ops b32.f_sub_notnan)

lemma f8_square_diff_sym:
  assumes "f4_finite a" "f4_finite b"
  shows "f8_mul (f8_of_f4 (f4_sub a b)) (f8_of_f4 (f4_sub a b)) =
         f8_mul (f8_of_f4 (f4_sub b a)) (f8_of_f4 (f4_sub b a))"
proof -
  let ?d = "f_sub binary32 (unat a) (unat b)" and ?d' = "f_sub binary32 (unat b) (unat a)"
  have "f_mag binary64 (f_conv binary32 binary64 ?d) = f_mag binary64 (f_conv binary32 binary64 ?d')"
    using assms by (intro widen.f_conv_mag)
      (simp_all add: f4_finite_fin b32.f_sub_notnan b32.f_sub_mag_sym [of "unat a" "unat b"])
  from b64.f_mul_self_mag [OF this] show ?thesis
    by (simp add: f_op_defs unat_f_ops)
qed

lemma f8_square_diff_self:
  assumes "f4_finite a"
  shows "f8_mul (f8_of_f4 (f4_sub a a)) (f8_of_f4 (f4_sub a a)) = f8_zero"
  using assms
  by (simp add: f_op_defs unat_f_ops f4_finite_fin f8_zero_def
      b64.f_mul_self_zero [OF widen.f_conv_zero [OF b32.f_sub_self_mag]])

lemma f8_add_zero_zero: "f8_add f8_zero f8_zero = f8_zero"
  using b64.inf_mag_pos
  by (simp add: f8_add_def op2_def f8_zero_def f_add_def Let_def f_isnan_def f_isinf_def f_mag_def
      f_int_def f_neg_def f_make_def)

lemma f8_sqrt_zero: "f8_sqrt f8_zero = f8_zero"
  by (simp add: f8_sqrt_def f8_zero_def f_sqrt_def f_isnan_def f_iszero_def f_mag_def)

end
