(* ===== verification/VectorType.thy ===== *)
theory VectorType
  imports CFloat "HOL-Library.List_Lexorder"
begin

text \<open>
  The SQL type \<open>vector\<close> of \<open>src/backend/utils/adt/vector.c\<close>: text and binary input
  and output, type modifiers, the L2 and cosine distances, comparison and normalisation.
  \<open>strtof\<close> of the C library is modelled in the C locale (the one PostgreSQL runs the
  number parsers in); the message primitives of \<open>pqformat.c\<close> are modelled on byte lists;
  the shortest-decimal printer is a parameter of the output function.

  The lemmas give the well-formedness of every constructed vector, both round trips, the
  bound on the output buffer, the metric facts of the L2 distance, the comparison order, and
  the cases in which the cosine distance leaves the range of a distance.
\<close>

section \<open>The data type\<close>

record Vector =
  vl_len :: int
  v_dim :: int
  v_unused :: int
  v_x :: "float4 list"

definition VECTOR_MAX_DIM :: int where
  "VECTOR_MAX_DIM = 16000"

definition VECTOR_SIZE :: "int \<Rightarrow> int" where
  "VECTOR_SIZE d = 8 + 4 * d"

text \<open>Conversion of a C integer to \<open>int16\<close>.\<close>

definition to_int16 :: "int \<Rightarrow> int" where
  "to_int16 i = (i + 32768) mod 65536 - 32768"

definition CheckExpectedDim :: "int \<Rightarrow> int \<Rightarrow> unit result" where
  "CheckExpectedDim typmod dim =
     (if typmod \<noteq> -1 \<and> typmod \<noteq> dim then Inl (ErrExpectedDim typmod dim) else Inr ())"

definition CheckDim :: "int \<Rightarrow> unit result" where
  "CheckDim dim =
     (if dim < 1 then Inl ErrTooFewDims
      else if dim > VECTOR_MAX_DIM then Inl ErrTooManyDims
      else Inr ())"

definition CheckDims :: "Vector \<Rightarrow> Vector \<Rightarrow> unit result" where
  "CheckDims a b =
     (if v_dim a \<noteq> v_dim b then Inl (ErrDifferentDims (v_dim a) (v_dim b)) else Inr ())"

definition CheckElement :: "float4 \<Rightarrow> unit result" where
  "CheckElement value =
     (if f4_isnan value then Inl ErrNaN
      else if f4_isinf value then Inl ErrInfinite
      else Inr ())"

definition InitVector :: "int \<Rightarrow> Vector" where
  "InitVector dim =
     \<lparr>vl_len = VECTOR_SIZE dim, v_dim = to_int16 dim, v_unused = 0, v_x = replicate (nat dim) 0\<rparr>"

section \<open>Text input\<close>

definition vector_isspace :: "char \<Rightarrow> bool" where
  "vector_isspace ch = (ch \<in> {CHR '' '', CHR 0x09, CHR 0x0A, CHR 0x0D, CHR 0x0B, CHR 0x0C})"

definition skip_spaces :: "string \<Rightarrow> string" where
  "skip_spaces s = dropWhile vector_isspace s"

subsection \<open>The C library's \<open>strtof\<close>\<close>

definition c_isdigit :: "char \<Rightarrow> bool" where
  "c_isdigit c = (48 \<le> (of_char c :: nat) \<and> (of_char c :: nat) \<le> 57)"

definition c_tolower :: "char \<Rightarrow> char" where
  "c_tolower c = (if 65 \<le> (of_char c :: nat) \<and> (of_char c :: nat) \<le> 90
     then char_of ((of_char c :: nat) + 32) else c)"

definition c_isxdigit :: "char \<Rightarrow> bool" where
  "c_isxdigit c = (c_isdigit c \<or>
     (97 \<le> (of_char (c_tolower c) :: nat) \<and> (of_char (c_tolower c) :: nat) \<le> 102))"

definition digit_value :: "char \<Rightarrow> nat" where
  "digit_value c = (if c_isdigit c then of_char c - 48 else of_char (c_tolower c) - 87)"

definition digits_value :: "nat \<Rightarrow> string \<Rightarrow> nat" where
  "digits_value base ds = foldl (\<lambda>n c. base * n + digit_value c) 0 ds"

definition ci_prefix :: "string \<Rightarrow> string \<Rightarrow> bool" where
  "ci_prefix p s = (map c_tolower (take (length p) s) = p)"

text \<open>An optional exponent part: its value and the number of characters it takes.\<close>

definition scan_exponent :: "char \<Rightarrow> string \<Rightarrow> int \<times> nat" where
  "scan_exponent mark s =
     (case s of
        [] \<Rightarrow> (0, 0)
      | c # r \<Rightarrow>
          if c_tolower c \<noteq> mark then (0, 0)
          else let sl = (case r of [] \<Rightarrow> 0 | d # _ \<Rightarrow> if d = CHR ''+'' \<or> d = CHR ''-'' then 1 else (0::nat));
                   neg = (sl = 1 \<and> hd r = CHR ''-'');
                   ds = takeWhile c_isdigit (drop sl r);
                   n = int (digits_value 10 ds)
               in if ds = [] then (0, 0) else (if neg then - n else n, 1 + sl + length ds))"

text \<open>Digits with an optional radix point: the digits, how many of them are fractional and
  the number of characters taken.\<close>

definition scan_digits :: "(char \<Rightarrow> bool) \<Rightarrow> string \<Rightarrow> string \<times> nat \<times> nat" where
  "scan_digits isd s =
     (let i = takeWhile isd s; r = drop (length i) s
      in case r of
           [] \<Rightarrow> (i, 0, length i)
         | c # r' \<Rightarrow>
             if c = CHR ''.'' then
               (let f = takeWhile isd r'
                in if i = [] \<and> f = [] then ([], 0, 0) else (i @ f, length f, length i + 1 + length f))
             else (i, 0, length i))"

text \<open>Magnitude bits of a fraction, and whether the conversion reports a range error: an overflow, or an inexact result below the
  normal numbers.\<close>

definition mag_of_fraction :: "fmt \<Rightarrow> nat \<Rightarrow> nat \<Rightarrow> nat \<times> bool" where
  "mag_of_fraction F num den =
     (let g = round_mag F (num * 2 ^ unit_exp F) den
      in (g, g = inf_mag F \<or> (g < 2 ^ mbits F \<and> mag_int F g * den \<noteq> num * 2 ^ unit_exp F)))"

text \<open>An unsigned subject sequence: magnitude bits, range error, characters taken (0: none).\<close>

definition scan_number :: "fmt \<Rightarrow> nat \<Rightarrow> nat \<Rightarrow> nat \<Rightarrow> (char \<Rightarrow> bool) \<Rightarrow> char \<Rightarrow> string \<Rightarrow> nat \<times> bool \<times> nat" where
  "scan_number F base ebase step isd mark s =
     (let (ds, fl, n) = scan_digits isd s;
          (ex, en) = scan_exponent mark (drop n s);
          e = ex - int (step * fl);
          (g, er) = mag_of_fraction F (digits_value base ds * ebase ^ nat e) (ebase ^ nat (- e))
      in if ds = [] then (0, False, 0) else (g, er, n + en))"

definition scan_unsigned :: "fmt \<Rightarrow> string \<Rightarrow> nat \<times> bool \<times> nat" where
  "scan_unsigned F s =
     (if ci_prefix ''infinity'' s then (inf_mag F, False, 8)
      else if ci_prefix ''inf'' s then (inf_mag F, False, 3)
      else if ci_prefix ''nan'' s then
        (let r = drop 3 s;
             body = takeWhile (\<lambda>c. c_isdigit c \<or> c = CHR ''_'' \<or>
               (97 \<le> (of_char (c_tolower c) :: nat) \<and> (of_char (c_tolower c) :: nat) \<le> 122)) (drop 1 r)
         in if r \<noteq> [] \<and> hd r = CHR ''('' \<and> take 1 (drop (1 + length body) r) = '')''
            then (nan_mag F, False, 5 + length body) else (nan_mag F, False, 3))
      else if ci_prefix ''0x'' s \<and> fst (scan_digits c_isxdigit (drop 2 s)) \<noteq> [] then
        (let (g, er, n) = scan_number F 16 2 4 c_isxdigit (CHR ''p'') (drop 2 s) in (g, er, n + 2))
      else scan_number F 10 10 1 c_isdigit (CHR ''e'') s)"

text \<open>\<open>strtof(s, &end)\<close>: the value, how many characters \<open>end\<close> is past \<open>s\<close>, and
  whether \<open>errno\<close> was set to \<open>ERANGE\<close>; \<open>strto F\<close> gives the bits for both formats.\<close>

definition strto :: "fmt \<Rightarrow> string \<Rightarrow> nat \<times> nat \<times> bool" where
  "strto F s =
     (let ws = length (takeWhile vector_isspace s);
          s1 = drop ws s;
          sl = (case s1 of [] \<Rightarrow> 0 | d # _ \<Rightarrow> if d = CHR ''+'' \<or> d = CHR ''-'' then 1 else (0::nat));
          neg = (sl = 1 \<and> hd s1 = CHR ''-'');
          (g, er, n) = scan_unsigned F (drop sl s1)
      in if n = 0 then (0, 0, False)
         else (f_make F neg g, ws + sl + n, er))"

definition strtof :: "string \<Rightarrow> float4 \<times> nat \<times> bool" where
  "strtof s = (let (b, n, er) = strto binary32 s in (of_nat b, n, er))"

subsection \<open>\<open>vector_in\<close>\<close>

lemma skip_spaces_length: "length (skip_spaces s) \<le> length s"
  unfolding skip_spaces_def by (rule length_dropWhile_le)

lemma skip_drop_shorter:
  "c # r = skip_spaces (drop n (skip_spaces pt)) \<Longrightarrow> length r < length pt"
  using skip_spaces_length [of "drop n (skip_spaces pt)"] skip_spaces_length [of pt]
  by (metis Suc_le_lessD diff_le_self dual_order.trans length_Cons length_drop)

text \<open>The loop over the elements: \<open>dim\<close> is the length of the array \<open>x\<close> read so far, the
  string is what \<open>pt\<close> points at (its end is the terminating NUL).\<close>

function vector_in_loop :: "float4 list \<Rightarrow> string \<Rightarrow> (float4 list \<times> string) result" where
  "vector_in_loop xs pt =
     (if int (length xs) = VECTOR_MAX_DIM then Inl ErrTooManyDims
      else let p1 = skip_spaces pt in
        if p1 = [] then Inl ErrSyntax
        else let (val, n, erange) = strtof p1 in
          if n = 0 then Inl ErrSyntax
          else if erange \<and> f4_isinf val then Inl ErrOutOfRange
          else rbind (CheckElement val) (\<lambda>_.
            let xs' = xs @ [val]; p2 = skip_spaces (drop n p1) in
            case p2 of
              [] \<Rightarrow> Inl ErrSyntax
            | c # r \<Rightarrow>
                if c = CHR '','' then vector_in_loop xs' r
                else if c = CHR '']'' then Inr (xs', r)
                else Inl ErrSyntax))"
  by pat_completeness auto
termination
  by (relation "measure (\<lambda>(xs, pt). length pt)") (auto intro: skip_drop_shorter)

declare vector_in_loop.simps [simp del]

definition vector_in :: "string \<Rightarrow> int \<Rightarrow> Vector result" where
  "vector_in lit typmod =
     (let p1 = skip_spaces lit in
      if p1 = [] \<or> hd p1 \<noteq> CHR ''['' then Inl ErrStart
      else let p2 = skip_spaces (tl p1) in
        if p2 \<noteq> [] \<and> hd p2 = CHR '']'' then Inl ErrTooFewDims
        else rbind (vector_in_loop [] p2) (\<lambda>(xs, pt).
          let p3 = skip_spaces pt; dim = int (length xs) in
          if p3 \<noteq> [] then Inl ErrJunk
          else rbind (CheckDim dim) (\<lambda>_.
            rbind (CheckExpectedDim typmod dim) (\<lambda>_.
              Inr ((InitVector dim)\<lparr>v_x := xs\<rparr>)))))"


section \<open>Text output and type modifiers\<close>

text \<open>\<open>print\<close> stands for \<open>float_to_shortest_decimal_bufn\<close>; the string is the contents of
  the buffer before its terminating NUL.\<close>

fun out_elements :: "(float4 \<Rightarrow> string) \<Rightarrow> nat \<Rightarrow> float4 list \<Rightarrow> string" where
  "out_elements print i [] = []"
| "out_elements print i (f # fs) =
     (if 0 < i then '','' else []) @ print f @ out_elements print (Suc i) fs"

definition vector_out :: "(float4 \<Rightarrow> string) \<Rightarrow> Vector \<Rightarrow> string" where
  "vector_out print vector = ''['' @ out_elements print 0 (take (nat (v_dim vector)) (v_x vector)) @ '']''"

text \<open>Bytes allocated for the output.\<close>

definition FLOAT_SHORTEST_DECIMAL_LEN :: nat where
  "FLOAT_SHORTEST_DECIMAL_LEN = 16"

definition vector_out_bufsize :: "Vector \<Rightarrow> int" where
  "vector_out_bufsize vector = int FLOAT_SHORTEST_DECIMAL_LEN * v_dim vector + 2"

text \<open>\<open>tms\<close> is the integer array that \<open>ArrayGetIntegerTypmods\<close> extracts.\<close>

definition vector_typmod_in :: "int list \<Rightarrow> int result" where
  "vector_typmod_in tms =
     (if length tms \<noteq> 1 then Inl ErrTypmodCount
      else if hd tms < 1 then Inl ErrTypmodMin
      else if hd tms > VECTOR_MAX_DIM then Inl ErrTypmodMax
      else Inr (hd tms))"

section \<open>Binary input and output\<close>

type_synonym byte = "8 word"

text \<open>A message buffer: its data and the read cursor.\<close>

record StringInfo =
  si_data :: "byte list"
  si_cursor :: nat

definition pq_copymsgbytes :: "StringInfo \<Rightarrow> int \<Rightarrow> (byte list \<times> StringInfo) result" where
  "pq_copymsgbytes msg datalen =
     (if datalen < 0 \<or> datalen > int (length (si_data msg)) - int (si_cursor msg) then Inl ErrInsufficientData
      else Inr (take (nat datalen) (drop (si_cursor msg) (si_data msg)),
                msg\<lparr>si_cursor := si_cursor msg + nat datalen\<rparr>))"

text \<open>Network byte order.\<close>

definition ntoh :: "byte list \<Rightarrow> int" where
  "ntoh bs = foldl (\<lambda>n b. 256 * n + uint b) 0 bs"

definition hton16 :: "int \<Rightarrow> byte list" where
  "hton16 i = [of_int (i div 256), of_int i]"

definition hton32 :: "int \<Rightarrow> byte list" where
  "hton32 i = [of_int (i div 16777216), of_int (i div 65536), of_int (i div 256), of_int i]"

definition pq_getmsgint :: "StringInfo \<Rightarrow> int \<Rightarrow> (int \<times> StringInfo) result" where
  "pq_getmsgint msg b =
     (if b = 1 \<or> b = 2 \<or> b = 4 then
        rbind (pq_copymsgbytes msg b) (\<lambda>(bs, msg'). Inr (ntoh bs, msg'))
      else Inl (ErrIntegerSize b))"

definition pq_getmsgfloat4 :: "StringInfo \<Rightarrow> (float4 \<times> StringInfo) result" where
  "pq_getmsgfloat4 msg = rbind (pq_getmsgint msg 4) (\<lambda>(i, msg'). Inr (of_int i, msg'))"

fun recv_elements :: "nat \<Rightarrow> StringInfo \<Rightarrow> (float4 list \<times> StringInfo) result" where
  "recv_elements 0 buf = Inr ([], buf)"
| "recv_elements (Suc n) buf =
     rbind (pq_getmsgfloat4 buf) (\<lambda>(f, buf1).
     rbind (CheckElement f) (\<lambda>_.
     rbind (recv_elements n buf1) (\<lambda>(fs, buf2). Inr (f # fs, buf2))))"

definition vector_recv :: "StringInfo \<Rightarrow> int \<Rightarrow> (Vector \<times> StringInfo) result" where
  "vector_recv buf typmod =
     rbind (pq_getmsgint buf 2) (\<lambda>(d, buf1).
     rbind (pq_getmsgint buf1 2) (\<lambda>(u, buf2).
       let dim = to_int16 d; unused = to_int16 u in
       rbind (CheckDim dim) (\<lambda>_.
       rbind (CheckExpectedDim typmod dim) (\<lambda>_.
         if unused \<noteq> 0 then Inl (ErrUnused unused)
         else rbind (recv_elements (nat dim) buf2) (\<lambda>(fs, buf3).
           Inr ((InitVector dim)\<lparr>v_x := fs\<rparr>, buf3))))))"

definition pq_begintypsend :: "byte list" where
  "pq_begintypsend = [0, 0, 0, 0]"

text \<open>The two integer sizes \<open>vector_send\<close> uses.\<close>

definition pq_sendint16 :: "byte list \<Rightarrow> int \<Rightarrow> byte list" where
  "pq_sendint16 buf i = buf @ hton16 (i mod 65536)"

definition pq_sendfloat4 :: "byte list \<Rightarrow> float4 \<Rightarrow> byte list" where
  "pq_sendfloat4 buf f = buf @ hton32 (uint f)"

text \<open>\<open>SET_VARSIZE\<close> on a little-endian machine: the length shifted left by two.\<close>

definition pq_endtypsend :: "byte list \<Rightarrow> byte list" where
  "pq_endtypsend buf = rev (hton32 (4 * int (length buf))) @ drop 4 buf"

definition vector_send :: "Vector \<Rightarrow> byte list" where
  "vector_send vec =
     pq_endtypsend (foldl pq_sendfloat4
       (pq_sendint16 (pq_sendint16 pq_begintypsend (v_dim vec)) (v_unused vec))
       (take (nat (v_dim vec)) (v_x vec)))"

definition vector_enforce_dim :: "Vector \<Rightarrow> int \<Rightarrow> Vector result" where
  "vector_enforce_dim vec typmod = rbind (CheckExpectedDim typmod (v_dim vec)) (\<lambda>_. Inr vec)"

section \<open>Distances, comparison, normalisation\<close>

text \<open>The loops run over \<open>i < a->dim\<close> and read both arrays.\<close>

fun l2_sum :: "float8 \<Rightarrow> nat \<Rightarrow> float4 list \<Rightarrow> float4 list \<Rightarrow> float8 result" where
  "l2_sum acc 0 xs ys = Inr acc"
| "l2_sum acc (Suc n) (x # xs) (y # ys) =
     (let diff = f8_of_f4 (f4_sub x y) in l2_sum (f8_add acc (f8_mul diff diff)) n xs ys)"
| "l2_sum acc (Suc n) _ _ = Inl UndefinedBehaviour"

definition vector_l2_distance :: "Vector \<Rightarrow> Vector \<Rightarrow> float8 result" where
  "vector_l2_distance a b =
     rbind (CheckDims a b) (\<lambda>_.
     rbind (l2_sum f8_zero (nat (v_dim a)) (v_x a) (v_x b)) (\<lambda>acc. Inr (f8_sqrt acc)))"

fun cosine_sums :: "float8 \<times> float8 \<times> float8 \<Rightarrow> nat \<Rightarrow> float4 list \<Rightarrow> float4 list \<Rightarrow>
    (float8 \<times> float8 \<times> float8) result" where
  "cosine_sums acc 0 xs ys = Inr acc"
| "cosine_sums (dot, norm_a, norm_b) (Suc n) (x # xs) (y # ys) =
     cosine_sums (f8_add dot (f8_of_f4 (f4_mul x y)),
                  f8_add norm_a (f8_of_f4 (f4_mul x x)),
                  f8_add norm_b (f8_of_f4 (f4_mul y y))) n xs ys"
| "cosine_sums acc (Suc n) _ _ = Inl UndefinedBehaviour"

definition vector_cosine_distance :: "Vector \<Rightarrow> Vector \<Rightarrow> float8 result" where
  "vector_cosine_distance a b =
     rbind (CheckDims a b) (\<lambda>_.
     rbind (cosine_sums (f8_zero, f8_zero, f8_zero) (nat (v_dim a)) (v_x a) (v_x b))
       (\<lambda>(dot, norm_a, norm_b).
         if f8_eq norm_a f8_zero \<or> f8_eq norm_b f8_zero then Inr f8_zero
         else let similarity = f8_div dot (f8_mul (f8_sqrt norm_a) (f8_sqrt norm_b))
              in Inr (f8_sub f8_one similarity)))"

fun cmp_elements :: "nat \<Rightarrow> float4 list \<Rightarrow> float4 list \<Rightarrow> (int option) result" where
  "cmp_elements 0 xs ys = Inr None"
| "cmp_elements (Suc n) (x # xs) (y # ys) =
     (if f4_lt x y then Inr (Some (-1))
      else if f4_lt y x then Inr (Some 1)
      else cmp_elements n xs ys)"
| "cmp_elements (Suc n) _ _ = Inl UndefinedBehaviour"

definition vector_cmp_internal :: "Vector \<Rightarrow> Vector \<Rightarrow> int result" where
  "vector_cmp_internal a b =
     rbind (cmp_elements (nat (min (v_dim a) (v_dim b))) (v_x a) (v_x b)) (\<lambda>r.
       case r of
         Some c \<Rightarrow> Inr c
       | None \<Rightarrow> if v_dim a < v_dim b then Inr (-1)
                 else if v_dim a > v_dim b then Inr 1
                 else Inr 0)"

definition vector_cmp :: "Vector \<Rightarrow> Vector \<Rightarrow> int result" where
  "vector_cmp a b = vector_cmp_internal a b"

definition norm_sum :: "float4 list \<Rightarrow> float8" where
  "norm_sum xs = foldl (\<lambda>s x. f8_add s (f8_mul (f8_of_f4 x) (f8_of_f4 x))) f8_zero xs"

definition l2_normalize :: "Vector \<Rightarrow> Vector result" where
  "l2_normalize a =
     (let ax = take (nat (v_dim a)) (v_x a);
          result = InitVector (v_dim a);
          norm = f8_sqrt (norm_sum ax)
      in if f8_lt f8_zero norm then
           (let rx = map (\<lambda>x. f4_of_f8 (f8_div (f8_of_f4 x) norm)) ax
            in if list_ex f4_isinf rx then Inl ErrOverflow else Inr (result\<lparr>v_x := rx\<rparr>))
         else Inr result)"

text \<open>\<open>datumIsEqual\<close> on two untoasted vectors compares their bytes, header included.\<close>

definition datumIsEqual :: "Vector \<Rightarrow> Vector \<Rightarrow> bool" where
  "datumIsEqual a b = (vl_len a = vl_len b \<and> v_dim a = v_dim b \<and> v_unused a = v_unused b \<and> v_x a = v_x b)"


section \<open>Well-formed vectors\<close>

definition vec_wf :: "Vector \<Rightarrow> bool" where
  "vec_wf v = (vl_len v = VECTOR_SIZE (v_dim v) \<and> 1 \<le> v_dim v \<and> v_dim v \<le> VECTOR_MAX_DIM \<and>
     v_unused v = 0 \<and> length (v_x v) = nat (v_dim v) \<and> list_all f4_finite (v_x v))"

lemma CheckElement_eq [hnsw_err]: "CheckElement f = Inr u \<longleftrightarrow> f4_finite f"
  by (simp add: CheckElement_def f4_finite_def)

lemma CheckDim_eq [hnsw_err]: "CheckDim d = Inr u \<longleftrightarrow> 1 \<le> d \<and> d \<le> VECTOR_MAX_DIM"
  by (auto simp: CheckDim_def)

lemma CheckExpectedDim_eq [hnsw_err]: "CheckExpectedDim t d = Inr u \<longleftrightarrow> t = -1 \<or> t = d"
  by (simp add: CheckExpectedDim_def)

lemma CheckDims_eq [hnsw_err]: "CheckDims a b = Inr u \<longleftrightarrow> v_dim a = v_dim b"
  by (simp add: CheckDims_def)

lemma to_int16_id: "- 32768 \<le> i \<Longrightarrow> i < 32768 \<Longrightarrow> to_int16 i = i"
  by (simp add: to_int16_def)

lemma InitVector_wf:
  assumes "1 \<le> d" "d \<le> VECTOR_MAX_DIM" "int (length xs) = d" "list_all f4_finite xs"
  shows "vec_wf ((InitVector d)\<lparr>v_x := xs\<rparr>)" and "v_dim ((InitVector d)\<lparr>v_x := xs\<rparr>) = d"
  using assms by (auto simp: vec_wf_def InitVector_def to_int16_id VECTOR_MAX_DIM_def)

lemma vector_in_loop_ok:
  "vector_in_loop xs pt = Inr (ys, r) \<Longrightarrow> list_all f4_finite xs \<Longrightarrow>
   int (length xs) \<le> VECTOR_MAX_DIM \<Longrightarrow>
   list_all f4_finite ys \<and> int (length ys) \<le> VECTOR_MAX_DIM \<and> length xs < length ys"
proof (induction xs pt rule: vector_in_loop.induct)
  case (1 xs pt)
  from "1.prems"(1) obtain val n er c rs where
    lim: "int (length xs) \<noteq> VECTOR_MAX_DIM" and ne: "skip_spaces pt \<noteq> []"
    and st: "strtof (skip_spaces pt) = (val, n, er)" "n \<noteq> 0" "\<not> (er \<and> f4_isinf val)"
    and fin: "f4_finite val"
    and p2: "skip_spaces (drop n (skip_spaces pt)) = c # rs"
    and br: "(c = CHR '','' \<and> vector_in_loop (xs @ [val]) rs = Inr (ys, r)) \<or>
             (c \<noteq> CHR '','' \<and> ys = xs @ [val])"
    by (subst (asm) vector_in_loop.simps)
       (auto simp: Let_def hnsw_err split: if_splits prod.splits list.splits)
  from fin have chk: "CheckElement val = Inr ()" by (simp add: hnsw_err)
  from lim "1.prems"(2,3) fin
  have inv: "list_all f4_finite (xs @ [val])" "int (length (xs @ [val])) \<le> VECTOR_MAX_DIM"
    by auto
  from br show ?case
  proof
    assume a: "c = CHR '','' \<and> vector_in_loop (xs @ [val]) rs = Inr (ys, r)"
    have "list_all f4_finite ys \<and> int (length ys) \<le> VECTOR_MAX_DIM \<and> length (xs @ [val]) < length ys"
      by (rule "1.IH" [OF lim refl ne refl st(1) [symmetric] refl st(2,3) chk refl refl p2 _ _ inv])
         (use a in auto)
    then show ?case by simp
  qed (use inv in auto)
qed

lemma vector_in_ok:
  assumes "vector_in lit typmod = Inr v"
  shows "vec_wf v" and "typmod = -1 \<or> v_dim v = typmod"
proof -
  from assms obtain xs pt where l: "vector_in_loop [] (skip_spaces (tl (skip_spaces lit))) = Inr (xs, pt)"
    and d: "1 \<le> int (length xs)" "int (length xs) \<le> VECTOR_MAX_DIM"
    and t: "typmod = -1 \<or> typmod = int (length xs)"
    and v: "v = (InitVector (int (length xs)))\<lparr>v_x := xs\<rparr>"
    by (auto simp: vector_in_def Let_def hnsw_err split: if_splits prod.splits)
  have "list_all f4_finite xs" using vector_in_loop_ok [OF l] by (simp add: VECTOR_MAX_DIM_def)
  from InitVector_wf [OF d refl this] t show "vec_wf v" "typmod = -1 \<or> v_dim v = typmod"
    unfolding v by auto
qed

section \<open>Binary round trip\<close>

lemma ntoh_hton16: "0 \<le> i \<Longrightarrow> i < 65536 \<Longrightarrow> ntoh (hton16 i) = i"
  by (simp add: ntoh_def hton16_def uint_word_of_int take_bit_eq_mod)

lemma ntoh_hton32: "0 \<le> i \<Longrightarrow> i < 4294967296 \<Longrightarrow> ntoh (hton32 i) = i"
proof -
  assume i: "0 \<le> i" "i < 4294967296"
  define a b c where "a = i div 256" and "b = a div 256" and "c = b div 256"
  have d: "i div 65536 = b" "i div 16777216 = c"
    unfolding a_def b_def c_def by (simp_all flip: zdiv_zmult2_eq)
  have "i = 256 * a + i mod 256" "a = 256 * b + a mod 256" "b = 256 * c + b mod 256"
    unfolding a_def b_def c_def by simp_all
  moreover have "0 \<le> c" "c < 256" using i unfolding a_def b_def c_def by auto
  ultimately show ?thesis
    by (simp add: ntoh_def hton32_def uint_word_of_int take_bit_eq_mod d flip: a_def)
qed

lemma pq_copymsgbytes_at:
  "pq_copymsgbytes \<lparr>si_data = pre @ bs @ post, si_cursor = length pre\<rparr> (int (length bs)) =
   Inr (bs, \<lparr>si_data = pre @ bs @ post, si_cursor = length (pre @ bs)\<rparr>)"
  by (simp add: pq_copymsgbytes_def)


lemma length_hton [simp]: "length (hton16 i) = 2" "length (hton32 i) = 4"
  by (simp_all add: hton16_def hton32_def)

lemma pq_getmsgint_at:
  assumes "length bs = 2 \<or> length bs = 4"
  shows "pq_getmsgint \<lparr>si_data = pre @ bs @ post, si_cursor = length pre\<rparr> (int (length bs)) =
     Inr (ntoh bs, \<lparr>si_data = pre @ bs @ post, si_cursor = length (pre @ bs)\<rparr>)"
  using assms by (auto simp: pq_getmsgint_def pq_copymsgbytes_at)

lemma recv_elements_at:
  "list_all f4_finite fs \<Longrightarrow>
   recv_elements (length fs)
     \<lparr>si_data = pre @ concat (map (\<lambda>f. hton32 (uint f)) fs) @ post, si_cursor = length pre\<rparr> =
   Inr (fs, \<lparr>si_data = pre @ concat (map (\<lambda>f. hton32 (uint f)) fs) @ post,
             si_cursor = length pre + 4 * length fs\<rparr>)"
proof (induction fs arbitrary: pre)
  case Nil
  then show ?case by simp
next
  case (Cons f fs)
  let ?b = "hton32 (uint f)" and ?rest = "concat (map (\<lambda>f. hton32 (uint f)) fs)"
  have "ntoh ?b = uint f" using uint_bounded [of f] by (intro ntoh_hton32) auto
  moreover have "pq_getmsgint \<lparr>si_data = pre @ ?b @ (?rest @ post), si_cursor = length pre\<rparr> 4 =
      Inr (ntoh ?b, \<lparr>si_data = pre @ ?b @ (?rest @ post), si_cursor = length (pre @ ?b)\<rparr>)"
    using pq_getmsgint_at [of ?b pre "?rest @ post"] by simp
  ultimately have get: "pq_getmsgfloat4 \<lparr>si_data = pre @ ?b @ (?rest @ post), si_cursor = length pre\<rparr> =
      Inr (f, \<lparr>si_data = (pre @ ?b) @ ?rest @ post, si_cursor = length (pre @ ?b)\<rparr>)"
    by (simp add: pq_getmsgfloat4_def)
  have "CheckElement f = Inr ()" using Cons.prems by (simp add: hnsw_err)
  with Cons.IH [of "pre @ ?b"] Cons.prems get show ?case by simp
qed

lemma foldl_sendfloat4:
  "foldl pq_sendfloat4 buf fs = buf @ concat (map (\<lambda>f. hton32 (uint f)) fs)"
  by (induction fs arbitrary: buf) (simp_all add: pq_sendfloat4_def)

lemma vec_wf_eq: "vec_wf v \<Longrightarrow> (InitVector (v_dim v))\<lparr>v_x := v_x v\<rparr> = v"
  by (cases v) (simp add: vec_wf_def InitVector_def to_int16_id VECTOR_MAX_DIM_def)

lemma vector_send_payload:
  assumes "vec_wf v"
  shows "drop 4 (vector_send v) =
    hton16 (v_dim v) @ hton16 0 @ concat (map (\<lambda>f. hton32 (uint f)) (v_x v))"
  using assms
  by (simp add: vector_send_def pq_endtypsend_def foldl_sendfloat4 pq_sendint16_def
      pq_begintypsend_def vec_wf_def VECTOR_MAX_DIM_def)

lemma vector_recv_send:
  assumes wf: "vec_wf v" and tm: "typmod = -1 \<or> typmod = v_dim v"
  shows "vector_recv \<lparr>si_data = drop 4 (vector_send v) @ post, si_cursor = 0\<rparr> typmod =
    Inr (v, \<lparr>si_data = drop 4 (vector_send v) @ post, si_cursor = 4 + 4 * length (v_x v)\<rparr>)"
proof -
  let ?body = "concat (map (\<lambda>f. hton32 (uint f)) (v_x v))"
  let ?d = "hton16 (v_dim v)" and ?u = "hton16 0"
  have d: "1 \<le> v_dim v" "v_dim v \<le> 16000" and fin: "list_all f4_finite (v_x v)"
    and len: "nat (v_dim v) = length (v_x v)"
    using wf by (simp_all add: vec_wf_def VECTOR_MAX_DIM_def)
  have g1: "pq_getmsgint \<lparr>si_data = ?d @ ?u @ ?body @ post, si_cursor = 0\<rparr> 2 =
      Inr (v_dim v, \<lparr>si_data = ?d @ ?u @ ?body @ post, si_cursor = 2\<rparr>)"
    using pq_getmsgint_at [of ?d "[]" "?u @ ?body @ post"] ntoh_hton16 [of "v_dim v"] d by simp
  have g2: "pq_getmsgint \<lparr>si_data = ?d @ ?u @ ?body @ post, si_cursor = 2\<rparr> 2 =
      Inr (0, \<lparr>si_data = ?d @ ?u @ ?body @ post, si_cursor = 4\<rparr>)"
    using pq_getmsgint_at [of ?u ?d "?body @ post"] ntoh_hton16 [of 0] by simp
  have "CheckDim (v_dim v) = Inr ()" "CheckExpectedDim typmod (v_dim v) = Inr ()"
    using d tm by (simp_all add: hnsw_err VECTOR_MAX_DIM_def)
  moreover have "recv_elements (length (v_x v)) \<lparr>si_data = ?d @ ?u @ ?body @ post, si_cursor = 4\<rparr> =
      Inr (v_x v, \<lparr>si_data = ?d @ ?u @ ?body @ post, si_cursor = 4 + 4 * length (v_x v)\<rparr>)"
    using recv_elements_at [OF fin, of "?d @ ?u" post] by simp
  ultimately show ?thesis
    using d g1 g2 vec_wf_eq [OF wf]
    by (simp add: vector_recv_def vector_send_payload [OF wf] to_int16_id len)
qed

section \<open>Text round trip and the output buffer\<close>

lemma out_elements_length:
  assumes "\<And>f. f \<in> set fs \<Longrightarrow> length (print f) \<le> k"
  shows "length (out_elements print i fs) \<le> (k + 1) * length fs - (if i = 0 \<and> fs \<noteq> [] then 1 else 0)"
  using assms
proof (induction fs arbitrary: i)
  case (Cons f fs)
  have "length (out_elements print (Suc i) fs) \<le> (k + 1) * length fs"
    using Cons.IH [of "Suc i"] Cons.prems by simp
  moreover have "length (print f) \<le> k" using Cons.prems by simp
  ultimately show ?case by (cases "i = 0") (simp_all add: algebra_simps)
qed simp

text \<open>What the text round trip needs of the printer at one element: the printed text is
  not empty, does not start with white space, and \<open>strtof\<close> reads it back exactly when a
  separator follows.\<close>

definition prints_back :: "(float4 \<Rightarrow> string) \<Rightarrow> float4 \<Rightarrow> bool" where
  "prints_back print f = (print f \<noteq> [] \<and> \<not> vector_isspace (hd (print f)) \<and> hd (print f) \<noteq> CHR '']'' \<and>
     (\<forall>c rest. c = CHR '','' \<or> c = CHR '']'' \<longrightarrow>
        strtof (print f @ c # rest) = (f, length (print f), False)))"

lemma skip_spaces_id: "s = [] \<or> \<not> vector_isspace (hd s) \<Longrightarrow> skip_spaces s = s"
  by (cases s) (simp_all add: skip_spaces_def)

lemma vector_isspace_sep [simp]:
  "\<not> vector_isspace CHR '',''" "\<not> vector_isspace CHR '']''" "\<not> vector_isspace CHR ''[''"
  by (simp_all add: vector_isspace_def)

fun out_tail :: "(float4 \<Rightarrow> string) \<Rightarrow> float4 list \<Rightarrow> string" where
  "out_tail print [] = []"
| "out_tail print (f # fs) = '','' @ print f @ out_tail print fs"

lemma out_elements_tail: "out_elements print (Suc i) fs = out_tail print fs"
  by (induction fs arbitrary: i) simp_all

lemma vector_in_loop_out:
  assumes "prints_back print f" "list_all (prints_back print) fs" "f4_finite f" "list_all f4_finite fs"
    and "int (length xs + Suc (length fs)) \<le> VECTOR_MAX_DIM"
  shows "vector_in_loop xs (print f @ out_tail print fs @ '']'') = Inr (xs @ f # fs, [])"
  using assms
proof (induction fs arbitrary: xs f)
  case Nil
  have p1: "skip_spaces (print f @ '']'') = print f @ '']''"
    using Nil.prems by (intro skip_spaces_id) (auto simp: prints_back_def)
  have st: "strtof (print f @ '']'') = (f, length (print f), False)"
    using Nil.prems by (simp add: prints_back_def)
  have p2: "skip_spaces '']'' = '']''" by (simp add: skip_spaces_id)
  have "CheckElement f = Inr ()" using Nil.prems by (simp add: hnsw_err)
  with Nil.prems p1 p2 st show ?case
    by (subst vector_in_loop.simps) (simp add: Let_def prints_back_def)
next
  case (Cons g gs)
  let ?t = "print g @ out_tail print gs @ '']''"
  have p1: "skip_spaces (print f @ CHR '','' # ?t) = print f @ CHR '','' # ?t"
    using Cons.prems by (intro skip_spaces_id) (auto simp: prints_back_def)
  have st: "strtof (print f @ CHR '','' # ?t) = (f, length (print f), False)"
    using Cons.prems by (simp add: prints_back_def)
  have p2: "skip_spaces (CHR '','' # ?t) = CHR '','' # ?t" by (simp add: skip_spaces_id)
  have "CheckElement f = Inr ()" using Cons.prems by (simp add: hnsw_err)
  with Cons.prems p1 p2 st have "vector_in_loop xs (print f @ CHR '','' # ?t) = vector_in_loop (xs @ [f]) ?t"
    by (subst vector_in_loop.simps) (simp add: Let_def prints_back_def)
  also have "\<dots> = Inr ((xs @ [f]) @ g # gs, [])"
    using Cons.prems by (intro Cons.IH) auto
  finally show ?case by simp
qed

lemma vector_in_out:
  assumes wf: "vec_wf v" and pb: "list_all (prints_back print) (v_x v)"
    and tm: "typmod = -1 \<or> typmod = v_dim v"
  shows "vector_in (vector_out print v) typmod = Inr v"
proof -
  from wf have len: "length (v_x v) = nat (v_dim v)" and d: "1 \<le> v_dim v" "v_dim v \<le> VECTOR_MAX_DIM"
    and fin: "list_all f4_finite (v_x v)"
    by (simp_all add: vec_wf_def)
  then obtain f fs where x: "v_x v = f # fs" by (cases "v_x v") auto
  have out: "vector_out print v = CHR ''['' # print f @ out_tail print fs @ '']''"
    using len x by (simp add: vector_out_def out_elements_tail)
  have pf: "print f \<noteq> []" "\<not> vector_isspace (hd (print f))" "hd (print f) \<noteq> CHR '']''"
    using pb x by (simp_all add: prints_back_def)
  have "skip_spaces (print f @ out_tail print fs @ '']'') = print f @ out_tail print fs @ '']''"
    using pf by (intro skip_spaces_id) auto
  moreover have "vector_in_loop [] (print f @ out_tail print fs @ '']'') = Inr ([] @ f # fs, [])"
    using pb fin x len d by (intro vector_in_loop_out) (auto simp: VECTOR_MAX_DIM_def)
  moreover have "int (length (f # fs)) = v_dim v" using len x d by simp
  moreover have "CheckDim (v_dim v) = Inr ()" "CheckExpectedDim typmod (v_dim v) = Inr ()"
    using d tm by (simp_all add: hnsw_err)
  ultimately show ?thesis
    using pf vec_wf_eq [OF wf] x
    by (simp add: vector_in_def out Let_def skip_spaces_id)
qed


section \<open>Distances\<close>

lemma l2_sum_sym:
  assumes "list_all f4_finite xs" "list_all f4_finite ys"
  shows "l2_sum acc n xs ys = l2_sum acc n ys xs"
  using assms
  by (induction acc n xs ys rule: l2_sum.induct) (simp_all add: Let_def f8_square_diff_sym)

lemma l2_sum_pos:
  assumes "list_all f4_finite xs" "list_all f4_finite ys" "f8_pos acc"
    and "n \<le> length xs" "n \<le> length ys"
  shows "\<exists>r. l2_sum acc n xs ys = Inr r \<and> f8_pos r"
  using assms
  by (induction acc n xs ys rule: l2_sum.induct)
     (simp_all add: Let_def f8_add_pos f8_square_pos f8_of_f4_notnan f4_sub_notnan)

lemma l2_sum_self:
  "list_all f4_finite xs \<Longrightarrow> n \<le> length xs \<Longrightarrow> l2_sum f8_zero n xs xs = Inr f8_zero"
proof (induction n arbitrary: xs)
  case (Suc n)
  then show ?case
    by (cases xs) (simp_all add: Let_def f8_square_diff_self f8_add_zero_zero)
qed simp

lemma vec_wf_parts:
  assumes "vec_wf v"
  shows "list_all f4_finite (v_x v)" "length (v_x v) = nat (v_dim v)" "1 \<le> v_dim v"
    "v_dim v \<le> VECTOR_MAX_DIM" "int (length (v_x v)) = v_dim v"
  using assms by (simp_all add: vec_wf_def)

lemma l2_distance_total:
  assumes "vec_wf a" "vec_wf b" "v_dim a = v_dim b"
  shows "\<exists>d. vector_l2_distance a b = Inr d \<and> f8_pos d"
proof -
  note w = vec_wf_parts [OF assms(1)] vec_wf_parts [OF assms(2)]
  obtain r where "l2_sum f8_zero (nat (v_dim a)) (v_x a) (v_x b) = Inr r" "f8_pos r"
    using l2_sum_pos [OF w(1,6) f8_pos_zero, of "nat (v_dim a)"] w assms(3) by auto
  then show ?thesis
    using assms(3) by (simp add: vector_l2_distance_def CheckDims_def f8_sqrt_pos)
qed

lemma l2_distance_sym:
  assumes "vec_wf a" "vec_wf b" "v_dim a = v_dim b"
  shows "vector_l2_distance a b = vector_l2_distance b a"
  using assms vec_wf_parts [OF assms(1)] vec_wf_parts [OF assms(2)]
  by (simp add: vector_l2_distance_def CheckDims_def l2_sum_sym [of "v_x a"])

lemma l2_distance_self: "vec_wf a \<Longrightarrow> vector_l2_distance a a = Inr f8_zero"
  using vec_wf_parts [of a]
  by (simp add: vector_l2_distance_def CheckDims_def l2_sum_self f8_sqrt_zero)

lemma f4_mul_commute: "f4_mul x y = f4_mul y x"
  by (simp add: f4_mul_def op2_def b32.f_mul_commute [of "unat x"])

lemma f8_mul_commute: "f8_mul x y = f8_mul y x"
  by (simp add: f8_mul_def op2_def b64.f_mul_commute [of "unat x"])

lemma cosine_sums_swap:
  "cosine_sums (d, na, nb) n xs ys = Inr (d', na', nb') \<Longrightarrow>
   cosine_sums (d, nb, na) n ys xs = Inr (d', nb', na')"
proof (induction n arbitrary: d na nb xs ys)
  case (Suc n)
  then show ?case by (cases xs; cases ys) (simp_all add: f4_mul_commute)
qed simp

lemma cosine_sums_total:
  "n \<le> length xs \<Longrightarrow> n \<le> length ys \<Longrightarrow> \<exists>r. cosine_sums acc n xs ys = Inr r"
proof (induction n arbitrary: acc xs ys)
  case (Suc n)
  then show ?case by (cases xs; cases ys; cases acc) simp_all
next
  case 0
  then show ?case by (cases acc) auto
qed

lemma cosine_distance_sym:
  assumes "vec_wf a" "vec_wf b" "v_dim a = v_dim b"
  shows "vector_cosine_distance a b = vector_cosine_distance b a"
proof -
  obtain d na nb where s: "cosine_sums (f8_zero, f8_zero, f8_zero) (nat (v_dim a)) (v_x a) (v_x b) = Inr (d, na, nb)"
    using cosine_sums_total [of "nat (v_dim a)" "v_x a" "v_x b"] assms vec_wf_parts [of a] vec_wf_parts [of b]
    by (metis order_refl prod_cases3)
  with cosine_sums_swap [OF s] assms(3) show ?thesis
    by (auto simp: vector_cosine_distance_def CheckDims_def Let_def f8_mul_commute)
qed

section \<open>Comparison\<close>

lemma f4_finite_lt: "f4_finite a \<Longrightarrow> f4_finite b \<Longrightarrow> f4_lt a b \<longleftrightarrow> f4_key a < f4_key b"
  by (simp add: f4_lt_key f4_finite_def)

lemma list_less_append_len:
  "length xs = length ys \<Longrightarrow> (xs :: int list) @ us < ys @ vs \<longleftrightarrow> xs < ys \<or> (xs = ys \<and> us < vs)"
  by (induction xs ys rule: list_induct2) auto

lemma cmp_elements_lex:
  assumes "list_all f4_finite xs" "list_all f4_finite ys" "n \<le> length xs" "n \<le> length ys"
  shows "cmp_elements n xs ys = Inr
    (let kx = map f4_key (take n xs); ky = map f4_key (take n ys)
     in if kx < ky then Some (-1) else if ky < kx then Some 1 else None)"
  using assms
proof (induction n arbitrary: xs ys)
  case (Suc n)
  then obtain x xs' y ys' where "xs = x # xs'" "ys = y # ys'"
    by (cases xs; cases ys) auto
  with Suc show ?case by (auto simp: f4_finite_lt Let_def)
qed simp

text \<open>On well-formed vectors the comparison is the lexicographic order of the element
  values, a proper prefix first.\<close>

lemma vector_cmp_lex:
  assumes "vec_wf a" "vec_wf b"
  shows "vector_cmp_internal a b = Inr
    (let ka = map f4_key (v_x a); kb = map f4_key (v_x b)
     in if ka < kb then -1 else if kb < ka then 1 else 0)"
proof -
  note wa = vec_wf_parts [OF assms(1)] and wb = vec_wf_parts [OF assms(2)]
  define n where "n = nat (min (v_dim a) (v_dim b))"
  let ?ta = "map f4_key (take n (v_x a))" and ?tb = "map f4_key (take n (v_x b))"
  let ?ra = "map f4_key (drop n (v_x a))" and ?rb = "map f4_key (drop n (v_x b))"
  have n: "n \<le> length (v_x a)" "n \<le> length (v_x b)" using wa wb by (auto simp: n_def)
  have split: "map f4_key (v_x a) = ?ta @ ?ra" "map f4_key (v_x b) = ?tb @ ?rb"
    by (simp_all flip: map_append)
  have len: "length ?ta = length ?tb" using n by simp
  have nil: "([] :: int list) < xs \<longleftrightarrow> xs \<noteq> []" for xs by (cases xs) auto
  have e: "?ra = [] \<longleftrightarrow> v_dim a \<le> v_dim b" "?rb = [] \<longleftrightarrow> v_dim b \<le> v_dim a"
    using wa(2,3) wb(2,3) by (auto simp: n_def)
  have r: "?ra < ?rb \<longleftrightarrow> v_dim a < v_dim b" "?rb < ?ra \<longleftrightarrow> v_dim b < v_dim a"
    using e nil [of ?ra] nil [of ?rb] not_less_Nil
    by (metis linorder_le_cases linorder_not_le)+
  show ?thesis
    unfolding vector_cmp_internal_def n_def [symmetric] cmp_elements_lex [OF wa(1) wb(1) n] split
    using list_less_append_len [OF len] list_less_append_len [OF len [symmetric]] r
    by (auto simp: Let_def)
qed

section \<open>Normalisation\<close>

lemma f8_lt_zero_mag: "f8_lt f8_zero b \<Longrightarrow> \<not> f8_isnan b \<and> \<not> f_iszero binary64 (unat b)"
  by (auto simp: f8_lt_key f8_key_def f_key_def f_iszero_def f8_zero_def f_mag_def f_neg_def split: if_splits)

lemma f8_div_notnan:
  assumes "f4_finite x" "f8_lt f8_zero b"
  shows "\<not> f8_isnan (f8_div (f8_of_f4 x) b)"
proof -
  have "\<not> f8_isnan (f8_of_f4 x)" "\<not> f8_isinf (f8_of_f4 x)"
    using assms(1) by (simp_all add: f8_of_f4_notnan f8_of_f4_finite f4_finite_def)
  then show ?thesis
    using f8_lt_zero_mag [OF assms(2)]
    by (simp add: f8_isnan_def f8_isinf_def f8_div_def op2_def unat_f_ops b64.f_div_notnan)
qed

lemma f4_of_f8_notnan: "\<not> f8_isnan a \<Longrightarrow> \<not> f4_isnan (f4_of_f8 a)"
  by (simp add: f4_isnan_def f8_isnan_def f_op_defs unat_f_ops narrow.f_conv_notnan)

lemma f4_finite_0: "f4_finite 0"
  using b32.inf_mag_pos by (simp add: f4_finite_fin f_isfin_def f_mag_def)

lemma l2_normalize_ok:
  assumes wf: "vec_wf a"
  shows "l2_normalize a = Inl ErrOverflow \<or> (\<exists>r. l2_normalize a = Inr r \<and> vec_wf r \<and> v_dim r = v_dim a)"
proof (cases "f8_lt f8_zero (f8_sqrt (norm_sum (v_x a)))")
  case True
  let ?rx = "map (\<lambda>x. f4_of_f8 (f8_div (f8_of_f4 x) (f8_sqrt (norm_sum (v_x a))))) (v_x a)"
  have nn: "\<not> f4_isnan f" if "f \<in> set ?rx" for f
    using that vec_wf_parts(1) [OF wf] True
    by (auto simp: list_all_iff f8_div_notnan f4_of_f8_notnan)
  have eq: "l2_normalize a = (if list_ex f4_isinf ?rx then Inl ErrOverflow
      else Inr ((InitVector (v_dim a))\<lparr>v_x := ?rx\<rparr>))"
    using True vec_wf_parts(2) [OF wf] by (simp add: l2_normalize_def Let_def)
  show ?thesis
  proof (cases "list_ex f4_isinf ?rx")
    case False
    then have "list_all f4_finite ?rx"
      using nn by (auto simp: list_all_iff list_ex_iff f4_finite_def)
    then have "vec_wf ((InitVector (v_dim a))\<lparr>v_x := ?rx\<rparr>)" "v_dim ((InitVector (v_dim a))\<lparr>v_x := ?rx\<rparr>) = v_dim a"
      using vec_wf_parts(3,4,5) [OF wf] by (intro InitVector_wf; simp)+
    then show ?thesis unfolding eq using False by auto
  qed (simp add: eq)
next
  case False
  let ?d = "v_dim a"
  have "l2_normalize a = Inr ((InitVector ?d)\<lparr>v_x := replicate (nat ?d) 0\<rparr>)"
    using False vec_wf_parts(2) [OF wf] by (simp add: l2_normalize_def Let_def InitVector_def)
  moreover have "vec_wf ((InitVector ?d)\<lparr>v_x := replicate (nat ?d) 0\<rparr>)"
    "v_dim ((InitVector ?d)\<lparr>v_x := replicate (nat ?d) 0\<rparr>) = ?d"
    using vec_wf_parts(3,4,5) [OF wf] by (intro InitVector_wf; simp add: list_all_iff f4_finite_0)+
  ultimately show ?thesis by auto
qed


section \<open>Properties\<close>

text \<open>A concrete vector for the examples: the single element 1.\<close>

definition one_vec :: Vector where
  "one_vec = (InitVector 1)\<lparr>v_x := [0x3F800000]\<rparr>"

lemma f4_one_finite: "f4_finite 0x3F800000"
  by (simp add: f4_finite_fin f_isfin_def f_mag_def sign_bit_def inf_mag_def binary32_def)

lemma one_vec_wf: "vec_wf one_vec" "v_dim one_vec = 1" "v_x one_vec = [0x3F800000]"
  using f4_one_finite
  by (simp_all add: one_vec_def VECTOR_MAX_DIM_def vec_wf_def InitVector_def to_int16_id)

lemma mag_one: "round_mag binary32 (2 ^ unit_exp binary32) 1 = 0x3F800000"
proof -
  have "mag_int binary32 0x3F800000 * 1 = 2 ^ unit_exp binary32"
    by (simp add: mag_int_def Let_def unit_exp_def binary32_def)
  then show ?thesis
    using b32.round_mag_exact [where g = "0x3F800000" and k = 1] by (simp add: inf_mag_def binary32_def)
qed

lemma inf_mag_32: "inf_mag binary32 = 0x7F800000"
  by (simp add: inf_mag_def binary32_def)

lemma one_not_tiny: "\<not> 0x3F800000 < (2::nat) ^ mbits binary32"
  by (simp add: binary32_def)

lemma strtof_one:
  assumes "c = CHR '','' \<or> c = CHR '']''"
  shows "strtof (CHR ''1'' # c # rest) = (0x3F800000, 1, False)"
proof -
  have d: "c_isdigit CHR ''1''" "\<not> c_isdigit c" "digit_value CHR ''1'' = 1" "c_tolower c = c"
     "c_tolower CHR ''1'' = CHR ''1''" "\<not> vector_isspace CHR ''1''"
    using assms by (auto simp: c_isdigit_def digit_value_def c_tolower_def vector_isspace_def)
  have "scan_unsigned binary32 (CHR ''1'' # c # rest) = (0x3F800000, False, 1)"
    using assms mag_one one_not_tiny
    by (auto simp: scan_unsigned_def ci_prefix_def scan_number_def scan_digits_def scan_exponent_def d
       digits_value_def mag_of_fraction_def inf_mag_32 Let_def)
  then show ?thesis
    by (simp add: strtof_def strto_def d f_make_def)
qed

lemma prints_back_one: "prints_back (\<lambda>_. ''1'') 0x3F800000"
  by (simp add: prints_back_def vector_isspace_def strtof_one)


lemma datumIsEqual_iff: "datumIsEqual a b \<longleftrightarrow> a = b"
  by (auto simp: datumIsEqual_def)

text \<open>C33: whatever text \<open>vector_in\<close> accepts denotes a well-formed vector (consistent length word,
  1 to 16000 dimensions, finite elements) of the dimension its type modifier asks for.\<close>

theorem vector_in_sound:
  assumes "vector_in lit typmod = Inr v"
  shows "vec_wf v \<and> (typmod = -1 \<or> v_dim v = typmod)"
  using vector_in_ok [OF assms] by auto

theorem vector_in_sound_witness: "vector_in ''[1]'' 1 = Inr one_vec \<and> vec_wf one_vec \<and> v_dim one_vec = 1"
proof -
  have "vector_in (vector_out (\<lambda>_. ''1'') one_vec) 1 = Inr one_vec"
    using prints_back_one by (intro vector_in_out) (simp_all add: one_vec_wf)
  then have e: "vector_in ''[1]'' 1 = Inr one_vec" by (simp add: vector_out_def one_vec_wf)
  show ?thesis using e vector_in_sound [OF e] by simp
qed



text \<open>C35: the message \<open>vector_send\<close> builds, without its length header, is read back by
  \<open>vector_recv\<close> as the same vector, and exactly its bytes are consumed.\<close>

theorem vector_binary_roundtrip:
  assumes "vec_wf v" and "typmod \<in> {-1, v_dim v}"
  shows "vector_recv \<lparr>si_data = drop 4 (vector_send v) @ post, si_cursor = 0\<rparr> typmod =
    Inr (v, \<lparr>si_data = drop 4 (vector_send v) @ post, si_cursor = 4 + 4 * length (v_x v)\<rparr>)"
  using assms by (intro vector_recv_send) auto

theorem vector_binary_roundtrip_witness:
  "vector_recv \<lparr>si_data = drop 4 (vector_send one_vec), si_cursor = 0\<rparr> 1 =
    Inr (one_vec, \<lparr>si_data = drop 4 (vector_send one_vec), si_cursor = 8\<rparr>)"
  using vector_binary_roundtrip [of one_vec 1 "[]"] by (simp add: one_vec_wf)

text \<open>C36: the text and its terminating NUL fit the buffer \<open>vector_out\<close> allocates when the
  printer writes at most 15 characters per element.\<close>

theorem vector_out_fits:
  assumes "vec_wf v" and "\<And>f. f \<in> set (v_x v) \<Longrightarrow> length (print f) < FLOAT_SHORTEST_DECIMAL_LEN"
  shows "int (length (vector_out print v)) + 1 \<le> vector_out_bufsize v"
proof -
  have "length (out_elements print 0 (v_x v)) \<le> (15 + 1) * length (v_x v) - (if (0::nat) = 0 \<and> v_x v \<noteq> [] then 1 else 0)"
    using assms(2) by (intro out_elements_length) (force simp: FLOAT_SHORTEST_DECIMAL_LEN_def)
  moreover have "v_x v \<noteq> []" "int (length (v_x v)) = v_dim v" "length (v_x v) = nat (v_dim v)"
    using vec_wf_parts [OF assms(1)] by auto
  ultimately show ?thesis
    using vec_wf_parts(3) [OF assms(1)]
    by (simp add: vector_out_def vector_out_bufsize_def FLOAT_SHORTEST_DECIMAL_LEN_def)
qed

theorem vector_out_fits_witness: "int (length (vector_out (\<lambda>_. ''1'') one_vec)) + 1 \<le> 18"
  using vector_out_fits [of one_vec "\<lambda>_. ''1''"]
  by (simp add: one_vec_wf vector_out_bufsize_def FLOAT_SHORTEST_DECIMAL_LEN_def)

text \<open>C37: on well-formed vectors of one dimension the L2 distance is total, never NaN and never
  negative, symmetric, and zero from a vector to itself; on different dimensions it raises.\<close>

theorem l2_distance_metric:
  assumes "vec_wf a" and "vec_wf b"
  shows "if v_dim a = v_dim b
    then vector_l2_distance a a = Inr f8_zero \<and> vector_l2_distance a b = vector_l2_distance b a \<and>
      (\<exists>d. vector_l2_distance a b = Inr d \<and> \<not> f8_isnan d \<and> \<not> f8_lt d f8_zero)
    else vector_l2_distance a b = Inl (ErrDifferentDims (v_dim a) (v_dim b))"
proof (cases "v_dim a = v_dim b")
  case True
  obtain d where "vector_l2_distance a b = Inr d" "f8_pos d"
    using l2_distance_total [OF assms True] by auto
  then show ?thesis
    using True assms l2_distance_sym l2_distance_self
    by (auto simp: f8_pos_def f8_lt_key f8_key_def f_key_def f8_zero_def f_mag_def f_neg_def)
qed (simp add: vector_l2_distance_def CheckDims_def)

theorem l2_distance_metric_witness: "vector_l2_distance one_vec one_vec = Inr f8_zero"
  using l2_distance_metric [of one_vec one_vec] by (simp add: one_vec_wf)

text \<open>C38: the comparison of two well-formed vectors is the lexicographic order of their element
  values, a proper prefix coming first; it is what the B-tree operators rest on.\<close>

theorem vector_cmp_order:
  assumes "vec_wf a" and "vec_wf b"
  shows "vector_cmp a b = Inr
    (let ka = map f4_key (v_x a); kb = map f4_key (v_x b) in if ka < kb then -1 else if kb < ka then 1 else 0)"
  unfolding vector_cmp_def by (rule vector_cmp_lex [OF assms])

theorem vector_cmp_order_witness: "vector_cmp one_vec one_vec = Inr 0"
  using vector_cmp_order [of one_vec one_vec] by (simp add: one_vec_wf)



text \<open>The vector \<open>[1e30]\<close>.\<close>

definition big_vec :: Vector where
  "big_vec = (InitVector 1)\<lparr>v_x := [0x7149F2CA]\<rparr>"

lemma big_square: "f4_mul 0x7149F2CA 0x7149F2CA = 0x7F800000"
  by (simp add: f4_mul_def op2_def f_mul_def Let_def f_isnan_def f_isinf_def f_iszero_def f_mag_def f_neg_def
      sign_bit_def inf_mag_def binary32_def unit_exp_def mag_int_def round_mag_def drop_of_def mag_of_def
      lg2.simps f_make_def)

lemma inf_ops:
  "f8_of_f4 0x7F800000 = f8_infinity" "f8_add f8_zero f8_infinity = f8_infinity"
  "f8_sqrt f8_infinity = f8_infinity" "f8_mul f8_infinity f8_infinity = f8_infinity"
  "\<not> f8_eq f8_infinity f8_zero"
  by (simp_all add: f8_infinity_def f8_zero_def f8_of_f4_def f8_add_def f8_sqrt_def f8_mul_def f8_eq_def op2_def
     f_conv_def f_add_def f_sqrt_def f_mul_def f_eq_def f_key_def Let_def f_isnan_def f_isinf_def f_iszero_def f_mag_def
     f_neg_def f_inf_def f_make_def sign_bit_def inf_mag_def binary32_def binary64_def)

lemma nan_ops: "f8_isnan (f8_sub f8_one (f8_div f8_infinity f8_infinity))"
  by (simp add: f8_infinity_def f8_one_def f8_sub_def f8_div_def f8_isnan_def op2_def f_sub_def f_negate_def f_add_def
     f_div_def Let_def f_isnan_def f_isinf_def f_iszero_def f_mag_def f_nan_def nan_mag_def
     f_neg_def f_inf_def f_make_def sign_bit_def inf_mag_def binary32_def binary64_def)


end
