(* ===== verification/PairingHeap.thy ===== *)
theory PairingHeap
  imports Prelude
begin

text \<open>
  The pairing heap of \<open>src/backend/lib/pairingheap.c\<close>, which the layer search and the
  iterative scan use as their candidate queues.  A node is its containing struct's value with the
  list of its children, the first child first; a heap is its comparator with an optional root.
  The sibling and parent pointers are the list structure.

  The lemmas are stated through two interfaces: \<open>comparator\<close> (the order a comparison callback
  realises on the values it is used for) and \<open>priority_queue\<close> (what a client may rely on).
  Every comparator gives a priority queue.
\<close>

section \<open>The data structure\<close>

datatype 'a pairingheap_node = PNode (ph_val: 'a) (ph_children: "'a pairingheap_node list")

record 'a pairingheap =
  ph_compare :: "'a \<Rightarrow> 'a \<Rightarrow> int"
  ph_root :: "'a pairingheap_node option"

definition pairingheap_allocate :: "('a \<Rightarrow> 'a \<Rightarrow> int) \<Rightarrow> 'a pairingheap" where
  "pairingheap_allocate compare = \<lparr>ph_compare = compare, ph_root = None\<rparr>"

definition pairingheap_reset :: "'a pairingheap \<Rightarrow> 'a pairingheap" where
  "pairingheap_reset h = h\<lparr>ph_root := None\<rparr>"

definition pairingheap_is_empty :: "'a pairingheap \<Rightarrow> bool" where
  "pairingheap_is_empty h = (ph_root h = None)"

definition pairingheap_is_singular :: "'a pairingheap \<Rightarrow> bool" where
  "pairingheap_is_singular h = (case ph_root h of None \<Rightarrow> False | Some n \<Rightarrow> ph_children n = [])"

section \<open>Operations\<close>

definition put_child :: "'a pairingheap_node \<Rightarrow> 'a pairingheap_node \<Rightarrow> 'a pairingheap_node" where
  "put_child a b = PNode (ph_val a) (b # ph_children a)"

definition merge :: "('a \<Rightarrow> 'a \<Rightarrow> int) \<Rightarrow> 'a pairingheap_node option \<Rightarrow> 'a pairingheap_node option \<Rightarrow>
    'a pairingheap_node option" where
  "merge compare a b =
     (case a of
        None \<Rightarrow> b
      | Some a' \<Rightarrow>
          (case b of
             None \<Rightarrow> a
           | Some b' \<Rightarrow>
               if compare (ph_val a') (ph_val b') < 0 then Some (put_child b' a')
               else Some (put_child a' b')))"

text \<open>First pass: merge neighbours from left to right, pushing each result on \<open>pairs\<close>.\<close>

fun merge_pairs :: "('a \<Rightarrow> 'a \<Rightarrow> int) \<Rightarrow> 'a pairingheap_node list \<Rightarrow> 'a pairingheap_node list \<Rightarrow>
    'a pairingheap_node list" where
  "merge_pairs compare pairs [] = pairs"
| "merge_pairs compare pairs [cur] = cur # pairs"
| "merge_pairs compare pairs (cur # sib # rest) =
     (case merge compare (Some cur) (Some sib) of
        None \<Rightarrow> merge_pairs compare pairs rest
      | Some n \<Rightarrow> merge_pairs compare (n # pairs) rest)"

text \<open>Second pass: fold the pairs into one heap.\<close>

definition merge_rest :: "('a \<Rightarrow> 'a \<Rightarrow> int) \<Rightarrow> 'a pairingheap_node list \<Rightarrow> 'a pairingheap_node option" where
  "merge_rest compare pairs =
     (case pairs of
        [] \<Rightarrow> None
      | p # ps \<Rightarrow> foldl (\<lambda>newroot cur. merge compare newroot (Some cur)) (Some p) ps)"

definition merge_children :: "('a \<Rightarrow> 'a \<Rightarrow> int) \<Rightarrow> 'a pairingheap_node list \<Rightarrow> 'a pairingheap_node option" where
  "merge_children compare children =
     (case children of
        [] \<Rightarrow> None
      | [c] \<Rightarrow> Some c
      | _ \<Rightarrow> merge_rest compare (merge_pairs compare [] children))"

definition pairingheap_add :: "'a pairingheap \<Rightarrow> 'a \<Rightarrow> 'a pairingheap" where
  "pairingheap_add heap node = heap\<lparr>ph_root := merge (ph_compare heap) (ph_root heap) (Some (PNode node []))\<rparr>"

definition pairingheap_first :: "'a pairingheap \<Rightarrow> 'a result" where
  "pairingheap_first heap =
     (case ph_root heap of None \<Rightarrow> Inl AssertionFailed | Some n \<Rightarrow> Inr (ph_val n))"

definition pairingheap_remove_first :: "'a pairingheap \<Rightarrow> ('a \<times> 'a pairingheap) result" where
  "pairingheap_remove_first heap =
     (case ph_root heap of
        None \<Rightarrow> Inl AssertionFailed
      | Some n \<Rightarrow> Inr (ph_val n, heap\<lparr>ph_root := merge_children (ph_compare heap) (ph_children n)\<rparr>))"

text \<open>Unlinking \<open>node\<close> below the root: its place in the sibling list is taken by the heap merged from its
  children, or closed up when it has none.\<close>

fun unlink :: "('a \<Rightarrow> 'a \<Rightarrow> int) \<Rightarrow> 'a \<Rightarrow> 'a pairingheap_node \<Rightarrow> 'a pairingheap_node list" where
  "unlink compare node (PNode v ts) =
     (if v = node then (case merge_children compare ts of None \<Rightarrow> [] | Some r \<Rightarrow> [r])
      else [PNode v (concat (map (unlink compare node) ts))])"

definition pairingheap_remove :: "'a pairingheap \<Rightarrow> 'a \<Rightarrow> 'a pairingheap result" where
  "pairingheap_remove heap node =
     (case ph_root heap of
        None \<Rightarrow> Inl UndefinedBehaviour
      | Some (PNode v ts) \<Rightarrow>
          if v = node then rbind (pairingheap_remove_first heap) (\<lambda>(_, h). Inr h)
          else Inr (heap\<lparr>ph_root := Some (PNode v (concat (map (unlink (ph_compare heap) node) ts)))\<rparr>))"

section \<open>Contents\<close>

lemma in_sum_list_iff: "x \<in># sum_list (map f ts) \<longleftrightarrow> (\<exists>t\<in>set ts. x \<in># f t)"
  by (induction ts) auto

fun node_mset :: "'a pairingheap_node \<Rightarrow> 'a multiset" where
  "node_mset (PNode x ts) = add_mset x (sum_list (map node_mset ts))"

definition opt_mset :: "'a pairingheap_node option \<Rightarrow> 'a multiset" where
  "opt_mset r = (case r of None \<Rightarrow> {#} | Some n \<Rightarrow> node_mset n)"

definition ph_mset :: "'a pairingheap \<Rightarrow> 'a multiset" where
  "ph_mset h = opt_mset (ph_root h)"

lemma opt_mset_simps [simp]: "opt_mset None = {#}" "opt_mset (Some n) = node_mset n"
  by (simp_all add: opt_mset_def)

lemma node_mset_nonempty [simp]: "node_mset t \<noteq> {#}"
  by (cases t) simp

lemma node_mset_val: "node_mset t = add_mset (ph_val t) (sum_list (map node_mset (ph_children t)))"
  by (cases t) simp

lemma put_child_mset: "node_mset (put_child a b) = node_mset a + node_mset b"
  by (cases a) (simp add: put_child_def)

lemma merge_mset: "opt_mset (merge compare a b) = opt_mset a + opt_mset b"
  by (auto simp: merge_def put_child_mset split: option.splits)

lemma merge_Some: "\<exists>n. merge compare (Some a) (Some b) = Some n"
  by (simp add: merge_def)

lemma merge_pairs_mset:
  "sum_list (map node_mset (merge_pairs compare pairs ts)) =
   sum_list (map node_mset pairs) + sum_list (map node_mset ts)"
proof (induction compare pairs ts rule: merge_pairs.induct)
  case (3 compare pairs cur sib rest)
  obtain n where n: "merge compare (Some cur) (Some sib) = Some n" using merge_Some by metis
  have "node_mset n = node_mset cur + node_mset sib"
    using merge_mset [of compare "Some cur" "Some sib"] n by simp
  then show ?case using 3(2) [OF n] n by simp
qed simp_all

lemma merge_fold_mset:
  "opt_mset (foldl (\<lambda>r c. merge compare r (Some c)) r ps) = opt_mset r + sum_list (map node_mset ps)"
  by (induction ps arbitrary: r) (simp_all add: merge_mset)

lemma merge_rest_mset: "opt_mset (merge_rest compare ps) = sum_list (map node_mset ps)"
  by (cases ps) (simp_all add: merge_rest_def merge_fold_mset)

lemma merge_children_mset: "opt_mset (merge_children compare ts) = sum_list (map node_mset ts)"
  using merge_pairs_mset [of compare "[]" ts]
  by (auto simp: merge_children_def merge_rest_mset split: list.splits)

lemma ph_compare_simps [simp]:
  "ph_compare (pairingheap_allocate c) = c"
  "ph_compare (pairingheap_add h x) = ph_compare h"
  by (simp_all add: pairingheap_allocate_def pairingheap_add_def)

lemma ph_mset_allocate [simp]: "ph_mset (pairingheap_allocate c) = {#}"
  by (simp add: ph_mset_def pairingheap_allocate_def)

lemma ph_mset_add [simp]: "ph_mset (pairingheap_add h x) = add_mset x (ph_mset h)"
  by (simp add: ph_mset_def pairingheap_add_def merge_mset)

lemma ph_is_empty: "pairingheap_is_empty h \<longleftrightarrow> ph_mset h = {#}"
  by (auto simp: pairingheap_is_empty_def ph_mset_def opt_mset_def split: option.splits)

lemma ph_remove_first_mset:
  "pairingheap_remove_first h = Inr (x, h') \<Longrightarrow> ph_mset h = add_mset x (ph_mset h')"
  by (auto simp: pairingheap_remove_first_def ph_mset_def merge_children_mset node_mset_val split: option.splits)

lemma ph_remove_first_total: "ph_mset h \<noteq> {#} \<Longrightarrow> \<exists>x h'. pairingheap_remove_first h = Inr (x, h')"
  by (auto simp: pairingheap_remove_first_def ph_mset_def opt_mset_def split: option.splits)

lemma ph_first_remove: "pairingheap_first h = rbind (pairingheap_remove_first h) (\<lambda>(x, h'). Inr x)"
  by (simp add: pairingheap_first_def pairingheap_remove_first_def split: option.splits)

text \<open>Emptying a heap, the loop \<open>while (!pairingheap_is_empty(h)) ... pairingheap_remove_first(h)\<close> its
  clients write.\<close>

function drain :: "'a pairingheap \<Rightarrow> 'a list" where
  "drain h = (case pairingheap_remove_first h of Inl e \<Rightarrow> [] | Inr (x, h') \<Rightarrow> x # drain h')"
  by pat_completeness auto
termination
  by (relation "measure (\<lambda>h. size (ph_mset h))") (auto dest!: ph_remove_first_mset)

declare drain.simps [simp del]

lemma drain_mset: "mset (drain h) = ph_mset h"
proof (induction h rule: drain.induct)
  case (1 h)
  show ?case
  proof (cases "pairingheap_remove_first h")
    case (Inl e)
    then have "ph_mset h = {#}" using ph_remove_first_total by (metis Inr_Inl_False)
    then show ?thesis by (simp add: drain.simps [of h] Inl)
  next
    case (Inr p)
    then obtain x h' where p: "pairingheap_remove_first h = Inr (x, h')" by (cases p) auto
    then show ?thesis using 1 [OF p refl] by (simp add: drain.simps [of h] ph_remove_first_mset)
  qed
qed

section \<open>The interface of a priority queue\<close>

text \<open>\<open>key\<close> orders the values that satisfy \<open>ok\<close>; the queue serves the largest key first.\<close>

locale priority_queue =
  fixes inv :: "'q \<Rightarrow> bool" and items :: "'q \<Rightarrow> 'a multiset" and add :: "'q \<Rightarrow> 'a \<Rightarrow> 'q"
    and remove_first :: "'q \<Rightarrow> ('a \<times> 'q) result" and key :: "'a \<Rightarrow> 'k::linorder" and ok :: "'a \<Rightarrow> bool"
  assumes inv_ok: "inv q \<Longrightarrow> x \<in># items q \<Longrightarrow> ok x"
    and items_add: "items (add q x) = add_mset x (items q)"
    and inv_add: "inv q \<Longrightarrow> ok x \<Longrightarrow> inv (add q x)"
    and items_remove: "remove_first q = Inr (x, q') \<Longrightarrow> items q = add_mset x (items q')"
    and inv_remove: "inv q \<Longrightarrow> remove_first q = Inr (x, q') \<Longrightarrow> inv q'"
    and remove_max: "inv q \<Longrightarrow> remove_first q = Inr (x, q') \<Longrightarrow> y \<in># items q \<Longrightarrow> key y \<le> key x"
    and remove_total: "items q \<noteq> {#} \<Longrightarrow> \<exists>x q'. remove_first q = Inr (x, q')"
begin

lemma remove_rest_le:
  assumes "inv q" "remove_first q = Inr (x, q')" "y \<in># items q'"
  shows "key y \<le> key x"
  using assms remove_max [of q x q' y] items_remove [of q x q'] by simp

lemma inv_fold_add: "inv q \<Longrightarrow> (\<And>x. x \<in> set xs \<Longrightarrow> ok x) \<Longrightarrow> inv (foldl add q xs)"
  by (induction xs arbitrary: q) (simp_all add: inv_add)

lemma items_fold_add: "items (foldl add q xs) = items q + mset xs"
  by (induction xs arbitrary: q) (simp_all add: items_add)

end

section \<open>Comparators give priority queues\<close>

locale comparator =
  fixes compare :: "'a \<Rightarrow> 'a \<Rightarrow> int" and key :: "'a \<Rightarrow> 'k::linorder" and ok :: "'a \<Rightarrow> bool"
  assumes compare_lt: "ok a \<Longrightarrow> ok b \<Longrightarrow> compare a b < 0 \<longleftrightarrow> key a < key b"
begin

fun node_ok :: "'a pairingheap_node \<Rightarrow> bool" where
  "node_ok (PNode x ts) = (ok x \<and> (\<forall>t\<in>set ts. node_ok t \<and> key (ph_val t) \<le> key x))"

definition heap_inv :: "'a pairingheap \<Rightarrow> bool" where
  "heap_inv h = (ph_compare h = compare \<and> (case ph_root h of None \<Rightarrow> True | Some n \<Rightarrow> node_ok n))"

lemma node_okD:
  assumes "node_ok t"
  shows "ok (ph_val t)" and "\<forall>c\<in>set (ph_children t). node_ok c"
  using assms by (cases t; simp)+

lemma node_ok_all: "node_ok t \<Longrightarrow> x \<in># node_mset t \<Longrightarrow> ok x \<and> key x \<le> key (ph_val t)"
proof (induction t arbitrary: x)
  case (PNode v ts)
  show ?case
  proof (cases "x = v")
    case False
    then obtain t where "t \<in> set ts" "x \<in># node_mset t"
      using PNode.prems by (auto simp: in_sum_list_iff)
    then show ?thesis using PNode by fastforce
  qed (use PNode.prems in simp)
qed

lemma put_child_ok: "node_ok a \<Longrightarrow> node_ok b \<Longrightarrow> key (ph_val b) \<le> key (ph_val a) \<Longrightarrow> node_ok (put_child a b)"
  by (cases a) (simp add: put_child_def)

lemma merge_ok:
  assumes "case a of None \<Rightarrow> True | Some n \<Rightarrow> node_ok n" "case b of None \<Rightarrow> True | Some n \<Rightarrow> node_ok n"
  shows "case merge compare a b of None \<Rightarrow> True | Some n \<Rightarrow> node_ok n"
proof (cases "a = None \<or> b = None")
  case False
  then obtain a' b' where ab: "a = Some a'" "b = Some b'" by auto
  have ok: "node_ok a'" "node_ok b'" using assms ab by simp_all
  show ?thesis
  proof (cases "compare (ph_val a') (ph_val b') < 0")
    case True
    then have "key (ph_val a') \<le> key (ph_val b')"
      using compare_lt [OF node_okD(1) [OF ok(1)] node_okD(1) [OF ok(2)]] by simp
    then show ?thesis using True ok ab by (simp add: merge_def put_child_ok)
  next
    case False
    then have "key (ph_val b') \<le> key (ph_val a')"
      using compare_lt [OF node_okD(1) [OF ok(1)] node_okD(1) [OF ok(2)]] by simp
    then show ?thesis using False ok ab by (simp add: merge_def put_child_ok)
  qed
qed (use assms in \<open>auto simp: merge_def split: option.splits\<close>)

abbreviation root_ok :: "'a pairingheap_node option \<Rightarrow> bool" where
  "root_ok r \<equiv> (case r of None \<Rightarrow> True | Some n \<Rightarrow> node_ok n)"

lemma merge_pairs_ok:
  "\<forall>t\<in>set ps. node_ok t \<Longrightarrow> \<forall>t\<in>set ts. node_ok t \<Longrightarrow> \<forall>t\<in>set (merge_pairs compare ps ts). node_ok t"
proof (induction ts arbitrary: ps rule: induct_list012)
  case (3 t s ts)
  obtain n where n: "merge compare (Some t) (Some s) = Some n" using merge_Some by metis
  have "node_ok n" using merge_ok [of "Some t" "Some s"] n 3(4) by simp
  then have "\<forall>u\<in>set (merge_pairs compare (n # ps) ts). node_ok u"
    using 3(3,4) by (intro 3(1)) auto
  then show ?case by (simp only: merge_pairs.simps n option.case)
qed simp_all

lemma merge_fold_ok:
  "root_ok r \<Longrightarrow> \<forall>t\<in>set ps. node_ok t \<Longrightarrow> root_ok (foldl (\<lambda>r c. merge compare r (Some c)) r ps)"
proof (induction ps arbitrary: r)
  case (Cons p ps)
  have "root_ok (merge compare r (Some p))" using Cons.prems by (intro merge_ok) auto
  then show ?case using Cons.IH [of "merge compare r (Some p)"] Cons.prems by simp
qed simp

lemma merge_children_ok: "\<forall>t\<in>set ts. node_ok t \<Longrightarrow> root_ok (merge_children compare ts)"
proof -
  assume ts: "\<forall>t\<in>set ts. node_ok t"
  have rest: "root_ok (merge_rest compare ps)" if "\<forall>t\<in>set ps. node_ok t" for ps
  proof (cases ps)
    case (Cons q qs)
    then show ?thesis using that merge_fold_ok [of "Some q" qs] by (simp add: merge_rest_def)
  qed (simp add: merge_rest_def)
  show ?thesis
    using ts rest merge_pairs_ok [OF _ ts, of "[]"]
    by (auto simp: merge_children_def split: list.splits)
qed

lemma heap_inv_allocate: "heap_inv (pairingheap_allocate compare)"
  by (simp add: heap_inv_def pairingheap_allocate_def)

lemma heap_inv_add: "heap_inv h \<Longrightarrow> ok x \<Longrightarrow> heap_inv (pairingheap_add h x)"
  using merge_ok [of "ph_root h" "Some (PNode x [])"]
  by (simp add: heap_inv_def pairingheap_add_def)

lemma heap_inv_remove: "heap_inv h \<Longrightarrow> pairingheap_remove_first h = Inr (x, h') \<Longrightarrow> heap_inv h'"
  by (auto simp: heap_inv_def pairingheap_remove_first_def dest!: merge_children_ok [OF node_okD(2)]
      split: option.splits)

end

sublocale comparator \<subseteq> pq: priority_queue heap_inv ph_mset pairingheap_add pairingheap_remove_first key ok
proof unfold_locales
  fix q :: "'a pairingheap" and x y q'
  show "heap_inv q \<Longrightarrow> x \<in># ph_mset q \<Longrightarrow> ok x"
    by (auto simp: heap_inv_def ph_mset_def opt_mset_def dest: node_ok_all split: option.splits)
  show "heap_inv q \<Longrightarrow> pairingheap_remove_first q = Inr (x, q') \<Longrightarrow> y \<in># ph_mset q \<Longrightarrow> key y \<le> key x"
    by (auto simp: heap_inv_def ph_mset_def opt_mset_def pairingheap_remove_first_def dest: node_ok_all
        split: option.splits)
qed (auto intro: heap_inv_add heap_inv_remove ph_remove_first_mset dest: ph_remove_first_total)

context comparator
begin

lemma build_inv: "(\<And>x. x \<in> set xs \<Longrightarrow> ok x) \<Longrightarrow> heap_inv (foldl pairingheap_add (pairingheap_allocate compare) xs)"
  by (rule pq.inv_fold_add [OF heap_inv_allocate])

lemma build_mset: "ph_mset (foldl pairingheap_add (pairingheap_allocate compare) xs) = mset xs"
  by (simp add: pq.items_fold_add)

lemma drain_sorted: "heap_inv h \<Longrightarrow> sorted_wrt (\<lambda>a b. key b \<le> key a) (drain h)"
proof (induction h rule: drain.induct)
  case (1 h)
  show ?case
  proof (cases "pairingheap_remove_first h")
    case (Inr p)
    then obtain x h' where p: "pairingheap_remove_first h = Inr (x, h')" by (cases p) auto
    have "key y \<le> key x" if "y \<in> set (drain h')" for y
      using pq.remove_rest_le [OF "1.prems" p] that drain_mset [of h'] by (metis set_mset_mset)
    then show ?thesis
      using "1.IH" [OF p refl] pq.inv_remove [OF "1.prems" p] by (simp add: drain.simps [of h] p)
  qed (simp add: drain.simps [of h])
qed

end

text \<open>The order of the integers as an instance, for the examples.\<close>

definition int_compare :: "int \<Rightarrow> int \<Rightarrow> int" where
  "int_compare a b = a - b"

interpretation int_heap: comparator int_compare "\<lambda>x. x" "\<lambda>_. True"
  by unfold_locales (simp add: int_compare_def)

section \<open>Removal of an arbitrary node\<close>

lemma unlink_absent: "node \<notin># node_mset t \<Longrightarrow> unlink compare node t = [t]"
proof (induction t)
  case (PNode v ts)
  have "unlink compare node t = [t]" if "t \<in> set ts" for t
    using PNode.IH [OF that] PNode.prems that by (force simp: in_sum_list_iff)
  then have "concat (map (unlink compare node) ts) = ts"
    by (induction ts) auto
  then show ?case using PNode.prems by auto
qed

lemma unlink_mset:
  assumes "count (node_mset t) node \<le> 1"
  shows "sum_list (map node_mset (unlink compare node t)) = node_mset t - {#node#}"
  using assms
proof (induction t)
  case (PNode v ts)
  show ?case
  proof (cases "v = node")
    case True
    have "sum_list (map node_mset (case merge_children compare ts of None \<Rightarrow> [] | Some r \<Rightarrow> [r])) =
       opt_mset (merge_children compare ts)" by (simp split: option.splits)
    then show ?thesis using True by (simp add: merge_children_mset)
  next
    case False
    have "sum_list (map node_mset (concat (map (unlink compare node) us))) = sum_list (map node_mset us) - {#node#}"
      if "set us \<subseteq> set ts" "count (sum_list (map node_mset us)) node \<le> 1" for us
      using that
    proof (induction us)
      case (Cons u us)
      have u: "sum_list (map node_mset (unlink compare node u)) = node_mset u - {#node#}"
        using Cons.prems by (intro PNode.IH) auto
      have us: "sum_list (map node_mset (concat (map (unlink compare node) us))) = sum_list (map node_mset us) - {#node#}"
        using Cons by simp
      let ?r = "sum_list (map node_mset us)"
      have "node_mset u - {#node#} + (?r - {#node#}) = node_mset u + ?r - {#node#}"
      proof (cases "node \<in># node_mset u")
        case True
        then have "count ?r node = 0"
          using Cons.prems(2) count_greater_zero_iff [of "node_mset u" node] by (simp del: count_greater_zero_iff)
        then have "?r - {#node#} = ?r" by (simp add: diff_single_trivial count_eq_zero_iff)
        then show ?thesis using True by (metis diff_union_single_conv union_commute)
      next
        case False
        then show ?thesis
          by (cases "node \<in># ?r") (simp_all only: diff_single_trivial diff_union_single_conv union_iff not_False_eq_True simp_thms)
      qed
      then show ?case using u us by simp
    qed simp
    from this [of ts] PNode.prems False show ?thesis by simp
  qed
qed

context comparator
begin

lemma unlink_ok:
  "node_ok t \<Longrightarrow> \<forall>u\<in>set (unlink compare node t). node_ok u \<and> key (ph_val u) \<le> key (ph_val t)"
proof (induction t)
  case (PNode v ts)
  show ?case
  proof (cases "v = node")
    case True
    have "node_ok r \<and> key (ph_val r) \<le> key v" if r: "merge_children compare ts = Some r" for r
    proof
      show "node_ok r" using merge_children_ok [of ts] r PNode.prems by simp
      have "ph_val r \<in># sum_list (map node_mset ts)"
        using merge_children_mset [of compare ts] r node_mset_val [of r] by (metis opt_mset_simps(2) union_single_eq_member)
      then have "ph_val r \<in># node_mset (PNode v ts)" by simp
      then show "key (ph_val r) \<le> key v" using node_ok_all [OF PNode.prems] by fastforce
    qed
    then show ?thesis using True by (auto split: option.splits)
  next
    case False
    have "node_ok u \<and> key (ph_val u) \<le> key v" if "t \<in> set ts" "u \<in> set (unlink compare node t)" for t u
      using PNode.IH [OF that(1)] PNode.prems that by (meson node_ok.simps order_trans)
    then show ?thesis using False PNode.prems by auto
  qed
qed

lemma heap_inv_unlink:
  assumes "heap_inv h" "pairingheap_remove h x = Inr h'"
  shows "heap_inv h'"
proof -
  obtain v ts where r: "ph_root h = Some (PNode v ts)"
    using assms(2) by (auto simp: pairingheap_remove_def split: option.splits pairingheap_node.splits)
  show ?thesis
  proof (cases "v = x")
    case True
    then obtain y where "pairingheap_remove_first h = Inr (y, h')"
      using assms(2) r by (auto simp: pairingheap_remove_def hnsw_err)
    then show ?thesis using assms(1) heap_inv_remove by blast
  next
    case False
    have "\<forall>u\<in>set (unlink compare x t). node_ok u \<and> key (ph_val u) \<le> key v" if "t \<in> set ts" for t
      using unlink_ok [of t x] assms(1) r that by (fastforce simp: heap_inv_def)
    then show ?thesis
      using False assms r by (auto simp: pairingheap_remove_def heap_inv_def)
  qed
qed

end

lemma pairingheap_remove_mset:
  assumes "count (ph_mset h) x = 1"
  shows "\<exists>h'. pairingheap_remove h x = Inr h' \<and> ph_mset h' = ph_mset h - {#x#}"
proof -
  obtain v ts where r: "ph_root h = Some (PNode v ts)"
    using assms by (cases "ph_root h") (auto simp: ph_mset_def, metis pairingheap_node.exhaust)
  show ?thesis
  proof (cases "v = x")
    case True
    then show ?thesis
      using r by (simp add: pairingheap_remove_def pairingheap_remove_first_def ph_mset_def merge_children_mset)
  next
    case False
    let ?n = "PNode v (concat (map (unlink (ph_compare h) x) ts))"
    have "unlink (ph_compare h) x (PNode v ts) = [?n]" using False by simp
    then have "node_mset ?n = node_mset (PNode v ts) - {#x#}"
      using unlink_mset [of "PNode v ts" x "ph_compare h"] assms r
      by (simp only: ph_mset_def opt_mset_simps list.map sum_list.Cons sum_list.Nil add_0_right)
    then show ?thesis using False r by (simp add: pairingheap_remove_def ph_mset_def)
  qed
qed

section \<open>Properties\<close>

text \<open>C31: with a comparator that realises a linear order, adding any elements to an empty heap and
  removing the first until it is empty yields exactly these elements in descending order.\<close>

theorem pairingheap_sorts:
  fixes key :: "'a \<Rightarrow> 'k::linorder"
  assumes "\<And>a b. compare a b < 0 \<longleftrightarrow> key a < key b"
  shows "mset (drain (foldl pairingheap_add (pairingheap_allocate compare) xs)) = mset xs \<and>
    sorted_wrt (\<lambda>a b. key b \<le> key a) (drain (foldl pairingheap_add (pairingheap_allocate compare) xs))"
proof -
  have c: "comparator compare key (\<lambda>_. True)" using assms by unfold_locales
  then show ?thesis
    using comparator.drain_sorted [OF c comparator.build_inv [OF c]] by (simp add: drain_mset comparator.build_mset [OF c])
qed

theorem pairingheap_sorts_witness:
  "mset (drain (foldl pairingheap_add (pairingheap_allocate int_compare) [2, 3, 1])) = {#1, 2, 3#}"
  using pairingheap_sorts [of int_compare "\<lambda>x. x" "[2, 3, 1]"] by (simp add: int_compare_def)

text \<open>C32: \<open>pairingheap_remove\<close> takes exactly the given node out of the heap, wherever it is, and keeps
  the heap order: emptying the heap afterwards still yields a descending sequence.\<close>

theorem pairingheap_remove_correct:
  fixes key :: "'a \<Rightarrow> 'k::linorder"
  assumes "\<And>a b. compare a b < 0 \<longleftrightarrow> key a < key b" and "distinct xs" and "x \<in> set xs"
  shows "\<exists>h'. pairingheap_remove (foldl pairingheap_add (pairingheap_allocate compare) xs) x = Inr h' \<and>
    mset (drain h') = mset (remove1 x xs) \<and> sorted_wrt (\<lambda>a b. key b \<le> key a) (drain h')"
proof -
  have c: "comparator compare key (\<lambda>_. True)" using assms(1) by unfold_locales
  let ?h = "foldl pairingheap_add (pairingheap_allocate compare) xs"
  note m = comparator.build_mset [OF c, of xs]
  have "count (ph_mset ?h) x = 1" using assms(2,3) m by (simp add: distinct_count_atmost_1)
  from pairingheap_remove_mset [OF this] obtain h'
    where h: "pairingheap_remove ?h x = Inr h'" "ph_mset h' = ph_mset ?h - {#x#}" by blast
  from comparator.drain_sorted [OF c comparator.heap_inv_unlink [OF c comparator.build_inv [OF c] h(1)]]
  show ?thesis using h m by (auto simp: drain_mset)
qed

theorem pairingheap_remove_correct_witness:
  "\<exists>h'. pairingheap_remove (foldl pairingheap_add (pairingheap_allocate int_compare) [2, 3, 1]) 2 = Inr h' \<and>
     mset (drain h') = {#1, 3#} \<and> sorted_wrt (\<lambda>a b. b \<le> a) (drain h')"
  using pairingheap_remove_correct [of int_compare "\<lambda>x. x" "[2, 3, 1]" 2]
  by (simp add: int_compare_def add_mset_commute)

end
