(* ===== verification/Bufpage.thy ===== *)
theory Bufpage
  imports Prelude
begin

text \<open>
  The page layout of \<open>src/backend/storage/page/bufpage.c\<close>, as far as the index uses it.  A page is
  its header fields, its line pointer array and its byte image; items are byte strings.  Next to it
  stands the page the index algorithms see: header fields with a list of typed items.  The
  refinement lemmas show that adding and overwriting an item on the byte page does to the items, and
  to nothing else, what the typed operations say, for every encoding of the items as bytes.
\<close>

section \<open>Constants\<close>

type_synonym pbyte = "8 word"

definition BLCKSZ :: nat where [hnsw_const]:
  "BLCKSZ = 8192"

definition SizeOfPageHeaderData :: nat where [hnsw_const]:
  "SizeOfPageHeaderData = 24"

definition sizeof_ItemIdData :: nat where [hnsw_const]:
  "sizeof_ItemIdData = 4"

definition InvalidOffsetNumber :: nat where [hnsw_const]:
  "InvalidOffsetNumber = 0"

definition FirstOffsetNumber :: nat where [hnsw_const]:
  "FirstOffsetNumber = 1"

definition MaxHeapTuplesPerPage :: nat where [hnsw_const]:
  "MaxHeapTuplesPerPage = 291"

definition MAXALIGN :: "nat \<Rightarrow> nat" where
  "MAXALIGN n = (n + 7) div 8 * 8"

lemma MAXALIGN_ge: "n \<le> MAXALIGN n"
  by (simp add: MAXALIGN_def)

lemma MAXALIGN_lt: "MAXALIGN n < n + 8"
  by (simp add: MAXALIGN_def)

lemma MAXALIGN_mod [simp]: "MAXALIGN n mod 8 = 0"
  by (simp add: MAXALIGN_def)

lemma MAXALIGN_id: "n mod 8 = 0 \<Longrightarrow> MAXALIGN n = n"
  by (auto simp: MAXALIGN_def mod_0_imp_dvd elim!: dvdE)

lemma MAXALIGN_eq: "MAXALIGN n = n \<longleftrightarrow> n mod 8 = 0"
  using MAXALIGN_id MAXALIGN_mod by metis

section \<open>The byte page\<close>

record ItemId =
  lp_off :: nat
  lp_flags :: nat
  lp_len :: nat

record PageData =
  pd_has_free_lines :: bool
  pd_lower :: nat
  pd_upper :: nat
  pd_special :: nat
  pd_linp :: "ItemId list"
  pd_image :: "pbyte list"

definition ItemIdIsUsed :: "ItemId \<Rightarrow> bool" where
  "ItemIdIsUsed i = (lp_flags i \<noteq> 0)"

definition ItemIdHasStorage :: "ItemId \<Rightarrow> bool" where
  "ItemIdHasStorage i = (lp_len i \<noteq> 0)"

definition ItemIdSetNormal :: "nat \<Rightarrow> nat \<Rightarrow> ItemId" where
  "ItemIdSetNormal off len = \<lparr>lp_off = off mod 32768, lp_flags = 1, lp_len = len mod 32768\<rparr>"

definition mem_write :: "'a list \<Rightarrow> nat \<Rightarrow> 'a list \<Rightarrow> 'a list" where
  "mem_write bs off xs = take off bs @ xs @ drop (off + length xs) bs"

definition mem_read :: "'a list \<Rightarrow> nat \<Rightarrow> nat \<Rightarrow> 'a list" where
  "mem_read bs off n = take n (drop off bs)"

definition PageInit :: "nat \<Rightarrow> nat \<Rightarrow> PageData result" where
  "PageInit pageSize specialSize =
     (let sp = MAXALIGN specialSize in
      if \<not> (pageSize = BLCKSZ \<and> pageSize > sp + SizeOfPageHeaderData) then Inl AssertionFailed
      else Inr \<lparr>pd_has_free_lines = False, pd_lower = SizeOfPageHeaderData, pd_upper = pageSize - sp,
                pd_special = pageSize - sp, pd_linp = [], pd_image = replicate pageSize 0\<rparr>)"

definition PageGetMaxOffsetNumber :: "PageData \<Rightarrow> nat" where
  "PageGetMaxOffsetNumber page =
     (if pd_lower page \<le> SizeOfPageHeaderData then 0
      else (pd_lower page - SizeOfPageHeaderData) div sizeof_ItemIdData)"

definition PageGetFreeSpace :: "PageData \<Rightarrow> nat" where
  "PageGetFreeSpace page =
     (let space = int (pd_upper page) - int (pd_lower page)
      in if space < int sizeof_ItemIdData then 0 else nat (space - int sizeof_ItemIdData))"

definition PageGetExactFreeSpace :: "PageData \<Rightarrow> nat" where
  "PageGetExactFreeSpace page =
     (let space = int (pd_upper page) - int (pd_lower page) in if space < 0 then 0 else nat space)"

definition PageGetItemId :: "PageData \<Rightarrow> nat \<Rightarrow> ItemId result" where
  "PageGetItemId page off = (if off = 0 then Inl UndefinedBehaviour else nth_r (pd_linp page) (off - 1))"

definition PageGetItem :: "PageData \<Rightarrow> nat \<Rightarrow> (pbyte list) result" where
  "PageGetItem page off =
     rbind (PageGetItemId page off) (\<lambda>i.
       if ItemIdHasStorage i then Inr (mem_read (pd_image page) (lp_off i) (lp_len i)) else Inl AssertionFailed)"

text \<open>The loop that looks for a recyclable line pointer among the offsets from \<open>off\<close> up to \<open>limit\<close>.\<close>

fun find_free_linp :: "nat \<Rightarrow> ItemId list \<Rightarrow> nat result" where
  "find_free_linp off [] = Inr off"
| "find_free_linp off (i # is) =
     (if \<not> (ItemIdIsUsed i \<or> \<not> ItemIdHasStorage i) then Inl AssertionFailed
      else if \<not> ItemIdIsUsed i \<and> \<not> ItemIdHasStorage i then Inr off
      else find_free_linp (Suc off) is)"

definition page_corrupt :: "PageData \<Rightarrow> bool" where
  "page_corrupt page = (pd_lower page < SizeOfPageHeaderData \<or> pd_lower page > pd_upper page \<or>
     pd_upper page > pd_special page \<or> pd_special page > BLCKSZ)"

text \<open>Choosing the offset: the offset (0: refused), whether line pointers have to move, and the page
  with its hint bit corrected.\<close>

definition choose_offset :: "PageData \<Rightarrow> nat \<Rightarrow> bool \<Rightarrow> (nat \<times> bool \<times> PageData) result" where
  "choose_offset page offsetNumber overwrite =
     (let limit = PageGetMaxOffsetNumber page + 1 in
      if offsetNumber \<noteq> InvalidOffsetNumber then
        if overwrite then
          if offsetNumber < limit then
            rbind (PageGetItemId page offsetNumber) (\<lambda>i.
              if ItemIdIsUsed i \<or> ItemIdHasStorage i then Inr (InvalidOffsetNumber, False, page)
              else Inr (offsetNumber, False, page))
          else Inr (offsetNumber, False, page)
        else Inr (offsetNumber, offsetNumber < limit, page)
      else if pd_has_free_lines page then
        rbind (find_free_linp FirstOffsetNumber (take (limit - 1) (pd_linp page))) (\<lambda>off.
          Inr (off, False, if off \<ge> limit then page\<lparr>pd_has_free_lines := False\<rparr> else page))
      else Inr (limit, False, page))"

definition place_item :: "PageData \<Rightarrow> pbyte list \<Rightarrow> nat \<Rightarrow> bool \<Rightarrow> nat \<times> PageData" where
  "place_item page item off needshuffle =
     (let limit = PageGetMaxOffsetNumber page + 1;
          lower = (if off = limit \<or> needshuffle then pd_lower page + sizeof_ItemIdData else pd_lower page);
          upper = int (pd_upper page) - int (MAXALIGN (length item))
      in if int lower > upper then (InvalidOffsetNumber, page)
         else let i = ItemIdSetNormal (nat upper) (length item);
                  linp = (if needshuffle then take (off - 1) (pd_linp page) @ i # drop (off - 1) (pd_linp page)
                          else if off = limit then take (off - 1) (pd_linp page) @ [i]
                          else (pd_linp page)[off - 1 := i])
              in (off, page\<lparr>pd_lower := lower, pd_upper := nat upper, pd_linp := linp,
                            pd_image := mem_write (pd_image page) (nat upper) item\<rparr>))"

definition PageAddItemExtended :: "PageData \<Rightarrow> pbyte list \<Rightarrow> nat \<Rightarrow> bool \<Rightarrow> bool \<Rightarrow> (nat \<times> PageData) result" where
  "PageAddItemExtended page item offsetNumber pai_overwrite pai_is_heap =
     (if page_corrupt page then Inl ErrCorruptedPage
      else rbind (choose_offset page offsetNumber pai_overwrite) (\<lambda>(off, needshuffle, page1).
        if off = InvalidOffsetNumber then Inr (InvalidOffsetNumber, page1)
        else if off > PageGetMaxOffsetNumber page + 1 then Inr (InvalidOffsetNumber, page1)
        else if pai_is_heap \<and> off > MaxHeapTuplesPerPage then Inr (InvalidOffsetNumber, page1)
        else Inr (place_item page1 item off needshuffle)))"

definition shift_linp :: "nat \<Rightarrow> int \<Rightarrow> ItemId \<Rightarrow> ItemId" where
  "shift_linp offset size_diff ii =
     (if ItemIdHasStorage ii \<and> lp_off ii \<le> offset then ii\<lparr>lp_off := nat (int (lp_off ii) + size_diff)\<rparr> else ii)"

definition PageIndexTupleOverwrite :: "PageData \<Rightarrow> nat \<Rightarrow> pbyte list \<Rightarrow> (bool \<times> PageData) result" where
  "PageIndexTupleOverwrite page offnum newtup =
     (if page_corrupt page \<or> pd_special page \<noteq> MAXALIGN (pd_special page) then Inl ErrCorruptedPage
      else if offnum = 0 \<or> offnum > PageGetMaxOffsetNumber page then Inl (ErrInvalidOffnum offnum)
      else rbind (PageGetItemId page offnum) (\<lambda>tupid.
        if \<not> ItemIdHasStorage tupid then Inl AssertionFailed
        else let offset = lp_off tupid in
          if offset < pd_upper page \<or> offset + lp_len tupid > pd_special page \<or> offset \<noteq> MAXALIGN offset
          then Inl ErrCorruptedLinePointer
          else let oldsize = MAXALIGN (lp_len tupid); alignednewsize = MAXALIGN (length newtup) in
            if alignednewsize > oldsize + (pd_upper page - pd_lower page) then Inr (False, page)
            else let size_diff = int oldsize - int alignednewsize;
                     upper' = nat (int (pd_upper page) + size_diff);
                     page1 = (if size_diff = 0 then page
                       else page\<lparr>pd_upper := upper',
                              pd_image := mem_write (pd_image page) upper'
                                 (mem_read (pd_image page) (pd_upper page) (offset - pd_upper page)),
                              pd_linp := map (shift_linp offset size_diff) (pd_linp page)\<rparr>);
                     off' = nat (int offset + size_diff);
                     tupid' = tupid\<lparr>lp_off := off', lp_len := length newtup mod 32768\<rparr>
                 in Inr (True, page1\<lparr>pd_linp := (pd_linp page1)[offnum - 1 := tupid'],
                                     pd_image := mem_write (pd_image page1) off' newtup\<rparr>)))"


section \<open>Well-formed pages\<close>

text \<open>The aligned extent of an item.\<close>

definition linp_end :: "ItemId \<Rightarrow> nat" where
  "linp_end i = lp_off i + MAXALIGN (lp_len i)"

definition linp_ok :: "PageData \<Rightarrow> ItemId \<Rightarrow> bool" where
  "linp_ok p i = (lp_flags i = 1 \<and> 0 < lp_len i \<and> lp_off i mod 8 = 0 \<and>
     pd_upper p \<le> lp_off i \<and> linp_end i \<le> pd_special p)"

definition apart :: "ItemId \<Rightarrow> ItemId \<Rightarrow> bool" where
  "apart i j = (linp_end i \<le> lp_off j \<or> linp_end j \<le> lp_off i)"

definition page_wf :: "PageData \<Rightarrow> bool" where
  "page_wf p = (\<not> page_corrupt p \<and> pd_lower p = SizeOfPageHeaderData + sizeof_ItemIdData * length (pd_linp p) \<and>
     pd_special p mod 8 = 0 \<and> pd_upper p mod 8 = 0 \<and> length (pd_image p) = BLCKSZ \<and> \<not> pd_has_free_lines p \<and>
     (\<forall>i\<in>set (pd_linp p). linp_ok p i) \<and> sorted_wrt apart (pd_linp p))"

definition linp_item :: "PageData \<Rightarrow> ItemId \<Rightarrow> pbyte list" where
  "linp_item p i = mem_read (pd_image p) (lp_off i) (lp_len i)"

definition page_items :: "PageData \<Rightarrow> pbyte list list" where
  "page_items p = map (linp_item p) (pd_linp p)"

lemma mem_write_length [simp]: "w + length xs \<le> length bs \<Longrightarrow> length (mem_write bs w xs) = length bs"
  by (simp add: mem_write_def)

lemma mem_write_nth:
  "w + length xs \<le> length bs \<Longrightarrow> i < length bs \<Longrightarrow>
   mem_write bs w xs ! i = (if w \<le> i \<and> i < w + length xs then xs ! (i - w) else bs ! i)"
  by (auto simp: mem_write_def nth_append)

lemma mem_read_write_apart:
  assumes "w + length xs \<le> length bs" "off + n \<le> length bs" "off + n \<le> w \<or> w + length xs \<le> off"
  shows "mem_read (mem_write bs w xs) off n = mem_read bs off n"
  using assms by (intro nth_equalityI) (auto simp: mem_read_def mem_write_nth)

lemma mem_read_write_inside:
  assumes "w + length xs \<le> length bs" "w \<le> off" "off + n \<le> w + length xs"
  shows "mem_read (mem_write bs w xs) off n = mem_read xs (off - w) n"
  using assms by (intro nth_equalityI) (auto simp: mem_read_def mem_write_nth)

lemma mem_read_read:
  assumes "off + n \<le> k"
  shows "mem_read (mem_read bs a k) off n = mem_read bs (a + off) n"
  using assms by (simp add: mem_read_def take_drop drop_drop min_def add.commute add.left_commute)

lemma mem_read_all [simp]: "mem_read xs 0 (length xs) = xs"
  by (simp add: mem_read_def)

lemma page_wfD:
  assumes "page_wf p"
  shows "pd_lower p = 24 + 4 * length (pd_linp p)" "pd_lower p \<le> pd_upper p" "pd_upper p \<le> pd_special p"
    "pd_special p \<le> 8192" "pd_special p mod 8 = 0" "pd_upper p mod 8 = 0" "length (pd_image p) = 8192"
    "\<not> pd_has_free_lines p" "\<And>i. i \<in> set (pd_linp p) \<Longrightarrow> linp_ok p i" "sorted_wrt apart (pd_linp p)"
    "\<not> page_corrupt p"
  using assms by (auto simp: page_wf_def page_corrupt_def hnsw_const)

lemma page_wf_maxoff: "page_wf p \<Longrightarrow> PageGetMaxOffsetNumber p = length (pd_linp p)"
  by (simp add: PageGetMaxOffsetNumber_def page_wfD hnsw_const)

lemma linp_okD:
  assumes "linp_ok p i"
  shows "0 < lp_len i" "lp_off i mod 8 = 0" "pd_upper p \<le> lp_off i" "linp_end i \<le> pd_special p"
    "lp_off i + lp_len i \<le> linp_end i" "ItemIdHasStorage i" "lp_flags i = 1"
  using assms MAXALIGN_ge by (simp_all add: linp_ok_def linp_end_def ItemIdHasStorage_def)

lemma PageInit_wf:
  assumes "MAXALIGN sp + 24 < 8192"
  shows "\<exists>p. PageInit BLCKSZ sp = Inr p \<and> page_wf p \<and> page_items p = [] \<and> pd_lower p = 24 \<and>
    pd_upper p = 8192 - MAXALIGN sp \<and> pd_special p = 8192 - MAXALIGN sp"
proof -
  have "8192 - MAXALIGN sp = 8 * (1024 - (sp + 7) div 8)" by (simp add: MAXALIGN_def)
  then have "(8192 - MAXALIGN sp) mod 8 = 0" by (metis mod_mult_self1_is_0)
  then show ?thesis
    using assms by (simp add: PageInit_def Let_def page_wf_def page_corrupt_def page_items_def hnsw_const) arith
qed

section \<open>The page of typed items\<close>

record 'a ipage =
  ip_lower :: nat
  ip_upper :: nat
  ip_items :: "'a list"

definition ip_free_space :: "('a, 'b) ipage_scheme \<Rightarrow> nat" where
  "ip_free_space q = ip_upper q - ip_lower q - sizeof_ItemIdData"

definition ip_exact_free_space :: "('a, 'b) ipage_scheme \<Rightarrow> nat" where
  "ip_exact_free_space q = ip_upper q - ip_lower q"

text \<open>\<open>PageAddItem(page, item, size, InvalidOffsetNumber, false, false)\<close>: the offset of the new item, or 0.\<close>

definition ip_add :: "('a \<Rightarrow> nat) \<Rightarrow> ('a, 'b) ipage_scheme \<Rightarrow> 'a \<Rightarrow> nat \<times> ('a, 'b) ipage_scheme" where
  "ip_add isize q x =
     (if ip_lower q + sizeof_ItemIdData + MAXALIGN (isize x) \<le> ip_upper q
      then (Suc (length (ip_items q)),
            q\<lparr>ip_lower := ip_lower q + sizeof_ItemIdData, ip_upper := ip_upper q - MAXALIGN (isize x),
              ip_items := ip_items q @ [x]\<rparr>)
      else (InvalidOffsetNumber, q))"

definition ip_overwrite :: "('a \<Rightarrow> nat) \<Rightarrow> ('a, 'b) ipage_scheme \<Rightarrow> nat \<Rightarrow> 'a \<Rightarrow>
    (bool \<times> ('a, 'b) ipage_scheme) result" where
  "ip_overwrite isize q off x =
     (if off = 0 \<or> length (ip_items q) < off then Inl (ErrInvalidOffnum off)
      else let old = MAXALIGN (isize (ip_items q ! (off - 1))); new = MAXALIGN (isize x) in
        if new \<le> old + (ip_upper q - ip_lower q)
        then Inr (True, q\<lparr>ip_upper := ip_upper q + old - new, ip_items := (ip_items q)[off - 1 := x]\<rparr>)
        else Inr (False, q))"

definition ip_get :: "('a, 'b) ipage_scheme \<Rightarrow> nat \<Rightarrow> 'a result" where
  "ip_get q off = (if off = 0 then Inl UndefinedBehaviour else nth_r (ip_items q) (off - 1))"


section \<open>Adding an item\<close>

text \<open>The page \<open>p\<close> with its free space boundary lowered and one more item above it.\<close>

lemma linp_ok_lower_upper:
  "linp_ok p i \<Longrightarrow> pd_upper p' \<le> pd_upper p \<Longrightarrow> pd_special p' = pd_special p \<Longrightarrow> linp_ok p' i"
  by (simp add: linp_ok_def)

definition add_new :: "PageData \<Rightarrow> pbyte list \<Rightarrow> PageData" where
  "add_new p item = p\<lparr>pd_lower := pd_lower p + 4, pd_upper := pd_upper p - MAXALIGN (length item),
     pd_linp := pd_linp p @ [\<lparr>lp_off = pd_upper p - MAXALIGN (length item), lp_flags = 1, lp_len = length item\<rparr>],
     pd_image := mem_write (pd_image p) (pd_upper p - MAXALIGN (length item)) item\<rparr>"

lemma PageAddItem_eq:
  assumes wf: "page_wf p" and fits: "pd_lower p + 4 + MAXALIGN (length item) \<le> pd_upper p"
  shows "PageAddItemExtended p item InvalidOffsetNumber False False =
    Inr (Suc (length (pd_linp p)), add_new p item)"
proof -
  note w = page_wfD [OF wf]
  have "length item < 32768" "pd_upper p - MAXALIGN (length item) < 32768"
    using fits w(3,4) MAXALIGN_ge [of "length item"] by simp_all
  moreover have "nat (int (pd_upper p) - int (MAXALIGN (length item))) = pd_upper p - MAXALIGN (length item)"
    by simp
  ultimately show ?thesis
    using w(8,11) fits page_wf_maxoff [OF wf]
    by (simp add: PageAddItemExtended_def choose_offset_def place_item_def Let_def add_new_def ItemIdSetNormal_def hnsw_const)
qed

lemma PageAddItem_full:
  assumes wf: "page_wf p" and full: "pd_upper p < pd_lower p + 4 + MAXALIGN (length item)"
  shows "PageAddItemExtended p item InvalidOffsetNumber False False = Inr (InvalidOffsetNumber, p)"
  using page_wfD(8,11) [OF wf] full page_wf_maxoff [OF wf]
  by (simp add: PageAddItemExtended_def choose_offset_def place_item_def Let_def hnsw_const)

lemma add_new_wf:
  assumes wf: "page_wf p" and fits: "pd_lower p + 4 + MAXALIGN (length item) \<le> pd_upper p" and ne: "item \<noteq> []"
  shows "page_wf (add_new p item)" and "page_items (add_new p item) = page_items p @ [item]"
proof -
  note w = page_wfD [OF wf]
  let ?a = "MAXALIGN (length item)" and ?p = "add_new p item"
  let ?u = "pd_upper p - ?a"
  let ?i = "\<lparr>lp_off = ?u, lp_flags = 1, lp_len = length item\<rparr>"
  have u8: "?u mod 8 = 0"
    using w(6) MAXALIGN_mod fits by (metis dvd_diff_nat dvd_imp_mod_0 mod_0_imp_dvd)
  have new: "linp_ok ?p ?i" "linp_end ?i = pd_upper p"
    using fits ne u8 w(3) by (simp_all add: linp_ok_def linp_end_def add_new_def)
  have apart: "apart j ?i" "linp_ok ?p j" if "j \<in> set (pd_linp p)" for j
    using linp_okD(3) [OF w(9) [OF that]] new(2) linp_ok_lower_upper [OF w(9) [OF that], of ?p]
    by (simp_all add: apart_def add_new_def)
  have len: "?u + length item \<le> pd_upper p" using MAXALIGN_ge [of "length item"] fits by simp
  show "page_wf ?p"
    unfolding page_wf_def page_corrupt_def
    using w new apart u8 fits len
    by (auto simp: hnsw_const add_new_def sorted_wrt_append)
  have "linp_item ?p j = linp_item p j" if "j \<in> set (pd_linp p)" for j
    using linp_okD(3,4,5) [OF w(9) [OF that]] len w(3,4,7)
    by (simp add: linp_item_def add_new_def mem_read_write_apart)
  moreover have "linp_item ?p ?i = item"
    using len w(3,4,7) by (simp add: linp_item_def add_new_def mem_read_write_inside)
  ultimately show "page_items ?p = page_items p @ [item]"
    by (simp add: page_items_def) (simp add: add_new_def)
qed

section \<open>Overwriting an item\<close>

lemma apart_sym: "apart i j \<longleftrightarrow> apart j i"
  by (auto simp: apart_def)

lemma sorted_apart:
  assumes "sorted_wrt apart ls" "i < length ls" "j < length ls" "i \<noteq> j"
  shows "apart (ls ! i) (ls ! j)"
  using assms sorted_wrt_nth_less [of apart ls] apart_sym by (cases i j rule: linorder_cases) auto


lemma mem_write_read_id: "u + n \<le> length bs \<Longrightarrow> mem_write bs u (mem_read bs u n) = bs"
  by (simp add: mem_write_def mem_read_def min_def flip: drop_drop) (metis append_take_drop_id drop_drop add.commute)

lemma mod8_diff: "a mod 8 = 0 \<Longrightarrow> b mod 8 = 0 \<Longrightarrow> c mod 8 = 0 \<Longrightarrow> (a + b - c) mod 8 = (0::nat)"
  by presburger

definition moved :: "nat \<Rightarrow> nat \<Rightarrow> nat \<Rightarrow> ItemId \<Rightarrow> ItemId" where
  "moved at old new i = (if lp_off i \<le> at then i\<lparr>lp_off := lp_off i + old - new\<rparr> else i)"

text \<open>The target, its new offset, the new upper bound, the image after the move, the new line pointer.\<close>

definition ow_off :: "PageData \<Rightarrow> nat \<Rightarrow> pbyte list \<Rightarrow> nat" where
  "ow_off p k tup = lp_off (pd_linp p ! k) + MAXALIGN (lp_len (pd_linp p ! k)) - MAXALIGN (length tup)"

definition ow_upper :: "PageData \<Rightarrow> nat \<Rightarrow> pbyte list \<Rightarrow> nat" where
  "ow_upper p k tup = pd_upper p + MAXALIGN (lp_len (pd_linp p ! k)) - MAXALIGN (length tup)"

definition ow_image :: "PageData \<Rightarrow> nat \<Rightarrow> pbyte list \<Rightarrow> pbyte list" where
  "ow_image p k tup = mem_write (pd_image p) (ow_upper p k tup)
     (mem_read (pd_image p) (pd_upper p) (lp_off (pd_linp p ! k) - pd_upper p))"

definition ow_linp :: "PageData \<Rightarrow> nat \<Rightarrow> pbyte list \<Rightarrow> ItemId" where
  "ow_linp p k tup = \<lparr>lp_off = ow_off p k tup, lp_flags = 1, lp_len = length tup\<rparr>"

abbreviation ow_moved :: "PageData \<Rightarrow> nat \<Rightarrow> pbyte list \<Rightarrow> ItemId \<Rightarrow> ItemId" where
  "ow_moved p k tup \<equiv> moved (lp_off (pd_linp p ! k)) (MAXALIGN (lp_len (pd_linp p ! k))) (MAXALIGN (length tup))"

definition ow_new :: "PageData \<Rightarrow> nat \<Rightarrow> pbyte list \<Rightarrow> PageData" where
  "ow_new p k tup = p\<lparr>pd_upper := ow_upper p k tup, pd_linp := (map (ow_moved p k tup) (pd_linp p))[k := ow_linp p k tup],
     pd_image := mem_write (ow_image p k tup) (ow_off p k tup) tup\<rparr>"

definition ow_fits :: "PageData \<Rightarrow> nat \<Rightarrow> pbyte list \<Rightarrow> bool" where
  "ow_fits p k tup = (MAXALIGN (length tup) \<le> MAXALIGN (lp_len (pd_linp p ! k)) + (pd_upper p - pd_lower p))"

lemma Overwrite_eq:
  assumes wf: "page_wf p" and k: "k < length (pd_linp p)"
    and fits': "ow_fits p k tup"
  shows "PageIndexTupleOverwrite p (Suc k) tup = Inr (True, ow_new p k tup)"
proof -
  note w = page_wfD [OF wf]
  let ?t = "pd_linp p ! k"
  have t: "linp_ok p ?t" using w(9) k by simp
  note tD = linp_okD [OF t]
  let ?old = "MAXALIGN (lp_len ?t)" and ?new = "MAXALIGN (length tup)"
  note fits = fits' [unfolded ow_fits_def]
  have u: "?new \<le> pd_upper p + ?old" using fits w(2) by simp
  have shift: "map (shift_linp (lp_off ?t) (int ?old - int ?new)) (pd_linp p) = map (moved (lp_off ?t) ?old ?new) (pd_linp p)"
  proof (rule map_cong [OF refl])
    fix i assume "i \<in> set (pd_linp p)"
    then have "pd_upper p \<le> lp_off i" "ItemIdHasStorage i" using linp_okD [OF w(9)] by blast+
    then show "shift_linp (lp_off ?t) (int ?old - int ?new) i = moved (lp_off ?t) ?old ?new i"
      using u by (simp add: shift_linp_def moved_def nat_diff_distrib' flip: of_nat_add)
  qed
  have same: "map (moved (lp_off ?t) n n) ls = ls" for n ls
    by (induction ls) (auto simp: moved_def)
  have len: "length tup < 32768"
    using fits w(2,3,4) tD(3,4) MAXALIGN_ge [of "length tup"] unfolding linp_end_def by linarith
  have nats: "nat (int (pd_upper p) + (int ?old - int ?new)) = pd_upper p + ?old - ?new"
    "nat (int (lp_off ?t) + (int ?old - int ?new)) = lp_off ?t + ?old - ?new"
    by linarith+
  have chk: "\<not> (lp_off ?t < pd_upper p \<or> pd_special p < lp_off ?t + lp_len ?t \<or> lp_off ?t \<noteq> MAXALIGN (lp_off ?t))"
    "MAXALIGN (pd_special p) = pd_special p"
    using tD w(5) by (auto simp: MAXALIGN_id)
  have mv: "mem_write (pd_image p) (pd_upper p) (mem_read (pd_image p) (pd_upper p) (lp_off ?t - pd_upper p)) = pd_image p"
    using tD w(4,7) by (intro mem_write_read_id) simp
  have rec: "?t\<lparr>lp_off := a, lp_len := b\<rparr> = \<lparr>lp_off = a, lp_flags = 1, lp_len = b\<rparr>"
    "?t\<lparr>lp_len := b\<rparr> = \<lparr>lp_off = lp_off ?t, lp_flags = 1, lp_len = b\<rparr>" for a b
    using tD(7) by (cases ?t; simp)+
  show ?thesis
    unfolding PageIndexTupleOverwrite_def PageGetItemId_def page_wf_maxoff [OF wf]
    using k w(11) chk tD(6,7) fits len mv
    by (cases "?old = ?new") (auto simp: Let_def ow_new_def ow_off_def ow_upper_def ow_image_def ow_linp_def nats shift same rec)
qed

lemma Overwrite_full:
  assumes wf: "page_wf p" and k: "k < length (pd_linp p)"
    and full: "\<not> ow_fits p k tup"
  shows "PageIndexTupleOverwrite p (Suc k) tup = Inr (False, p)"
proof -
  note w = page_wfD [OF wf]
  have "linp_ok p (pd_linp p ! k)" using w(9) k by simp
  note tD = linp_okD [OF this]
  have "\<not> (lp_off (pd_linp p ! k) < pd_upper p \<or> pd_special p < lp_off (pd_linp p ! k) + lp_len (pd_linp p ! k) \<or>
      lp_off (pd_linp p ! k) \<noteq> MAXALIGN (lp_off (pd_linp p ! k)))" "MAXALIGN (pd_special p) = pd_special p"
    using tD w(5) by (auto simp: MAXALIGN_id)
  then show ?thesis
    unfolding PageIndexTupleOverwrite_def PageGetItemId_def page_wf_maxoff [OF wf]
    using k w(11) tD(6) full by (auto simp: Let_def ow_fits_def)
qed

text \<open>Seen from the overwritten item, every other item lies below or above it.\<close>

lemma below_above:
  assumes "page_wf p" "k < length (pd_linp p)" "j < length (pd_linp p)" "j \<noteq> k"
  defines "t \<equiv> pd_linp p ! k" and "i \<equiv> pd_linp p ! j"
  shows "(linp_end i \<le> lp_off t \<and> lp_off i < lp_off t) \<or> (linp_end t \<le> lp_off i \<and> lp_off t < lp_off i)"
proof -
  note w = page_wfD [OF assms(1)]
  have "apart i t" unfolding i_def t_def using sorted_apart [OF w(10)] assms(2,3,4) by simp
  moreover have "lp_off i < linp_end i" "lp_off t < linp_end t"
    using linp_okD(1,5) [OF w(9)] assms(2,3) unfolding i_def t_def by (metis add.commute less_add_same_cancel2
      nth_mem order_less_le_trans)+
  ultimately show ?thesis by (auto simp: apart_def)
qed


lemma ow_bounds:
  assumes wf: "page_wf p" and k: "k < length (pd_linp p)" and fits: "ow_fits p k tup"
  defines "t \<equiv> pd_linp p ! k"
  shows "linp_end t = lp_off t + MAXALIGN (lp_len t)" "linp_end (ow_linp p k tup) = ow_off p k tup + MAXALIGN (length tup)"
    "MAXALIGN (length tup) \<le> pd_upper p + MAXALIGN (lp_len t)" "pd_lower p \<le> ow_upper p k tup"
    "ow_off p k tup + MAXALIGN (length tup) = linp_end t"
    "ow_upper p k tup + (lp_off t - pd_upper p) = ow_off p k tup" "linp_end t \<le> 8192"
    "ow_off p k tup mod 8 = 0" "ow_upper p k tup mod 8 = 0" "length (ow_image p k tup) = 8192"
    "length (mem_read (pd_image p) (pd_upper p) (lp_off t - pd_upper p)) = lp_off t - pd_upper p"
    "ow_off p k tup + length tup \<le> linp_end t"
proof -
  note w = page_wfD [OF wf]
  have tok: "linp_ok p t" using w(9) k by (simp add: t_def)
  note tD = linp_okD [OF tok]
  show e: "linp_end t = lp_off t + MAXALIGN (lp_len t)" "linp_end (ow_linp p k tup) = ow_off p k tup + MAXALIGN (length tup)"
    by (simp_all add: linp_end_def ow_linp_def)
  show b: "MAXALIGN (length tup) \<le> pd_upper p + MAXALIGN (lp_len t)" "pd_lower p \<le> ow_upper p k tup"
    using fits w(2) by (simp_all add: ow_fits_def ow_upper_def t_def)
  show o: "ow_off p k tup + MAXALIGN (length tup) = linp_end t"
      "ow_upper p k tup + (lp_off t - pd_upper p) = ow_off p k tup" "linp_end t \<le> 8192"
    using b tD(3,4) e w(4) by (simp_all add: ow_off_def ow_upper_def t_def)
  show "ow_off p k tup mod 8 = 0" "ow_upper p k tup mod 8 = 0"
    using mod8_diff tD(2) w(6) MAXALIGN_mod by (simp_all add: ow_off_def ow_upper_def t_def)
  show l: "length (mem_read (pd_image p) (pd_upper p) (lp_off t - pd_upper p)) = lp_off t - pd_upper p"
    using o e w(7) tD(3) by (simp add: mem_read_def)
  show "length (ow_image p k tup) = 8192"
    using o e w(7) l by (simp add: ow_image_def t_def)
  show "ow_off p k tup + length tup \<le> linp_end t" using o(1) MAXALIGN_ge [of "length tup"] by simp
qed

lemma ow_split:
  assumes wf: "page_wf p" and k: "k < length (pd_linp p)" and fits: "ow_fits p k tup"
    and j: "j < length (pd_linp p)" "j \<noteq> k"
  defines "t \<equiv> pd_linp p ! k" and "i \<equiv> pd_linp p ! j" and "old \<equiv> MAXALIGN (lp_len (pd_linp p ! k))"
    and "new \<equiv> MAXALIGN (length tup)"
  shows "(linp_end i \<le> lp_off t \<and> ow_moved p k tup i = i\<lparr>lp_off := lp_off i + old - new\<rparr> \<and>
        linp_end (ow_moved p k tup i) = linp_end i + old - new) \<or>
      (linp_end t \<le> lp_off i \<and> ow_moved p k tup i = i)"
proof -
  have "linp_ok p i" using page_wfD(9) [OF wf] j by (simp add: i_def)
  then have "new \<le> lp_off i + old"
    using linp_okD(3) ow_bounds(3) [OF wf k fits] by (fastforce simp: old_def new_def)
  then show ?thesis
    using below_above [OF wf k j]
    by (auto simp: moved_def linp_end_def i_def t_def old_def new_def)
qed

lemma ow_nth:
  assumes "k < length (pd_linp p)" "j < length (pd_linp p)"
  shows "pd_linp (ow_new p k tup) ! j = (if j = k then ow_linp p k tup else ow_moved p k tup (pd_linp p ! j))"
  using assms by (simp add: ow_new_def nth_list_update)

lemma ow_linp_ok:
  assumes wf: "page_wf p" and k: "k < length (pd_linp p)" and fits: "ow_fits p k tup" and ne: "tup \<noteq> []"
    and j: "j < length (pd_linp p)"
  shows "linp_ok (ow_new p k tup) (pd_linp (ow_new p k tup) ! j)"
proof (cases "j = k")
  case True
  have "linp_end (pd_linp p ! k) \<le> pd_special p" using linp_okD(4) page_wfD(9) [OF wf] k by simp
  then show ?thesis
    using True ow_nth [OF k j] ne ow_bounds [OF wf k fits]
    by (simp add: linp_ok_def) (simp add: ow_new_def ow_linp_def)
next
  case False
  have i: "linp_ok p (pd_linp p ! j)" using page_wfD(9) [OF wf] j by simp
  note iD = linp_okD [OF i]
  show ?thesis
    using ow_split [OF wf k fits j False]
  proof
    assume h: "linp_end (pd_linp p ! k) \<le> lp_off (pd_linp p ! j) \<and> ow_moved p k tup (pd_linp p ! j) = pd_linp p ! j"
    then show ?thesis
      using ow_nth [OF k j] False i ow_bounds [OF wf k fits] by (simp add: linp_ok_def) (simp add: ow_new_def)
  next
    assume h: "linp_end (pd_linp p ! j) \<le> lp_off (pd_linp p ! k) \<and>
      ow_moved p k tup (pd_linp p ! j) = (pd_linp p ! j)
        \<lparr>lp_off := lp_off (pd_linp p ! j) + MAXALIGN (lp_len (pd_linp p ! k)) - MAXALIGN (length tup)\<rparr> \<and>
      linp_end (ow_moved p k tup (pd_linp p ! j)) =
        linp_end (pd_linp p ! j) + MAXALIGN (lp_len (pd_linp p ! k)) - MAXALIGN (length tup)"
    have t: "linp_end (pd_linp p ! k) \<le> pd_special p" using linp_okD(4) page_wfD(9) [OF wf] k by simp
    let ?i = "ow_moved p k tup (pd_linp p ! j)"
    have "ow_upper p k tup \<le> lp_off ?i" "linp_end ?i \<le> pd_special p" "lp_off ?i mod 8 = 0"
      using h iD(3) ow_bounds(1,3) [OF wf k fits] t mod8_diff [OF iD(2) MAXALIGN_mod MAXALIGN_mod]
      by (auto simp: ow_upper_def)
    then show ?thesis
      using h ow_nth [OF k j] False iD(1,7) by (simp add: linp_ok_def) (simp add: ow_new_def)
  qed
qed

lemma ow_apart:
  assumes wf: "page_wf p" and k: "k < length (pd_linp p)" and fits: "ow_fits p k tup"
    and ij: "i < length (pd_linp p)" "j < length (pd_linp p)" "i \<noteq> j"
  shows "apart (pd_linp (ow_new p k tup) ! i) (pd_linp (ow_new p k tup) ! j)"
proof -
  note b = ow_bounds [OF wf k fits]
  have t: "apart (ow_moved p k tup (pd_linp p ! j)) (ow_linp p k tup)" if "j < length (pd_linp p)" "j \<noteq> k" for j
    using ow_split [OF wf k fits that] b(1,2,3,5) by (auto simp: apart_def ow_linp_def ow_off_def)
  have a: "apart (pd_linp p ! i) (pd_linp p ! j)" using sorted_apart [OF page_wfD(10) [OF wf] ij] .
  consider "i = k" | "j = k" | "i \<noteq> k" "j \<noteq> k" by blast
  then show ?thesis
  proof cases
    case 3
    then show ?thesis
      using ow_nth [OF k ij(1)] ow_nth [OF k ij(2)] ow_split [OF wf k fits ij(1)] ow_split [OF wf k fits ij(2)] a b(1)
      by (auto simp: apart_def)
  qed (use ow_nth [OF k ij(1)] ow_nth [OF k ij(2)] t [OF ij(1)] t [OF ij(2)] apart_sym ij(3) in auto)
qed

lemma ow_new_wf:
  assumes wf: "page_wf p" and k: "k < length (pd_linp p)" and ne: "tup \<noteq> []" and fits: "ow_fits p k tup"
  shows "page_wf (ow_new p k tup)"
proof -
  let ?q = "ow_new p k tup"
  note w = page_wfD [OF wf] and b = ow_bounds [OF wf k fits]
  have lq: "length (pd_linp ?q) = length (pd_linp p)" by (simp add: ow_new_def)
  have all: "\<forall>i\<in>set (pd_linp ?q). linp_ok ?q i" using ow_linp_ok [OF wf k fits ne] lq by (metis in_set_conv_nth)
  have srt: "sorted_wrt apart (pd_linp ?q)" using ow_apart [OF wf k fits] lq by (simp add: sorted_wrt_iff_nth_less)
  have "linp_end (pd_linp p ! k) \<le> pd_special p" using linp_okD(4) [OF w(9)] k by simp
  then have u: "ow_upper p k tup \<le> pd_special p" using b(5,6) by simp
  have hd: "pd_lower ?q = pd_lower p" "pd_upper ?q = ow_upper p k tup" "pd_special ?q = pd_special p"
    "length (pd_image ?q) = 8192" "pd_has_free_lines ?q = pd_has_free_lines p"
    using b(7,10,12) by (simp_all add: ow_new_def)
  show ?thesis
    unfolding page_wf_def page_corrupt_def using hd lq all srt w(1,4,5,8) b(4,9) u by (simp add: hnsw_const)
qed

lemma ow_item:
  assumes wf: "page_wf p" and k: "k < length (pd_linp p)" and fits: "ow_fits p k tup" and j: "j < length (pd_linp p)"
  shows "linp_item (ow_new p k tup) (pd_linp (ow_new p k tup) ! j) =
    (if j = k then tup else linp_item p (pd_linp p ! j))"
proof (cases "j = k")
  case True
  then show ?thesis
    using ow_nth [OF k j] ow_bounds [OF wf k fits]
    by (simp add: linp_item_def) (simp add: ow_new_def ow_linp_def mem_read_write_inside)
next
  case False
  let ?i = "pd_linp p ! j" and ?t = "pd_linp p ! k" and ?img = "ow_image p k tup" and ?o = "ow_off p k tup"
  note b = ow_bounds [OF wf k fits] and w = page_wfD [OF wf]
  have "linp_ok p ?i" using w(9) j by simp
  note iD = linp_okD [OF this]
  have q: "linp_item (ow_new p k tup) i = mem_read (mem_write ?img ?o tup) (lp_off i) (lp_len i)" for i
    by (simp add: linp_item_def ow_new_def)
  from ow_split [OF wf k fits j False] show ?thesis
  proof
    let ?n = "lp_off ?i + MAXALIGN (lp_len ?t) - MAXALIGN (length tup)"
    assume h: "linp_end ?i \<le> lp_off ?t \<and> ow_moved p k tup ?i = ?i\<lparr>lp_off := ?n\<rparr> \<and>
      linp_end (ow_moved p k tup ?i) = linp_end ?i + MAXALIGN (lp_len ?t) - MAXALIGN (length tup)"
    have o: "ow_upper p k tup \<le> ?n" "?n + lp_len ?i \<le> ?o" "?n - ow_upper p k tup = lp_off ?i - pd_upper p"
        "lp_off ?i + lp_len ?i \<le> lp_off ?t"
      using conjunct1 [OF h] iD(3,5) b(3) unfolding ow_upper_def ow_off_def by linarith+
    have "mem_read (mem_write ?img ?o tup) ?n (lp_len ?i) = mem_read ?img ?n (lp_len ?i)"
      using o b by (intro mem_read_write_apart) simp_all
    also have "\<dots> = mem_read (mem_read (pd_image p) (pd_upper p) (lp_off ?t - pd_upper p)) (?n - ow_upper p k tup) (lp_len ?i)"
      unfolding ow_image_def using o b w(7) by (intro mem_read_write_inside) simp_all
    also have "\<dots> = mem_read (pd_image p) (lp_off ?i) (lp_len ?i)"
      using o iD(3) by (subst mem_read_read) simp_all
    finally show ?thesis using h False ow_nth [OF k j] q by (simp add: linp_item_def [of p])
  next
    assume h: "linp_end ?t \<le> lp_off ?i \<and> ow_moved p k tup ?i = ?i"
    have "mem_read (mem_write ?img ?o tup) (lp_off ?i) (lp_len ?i) = mem_read ?img (lp_off ?i) (lp_len ?i)"
      using h iD(4,5) b w(4) by (intro mem_read_write_apart) simp_all
    also have "\<dots> = mem_read (pd_image p) (lp_off ?i) (lp_len ?i)"
      unfolding ow_image_def using h iD(4,5) b w(4,7) by (intro mem_read_write_apart) simp_all
    finally show ?thesis using h False ow_nth [OF k j] q by (simp add: linp_item_def [of p])
  qed
qed

lemma ow_new_items:
  assumes "page_wf p" "k < length (pd_linp p)" "ow_fits p k tup"
  shows "page_items (ow_new p k tup) = (page_items p)[k := tup]"
  using ow_item [OF assms]
  by (intro nth_equalityI) (simp_all add: page_items_def nth_list_update, simp_all add: ow_new_def)


section \<open>Refinement\<close>

text \<open>An encoding of items as bytes, and the relation between the two kinds of page it induces.\<close>

locale item_codec =
  fixes enc :: "'a \<Rightarrow> pbyte list" and isize :: "'a \<Rightarrow> nat"
  assumes enc_size: "length (enc x) = isize x" and enc_nonempty: "enc x \<noteq> []"
begin

definition page_rel :: "PageData \<Rightarrow> ('a, 'b) ipage_scheme \<Rightarrow> bool" where
  "page_rel p q = (page_wf p \<and> pd_lower p = ip_lower q \<and> pd_upper p = ip_upper q \<and> page_items p = map enc (ip_items q))"

lemma page_rel_length: "page_rel p q \<Longrightarrow> length (pd_linp p) = length (ip_items q)"
  by (metis page_rel_def page_items_def length_map)

lemma page_rel_free:
  assumes "page_rel p q"
  shows "PageGetFreeSpace p = ip_free_space q" "PageGetExactFreeSpace p = ip_exact_free_space q"
    "PageGetMaxOffsetNumber p = length (ip_items q)"
  using assms page_rel_length [OF assms] page_wf_maxoff
  by (auto simp: page_rel_def PageGetFreeSpace_def PageGetExactFreeSpace_def ip_free_space_def ip_exact_free_space_def
      Let_def hnsw_const)

lemma page_rel_get:
  assumes "page_rel p q"
  shows "PageGetItem p off = rbind (ip_get q off) (\<lambda>x. Inr (enc x))"
proof (cases "off = 0 \<or> length (ip_items q) < off")
  case True
  then show ?thesis
    using page_rel_length [OF assms] by (auto simp: PageGetItem_def PageGetItemId_def ip_get_def nth_r_def)
next
  case False
  let ?i = "pd_linp p ! (off - 1)"
  have k: "off - 1 < length (pd_linp p)" using False page_rel_length [OF assms] by linarith
  have "linp_ok p ?i" using assms k page_wfD(9) by (auto simp: page_rel_def)
  then have st: "ItemIdHasStorage ?i" by (rule linp_okD)
  have "page_items p ! (off - 1) = enc (ip_items q ! (off - 1))"
    using assms k page_rel_length [OF assms] by (simp add: page_rel_def)
  then show ?thesis
    using st k False page_rel_length [OF assms]
    by (simp add: PageGetItem_def PageGetItemId_def ip_get_def nth_r_def page_items_def linp_item_def)
qed

lemma page_rel_add:
  assumes "page_rel p q"
  shows "\<exists>p'. PageAddItemExtended p (enc x) InvalidOffsetNumber False False = Inr (fst (ip_add isize q x), p') \<and>
    page_rel p' (snd (ip_add isize q x)) \<and> pd_special p' = pd_special p"
proof (cases "ip_lower q + 4 + MAXALIGN (isize x) \<le> ip_upper q")
  case True
  have wf: "page_wf p" and fits: "pd_lower p + 4 + MAXALIGN (length (enc x)) \<le> pd_upper p"
    using assms True by (simp_all add: page_rel_def enc_size)
  show ?thesis
    using PageAddItem_eq [OF wf fits] add_new_wf [OF wf fits enc_nonempty] True assms page_rel_length [OF assms]
    by (simp add: ip_add_def page_rel_def add_new_def enc_size hnsw_const)
next
  case False
  then show ?thesis
    using assms PageAddItem_full [of p "enc x"] by (simp add: page_rel_def ip_add_def enc_size hnsw_const)
qed

lemma page_rel_len:
  assumes "page_rel p q" "k < length (pd_linp p)"
  shows "lp_len (pd_linp p ! k) = isize (ip_items q ! k)"
proof -
  have "linp_ok p (pd_linp p ! k)" using assms page_wfD(9) by (auto simp: page_rel_def)
  note d = linp_okD [OF this]
  have "length (linp_item p (pd_linp p ! k)) = lp_len (pd_linp p ! k)"
    using d assms(1) page_wfD(4,7) [of p] by (auto simp: page_rel_def linp_item_def mem_read_def)
  moreover have "page_items p ! k = enc (ip_items q ! k)"
    using assms page_rel_length [OF assms(1)] by (simp add: page_rel_def)
  ultimately show ?thesis using assms(2) by (simp add: page_items_def enc_size)
qed

lemma page_rel_overwrite:
  assumes rel: "page_rel p q"
  shows "case ip_overwrite isize q off x of
      Inl e \<Rightarrow> PageIndexTupleOverwrite p off (enc x) = Inl e
    | Inr (ok, q') \<Rightarrow> \<exists>p'. PageIndexTupleOverwrite p off (enc x) = Inr (ok, p') \<and> page_rel p' q' \<and> pd_special p' = pd_special p"
proof (cases "off = 0 \<or> length (ip_items q) < off")
  case True
  have wf: "page_wf p" using rel by (simp add: page_rel_def)
  show ?thesis
    using True page_rel_free(3) [OF rel] page_wfD(5,11) [OF wf]
    by (auto simp: PageIndexTupleOverwrite_def ip_overwrite_def MAXALIGN_id)
next
  case False
  then obtain k where k: "off = Suc k" "k < length (pd_linp p)" using page_rel_length [OF rel] by (cases off) auto
  have wf: "page_wf p" using rel by (simp add: page_rel_def)
  have f: "ow_fits p k (enc x) \<longleftrightarrow>
      MAXALIGN (isize x) \<le> MAXALIGN (isize (ip_items q ! k)) + (ip_upper q - ip_lower q)"
    using rel page_rel_len [OF rel k(2)] by (simp add: ow_fits_def enc_size page_rel_def)
  show ?thesis
  proof (cases "ow_fits p k (enc x)")
    case True
    have "page_rel (ow_new p k (enc x))
        (q\<lparr>ip_upper := ip_upper q + MAXALIGN (isize (ip_items q ! k)) - MAXALIGN (isize x), ip_items := (ip_items q)[k := x]\<rparr>)"
      using ow_new_wf [OF wf k(2) enc_nonempty True] ow_new_items [OF wf k(2) True] rel page_rel_len [OF rel k(2)]
      by (simp add: page_rel_def map_update) (simp add: ow_new_def ow_upper_def enc_size)
    moreover have "pd_special (ow_new p k (enc x)) = pd_special p" by (simp add: ow_new_def)
    ultimately show ?thesis
      using Overwrite_eq [OF wf k(2) True] f True k False by (simp add: ip_overwrite_def Let_def)
  next
    case no: False
    then show ?thesis
      using Overwrite_full [OF wf k(2) no] f k False rel by (simp add: ip_overwrite_def Let_def)
  qed
qed

end


section \<open>Properties\<close>

text \<open>A freshly initialised page with the eight bytes of special space of an index page.\<close>

definition empty_page :: PageData where
  "empty_page = \<lparr>pd_has_free_lines = False, pd_lower = 24, pd_upper = 8184, pd_special = 8184, pd_linp = [],
     pd_image = replicate 8192 0\<rparr>"

lemma empty_page_init: "PageInit BLCKSZ 8 = Inr empty_page"
  by (simp add: PageInit_def empty_page_def MAXALIGN_def hnsw_const)

lemma empty_page_wf: "page_wf empty_page" "page_items empty_page = []"
  using PageInit_wf [of 8] by (simp_all add: empty_page_init MAXALIGN_def)

text \<open>C30: \<open>PageAddItem\<close> on a well-formed index page either appends the item, leaving the bytes of every
  other item intact and the page well-formed, or reports that it does not fit and changes nothing; it appends exactly when
  the aligned item and a line pointer fit the free space.\<close>

theorem PageAddItem_spec:
  assumes "page_wf p" and "item \<noteq> []"
  shows "\<exists>off p'. PageAddItemExtended p item InvalidOffsetNumber False False = Inr (off, p') \<and> page_wf p' \<and>
    (if MAXALIGN (length item) \<le> PageGetFreeSpace p \<and> 4 \<le> PageGetExactFreeSpace p
     then off = Suc (PageGetMaxOffsetNumber p) \<and> page_items p' = page_items p @ [item]
     else off = InvalidOffsetNumber \<and> p' = p)"
proof -
  have f: "MAXALIGN (length item) \<le> PageGetFreeSpace p \<and> 4 \<le> PageGetExactFreeSpace p \<longleftrightarrow>
      pd_lower p + 4 + MAXALIGN (length item) \<le> pd_upper p"
    using page_wfD(2) [OF assms(1)] by (auto simp: PageGetFreeSpace_def PageGetExactFreeSpace_def hnsw_const Let_def)
  show ?thesis
  proof (cases "pd_lower p + 4 + MAXALIGN (length item) \<le> pd_upper p")
    case True
    then show ?thesis
      unfolding f
      using PageAddItem_eq [OF assms(1) True] add_new_wf [OF assms(1) True assms(2)] page_wf_maxoff [OF assms(1)] by simp
  next
    case False
    then show ?thesis unfolding f using PageAddItem_full [OF assms(1), of item] assms(1) by simp
  qed
qed

theorem PageAddItem_spec_witness:
  "\<exists>off p'. PageAddItemExtended empty_page [1, 2, 3] InvalidOffsetNumber False False = Inr (off, p') \<and> page_wf p' \<and>
     off = 1 \<and> page_items p' = [[1, 2, 3]]"
proof -
  have "PageGetFreeSpace empty_page = 8156" "PageGetExactFreeSpace empty_page = 8160" "PageGetMaxOffsetNumber empty_page = 0"
    by (simp_all add: PageGetFreeSpace_def PageGetExactFreeSpace_def PageGetMaxOffsetNumber_def empty_page_def hnsw_const)
  then show ?thesis
    using PageAddItem_spec [of empty_page "[1, 2, 3]"] empty_page_wf by (simp add: MAXALIGN_def)
qed

text \<open>C29: \<open>PageIndexTupleOverwrite\<close> replaces exactly the item at the given offset when the new one fits the
  old one's space plus the free space, moving the other items' bytes as needed without changing any of them, and otherwise
  returns false and changes nothing.\<close>

theorem PageIndexTupleOverwrite_spec:
  assumes "page_wf p" and "newtup \<noteq> []" and "1 \<le> off" and "off \<le> PageGetMaxOffsetNumber p"
  shows "\<exists>ok p'. PageIndexTupleOverwrite p off newtup = Inr (ok, p') \<and> page_wf p' \<and>
    (if MAXALIGN (length newtup) \<le> MAXALIGN (lp_len (pd_linp p ! (off - 1))) + PageGetExactFreeSpace p
     then ok \<and> page_items p' = (page_items p)[off - 1 := newtup]
     else \<not> ok \<and> p' = p)"
proof -
  obtain k where k: "off = Suc k" "k < length (pd_linp p)"
    using assms(3,4) page_wf_maxoff [OF assms(1)] by (cases off) auto
  have f: "ow_fits p k newtup \<longleftrightarrow>
      MAXALIGN (length newtup) \<le> MAXALIGN (lp_len (pd_linp p ! (off - 1))) + PageGetExactFreeSpace p"
    using k(1) page_wfD(2) [OF assms(1)] by (simp add: ow_fits_def PageGetExactFreeSpace_def Let_def flip: of_nat_diff)
  show ?thesis
  proof (cases "ow_fits p k newtup")
    case True
    note Overwrite_eq [OF assms(1) k(2) True] ow_new_wf [OF assms(1) k(2) assms(2) True] ow_new_items [OF assms(1) k(2) True]
    then show ?thesis unfolding f [symmetric] using True k(1) by (intro exI [of _ True] exI [of _ "ow_new p k newtup"]) simp
  next
    case False
    then show ?thesis
      unfolding f [symmetric] using Overwrite_full [OF assms(1) k(2) False] k(1) assms(1)
      by (intro exI [of _ False] exI [of _ p]) simp
  qed
qed

theorem PageIndexTupleOverwrite_spec_witness:
  "\<exists>ok p'. PageIndexTupleOverwrite (add_new empty_page [1, 2, 3]) 1 (replicate 100 7) = Inr (ok, p') \<and> ok \<and>
     page_items p' = [replicate 100 7]"
proof -
  have fits: "pd_lower empty_page + 4 + MAXALIGN (length [1, 2, 3 :: pbyte]) \<le> pd_upper empty_page"
    by (simp add: empty_page_def MAXALIGN_def)
  note n = add_new_wf [OF empty_page_wf(1) fits]
  show ?thesis
    using PageIndexTupleOverwrite_spec [of "add_new empty_page [1, 2, 3]" "replicate 100 7" 1] n empty_page_wf(2)
      page_wf_maxoff [OF n(1)]
    by (auto simp: PageGetExactFreeSpace_def MAXALIGN_def) (auto simp: add_new_def empty_page_def MAXALIGN_def)
qed

end
