(* ===== verification/HnswTypes.thy ===== *)
theory HnswTypes
  imports VectorType PairingHeap Bufpage
begin

text \<open>
  The data of the index access method, from \<open>src/include/access/hnsw.h\<close>: constants and size macros,
  the in-memory graph (elements, candidates, neighbour arrays), the on-disk tuples, pages and metapage.

  Elements live in a list store and an element pointer is an index of it, whether the C code holds it
  as an absolute pointer or as an offset from the base of the shared build area.  The index relation is
  its list of blocks: the metapage and pages of tuples.  The tuples have a byte encoding, for which the
  pages of typed tuples are refined by the byte pages of \<open>Bufpage\<close>.
\<close>

section \<open>Constants\<close>

definition InvalidBlockNumber :: nat where [hnsw_const]: "InvalidBlockNumber = 0xFFFFFFFF"
definition HNSW_MAX_DIM :: int where [hnsw_const]: "HNSW_MAX_DIM = 2000"
definition HNSW_VERSION :: nat where [hnsw_const]: "HNSW_VERSION = 1"
definition HNSW_MAGIC_NUMBER :: nat where [hnsw_const]: "HNSW_MAGIC_NUMBER = 0xA953A953"
definition HNSW_PAGE_ID :: nat where [hnsw_const]: "HNSW_PAGE_ID = 0xFF90"
definition HNSW_METAPAGE_BLKNO :: nat where [hnsw_const]: "HNSW_METAPAGE_BLKNO = 0"
definition HNSW_HEAD_BLKNO :: nat where [hnsw_const]: "HNSW_HEAD_BLKNO = 1"
definition HNSW_DEFAULT_M :: nat where [hnsw_const]: "HNSW_DEFAULT_M = 16"
definition HNSW_MIN_M :: nat where [hnsw_const]: "HNSW_MIN_M = 2"
definition HNSW_MAX_M :: nat where [hnsw_const]: "HNSW_MAX_M = 100"
definition HNSW_DEFAULT_EF_CONSTRUCTION :: nat where [hnsw_const]: "HNSW_DEFAULT_EF_CONSTRUCTION = 64"
definition HNSW_MIN_EF_CONSTRUCTION :: nat where [hnsw_const]: "HNSW_MIN_EF_CONSTRUCTION = 4"
definition HNSW_MAX_EF_CONSTRUCTION :: nat where [hnsw_const]: "HNSW_MAX_EF_CONSTRUCTION = 1000"
definition HNSW_HEAPTIDS :: nat where [hnsw_const]: "HNSW_HEAPTIDS = 10"
definition sizeof_HnswPageOpaqueData :: nat where [hnsw_const]: "sizeof_HnswPageOpaqueData = 8"
definition sizeof_ItemPointerData :: nat where [hnsw_const]: "sizeof_ItemPointerData = 6"
definition sizeof_HnswCandidate :: nat where [hnsw_const]: "sizeof_HnswCandidate = 16"
definition sizeof_HnswElementData :: nat where [hnsw_const]: "sizeof_HnswElementData = 128"
definition offsetof_ElementTuple_data :: nat where [hnsw_const]: "offsetof_ElementTuple_data = 72"
definition offsetof_NeighborTuple_indextids :: nat where [hnsw_const]: "offsetof_NeighborTuple_indextids = 4"
definition offsetof_NeighborArray_items :: nat where [hnsw_const]: "offsetof_NeighborArray_items = 8"

definition HNSW_MAX_SIZE :: nat where [hnsw_const]:
  "HNSW_MAX_SIZE = BLCKSZ - MAXALIGN SizeOfPageHeaderData - MAXALIGN sizeof_HnswPageOpaqueData - sizeof_ItemIdData"

definition HNSW_ELEMENT_TUPLE_SIZE :: "nat \<Rightarrow> nat" where
  "HNSW_ELEMENT_TUPLE_SIZE sz = MAXALIGN (offsetof_ElementTuple_data + sz)"

definition HNSW_NEIGHBOR_TUPLE_SIZE :: "nat \<Rightarrow> nat \<Rightarrow> nat" where
  "HNSW_NEIGHBOR_TUPLE_SIZE level m =
     MAXALIGN (offsetof_NeighborTuple_indextids + (level + 2) * m * sizeof_ItemPointerData)"

definition HNSW_NEIGHBOR_ARRAY_SIZE :: "nat \<Rightarrow> nat" where
  "HNSW_NEIGHBOR_ARRAY_SIZE lm = offsetof_NeighborArray_items + sizeof_HnswCandidate * lm"

definition HnswGetLayerM :: "nat \<Rightarrow> nat \<Rightarrow> nat" where
  "HnswGetLayerM m layer = (if layer = 0 then m * 2 else m)"

text \<open>The subtraction is on \<open>size_t\<close>.\<close>

definition HnswGetMaxLevel :: "nat \<Rightarrow> nat" where
  "HnswGetMaxLevel m =
     (let tids = (BLCKSZ - MAXALIGN SizeOfPageHeaderData - MAXALIGN sizeof_HnswPageOpaqueData
                   - offsetof_NeighborTuple_indextids - sizeof_ItemIdData) div sizeof_ItemPointerData
      in min (nat ((int (tids div m) - 2) mod 2 ^ 64)) 255)"

section \<open>Item pointers\<close>

record ItemPointerData =
  ip_blkid :: nat
  ip_posid :: nat

definition ItemPointerIsValid :: "ItemPointerData \<Rightarrow> bool" where
  "ItemPointerIsValid tid = (ip_posid tid \<noteq> InvalidOffsetNumber)"

definition InvalidItemPointer :: ItemPointerData where
  "InvalidItemPointer = \<lparr>ip_blkid = InvalidBlockNumber, ip_posid = InvalidOffsetNumber\<rparr>"

definition ItemPointerSet :: "nat \<Rightarrow> nat \<Rightarrow> ItemPointerData" where
  "ItemPointerSet blk off = \<lparr>ip_blkid = blk, ip_posid = off\<rparr>"

lemma InvalidItemPointer_invalid [simp]: "\<not> ItemPointerIsValid InvalidItemPointer"
  by (simp add: ItemPointerIsValid_def InvalidItemPointer_def)

lemma ItemPointerSet_sel [simp]:
  "ip_blkid (ItemPointerSet b off) = b" "ip_posid (ItemPointerSet b off) = off"
  by (simp_all add: ItemPointerSet_def)

lemma ItemPointerSet_valid [simp]: "ItemPointerIsValid (ItemPointerSet b off) \<longleftrightarrow> off \<noteq> 0"
  by (simp add: ItemPointerIsValid_def InvalidOffsetNumber_def)

section \<open>The in-memory graph\<close>

type_synonym eptr = nat

record HnswCandidate =
  hc_element :: eptr
  hc_distance :: float4
  hc_closer :: bool

text \<open>\<open>length\<close> is the length of the list; \<open>na_cap\<close> is the number of items allocated.\<close>

record HnswNeighborArray =
  na_closerSet :: bool
  na_items :: "HnswCandidate list"
  na_cap :: nat

record HnswElementData =
  he_next :: "eptr option"
  he_heaptids :: "ItemPointerData list"
  he_level :: nat
  he_deleted :: nat
  he_version :: nat
  he_neighbors :: "HnswNeighborArray list option"
  he_blkno :: nat
  he_offno :: nat
  he_neighborOffno :: nat
  he_neighborPage :: nat
  he_value :: "Vector option"

type_synonym elems = "HnswElementData list"

record HnswSearchCandidate =
  sc_element :: eptr
  sc_distance :: float8

record HnswOptions =
  opt_m :: nat
  opt_efConstruction :: nat

record HnswTypeInfo =
  ti_maxDimensions :: int
  ti_normalize :: "(Vector \<Rightarrow> Vector result) option"
  ti_checkValue :: "(Vector \<Rightarrow> unit result) option"

record HnswSupport =
  sup_procinfo :: "Vector \<Rightarrow> Vector \<Rightarrow> float8 result"
  sup_normprocinfo :: "(Vector \<Rightarrow> float8 result) option"

record HnswGraph =
  g_head :: "eptr option"
  g_indtuples :: nat
  g_entryPoint :: "eptr option"
  g_memoryUsed :: nat
  g_memoryTotal :: nat
  g_flushed :: bool

section \<open>The index on disk\<close>

record HnswMetaPageData =
  mp_magicNumber :: nat
  mp_version :: nat
  mp_dimensions :: nat
  mp_m :: nat
  mp_efConstruction :: nat
  mp_entryBlkno :: nat
  mp_entryOffno :: nat
  mp_entryLevel :: int
  mp_insertPage :: nat

text \<open>\<open>et_datalen\<close> is the number of bytes the item has for \<open>data\<close>, which its line pointer records; it stays when the data is
  zeroed.\<close>

record HnswElementTupleData =
  et_level :: nat
  et_deleted :: nat
  et_version :: nat
  et_heaptids :: "ItemPointerData list"
  et_neighbortid :: ItemPointerData
  et_unused :: nat
  et_data :: Vector
  et_datalen :: nat

record HnswNeighborTupleData =
  nt_version :: nat
  nt_count :: nat
  nt_indextids :: "ItemPointerData list"

text \<open>The constructor is the tuple's \<open>type\<close> byte.\<close>

datatype HnswTuple = ElementTup HnswElementTupleData | NeighborTup HnswNeighborTupleData

record hpage = "HnswTuple ipage" +
  hp_nextblkno :: nat
  hp_page_id :: nat

datatype block = MetaBlock HnswMetaPageData nat | GraphBlock hpage

record Relation =
  rel_options :: "HnswOptions option"
  rel_blocks :: "block list"

text \<open>Space a tuple takes on a page.\<close>

definition tuple_size :: "HnswTuple \<Rightarrow> nat" where
  "tuple_size t =
     (case t of
        ElementTup e \<Rightarrow> HNSW_ELEMENT_TUPLE_SIZE (et_datalen e)
      | NeighborTup n \<Rightarrow> MAXALIGN (offsetof_NeighborTuple_indextids + length (nt_indextids n) * sizeof_ItemPointerData))"

subsection \<open>Reading and writing blocks\<close>

definition read_page :: "Relation \<Rightarrow> nat \<Rightarrow> hpage result" where
  "read_page index blkno =
     (if blkno < length (rel_blocks index) then
        (case rel_blocks index ! blkno of GraphBlock p \<Rightarrow> Inr p | MetaBlock _ _ \<Rightarrow> Inl UndefinedBehaviour)
      else Inl (ErrBadBlock blkno))"

definition write_page :: "Relation \<Rightarrow> nat \<Rightarrow> hpage \<Rightarrow> Relation" where
  "write_page index blkno p = index\<lparr>rel_blocks := (rel_blocks index)[blkno := GraphBlock p]\<rparr>"

definition read_meta :: "Relation \<Rightarrow> HnswMetaPageData result" where
  "read_meta index =
     (if HNSW_METAPAGE_BLKNO < length (rel_blocks index) then
        (case rel_blocks index ! HNSW_METAPAGE_BLKNO of MetaBlock m _ \<Rightarrow> Inr m | GraphBlock _ \<Rightarrow> Inl UndefinedBehaviour)
      else Inl (ErrBadBlock HNSW_METAPAGE_BLKNO))"

definition write_meta :: "Relation \<Rightarrow> HnswMetaPageData \<Rightarrow> Relation" where
  "write_meta index m =
     index\<lparr>rel_blocks := (case rel_blocks index of
        MetaBlock _ pid # bs \<Rightarrow> MetaBlock m pid # bs | bs \<Rightarrow> bs)\<rparr>"

definition page_tuple :: "hpage \<Rightarrow> nat \<Rightarrow> HnswTuple result" where
  "page_tuple p offno = ip_get p offno"

definition element_tuple :: "hpage \<Rightarrow> nat \<Rightarrow> HnswElementTupleData result" where
  "element_tuple p offno =
     rbind (page_tuple p offno) (\<lambda>t. case t of ElementTup e \<Rightarrow> Inr e | NeighborTup _ \<Rightarrow> Inl AssertionFailed)"

definition neighbor_tuple :: "hpage \<Rightarrow> nat \<Rightarrow> HnswNeighborTupleData result" where
  "neighbor_tuple p offno =
     rbind (page_tuple p offno) (\<lambda>t. case t of NeighborTup n \<Rightarrow> Inr n | ElementTup _ \<Rightarrow> Inl UndefinedBehaviour)"

text \<open>\<open>HnswNewBuffer\<close> extends the relation by a block; \<open>HnswInitPage\<close> formats it.\<close>

definition HnswInitPage :: hpage where
  "HnswInitPage = \<lparr>ip_lower = SizeOfPageHeaderData, ip_upper = BLCKSZ - MAXALIGN sizeof_HnswPageOpaqueData, ip_items = [],
     hp_nextblkno = InvalidBlockNumber, hp_page_id = HNSW_PAGE_ID\<rparr>"

definition HnswNewBuffer :: "Relation \<Rightarrow> block \<Rightarrow> nat \<times> Relation" where
  "HnswNewBuffer index b = (length (rel_blocks index), index\<lparr>rel_blocks := rel_blocks index @ [b]\<rparr>)"

section \<open>Byte encoding of tuples\<close>

definition le16 :: "nat \<Rightarrow> pbyte list" where
  "le16 n = [of_nat n, of_nat (n div 256)]"

definition le32 :: "nat \<Rightarrow> pbyte list" where
  "le32 n = le16 n @ le16 (n div 65536)"

definition enc_tid :: "ItemPointerData \<Rightarrow> pbyte list" where
  "enc_tid t = le16 (ip_blkid t div 65536) @ le16 (ip_blkid t) @ le16 (ip_posid t)"

definition enc_vector :: "Vector \<Rightarrow> pbyte list" where
  "enc_vector v = le32 (nat (4 * vl_len v)) @ le16 (nat (v_dim v mod 65536)) @ le16 (nat (v_unused v mod 65536)) @
     concat (map (\<lambda>f. le32 (unat f)) (v_x v))"

fun enc_raw :: "HnswTuple \<Rightarrow> pbyte list" where
  "enc_raw (ElementTup e) = [1, of_nat (et_level e), of_nat (et_deleted e), of_nat (et_version e)] @
     concat (map enc_tid (et_heaptids e)) @ enc_tid (et_neighbortid e) @ le16 (et_unused e) @ enc_vector (et_data e)"
| "enc_raw (NeighborTup n) = [2, of_nat (nt_version n)] @ le16 (nt_count n) @ concat (map enc_tid (nt_indextids n))"

definition enc_tuple :: "HnswTuple \<Rightarrow> pbyte list" where
  "enc_tuple t = take (tuple_size t) (enc_raw t @ replicate (tuple_size t) 0)"

lemma tuple_size_pos: "8 \<le> tuple_size t"
  by (cases t) (simp_all add: tuple_size_def HNSW_ELEMENT_TUPLE_SIZE_def MAXALIGN_def hnsw_const)

lemma tuple_size_align [simp]: "MAXALIGN (tuple_size t) = tuple_size t"
  by (cases t) (simp_all add: tuple_size_def HNSW_ELEMENT_TUPLE_SIZE_def MAXALIGN_id)

interpretation tuple_pages: item_codec enc_tuple tuple_size
proof unfold_locales
  fix x
  show "length (enc_tuple x) = tuple_size x" by (simp add: enc_tuple_def)
  then show "enc_tuple x \<noteq> []" using tuple_size_pos [of x] by auto
qed

lemma enc_tid_length [simp]: "length (enc_tid t) = 6"
  by (simp add: enc_tid_def le16_def)

lemma enc_tids_length: "length (concat (map enc_tid ts)) = 6 * length ts"
  by (induction ts) simp_all

text \<open>On the tuples the code builds nothing is cut off: the encoding starts with every field.\<close>

lemma enc_raw_fits:
  "case t of ElementTup e \<Rightarrow> length (et_heaptids e) = HNSW_HEAPTIDS \<and> vec_wf (et_data e) \<and> et_datalen e = nat (vl_len (et_data e))
     | NeighborTup n \<Rightarrow> True \<Longrightarrow>
   length (enc_raw t) \<le> tuple_size t"
proof (cases t)
  case (ElementTup e)
  assume a: "case t of ElementTup e \<Rightarrow> length (et_heaptids e) = HNSW_HEAPTIDS \<and> vec_wf (et_data e) \<and> et_datalen e = nat (vl_len (et_data e))
     | NeighborTup n \<Rightarrow> True"
  have x: "length (concat (map (\<lambda>f. le32 (unat f)) (v_x (et_data e)))) = 4 * length (v_x (et_data e))"
    by (induction "v_x (et_data e)") (simp_all add: le32_def le16_def length_concat comp_def sum_list_triv)
  have "length (enc_raw t) = 72 + nat (vl_len (et_data e))"
    using a ElementTup x
    by (auto simp: enc_vector_def le32_def le16_def enc_tids_length vec_wf_def VECTOR_SIZE_def hnsw_const)
  then show ?thesis
    using a ElementTup MAXALIGN_ge by (simp add: tuple_size_def HNSW_ELEMENT_TUPLE_SIZE_def hnsw_const)
next
  case (NeighborTup n)
  then show ?thesis
    using MAXALIGN_ge [of "4 + length (nt_indextids n) * 6"]
    by (simp add: tuple_size_def enc_tids_length le16_def hnsw_const)
qed

end
