(* ===== verification/HnswUtils.thy ===== *)
theory HnswUtils
  imports HnswTypes
begin

text \<open>
  The shared algorithms of \<open>src/backend/access/hnsw/hnswutils.c\<close>: elements and neighbour arrays, the
  metapage, conversion between elements and tuples, the layer search (Algorithm 2 of the HNSW paper),
  neighbour selection with its closer cache (Algorithm 4), connection updates, and the search for the
  neighbours of a new element (Algorithm 1).

  Functions that allocate elements take and return the element store.  The visited hash table is the set
  of its keys.  The random level of a new element is an argument.  \<open>index = None\<close> is the in-memory build,
  \<open>index = Some r\<close> the relation on disk.
\<close>

section \<open>Options and values\<close>

definition HnswGetM :: "Relation \<Rightarrow> nat" where
  "HnswGetM index = (case rel_options index of Some opts \<Rightarrow> opt_m opts | None \<Rightarrow> HNSW_DEFAULT_M)"

definition HnswGetEfConstruction :: "Relation \<Rightarrow> nat" where
  "HnswGetEfConstruction index =
     (case rel_options index of Some opts \<Rightarrow> opt_efConstruction opts | None \<Rightarrow> HNSW_DEFAULT_EF_CONSTRUCTION)"

definition HnswNormValue :: "HnswTypeInfo \<Rightarrow> Vector \<Rightarrow> Vector result" where
  "HnswNormValue typeInfo value = (case ti_normalize typeInfo of None \<Rightarrow> Inl UndefinedBehaviour | Some f \<Rightarrow> f value)"

definition HnswCheckNorm :: "HnswSupport \<Rightarrow> Vector \<Rightarrow> bool result" where
  "HnswCheckNorm support value =
     (case sup_normprocinfo support of
        None \<Rightarrow> Inl UndefinedBehaviour
      | Some f \<Rightarrow> rbind (f value) (\<lambda>d. Inr (f8_lt f8_zero d)))"

definition HnswFormIndexValue :: "HnswTypeInfo \<Rightarrow> HnswSupport \<Rightarrow> Vector \<Rightarrow> (Vector option) result" where
  "HnswFormIndexValue typeInfo support value =
     rbind (case ti_checkValue typeInfo of None \<Rightarrow> Inr () | Some f \<Rightarrow> f value) (\<lambda>_.
       case sup_normprocinfo support of
         None \<Rightarrow> Inr (Some value)
       | Some _ \<Rightarrow>
           rbind (HnswCheckNorm support value) (\<lambda>ok.
             if \<not> ok then Inr None
             else rbind (HnswNormValue typeInfo value) (\<lambda>v. Inr (Some v))))"

definition HnswGetTypeInfo :: "HnswTypeInfo option \<Rightarrow> HnswTypeInfo" where
  "HnswGetTypeInfo procinfo =
     (case procinfo of
        None \<Rightarrow> \<lparr>ti_maxDimensions = HNSW_MAX_DIM, ti_normalize = Some l2_normalize, ti_checkValue = None\<rparr>
      | Some ti \<Rightarrow> ti)"

definition hnsw_bit_support :: HnswTypeInfo where
  "hnsw_bit_support = \<lparr>ti_maxDimensions = HNSW_MAX_DIM * 32, ti_normalize = None, ti_checkValue = None\<rparr>"

section \<open>Elements\<close>

definition HnswInitNeighborArray :: "nat \<Rightarrow> HnswNeighborArray" where
  "HnswInitNeighborArray lm = \<lparr>na_closerSet = False, na_items = [], na_cap = lm\<rparr>"

definition HnswInitNeighbors :: "HnswElementData \<Rightarrow> nat \<Rightarrow> HnswElementData" where
  "HnswInitNeighbors element m =
     element\<lparr>he_neighbors := Some (map (\<lambda>lc. HnswInitNeighborArray (HnswGetLayerM m lc)) [0..<Suc (he_level element)])\<rparr>"

definition HnswAddHeapTid :: "HnswElementData \<Rightarrow> ItemPointerData \<Rightarrow> HnswElementData result" where
  "HnswAddHeapTid element heaptid =
     (if length (he_heaptids element) < HNSW_HEAPTIDS
      then Inr (element\<lparr>he_heaptids := he_heaptids element @ [heaptid]\<rparr>)
      else Inl UndefinedBehaviour)"

text \<open>Freshly allocated memory: the fields no function has set yet.\<close>

definition raw_element :: HnswElementData where
  "raw_element = \<lparr>he_next = None, he_heaptids = [], he_level = 0, he_deleted = 0, he_version = 0, he_neighbors = None,
     he_blkno = 0, he_offno = 0, he_neighborOffno = 0, he_neighborPage = 0, he_value = None\<rparr>"

definition HnswInitElement :: "ItemPointerData \<Rightarrow> nat \<Rightarrow> nat \<Rightarrow> nat \<Rightarrow> HnswElementData result" where
  "HnswInitElement heaptid m randomLevel maxLevel =
     (let level = (if randomLevel > maxLevel then maxLevel else randomLevel) in
      rbind (HnswAddHeapTid (raw_element\<lparr>he_heaptids := []\<rparr>) heaptid) (\<lambda>element.
        Inr ((HnswInitNeighbors (element\<lparr>he_level := level, he_deleted := 0, he_version := 1\<rparr>) m)\<lparr>he_value := None\<rparr>)))"

definition HnswInitElementFromBlock :: "nat \<Rightarrow> nat \<Rightarrow> HnswElementData" where
  "HnswInitElementFromBlock blkno offno =
     raw_element\<lparr>he_blkno := blkno, he_offno := offno, he_neighbors := None, he_value := None\<rparr>"

definition HnswGetNeighbors :: "HnswElementData \<Rightarrow> nat \<Rightarrow> HnswNeighborArray result" where
  "HnswGetNeighbors element lc =
     (case he_neighbors element of
        None \<Rightarrow> Inl UndefinedBehaviour
      | Some neighborList \<Rightarrow> if he_level element < lc then Inl AssertionFailed else nth_r neighborList lc)"

section \<open>The metapage\<close>

definition HnswGetMetaPageInfo :: "Relation \<Rightarrow> (nat \<times> HnswElementData option) result" where
  "HnswGetMetaPageInfo index =
     rbind (read_meta index) (\<lambda>metap.
       if mp_magicNumber metap \<noteq> HNSW_MAGIC_NUMBER then Inl ErrNotHnswIndex
       else Inr (mp_m metap,
         if mp_entryBlkno metap \<noteq> InvalidBlockNumber
         then Some ((HnswInitElementFromBlock (mp_entryBlkno metap) (mp_entryOffno metap))
                     \<lparr>he_level := nat (mp_entryLevel metap mod 256)\<rparr>)
         else None))"

definition HnswGetEntryPoint :: "Relation \<Rightarrow> (HnswElementData option) result" where
  "HnswGetEntryPoint index = rbind (HnswGetMetaPageInfo index) (\<lambda>(m, entryPoint). Inr entryPoint)"

datatype updateEntry = NoUpdate | UpdateGreater | UpdateAlways

definition HnswUpdateMetaPageInfo ::
    "HnswMetaPageData \<Rightarrow> updateEntry \<Rightarrow> HnswElementData option \<Rightarrow> nat \<Rightarrow> HnswMetaPageData" where
  "HnswUpdateMetaPageInfo metap upd entryPoint insertPage =
     (let metap1 =
        (if upd \<noteq> NoUpdate then
           (case entryPoint of
              None \<Rightarrow> metap\<lparr>mp_entryBlkno := InvalidBlockNumber, mp_entryOffno := InvalidOffsetNumber, mp_entryLevel := -1\<rparr>
            | Some e \<Rightarrow>
                if int (he_level e) > mp_entryLevel metap \<or> upd = UpdateAlways
                then metap\<lparr>mp_entryBlkno := he_blkno e, mp_entryOffno := he_offno e, mp_entryLevel := int (he_level e)\<rparr>
                else metap)
         else metap)
      in if insertPage \<noteq> InvalidBlockNumber then metap1\<lparr>mp_insertPage := insertPage\<rparr> else metap1)"

definition HnswUpdateMetaPage ::
    "Relation \<Rightarrow> updateEntry \<Rightarrow> HnswElementData option \<Rightarrow> nat \<Rightarrow> Relation result" where
  "HnswUpdateMetaPage index upd entryPoint insertPage =
     rbind (read_meta index) (\<lambda>metap. Inr (write_meta index (HnswUpdateMetaPageInfo metap upd entryPoint insertPage)))"

section \<open>Elements and tuples\<close>

definition HnswSetElementTuple :: "HnswElementTupleData \<Rightarrow> HnswElementData \<Rightarrow> HnswElementTupleData result" where
  "HnswSetElementTuple etup element =
     (case he_value element of
        None \<Rightarrow> Inl UndefinedBehaviour
      | Some value \<Rightarrow> Inr (etup\<lparr>et_level := he_level element, et_deleted := 0, et_version := he_version element,
          et_heaptids := map (\<lambda>i. if i < length (he_heaptids element) then he_heaptids element ! i else InvalidItemPointer)
            [0..<HNSW_HEAPTIDS],
          et_data := value, et_datalen := nat (vl_len value)\<rparr>))"

definition neighbor_tid :: "elems \<Rightarrow> HnswNeighborArray \<Rightarrow> nat \<Rightarrow> ItemPointerData result" where
  "neighbor_tid elems neighbors i =
     (if i < length (na_items neighbors) then
        rbind (nth_r elems (hc_element (na_items neighbors ! i))) (\<lambda>hce. Inr (ItemPointerSet (he_blkno hce) (he_offno hce)))
      else Inr InvalidItemPointer)"

fun mapM :: "('a \<Rightarrow> 'b result) \<Rightarrow> 'a list \<Rightarrow> ('b list) result" where
  "mapM f [] = Inr []"
| "mapM f (x # xs) = rbind (f x) (\<lambda>y. rbind (mapM f xs) (\<lambda>ys. Inr (y # ys)))"

definition layer_tids :: "elems \<Rightarrow> HnswElementData \<Rightarrow> nat \<Rightarrow> nat \<Rightarrow> (ItemPointerData list) result" where
  "layer_tids elems e m lc =
     rbind (HnswGetNeighbors e lc) (\<lambda>neighbors. mapM (neighbor_tid elems neighbors) [0..<HnswGetLayerM m lc])"

text \<open>The layers are stored from the top one down.\<close>

definition HnswSetNeighborTuple ::
    "elems \<Rightarrow> HnswNeighborTupleData \<Rightarrow> HnswElementData \<Rightarrow> nat \<Rightarrow> HnswNeighborTupleData result" where
  "HnswSetNeighborTuple elems ntup e m =
     rbind (mapM (layer_tids elems e m) (rev [0..<Suc (he_level e)])) (\<lambda>tids.
       Inr (ntup\<lparr>nt_indextids := concat tids, nt_count := length (concat tids) mod 65536, nt_version := he_version e\<rparr>))"

definition HnswLoadElementFromTuple ::
    "HnswElementData \<Rightarrow> HnswElementTupleData \<Rightarrow> bool \<Rightarrow> bool \<Rightarrow> HnswElementData" where
  "HnswLoadElementFromTuple element etup loadHeaptids loadVec =
     (let element1 = element\<lparr>he_level := et_level etup, he_deleted := et_deleted etup, he_version := et_version etup,
            he_neighborPage := ip_blkid (et_neighbortid etup), he_neighborOffno := ip_posid (et_neighbortid etup),
            he_heaptids := (if loadHeaptids then takeWhile ItemPointerIsValid (take HNSW_HEAPTIDS (et_heaptids etup)) else [])\<rparr>
      in if loadVec then element1\<lparr>he_value := Some (et_data etup)\<rparr> else element1)"

definition HnswGetDistance :: "Vector \<Rightarrow> Vector \<Rightarrow> HnswSupport \<Rightarrow> float8 result" where
  "HnswGetDistance a b support = sup_procinfo support a b"

text \<open>The result: the distance when asked for, the element pointer (\<open>None\<close> when the element was not
  loaded and none was given), and the store.\<close>

definition HnswLoadElementImpl ::
    "elems \<Rightarrow> nat \<Rightarrow> nat \<Rightarrow> bool \<Rightarrow> Vector option \<Rightarrow> Relation \<Rightarrow> HnswSupport \<Rightarrow> bool \<Rightarrow> float8 option \<Rightarrow> eptr option \<Rightarrow>
     (float8 option \<times> eptr option \<times> elems) result" where
  "HnswLoadElementImpl elems blkno offno wantDistance q index support loadVec maxDistance element =
     rbind (read_page index blkno) (\<lambda>page.
     rbind (element_tuple page offno) (\<lambda>etup.
     rbind (if wantDistance then
              (case q of None \<Rightarrow> Inr (Some f8_zero)
               | Some qv \<Rightarrow> rbind (HnswGetDistance qv (et_data etup) support) (\<lambda>d. Inr (Some d)))
            else Inr None) (\<lambda>distance.
       if (case distance of None \<Rightarrow> True | Some d \<Rightarrow> (case maxDistance of None \<Rightarrow> True | Some mx \<Rightarrow> f8_lt d mx)) then
         (case element of
            None \<Rightarrow> Inr (distance, Some (length elems),
                elems @ [HnswLoadElementFromTuple (HnswInitElementFromBlock blkno offno) etup True loadVec])
          | Some p \<Rightarrow> rbind (nth_r elems p) (\<lambda>e.
                Inr (distance, Some p, elems[p := HnswLoadElementFromTuple e etup True loadVec])))
       else Inr (distance, element, elems))))"

definition HnswLoadElement ::
    "elems \<Rightarrow> eptr \<Rightarrow> bool \<Rightarrow> Vector option \<Rightarrow> Relation \<Rightarrow> HnswSupport \<Rightarrow> bool \<Rightarrow> float8 option \<Rightarrow>
     (float8 option \<times> elems) result" where
  "HnswLoadElement elems p wantDistance q index support loadVec maxDistance =
     rbind (nth_r elems p) (\<lambda>e.
     rbind (HnswLoadElementImpl elems (he_blkno e) (he_offno e) wantDistance q index support loadVec maxDistance (Some p))
       (\<lambda>(distance, _, elems'). Inr (distance, elems')))"

definition GetElementDistance :: "elems \<Rightarrow> eptr \<Rightarrow> Vector option \<Rightarrow> HnswSupport \<Rightarrow> float8 result" where
  "GetElementDistance elems p q support =
     rbind (nth_r elems p) (\<lambda>e.
       case (q, he_value e) of (Some qv, Some v) \<Rightarrow> HnswGetDistance qv v support | _ \<Rightarrow> Inl UndefinedBehaviour)"

definition HnswInitSearchCandidate :: "eptr \<Rightarrow> float8 \<Rightarrow> HnswSearchCandidate" where
  "HnswInitSearchCandidate p distance = \<lparr>sc_element = p, sc_distance = distance\<rparr>"

definition HnswEntryCandidate ::
    "elems \<Rightarrow> eptr \<Rightarrow> Vector option \<Rightarrow> Relation option \<Rightarrow> HnswSupport \<Rightarrow> bool \<Rightarrow> (HnswSearchCandidate \<times> elems) result" where
  "HnswEntryCandidate elems entryPoint q index support loadVec =
     (case index of
        None \<Rightarrow> rbind (GetElementDistance elems entryPoint q support) (\<lambda>d. Inr (HnswInitSearchCandidate entryPoint d, elems))
      | Some r \<Rightarrow> rbind (HnswLoadElement elems entryPoint True q r support loadVec None) (\<lambda>(d, elems').
            case d of None \<Rightarrow> Inl UndefinedBehaviour | Some d' \<Rightarrow> Inr (HnswInitSearchCandidate entryPoint d', elems')))"

section \<open>Comparators of the candidate queues\<close>

definition CompareNearestCandidates :: "HnswSearchCandidate \<Rightarrow> HnswSearchCandidate \<Rightarrow> int" where
  "CompareNearestCandidates a b =
     (if f8_lt (sc_distance a) (sc_distance b) then 1
      else if f8_lt (sc_distance b) (sc_distance a) then -1 else 0)"

definition CompareNearestDiscardedCandidates :: "HnswSearchCandidate \<Rightarrow> HnswSearchCandidate \<Rightarrow> int" where
  "CompareNearestDiscardedCandidates a b =
     (if f8_lt (sc_distance a) (sc_distance b) then 1
      else if f8_lt (sc_distance b) (sc_distance a) then -1 else 0)"

definition CompareFurthestCandidates :: "HnswSearchCandidate \<Rightarrow> HnswSearchCandidate \<Rightarrow> int" where
  "CompareFurthestCandidates a b =
     (if f8_lt (sc_distance a) (sc_distance b) then -1
      else if f8_lt (sc_distance b) (sc_distance a) then 1 else 0)"

section \<open>Visited elements\<close>

datatype visited_key = VTid ItemPointerData | VPtr eptr

datatype HnswUnvisited = UElement eptr | UTid ItemPointerData

definition visited_key_of :: "elems \<Rightarrow> bool \<Rightarrow> eptr \<Rightarrow> visited_key result" where
  "visited_key_of elems inMemory p =
     (if \<not> inMemory then rbind (nth_r elems p) (\<lambda>e. Inr (VTid (ItemPointerSet (he_blkno e) (he_offno e))))
      else Inr (VPtr p))"

definition AddToVisited :: "elems \<Rightarrow> visited_key set \<Rightarrow> eptr \<Rightarrow> bool \<Rightarrow> (bool \<times> visited_key set) result" where
  "AddToVisited elems v p inMemory =
     rbind (visited_key_of elems inMemory p) (\<lambda>k. Inr (k \<in> v, insert k v))"

definition CountElement :: "eptr option \<Rightarrow> HnswElementData \<Rightarrow> bool" where
  "CountElement skipElement e = (case skipElement of None \<Rightarrow> True | Some _ \<Rightarrow> length (he_heaptids e) \<noteq> 0)"

text \<open>The loops that collect the neighbours not visited before, marking them visited.\<close>

fun unvisited_items :: "visited_key set \<Rightarrow> HnswCandidate list \<Rightarrow> HnswUnvisited list \<times> visited_key set" where
  "unvisited_items v [] = ([], v)"
| "unvisited_items v (hc # hcs) =
     (let k = VPtr (hc_element hc); (us, v') = unvisited_items (insert k v) hcs
      in (if k \<in> v then us else UElement (hc_element hc) # us, v'))"

definition HnswLoadUnvisitedFromMemory ::
    "elems \<Rightarrow> eptr \<Rightarrow> visited_key set \<Rightarrow> nat \<Rightarrow> (HnswUnvisited list \<times> visited_key set) result" where
  "HnswLoadUnvisitedFromMemory elems element v lc =
     rbind (nth_r elems element) (\<lambda>e.
     rbind (HnswGetNeighbors e lc) (\<lambda>neighborhood. Inr (unvisited_items v (na_items neighborhood))))"

definition HnswLoadNeighborTids ::
    "HnswElementData \<Rightarrow> Relation \<Rightarrow> nat \<Rightarrow> nat \<Rightarrow> nat \<Rightarrow> (ItemPointerData list option) result" where
  "HnswLoadNeighborTids element index m lm lc =
     rbind (read_page index (he_neighborPage element)) (\<lambda>page.
     rbind (neighbor_tuple page (he_neighborOffno element)) (\<lambda>ntup.
       if nt_version ntup \<noteq> he_version element \<or> nt_count ntup \<noteq> (he_level element + 2) * m then Inr None
       else let start = (he_level element - lc) * m in
         if he_level element < lc \<or> length (nt_indextids ntup) < start + lm then Inl UndefinedBehaviour
         else Inr (Some (take lm (drop start (nt_indextids ntup))))))"

fun unvisited_tids :: "visited_key set \<Rightarrow> ItemPointerData list \<Rightarrow> HnswUnvisited list \<times> visited_key set" where
  "unvisited_tids v [] = ([], v)"
| "unvisited_tids v (tid # tids) =
     (if \<not> ItemPointerIsValid tid then ([], v)
      else let (us, v') = unvisited_tids (insert (VTid tid) v) tids
           in (if VTid tid \<in> v then us else UTid tid # us, v'))"

definition HnswLoadUnvisitedFromDisk ::
    "HnswElementData \<Rightarrow> visited_key set \<Rightarrow> Relation \<Rightarrow> nat \<Rightarrow> nat \<Rightarrow> nat \<Rightarrow> (HnswUnvisited list \<times> visited_key set) result" where
  "HnswLoadUnvisitedFromDisk element v index m lm lc =
     rbind (HnswLoadNeighborTids element index m lm lc) (\<lambda>r.
       case r of
         None \<Rightarrow> Inr ([], v)
       | Some indextids \<Rightarrow>
           if length indextids > HNSW_MAX_M * 2 then Inl UndefinedBehaviour
           else Inr (unvisited_tids v indextids))"

section \<open>The layer search\<close>

record search_env =
  se_q :: "Vector option"
  se_ef :: nat
  se_lc :: nat
  se_index :: "Relation option"
  se_support :: HnswSupport
  se_m :: nat
  se_inserting :: bool
  se_skipElement :: "eptr option"

record search_state =
  ss_elems :: elems
  ss_C :: "HnswSearchCandidate pairingheap"
  ss_W :: "HnswSearchCandidate pairingheap"
  ss_wlen :: nat
  ss_v :: "visited_key set"
  ss_discarded :: "HnswSearchCandidate pairingheap option"
  ss_tuples :: "nat option"

text \<open>Entry points go to \<open>v\<close>, \<open>C\<close> and \<open>W\<close>.\<close>

fun add_entries :: "search_env \<Rightarrow> bool \<Rightarrow> HnswSearchCandidate list \<Rightarrow> search_state \<Rightarrow> search_state result" where
  "add_entries env initVisited [] st = Inr st"
| "add_entries env initVisited (sc # ep) st =
     rbind (if initVisited then
              rbind (AddToVisited (ss_elems st) (ss_v st) (sc_element sc) (se_index env = None)) (\<lambda>(found, v).
                Inr (st\<lparr>ss_v := v, ss_tuples := map_option Suc (ss_tuples st)\<rparr>))
            else Inr st) (\<lambda>st1.
     rbind (nth_r (ss_elems st1) (sc_element sc)) (\<lambda>e.
       add_entries env initVisited ep
         (st1\<lparr>ss_C := pairingheap_add (ss_C st1) sc, ss_W := pairingheap_add (ss_W st1) sc,
              ss_wlen := (if CountElement (se_skipElement env) e then Suc (ss_wlen st1) else ss_wlen st1)\<rparr>)))"

text \<open>Loading one unvisited neighbour: its element (\<open>None\<close> when it was not loaded) and distance.\<close>

definition load_unvisited ::
    "search_env \<Rightarrow> search_state \<Rightarrow> float8 \<Rightarrow> HnswUnvisited \<Rightarrow> (eptr option \<times> float8 \<times> elems) result" where
  "load_unvisited env st fdistance u =
     (case (se_index env, u) of
        (None, UElement p) \<Rightarrow>
          rbind (GetElementDistance (ss_elems st) p (se_q env) (se_support env)) (\<lambda>d. Inr (Some p, d, ss_elems st))
      | (Some r, UTid tid) \<Rightarrow>
          rbind (HnswLoadElementImpl (ss_elems st) (ip_blkid tid) (ip_posid tid) True (se_q env) r (se_support env)
                   (se_inserting env)
                   (if ss_wlen st < se_ef env \<or> ss_discarded st \<noteq> None then None else Some fdistance) None)
            (\<lambda>(d, p, elems). case d of None \<Rightarrow> Inl UndefinedBehaviour | Some d' \<Rightarrow> Inr (p, d', elems))
      | _ \<Rightarrow> Inl UndefinedBehaviour)"

definition discard :: "HnswSearchCandidate \<Rightarrow> search_state \<Rightarrow> search_state" where
  "discard e st = st\<lparr>ss_discarded := map_option (\<lambda>h. pairingheap_add h e) (ss_discarded st)\<rparr>"

text \<open>Adding a candidate to \<open>C\<close> and \<open>W\<close>, dropping the furthest one when \<open>W\<close> exceeds \<open>ef\<close>.\<close>

definition add_candidate :: "search_env \<Rightarrow> HnswSearchCandidate \<Rightarrow> HnswElementData \<Rightarrow> search_state \<Rightarrow> search_state result" where
  "add_candidate env e eElement st =
     (let st1 = st\<lparr>ss_C := pairingheap_add (ss_C st) e, ss_W := pairingheap_add (ss_W st) e\<rparr> in
      if CountElement (se_skipElement env) eElement then
        (let st2 = st1\<lparr>ss_wlen := Suc (ss_wlen st1)\<rparr> in
         if ss_wlen st2 > se_ef env then
           rbind (pairingheap_remove_first (ss_W st2)) (\<lambda>(d, W'). Inr (discard d (st2\<lparr>ss_W := W'\<rparr>)))
         else Inr st2)
      else Inr st1)"

definition process_unvisited :: "search_env \<Rightarrow> search_state \<Rightarrow> HnswUnvisited \<Rightarrow> search_state result" where
  "process_unvisited env st u =
     (let alwaysAdd = ss_wlen st < se_ef env in
      rbind (pairingheap_first (ss_W st)) (\<lambda>f.
      rbind (load_unvisited env st (sc_distance f) u) (\<lambda>(p, eDistance, elems).
        let st1 = st\<lparr>ss_elems := elems\<rparr> in
        case p of
          None \<Rightarrow> Inr st1
        | Some eElement \<Rightarrow>
            let e = HnswInitSearchCandidate eElement eDistance in
            if \<not> (f8_lt eDistance (sc_distance f) \<or> alwaysAdd) then Inr (discard e st1)
            else rbind (nth_r elems eElement) (\<lambda>el.
              if he_level el < se_lc env then Inr st1
              else add_candidate env e el st1))))"

fun process_all :: "search_env \<Rightarrow> HnswUnvisited list \<Rightarrow> search_state \<Rightarrow> search_state result" where
  "process_all env [] st = Inr st"
| "process_all env (u # us) st = rbind (process_unvisited env st u) (\<lambda>st'. process_all env us st')"

definition load_neighbors :: "search_env \<Rightarrow> search_state \<Rightarrow> eptr \<Rightarrow> (HnswUnvisited list \<times> visited_key set) result" where
  "load_neighbors env st c =
     (case se_index env of
        None \<Rightarrow> HnswLoadUnvisitedFromMemory (ss_elems st) c (ss_v st) (se_lc env)
      | Some r \<Rightarrow> rbind (nth_r (ss_elems st) c) (\<lambda>e.
          HnswLoadUnvisitedFromDisk e (ss_v st) r (se_m env) (HnswGetLayerM (se_m env) (se_lc env)) (se_lc env)))"

text \<open>One iteration of the loop; \<open>False\<close> means it left the loop.\<close>

definition search_step :: "search_env \<Rightarrow> search_state \<Rightarrow> (bool \<times> search_state) result" where
  "search_step env st =
     rbind (pairingheap_remove_first (ss_C st)) (\<lambda>(c, C').
     rbind (pairingheap_first (ss_W st)) (\<lambda>f.
       let st1 = st\<lparr>ss_C := C'\<rparr> in
       if f8_lt (sc_distance f) (sc_distance c) then Inr (False, st1)
       else rbind (load_neighbors env st1 (sc_element c)) (\<lambda>(us, v').
         rbind (process_all env us
             (st1\<lparr>ss_v := v', ss_tuples := map_option (\<lambda>t. t + length us) (ss_tuples st1)\<rparr>)) (\<lambda>st2. Inr (True, st2)))))"

subsection \<open>The loop ends\<close>

text \<open>The keys the loop can ever mark: the neighbours named by the stored arrays or tuples.\<close>

definition mem_targets :: "elems \<Rightarrow> visited_key set" where
  "mem_targets elems = (\<Union>e\<in>set elems. case he_neighbors e of None \<Rightarrow> {}
     | Some ns \<Rightarrow> (\<Union>n\<in>set ns. (VPtr \<circ> hc_element) ` set (na_items n)))"

definition disk_targets :: "Relation \<Rightarrow> visited_key set" where
  "disk_targets r = (\<Union>b\<in>set (rel_blocks r). case b of MetaBlock _ _ \<Rightarrow> {}
     | GraphBlock p \<Rightarrow> (\<Union>t\<in>set (ip_items p). case t of ElementTup _ \<Rightarrow> {} | NeighborTup n \<Rightarrow> VTid ` set (nt_indextids n)))"

definition targets :: "search_env \<Rightarrow> elems \<Rightarrow> visited_key set" where
  "targets env elems = (case se_index env of None \<Rightarrow> mem_targets elems | Some r \<Rightarrow> disk_targets r)"

lemma finite_targets [simp]: "finite (targets env elems)"
  by (auto simp: targets_def mem_targets_def disk_targets_def split: option.splits block.splits HnswTuple.splits)

fun ukey :: "HnswUnvisited \<Rightarrow> visited_key" where
  "ukey (UElement p) = VPtr p"
| "ukey (UTid t) = VTid t"

text \<open>One step of either collecting loop.\<close>

lemma collect_step:
  assumes "us = (if k \<in> v then us1 else u # us1) \<and> ukey u = k \<and> k \<in> v' \<and> v' = w"
    and "ukey ` set us1 = v' - insert k v" and "distinct (map ukey us1)"
  shows "v' = w \<and> ukey ` set us = v' - v \<and> distinct (map ukey us)"
proof (cases "k \<in> v")
  case True
  then show ?thesis using assms by (simp add: insert_absorb)
next
  case False
  have "k \<notin> ukey ` set us1" unfolding assms(2) by blast
  moreover have "insert k (v' - insert k v) = v' - v" using False assms(1) by blast
  ultimately show ?thesis using False assms by simp
qed

lemma unvisited_items_spec:
  "unvisited_items v hcs = (us, v') \<Longrightarrow>
   v' = v \<union> (VPtr \<circ> hc_element) ` set hcs \<and> ukey ` set us = v' - v \<and> distinct (map ukey us)"
proof (induction hcs arbitrary: v us v')
  case (Cons hc hcs)
  obtain us1 where r: "unvisited_items (insert (VPtr (hc_element hc)) v) hcs = (us1, v')"
    using Cons.prems by (auto split: prod.splits simp: Let_def)
  let ?k = "VPtr (hc_element hc)"
  have ih: "v' = insert ?k v \<union> (VPtr \<circ> hc_element) ` set hcs" "ukey ` set us1 = v' - insert ?k v" "distinct (map ukey us1)"
    using Cons.IH [OF r] by blast+
  show ?case
    by (rule collect_step [OF _ ih(2,3), of us "UElement (hc_element hc)"]) (use Cons.prems r ih(1) in \<open>auto simp: Let_def\<close>)
qed simp

lemma unvisited_tids_spec:
  "unvisited_tids v tids = (us, v') \<Longrightarrow>
   v' = v \<union> VTid ` set (takeWhile ItemPointerIsValid tids) \<and> ukey ` set us = v' - v \<and> distinct (map ukey us)"
proof (induction tids arbitrary: v us v')
  case (Cons t tids)
  show ?case
  proof (cases "ItemPointerIsValid t")
    case True
    then obtain us1 where r: "unvisited_tids (insert (VTid t) v) tids = (us1, v')"
      using Cons.prems by (auto split: prod.splits simp: Let_def)
    have ih: "v' = insert (VTid t) v \<union> VTid ` set (takeWhile ItemPointerIsValid tids)"
        "ukey ` set us1 = v' - insert (VTid t) v" "distinct (map ukey us1)"
      using Cons.IH [OF r] by blast+
    show ?thesis
      by (rule collect_step [OF _ ih(2,3), of us "UTid t"]) (use Cons.prems True r ih(1) in \<open>auto simp: Let_def\<close>)
  qed (use Cons.prems in simp)
qed simp

lemma read_page_in: "read_page r b = Inr p \<Longrightarrow> GraphBlock p \<in> set (rel_blocks r)"
  by (auto simp: read_page_def split: if_splits block.splits dest: nth_mem)

lemma neighbor_tuple_in: "neighbor_tuple p off = Inr n \<Longrightarrow> NeighborTup n \<in> set (ip_items p)"
  by (auto simp: neighbor_tuple_def page_tuple_def ip_get_def hnsw_err split: if_splits HnswTuple.splits dest!: nth_mem)

lemma load_tids_targets:
  assumes "HnswLoadNeighborTids e r m lm lc = Inr (Some tids)"
  shows "VTid ` set tids \<subseteq> disk_targets r" "length tids = lm"
proof -
  from assms obtain p n where p: "read_page r (he_neighborPage e) = Inr p"
      and n: "neighbor_tuple p (he_neighborOffno e) = Inr n"
      and t: "tids = take lm (drop ((he_level e - lc) * m) (nt_indextids n))"
      and l: "(he_level e - lc) * m + lm \<le> length (nt_indextids n)"
    by (auto simp: HnswLoadNeighborTids_def hnsw_err Let_def split: if_splits)
  have "set tids \<subseteq> set (nt_indextids n)" unfolding t by (meson set_take_subset set_drop_subset subset_trans)
  then show "VTid ` set tids \<subseteq> disk_targets r"
    using read_page_in [OF p] neighbor_tuple_in [OF n] by (force simp: disk_targets_def)
  show "length tids = lm" using l by (simp add: t)
qed

lemma load_neighbors_spec:
  assumes "load_neighbors env st c = Inr (us, v')"
  shows "ss_v st \<subseteq> v'" "v' - ss_v st \<subseteq> targets env (ss_elems st)" "ukey ` set us = v' - ss_v st" "distinct (map ukey us)"
proof -
  have "ss_v st \<subseteq> v' \<and> v' - ss_v st \<subseteq> targets env (ss_elems st) \<and> ukey ` set us = v' - ss_v st \<and> distinct (map ukey us)"
  proof (cases "se_index env")
    case None
    then obtain e n where e: "c < length (ss_elems st)" "ss_elems st ! c = e" and n: "HnswGetNeighbors e (se_lc env) = Inr n"
      and u: "unvisited_items (ss_v st) (na_items n) = (us, v')"
      using assms by (auto simp: load_neighbors_def HnswLoadUnvisitedFromMemory_def hnsw_err)
    obtain ns where "he_neighbors e = Some ns" "n \<in> set ns"
      using n by (auto simp: HnswGetNeighbors_def hnsw_err split: option.splits if_splits dest: nth_mem)
    then have "(VPtr \<circ> hc_element) ` set (na_items n) \<subseteq> (case he_neighbors e of None \<Rightarrow> {}
        | Some ns \<Rightarrow> (\<Union>n\<in>set ns. (VPtr \<circ> hc_element) ` set (na_items n)))" by auto
    also have "\<dots> \<subseteq> mem_targets (ss_elems st)"
      unfolding mem_targets_def using e nth_mem [OF e(1)] by (intro UN_upper) simp
    finally have "(VPtr \<circ> hc_element) ` set (na_items n) \<subseteq> mem_targets (ss_elems st)" .
    then show ?thesis using unvisited_items_spec [OF u] None by (auto simp: targets_def)
  next
    case (Some r)
    then obtain e where h: "HnswLoadUnvisitedFromDisk e (ss_v st) r (se_m env) (HnswGetLayerM (se_m env) (se_lc env)) (se_lc env)
        = Inr (us, v')"
      using assms by (auto simp: load_neighbors_def hnsw_err)
    from h consider "us = []" "v' = ss_v st"
      | tids where "HnswLoadNeighborTids e r (se_m env) (HnswGetLayerM (se_m env) (se_lc env)) (se_lc env) = Inr (Some tids)"
          "unvisited_tids (ss_v st) tids = (us, v')"
      by (auto simp: HnswLoadUnvisitedFromDisk_def hnsw_err split: option.splits if_splits)
    then show ?thesis
    proof cases
      case 2
      then show ?thesis
        using unvisited_tids_spec [OF 2(2)] load_tids_targets(1) [OF 2(1)] Some set_takeWhileD [of _ ItemPointerIsValid tids]
        by (fastforce simp: targets_def)
    qed simp
  qed
  then show "ss_v st \<subseteq> v'" "v' - ss_v st \<subseteq> targets env (ss_elems st)" "ukey ` set us = v' - ss_v st" "distinct (map ukey us)"
    by blast+
qed

lemma discard_simps [simp]:
  "ss_v (discard e st) = ss_v st" "ss_elems (discard e st) = ss_elems st" "ss_C (discard e st) = ss_C st"
  "ss_W (discard e st) = ss_W st" "ss_wlen (discard e st) = ss_wlen st" "ss_tuples (discard e st) = ss_tuples st"
  by (simp_all add: discard_def)

lemma add_candidate_keeps:
  "add_candidate env e el st = Inr st' \<Longrightarrow> ss_v st' = ss_v st \<and> ss_elems st' = ss_elems st"
  by (auto simp: add_candidate_def Let_def hnsw_err split: if_splits)

lemma load_unvisited_mem:
  "load_unvisited env st d u = Inr (p, e, elems) \<Longrightarrow> se_index env = None \<longrightarrow> elems = ss_elems st"
  by (auto simp: load_unvisited_def hnsw_err split: HnswUnvisited.splits option.splits)

text \<open>What one unvisited neighbour can lead to.\<close>

lemma process_unvisited_cases:
  assumes "process_unvisited env st u = Inr st'"
  obtains (skipped) f d elems where "pairingheap_first (ss_W st) = Inr f"
      "load_unvisited env st (sc_distance f) u = Inr (None, d, elems)" "st' = st\<lparr>ss_elems := elems\<rparr>"
  | (discarded) f d elems p where "pairingheap_first (ss_W st) = Inr f"
      "load_unvisited env st (sc_distance f) u = Inr (Some p, d, elems)"
      "\<not> (f8_lt d (sc_distance f) \<or> ss_wlen st < se_ef env)"
      "st' = discard (HnswInitSearchCandidate p d) (st\<lparr>ss_elems := elems\<rparr>)"
  | (wrong_level) f d elems p where "pairingheap_first (ss_W st) = Inr f"
      "load_unvisited env st (sc_distance f) u = Inr (Some p, d, elems)"
      "f8_lt d (sc_distance f) \<or> ss_wlen st < se_ef env" "p < length elems" "he_level (elems ! p) < se_lc env"
      "st' = st\<lparr>ss_elems := elems\<rparr>"
  | (added) f d elems p where "pairingheap_first (ss_W st) = Inr f"
      "load_unvisited env st (sc_distance f) u = Inr (Some p, d, elems)"
      "f8_lt d (sc_distance f) \<or> ss_wlen st < se_ef env" "p < length elems" "se_lc env \<le> he_level (elems ! p)"
      "add_candidate env (HnswInitSearchCandidate p d) (elems ! p) (st\<lparr>ss_elems := elems\<rparr>) = Inr st'"
proof -
  obtain f p d elems where f: "pairingheap_first (ss_W st) = Inr f"
    and l: "load_unvisited env st (sc_distance f) u = Inr (p, d, elems)"
    using assms unfolding process_unvisited_def Let_def rbind_InrE by fastforce
  show ?thesis
  proof (cases p)
    case None
    then show ?thesis using assms f l skipped by (simp add: process_unvisited_def Let_def)
  next
    case (Some q)
    consider "\<not> (f8_lt d (sc_distance f) \<or> ss_wlen st < se_ef env)"
      | "f8_lt d (sc_distance f) \<or> ss_wlen st < se_ef env" "he_level (elems ! q) < se_lc env"
      | "f8_lt d (sc_distance f) \<or> ss_wlen st < se_ef env" "\<not> he_level (elems ! q) < se_lc env" by blast
    then show ?thesis
    proof cases
      case 1
      then show ?thesis using assms f l Some discarded by (simp add: process_unvisited_def Let_def)
    next
      case 2
      then have "q < length elems" "st' = st\<lparr>ss_elems := elems\<rparr>"
        using assms f l Some by (auto simp: process_unvisited_def Let_def hnsw_err)
      then show ?thesis using wrong_level [OF f, of q d elems] l Some 2 by simp
    next
      case 3
      then have "q < length elems"
          "add_candidate env (HnswInitSearchCandidate q d) (elems ! q) (st\<lparr>ss_elems := elems\<rparr>) = Inr st'"
        using assms f l Some by (auto simp: process_unvisited_def Let_def hnsw_err)
      then show ?thesis using added [OF f, of q d elems] l Some 3 by simp
    qed
  qed
qed

lemma process_unvisited_keeps:
  assumes "process_unvisited env st u = Inr st'"
  shows "ss_v st' = ss_v st \<and> (se_index env = None \<longrightarrow> ss_elems st' = ss_elems st)"
  using assms
proof (cases rule: process_unvisited_cases)
  case (added f d elems p)
  then show ?thesis using load_unvisited_mem [OF added(2)] add_candidate_keeps [OF added(6)] by simp
qed (use load_unvisited_mem in auto)

lemma process_all_keeps:
  "process_all env us st = Inr st' \<Longrightarrow> ss_v st' = ss_v st \<and> (se_index env = None \<longrightarrow> ss_elems st' = ss_elems st)"
proof (induction us arbitrary: st)
  case (Cons u us)
  then show ?case using process_unvisited_keeps by (fastforce simp: hnsw_err)
qed simp

lemma targets_cong: "(se_index env = None \<longrightarrow> es' = es) \<Longrightarrow> targets env es' = targets env es"
  by (auto simp: targets_def split: option.splits)

definition search_measure :: "search_env \<Rightarrow> search_state \<Rightarrow> nat \<times> nat" where
  "search_measure env st = (card (targets env (ss_elems st) - ss_v st), size (ph_mset (ss_C st)))"

lemma search_step_decreases:
  assumes "search_step env st = Inr (True, st')"
  shows "(search_measure env st', search_measure env st) \<in> less_than <*lex*> less_than"
proof -
  from assms obtain c C' f us v' where
    c: "pairingheap_remove_first (ss_C st) = Inr (c, C')"
    and l: "load_neighbors env (st\<lparr>ss_C := C'\<rparr>) (sc_element c) = Inr (us, v')"
    and p: "process_all env us (st\<lparr>ss_C := C', ss_v := v', ss_tuples := map_option (\<lambda>t. t + length us) (ss_tuples st)\<rparr>) = Inr st'"
    by (auto simp: search_step_def hnsw_err Let_def split: if_splits)
  note ls = load_neighbors_spec [OF l] and k = process_all_keeps [OF p]
  have t: "targets env (ss_elems st') = targets env (ss_elems st)" using k by (intro targets_cong) simp
  show ?thesis
  proof (cases "v' = ss_v st")
    case True
    then have "us = []" using ls(3) by simp
    then show ?thesis
      using True p t ph_remove_first_mset [OF c] by (auto simp: search_measure_def)
  next
    case False
    then have "targets env (ss_elems st) - v' \<subset> targets env (ss_elems st) - ss_v st"
      using ls(1,2) by auto
    then have "card (targets env (ss_elems st) - v') < card (targets env (ss_elems st) - ss_v st)"
      by (intro psubset_card_mono) simp_all
    then show ?thesis using k t by (simp add: search_measure_def)
  qed
qed

function search_loop :: "search_env \<Rightarrow> search_state \<Rightarrow> search_state result" where
  "search_loop env st =
     (if pairingheap_is_empty (ss_C st) then Inr st
      else rbind (search_step env st) (\<lambda>(continue, st'). if continue then search_loop env st' else Inr st'))"
  by pat_completeness auto
termination
  by (relation "inv_image (less_than <*lex*> less_than) (\<lambda>(env, st). search_measure env st)")
     (auto simp: search_step_decreases)

declare search_loop.simps [simp del]

text \<open>The whole search: the result list (furthest first), the element store, the visited set, the
  discarded heap and the tuple counter.  \<open>v\<close> and \<open>discarded\<close> are \<open>None\<close> where the caller passes NULL.\<close>

definition HnswSearchLayer ::
    "search_env \<Rightarrow> elems \<Rightarrow> HnswSearchCandidate list \<Rightarrow> visited_key set option \<Rightarrow>
     HnswSearchCandidate pairingheap option \<Rightarrow> bool \<Rightarrow> nat option \<Rightarrow> (HnswSearchCandidate list \<times> search_state) result" where
  "HnswSearchLayer env elems ep v discarded initVisited0 tuples =
     (let initVisited = (initVisited0 \<or> v = None);
          st0 = \<lparr>ss_elems = elems, ss_C = pairingheap_allocate CompareNearestCandidates,
                 ss_W = pairingheap_allocate CompareFurthestCandidates, ss_wlen = 0,
                 ss_v = (if initVisited then {} else the v),
                 ss_discarded = (if initVisited then map_option (\<lambda>_. pairingheap_allocate CompareNearestDiscardedCandidates) discarded
                                 else discarded),
                 ss_tuples = tuples\<rparr>
      in rbind (add_entries env initVisited ep st0) (\<lambda>st1.
         rbind (search_loop env st1) (\<lambda>st2. Inr (drain (ss_W st2), st2))))"

section \<open>Neighbour selection\<close>

text \<open>The C code links \<open>HnswCandidate\<close> structs by pointers and caches the \<open>closer\<close> flag in them.  Here the
  structs are a store \<open>cs\<close> and the lists hold indices of it.\<close>

definition CompareCandidateDistances :: "HnswCandidate \<Rightarrow> HnswCandidate \<Rightarrow> int" where
  "CompareCandidateDistances hca hcb =
     (if f4_lt (hc_distance hca) (hc_distance hcb) then 1
      else if f4_lt (hc_distance hcb) (hc_distance hca) then -1
      else if hc_element hca < hc_element hcb then 1
      else if hc_element hcb < hc_element hca then -1
      else 0)"

definition CompareCandidateDistancesOffset :: "HnswCandidate \<Rightarrow> HnswCandidate \<Rightarrow> int" where
  "CompareCandidateDistancesOffset hca hcb =
     (if f4_lt (hc_distance hca) (hc_distance hcb) then 1
      else if f4_lt (hc_distance hcb) (hc_distance hca) then -1
      else if hc_element hca < hc_element hcb then 1
      else if hc_element hcb < hc_element hca then -1
      else 0)"

text \<open>\<open>list_sort\<close> with a comparator: elements it orders strictly come out in ascending order.\<close>

fun sort_insert :: "('a \<Rightarrow> 'a \<Rightarrow> int) \<Rightarrow> 'a \<Rightarrow> 'a list \<Rightarrow> 'a list" where
  "sort_insert cmp x [] = [x]"
| "sort_insert cmp x (y # ys) = (if cmp x y \<le> 0 then x # y # ys else y # sort_insert cmp x ys)"

definition list_sort :: "('a \<Rightarrow> 'a \<Rightarrow> int) \<Rightarrow> 'a list \<Rightarrow> 'a list" where
  "list_sort cmp xs = foldr (sort_insert cmp) xs []"

definition cand_value :: "elems \<Rightarrow> HnswCandidate \<Rightarrow> Vector result" where
  "cand_value elems hc =
     rbind (nth_r elems (hc_element hc)) (\<lambda>e. case he_value e of None \<Rightarrow> Inl UndefinedBehaviour | Some v \<Rightarrow> Inr v)"

fun CheckElementCloser :: "elems \<Rightarrow> HnswSupport \<Rightarrow> HnswCandidate list \<Rightarrow> nat \<Rightarrow> nat list \<Rightarrow> bool result" where
  "CheckElementCloser elems support cs e [] = Inr True"
| "CheckElementCloser elems support cs e (ri # rs) =
     rbind (nth_r cs e) (\<lambda>ec. rbind (nth_r cs ri) (\<lambda>ric.
     rbind (cand_value elems ec) (\<lambda>eValue. rbind (cand_value elems ric) (\<lambda>riValue.
     rbind (HnswGetDistance eValue riValue support) (\<lambda>d.
       if f4_le (f4_of_f8 d) (hc_distance ec) then Inr False
       else CheckElementCloser elems support cs e rs)))))"

record select_state =
  sl_cs :: "HnswCandidate list"
  sl_w :: "nat list"
  sl_r :: "nat list"
  sl_wd :: "nat list"
  sl_added :: "nat list"
  sl_removedAny :: bool

definition set_closer :: "HnswCandidate list \<Rightarrow> nat \<Rightarrow> bool \<Rightarrow> HnswCandidate list" where
  "set_closer cs e b = cs[e := (cs ! e)\<lparr>hc_closer := b\<rparr>]"

text \<open>Deciding \<open>e->closer\<close>, with the cached flags where they are still valid.\<close>

definition decide_closer ::
    "elems \<Rightarrow> HnswSupport \<Rightarrow> bool \<Rightarrow> nat option \<Rightarrow> nat \<Rightarrow> select_state \<Rightarrow> select_state result" where
  "decide_closer elems support mustCalculate newCandidate e st =
     (let cs = sl_cs st in
      if mustCalculate then
        rbind (CheckElementCloser elems support cs e (sl_r st)) (\<lambda>b. Inr (st\<lparr>sl_cs := set_closer cs e b\<rparr>))
      else if sl_added st \<noteq> [] then
        if hc_closer (cs ! e) then
          rbind (CheckElementCloser elems support cs e (sl_added st)) (\<lambda>b.
            Inr (st\<lparr>sl_cs := set_closer cs e b, sl_removedAny := (if \<not> b then True else sl_removedAny st)\<rparr>))
        else if sl_removedAny st then
          rbind (CheckElementCloser elems support cs e (sl_r st)) (\<lambda>b.
            Inr (st\<lparr>sl_cs := set_closer cs e b, sl_added := (if b then sl_added st @ [e] else sl_added st)\<rparr>))
        else Inr st
      else if newCandidate = Some e then
        rbind (CheckElementCloser elems support cs e (sl_r st)) (\<lambda>b.
          Inr (st\<lparr>sl_cs := set_closer cs e b, sl_added := (if b then sl_added st @ [e] else sl_added st)\<rparr>))
      else Inr st)"

lemma decide_closer_w: "decide_closer elems support mc nc e st = Inr st1 \<Longrightarrow> sl_w st1 = sl_w st"
  unfolding decide_closer_def Let_def by (auto simp only: rbind_InrE split: if_splits) simp_all

function select_loop ::
    "elems \<Rightarrow> HnswSupport \<Rightarrow> bool \<Rightarrow> nat option \<Rightarrow> nat \<Rightarrow> select_state \<Rightarrow> select_state result" where
  "select_loop elems support mustCalculate newCandidate lm st =
     (if sl_w st = [] \<or> \<not> length (sl_r st) < lm then Inr st
      else let e = last (sl_w st) in
        rbind (decide_closer elems support mustCalculate newCandidate e (st\<lparr>sl_w := butlast (sl_w st)\<rparr>)) (\<lambda>st1.
          select_loop elems support mustCalculate newCandidate lm
            (if hc_closer (sl_cs st1 ! e) then st1\<lparr>sl_r := sl_r st1 @ [e]\<rparr> else st1\<lparr>sl_wd := sl_wd st1 @ [e]\<rparr>)))"
  by pat_completeness auto
termination
proof (relation "measure (\<lambda>(elems, support, mc, nc, lm, st). length (sl_w st))", goal_cases)
  case (2 elems support mc nc lm st e st1)
  have "sl_w st1 = butlast (sl_w st)" using decide_closer_w [OF 2(3)] by simp
  then show ?case using 2(1) by (cases "hc_closer (sl_cs st1 ! e)") simp_all
qed simp

declare select_loop.simps [simp del]

text \<open>The result: the selected candidates, the pruned one (when asked for) and the candidate structs with
  their flags, and the new value of \<open>*closerSet\<close>.\<close>

definition SelectNeighbors ::
    "elems \<Rightarrow> bool \<Rightarrow> HnswCandidate list \<Rightarrow> nat \<Rightarrow> HnswSupport \<Rightarrow> bool \<Rightarrow> nat option \<Rightarrow> bool \<Rightarrow> bool \<Rightarrow>
     (nat list \<times> nat option \<times> HnswCandidate list \<times> bool) result" where
  "SelectNeighbors elems baseNull c lm support closerSet newCandidate wantPruned sortCandidates =
     (let w0 = [0..<length c] in
      if length w0 \<le> lm then Inr (w0, None, c, closerSet)
      else let cmp = (if baseNull then CompareCandidateDistances else CompareCandidateDistancesOffset);
               w = (if sortCandidates then list_sort (\<lambda>a b. cmp (c ! a) (c ! b)) w0 else w0)
           in rbind (select_loop elems support (\<not> closerSet) newCandidate lm
                \<lparr>sl_cs = c, sl_w = w, sl_r = [], sl_wd = [], sl_added = [], sl_removedAny = False\<rparr>) (\<lambda>st.
              let k = min (length (sl_wd st)) (lm - length (sl_r st));
                  r = sl_r st @ take k (sl_wd st)
              in if \<not> wantPruned then Inr (r, None, sl_cs st, sortCandidates)
                 else if k < length (sl_wd st) then Inr (r, Some (sl_wd st ! k), sl_cs st, sortCandidates)
                 else if sl_w st = [] then Inl UndefinedBehaviour
                 else Inr (r, Some (hd (sl_w st)), sl_cs st, sortCandidates)))"

section \<open>Connections\<close>

definition AddConnections :: "elems \<Rightarrow> eptr \<Rightarrow> HnswCandidate list \<Rightarrow> nat \<Rightarrow> elems result" where
  "AddConnections elems p neighbors lc =
     rbind (nth_r elems p) (\<lambda>e.
     rbind (HnswGetNeighbors e lc) (\<lambda>a.
       if na_cap a < length (na_items a) + length neighbors then Inl UndefinedBehaviour
       else Inr (elems[p := e\<lparr>he_neighbors := map_option (\<lambda>ns. ns[lc := a\<lparr>na_items := na_items a @ neighbors\<rparr>]) (he_neighbors e)\<rparr>])))"

text \<open>The result: the neighbour array and what \<open>*updateIdx\<close> is set to, if anything.\<close>

definition HnswUpdateConnection ::
    "elems \<Rightarrow> bool \<Rightarrow> HnswNeighborArray \<Rightarrow> eptr \<Rightarrow> float4 \<Rightarrow> nat \<Rightarrow> HnswSupport \<Rightarrow> (HnswNeighborArray \<times> int option) result" where
  "HnswUpdateConnection elems baseNull neighbors newElement distance lm support =
     (let newHc = \<lparr>hc_element = newElement, hc_distance = distance, hc_closer = False\<rparr>; n = length (na_items neighbors) in
      if n < lm then
        if na_cap neighbors \<le> n then Inl UndefinedBehaviour
        else Inr (neighbors\<lparr>na_items := na_items neighbors @ [newHc]\<rparr>, Some (-2))
      else rbind (SelectNeighbors elems baseNull (na_items neighbors @ [newHc]) lm support (na_closerSet neighbors) (Some n) True True)
        (\<lambda>(r, pruned, cs, closerSet').
          let items = take n cs; newHc' = cs ! n;
              neighbors1 = neighbors\<lparr>na_items := items, na_closerSet := closerSet'\<rparr>
          in case pruned of
               None \<Rightarrow> Inr (neighbors1, None)
             | Some pr \<Rightarrow>
                 (case filter (\<lambda>i. hc_element (items ! i) = hc_element (cs ! pr)) [0..<n] of
                    [] \<Rightarrow> Inr (neighbors1, None)
                  | i # _ \<Rightarrow> Inr (neighbors1\<lparr>na_items := items[i := newHc']\<rparr>, Some (int i)))))"

fun RemoveElements :: "elems \<Rightarrow> HnswCandidate list \<Rightarrow> eptr option \<Rightarrow> (HnswCandidate list) result" where
  "RemoveElements elems [] skipElement = Inr []"
| "RemoveElements elems (hc # w) skipElement =
     rbind (nth_r elems (hc_element hc)) (\<lambda>hce.
     rbind (case skipElement of None \<Rightarrow> Inr False
            | Some s \<Rightarrow> rbind (nth_r elems s) (\<lambda>se. Inr (he_blkno hce = he_blkno se \<and> he_offno hce = he_offno se))) (\<lambda>self.
     rbind (RemoveElements elems w skipElement) (\<lambda>w2.
       if self then Inr w2
       else if length (he_heaptids hce) \<noteq> 0 then Inr (hc # w2) else Inr w2)))"

section \<open>Finding the neighbours of an element\<close>

definition search_env_for ::
    "Vector option \<Rightarrow> nat \<Rightarrow> nat \<Rightarrow> Relation option \<Rightarrow> HnswSupport \<Rightarrow> nat \<Rightarrow> bool \<Rightarrow> eptr option \<Rightarrow> search_env" where
  "search_env_for q ef lc index support m inserting skip =
     \<lparr>se_q = q, se_ef = ef, se_lc = lc, se_index = index, se_support = support, se_m = m, se_inserting = inserting,
      se_skipElement = skip\<rparr>"

text \<open>First phase: greedy descent through the given layers.\<close>

fun greedy_descent ::
    "Vector option \<Rightarrow> Relation option \<Rightarrow> HnswSupport \<Rightarrow> nat \<Rightarrow> bool \<Rightarrow> eptr option \<Rightarrow> nat list \<Rightarrow> HnswSearchCandidate list \<Rightarrow> elems \<Rightarrow>
     (HnswSearchCandidate list \<times> elems) result" where
  "greedy_descent q index support m inserting skip [] ep elems = Inr (ep, elems)"
| "greedy_descent q index support m inserting skip (lc # lcs) ep elems =
     rbind (HnswSearchLayer (search_env_for q 1 lc index support m inserting skip) elems ep None None True None) (\<lambda>(w, st).
       greedy_descent q index support m inserting skip lcs w (ss_elems st))"

definition to_candidate :: "HnswSearchCandidate \<Rightarrow> HnswCandidate" where
  "to_candidate sc = \<lparr>hc_element = sc_element sc, hc_distance = f4_of_f8 (sc_distance sc), hc_closer = False\<rparr>"

text \<open>Setting the \<open>closerSet\<close> flag of the array of a layer, which \<open>SelectNeighbors\<close> gets by pointer.\<close>

definition set_closerSet :: "elems \<Rightarrow> eptr \<Rightarrow> nat \<Rightarrow> bool \<Rightarrow> elems" where
  "set_closerSet elems p lc b =
     elems[p := (elems ! p)\<lparr>he_neighbors := map_option (\<lambda>ns. ns[lc := (ns ! lc)\<lparr>na_closerSet := b\<rparr>]) (he_neighbors (elems ! p))\<rparr>]"

fun connect_layers ::
    "bool \<Rightarrow> Vector option \<Rightarrow> nat \<Rightarrow> Relation option \<Rightarrow> HnswSupport \<Rightarrow> nat \<Rightarrow> eptr option \<Rightarrow> eptr \<Rightarrow> nat list \<Rightarrow>
     HnswSearchCandidate list \<Rightarrow> elems \<Rightarrow> elems result" where
  "connect_layers baseNull q ef index support m skip p [] ep elems = Inr elems"
| "connect_layers baseNull q ef index support m skip p (lc # lcs) ep elems =
     rbind (HnswSearchLayer (search_env_for q ef lc index support m True skip) elems ep None None True None) (\<lambda>(w, st).
     rbind (if index = None then Inr (map to_candidate w) else RemoveElements (ss_elems st) (map to_candidate w) skip) (\<lambda>lw.
     rbind (nth_r (ss_elems st) p) (\<lambda>e.
     rbind (HnswGetNeighbors e lc) (\<lambda>a.
     rbind (SelectNeighbors (ss_elems st) baseNull lw (HnswGetLayerM m lc) support (na_closerSet a) None False False)
       (\<lambda>(r, _, cs, closerSet').
     rbind (AddConnections (set_closerSet (ss_elems st) p lc closerSet') p (map (nth cs) r) lc) (\<lambda>elems'.
       connect_layers baseNull q ef index support m skip p lcs w elems'))))))"

definition HnswFindElementNeighbors ::
    "elems \<Rightarrow> bool \<Rightarrow> eptr \<Rightarrow> eptr option \<Rightarrow> Relation option \<Rightarrow> HnswSupport \<Rightarrow> nat \<Rightarrow> nat \<Rightarrow> bool \<Rightarrow> elems result" where
  "HnswFindElementNeighbors elems baseNull element entryPoint index support m efConstruction existing =
     rbind (nth_r elems element) (\<lambda>e.
       let skip = (if existing then Some element else None); q = he_value e; level = he_level e in
       case entryPoint of
         None \<Rightarrow> Inr elems
       | Some entry \<Rightarrow>
           rbind (HnswEntryCandidate elems entry q index support True) (\<lambda>(sc, elems1).
           rbind (nth_r elems1 entry) (\<lambda>ee.
             let entryLevel = he_level ee in
             rbind (greedy_descent q index support m True skip (rev [Suc level..<Suc entryLevel]) [sc] elems1) (\<lambda>(ep, elems2).
               let level' = min level entryLevel; ef = (if existing then Suc efConstruction else efConstruction) in
               connect_layers baseNull q ef index support m skip element (rev [0..<Suc level']) ep elems2))))"

end
