(* ===== verification/HnswSearch.thy ===== *)
theory HnswSearch
  imports HnswUtils
begin

text \<open>
  Correctness of the layer search of \<open>hnswutils.c\<close> (Algorithm 2).  The interface \<open>layer_graph\<close> says what the
  search needs of the layer it walks: pointers denote keys, keys have distances and neighbours, and the two loading
  functions deliver them.  The search is proved correct once against this interface; the in-memory graph and the
  pages on disk provide it.
\<close>

section \<open>Distances as keys of the candidate queues\<close>

definition sc_ok :: "HnswSearchCandidate \<Rightarrow> bool" where
  "sc_ok sc = (\<not> f8_isnan (sc_distance sc))"

definition near_key :: "HnswSearchCandidate \<Rightarrow> int" where
  "near_key sc = - f8_key (sc_distance sc)"

definition far_key :: "HnswSearchCandidate \<Rightarrow> int" where
  "far_key sc = f8_key (sc_distance sc)"

interpretation nearest: comparator CompareNearestCandidates near_key sc_ok
  by unfold_locales (auto simp: CompareNearestCandidates_def near_key_def sc_ok_def f8_lt_key)

interpretation discarded: comparator CompareNearestDiscardedCandidates near_key sc_ok
  by unfold_locales (auto simp: CompareNearestDiscardedCandidates_def near_key_def sc_ok_def f8_lt_key)

interpretation furthest: comparator CompareFurthestCandidates far_key sc_ok
  by unfold_locales (auto simp: CompareFurthestCandidates_def far_key_def sc_ok_def f8_lt_key)

lemma not_lt_key: "\<not> f8_isnan a \<Longrightarrow> \<not> f8_isnan b \<Longrightarrow> \<not> f8_lt a b \<longleftrightarrow> f8_key b \<le> f8_key a"
  by (auto simp: f8_lt_key)

text \<open>Multisets without repetition.\<close>

definition single_ms :: "'a multiset \<Rightarrow> bool" where
  "single_ms M = (\<forall>x. count M x \<le> 1)"

lemma single_ms_add: "single_ms (add_mset x M) \<longleftrightarrow> x \<notin># M \<and> single_ms M"
proof -
  have "count M y \<le> 1" if "\<forall>y. count (add_mset x M) y \<le> 1" for y
    using that [rule_format, of y] by (simp split: if_splits)
  moreover have "x \<notin># M" if "\<forall>y. count (add_mset x M) y \<le> 1"
    using that [rule_format, of x] by (simp add: not_in_iff)
  ultimately show ?thesis by (auto simp: single_ms_def not_in_iff)
qed

lemma single_ms_mset: "single_ms (mset xs) \<longleftrightarrow> distinct xs"
  by (induction xs) (simp_all add: single_ms_add, simp add: single_ms_def)

section \<open>The visited set only grows\<close>

lemma search_step_visited: "search_step env st = Inr (go, st') \<Longrightarrow> ss_v st \<subseteq> ss_v st'"
proof -
  assume a: "search_step env st = Inr (go, st')"
  show ?thesis
  proof (cases go)
    case True
    then obtain c C' us v' where
      "pairingheap_remove_first (ss_C st) = Inr (c, C')"
      and l: "load_neighbors env (st\<lparr>ss_C := C'\<rparr>) (sc_element c) = Inr (us, v')"
      and p: "process_all env us (st\<lparr>ss_C := C', ss_v := v', ss_tuples := map_option (\<lambda>t. t + length us) (ss_tuples st)\<rparr>) = Inr st'"
      using a by (auto simp: search_step_def hnsw_err Let_def split: if_splits)
    show ?thesis using load_neighbors_spec(1) [OF l] process_all_keeps [OF p] by simp
  qed (use a in \<open>auto simp: search_step_def hnsw_err Let_def split: if_splits\<close>)
qed

text \<open>What every iteration preserves, the loop preserves.\<close>

lemma search_loop_closure:
  assumes "search_loop env st = Inr st'" and "\<And>a. R a a" and "\<And>a b c. R a b \<Longrightarrow> R b c \<Longrightarrow> R a c"
    and step: "\<And>a go b. search_step env a = Inr (go, b) \<Longrightarrow> R a b"
  shows "R st st'"
  using assms(1) step
proof (induction env st rule: search_loop.induct)
  case (1 env st)
  show ?case
  proof (cases "pairingheap_is_empty (ss_C st)")
    case False
    then obtain go st1 where s: "search_step env st = Inr (go, st1)" "if go then search_loop env st1 = Inr st' else st' = st1"
      using "1.prems"(1) by (subst (asm) search_loop.simps) (auto simp: hnsw_err split: if_splits)
    have "R st st1" by (rule "1.prems"(2) [OF s(1)])
    then show ?thesis using "1.IH" [OF False s(1) refl] s(2) "1.prems"(2) assms(3) [of st st1 st'] by (cases go) auto
  qed (use "1.prems" assms(2) in \<open>simp add: search_loop.simps [of env st]\<close>)
qed

lemma search_loop_visited: "search_loop env st = Inr st' \<Longrightarrow> ss_v st \<subseteq> ss_v st'"
  by (rule search_loop_closure [where R = "\<lambda>a b. ss_v a \<subseteq> ss_v b"]) (auto dest: search_step_visited)

section \<open>The interface of a layer\<close>

locale layer_graph =
  fixes good :: "search_env \<Rightarrow> elems \<Rightarrow> bool"
    and known :: "search_env \<Rightarrow> elems \<Rightarrow> eptr \<Rightarrow> bool"
    and valid :: "search_env \<Rightarrow> elems \<Rightarrow> visited_key \<Rightarrow> bool"
    and kof :: "search_env \<Rightarrow> elems \<Rightarrow> eptr \<Rightarrow> visited_key"
    and D :: "search_env \<Rightarrow> elems \<Rightarrow> visited_key \<Rightarrow> float8"
    and N :: "search_env \<Rightarrow> elems \<Rightarrow> visited_key \<Rightarrow> visited_key set"
  assumes known_valid: "good env es \<Longrightarrow> known env es p \<Longrightarrow>
      valid env es (kof env es p) \<and> p < length es \<and> se_lc env \<le> he_level (es ! p)"
    and valid_notnan: "good env es \<Longrightarrow> valid env es k \<Longrightarrow> \<not> f8_isnan (D env es k)"
    and valid_nbr: "good env es \<Longrightarrow> valid env es k \<Longrightarrow> k' \<in> N env es k \<Longrightarrow> valid env es k'"
    and visited_key: "good env es \<Longrightarrow> known env es p \<Longrightarrow> visited_key_of es (se_index env = None) p = Inr (kof env es p)"
    and load_nbrs: "good env (ss_elems st) \<Longrightarrow> known env (ss_elems st) c \<Longrightarrow>
      \<exists>us. load_neighbors env st c = Inr (us, ss_v st \<union> N env (ss_elems st) (kof env (ss_elems st) c))"
    and load_unv: "good env (ss_elems st) \<Longrightarrow> valid env (ss_elems st) (ukey u) \<Longrightarrow>
      \<exists>p es'. load_unvisited env st fd u = Inr (p, D env (ss_elems st) (ukey u), es') \<and>
        good env es' \<and> D env es' = D env (ss_elems st) \<and> N env es' = N env (ss_elems st) \<and>
        valid env es' = valid env (ss_elems st) \<and>
        (\<forall>q. known env (ss_elems st) q \<longrightarrow> known env es' q \<and> kof env es' q = kof env (ss_elems st) q) \<and>
        (case p of
           None \<Rightarrow> \<not> ss_wlen st < se_ef env \<and> ss_discarded st = None \<and> \<not> f8_lt (D env (ss_elems st) (ukey u)) fd
         | Some q \<Rightarrow> known env es' q \<and> kof env es' q = ukey u)"
begin

abbreviation ckey :: "search_env \<Rightarrow> elems \<Rightarrow> HnswSearchCandidate \<Rightarrow> visited_key" where
  "ckey env es sc \<equiv> kof env es (sc_element sc)"

text \<open>A candidate is sound when it denotes a key and carries that key's distance.\<close>

definition sound :: "search_env \<Rightarrow> elems \<Rightarrow> HnswSearchCandidate \<Rightarrow> bool" where
  "sound env es sc = (known env es (sc_element sc) \<and> sc_distance sc = D env es (ckey env es sc))"

lemma sound_ok: "good env es \<Longrightarrow> sound env es sc \<Longrightarrow> sc_ok sc"
  using known_valid valid_notnan by (auto simp: sound_def sc_ok_def)

text \<open>The store may grow while known pointers keep their meaning.\<close>

definition extends :: "search_env \<Rightarrow> elems \<Rightarrow> elems \<Rightarrow> bool" where
  "extends env es es' = (good env es' \<and> D env es' = D env es \<and> N env es' = N env es \<and> valid env es' = valid env es \<and>
     (\<forall>q. known env es q \<longrightarrow> known env es' q \<and> kof env es' q = kof env es q))"

lemma extends_sound: "extends env es es' \<Longrightarrow> sound env es sc \<Longrightarrow> sound env es' sc \<and> ckey env es' sc = ckey env es sc"
  by (auto simp: extends_def sound_def)

text \<open>The heaps: both queues hold sound candidates, \<open>W\<close> no key twice.\<close>

definition heaps_ok :: "search_env \<Rightarrow> search_state \<Rightarrow> bool" where
  "heaps_ok env st = (good env (ss_elems st) \<and> nearest.heap_inv (ss_C st) \<and> furthest.heap_inv (ss_W st) \<and>
     (\<forall>h. ss_discarded st = Some h \<longrightarrow> discarded.heap_inv h \<and> (\<forall>x\<in>#ph_mset h. sound env (ss_elems st) x)) \<and>
     (\<forall>x\<in>#ph_mset (ss_C st). sound env (ss_elems st) x) \<and> (\<forall>x\<in>#ph_mset (ss_W st). sound env (ss_elems st) x))"

definition wkeys :: "search_env \<Rightarrow> search_state \<Rightarrow> visited_key multiset" where
  "wkeys env st = image_mset (ckey env (ss_elems st)) (ph_mset (ss_W st))"

definition dkeys :: "search_env \<Rightarrow> search_state \<Rightarrow> visited_key set" where
  "dkeys env st = (case ss_discarded st of None \<Rightarrow> {} | Some h \<Rightarrow> ckey env (ss_elems st) ` set_mset (ph_mset h))"

text \<open>\<open>P\<close> are the keys marked visited but not yet processed, \<open>V0\<close> those visited before the search.\<close>

definition seen_inv :: "search_env \<Rightarrow> visited_key set \<Rightarrow> visited_key set \<Rightarrow> search_state \<Rightarrow> bool" where
  "seen_inv env V0 P st = (single_ms (wkeys env st) \<and> set_mset (wkeys env st) \<inter> P = {} \<and> set_mset (wkeys env st) \<subseteq> ss_v st \<and>
     (\<forall>k \<in> ss_v st - V0 - P. k \<in># wkeys env st \<or>
        (se_ef env \<le> ss_wlen st \<and> (\<forall>x\<in>#ph_mset (ss_W st). far_key x \<le> f8_key (D env (ss_elems st) k)))))"

text \<open>Results that are no longer queued have all their neighbours visited.\<close>

definition closed_inv :: "search_env \<Rightarrow> search_state \<Rightarrow> bool" where
  "closed_inv env st = (\<forall>x\<in>#ph_mset (ss_W st). x \<in># ph_mset (ss_C st) \<or> N env (ss_elems st) (ckey env (ss_elems st) x) \<subseteq> ss_v st)"

definition size_inv :: "search_env \<Rightarrow> nat \<Rightarrow> search_state \<Rightarrow> bool" where
  "size_inv env n0 st = (min (ss_wlen st) (se_ef env) \<le> size (ph_mset (ss_W st)) \<and> ph_mset (ss_W st) \<noteq> {#} \<and>
     (se_skipElement env = None \<longrightarrow>
        (ss_wlen st \<le> se_ef env \<longrightarrow> size (ph_mset (ss_W st)) = ss_wlen st) \<and> size (ph_mset (ss_W st)) \<le> max (se_ef env) n0))"

text \<open>With a discarded heap nothing is lost.\<close>

definition kept_inv :: "search_env \<Rightarrow> visited_key set \<Rightarrow> visited_key set \<Rightarrow> search_state \<Rightarrow> bool" where
  "kept_inv env V0 P st = (ss_discarded st \<noteq> None \<longrightarrow> ss_v st - V0 - P \<subseteq> set_mset (wkeys env st) \<union> dkeys env st)"

definition inv :: "search_env \<Rightarrow> visited_key set \<Rightarrow> nat \<Rightarrow> visited_key set \<Rightarrow> search_state \<Rightarrow> bool" where
  "inv env V0 n0 P st = (heaps_ok env st \<and> seen_inv env V0 P st \<and> closed_inv env st \<and> size_inv env n0 st \<and> kept_inv env V0 P st)"

subsection \<open>Adding and dropping a candidate\<close>

lemma heaps_okD:
  assumes "heaps_ok env st"
  shows "good env (ss_elems st)" "nearest.heap_inv (ss_C st)" "furthest.heap_inv (ss_W st)"
    "\<And>x. x \<in># ph_mset (ss_C st) \<Longrightarrow> sound env (ss_elems st) x"
    "\<And>x. x \<in># ph_mset (ss_W st) \<Longrightarrow> sound env (ss_elems st) x"
    "\<And>h. ss_discarded st = Some h \<Longrightarrow> discarded.heap_inv h"
    "\<And>h x. ss_discarded st = Some h \<Longrightarrow> x \<in># ph_mset h \<Longrightarrow> sound env (ss_elems st) x"
  using assms by (auto simp: heaps_ok_def)

lemma heaps_ok_extends: "heaps_ok env st \<Longrightarrow> extends env (ss_elems st) es' \<Longrightarrow> heaps_ok env (st\<lparr>ss_elems := es'\<rparr>)"
  using extends_sound by (auto simp: heaps_ok_def extends_def)

lemma keys_extends:
  assumes "heaps_ok env st" "extends env (ss_elems st) es'"
  shows "wkeys env (st\<lparr>ss_elems := es'\<rparr>) = wkeys env st" "dkeys env (st\<lparr>ss_elems := es'\<rparr>) = dkeys env st"
proof -
  show "wkeys env (st\<lparr>ss_elems := es'\<rparr>) = wkeys env st"
    using heaps_okD(5) [OF assms(1)] extends_sound [OF assms(2)] by (auto simp: wkeys_def intro!: image_mset_cong)
  show "dkeys env (st\<lparr>ss_elems := es'\<rparr>) = dkeys env st"
    using heaps_okD(7) [OF assms(1)] extends_sound [OF assms(2)]
    by (auto simp: dkeys_def split: option.splits intro!: image_cong)
qed

lemma inv_extends:
  assumes "inv env V0 n0 P st" "extends env (ss_elems st) es'"
  shows "inv env V0 n0 P (st\<lparr>ss_elems := es'\<rparr>)"
proof -
  have h: "heaps_ok env st" using assms(1) by (simp add: inv_def)
  have "closed_inv env (st\<lparr>ss_elems := es'\<rparr>)"
    using assms heaps_okD(5) [OF h] extends_sound [OF assms(2)] by (auto simp: inv_def closed_inv_def extends_def)
  then show ?thesis
    using assms heaps_ok_extends [OF h assms(2)] keys_extends [OF h assms(2)]
    by (simp add: inv_def seen_inv_def size_inv_def kept_inv_def extends_def)
qed

lemma far_key_sound: "sound env es x \<Longrightarrow> far_key x = f8_key (D env es (ckey env es x))"
  by (simp add: sound_def far_key_def)

lemma first_is_max:
  assumes "heaps_ok env st" "pairingheap_first (ss_W st) = Inr f"
  shows "f \<in># ph_mset (ss_W st)" "\<And>x. x \<in># ph_mset (ss_W st) \<Longrightarrow> far_key x \<le> far_key f"
proof -
  obtain h' where r: "pairingheap_remove_first (ss_W st) = Inr (f, h')"
    using assms(2) by (auto simp: ph_first_remove hnsw_err)
  show "f \<in># ph_mset (ss_W st)" using ph_remove_first_mset [OF r] by simp
  show "far_key x \<le> far_key f" if "x \<in># ph_mset (ss_W st)" for x
    using furthest.pq.remove_max [OF heaps_okD(3) [OF assms(1)] r that] .
qed

text \<open>Processing a key that stays out of \<open>W\<close>.\<close>

lemma drop_inv:
  assumes i: "inv env V0 n0 (insert k P) st" and f: "pairingheap_first (ss_W st) = Inr f"
    and k: "valid env (ss_elems st) k" "\<not> (f8_lt (D env (ss_elems st) k) (sc_distance f) \<or> ss_wlen st < se_ef env)"
    and d: "ss_discarded st \<noteq> None \<Longrightarrow> k \<in> dkeys env st"
  shows "inv env V0 n0 P st"
proof -
  have h: "heaps_ok env st" using i by (simp add: inv_def)
  note m = first_is_max [OF h f]
  have "\<not> f8_isnan (sc_distance f)" using sound_ok [OF heaps_okD(1,5) [OF h]] m(1) by (simp add: sc_ok_def h)
  then have "far_key f \<le> f8_key (D env (ss_elems st) k)"
    using k valid_notnan [OF heaps_okD(1) [OF h] k(1)] not_lt_key by (simp add: far_key_def)
  then have "\<forall>x\<in>#ph_mset (ss_W st). far_key x \<le> f8_key (D env (ss_elems st) k)" using m(2) by fastforce
  then have "seen_inv env V0 P st" using i k(2) by (auto simp: inv_def seen_inv_def)
  moreover have "kept_inv env V0 P st" using i d by (auto simp: inv_def kept_inv_def)
  ultimately show ?thesis using i by (simp add: inv_def)
qed

lemma discard_inv:
  assumes i: "inv env V0 n0 P st" and s: "sound env (ss_elems st) e"
  shows "inv env V0 n0 P (discard e st)"
    "ss_discarded st \<noteq> None \<Longrightarrow> dkeys env (discard e st) = insert (ckey env (ss_elems st) e) (dkeys env st)"
proof -
  have h: "heaps_ok env st" using i by (simp add: inv_def)
  have "sc_ok e" using sound_ok [OF heaps_okD(1) [OF h] s] .
  then have "heaps_ok env (discard e st)"
    using h s discarded.heap_inv_add by (auto simp: heaps_ok_def discard_def)
  moreover have w: "wkeys env (discard e st) = wkeys env st" by (simp add: wkeys_def)
  moreover have dk: "ss_discarded st \<noteq> None \<Longrightarrow> dkeys env (discard e st) = insert (ckey env (ss_elems st) e) (dkeys env st)"
    by (auto simp: dkeys_def discard_def)
  moreover have "ss_discarded (discard e st) \<noteq> None \<longleftrightarrow> ss_discarded st \<noteq> None" by (simp add: discard_def)
  ultimately show "inv env V0 n0 P (discard e st)"
    using i by (auto simp: inv_def seen_inv_def closed_inv_def size_inv_def kept_inv_def)
  show "ss_discarded st \<noteq> None \<Longrightarrow> dkeys env (discard e st) = insert (ckey env (ss_elems st) e) (dkeys env st)"
    by (rule dk)
qed

text \<open>The two halves of \<open>add_candidate\<close>.\<close>

abbreviation pushed :: "HnswSearchCandidate \<Rightarrow> nat \<Rightarrow> search_state \<Rightarrow> search_state" where
  "pushed e n st \<equiv> st\<lparr>ss_C := pairingheap_add (ss_C st) e, ss_W := pairingheap_add (ss_W st) e, ss_wlen := n\<rparr>"

lemma push_inv:
  assumes i: "inv env V0 n0 (insert k P) st" and f: "pairingheap_first (ss_W st) = Inr f"
    and s: "sound env (ss_elems st) e" "ckey env (ss_elems st) e = k" "k \<in> ss_v st" "k \<notin> P"
    and d: "f8_lt (sc_distance e) (sc_distance f) \<or> ss_wlen st < se_ef env" and n: "ss_wlen st \<le> n"
  shows "heaps_ok env (pushed e n st)" "seen_inv env V0 P (pushed e n st)" "closed_inv env (pushed e n st)"
    "kept_inv env V0 P (pushed e n st)"
proof -
  have h: "heaps_ok env st" using i by (simp add: inv_def)
  note m = first_is_max [OF h f]
  have ok: "sc_ok e" "sc_ok f" using sound_ok [OF heaps_okD(1) [OF h]] s(1) heaps_okD(5) [OF h] m(1) by auto
  show "heaps_ok env (pushed e n st)"
    using h s(1) ok nearest.heap_inv_add furthest.heap_inv_add by (auto simp: heaps_ok_def)
  have w: "wkeys env (pushed e n st) = add_mset k (wkeys env st)" using s(2) by (simp add: wkeys_def)
  have kn: "k \<notin># wkeys env st" using i by (auto simp: inv_def seen_inv_def)
  have far: "far_key e \<le> f8_key (D env (ss_elems st) k')" if "se_ef env \<le> ss_wlen st"
      "\<forall>x\<in>#ph_mset (ss_W st). far_key x \<le> f8_key (D env (ss_elems st) k')" for k'
  proof -
    have "f8_lt (sc_distance e) (sc_distance f)" using d that(1) by simp
    then have "far_key e < far_key f" by (simp add: f8_lt_key far_key_def)
    then show ?thesis using that(2) m(1) by (meson less_imp_le order_trans)
  qed
  have old: "single_ms (wkeys env st)" "set_mset (wkeys env st) \<inter> insert k P = {}" "set_mset (wkeys env st) \<subseteq> ss_v st"
    "\<And>k'. k' \<in> ss_v st - V0 - insert k P \<Longrightarrow> k' \<in># wkeys env st \<or>
      (se_ef env \<le> ss_wlen st \<and> (\<forall>x\<in>#ph_mset (ss_W st). far_key x \<le> f8_key (D env (ss_elems st) k')))"
    using i by (auto simp: inv_def seen_inv_def)
  have "k' \<in># wkeys env (pushed e n st) \<or> (se_ef env \<le> n \<and>
      (\<forall>x\<in>#ph_mset (ss_W (pushed e n st)). far_key x \<le> f8_key (D env (ss_elems st) k')))"
    if "k' \<in> ss_v st - V0 - P" for k'
  proof (cases "k' = k")
    case False
    then show ?thesis using old(4) [of k'] that far [of k'] n w by auto
  qed (simp add: w)
  then show "seen_inv env V0 P (pushed e n st)"
    unfolding seen_inv_def w using old(1,2,3) kn s(3,4) by (simp add: single_ms_add w)
  show "closed_inv env (pushed e n st)" using i by (auto simp: inv_def closed_inv_def)
  have "dkeys env (pushed e n st) = dkeys env st" by (simp add: dkeys_def split: option.split)
  then show "kept_inv env V0 P (pushed e n st)" using i w by (auto simp: inv_def kept_inv_def)
qed

lemma pop_inv:
  assumes h: "heaps_ok env st" and sn: "seen_inv env V0 P st" and c: "closed_inv env st" and k: "kept_inv env V0 P st"
    and r: "pairingheap_remove_first (ss_W st) = Inr (d, W')" and ef: "se_ef env \<le> ss_wlen st"
  defines "st' \<equiv> discard d (st\<lparr>ss_W := W'\<rparr>)"
  shows "heaps_ok env st'" "seen_inv env V0 P st'" "closed_inv env st'" "kept_inv env V0 P st'"
proof -
  have m: "ph_mset (ss_W st) = add_mset d (ph_mset W')" using ph_remove_first_mset [OF r] .
  have sd: "sound env (ss_elems st) d" using heaps_okD(5) [OF h] m by simp
  have okd: "sc_ok d" using sound_ok [OF heaps_okD(1) [OF h] sd] .
  show "heaps_ok env st'"
    using h sd okd m furthest.heap_inv_remove [OF heaps_okD(3) [OF h] r] discarded.heap_inv_add
    by (auto simp: heaps_ok_def st'_def discard_def)
  let ?kd = "ckey env (ss_elems st) d"
  have w: "wkeys env st = add_mset ?kd (wkeys env st')" using m by (simp add: wkeys_def st'_def)
  have mx: "far_key x \<le> f8_key (D env (ss_elems st) ?kd)" if "x \<in># ph_mset W'" for x
    using furthest.pq.remove_rest_le [OF heaps_okD(3) [OF h] r that] far_key_sound [OF sd] by simp
  have old: "single_ms (wkeys env st)" "set_mset (wkeys env st) \<inter> P = {}" "set_mset (wkeys env st) \<subseteq> ss_v st"
    "\<And>k'. k' \<in> ss_v st - V0 - P \<Longrightarrow> k' \<in># wkeys env st \<or>
      (se_ef env \<le> ss_wlen st \<and> (\<forall>x\<in>#ph_mset (ss_W st). far_key x \<le> f8_key (D env (ss_elems st) k')))"
    using sn by (auto simp: seen_inv_def)
  have "k' \<in># wkeys env st' \<or> (\<forall>x\<in>#ph_mset W'. far_key x \<le> f8_key (D env (ss_elems st) k'))"
    if "k' \<in> ss_v st - V0 - P" for k'
    using old(4) [OF that] mx m w by auto
  then show "seen_inv env V0 P st'"
    unfolding seen_inv_def using old(1,2,3) w ef by (auto simp: st'_def single_ms_add)
  show "closed_inv env st'" using c m by (auto simp: closed_inv_def st'_def)
  have "ss_discarded st \<noteq> None \<Longrightarrow> dkeys env st' = insert ?kd (dkeys env st)"
    by (auto simp: dkeys_def st'_def discard_def)
  moreover have "ss_discarded st' \<noteq> None \<longleftrightarrow> ss_discarded st \<noteq> None" "ss_v st' = ss_v st"
    by (simp_all add: st'_def discard_def)
  ultimately show "kept_inv env V0 P st'" using k w by (auto simp: kept_inv_def)
qed

lemma add_candidate_inv:
  assumes i: "inv env V0 n0 (insert k P) st" and f: "pairingheap_first (ss_W st) = Inr f"
    and s: "sound env (ss_elems st) e" "ckey env (ss_elems st) e = k" "k \<in> ss_v st" "k \<notin> P"
    and d: "f8_lt (sc_distance e) (sc_distance f) \<or> ss_wlen st < se_ef env"
  shows "\<exists>st'. add_candidate env e el st = Inr st' \<and> inv env V0 n0 P st' \<and>
    ph_mset (ss_C st') = add_mset e (ph_mset (ss_C st))"
proof -
  note push = push_inv [OF i f s d]
  have sz: "size_inv env n0 st" using i by (simp add: inv_def)
  show ?thesis
  proof (cases "CountElement (se_skipElement env) el")
    case False
    then have "se_skipElement env \<noteq> None" by (cases "se_skipElement env") (simp_all add: CountElement_def)
    then have "inv env V0 n0 P (pushed e (ss_wlen st) st)"
      using push [OF order_refl] sz by (auto simp: inv_def size_inv_def)
    then show ?thesis using False by (simp add: add_candidate_def Let_def)
  next
    case counted: True
    let ?st = "pushed e (Suc (ss_wlen st)) st"
    have p: "heaps_ok env ?st" "seen_inv env V0 P ?st" "closed_inv env ?st" "kept_inv env V0 P ?st"
      using push [of "Suc (ss_wlen st)"] by simp_all
    show ?thesis
    proof (cases "Suc (ss_wlen st) > se_ef env")
      case False
      then have "size_inv env n0 ?st" using sz by (auto simp: size_inv_def)
      then show ?thesis using counted False p by (auto simp: add_candidate_def Let_def inv_def)
    next
      case True
      have "ph_mset (ss_W ?st) \<noteq> {#}" by simp
      then obtain x W' where r: "pairingheap_remove_first (ss_W ?st) = Inr (x, W')" using ph_remove_first_total by blast
      have m: "add_mset e (ph_mset (ss_W st)) = add_mset x (ph_mset W')" using ph_remove_first_mset [OF r] by simp
      then have "size (ph_mset (ss_W st)) = size (ph_mset W')" by (metis add_left_cancel size_add_mset Suc_inject)
      then have "size_inv env n0 (discard x (?st\<lparr>ss_W := W'\<rparr>))"
        using sz True by (auto simp: size_inv_def)
      moreover note pop_inv [OF p r]
      ultimately have "inv env V0 n0 P (discard x (?st\<lparr>ss_W := W'\<rparr>))" using True by (simp add: inv_def)
      then show ?thesis using counted True r by (simp add: add_candidate_def Let_def)
    qed
  qed
qed

subsection \<open>One neighbour, all neighbours, one iteration\<close>

definition ext :: "search_env \<Rightarrow> search_state \<Rightarrow> search_state \<Rightarrow> bool" where
  "ext env st st' = (extends env (ss_elems st) (ss_elems st') \<and> ss_v st' = ss_v st)"

lemma extends_trans: "extends env a b \<Longrightarrow> extends env b c \<Longrightarrow> extends env a c"
  by (auto simp: extends_def)

lemma extends_refl: "good env es \<Longrightarrow> extends env es es"
  by (simp add: extends_def)

text \<open>Every candidate in \<open>C\<close> lies in \<open>R\<close>.\<close>

definition cand_in :: "search_env \<Rightarrow> visited_key set \<Rightarrow> search_state \<Rightarrow> bool" where
  "cand_in env R st = (\<forall>x\<in>#ph_mset (ss_C st). ckey env (ss_elems st) x \<in> R)"

lemma cand_in_extends:
  "cand_in env R st \<Longrightarrow> heaps_ok env st \<Longrightarrow> extends env (ss_elems st) es' \<Longrightarrow> cand_in env R (st\<lparr>ss_elems := es'\<rparr>)"
  using extends_sound by (auto simp: cand_in_def heaps_ok_def)

lemma process_unvisited_inv:
  assumes i: "inv env V0 n0 (insert (ukey u) P) st" and R: "cand_in env R st"
    and u: "valid env (ss_elems st) (ukey u)" "ukey u \<in> ss_v st" "ukey u \<notin> P" "ukey u \<in> R"
  shows "\<exists>st'. process_unvisited env st u = Inr st' \<and> inv env V0 n0 P st' \<and> ext env st st' \<and> cand_in env R st'"
proof -
  have h: "heaps_ok env st" and ne: "ph_mset (ss_W st) \<noteq> {#}" using i by (simp_all add: inv_def size_inv_def)
  obtain f where f: "pairingheap_first (ss_W st) = Inr f"
    using ph_remove_first_total [OF ne] by (auto simp: ph_first_remove)
  let ?d = "D env (ss_elems st) (ukey u)"
  obtain p es' where l: "load_unvisited env st (sc_distance f) u = Inr (p, ?d, es')"
    and e: "extends env (ss_elems st) es'"
    and p: "case p of None \<Rightarrow> \<not> ss_wlen st < se_ef env \<and> ss_discarded st = None \<and> \<not> f8_lt ?d (sc_distance f)
         | Some q \<Rightarrow> known env es' q \<and> kof env es' q = ukey u"
    using load_unv [OF heaps_okD(1) [OF h] u(1), of "sc_distance f"] by (auto simp: extends_def)
  let ?st = "st\<lparr>ss_elems := es'\<rparr>"
  have i': "inv env V0 n0 (insert (ukey u) P) ?st" by (rule inv_extends [OF i e])
  have f': "pairingheap_first (ss_W ?st) = Inr f" using f by simp
  have D': "D env es' = D env (ss_elems st)" "valid env es' (ukey u)" using e u(1) by (auto simp: extends_def)
  have x: "ext env st ?st" "cand_in env R ?st" using e cand_in_extends [OF R h e] by (auto simp: ext_def)
  show ?thesis
  proof (cases p)
    case None
    have "inv env V0 n0 P ?st"
      by (rule drop_inv [OF i' f']) (use None p D' in auto)
    then show ?thesis using None f l x by (auto simp: process_unvisited_def Let_def)
  next
    case (Some q)
    let ?e = "HnswInitSearchCandidate q ?d"
    have s: "sound env (ss_elems ?st) ?e" "ckey env (ss_elems ?st) ?e = ukey u"
      using p Some D' by (auto simp: sound_def HnswInitSearchCandidate_def)
    have q: "q < length es'" "\<not> he_level (es' ! q) < se_lc env"
      using known_valid [of env es' q] p Some e by (auto simp: extends_def)
    show ?thesis
    proof (cases "f8_lt ?d (sc_distance f) \<or> ss_wlen st < se_ef env")
      case False
      have f2: "pairingheap_first (ss_W (discard ?e ?st)) = Inr f" using f by simp
      have "inv env V0 n0 P (discard ?e ?st)"
        by (rule drop_inv [OF discard_inv(1) [OF i' s(1)] f2])
           (use D' False s(2) discard_inv(2) [OF i' s(1)] in \<open>auto simp: discard_def\<close>)
      moreover have "ext env st (discard ?e ?st)" "cand_in env R (discard ?e ?st)" using x by (auto simp: ext_def cand_in_def)
      ultimately show ?thesis using Some f l False by (auto simp: process_unvisited_def Let_def)
    next
      case True
      have d: "f8_lt (sc_distance ?e) (sc_distance f) \<or> ss_wlen ?st < se_ef env"
        using True by (simp add: HnswInitSearchCandidate_def)
      obtain st' where a: "add_candidate env ?e (es' ! q) ?st = Inr st'" "inv env V0 n0 P st'"
          "ph_mset (ss_C st') = add_mset ?e (ph_mset (ss_C ?st))"
        using add_candidate_inv [OF i' f' s _ u(3) d] u(2) by auto
      have "ext env st st'" "cand_in env R st'"
        using add_candidate_keeps [OF a(1)] e x(2) a(3) s(2) u(4) by (auto simp: ext_def cand_in_def)
      then show ?thesis using Some f l True q a by (auto simp: process_unvisited_def Let_def)
    qed
  qed
qed

lemma process_all_inv:
  assumes "inv env V0 n0 (ukey ` set us) st" "cand_in env R st" "distinct (map ukey us)"
    and "\<And>u. u \<in> set us \<Longrightarrow> valid env (ss_elems st) (ukey u) \<and> ukey u \<in> ss_v st \<and> ukey u \<in> R"
  shows "\<exists>st'. process_all env us st = Inr st' \<and> inv env V0 n0 {} st' \<and> ext env st st' \<and> cand_in env R st'"
  using assms
proof (induction us arbitrary: st)
  case Nil
  then show ?case by (auto simp: ext_def inv_def heaps_ok_def intro: extends_refl)
next
  case (Cons u us)
  obtain st1 where p: "process_unvisited env st u = Inr st1" "inv env V0 n0 (ukey ` set us) st1" "ext env st st1"
      "cand_in env R st1"
    using process_unvisited_inv [of env V0 n0 u "ukey ` set us" st R] Cons.prems by auto
  obtain st2 where "process_all env us st1 = Inr st2" "inv env V0 n0 {} st2" "ext env st1 st2" "cand_in env R st2"
    using Cons.IH [OF p(2,4)] Cons.prems p(3) by (auto simp: ext_def extends_def)
  then show ?case using p by (auto simp: ext_def intro: extends_trans)
qed

text \<open>The state after the loop.\<close>

definition final :: "search_env \<Rightarrow> visited_key set \<Rightarrow> nat \<Rightarrow> search_state \<Rightarrow> bool" where
  "final env V0 n0 st = (heaps_ok env st \<and> seen_inv env V0 {} st \<and> size_inv env n0 st \<and> kept_inv env V0 {} st \<and>
     (\<forall>x\<in>#ph_mset (ss_W st). N env (ss_elems st) (ckey env (ss_elems st) x) \<subseteq> ss_v st))"

definition closed_set :: "search_env \<Rightarrow> elems \<Rightarrow> visited_key set \<Rightarrow> bool" where
  "closed_set env es R = (\<forall>k\<in>R. N env es k \<subseteq> R)"

definition within :: "search_env \<Rightarrow> visited_key set \<Rightarrow> visited_key set \<Rightarrow> search_state \<Rightarrow> bool" where
  "within env V0 R st = (V0 \<subseteq> ss_v st \<and> ss_v st - V0 \<subseteq> R \<and> cand_in env R st)"

lemma search_step_inv:
  assumes i: "inv env V0 n0 {} st" and ne: "ph_mset (ss_C st) \<noteq> {#}"
    and R: "within env V0 R st" "closed_set env (ss_elems st) R"
  shows "\<exists>go st'. search_step env st = Inr (go, st') \<and> extends env (ss_elems st) (ss_elems st') \<and> within env V0 R st' \<and>
    (if go then inv env V0 n0 {} st' else final env V0 n0 st')"
proof -
  have h: "heaps_ok env st" and w: "ph_mset (ss_W st) \<noteq> {#}" using i by (simp_all add: inv_def size_inv_def)
  obtain c C' where c: "pairingheap_remove_first (ss_C st) = Inr (c, C')" using ph_remove_first_total [OF ne] by blast
  obtain f where f: "pairingheap_first (ss_W st) = Inr f"
    using ph_remove_first_total [OF w] by (auto simp: ph_first_remove)
  let ?es = "ss_elems st" and ?st1 = "st\<lparr>ss_C := C'\<rparr>"
  have mc: "ph_mset (ss_C st) = add_mset c (ph_mset C')" using ph_remove_first_mset [OF c] .
  have sc: "sound env ?es c" using heaps_okD(4) [OF h] mc by simp
  have h1: "heaps_ok env ?st1"
    using h mc nearest.heap_inv_remove [OF heaps_okD(2) [OF h] c] by (auto simp: heaps_ok_def)
  have keys: "wkeys env ?st1 = wkeys env st" "dkeys env ?st1 = dkeys env st"
    by (simp_all add: wkeys_def dkeys_def split: option.split)
  show ?thesis
  proof (cases "f8_lt (sc_distance f) (sc_distance c)")
    case True
    have "x \<notin># ph_mset (ss_C st)" if x: "x \<in># ph_mset (ss_W st)" for x
    proof
      assume "x \<in># ph_mset (ss_C st)"
      then have "near_key x \<le> near_key c" using nearest.pq.remove_max [OF heaps_okD(2) [OF h] c] by blast
      moreover have "far_key x \<le> far_key f" using first_is_max(2) [OF h f x] .
      moreover have "far_key f < far_key c" using True by (simp add: f8_lt_key far_key_def)
      ultimately show False by (simp add: near_key_def far_key_def)
    qed
    then have "final env V0 n0 ?st1"
      using i h1 keys by (auto simp: final_def inv_def seen_inv_def size_inv_def kept_inv_def closed_inv_def)
    moreover have "within env V0 R ?st1" using R mc by (auto simp: within_def cand_in_def)
    ultimately show ?thesis
      using c f True extends_refl [OF heaps_okD(1) [OF h]]
      by (intro exI [of _ False] exI [of _ ?st1]) (simp add: search_step_def Let_def)
  next
    case False
    let ?v = "ss_v st \<union> N env ?es (ckey env ?es c)"
    have g: "good env (ss_elems ?st1)" "known env (ss_elems ?st1) (sc_element c)"
      using heaps_okD(1) [OF h] sc by (auto simp: sound_def)
    obtain us where l: "load_neighbors env ?st1 (sc_element c) = Inr (us, ?v)" using load_nbrs [OF g] by auto
    let ?st2 = "?st1\<lparr>ss_v := ?v, ss_tuples := map_option (\<lambda>t. t + length us) (ss_tuples ?st1)\<rparr>"
    note us = load_neighbors_spec(3,4) [OF l]
    have ck: "ckey env ?es c \<in> R" using R(1) mc by (auto simp: within_def cand_in_def)
    have NR: "N env ?es (ckey env ?es c) \<subseteq> R" using R(2) ck by (auto simp: closed_set_def)
    have keys2: "wkeys env ?st2 = wkeys env st" "dkeys env ?st2 = dkeys env st"
      by (simp_all add: wkeys_def dkeys_def split: option.split)
    have P: "ukey ` set us = ?v - ss_v st" using us(1) by simp
    have hs: "heaps_ok env ?st2" using h1 by (simp add: heaps_ok_def)
    have o: "seen_inv env V0 {} st" "closed_inv env st" "size_inv env n0 st" "kept_inv env V0 {} st"
      using i by (simp_all add: inv_def)
    have "seen_inv env V0 (?v - ss_v st) ?st2" "kept_inv env V0 (?v - ss_v st) ?st2"
      using o(1,4) keys2 by (auto simp: seen_inv_def kept_inv_def)
    moreover have "closed_inv env ?st2" using o(2) mc by (auto simp: closed_inv_def)
    ultimately have i2: "inv env V0 n0 (ukey ` set us) ?st2"
      unfolding P using hs o(3) by (auto simp: inv_def size_inv_def)
    have R2: "cand_in env R ?st2" using R(1) mc by (auto simp: within_def cand_in_def)
    have val: "valid env (ss_elems ?st2) (ukey u) \<and> ukey u \<in> ss_v ?st2 \<and> ukey u \<in> R" if "u \<in> set us" for u
    proof -
      have "ukey u \<in> ?v - ss_v st" using that P by blast
      then have "ukey u \<in> N env ?es (ckey env ?es c)" by auto
      moreover have "valid env ?es (ckey env ?es c)" using known_valid g by auto
      ultimately show ?thesis using valid_nbr [OF heaps_okD(1) [OF h]] NR by auto
    qed
    obtain st3 where p: "process_all env us ?st2 = Inr st3" "inv env V0 n0 {} st3" "ext env ?st2 st3" "cand_in env R st3"
      using process_all_inv [OF i2 R2 us(2) val] by blast
    have "within env V0 R st3" using R(1) p(3,4) NR by (auto simp: within_def ext_def)
    moreover have "extends env ?es (ss_elems st3)" using p(3) by (simp add: ext_def)
    ultimately show ?thesis
      using c f False l p(1,2) by (intro exI [of _ True] exI [of _ st3]) (simp add: search_step_def Let_def)
  qed
qed

lemma search_loop_inv:
  assumes "inv env V0 n0 {} st" "within env V0 R st" "closed_set env (ss_elems st) R"
  shows "\<exists>st'. search_loop env st = Inr st' \<and> final env V0 n0 st' \<and> extends env (ss_elems st) (ss_elems st') \<and> within env V0 R st'"
  using assms
proof (induction env st rule: search_loop.induct)
  case (1 env st)
  have h: "heaps_ok env st" using "1.prems" by (simp add: inv_def)
  show ?case
  proof (cases "pairingheap_is_empty (ss_C st)")
    case True
    then have "final env V0 n0 st" using "1.prems"(1) by (auto simp: final_def inv_def closed_inv_def ph_is_empty)
    then show ?thesis
      using True "1.prems"(2) extends_refl [OF heaps_okD(1) [OF h]] by (simp add: search_loop.simps [of env st])
  next
    case False
    then obtain go st' where s: "search_step env st = Inr (go, st')" "extends env (ss_elems st) (ss_elems st')"
        "within env V0 R st'" "if go then inv env V0 n0 {} st' else final env V0 n0 st'"
      using search_step_inv [OF "1.prems"(1) _ "1.prems"(2,3)] by (auto simp: ph_is_empty)
    show ?thesis
    proof (cases go)
      case True
      have "closed_set env (ss_elems st') R" using s(2) "1.prems"(3) by (simp add: extends_def closed_set_def)
      then obtain st2 where "search_loop env st' = Inr st2" "final env V0 n0 st2" "extends env (ss_elems st') (ss_elems st2)"
          "within env V0 R st2"
        using "1.IH" [OF False s(1) refl True] s(3,4) True by auto
      then show ?thesis
        using s(1,2) True False by (auto simp: search_loop.simps [of env st] intro: extends_trans)
    qed (use s False in \<open>auto simp: search_loop.simps [of env st]\<close>)
  qed
qed

subsection \<open>The entry points and the whole search\<close>

definition entry_inv :: "search_env \<Rightarrow> visited_key set \<Rightarrow> search_state \<Rightarrow> bool" where
  "entry_inv env V0 st = (heaps_ok env st \<and> ph_mset (ss_C st) = ph_mset (ss_W st) \<and> single_ms (wkeys env st) \<and>
     set_mset (wkeys env st) \<subseteq> ss_v st \<and> ss_v st - V0 \<subseteq> set_mset (wkeys env st) \<and> ss_wlen st \<le> size (ph_mset (ss_W st)) \<and>
     (se_skipElement env = None \<longrightarrow> ss_wlen st = size (ph_mset (ss_W st))))"

lemma entry_step:
  assumes e: "entry_inv env V0 st" and s: "sound env (ss_elems st) sc" and k: "ckey env (ss_elems st) sc \<notin># wkeys env st"
    and iv: "\<not> iv \<Longrightarrow> ckey env (ss_elems st) sc \<in> ss_v st"
  shows "\<exists>st1. add_entries env iv (sc # ep) st = add_entries env iv ep st1 \<and> entry_inv env V0 st1 \<and> ss_elems st1 = ss_elems st \<and>
    ph_mset (ss_W st1) = add_mset sc (ph_mset (ss_W st)) \<and> ss_discarded st1 = ss_discarded st \<and>
    ss_v st1 = (if iv then insert (ckey env (ss_elems st) sc) (ss_v st) else ss_v st)"
proof -
  have h: "heaps_ok env st" using e by (simp add: entry_inv_def)
  let ?es = "ss_elems st" and ?k = "ckey env (ss_elems st) sc"
  let ?v = "if iv then insert ?k (ss_v st) else ss_v st"
  let ?n = "if CountElement (se_skipElement env) (?es ! sc_element sc) then Suc (ss_wlen st) else ss_wlen st"
  let ?t = "if iv then map_option Suc (ss_tuples st) else ss_tuples st"
  let ?st = "st\<lparr>ss_v := ?v, ss_tuples := ?t, ss_C := pairingheap_add (ss_C st) sc, ss_W := pairingheap_add (ss_W st) sc, ss_wlen := ?n\<rparr>"
  have kn: "known env ?es (sc_element sc)" "sc_element sc < length ?es"
    using s known_valid [OF heaps_okD(1) [OF h]] by (auto simp: sound_def)
  have ok: "sc_ok sc" using sound_ok [OF heaps_okD(1) [OF h] s] .
  have "add_entries env iv (sc # ep) st = add_entries env iv ep ?st"
    using kn visited_key [OF heaps_okD(1) [OF h] kn(1)] by (cases iv) (simp_all add: AddToVisited_def)
  moreover have "heaps_ok env ?st"
    using h s ok nearest.heap_inv_add furthest.heap_inv_add by (auto simp: heaps_ok_def)
  moreover have "wkeys env ?st = add_mset ?k (wkeys env st)" by (simp add: wkeys_def)
  moreover have "se_skipElement env = None \<Longrightarrow> CountElement (se_skipElement env) (?es ! sc_element sc)"
    by (simp add: CountElement_def)
  ultimately have "entry_inv env V0 ?st"
    using e k iv by (auto simp: entry_inv_def single_ms_add)
  with \<open>add_entries env iv (sc # ep) st = add_entries env iv ep ?st\<close> show ?thesis by (intro exI [of _ ?st]) simp
qed

lemma add_entries_inv:
  assumes "entry_inv env V0 st" "\<And>sc. sc \<in> set ep \<Longrightarrow> sound env (ss_elems st) sc"
    and "distinct (map (ckey env (ss_elems st)) ep)" "ckey env (ss_elems st) ` set ep \<inter> set_mset (wkeys env st) = {}"
    and "\<not> iv \<Longrightarrow> ckey env (ss_elems st) ` set ep \<subseteq> ss_v st"
  shows "\<exists>st'. add_entries env iv ep st = Inr st' \<and> entry_inv env V0 st' \<and> ss_elems st' = ss_elems st \<and>
    ph_mset (ss_W st') = mset ep + ph_mset (ss_W st) \<and> ss_discarded st' = ss_discarded st \<and>
    ss_v st' = (if iv then ckey env (ss_elems st) ` set ep \<union> ss_v st else ss_v st)"
  using assms
proof (induction ep arbitrary: st)
  case (Cons sc ep)
  have a: "sound env (ss_elems st) sc" "ckey env (ss_elems st) sc \<notin># wkeys env st"
      "\<not> iv \<Longrightarrow> ckey env (ss_elems st) sc \<in> ss_v st" using Cons.prems by auto
  obtain st1 where 1: "add_entries env iv (sc # ep) st = add_entries env iv ep st1" "entry_inv env V0 st1"
      "ss_elems st1 = ss_elems st" "ph_mset (ss_W st1) = add_mset sc (ph_mset (ss_W st))"
      "ss_discarded st1 = ss_discarded st"
      "ss_v st1 = (if iv then insert (ckey env (ss_elems st) sc) (ss_v st) else ss_v st)"
    using entry_step [OF Cons.prems(1) a, where ep = ep] by blast
  have w: "wkeys env st1 = add_mset (ckey env (ss_elems st) sc) (wkeys env st)" using 1(3,4) by (simp add: wkeys_def)
  have "\<exists>st'. add_entries env iv ep st1 = Inr st' \<and> entry_inv env V0 st' \<and> ss_elems st' = ss_elems st1 \<and>
    ph_mset (ss_W st') = mset ep + ph_mset (ss_W st1) \<and> ss_discarded st' = ss_discarded st1 \<and>
    ss_v st' = (if iv then ckey env (ss_elems st1) ` set ep \<union> ss_v st1 else ss_v st1)"
    using Cons.prems 1(2,3,6) w by (intro Cons.IH) auto
  then show ?case using 1 by (cases iv) auto
qed simp

lemma entry_inv_inv:
  assumes "entry_inv env V0 st" "ph_mset (ss_W st) \<noteq> {#}"
  shows "inv env V0 (size (ph_mset (ss_W st))) {} st"
  using assms
  by (auto simp: inv_def entry_inv_def seen_inv_def closed_inv_def size_inv_def kept_inv_def)

text \<open>What the caller gets: \<open>V0\<close> are the keys visited before the call.\<close>

definition result_ok :: "search_env \<Rightarrow> visited_key set \<Rightarrow> nat \<Rightarrow> HnswSearchCandidate list \<Rightarrow> search_state \<Rightarrow> bool" where
  "result_ok env V0 n0 w st =
     (w \<noteq> [] \<and> (\<forall>x\<in>set w. sound env (ss_elems st) x) \<and> sorted_wrt (\<lambda>a b. far_key b \<le> far_key a) w \<and>
      distinct (map (ckey env (ss_elems st)) w) \<and> ckey env (ss_elems st) ` set w \<subseteq> ss_v st \<and> (se_skipElement env = None \<longrightarrow> length w \<le> max (se_ef env) n0) \<and>
      (\<forall>x\<in>set w. N env (ss_elems st) (ckey env (ss_elems st) x) \<subseteq> ss_v st) \<and>
      (\<forall>k\<in>ss_v st - V0. k \<in> ckey env (ss_elems st) ` set w \<or>
         (se_ef env \<le> length w \<and> (\<forall>x\<in>set w. far_key x \<le> f8_key (D env (ss_elems st) k)))) \<and>
      (ss_discarded st \<noteq> None \<longrightarrow> ss_v st - V0 \<subseteq> ckey env (ss_elems st) ` set w \<union> dkeys env st))"

lemma final_result:
  assumes f: "final env V0 n0 st"
  shows "result_ok env V0 n0 (drain (ss_W st)) st"
proof -
  have h: "heaps_ok env st" and sz: "size_inv env n0 st" and sn: "seen_inv env V0 {} st" and k: "kept_inv env V0 {} st"
    using f by (simp_all add: final_def)
  note m = drain_mset [of "ss_W st"]
  have set: "set (drain (ss_W st)) = set_mset (ph_mset (ss_W st))" using m by (metis set_mset_mset)
  have len: "length (drain (ss_W st)) = size (ph_mset (ss_W st))" using m by (metis size_mset)
  have wk: "wkeys env st = mset (map (ckey env (ss_elems st)) (drain (ss_W st)))" using m by (simp add: wkeys_def)
  have ne: "drain (ss_W st) \<noteq> []" using sz len by (auto simp: size_inv_def)
  have srt: "sorted_wrt (\<lambda>a b. far_key b \<le> far_key a) (drain (ss_W st))" using furthest.drain_sorted [OF heaps_okD(3) [OF h]] .
  have dist: "distinct (map (ckey env (ss_elems st)) (drain (ss_W st)))"
    using sn by (simp only: seen_inv_def wk single_ms_mset)
  have see: "k \<in> ckey env (ss_elems st) ` set (drain (ss_W st)) \<or>
      (se_ef env \<le> length (drain (ss_W st)) \<and> (\<forall>x\<in>set (drain (ss_W st)). far_key x \<le> f8_key (D env (ss_elems st) k)))"
    if "k \<in> ss_v st - V0" for k
    using sn that wk len sz by (auto simp: seen_inv_def set size_inv_def)
  show ?thesis
    unfolding result_ok_def
    using ne srt dist see sz k f heaps_okD(5) [OF h] wk sn
    by (auto simp: set len size_inv_def kept_inv_def final_def seen_inv_def)
qed

lemma search_correct:
  assumes g: "good env es" and ep: "ep \<noteq> []" "\<And>sc. sc \<in> set ep \<Longrightarrow> sound env es sc" "distinct (map (ckey env es) ep)"
    and R: "ckey env es ` set ep \<subseteq> R" "closed_set env es R"
  shows "\<exists>w st. HnswSearchLayer env es ep v d True tuples = Inr (w, st) \<and> result_ok env {} (length ep) w st \<and>
    extends env es (ss_elems st) \<and> ckey env es ` set ep \<subseteq> ss_v st \<and> ss_v st \<subseteq> R"
proof -
  let ?st0 = "\<lparr>ss_elems = es, ss_C = pairingheap_allocate CompareNearestCandidates,
    ss_W = pairingheap_allocate CompareFurthestCandidates, ss_wlen = 0, ss_v = {},
    ss_discarded = map_option (\<lambda>_. pairingheap_allocate CompareNearestDiscardedCandidates) d, ss_tuples = tuples\<rparr>"
  have e0: "entry_inv env {} ?st0"
    using g nearest.heap_inv_allocate furthest.heap_inv_allocate discarded.heap_inv_allocate
    by (auto simp: entry_inv_def heaps_ok_def wkeys_def single_ms_def)
  obtain st1 where a: "add_entries env True ep ?st0 = Inr st1" "entry_inv env {} st1" "ss_elems st1 = es"
      "ph_mset (ss_W st1) = mset ep" "ss_v st1 = ckey env es ` set ep"
    using add_entries_inv [OF e0, of ep True] ep(2,3) by (auto simp: wkeys_def)
  have c1: "ph_mset (ss_C st1) = mset ep" using a(2,4) by (simp add: entry_inv_def)
  have i: "inv env {} (length ep) {} st1" using entry_inv_inv [OF a(2)] a(4) ep(1) by simp
  have w1: "within env {} R st1" using a(3,5) R(1) c1 by (auto simp: within_def cand_in_def)
  have cl: "closed_set env (ss_elems st1) R" using R(2) a(3) by simp
  obtain st2 where s: "search_loop env st1 = Inr st2" "final env {} (length ep) st2"
      "extends env (ss_elems st1) (ss_elems st2)" "within env {} R st2"
    using search_loop_inv [OF i w1 cl] by blast
  have "ckey env es ` set ep \<subseteq> ss_v st2" using search_loop_visited [OF s(1)] a(5) by blast
  then show ?thesis
    using a(1,3) s final_result [OF s(2)]
    by (intro exI [of _ "drain (ss_W st2)"] exI [of _ st2]) (simp add: HnswSearchLayer_def within_def)
qed

text \<open>The second and later calls of an iterative scan: the visited set and the discarded heap are the
  caller's, and the entry points were visited before.\<close>

lemma search_resumed:
  assumes g: "good env es" and ep: "ep \<noteq> []" "\<And>sc. sc \<in> set ep \<Longrightarrow> sound env es sc" "distinct (map (ckey env es) ep)"
    and v: "ckey env es ` set ep \<subseteq> V" and d: "discarded.heap_inv h" "\<forall>x\<in>#ph_mset h. sound env es x"
    and R: "ckey env es ` set ep \<subseteq> R" "closed_set env es R"
  shows "\<exists>w st. HnswSearchLayer env es ep (Some V) (Some h) False tuples = Inr (w, st) \<and> result_ok env V (length ep) w st \<and>
    extends env es (ss_elems st) \<and> V \<subseteq> ss_v st \<and> ss_v st - V \<subseteq> R"
proof -
  let ?st0 = "\<lparr>ss_elems = es, ss_C = pairingheap_allocate CompareNearestCandidates,
    ss_W = pairingheap_allocate CompareFurthestCandidates, ss_wlen = 0, ss_v = V, ss_discarded = Some h, ss_tuples = tuples\<rparr>"
  have e0: "entry_inv env V ?st0"
    using g d nearest.heap_inv_allocate furthest.heap_inv_allocate
    by (auto simp: entry_inv_def heaps_ok_def wkeys_def single_ms_def)
  obtain st1 where a: "add_entries env False ep ?st0 = Inr st1" "entry_inv env V st1" "ss_elems st1 = es"
      "ph_mset (ss_W st1) = mset ep" "ss_v st1 = V"
    using add_entries_inv [OF e0, of ep False] ep(2,3) v by (auto simp: wkeys_def)
  have c1: "ph_mset (ss_C st1) = mset ep" using a(2,4) by (simp add: entry_inv_def)
  have i: "inv env V (length ep) {} st1" using entry_inv_inv [OF a(2)] a(4) ep(1) by simp
  have w1: "within env V R st1" using a(3,5) R(1) c1 by (auto simp: within_def cand_in_def)
  have cl: "closed_set env (ss_elems st1) R" using R(2) a(3) by simp
  obtain st2 where s: "search_loop env st1 = Inr st2" "final env V (length ep) st2"
      "extends env (ss_elems st1) (ss_elems st2)" "within env V R st2"
    using search_loop_inv [OF i w1 cl] by blast
  then show ?thesis
    using a(1,3) s final_result [OF s(2)]
    by (intro exI [of _ "drain (ss_W st2)"] exI [of _ st2]) (simp add: HnswSearchLayer_def within_def)
qed

end

section \<open>The in-memory graph as a layer\<close>

definition mem_known :: "search_env \<Rightarrow> elems \<Rightarrow> eptr \<Rightarrow> bool" where
  "mem_known env es p = (p < length es \<and> se_lc env \<le> he_level (es ! p))"

definition mem_valid :: "search_env \<Rightarrow> elems \<Rightarrow> visited_key \<Rightarrow> bool" where
  "mem_valid env es k = (case k of VPtr p \<Rightarrow> mem_known env es p | VTid _ \<Rightarrow> False)"

definition mem_D :: "search_env \<Rightarrow> elems \<Rightarrow> visited_key \<Rightarrow> float8" where
  "mem_D env es k = (case k of VTid _ \<Rightarrow> f8_zero
     | VPtr p \<Rightarrow> (case GetElementDistance es p (se_q env) (se_support env) of Inl _ \<Rightarrow> f8_zero | Inr d \<Rightarrow> d))"

text \<open>The neighbours of an element at a layer.\<close>

definition layer_items :: "elems \<Rightarrow> nat \<Rightarrow> eptr \<Rightarrow> HnswCandidate list" where
  "layer_items es lc p = (case HnswGetNeighbors (es ! p) lc of Inl _ \<Rightarrow> [] | Inr a \<Rightarrow> na_items a)"

definition mem_N :: "search_env \<Rightarrow> elems \<Rightarrow> visited_key \<Rightarrow> visited_key set" where
  "mem_N env es k = (case k of VTid _ \<Rightarrow> {} | VPtr p \<Rightarrow> (VPtr \<circ> hc_element) ` set (layer_items es (se_lc env) p))"

definition mem_good :: "search_env \<Rightarrow> elems \<Rightarrow> bool" where
  "mem_good env es = (se_index env = None \<and> (\<forall>p. mem_known env es p \<longrightarrow>
     (\<exists>d. GetElementDistance es p (se_q env) (se_support env) = Inr d \<and> \<not> f8_isnan d) \<and>
     (\<exists>a. HnswGetNeighbors (es ! p) (se_lc env) = Inr a \<and> (\<forall>hc\<in>set (na_items a). mem_known env es (hc_element hc)))))"

interpretation mem: layer_graph mem_good mem_known mem_valid "\<lambda>env es p. VPtr p" mem_D mem_N
proof (unfold_locales, goal_cases)
  case (1 env es p)
  then show ?case by (simp add: mem_valid_def mem_known_def)
next
  case (2 env es k)
  then show ?case by (fastforce simp: mem_valid_def mem_good_def mem_D_def split: visited_key.splits)
next
  case (3 env es k k')
  then show ?case by (fastforce simp: mem_valid_def mem_good_def mem_N_def layer_items_def split: visited_key.splits)
next
  case (4 env es p)
  then show ?case by (simp add: mem_good_def visited_key_of_def)
next
  case (5 env st c)
  then obtain a where "HnswGetNeighbors (ss_elems st ! c) (se_lc env) = Inr a" "c < length (ss_elems st)" "se_index env = None"
    by (auto simp: mem_good_def mem_known_def)
  then show ?case
    using unvisited_items_spec [of "ss_v st" "na_items a"]
    by (cases "unvisited_items (ss_v st) (na_items a)")
       (auto simp: load_neighbors_def HnswLoadUnvisitedFromMemory_def mem_N_def layer_items_def)
next
  case (6 env st u fd)
  then obtain p where u: "u = UElement p" "mem_known env (ss_elems st) p"
    by (cases u) (auto simp: mem_valid_def)
  with 6 obtain d where "GetElementDistance (ss_elems st) p (se_q env) (se_support env) = Inr d" "se_index env = None"
    by (auto simp: mem_good_def)
  then show ?case using 6 u by (auto simp: load_unvisited_def mem_D_def)
qed

section \<open>The pages on disk as a layer\<close>

definition tid_tuple :: "Relation \<Rightarrow> ItemPointerData \<Rightarrow> HnswElementTupleData result" where
  "tid_tuple r t = rbind (read_page r (ip_blkid t)) (\<lambda>p. element_tuple p (ip_posid t))"

text \<open>The heap TIDs of an element tuple.\<close>

definition tup_tids :: "HnswElementTupleData \<Rightarrow> ItemPointerData list" where
  "tup_tids et = takeWhile ItemPointerIsValid (take HNSW_HEAPTIDS (et_heaptids et))"

text \<open>The neighbour list of an element tuple at a layer, as \<open>HnswLoadNeighborTids\<close> returns it.\<close>

definition tid_slice :: "Relation \<Rightarrow> nat \<Rightarrow> nat \<Rightarrow> HnswElementTupleData \<Rightarrow> (ItemPointerData list option) result" where
  "tid_slice r m lc et = HnswLoadNeighborTids (HnswLoadElementFromTuple raw_element et True False) r m (HnswGetLayerM m lc) lc"

definition tid_nbrs :: "Relation \<Rightarrow> nat \<Rightarrow> nat \<Rightarrow> HnswElementTupleData \<Rightarrow> ItemPointerData set" where
  "tid_nbrs r m lc et = (case tid_slice r m lc et of Inr (Some tids) \<Rightarrow> set (takeWhile ItemPointerIsValid tids) | _ \<Rightarrow> {})"

text \<open>A live element tuple that takes part in the layer.\<close>

definition live_tid :: "Relation \<Rightarrow> nat \<Rightarrow> ItemPointerData \<Rightarrow> bool" where
  "live_tid r lc t = (case tid_tuple r t of Inl _ \<Rightarrow> False | Inr et \<Rightarrow> et_deleted et = 0 \<and> lc \<le> et_level et)"

definition disk_valid :: "search_env \<Rightarrow> elems \<Rightarrow> visited_key \<Rightarrow> bool" where
  "disk_valid env es k = (case k of VPtr _ \<Rightarrow> False
     | VTid t \<Rightarrow> (case se_index env of None \<Rightarrow> False | Some r \<Rightarrow> live_tid r (se_lc env) t))"

definition tid_distance :: "Vector option \<Rightarrow> HnswSupport \<Rightarrow> Relation \<Rightarrow> ItemPointerData \<Rightarrow> float8 result" where
  "tid_distance q support r t =
     rbind (tid_tuple r t) (\<lambda>et. case q of None \<Rightarrow> Inr f8_zero | Some qv \<Rightarrow> HnswGetDistance qv (et_data et) support)"

definition disk_D :: "search_env \<Rightarrow> elems \<Rightarrow> visited_key \<Rightarrow> float8" where
  "disk_D env es k = (case k of VPtr _ \<Rightarrow> f8_zero
     | VTid t \<Rightarrow> (case se_index env of None \<Rightarrow> f8_zero
         | Some r \<Rightarrow> (case tid_distance (se_q env) (se_support env) r t of Inl _ \<Rightarrow> f8_zero | Inr d \<Rightarrow> d)))"

definition disk_N :: "search_env \<Rightarrow> elems \<Rightarrow> visited_key \<Rightarrow> visited_key set" where
  "disk_N env es k = (case k of VPtr _ \<Rightarrow> {}
     | VTid t \<Rightarrow> (case se_index env of None \<Rightarrow> {}
         | Some r \<Rightarrow> (case tid_tuple r t of Inl _ \<Rightarrow> {} | Inr et \<Rightarrow> VTid ` tid_nbrs r (se_m env) (se_lc env) et)))"

text \<open>A loaded element agrees with its tuple.\<close>

definition disk_known :: "search_env \<Rightarrow> elems \<Rightarrow> eptr \<Rightarrow> bool" where
  "disk_known env es p = (p < length es \<and> (case se_index env of None \<Rightarrow> False | Some r \<Rightarrow>
     live_tid r (se_lc env) (ItemPointerSet (he_blkno (es ! p)) (he_offno (es ! p))) \<and>
     (\<exists>et. tid_tuple r (ItemPointerSet (he_blkno (es ! p)) (he_offno (es ! p))) = Inr et \<and>
        he_level (es ! p) = et_level et \<and> he_version (es ! p) = et_version et \<and>
        he_neighborPage (es ! p) = ip_blkid (et_neighbortid et) \<and> he_neighborOffno (es ! p) = ip_posid (et_neighbortid et))))"

definition disk_good :: "search_env \<Rightarrow> elems \<Rightarrow> bool" where
  "disk_good env es = (case se_index env of None \<Rightarrow> False | Some r \<Rightarrow>
     HnswGetLayerM (se_m env) (se_lc env) \<le> HNSW_MAX_M * 2 \<and>
     (\<forall>t. live_tid r (se_lc env) t \<longrightarrow>
        (\<exists>d. tid_distance (se_q env) (se_support env) r t = Inr d \<and> \<not> f8_isnan d) \<and>
        (\<forall>et. tid_tuple r t = Inr et \<longrightarrow> (\<exists>s. tid_slice r (se_m env) (se_lc env) et = Inr s) \<and>
           (\<forall>t'\<in>tid_nbrs r (se_m env) (se_lc env) et. live_tid r (se_lc env) t'))))"

lemma slice_cong:
  assumes "he_level e = et_level et" "he_version e = et_version et"
    "he_neighborPage e = ip_blkid (et_neighbortid et)" "he_neighborOffno e = ip_posid (et_neighbortid et)"
  shows "HnswLoadNeighborTids e r m (HnswGetLayerM m lc) lc = tid_slice r m lc et"
proof -
  let ?e = "HnswLoadElementFromTuple raw_element et True False"
  have e: "he_level ?e = et_level et" "he_version ?e = et_version et" "he_neighborPage ?e = ip_blkid (et_neighbortid et)"
      "he_neighborOffno ?e = ip_posid (et_neighbortid et)"
    by (simp_all add: HnswLoadElementFromTuple_def Let_def)
  show ?thesis unfolding tid_slice_def HnswLoadNeighborTids_def assms e ..
qed

interpretation disk: layer_graph disk_good disk_known disk_valid
  "\<lambda>env es p. VTid (ItemPointerSet (he_blkno (es ! p)) (he_offno (es ! p)))" disk_D disk_N
proof (unfold_locales, goal_cases)
  case (1 env es p)
  then show ?case by (auto simp: disk_known_def disk_valid_def live_tid_def split: option.splits)
next
  case (2 env es k)
  then show ?case by (fastforce simp: disk_good_def disk_valid_def disk_D_def split: option.splits visited_key.splits)
next
  case (3 env es k k')
  then show ?case
    by (fastforce simp: disk_good_def disk_valid_def disk_N_def split: option.splits visited_key.splits sum.splits)
next
  case (4 env es p)
  then show ?case by (auto simp: disk_good_def disk_known_def visited_key_of_def split: option.splits)
next
  case (5 env st c)
  then obtain r et where r: "se_index env = Some r" and c: "c < length (ss_elems st)"
    and l: "live_tid r (se_lc env) (ItemPointerSet (he_blkno (ss_elems st ! c)) (he_offno (ss_elems st ! c)))"
    and et: "tid_tuple r (ItemPointerSet (he_blkno (ss_elems st ! c)) (he_offno (ss_elems st ! c))) = Inr et"
    and m: "HnswLoadNeighborTids (ss_elems st ! c) r (se_m env) (HnswGetLayerM (se_m env) (se_lc env)) (se_lc env) =
      tid_slice r (se_m env) (se_lc env) et"
    by (auto simp: disk_known_def slice_cong split: option.splits)
  obtain s where s: "tid_slice r (se_m env) (se_lc env) et = Inr s"
    using 5(1) r l et by (fastforce simp: disk_good_def)
  have lm: "HnswGetLayerM (se_m env) (se_lc env) \<le> HNSW_MAX_M * 2" using 5(1) r by (simp add: disk_good_def)
  have N: "disk_N env (ss_elems st) (VTid (ItemPointerSet (he_blkno (ss_elems st ! c)) (he_offno (ss_elems st ! c)))) =
      VTid ` (case s of None \<Rightarrow> {} | Some tids \<Rightarrow> set (takeWhile ItemPointerIsValid tids))"
    using r et s by (simp add: disk_N_def tid_nbrs_def split: option.splits)
  show ?case
  proof (cases s)
    case None
    then show ?thesis using r c m s N by (auto simp: load_neighbors_def HnswLoadUnvisitedFromDisk_def)
  next
    case (Some tids)
    have "length tids = HnswGetLayerM (se_m env) (se_lc env)" using load_tids_targets(2) m s Some by metis
    then show ?thesis
      using r c m s N lm Some unvisited_tids_spec [of "ss_v st" tids]
      by (cases "unvisited_tids (ss_v st) tids") (auto simp: load_neighbors_def HnswLoadUnvisitedFromDisk_def)
  qed
next
  case (6 env st u fd)
  then obtain r t where r: "se_index env = Some r" and u: "u = UTid t" and l: "live_tid r (se_lc env) t"
    by (cases u) (auto simp: disk_valid_def split: option.splits)
  obtain d where d: "tid_distance (se_q env) (se_support env) r t = Inr d"
    using 6(1) r l by (fastforce simp: disk_good_def)
  obtain p et where p: "read_page r (ip_blkid t) = Inr p" and e: "element_tuple p (ip_posid t) = Inr et"
    using l by (auto simp: live_tid_def tid_tuple_def hnsw_err split: sum.splits)
  have tt: "tid_tuple r t = Inr et" using p e by (simp add: tid_tuple_def)
  have t: "ItemPointerSet (ip_blkid t) (ip_posid t) = t" by (simp add: ItemPointerSet_def)
  let ?es = "ss_elems st @ [HnswLoadElementFromTuple (HnswInitElementFromBlock (ip_blkid t) (ip_posid t)) et True (se_inserting env)]"
  have "disk_known env ?es (length (ss_elems st))"
    using r l tt by (simp add: disk_known_def HnswLoadElementFromTuple_def HnswInitElementFromBlock_def Let_def t)
  moreover have "disk_known env ?es q" if "disk_known env (ss_elems st) q" for q
    using that r by (auto simp: disk_known_def nth_append)
  moreover have "disk_good env ?es" "disk_D env ?es = disk_D env (ss_elems st)" "disk_N env ?es = disk_N env (ss_elems st)"
      "disk_valid env ?es = disk_valid env (ss_elems st)"
    using 6(1) by (auto simp: disk_good_def disk_D_def disk_N_def disk_valid_def fun_eq_iff)
  moreover have D: "disk_D env (ss_elems st) (ukey u) = d" using u r d by (simp add: disk_D_def)
  moreover have qd: "(case se_q env of None \<Rightarrow> Inr (Some f8_zero)
      | Some qv \<Rightarrow> rbind (HnswGetDistance qv (et_data et) (se_support env)) (\<lambda>d. Inr (Some d))) = Inr (Some d)"
    using d tt by (auto simp: tid_distance_def split: option.splits)
  moreover have "VTid (ItemPointerSet (he_blkno (?es ! length (ss_elems st))) (he_offno (?es ! length (ss_elems st)))) = ukey u"
    using u by (simp add: HnswLoadElementFromTuple_def HnswInitElementFromBlock_def Let_def t)
  moreover have "?es ! q = ss_elems st ! q" if "disk_known env (ss_elems st) q" for q
    using that by (simp add: disk_known_def nth_append)
  moreover have "load_unvisited env st fd u =
      (if ss_wlen st < se_ef env \<or> ss_discarded st \<noteq> None \<or> f8_lt d fd then Inr (Some (length (ss_elems st)), d, ?es)
       else Inr (None, d, ss_elems st))"
    using r u p e qd by (auto simp: load_unvisited_def HnswLoadElementImpl_def)
  ultimately show ?case
    using 6(1) by (cases "ss_wlen st < se_ef env \<or> ss_discarded st \<noteq> None \<or> f8_lt d fd") auto
qed

section \<open>In memory the store is only read\<close>

lemma add_entries_elems: "add_entries env iv ep st = Inr st' \<Longrightarrow> ss_elems st' = ss_elems st"
proof (induction ep arbitrary: st iv)
  case (Cons sc ep)
  from Cons.prems show ?case by (auto simp: hnsw_err split: if_splits dest!: Cons.IH)
qed simp

lemma search_step_mem: "search_step env st = Inr (go, st') \<Longrightarrow> se_index env = None \<Longrightarrow> ss_elems st' = ss_elems st"
  by (auto simp: search_step_def hnsw_err Let_def split: if_splits dest!: process_all_keeps)

lemma search_loop_mem: "search_loop env st = Inr st' \<Longrightarrow> se_index env = None \<Longrightarrow> ss_elems st' = ss_elems st"
  by (rule search_loop_closure [where R = "\<lambda>a b. ss_elems b = ss_elems a"]) (auto dest: search_step_mem)

lemma HnswSearchLayer_mem:
  "HnswSearchLayer env es ep v d iv tuples = Inr (w, st) \<Longrightarrow> se_index env = None \<Longrightarrow> ss_elems st = es"
  unfolding HnswSearchLayer_def Let_def
  by (auto simp: hnsw_err dest!: add_entries_elems search_loop_mem)

lemma discarded_kept:
  "add_entries env iv ep st = Inr st' \<Longrightarrow> ss_discarded st' = ss_discarded st"
proof (induction ep arbitrary: st iv)
  case (Cons sc ep)
  from Cons.prems show ?case by (auto simp: hnsw_err split: if_splits dest!: Cons.IH)
qed simp

lemma add_candidate_discarded: "add_candidate env e el st = Inr st' \<Longrightarrow> (ss_discarded st' = None) = (ss_discarded st = None)"
  by (auto simp: add_candidate_def Let_def hnsw_err discard_def split: if_splits)

lemma process_all_discarded: "process_all env us st = Inr st' \<Longrightarrow> (ss_discarded st' = None) = (ss_discarded st = None)"
proof (induction us arbitrary: st)
  case (Cons u us)
  have "(ss_discarded st1 = None) = (ss_discarded st = None)" if "process_unvisited env st u = Inr st1" for st1
    using that by (cases rule: process_unvisited_cases) (auto simp: discard_def dest: add_candidate_discarded)
  then show ?case using Cons by (auto simp: hnsw_err)
qed simp

lemma search_step_discarded: "search_step env st = Inr (go, st') \<Longrightarrow> (ss_discarded st' = None) = (ss_discarded st = None)"
  by (auto simp: search_step_def hnsw_err Let_def split: if_splits dest!: process_all_discarded)

lemma search_loop_discarded: "search_loop env st = Inr st' \<Longrightarrow> (ss_discarded st' = None) = (ss_discarded st = None)"
  by (rule search_loop_closure [where R = "\<lambda>a b. (ss_discarded b = None) = (ss_discarded a = None)"])
     (auto dest: search_step_discarded)

lemma HnswSearchLayer_discarded:
  "HnswSearchLayer env es ep v d iv tuples = Inr (w, st) \<Longrightarrow> (ss_discarded st = None) = (d = None)"
  unfolding HnswSearchLayer_def Let_def
  by (auto simp: hnsw_err dest!: discarded_kept search_loop_discarded split: if_splits)

section \<open>Well-formed graphs\<close>

definition dist_ok :: "HnswSupport \<Rightarrow> int \<Rightarrow> bool" where
  "dist_ok support dim = (\<forall>a b. vec_wf a \<and> vec_wf b \<and> v_dim a = dim \<and> v_dim b = dim \<longrightarrow>
     (\<exists>d. sup_procinfo support a b = Inr d \<and> \<not> f8_isnan d))"

definition l2_support :: HnswSupport where
  "l2_support = \<lparr>sup_procinfo = vector_l2_distance, sup_normprocinfo = None\<rparr>"

lemma dist_ok_l2: "dist_ok l2_support dim"
  using l2_distance_total by (fastforce simp: dist_ok_def l2_support_def f8_pos_def)

definition array_wf :: "nat \<Rightarrow> elems \<Rightarrow> nat \<Rightarrow> HnswNeighborArray \<Rightarrow> bool" where
  "array_wf m elems lc a = (na_cap a = HnswGetLayerM m lc \<and> length (na_items a) \<le> na_cap a \<and>
     (\<forall>hc\<in>set (na_items a). hc_element hc < length elems \<and> lc \<le> he_level (elems ! hc_element hc)))"

definition elem_wf :: "nat \<Rightarrow> int \<Rightarrow> elems \<Rightarrow> HnswElementData \<Rightarrow> bool" where
  "elem_wf m dim elems e =
     ((case he_value e of None \<Rightarrow> False | Some v \<Rightarrow> vec_wf v \<and> v_dim v = dim) \<and>
      (case he_neighbors e of None \<Rightarrow> False
       | Some ns \<Rightarrow> length ns = Suc (he_level e) \<and> (\<forall>lc\<le>he_level e. array_wf m elems lc (ns ! lc))))"

definition graph_wf :: "nat \<Rightarrow> int \<Rightarrow> elems \<Rightarrow> bool" where
  "graph_wf m dim elems = (\<forall>e\<in>set elems. elem_wf m dim elems e)"

lemma graph_wf_distance:
  assumes "graph_wf m dim es" "dist_ok support dim" "vec_wf q" "v_dim q = dim" "p < length es"
  shows "\<exists>d. GetElementDistance es p (Some q) support = Inr d \<and> \<not> f8_isnan d"
proof -
  obtain v where "he_value (es ! p) = Some v" "vec_wf v" "v_dim v = dim"
    using assms(1,5) by (fastforce simp: graph_wf_def elem_wf_def split: option.splits dest: nth_mem)
  then show ?thesis
    using assms(2-5) by (auto simp: GetElementDistance_def HnswGetDistance_def dist_ok_def)
qed

lemma graph_wf_neighbors:
  assumes "graph_wf m dim es" "p < length es" "lc \<le> he_level (es ! p)"
  shows "\<exists>a. HnswGetNeighbors (es ! p) lc = Inr a \<and> array_wf m es lc a"
proof -
  have "elem_wf m dim es (es ! p)" using assms(1,2) by (simp add: graph_wf_def)
  then obtain ns where "he_neighbors (es ! p) = Some ns" "length ns = Suc (he_level (es ! p))"
      "array_wf m es lc (ns ! lc)"
    using assms(3) by (auto simp: elem_wf_def split: option.splits)
  then show ?thesis using assms(3) by (simp add: HnswGetNeighbors_def)
qed

lemma graph_wf_good:
  assumes "graph_wf m dim es" "dist_ok support dim" "vec_wf q" "v_dim q = dim"
  shows "mem_good (search_env_for (Some q) ef lc None support m' ins skip) es"
  unfolding mem_good_def mem_known_def search_env_for_def
  using graph_wf_distance [OF assms] graph_wf_neighbors [OF assms(1)] by (fastforce simp: array_wf_def)

text \<open>An entry point of a search in memory: it is in the layer and carries its distance.\<close>

definition entry_ok :: "elems \<Rightarrow> Vector \<Rightarrow> HnswSupport \<Rightarrow> nat \<Rightarrow> HnswSearchCandidate \<Rightarrow> bool" where
  "entry_ok es q support lc sc = (sc_element sc < length es \<and> lc \<le> he_level (es ! sc_element sc) \<and>
     GetElementDistance es (sc_element sc) (Some q) support = Inr (sc_distance sc))"

lemma entry_ok_sound:
  "mem.sound (search_env_for (Some q) ef lc None support m ins skip) es sc \<longleftrightarrow> entry_ok es q support lc sc"
  if "graph_wf m' dim es" "dist_ok support dim" "vec_wf q" "v_dim q = dim"
  using graph_wf_distance [OF that]
  by (fastforce simp: mem.sound_def mem_known_def mem_D_def entry_ok_def search_env_for_def)

abbreviation mem_env :: "Vector \<Rightarrow> nat \<Rightarrow> nat \<Rightarrow> HnswSupport \<Rightarrow> nat \<Rightarrow> bool \<Rightarrow> eptr option \<Rightarrow> search_env" where
  "mem_env q ef lc support m ins skip \<equiv> search_env_for (Some q) ef lc None support m ins skip"

lemma mem_D_eq: "GetElementDistance es p (Some q) support = Inr d \<Longrightarrow> mem_D (mem_env q ef lc support m ins skip) es (VPtr p) = d"
  by (simp add: mem_D_def search_env_for_def)

lemma mem_N_eq: "mem_N (mem_env q ef lc support m ins skip) es (VPtr p) = (VPtr \<circ> hc_element) ` set (layer_items es lc p)"
  by (simp add: mem_N_def search_env_for_def)

text \<open>The shared form of the in-memory properties: the interface's result, read back in terms of elements.\<close>

lemma search_memory:
  assumes wf: "graph_wf m dim es" "dist_ok support dim" "vec_wf q" "v_dim q = dim"
    and ep: "ep \<noteq> []" "distinct (map sc_element ep)" "\<forall>sc\<in>set ep. entry_ok es q support lc sc"
    and R: "sc_element ` set ep \<subseteq> R" "\<And>p hc. p \<in> R \<Longrightarrow> hc \<in> set (layer_items es lc p) \<Longrightarrow> hc_element hc \<in> R"
  shows "\<exists>w st. HnswSearchLayer (mem_env q ef lc support m ins skip) es ep v d True tuples = Inr (w, st) \<and>
    ss_elems st = es \<and> mem.result_ok (mem_env q ef lc support m ins skip) {} (length ep) w st \<and>
    VPtr ` sc_element ` set ep \<subseteq> ss_v st \<and> ss_v st \<subseteq> VPtr ` R"
proof -
  let ?env = "mem_env q ef lc support m ins skip"
  have g: "mem_good ?env es" using graph_wf_good [OF wf] .
  have s: "mem.sound ?env es sc" if "sc \<in> set ep" for sc using ep(3) that entry_ok_sound [OF wf] by blast
  have dk: "distinct (map (\<lambda>sc. VPtr (sc_element sc)) ep)" using ep(2) by (simp add: distinct_map inj_on_def)
  have R1: "(\<lambda>sc. VPtr (sc_element sc)) ` set ep \<subseteq> VPtr ` R" using R(1) by auto
  have R2: "mem.closed_set ?env es (VPtr ` R)"
    using R(2) by (auto simp: mem.closed_set_def mem_N_eq)
  have ix: "se_index ?env = None" by (simp add: search_env_for_def)
  obtain w st where "HnswSearchLayer ?env es ep v d True tuples = Inr (w, st)"
      "mem.result_ok ?env {} (length ep) w st" "(\<lambda>sc. VPtr (sc_element sc)) ` set ep \<subseteq> ss_v st" "ss_v st \<subseteq> VPtr ` R"
    using mem.search_correct [OF g ep(1) s dk R1 R2] by blast
  then show ?thesis using HnswSearchLayer_mem [OF _ ix] by (auto simp: image_image)
qed

lemma result_sorted:
  assumes "\<forall>x\<in>set w. sc_ok x" "sorted_wrt (\<lambda>a b. far_key b \<le> far_key a) w"
  shows "sorted_wrt (\<lambda>a b. \<not> f8_lt (sc_distance a) (sc_distance b)) w"
  using assms by (induction w) (auto simp: sc_ok_def far_key_def f8_lt_key)

lemma mem_result:
  assumes wf: "graph_wf m dim es" "dist_ok support dim" "vec_wf q" "v_dim q = dim"
    and r: "mem.result_ok (mem_env q ef lc support m ins skip) {} n w st" and es: "ss_elems st = es"
  shows "w \<noteq> []" and "\<And>c. c \<in> set w \<Longrightarrow> entry_ok es q support lc c"
    and "sorted_wrt (\<lambda>a b. \<not> f8_lt (sc_distance a) (sc_distance b)) w" and "distinct (map sc_element w)"
    and "skip = None \<Longrightarrow> length w \<le> max ef n"
    and "\<And>c hc. c \<in> set w \<Longrightarrow> hc \<in> set (layer_items es lc (sc_element c)) \<Longrightarrow> VPtr (hc_element hc) \<in> ss_v st"
    and "\<And>p. VPtr p \<in> ss_v st \<Longrightarrow> p \<in> sc_element ` set w \<or> (ef \<le> length w \<and> (\<forall>x\<in>set w. \<forall>d.
      GetElementDistance es p (Some q) support = Inr d \<longrightarrow> \<not> f8_lt d (sc_distance x)))"
    and "\<And>c. c \<in> set w \<Longrightarrow> VPtr (sc_element c) \<in> ss_v st"
proof -
  let ?env = "mem_env q ef lc support m ins skip"
  note r' = r [unfolded mem.result_ok_def es]
  have sd: "mem.sound ?env es c" if "c \<in> set w" for c using r' that by blast
  then show "\<And>c. c \<in> set w \<Longrightarrow> entry_ok es q support lc c" using entry_ok_sound [OF wf] by blast
  have "\<forall>c\<in>set w. sc_ok c" using sd mem.sound_ok [OF graph_wf_good [OF wf]] by blast
  then show "sorted_wrt (\<lambda>a b. \<not> f8_lt (sc_distance a) (sc_distance b)) w" using r' result_sorted by blast
  show "w \<noteq> []" using r' by blast
  have "distinct (map (\<lambda>sc. VPtr (sc_element sc)) w)" using r' by blast
  then show "distinct (map sc_element w)" by (auto simp: distinct_map inj_on_def)
  have "se_skipElement ?env = None \<longrightarrow> length w \<le> max (se_ef ?env) n" using r' by blast
  then show "skip = None \<Longrightarrow> length w \<le> max ef n" by (simp add: search_env_for_def)
  have "mem_N ?env es (VPtr (sc_element c)) \<subseteq> ss_v st" if "c \<in> set w" for c using r' that by blast
  then show "\<And>c hc. c \<in> set w \<Longrightarrow> hc \<in> set (layer_items es lc (sc_element c)) \<Longrightarrow> VPtr (hc_element hc) \<in> ss_v st"
    by (fastforce simp: mem_N_eq)
  show "p \<in> sc_element ` set w \<or> (ef \<le> length w \<and> (\<forall>x\<in>set w. \<forall>d.
      GetElementDistance es p (Some q) support = Inr d \<longrightarrow> \<not> f8_lt d (sc_distance x)))" if "VPtr p \<in> ss_v st" for p
  proof -
    have "VPtr p \<in> (\<lambda>sc. VPtr (sc_element sc)) ` set w \<or>
        (se_ef ?env \<le> length w \<and> (\<forall>x\<in>set w. far_key x \<le> f8_key (mem_D ?env es (VPtr p))))"
      using r' that by blast
    then show ?thesis
      using mem_D_eq [of es p q support] by (fastforce simp: far_key_def f8_lt_key search_env_for_def)
  qed
  show "VPtr (sc_element c) \<in> ss_v st" if "c \<in> set w" for c using r' that by blast
qed

section \<open>Properties\<close>

text \<open>C11: the layer search in memory always returns.  On a well-formed graph its result is not empty, has at most
  \<open>max(ef, |ep|)\<close> distinct elements of the layer with their true distances, furthest first, and it is locally optimal: every
  neighbour of a result is itself a result, or the result is full and the neighbour is not closer than any result.\<close>

theorem search_layer_memory:
  assumes "graph_wf m dim elems" and "dist_ok support dim" and "vec_wf q" and "v_dim q = dim"
    and "ep \<noteq> []" and "distinct (map sc_element ep)" and "\<forall>sc\<in>set ep. entry_ok elems q support lc sc"
  shows "\<exists>w st. HnswSearchLayer (search_env_for (Some q) ef lc None support m ins None) elems ep None None True None = Inr (w, st) \<and>
    ss_elems st = elems \<and> w \<noteq> [] \<and> length w \<le> max ef (length ep) \<and> distinct (map sc_element w) \<and>
    sorted_wrt (\<lambda>a b. \<not> f8_lt (sc_distance a) (sc_distance b)) w \<and> (\<forall>c\<in>set w. entry_ok elems q support lc c) \<and>
    (\<forall>c\<in>set w. \<forall>hc\<in>set (layer_items elems lc (sc_element c)). hc_element hc \<in> sc_element ` set w \<or>
       (ef \<le> length w \<and> (\<forall>x\<in>set w. \<forall>d. GetElementDistance elems (hc_element hc) (Some q) support = Inr d \<longrightarrow>
          \<not> f8_lt d (sc_distance x))))"
proof -
  note wf = assms(1-4)
  let ?env = "mem_env q ef lc support m ins None"
  obtain w st where s: "HnswSearchLayer ?env elems ep None None True None = Inr (w, st)" "ss_elems st = elems"
    and r: "mem.result_ok ?env {} (length ep) w st"
    using search_memory [OF wf assms(5-7), where R = UNIV and v = None and d = None and tuples = None and skip = None] by blast
  note m = mem_result [OF wf r s(2)]
  have opt: "hc_element hc \<in> sc_element ` set w \<or> (ef \<le> length w \<and> (\<forall>x\<in>set w. \<forall>d.
      GetElementDistance elems (hc_element hc) (Some q) support = Inr d \<longrightarrow> \<not> f8_lt d (sc_distance x)))"
    if "c \<in> set w" "hc \<in> set (layer_items elems lc (sc_element c))" for c hc
    using m(7) [OF m(6) [OF that]] .
  show ?thesis using s m(1-5) opt by blast
qed

text \<open>A graph of two mutually connected elements, for the examples.\<close>

definition pair_elem :: "eptr \<Rightarrow> HnswElementData" where
  "pair_elem other = raw_element\<lparr>he_heaptids := [ItemPointerSet 0 1], he_version := 1, he_value := Some one_vec,
     he_neighbors := Some [\<lparr>na_closerSet = False, na_items = [\<lparr>hc_element = other, hc_distance = 0, hc_closer = False\<rparr>], na_cap = 4\<rparr>]\<rparr>"

definition pair_graph :: elems where
  "pair_graph = [pair_elem 1, pair_elem 0]"

definition pair_entry :: HnswSearchCandidate where
  "pair_entry = \<lparr>sc_element = 0, sc_distance = f8_zero\<rparr>"

lemma pair_graph_wf: "graph_wf 2 1 pair_graph"
  by (simp add: graph_wf_def pair_graph_def elem_wf_def pair_elem_def array_wf_def one_vec_wf HnswGetLayerM_def raw_element_def)

lemma pair_entry_ok: "entry_ok pair_graph one_vec l2_support 0 pair_entry"
  using l2_distance_self [OF one_vec_wf(1)]
  by (simp add: entry_ok_def pair_graph_def pair_entry_def GetElementDistance_def HnswGetDistance_def l2_support_def pair_elem_def
      raw_element_def)

theorem search_layer_memory_witness:
  "\<exists>w st. HnswSearchLayer (search_env_for (Some one_vec) 1 0 None l2_support 2 False None) pair_graph [pair_entry]
     None None True None = Inr (w, st) \<and> length w = 1"
proof -
  have "length w = 1" if "w \<noteq> []" "length w \<le> max 1 (length [pair_entry])" for w :: "HnswSearchCandidate list"
    using that by (cases w) auto
  then show ?thesis
    using search_layer_memory [OF pair_graph_wf dist_ok_l2 one_vec_wf(1,2), of "[pair_entry]" 0 1 False] pair_entry_ok by auto
qed

text \<open>The elements reachable from given ones through the neighbour arrays of a layer.\<close>

definition nbr_rel :: "elems \<Rightarrow> nat \<Rightarrow> (eptr \<times> eptr) set" where
  "nbr_rel es lc = {(p, hc_element hc) |p hc. hc \<in> set (layer_items es lc p)}"

definition reachable :: "elems \<Rightarrow> nat \<Rightarrow> eptr set \<Rightarrow> eptr set" where
  "reachable es lc S = (nbr_rel es lc)\<^sup>* `` S"

lemma reachable_bounded:
  assumes "graph_wf m dim es" "\<forall>p\<in>S. p < length es \<and> lc \<le> he_level (es ! p)"
  shows "reachable es lc S \<subseteq> {..<length es}"
proof -
  have "p < length es \<and> lc \<le> he_level (es ! p)" if "(s, p) \<in> (nbr_rel es lc)\<^sup>*" "s \<in> S" for s p
    using that
  proof (induction rule: rtrancl_induct)
    case (step p p')
    then obtain hc where h: "p' = hc_element hc" "hc \<in> set (layer_items es lc p)" by (auto simp: nbr_rel_def)
    have "p < length es" "lc \<le> he_level (es ! p)" using step by auto
    from graph_wf_neighbors [OF assms(1) this] show ?case using h by (auto simp: layer_items_def array_wf_def)
  qed (use assms(2) in auto)
  then show ?thesis by (auto simp: reachable_def)
qed

text \<open>C13: when \<open>ef\<close> is at least the number of elements reachable from the entry points in the layer, the
  search is exact: it returns precisely the reachable elements.\<close>

theorem search_layer_exact:
  assumes "graph_wf m dim elems" and "dist_ok support dim" and "vec_wf q" and "v_dim q = dim"
    and "ep \<noteq> []" and "distinct (map sc_element ep)" and "\<forall>sc\<in>set ep. entry_ok elems q support lc sc"
    and "card (reachable elems lc (sc_element ` set ep)) \<le> ef"
  shows "\<exists>w st. HnswSearchLayer (search_env_for (Some q) ef lc None support m ins None) elems ep None None True None = Inr (w, st) \<and>
    sc_element ` set w = reachable elems lc (sc_element ` set ep)"
proof -
  note wf = assms(1-4)
  let ?env = "mem_env q ef lc support m ins None" and ?R = "reachable elems lc (sc_element ` set ep)"
  have R: "sc_element ` set ep \<subseteq> ?R" by (auto simp: reachable_def)
  have cl: "hc_element hc \<in> ?R" if "p \<in> ?R" "hc \<in> set (layer_items elems lc p)" for p hc
    using that by (auto simp: reachable_def nbr_rel_def intro: rtrancl_into_rtrancl)
  obtain w st where s: "HnswSearchLayer ?env elems ep None None True None = Inr (w, st)" "ss_elems st = elems"
    and r: "mem.result_ok ?env {} (length ep) w st" "VPtr ` sc_element ` set ep \<subseteq> ss_v st" "ss_v st \<subseteq> VPtr ` ?R"
    using search_memory [OF wf assms(5-7) R, where v = None and d = None and tuples = None and skip = None] cl by blast
  note m = mem_result [OF wf r(1) s(2)]
  let ?W = "sc_element ` set w"
  have len: "card ?W = length w" using m(4) distinct_card [of "map sc_element w"] by simp
  have sub: "?W \<subseteq> ?R" using m(8) r(3) by blast
  have fin: "finite ?R" using reachable_bounded [OF wf(1), of "sc_element ` set ep" lc] assms(7)
    by (auto simp: entry_ok_def intro: finite_subset)
  have all: "VPtr p \<in> ss_v st \<Longrightarrow> p \<in> ?W" for p
  proof (rule ccontr)
    assume p: "VPtr p \<in> ss_v st" "p \<notin> ?W"
    then have "ef \<le> length w" using m(7) by blast
    moreover have "p \<in> ?R" using p(1) r(3) by auto
    then have "card ?W < card ?R" using sub p(2) fin by (intro psubset_card_mono) auto
    ultimately show False using assms(8) len by simp
  qed
  have nb: "hc_element hc \<in> ?W" if "p \<in> ?W" "hc \<in> set (layer_items elems lc p)" for p hc
    using m(6) that by (intro all) auto
  have "?R \<subseteq> ?W"
  proof
    fix p assume "p \<in> ?R"
    then obtain e where e: "e \<in> set ep" "(sc_element e, p) \<in> (nbr_rel elems lc)\<^sup>*" by (auto simp: reachable_def)
    from e(2) show "p \<in> ?W"
    proof (induction rule: rtrancl_induct)
      case base
      then show ?case using e(1) r(2) all by blast
    next
      case (step p p')
      then show ?case using nb by (auto simp: nbr_rel_def)
    qed
  qed
  then show ?thesis using s(1) sub by blast
qed

theorem search_layer_exact_witness:
  "\<exists>w st. HnswSearchLayer (search_env_for (Some one_vec) 5 0 None l2_support 2 False None) pair_graph [pair_entry]
     None None True None = Inr (w, st) \<and> sc_element ` set w = reachable pair_graph 0 {0}"
proof -
  have r: "reachable pair_graph 0 {0} \<subseteq> {..<2}"
    using reachable_bounded [OF pair_graph_wf, of "{0}" 0]
    by (auto simp: pair_graph_def pair_elem_def raw_element_def)
  then have "card (reachable pair_graph 0 {0}) \<le> 5" using card_mono [OF _ r] by simp
  then show ?thesis
    using search_layer_exact [OF pair_graph_wf dist_ok_l2 one_vec_wf(1,2), of "[pair_entry]" 0 5 False] pair_entry_ok
    by (simp add: pair_entry_def)
qed

section \<open>Properties of the search on disk\<close>

definition sc_tid :: "elems \<Rightarrow> HnswSearchCandidate \<Rightarrow> ItemPointerData" where
  "sc_tid es sc = ItemPointerSet (he_blkno (es ! sc_element sc)) (he_offno (es ! sc_element sc))"

abbreviation disk_env :: "Vector option \<Rightarrow> nat \<Rightarrow> nat \<Rightarrow> Relation \<Rightarrow> HnswSupport \<Rightarrow> nat \<Rightarrow> bool \<Rightarrow> eptr option \<Rightarrow> search_env" where
  "disk_env q ef lc r support m ins skip \<equiv> search_env_for q ef lc (Some r) support m ins skip"

text \<open>A candidate loaded from disk: its element agrees with a live tuple of the layer and its distance is that tuple's.\<close>

definition disk_entry_ok :: "Vector option \<Rightarrow> HnswSupport \<Rightarrow> nat \<Rightarrow> Relation \<Rightarrow> elems \<Rightarrow> HnswSearchCandidate \<Rightarrow> bool" where
  "disk_entry_ok q support lc r es sc =
     (disk_known (disk_env q 0 lc r support 0 False None) es (sc_element sc) \<and>
      tid_distance q support r (sc_tid es sc) = Inr (sc_distance sc))"

text \<open>What the search needs of the pages.\<close>

definition pages_ok :: "Vector option \<Rightarrow> HnswSupport \<Rightarrow> nat \<Rightarrow> nat \<Rightarrow> Relation \<Rightarrow> bool" where
  "pages_ok q support m lc r = disk_good (disk_env q 0 lc r support m False None) []"

lemma pages_ok_good: "pages_ok q support m lc r \<longleftrightarrow> disk_good (disk_env q ef lc r support m ins skip) es"
  by (simp add: pages_ok_def disk_good_def search_env_for_def)

lemma disk_entry_sound:
  assumes "pages_ok q support m lc r"
  shows "disk.sound (disk_env q ef lc r support m ins skip) es sc \<longleftrightarrow> disk_entry_ok q support lc r es sc"
proof -
  have k: "disk_known (disk_env q ef lc r support m ins skip) es p = disk_known (disk_env q 0 lc r support 0 False None) es p" for p
    by (simp add: disk_known_def search_env_for_def)
  have "\<exists>d. tid_distance q support r (sc_tid es sc) = Inr d" if "disk_known (disk_env q 0 lc r support 0 False None) es (sc_element sc)"
    using that assms by (fastforce simp: pages_ok_def disk_good_def disk_known_def search_env_for_def sc_tid_def)
  moreover have D: "disk_D (disk_env q ef lc r support m ins skip) es (VTid t) =
      (case tid_distance q support r t of Inl _ \<Rightarrow> f8_zero | Inr d \<Rightarrow> d)" for t
    by (simp add: disk_D_def search_env_for_def)
  ultimately show ?thesis
    unfolding disk.sound_def disk_entry_ok_def k sc_tid_def [symmetric] D by (auto split: sum.splits)
qed

definition disk_nbrs :: "Relation \<Rightarrow> nat \<Rightarrow> nat \<Rightarrow> ItemPointerData \<Rightarrow> ItemPointerData set" where
  "disk_nbrs r m lc t = (case tid_tuple r t of Inl _ \<Rightarrow> {} | Inr et \<Rightarrow> tid_nbrs r m lc et)"

lemma disk_N_eq: "disk_N (disk_env q ef lc r support m ins skip) es (VTid t) = VTid ` disk_nbrs r m lc t"
  by (simp add: disk_N_def search_env_for_def disk_nbrs_def split: sum.splits)

lemma disk_result:
  assumes p: "pages_ok q support m lc r"
    and res: "disk.result_ok (disk_env q ef lc r support m ins skip) V0 n w st"
  shows "w \<noteq> []" and "\<And>c. c \<in> set w \<Longrightarrow> disk_entry_ok q support lc r (ss_elems st) c"
    and "sorted_wrt (\<lambda>a b. \<not> f8_lt (sc_distance a) (sc_distance b)) w" and "distinct (map (sc_tid (ss_elems st)) w)"
    and "skip = None \<Longrightarrow> length w \<le> max ef n"
    and "\<And>c t. c \<in> set w \<Longrightarrow> t \<in> disk_nbrs r m lc (sc_tid (ss_elems st) c) \<Longrightarrow> VTid t \<in> ss_v st"
    and "\<And>t. VTid t \<in> ss_v st - V0 \<Longrightarrow> t \<in> sc_tid (ss_elems st) ` set w \<or> (ef \<le> length w \<and> (\<forall>x\<in>set w. \<forall>d.
      tid_distance q support r t = Inr d \<longrightarrow> \<not> f8_lt d (sc_distance x)))"
    and "\<And>t h. VTid t \<in> ss_v st - V0 \<Longrightarrow> ss_discarded st = Some h \<Longrightarrow>
      t \<in> sc_tid (ss_elems st) ` set w \<or> t \<in> sc_tid (ss_elems st) ` set_mset (ph_mset h)"
proof -
  let ?env = "disk_env q ef lc r support m ins skip" and ?es = "ss_elems st"
  note r' = res [unfolded disk.result_ok_def]
  have key: "(\<lambda>sc. VTid (ItemPointerSet (he_blkno (?es ! sc_element sc)) (he_offno (?es ! sc_element sc)))) = VTid \<circ> sc_tid ?es"
    by (simp add: fun_eq_iff sc_tid_def)
  have sd: "disk.sound ?env ?es c" if "c \<in> set w" for c using r' that by blast
  then show "\<And>c. c \<in> set w \<Longrightarrow> disk_entry_ok q support lc r ?es c" using disk_entry_sound [OF p] by blast
  have g: "disk_good ?env ?es" using p pages_ok_good by blast
  have "\<forall>c\<in>set w. sc_ok c" using sd disk.sound_ok [OF g] by blast
  then show "sorted_wrt (\<lambda>a b. \<not> f8_lt (sc_distance a) (sc_distance b)) w" using r' result_sorted by blast
  show "w \<noteq> []" using r' by blast
  have "distinct (map (VTid \<circ> sc_tid ?es) w)" using r' unfolding key by blast
  then show "distinct (map (sc_tid ?es) w)" by (auto simp: distinct_map inj_on_def)
  have "se_skipElement ?env = None \<longrightarrow> length w \<le> max (se_ef ?env) n" using r' by blast
  then show "skip = None \<Longrightarrow> length w \<le> max ef n" by (simp add: search_env_for_def)
  have "disk_N ?env ?es (VTid (sc_tid ?es c)) \<subseteq> ss_v st" if "c \<in> set w" for c
    using r' that unfolding sc_tid_def by blast
  then show "\<And>c t. c \<in> set w \<Longrightarrow> t \<in> disk_nbrs r m lc (sc_tid ?es c) \<Longrightarrow> VTid t \<in> ss_v st"
    unfolding disk_N_eq by blast
  show "t \<in> sc_tid ?es ` set w \<or> (ef \<le> length w \<and> (\<forall>x\<in>set w. \<forall>d.
      tid_distance q support r t = Inr d \<longrightarrow> \<not> f8_lt d (sc_distance x)))" if "VTid t \<in> ss_v st - V0" for t
  proof -
    have "VTid t \<in> (VTid \<circ> sc_tid ?es) ` set w \<or>
        (se_ef ?env \<le> length w \<and> (\<forall>x\<in>set w. far_key x \<le> f8_key (disk_D ?env ?es (VTid t))))"
      using r' that unfolding key by blast
    moreover have "disk_D ?env ?es (VTid t) = d" if "tid_distance q support r t = Inr d" for d
      using that by (simp add: disk_D_def search_env_for_def)
    ultimately show ?thesis by (fastforce simp: far_key_def f8_lt_key search_env_for_def)
  qed
  show "t \<in> sc_tid ?es ` set w \<or> t \<in> sc_tid ?es ` set_mset (ph_mset h)"
    if "VTid t \<in> ss_v st - V0" "ss_discarded st = Some h" for t h
  proof -
    have "VTid t \<in> (VTid \<circ> sc_tid ?es) ` set w \<union> disk.dkeys ?env st" using r' that unfolding key by blast
    then show ?thesis using that(2) unfolding disk.dkeys_def key by auto
  qed
qed

lemma search_disk:
  assumes p: "pages_ok q support m lc r"
    and ep: "ep \<noteq> []" "distinct (map (sc_tid es) ep)" "\<forall>sc\<in>set ep. disk_entry_ok q support lc r es sc"
  shows "\<exists>w st. HnswSearchLayer (disk_env q ef lc r support m ins skip) es ep v d True tuples = Inr (w, st) \<and>
    disk.result_ok (disk_env q ef lc r support m ins skip) {} (length ep) w st \<and> VTid ` sc_tid es ` set ep \<subseteq> ss_v st"
proof -
  let ?env = "disk_env q ef lc r support m ins skip"
  have key: "(\<lambda>sc. VTid (ItemPointerSet (he_blkno (es ! sc_element sc)) (he_offno (es ! sc_element sc)))) = VTid \<circ> sc_tid es"
    by (simp add: fun_eq_iff sc_tid_def)
  have s: "disk.sound ?env es sc" if "sc \<in> set ep" for sc using ep(3) that disk_entry_sound [OF p] by blast
  have g: "disk_good ?env es" using p pages_ok_good by blast
  have dk: "distinct (map (\<lambda>sc. VTid (ItemPointerSet (he_blkno (es ! sc_element sc)) (he_offno (es ! sc_element sc)))) ep)"
    unfolding key using ep(2) by (simp add: distinct_map inj_on_def)
  show ?thesis
    using disk.search_correct [OF g ep(1) s dk, where R = UNIV and v = v and d = d and tuples = tuples]
    unfolding key disk.closed_set_def by (auto simp: image_image)
qed

text \<open>C14: the same on disk, for the pages of an index: the search returns, its results are live elements of the layer
  with the distances of their tuples, distinct and furthest first, and it is locally optimal with respect to the stored
  neighbour lists.\<close>

theorem search_layer_disk:
  assumes "pages_ok q support m lc r" and "ep \<noteq> []" and "distinct (map (sc_tid elems) ep)"
    and "\<forall>sc\<in>set ep. disk_entry_ok q support lc r elems sc"
  shows "\<exists>w st. HnswSearchLayer (search_env_for q ef lc (Some r) support m ins None) elems ep None None True None = Inr (w, st) \<and>
    w \<noteq> [] \<and> length w \<le> max ef (length ep) \<and> distinct (map (sc_tid (ss_elems st)) w) \<and>
    sorted_wrt (\<lambda>a b. \<not> f8_lt (sc_distance a) (sc_distance b)) w \<and>
    (\<forall>c\<in>set w. disk_entry_ok q support lc r (ss_elems st) c) \<and>
    (\<forall>c\<in>set w. \<forall>t\<in>disk_nbrs r m lc (sc_tid (ss_elems st) c). t \<in> sc_tid (ss_elems st) ` set w \<or>
       (ef \<le> length w \<and> (\<forall>x\<in>set w. \<forall>d. tid_distance q support r t = Inr d \<longrightarrow> \<not> f8_lt d (sc_distance x))))"
proof -
  obtain w st where s: "HnswSearchLayer (disk_env q ef lc r support m ins None) elems ep None None True None = Inr (w, st)"
    and r: "disk.result_ok (disk_env q ef lc r support m ins None) {} (length ep) w st"
    using search_disk [OF assms(1,2,3,4)] by blast
  note d = disk_result [OF assms(1) r]
  show ?thesis
    using s d(1-5) d(7) [unfolded Diff_empty, OF d(6)] by blast
qed

text \<open>C15: with a discarded heap (an iterative scan) no visited element is lost: each is a result or is kept in
  the heap for the next iteration.\<close>

theorem search_layer_discarded:
  assumes "pages_ok q support m lc r" and "ep \<noteq> []" and "distinct (map (sc_tid elems) ep)"
    and "\<forall>sc\<in>set ep. disk_entry_ok q support lc r elems sc"
  shows "\<exists>w st h. HnswSearchLayer (search_env_for q ef lc (Some r) support m ins skip) elems ep v (Some h0) True tuples = Inr (w, st) \<and>
    ss_discarded st = Some h \<and> VTid ` sc_tid elems ` set ep \<subseteq> ss_v st \<and>
    (\<forall>t. VTid t \<in> ss_v st \<longrightarrow> t \<in> sc_tid (ss_elems st) ` set w \<or> t \<in> sc_tid (ss_elems st) ` set_mset (ph_mset h)) \<and>
    (\<forall>c\<in>set w. \<forall>t\<in>disk_nbrs r m lc (sc_tid (ss_elems st) c). VTid t \<in> ss_v st)"
proof -
  obtain w st where s: "HnswSearchLayer (disk_env q ef lc r support m ins skip) elems ep v (Some h0) True tuples = Inr (w, st)"
    and r: "disk.result_ok (disk_env q ef lc r support m ins skip) {} (length ep) w st" "VTid ` sc_tid elems ` set ep \<subseteq> ss_v st"
    using search_disk [OF assms(1,2,3,4)] by blast
  obtain h where h: "ss_discarded st = Some h" using HnswSearchLayer_discarded [OF s] by auto
  note d = disk_result [OF assms(1) r(1)]
  show ?thesis
    using s r(2) h d(6) d(8) [unfolded Diff_empty, OF _ h] by blast
qed

text \<open>An index of one page with two elements of level 0, each the other's neighbour, for the examples.\<close>

definition pair_etup :: "nat \<Rightarrow> HnswElementTupleData" where
  "pair_etup noff = \<lparr>et_level = 0, et_deleted = 0, et_version = 1, et_heaptids = ItemPointerSet 7 noff # replicate 9 InvalidItemPointer,
     et_neighbortid = ItemPointerSet 1 noff, et_unused = 0, et_data = one_vec, et_datalen = 12\<rparr>"

definition pair_ntup :: "nat \<Rightarrow> HnswNeighborTupleData" where
  "pair_ntup off = \<lparr>nt_version = 1, nt_count = 4, nt_indextids = ItemPointerSet 1 off # replicate 3 InvalidItemPointer\<rparr>"

definition pair_page :: hpage where
  "pair_page = HnswInitPage\<lparr>ip_lower := 40, ip_upper := 7944,
     ip_items := [ElementTup (pair_etup 2), NeighborTup (pair_ntup 3), ElementTup (pair_etup 4), NeighborTup (pair_ntup 1)]\<rparr>"

definition pair_meta :: HnswMetaPageData where
  "pair_meta = \<lparr>mp_magicNumber = HNSW_MAGIC_NUMBER, mp_version = HNSW_VERSION, mp_dimensions = 1, mp_m = 2, mp_efConstruction = 4,
     mp_entryBlkno = 1, mp_entryOffno = 1, mp_entryLevel = 0, mp_insertPage = 1\<rparr>"

definition pair_rel :: Relation where
  "pair_rel = \<lparr>rel_options = None, rel_blocks = [MetaBlock pair_meta HNSW_PAGE_ID, GraphBlock pair_page]\<rparr>"

lemma pair_read [simp]:
  "read_page pair_rel b = (if b = 1 then Inr pair_page else if b = 0 then Inl UndefinedBehaviour else Inl (ErrBadBlock b))"
  by (auto simp: read_page_def pair_rel_def less_Suc_eq)

lemma pair_tuple:
  "tid_tuple pair_rel t = Inr et \<longleftrightarrow> ip_blkid t = 1 \<and> (ip_posid t = 1 \<and> et = pair_etup 2 \<or> ip_posid t = 3 \<and> et = pair_etup 4)"
  by (auto simp: tid_tuple_def element_tuple_def page_tuple_def ip_get_def nth_r_def pair_page_def less_Suc_eq numeral_eq_Suc
      split: if_splits)

lemma pair_slice:
  "tid_slice pair_rel 2 0 (pair_etup 2) = Inr (Some (nt_indextids (pair_ntup 3)))"
  "tid_slice pair_rel 2 0 (pair_etup 4) = Inr (Some (nt_indextids (pair_ntup 1)))"
  by (simp_all add: tid_slice_def HnswLoadNeighborTids_def HnswLoadElementFromTuple_def Let_def pair_etup_def neighbor_tuple_def
      page_tuple_def ip_get_def pair_page_def pair_ntup_def HnswGetLayerM_def numeral_eq_Suc)

lemma pair_live: "live_tid pair_rel 0 t \<longleftrightarrow> ip_blkid t = 1 \<and> (ip_posid t = 1 \<or> ip_posid t = 3)"
proof (cases "tid_tuple pair_rel t")
  case (Inl e)
  then show ?thesis using pair_tuple [of t] by (auto simp: live_tid_def)
next
  case (Inr et)
  then show ?thesis using pair_tuple [of t et] by (auto simp: live_tid_def pair_etup_def)
qed

lemma pair_pages_ok: "pages_ok (Some one_vec) l2_support 2 0 pair_rel"
proof -
  have d: "tid_distance (Some one_vec) l2_support pair_rel t = Inr f8_zero" if "tid_tuple pair_rel t = Inr et" for t et
    using that pair_tuple [of t et] l2_distance_self [OF one_vec_wf(1)]
    by (auto simp: tid_distance_def HnswGetDistance_def l2_support_def pair_etup_def)
  have "\<not> f8_isnan f8_zero" using f8_pos_zero by (simp add: f8_pos_def)
  moreover have "tid_nbrs pair_rel 2 0 (pair_etup 2) = {ItemPointerSet 1 3}" "tid_nbrs pair_rel 2 0 (pair_etup 4) = {ItemPointerSet 1 1}"
    by (simp_all add: tid_nbrs_def pair_slice pair_ntup_def)
  ultimately show ?thesis
    using d pair_slice
    by (auto simp: pages_ok_def disk_good_def search_env_for_def HnswGetLayerM_def hnsw_const pair_live pair_tuple)
qed

text \<open>The first element, loaded.\<close>

definition pair_loaded :: elems where
  "pair_loaded = [HnswLoadElementFromTuple (HnswInitElementFromBlock 1 1) (pair_etup 2) True True]"

lemma pair_loaded_ok:
  "disk_entry_ok (Some one_vec) l2_support 0 pair_rel pair_loaded pair_entry" "sc_tid pair_loaded pair_entry = ItemPointerSet 1 1"
proof -
  show t: "sc_tid pair_loaded pair_entry = ItemPointerSet 1 1"
    by (simp add: sc_tid_def pair_loaded_def pair_entry_def HnswLoadElementFromTuple_def HnswInitElementFromBlock_def Let_def)
  have "tid_tuple pair_rel (ItemPointerSet 1 1) = Inr (pair_etup 2)" by (simp add: pair_tuple)
  moreover have "tid_distance (Some one_vec) l2_support pair_rel (ItemPointerSet 1 1) = Inr f8_zero"
    using calculation l2_distance_self [OF one_vec_wf(1)]
    by (auto simp: tid_distance_def HnswGetDistance_def l2_support_def pair_etup_def)
  ultimately show "disk_entry_ok (Some one_vec) l2_support 0 pair_rel pair_loaded pair_entry"
    unfolding disk_entry_ok_def t
    by (simp add: disk_known_def search_env_for_def pair_loaded_def pair_entry_def HnswLoadElementFromTuple_def
        HnswInitElementFromBlock_def Let_def pair_live)
qed

theorem search_layer_disk_witness:
  "\<exists>w st. HnswSearchLayer (search_env_for (Some one_vec) 1 0 (Some pair_rel) l2_support 2 False None) pair_loaded [pair_entry]
     None None True None = Inr (w, st) \<and> length w = 1"
proof -
  have "length w = 1" if "w \<noteq> []" "length w \<le> max 1 (length [pair_entry])" for w :: "HnswSearchCandidate list"
    using that by (cases w) auto
  then show ?thesis
    using search_layer_disk [OF pair_pages_ok, of "[pair_entry]" pair_loaded 1 False] pair_loaded_ok by auto
qed

theorem search_layer_discarded_witness:
  "\<exists>w st h. HnswSearchLayer (search_env_for (Some one_vec) 1 0 (Some pair_rel) l2_support 2 False None) pair_loaded [pair_entry]
     (Some {}) (Some (pairingheap_allocate CompareNearestDiscardedCandidates)) True (Some 0) = Inr (w, st) \<and>
     ss_discarded st = Some h \<and> VTid (ItemPointerSet 1 1) \<in> ss_v st"
  using search_layer_discarded [OF pair_pages_ok, of "[pair_entry]" pair_loaded 1 False None "Some {}" _ "Some 0"] pair_loaded_ok
  by fastforce

end
