(* ===== verification/HnswSelect.thy ===== *)
theory HnswSelect
  imports HnswSearch
begin

text \<open>
  Neighbour selection and connection updates (\<open>SelectNeighbors\<close>, \<open>CheckElementCloser\<close> and \<open>HnswUpdateConnection\<close> of
  \<open>src/backend/access/hnsw/hnswutils.c\<close>): they always return, select as many candidates as there is room for, by the
  diversity heuristic, and keep the arrays within their capacity.
\<close>

section \<open>Neighbour selection returns\<close>

text \<open>Candidates that differ in their \<open>closer\<close> flags only.\<close>

definition same_cands :: "HnswCandidate list \<Rightarrow> HnswCandidate list \<Rightarrow> bool" where
  "same_cands cs cs' \<longleftrightarrow> map hc_element cs' = map hc_element cs \<and> map hc_distance cs' = map hc_distance cs"

lemma same_cands_refl [simp]: "same_cands cs cs"
  by (simp add: same_cands_def)

lemma same_cands_trans: "same_cands a b \<Longrightarrow> same_cands b c \<Longrightarrow> same_cands a c"
  by (simp add: same_cands_def)

lemma same_cands_length: "same_cands cs cs' \<Longrightarrow> length cs' = length cs"
  unfolding same_cands_def by (metis length_map)

lemma same_cands_nth: "same_cands cs cs' \<Longrightarrow> i < length cs \<Longrightarrow> hc_element (cs' ! i) = hc_element (cs ! i)"
  unfolding same_cands_def by (metis length_map nth_map)

lemma same_cands_closer: "e < length cs \<Longrightarrow> same_cands cs (set_closer cs e b)"
  by (simp add: same_cands_def set_closer_def map_update list_update_same_conv)

text \<open>Candidates whose elements have values of the dimension the distance is total on.\<close>

definition cands_ok :: "elems \<Rightarrow> int \<Rightarrow> HnswCandidate list \<Rightarrow> bool" where
  "cands_ok es dim cs \<longleftrightarrow> (\<forall>hc\<in>set cs. \<exists>v. cand_value es hc = Inr v \<and> vec_wf v \<and> v_dim v = dim)"

lemma cand_value_element: "hc_element a = hc_element b \<Longrightarrow> cand_value es a = cand_value es b"
  by (simp add: cand_value_def)

lemma cands_okD: "cands_ok es dim cs \<Longrightarrow> i < length cs \<Longrightarrow> \<exists>v. cand_value es (cs ! i) = Inr v \<and> vec_wf v \<and> v_dim v = dim"
  by (simp add: cands_ok_def)

lemma cands_ok_same: "cands_ok es dim cs \<Longrightarrow> same_cands cs cs' \<Longrightarrow> cands_ok es dim cs'"
  unfolding cands_ok_def [of es dim cs']
proof (intro ballI)
  fix hc assume ok: "cands_ok es dim cs" and s: "same_cands cs cs'" and hc: "hc \<in> set cs'"
  obtain i where i: "i < length cs'" "hc = cs' ! i" using hc by (auto simp: in_set_conv_nth)
  have l: "i < length cs" using i(1) same_cands_length [OF s] by simp
  have "cand_value es hc = cand_value es (cs ! i)" unfolding i(2) by (rule cand_value_element [OF same_cands_nth [OF s l]])
  then show "\<exists>v. cand_value es hc = Inr v \<and> vec_wf v \<and> v_dim v = dim" using cands_okD [OF ok l] by simp
qed

lemma CheckElementCloser_total:
  assumes d: "dist_ok support dim" and c: "cands_ok es dim cs" and e: "e < length cs"
  shows "\<forall>i\<in>set rs. i < length cs \<Longrightarrow> \<exists>b. CheckElementCloser es support cs e rs = Inr b"
proof (induction rs)
  case (Cons ri rs)
  obtain v where v: "cand_value es (cs ! e) = Inr v" "vec_wf v" "v_dim v = dim" using cands_okD [OF c e] by blast
  obtain w where w: "cand_value es (cs ! ri) = Inr w" "vec_wf w" "v_dim w = dim" using cands_okD [OF c, of ri] Cons.prems by auto
  obtain x where "sup_procinfo support v w = Inr x" using d v w by (auto simp: dist_ok_def)
  then have "CheckElementCloser es support cs e (ri # rs) =
      (if f4_le (f4_of_f8 x) (hc_distance (cs ! e)) then Inr False else CheckElementCloser es support cs e rs)"
    using Cons.prems e v(1) w(1) by (simp add: HnswGetDistance_def)
  moreover obtain b where "CheckElementCloser es support cs e rs = Inr b" using Cons.IH Cons.prems by auto
  ultimately show ?case by (intro exI [of _ "if f4_le (f4_of_f8 x) (hc_distance (cs ! e)) then False else b"]) simp
qed (simp, blast)

lemma decide_closer_total:
  assumes d: "dist_ok support dim" and c: "cands_ok es dim (sl_cs st)" and e: "e < length (sl_cs st)"
    and r: "\<forall>i\<in>set (sl_r st) \<union> set (sl_added st). i < length (sl_cs st)"
  shows "\<exists>st1. decide_closer es support mc nc e st = Inr st1 \<and> same_cands (sl_cs st) (sl_cs st1) \<and> sl_w st1 = sl_w st \<and> sl_r st1 = sl_r st \<and>
    sl_wd st1 = sl_wd st \<and> set (sl_added st1) \<subseteq> insert e (set (sl_added st))"
proof -
  obtain b1 where b1: "CheckElementCloser es support (sl_cs st) e (sl_r st) = Inr b1" using CheckElementCloser_total [OF d c e] r by blast
  obtain b2 where b2: "CheckElementCloser es support (sl_cs st) e (sl_added st) = Inr b2" using CheckElementCloser_total [OF d c e] r by blast
  show ?thesis
    unfolding decide_closer_def Let_def b1 b2 rbind_simps using same_cands_closer [OF e] by (auto split: if_splits)
qed

text \<open>The loop of \<open>SelectNeighbors\<close>: the candidates are distributed over the three lists and nothing is lost.\<close>

definition all_cands :: "select_state \<Rightarrow> nat multiset" where
  "all_cands st = mset (sl_w st) + mset (sl_r st) + mset (sl_wd st)"

lemma select_loop_total:
  "\<lbrakk>dist_ok support dim; cands_ok es dim (sl_cs st); \<forall>i\<in>#all_cands st. i < length (sl_cs st); \<forall>i\<in>set (sl_added st). i < length (sl_cs st);
    length (sl_r st) \<le> lm\<rbrakk> \<Longrightarrow>
   \<exists>st'. select_loop es support mc nc lm st = Inr st' \<and> same_cands (sl_cs st) (sl_cs st') \<and> all_cands st' = all_cands st \<and> length (sl_r st') \<le> lm \<and>
     (sl_w st' = [] \<or> length (sl_r st') = lm)"
proof (induction es support mc nc lm st rule: select_loop.induct)
  case (1 es support mc nc lm st)
  show ?case
  proof (cases "sl_w st = [] \<or> \<not> length (sl_r st) < lm")
    case True
    then show ?thesis using "1.prems" by (subst select_loop.simps) auto
  next
    case False
    define e where "e = last (sl_w st)"
    define st0 where "st0 = st\<lparr>sl_w := butlast (sl_w st)\<rparr>"
    have w: "sl_w st = butlast (sl_w st) @ [e]" using False by (simp add: e_def)
    have mw: "mset (sl_w st) = add_mset e (mset (butlast (sl_w st)))" by (subst w) simp
    have e: "e < length (sl_cs st0)" using "1.prems"(3) mw by (simp add: all_cands_def st0_def)
    have r: "\<forall>i\<in>set (sl_r st0) \<union> set (sl_added st0). i < length (sl_cs st0)" using "1.prems"(3,4) by (auto simp: all_cands_def st0_def)
    have c0: "cands_ok es dim (sl_cs st0)" using "1.prems"(2) by (simp add: st0_def)
    obtain st1 where s1: "decide_closer es support mc nc e st0 = Inr st1" "same_cands (sl_cs st0) (sl_cs st1)" "sl_w st1 = sl_w st0" "sl_r st1 = sl_r st0"
        "sl_wd st1 = sl_wd st0" "set (sl_added st1) \<subseteq> insert e (set (sl_added st0))"
      using decide_closer_total [OF "1.prems"(1) c0 e r] by blast
    define st2 where "st2 = (if hc_closer (sl_cs st1 ! e) then st1\<lparr>sl_r := sl_r st1 @ [e]\<rparr> else st1\<lparr>sl_wd := sl_wd st1 @ [e]\<rparr>)"
    have st2: "sl_cs st2 = sl_cs st1" "sl_added st2 = sl_added st1" "all_cands st2 = all_cands st" "length (sl_r st2) \<le> lm"
      using s1(3-5) mw False by (auto simp: st2_def all_cands_def st0_def)
    note len = same_cands_length [OF s1(2)]
    have step: "select_loop es support mc nc lm st = select_loop es support mc nc lm st2"
      using False s1(1) by (subst select_loop.simps) (simp add: Let_def e_def [symmetric] st0_def [symmetric] st2_def)
    have "\<exists>st'. select_loop es support mc nc lm st2 = Inr st' \<and> same_cands (sl_cs st2) (sl_cs st') \<and> all_cands st' = all_cands st2 \<and>
        length (sl_r st') \<le> lm \<and> (sl_w st' = [] \<or> length (sl_r st') = lm)"
      unfolding st2_def
    proof (rule "1.IH" [OF False refl, folded e_def st0_def])
      show "decide_closer es support mc nc e st0 = Inr st1" by (rule s1(1))
    qed (use "1.prems"(1,3,4) st2 s1(2,6) len e cands_ok_same [OF c0 s1(2)] in \<open>auto simp: st2_def [symmetric] st0_def\<close>)
    then show ?thesis unfolding step using st2 s1(2) same_cands_trans by (fastforce simp: st0_def)
  qed
qed

text \<open>The heuristic when no flag is cached: a candidate is selected when it is closer to the base element than to every candidate selected
  before it, and otherwise set aside.\<close>

lemma CheckElementCloser_same: "same_cands cs cs' \<Longrightarrow> CheckElementCloser es support cs' e rs = CheckElementCloser es support cs e rs"
proof (induction rs)
  case (Cons ri rs)
  note l = same_cands_length [OF Cons.prems]
  have v: "cand_value es (cs' ! i) = cand_value es (cs ! i)" "hc_distance (cs' ! i) = hc_distance (cs ! i)" if i: "i < length cs" for i
  proof -
    show "cand_value es (cs' ! i) = cand_value es (cs ! i)" by (rule cand_value_element [OF same_cands_nth [OF Cons.prems i]])
    show "hc_distance (cs' ! i) = hc_distance (cs ! i)" using Cons.prems i unfolding same_cands_def by (metis length_map nth_map)
  qed
  show ?case
  proof (cases "e < length cs \<and> ri < length cs")
    case True
    then show ?thesis unfolding CheckElementCloser.simps Cons.IH [OF Cons.prems] using v l by simp
  next
    case False
    then show ?thesis using l by (cases "e < length cs") (simp_all add: nth_r_def)
  qed
qed simp

definition diverse :: "elems \<Rightarrow> HnswSupport \<Rightarrow> HnswCandidate list \<Rightarrow> nat list \<Rightarrow> nat list \<Rightarrow> bool" where
  "diverse es support cs r wd \<longleftrightarrow> (\<forall>i<length r. CheckElementCloser es support cs (r ! i) (take i r) = Inr True) \<and>
     (\<forall>e\<in>set wd. \<exists>j\<le>length r. CheckElementCloser es support cs e (take j r) = Inr False)"

lemma diverse_append:
  assumes "diverse es support cs r wd" "CheckElementCloser es support cs e r = Inr b"
  shows "if b then diverse es support cs (r @ [e]) wd else diverse es support cs r (wd @ [e])"
proof (cases b)
  case True
  have "\<exists>j\<le>length (r @ [e]). CheckElementCloser es support cs x (take j (r @ [e])) = Inr False" if x: "x \<in> set wd" for x
  proof -
    obtain j where "j \<le> length r" "CheckElementCloser es support cs x (take j r) = Inr False" using assms(1) x unfolding diverse_def by blast
    then show ?thesis by (intro exI [of _ j]) simp
  qed
  then show ?thesis using assms True by (simp add: diverse_def nth_append less_Suc_eq)
next
  case False
  then have "\<exists>j\<le>length r. CheckElementCloser es support cs e (take j r) = Inr False" using assms(2) by (intro exI [of _ "length r"]) simp
  then show ?thesis using assms(1) False by (simp add: diverse_def)
qed

lemma select_loop_diverse:
  "\<lbrakk>select_loop es support mc nc lm st = Inr st'; mc; same_cands cs (sl_cs st); \<forall>i\<in>set (sl_w st). i < length cs; diverse es support cs (sl_r st) (sl_wd st)\<rbrakk> \<Longrightarrow>
   diverse es support cs (sl_r st') (sl_wd st')"
proof (induction es support mc nc lm st rule: select_loop.induct)
  case (1 es support mc nc lm st)
  show ?case
  proof (cases "sl_w st = [] \<or> \<not> length (sl_r st) < lm")
    case True
    have "select_loop es support mc nc lm st = Inr st" using True by (subst select_loop.simps) simp
    then show ?thesis using "1.prems"(1,5) by simp
  next
    case False
    define e where "e = last (sl_w st)"
    define st0 where "st0 = st\<lparr>sl_w := butlast (sl_w st)\<rparr>"
    have e: "e < length (sl_cs st)" using "1.prems"(3,4) False same_cands_length by (simp add: e_def)
    obtain b where b: "CheckElementCloser es support (sl_cs st) e (sl_r st) = Inr b" "decide_closer es support mc nc e st0 = Inr (st0\<lparr>sl_cs := set_closer (sl_cs st) e b\<rparr>)"
    proof -
      obtain st1 where "decide_closer es support mc nc e st0 = Inr st1"
        using "1.prems"(1) False by (subst (asm) select_loop.simps) (auto simp: Let_def rbind_InrE e_def st0_def)
      then show ?thesis using that "1.prems"(2) by (auto simp: decide_closer_def Let_def rbind_InrE st0_def)
    qed
    have c: "CheckElementCloser es support cs e (sl_r st) = Inr b" using b(1) CheckElementCloser_same [OF "1.prems"(3)] by simp
    define st1 where "st1 = st0\<lparr>sl_cs := set_closer (sl_cs st) e b\<rparr>"
    define st2 where "st2 = (if hc_closer (sl_cs st1 ! e) then st1\<lparr>sl_r := sl_r st1 @ [e]\<rparr> else st1\<lparr>sl_wd := sl_wd st1 @ [e]\<rparr>)"
    have f: "hc_closer (sl_cs st1 ! e) = b" using e by (simp add: st1_def set_closer_def)
    have st2: "sl_cs st2 = set_closer (sl_cs st) e b" "sl_w st2 = butlast (sl_w st)" "sl_r st2 = (if b then sl_r st @ [e] else sl_r st)" "sl_wd st2 = (if b then sl_wd st else sl_wd st @ [e])"
      unfolding st2_def f by (simp_all add: st1_def st0_def)
    have run: "select_loop es support mc nc lm st2 = Inr st'"
      using "1.prems"(1) False b(2) by (subst (asm) select_loop.simps) (simp add: Let_def e_def [symmetric] st0_def [symmetric] st1_def [symmetric] st2_def)
    have sc: "same_cands cs (sl_cs st2)" unfolding st2 by (rule same_cands_trans [OF "1.prems"(3) same_cands_closer [OF e]])
    have dv: "diverse es support cs (sl_r st2) (sl_wd st2)" using diverse_append [OF "1.prems"(5) c] unfolding st2 by (simp split: if_splits)
    show ?thesis
    proof (rule "1.IH" [OF False refl, folded e_def st0_def, OF b(2) [folded st1_def], folded st2_def, OF run "1.prems"(2) sc _ dv])
      show "\<forall>i\<in>set (sl_w st2). i < length cs" using "1.prems"(4) by (auto simp: st2 dest: in_set_butlastD)
    qed
  qed
qed

text \<open>The selection \<open>r\<close>: \<open>k\<close> candidates that pass the test, then candidates that failed it.\<close>

definition chosen :: "elems \<Rightarrow> HnswSupport \<Rightarrow> HnswCandidate list \<Rightarrow> nat list \<Rightarrow> nat \<Rightarrow> bool" where
  "chosen es support cs r k \<longleftrightarrow> k \<le> length r \<and> diverse es support cs (take k r) (drop k r)"

lemma sort_insert_mset: "mset (sort_insert cmp x xs) = add_mset x (mset xs)"
  by (induction xs) (auto simp: add_mset_commute)

lemma list_sort_mset [simp]: "mset (list_sort cmp xs) = mset xs"
  unfolding list_sort_def by (induction xs) (simp_all add: sort_insert_mset)

lemma SelectNeighbors_total:
  assumes d: "dist_ok support dim" and c: "cands_ok es dim cs"
  shows "\<exists>r pruned cs' cl. SelectNeighbors es bn cs lm support closerSet nc wantPruned sortc = Inr (r, pruned, cs', cl) \<and> same_cands cs cs' \<and>
    length r = min lm (length cs) \<and> distinct r \<and> set r \<subseteq> {..<length cs} \<and> (\<forall>i. pruned = Some i \<longrightarrow> i < length cs \<and> i \<notin> set r) \<and>
    (pruned = None \<longleftrightarrow> length cs \<le> lm \<or> \<not> wantPruned) \<and>
    (\<not> closerSet \<and> lm < length cs \<longrightarrow> (\<exists>k. chosen es support cs r k))"
proof (cases "length cs \<le> lm")
  case True
  then show ?thesis by (auto simp: SelectNeighbors_def)
next
  case False
  let ?cmp = "if bn then CompareCandidateDistances else CompareCandidateDistancesOffset"
  define w where "w = (if sortc then list_sort (\<lambda>a b. ?cmp (cs ! a) (cs ! b)) [0..<length cs] else [0..<length cs])"
  define st0 where "st0 = \<lparr>sl_cs = cs, sl_w = w, sl_r = [], sl_wd = [], sl_added = [], sl_removedAny = False\<rparr>"
  have mw: "mset w = mset [0..<length cs]" by (simp add: w_def)
  have a0: "all_cands st0 = mset [0..<length cs]" using mw by (simp add: all_cands_def st0_def)
  obtain st where s: "select_loop es support (\<not> closerSet) nc lm st0 = Inr st" "same_cands cs (sl_cs st)" "all_cands st = mset [0..<length cs]"
      "length (sl_r st) \<le> lm" "sl_w st = [] \<or> length (sl_r st) = lm"
    using select_loop_total [OF d, of es st0 lm "\<not> closerSet" nc] c a0 by (auto simp: st0_def)
  define k where "k = min (length (sl_wd st)) (lm - length (sl_r st))"
  have perm: "mset (sl_w st @ sl_r st @ sl_wd st) = mset [0..<length cs]" using s(3) by (simp add: all_cands_def add.assoc)
  then have dst: "distinct (sl_w st @ sl_r st @ sl_wd st)" "set (sl_w st @ sl_r st @ sl_wd st) = {..<length cs}"
    using mset_eq_imp_distinct_iff [OF perm] mset_eq_setD [OF perm] by auto
  have len: "length (sl_w st) + length (sl_r st) + length (sl_wd st) = length cs" using arg_cong [OF perm, of size] by simp
  define r where "r = sl_r st @ take k (sl_wd st)"
  have r: "length r = min lm (length cs)" "distinct r" "set r \<subseteq> {..<length cs}"
  proof -
    show "length r = min lm (length cs)" using s(4,5) len False by (auto simp: r_def k_def)
    show "distinct r" "set r \<subseteq> {..<length cs}" using dst by (auto simp: r_def distinct_take dest: in_set_takeD)
  qed
  have ch: "\<exists>k. chosen es support cs r k" if "\<not> closerSet"
  proof -
    have "\<forall>i\<in>set w. i < length cs" using mset_eq_setD [OF mw] by auto
    then have "diverse es support cs (sl_r st) (sl_wd st)"
      by (intro select_loop_diverse [OF s(1)]) (use that in \<open>simp_all add: st0_def diverse_def\<close>)
    then have "chosen es support cs r (length (sl_r st))" by (auto simp: chosen_def r_def diverse_def dest: in_set_takeD)
    then show ?thesis by blast
  qed
  have ne: "sl_w st \<noteq> []" if "\<not> k < length (sl_wd st)" using that len False s(4) by (auto simp: k_def)
  have hd: "hd (sl_w st) < length cs \<and> hd (sl_w st) \<notin> set r" if "sl_w st \<noteq> []"
    using dst hd_in_set [OF that] by (auto simp: r_def dest: in_set_takeD)
  have wd: "sl_wd st ! k < length cs \<and> sl_wd st ! k \<notin> set r" if K: "k < length (sl_wd st)"
  proof -
    have "sl_wd st ! k \<in> set (sl_wd st)" by (rule nth_mem [OF K])
    moreover have "sl_wd st ! k \<notin> set (take k (sl_wd st))" using dst(1) K by (auto simp: in_set_conv_nth nth_eq_iff_index_eq)
    ultimately show ?thesis using dst by (auto simp: r_def)
  qed
  have "SelectNeighbors es bn cs lm support closerSet nc wantPruned sortc =
      (if \<not> wantPruned then Inr (r, None, sl_cs st, sortc)
       else if k < length (sl_wd st) then Inr (r, Some (sl_wd st ! k), sl_cs st, sortc)
       else if sl_w st = [] then Inl UndefinedBehaviour else Inr (r, Some (hd (sl_w st)), sl_cs st, sortc))"
    using False s(1) unfolding SelectNeighbors_def Let_def w_def [symmetric] st0_def [symmetric] by (simp add: k_def r_def)
  then show ?thesis using r s(2) ne hd wd ch False by (auto split: if_splits)
qed

section \<open>Connection updates\<close>

lemma take_same_cands: "same_cands cs cs' \<Longrightarrow> same_cands (take n cs) (take n cs')"
  by (simp add: same_cands_def take_map [symmetric])

lemma same_cands_elements: "same_cands cs cs' \<Longrightarrow> hc_element ` set cs' = hc_element ` set cs"
  unfolding same_cands_def by (metis set_map)

text \<open>The array keeps its capacity and gets at most the new element: appended where there is room, else in place of the pruned one.\<close>

definition connected :: "HnswNeighborArray \<Rightarrow> HnswNeighborArray \<Rightarrow> eptr \<Rightarrow> nat \<Rightarrow> int option \<Rightarrow> bool" where
  "connected a a' p lm upd \<longleftrightarrow> (case upd of
     None \<Rightarrow> lm \<le> length (na_items a) \<and> map hc_element (na_items a') = map hc_element (na_items a)
   | Some i \<Rightarrow> if i = -2 then length (na_items a) < lm \<and> map hc_element (na_items a') = map hc_element (na_items a) @ [p]
       else lm \<le> length (na_items a) \<and> 0 \<le> i \<and> i < int (length (na_items a)) \<and> map hc_element (na_items a') = (map hc_element (na_items a))[nat i := p])"

lemma connected_subset: "connected a a' p lm upd \<Longrightarrow> hc_element ` set (na_items a') \<subseteq> insert p (hc_element ` set (na_items a))"
proof -
  assume c: "connected a a' p lm upd"
  have "set (map hc_element (na_items a')) \<subseteq> insert p (set (map hc_element (na_items a)))"
    using c set_update_subset_insert [of "map hc_element (na_items a)" _ p] by (auto simp: connected_def simp del: set_map split: option.splits if_splits)
  then show ?thesis by simp
qed

lemma HnswUpdateConnection_total:
  assumes d: "dist_ok support dim" and c: "cands_ok es dim (na_items a @ [\<lparr>hc_element = p, hc_distance = x, hc_closer = False\<rparr>])"
    and cap: "na_cap a = lm" "length (na_items a) \<le> lm"
  shows "\<exists>a' upd. HnswUpdateConnection es bn a p x lm support = Inr (a', upd) \<and> na_cap a' = lm \<and> length (na_items a') \<le> lm \<and> connected a a' p lm upd"
proof (cases "length (na_items a) < lm")
  case True
  then show ?thesis using cap by (auto simp: HnswUpdateConnection_def Let_def connected_def)
next
  case False
  let ?hc = "\<lparr>hc_element = p, hc_distance = x, hc_closer = False\<rparr>" and ?n = "length (na_items a)"
  obtain r pruned cs cl where s: "SelectNeighbors es bn (na_items a @ [?hc]) lm support (na_closerSet a) (Some ?n) True True = Inr (r, pruned, cs, cl)"
      "same_cands (na_items a @ [?hc]) cs"
    using SelectNeighbors_total [OF d c, of bn lm "na_closerSet a" "Some ?n" True True] by blast
  have len: "length cs = Suc ?n" using same_cands_length [OF s(2)] by simp
  have it: "map hc_element (take ?n cs) = map hc_element (na_items a)" using take_same_cands [OF s(2), of ?n] by (simp add: same_cands_def)
  have new: "hc_element (cs ! ?n) = p" using same_cands_nth [OF s(2), of ?n] by simp
  define a1 where "a1 = a\<lparr>na_items := take ?n cs, na_closerSet := cl\<rparr>"
  have keep: ?thesis if "HnswUpdateConnection es bn a p x lm support = Inr (a1, None)"
    using that cap len it False by (intro exI [of _ a1] exI [of _ None]) (simp add: a1_def connected_def)
  have set: ?thesis if u: "HnswUpdateConnection es bn a p x lm support = Inr (a1\<lparr>na_items := (take ?n cs)[i := cs ! ?n]\<rparr>, Some (int i))" "i < ?n" for i
    using u cap len it new False by (intro exI [of _ "a1\<lparr>na_items := (take ?n cs)[i := cs ! ?n]\<rparr>"] exI [of _ "Some (int i)"]) (simp add: a1_def connected_def map_update)
  show ?thesis
  proof (cases pruned)
    case None
    then show ?thesis using False s(1) by (intro keep) (simp add: HnswUpdateConnection_def Let_def a1_def)
  next
    case (Some pr)
    let ?f = "filter (\<lambda>i. hc_element (take ?n cs ! i) = hc_element (cs ! pr)) [0..<?n]"
    show ?thesis
    proof (cases ?f)
      case Nil
      then show ?thesis using False s(1) Some by (intro keep) (simp add: HnswUpdateConnection_def Let_def a1_def)
    next
      case (Cons i rest)
      then have "i \<in> set ?f" by simp
      then have "i < ?n" by simp
      then show ?thesis using False s(1) Some Cons by (intro set) (simp add: HnswUpdateConnection_def Let_def a1_def)
    qed
  qed
qed

section \<open>Properties\<close>

text \<open>C16: neighbour selection always returns: it selects all candidates when they fit, else exactly \<open>lm\<close> distinct ones, and the pruned candidate is
  one that was not selected.  When no flags are cached, the selection is that of the heuristic: first candidates that are closer to the
  base element than to each one selected before, then, where there is room left, candidates that failed that test.\<close>

theorem select_neighbors:
  assumes "dist_ok support dim" and "cands_ok es dim cs"
  shows "\<exists>r pruned cs' cl. SelectNeighbors es bn cs lm support closerSet nc wantPruned sortc = Inr (r, pruned, cs', cl) \<and> same_cands cs cs' \<and>
    length r = min lm (length cs) \<and> distinct r \<and> set r \<subseteq> {..<length cs} \<and> (\<forall>i. pruned = Some i \<longrightarrow> i < length cs \<and> i \<notin> set r) \<and>
    (pruned = None \<longleftrightarrow> length cs \<le> lm \<or> \<not> wantPruned) \<and> (\<not> closerSet \<and> lm < length cs \<longrightarrow> (\<exists>k. chosen es support cs r k))"
  by (rule SelectNeighbors_total [OF assms])

text \<open>Candidates of the example graph.\<close>

definition pair_cand :: "eptr \<Rightarrow> HnswCandidate" where
  "pair_cand p = \<lparr>hc_element = p, hc_distance = 0, hc_closer = False\<rparr>"

lemma pair_cands_ok: "set ps \<subseteq> {0, 1} \<Longrightarrow> cands_ok pair_graph 1 (map pair_cand ps)"
  using one_vec_wf by (auto simp: cands_ok_def cand_value_def pair_cand_def pair_graph_def pair_elem_def)

theorem select_neighbors_witness:
  "\<exists>r pruned cs' cl. SelectNeighbors pair_graph True [pair_cand 0, pair_cand 1] 1 l2_support False None True True = Inr (r, pruned, cs', cl) \<and>
     length r = 1 \<and> pruned \<noteq> None"
proof -
  have "cands_ok pair_graph 1 [pair_cand 0, pair_cand 1]" using pair_cands_ok [of "[0, 1]"] by simp
  from select_neighbors [OF dist_ok_l2 this, of True 1 False None True True] show ?thesis by auto
qed

end
