(* ===== verification/HnswScan.thy ===== *)
theory HnswScan
  imports HnswSearch
begin

text \<open>
  Index scans, \<open>src/backend/access/hnsw/hnswscan.c\<close>: the descent through the layers (Algorithm 5), resuming an iterative
  scan from the discarded candidates, and the tuple-at-a-time interface.  The settings \<open>hnsw.*\<close> are a record; the memory a
  scan has allocated, which PostgreSQL's allocator reports, is a function argument.  The elements a scan loads live in its
  temporary context, here \<open>so_elems\<close>.
\<close>

section \<open>State\<close>

datatype HnswIterativeScanMode = HNSW_ITERATIVE_SCAN_OFF | HNSW_ITERATIVE_SCAN_RELAXED | HNSW_ITERATIVE_SCAN_STRICT

record hnsw_settings =
  hnsw_ef_search :: nat
  hnsw_iterative_scan :: HnswIterativeScanMode
  hnsw_max_scan_tuples :: int
  hnsw_scan_mem_multiplier :: float8

record HnswScanOpaqueData =
  so_typeInfo :: HnswTypeInfo
  so_first :: bool
  so_w :: "HnswSearchCandidate list"
  so_v :: "visited_key set option"
  so_discarded :: "HnswSearchCandidate pairingheap option"
  so_q :: "Vector option"
  so_m :: nat
  so_tuples :: nat
  so_previousDistance :: float8
  so_maxMemory :: nat
  so_support :: HnswSupport
  so_elems :: elems

text \<open>\<open>sd_orderBy\<close>: \<open>None\<close> when the scan has no ORDER BY key, \<open>Some None\<close> for a NULL argument.\<close>

record IndexScanDesc =
  sd_index :: Relation
  sd_orderBy :: "Vector option option"
  sd_mvcc :: bool
  sd_opaque :: "HnswScanOpaqueData option"
  sd_heaptid :: "ItemPointerData option"

section \<open>Collecting candidates\<close>

definition GetScanItems ::
    "hnsw_settings \<Rightarrow> Relation \<Rightarrow> HnswScanOpaqueData \<Rightarrow> Vector option \<Rightarrow> (HnswSearchCandidate list \<times> HnswScanOpaqueData) result" where
  "GetScanItems guc index so value =
     rbind (HnswGetMetaPageInfo index) (\<lambda>(m, entryPoint).
       let so1 = so\<lparr>so_q := value, so_m := m\<rparr> in
       case entryPoint of
         None \<Rightarrow> Inr ([], so1)
       | Some entry \<Rightarrow>
           let ptr = length (so_elems so1) in
           rbind (HnswEntryCandidate (so_elems so1 @ [entry]) ptr value (Some index) (so_support so1) False) (\<lambda>(sc, elems1).
           rbind (nth_r elems1 ptr) (\<lambda>e.
           rbind (greedy_descent value (Some index) (so_support so1) m False None (rev [1..<Suc (he_level e)]) [sc] elems1)
             (\<lambda>(ep, elems2).
           rbind (HnswSearchLayer (search_env_for value (hnsw_ef_search guc) 0 (Some index) (so_support so1) m False None) elems2 ep
                    (Some {}) (if hnsw_iterative_scan guc \<noteq> HNSW_ITERATIVE_SCAN_OFF
                               then Some (pairingheap_allocate CompareNearestDiscardedCandidates) else None)
                    True (Some (so_tuples so1))) (\<lambda>(w, st).
             Inr (w, so1\<lparr>so_elems := ss_elems st, so_v := Some (ss_v st),
                         so_discarded := (if hnsw_iterative_scan guc \<noteq> HNSW_ITERATIVE_SCAN_OFF then ss_discarded st else so_discarded so1),
                         so_tuples := the (ss_tuples st)\<rparr>))))))"

text \<open>Up to \<open>n\<close> candidates from the discarded heap, nearest first.\<close>

fun take_discarded :: "nat \<Rightarrow> HnswSearchCandidate pairingheap \<Rightarrow> HnswSearchCandidate list \<times> HnswSearchCandidate pairingheap" where
  "take_discarded 0 h = ([], h)"
| "take_discarded (Suc n) h =
     (case pairingheap_remove_first h of
        Inl _ \<Rightarrow> ([], h)
      | Inr (sc, h1) \<Rightarrow> let (ep, h2) = take_discarded n h1 in (sc # ep, h2))"

definition ResumeScanItems ::
    "hnsw_settings \<Rightarrow> Relation \<Rightarrow> HnswScanOpaqueData \<Rightarrow> (HnswSearchCandidate list \<times> HnswScanOpaqueData) result" where
  "ResumeScanItems guc index so =
     (case so_discarded so of
        None \<Rightarrow> Inl UndefinedBehaviour
      | Some h \<Rightarrow>
          if pairingheap_is_empty h then Inr ([], so)
          else case so_v so of
            None \<Rightarrow> Inl UndefinedBehaviour
          | Some v \<Rightarrow>
            let batch_size = hnsw_ef_search guc; (ep, h') = take_discarded batch_size h in
            rbind (HnswSearchLayer (search_env_for (so_q so) batch_size 0 (Some index) (so_support so) (so_m so) False None)
                     (so_elems so) ep (Some v) (Some h') False (Some (so_tuples so))) (\<lambda>(w, st).
              Inr (w, so\<lparr>so_elems := ss_elems st, so_v := Some (ss_v st), so_discarded := ss_discarded st,
                         so_tuples := the (ss_tuples st)\<rparr>)))"

definition GetScanValue :: "Vector option \<Rightarrow> HnswScanOpaqueData \<Rightarrow> (Vector option) result" where
  "GetScanValue arg so =
     (case arg of
        None \<Rightarrow> Inr None
      | Some v \<Rightarrow>
          if sup_normprocinfo (so_support so) \<noteq> None
          then rbind (HnswNormValue (so_typeInfo so) v) (\<lambda>v'. Inr (Some v'))
          else Inr (Some v))"

section \<open>Scan start\<close>

text \<open>Conversions between integers and doubles.\<close>

definition f8_of_nat :: "nat \<Rightarrow> float8" where
  "f8_of_nat n = of_nat (f_make binary64 False (round_mag binary64 (n * 2 ^ unit_exp binary64) 1))"

definition size_of_f8 :: "float8 \<Rightarrow> nat result" where
  "size_of_f8 d =
     (let n = mag_int binary64 (f_mag binary64 (unat d)) div 2 ^ unit_exp binary64 in
      if f8_isnan d \<or> f8_isinf d \<or> f_neg binary64 (unat d) \<or> 2 ^ 64 \<le> n then Inl UndefinedBehaviour else Inr n)"

definition hnswbeginscan ::
    "hnsw_settings \<Rightarrow> nat \<Rightarrow> HnswTypeInfo \<Rightarrow> HnswSupport \<Rightarrow> Relation \<Rightarrow> bool \<Rightarrow> IndexScanDesc result" where
  "hnswbeginscan guc work_mem typeInfo support index mvcc =
     (let maxMemory = f8_add (f8_mul (f8_mul (f8_of_nat work_mem) (hnsw_scan_mem_multiplier guc)) (f8_of_nat 1024)) (f8_of_nat 256);
          limit = f8_of_nat (2 ^ 64 - 1);
          lowest = (if f8_lt maxMemory limit then maxMemory else limit) in
      rbind (size_of_f8 lowest) (\<lambda>mx.
        Inr \<lparr>sd_index = index, sd_orderBy = None, sd_mvcc = mvcc,
             sd_opaque = Some \<lparr>so_typeInfo = typeInfo, so_first = False, so_w = [], so_v = None, so_discarded = None, so_q = None,
               so_m = 0, so_tuples = 0, so_previousDistance = 0, so_maxMemory = mx, so_support = support, so_elems = []\<rparr>,
             sd_heaptid = None\<rparr>))"

definition hnswrescan :: "IndexScanDesc \<Rightarrow> Vector option option \<Rightarrow> IndexScanDesc result" where
  "hnswrescan scan orderby =
     (case sd_opaque scan of
        None \<Rightarrow> Inl UndefinedBehaviour
      | Some so \<Rightarrow> Inr (scan\<lparr>sd_opaque := Some (so\<lparr>so_first := True, so_v := None, so_discarded := None, so_tuples := 0,
             so_previousDistance := f8_neg_infinity, so_elems := []\<rparr>),
           sd_orderBy := (case orderby of None \<Rightarrow> sd_orderBy scan | Some k \<Rightarrow> Some k)\<rparr>))"

definition hnswendscan :: "IndexScanDesc \<Rightarrow> IndexScanDesc result" where
  "hnswendscan scan =
     (case sd_opaque scan of None \<Rightarrow> Inl UndefinedBehaviour | Some _ \<Rightarrow> Inr (scan\<lparr>sd_opaque := None\<rparr>))"

section \<open>Fetching a tuple\<close>

definition start_scan :: "hnsw_settings \<Rightarrow> IndexScanDesc \<Rightarrow> HnswScanOpaqueData \<Rightarrow> HnswScanOpaqueData result" where
  "start_scan guc scan so =
     (if so_first so then
        case sd_orderBy scan of
          None \<Rightarrow> Inl ErrNoOrder
        | Some arg \<Rightarrow>
            if \<not> sd_mvcc scan then Inl ErrSnapshot
            else rbind (GetScanValue arg so) (\<lambda>value.
              rbind (GetScanItems guc (sd_index scan) so value) (\<lambda>(w, so1).
                Inr (so1\<lparr>so_w := w, so_first := False\<rparr>)))
      else Inr so)"

text \<open>When \<open>w\<close> is empty; \<open>False\<close> ends the scan.\<close>

definition refill ::
    "hnsw_settings \<Rightarrow> (HnswScanOpaqueData \<Rightarrow> nat) \<Rightarrow> Relation \<Rightarrow> HnswScanOpaqueData \<Rightarrow> (bool \<times> HnswScanOpaqueData) result" where
  "refill guc mem index so =
     (if so_w so \<noteq> [] then Inr (True, so)
      else if hnsw_iterative_scan guc = HNSW_ITERATIVE_SCAN_OFF then Inr (False, so)
      else case so_discarded so of
        None \<Rightarrow> Inr (False, so)
      | Some h \<Rightarrow>
          if int (so_tuples so) \<ge> hnsw_max_scan_tuples guc \<or> mem so > so_maxMemory so then
            if pairingheap_is_empty h then Inr (False, so)
            else rbind (pairingheap_remove_first h) (\<lambda>(sc, h'). Inr (True, so\<lparr>so_w := [sc], so_discarded := Some h'\<rparr>))
          else rbind (ResumeScanItems guc index so) (\<lambda>(w, so1). Inr (w \<noteq> [], so1\<lparr>so_w := w\<rparr>)))"

datatype fetch = Again | Found ItemPointerData float8

text \<open>The last candidate of \<open>w\<close>: its next heap TID, or the next iteration of the loop.\<close>

definition next_heaptid :: "hnsw_settings \<Rightarrow> HnswScanOpaqueData \<Rightarrow> (fetch \<times> HnswScanOpaqueData) result" where
  "next_heaptid guc so =
     (let sc = last (so_w so); p = sc_element sc in
      rbind (nth_r (so_elems so) p) (\<lambda>element.
        if he_heaptids element = [] then Inr (Again, so\<lparr>so_w := butlast (so_w so)\<rparr>)
        else
          let heaptid = last (he_heaptids element);
              so1 = so\<lparr>so_elems := (so_elems so)[p := element\<lparr>he_heaptids := butlast (he_heaptids element)\<rparr>]\<rparr> in
          if hnsw_iterative_scan guc = HNSW_ITERATIVE_SCAN_STRICT then
            if f8_lt (sc_distance sc) (so_previousDistance so1) then Inr (Again, so1)
            else Inr (Found heaptid (sc_distance sc), so1\<lparr>so_previousDistance := sc_distance sc\<rparr>)
          else Inr (Found heaptid (sc_distance sc), so1)))"

definition fetch_step ::
    "hnsw_settings \<Rightarrow> (HnswScanOpaqueData \<Rightarrow> nat) \<Rightarrow> Relation \<Rightarrow> HnswScanOpaqueData \<Rightarrow>
     (fetch option \<times> HnswScanOpaqueData) result" where
  "fetch_step guc mem index so =
     rbind (refill guc mem index so) (\<lambda>(go, so1).
       if \<not> go then Inr (None, so1)
       else rbind (next_heaptid guc so1) (\<lambda>(f, so2). Inr (Some f, so2)))"

subsection \<open>The loop ends\<close>

definition w_work :: "elems \<Rightarrow> HnswSearchCandidate list \<Rightarrow> nat" where
  "w_work es w = sum_list (map (\<lambda>sc. Suc (length (he_heaptids (es ! sc_element sc)))) w)"

definition fetch_measure :: "Relation \<Rightarrow> HnswScanOpaqueData \<Rightarrow> nat \<times> nat \<times> nat" where
  "fetch_measure index so =
     (case so_v so of None \<Rightarrow> 0 | Some v \<Rightarrow> card (disk_targets index - v),
      case so_discarded so of None \<Rightarrow> 0 | Some h \<Rightarrow> size (ph_mset h),
      w_work (so_elems so) (so_w so))"

lemma w_work_butlast: "w \<noteq> [] \<Longrightarrow> w_work es (butlast w) < w_work es w"
  by (cases w rule: rev_cases) (simp_all add: w_work_def)

lemma w_work_consume:
  assumes "w \<noteq> []" "p = sc_element (last w)" "p < length es" "he_heaptids (es ! p) \<noteq> []"
  shows "w_work (es[p := (es ! p)\<lparr>he_heaptids := butlast (he_heaptids (es ! p))\<rparr>]) w < w_work es w"
proof -
  let ?es = "es[p := (es ! p)\<lparr>he_heaptids := butlast (he_heaptids (es ! p))\<rparr>]"
  have le: "length (he_heaptids (?es ! sc_element sc)) \<le> length (he_heaptids (es ! sc_element sc))" for sc
    using assms(3) by (cases "sc_element sc = p") (simp_all add: nth_list_update)
  have lt: "length (he_heaptids (?es ! sc_element (last w))) < length (he_heaptids (es ! sc_element (last w)))"
    using assms by (simp add: nth_list_update)
  obtain w' x where w: "w = w' @ [x]" using assms(1) by (cases w rule: rev_cases) auto
  have "w_work ?es w' \<le> w_work es w'" unfolding w_work_def by (intro sum_list_mono) (simp add: le)
  then show ?thesis using lt by (simp add: w w_work_def)
qed

lemma next_heaptid_measure:
  assumes "next_heaptid guc so = Inr (Again, so')" "so_w so \<noteq> []"
  shows "so_v so' = so_v so" "so_discarded so' = so_discarded so" "w_work (so_elems so') (so_w so') < w_work (so_elems so) (so_w so)"
  using assms w_work_butlast [OF assms(2)] w_work_consume [OF assms(2) refl, of "so_elems so"]
  by (auto simp: next_heaptid_def Let_def hnsw_err split: if_splits)

lemma take_discarded_size:
  "take_discarded n h = (ep, h') \<Longrightarrow> size (ph_mset h) = length ep + size (ph_mset h')"
proof (induction n arbitrary: h ep)
  case (Suc n)
  then show ?case
    by (auto split: sum.splits prod.splits dest!: ph_remove_first_mset simp: Let_def)
qed simp

text \<open>A search that visits nothing new leaves the discarded heap alone.\<close>

lemma search_step_quiet:
  assumes "search_step env st = Inr (go, st')"
  shows "ss_v st \<subseteq> ss_v st' \<and> ss_v st' - ss_v st \<subseteq> targets env (ss_elems st) \<and>
    (ss_v st' = ss_v st \<longrightarrow> ss_discarded st' = ss_discarded st)"
proof (cases go)
  case True
  then obtain c C' us v' where
    "pairingheap_remove_first (ss_C st) = Inr (c, C')"
    and l: "load_neighbors env (st\<lparr>ss_C := C'\<rparr>) (sc_element c) = Inr (us, v')"
    and p: "process_all env us (st\<lparr>ss_C := C', ss_v := v', ss_tuples := map_option (\<lambda>t. t + length us) (ss_tuples st)\<rparr>) = Inr st'"
    using assms by (auto simp: search_step_def hnsw_err Let_def split: if_splits)
  note s = load_neighbors_spec [OF l] and k = process_all_keeps [OF p]
  have "ss_v st' = ss_v st \<Longrightarrow> us = []" using s(3) k by simp
  then show ?thesis using s(1,2) k p by auto
qed (use assms in \<open>auto simp: search_step_def hnsw_err Let_def split: if_splits\<close>)

definition quiet :: "Relation \<Rightarrow> search_state \<Rightarrow> search_state \<Rightarrow> bool" where
  "quiet r a b \<longleftrightarrow> ss_v a \<subseteq> ss_v b \<and> ss_v b - ss_v a \<subseteq> disk_targets r \<and> (ss_v b = ss_v a \<longrightarrow> ss_discarded b = ss_discarded a)"

lemma quiet_trans: "quiet r a b \<Longrightarrow> quiet r b c \<Longrightarrow> quiet r a c"
proof -
  assume ab: "quiet r a b" and bc: "quiet r b c"
  have s: "ss_v a \<subseteq> ss_v b" "ss_v b \<subseteq> ss_v c" using ab bc by (simp_all add: quiet_def)
  have d: "ss_v c - ss_v a \<subseteq> disk_targets r"
  proof
    fix x assume "x \<in> ss_v c - ss_v a"
    then have "x \<in> ss_v c - ss_v b \<or> x \<in> ss_v b - ss_v a" by blast
    then show "x \<in> disk_targets r" using ab bc by (auto simp: quiet_def)
  qed
  have "ss_discarded c = ss_discarded a" if "ss_v c = ss_v a"
  proof -
    have "ss_v b = ss_v a" "ss_v c = ss_v b" using s that by simp_all
    then show ?thesis using ab bc by (simp add: quiet_def)
  qed
  then show ?thesis using s d by (auto simp: quiet_def)
qed

lemma search_loop_quiet:
  assumes "search_loop env st = Inr st'" "se_index env = Some r"
  shows "quiet r st st'"
proof (rule search_loop_closure [OF assms(1), where R = "quiet r"])
  show "quiet r a b" if "search_step env a = Inr (go, b)" for a go b
    using search_step_quiet [OF that] assms(2) by (simp add: quiet_def targets_def)
qed (simp add: quiet_def, rule quiet_trans)

lemma add_entries_quiet:
  "add_entries env False ep st = Inr st' \<Longrightarrow> ss_v st' = ss_v st \<and> ss_discarded st' = ss_discarded st \<and> ss_elems st' = ss_elems st"
proof (induction ep arbitrary: st)
  case (Cons sc ep)
  then obtain st1 where "add_entries env False ep st1 = Inr st'" and s: "ss_v st1 = ss_v st" "ss_discarded st1 = ss_discarded st"
      "ss_elems st1 = ss_elems st"
    by (simp add: rbind_InrE) fastforce
  from Cons.IH [OF this(1)] show ?case using s by simp
qed simp

lemma HnswSearchLayer_quiet:
  assumes "HnswSearchLayer env es ep (Some v) (Some h) False t = Inr (w, st)" "se_index env = Some r"
  shows "v \<subseteq> ss_v st" "ss_v st - v \<subseteq> disk_targets r" "ss_v st = v \<Longrightarrow> ss_discarded st = Some h"
proof -
  from assms(1) obtain st1 where a: "add_entries env False ep
      \<lparr>ss_elems = es, ss_C = pairingheap_allocate CompareNearestCandidates,
       ss_W = pairingheap_allocate CompareFurthestCandidates, ss_wlen = 0, ss_v = v, ss_discarded = Some h, ss_tuples = t\<rparr> = Inr st1"
      and l: "search_loop env st1 = Inr st"
    by (auto simp: HnswSearchLayer_def Let_def hnsw_err)
  show "v \<subseteq> ss_v st" "ss_v st - v \<subseteq> disk_targets r" "ss_v st = v \<Longrightarrow> ss_discarded st = Some h"
    using add_entries_quiet [OF a] search_loop_quiet [OF l assms(2)] by (simp_all add: quiet_def)
qed

lemma search_no_entries: "HnswSearchLayer env es [] (Some v) (Some h) False t = Inr (w, st) \<Longrightarrow> w = []"
proof -
  assume a: "HnswSearchLayer env es [] (Some v) (Some h) False t = Inr (w, st)"
  let ?st = "\<lparr>ss_elems = es, ss_C = pairingheap_allocate CompareNearestCandidates,
       ss_W = pairingheap_allocate CompareFurthestCandidates, ss_wlen = 0, ss_v = v, ss_discarded = Some h, ss_tuples = t\<rparr>"
  have "search_loop env ?st = Inr ?st" by (subst search_loop.simps) (simp add: ph_is_empty)
  then have "w = drain (pairingheap_allocate CompareFurthestCandidates)"
    using a by (simp add: HnswSearchLayer_def Let_def)
  then show "w = []" using drain_mset [of "pairingheap_allocate CompareFurthestCandidates"] by simp
qed

lemma finite_disk_targets [simp]: "finite (disk_targets r)"
  using finite_targets [of "search_env_for None 0 0 (Some r) \<lparr>sup_procinfo = \<lambda>_ _. Inl ErrNaN, sup_normprocinfo = None\<rparr> 0 False None"]
  by (simp add: targets_def search_env_for_def)

lemma resume_cases:
  assumes "ResumeScanItems guc index so = Inr (w, so')" "w \<noteq> []"
  obtains h v ep h' st where "so_discarded so = Some h" "so_v so = Some v" "take_discarded (hnsw_ef_search guc) h = (ep, h')"
    "HnswSearchLayer (search_env_for (so_q so) (hnsw_ef_search guc) 0 (Some index) (so_support so) (so_m so) False None)
        (so_elems so) ep (Some v) (Some h') False (Some (so_tuples so)) = Inr (w, st)"
    "so' = so\<lparr>so_elems := ss_elems st, so_v := Some (ss_v st), so_discarded := ss_discarded st, so_tuples := the (ss_tuples st)\<rparr>"
proof -
  obtain h where h: "so_discarded so = Some h" using assms(1) by (cases "so_discarded so") (simp_all add: ResumeScanItems_def)
  have ne: "\<not> pairingheap_is_empty h"
    using assms h by (cases "pairingheap_is_empty h") (simp_all add: ResumeScanItems_def)
  obtain v where v: "so_v so = Some v" using assms(1) h ne by (cases "so_v so") (simp_all add: ResumeScanItems_def)
  obtain ep h' where t: "take_discarded (hnsw_ef_search guc) h = (ep, h')" by force
  obtain w1 st where s: "HnswSearchLayer (search_env_for (so_q so) (hnsw_ef_search guc) 0 (Some index) (so_support so) (so_m so) False None)
        (so_elems so) ep (Some v) (Some h') False (Some (so_tuples so)) = Inr (w1, st)"
    and e: "(w1, so\<lparr>so_elems := ss_elems st, so_v := Some (ss_v st), so_discarded := ss_discarded st, so_tuples := the (ss_tuples st)\<rparr>)
      = (w, so')"
    using assms(1) by (auto simp: ResumeScanItems_def h ne v t Let_def rbind_InrE)
  show thesis by (rule that [OF h v t]) (use s e in auto)
qed

lemma resume_measure:
  assumes "ResumeScanItems guc index so = Inr (w, so')" "w \<noteq> []"
  shows "\<exists>v v' h. so_v so = Some v \<and> so_v so' = Some v' \<and> so_discarded so = Some h \<and>
    (card (disk_targets index - v') < card (disk_targets index - v) \<or>
     (v' = v \<and> (\<exists>h'. so_discarded so' = Some h' \<and> size (ph_mset h') < size (ph_mset h))))"
  using assms
proof (cases rule: resume_cases)
  case (1 h v ep h' st)
  let ?env = "search_env_for (so_q so) (hnsw_ef_search guc) 0 (Some index) (so_support so) (so_m so) False None"
  have ix: "se_index ?env = Some index" by (simp add: search_env_for_def)
  note q = HnswSearchLayer_quiet [OF 1(4) ix]
  have ep: "ep \<noteq> []"
  proof
    assume "ep = []"
    then show False using search_no_entries [where w = w and env = ?env] 1(4) assms(2) by blast
  qed
  show ?thesis
  proof (cases "ss_v st = v")
    case True
    have "size (ph_mset h') < size (ph_mset h)" using take_discarded_size [OF 1(3)] ep by simp
    then show ?thesis using 1 q(3) [OF True] True by simp
  next
    case False
    then have "disk_targets index - ss_v st \<subset> disk_targets index - v" using q(1,2) by blast
    then have "card (disk_targets index - ss_v st) < card (disk_targets index - v)" by (intro psubset_card_mono) simp_all
    then show ?thesis using 1 by simp
  qed
qed

lemma refill_cases:
  assumes "refill guc mem index so = Inr (go, so1)"
  obtains (same) "so1 = so" "go \<longleftrightarrow> so_w so \<noteq> []"
    | (pop) h h' sc where "so_w so = []" "go" "so_discarded so = Some h" "pairingheap_remove_first h = Inr (sc, h')"
        "so1 = so\<lparr>so_w := [sc], so_discarded := Some h'\<rparr>"
    | (resume) w so2 where "so_w so = []" "ResumeScanItems guc index so = Inr (w, so2)" "go \<longleftrightarrow> w \<noteq> []" "so1 = so2\<lparr>so_w := w\<rparr>"
proof (cases "so_w so \<noteq> [] \<or> hnsw_iterative_scan guc = HNSW_ITERATIVE_SCAN_OFF \<or> so_discarded so = None")
  case True
  then have "so1 = so \<and> (go \<longleftrightarrow> so_w so \<noteq> [])" using assms by (auto simp: refill_def split: if_splits)
  then show thesis using same by blast
next
  case False
  then obtain h where h: "so_w so = []" "hnsw_iterative_scan guc \<noteq> HNSW_ITERATIVE_SCAN_OFF" "so_discarded so = Some h" by auto
  show thesis
  proof (cases "int (so_tuples so) \<ge> hnsw_max_scan_tuples guc \<or> mem so > so_maxMemory so")
    case True
    show thesis
    proof (cases "pairingheap_is_empty h")
      case e: True
      then show thesis using assms same h True by (simp add: refill_def)
    next
      case e: False
      then obtain sc h' where "pairingheap_remove_first h = Inr (sc, h')" "go" "so1 = so\<lparr>so_w := [sc], so_discarded := Some h'\<rparr>"
        using assms h True by (auto simp: refill_def rbind_InrE)
      then show thesis using pop h by blast
    qed
  next
    case n: False
    then obtain w so2 where "ResumeScanItems guc index so = Inr (w, so2)" "go \<longleftrightarrow> w \<noteq> []" "so1 = so2\<lparr>so_w := w\<rparr>"
      using assms h by (auto simp: refill_def rbind_InrE)
    then show thesis using resume h by blast
  qed
qed

lemma refill_more: "refill guc mem index so = Inr (go, so1) \<Longrightarrow> go \<longleftrightarrow> so_w so1 \<noteq> []"
  by (erule refill_cases) simp_all

lemma fetch_step_cases:
  assumes "fetch_step guc mem index so = Inr (r, so')"
  obtains (ended) "refill guc mem index so = Inr (False, so')" "r = None"
    | (went) so1 f where "refill guc mem index so = Inr (True, so1)" "next_heaptid guc so1 = Inr (f, so')" "r = Some f"
  using assms by (auto simp: fetch_step_def rbind_InrE split: if_splits)

lemma fetch_step_measure:
  assumes "fetch_step guc mem index so = Inr (Some Again, so')"
  shows "(fetch_measure index so', fetch_measure index so) \<in> less_than <*lex*> less_than <*lex*> less_than"
  using assms
proof (cases rule: fetch_step_cases)
  case (went so1 f)
  have ne: "so_w so1 \<noteq> []" using refill_more [OF went(1)] by simp
  have "next_heaptid guc so1 = Inr (Again, so')" using went by simp
  note m = next_heaptid_measure [OF this ne]
  from went(1) show ?thesis
  proof (cases rule: refill_cases)
    case same
    then show ?thesis using m by (simp add: fetch_measure_def)
  next
    case (pop h h' sc)
    then show ?thesis using m ph_remove_first_mset [OF pop(4)] by (simp add: fetch_measure_def)
  next
    case (resume w so2)
    then have "w \<noteq> []" by simp
    from resume_measure [OF resume(2) this] show ?thesis using m resume(4) by (auto simp: fetch_measure_def)
  qed
qed simp

function fetch_loop ::
    "hnsw_settings \<Rightarrow> (HnswScanOpaqueData \<Rightarrow> nat) \<Rightarrow> Relation \<Rightarrow> HnswScanOpaqueData \<Rightarrow>
     ((ItemPointerData \<times> float8) option \<times> HnswScanOpaqueData) result" where
  "fetch_loop guc mem index so =
     rbind (fetch_step guc mem index so) (\<lambda>(r, so').
       case r of
         None \<Rightarrow> Inr (None, so')
       | Some Again \<Rightarrow> fetch_loop guc mem index so'
       | Some (Found tid d) \<Rightarrow> Inr (Some (tid, d), so'))"
  by pat_completeness auto
termination
  by (relation "inv_image (less_than <*lex*> less_than <*lex*> less_than) (\<lambda>(guc, mem, index, so). fetch_measure index so)")
     (auto simp: fetch_step_measure)

declare fetch_loop.simps [simp del]

definition hnswgettuple ::
    "hnsw_settings \<Rightarrow> (HnswScanOpaqueData \<Rightarrow> nat) \<Rightarrow> IndexScanDesc \<Rightarrow> (bool \<times> IndexScanDesc) result" where
  "hnswgettuple guc mem scan =
     (case sd_opaque scan of
        None \<Rightarrow> Inl UndefinedBehaviour
      | Some so \<Rightarrow>
          rbind (start_scan guc scan so) (\<lambda>so1.
          rbind (fetch_loop guc mem (sd_index scan) so1) (\<lambda>(r, so2).
            case r of
              None \<Rightarrow> Inr (False, scan\<lparr>sd_opaque := Some so2\<rparr>)
            | Some (tid, d) \<Rightarrow> Inr (True, scan\<lparr>sd_opaque := Some so2, sd_heaptid := Some tid\<rparr>))))"

text \<open>A caller that fetches at most \<open>n\<close> tuples: the heap TIDs it is given, and whether the scan reported its end.\<close>

fun fetch_all ::
    "hnsw_settings \<Rightarrow> (HnswScanOpaqueData \<Rightarrow> nat) \<Rightarrow> nat \<Rightarrow> IndexScanDesc \<Rightarrow> (ItemPointerData list \<times> bool \<times> IndexScanDesc) result" where
  "fetch_all guc mem 0 scan = Inr ([], False, scan)"
| "fetch_all guc mem (Suc n) scan =
     rbind (hnswgettuple guc mem scan) (\<lambda>(found, scan1).
       if \<not> found then Inr ([], True, scan1)
       else rbind (fetch_all guc mem n scan1) (\<lambda>(tids, ended, scan2). Inr (the (sd_heaptid scan1) # tids, ended, scan2)))"

section \<open>Scans that are not iterative\<close>

definition cand_tids :: "elems \<Rightarrow> HnswSearchCandidate \<Rightarrow> ItemPointerData list" where
  "cand_tids es sc = rev (he_heaptids (es ! sc_element sc))"

text \<open>What is left to return: the candidates from the back of \<open>w\<close>, the heap TIDs of each from the back of its array.\<close>

definition remaining :: "HnswScanOpaqueData \<Rightarrow> ItemPointerData list" where
  "remaining so = concat (map (cand_tids (so_elems so)) (rev (so_w so)))"

definition scan_wf :: "HnswScanOpaqueData \<Rightarrow> bool" where
  "scan_wf so \<longleftrightarrow> distinct (map sc_element (so_w so)) \<and> (\<forall>sc\<in>set (so_w so). sc_element sc < length (so_elems so))"

lemma fetch_loop_step:
  assumes "so_w so \<noteq> []" "next_heaptid guc so = Inr (f, so')"
  shows "fetch_loop guc mem index so =
    (case f of Again \<Rightarrow> fetch_loop guc mem index so' | Found tid d \<Rightarrow> Inr (Some (tid, d), so'))"
  by (subst fetch_loop.simps) (simp add: fetch_step_def refill_def assms split: fetch.splits)

text \<open>Consuming a heap TID of the last candidate leaves the other candidates alone.\<close>

lemma consume_remaining:
  assumes "scan_wf so" "so_w so = w @ [sc]" "e = so_elems so ! sc_element sc" "he_heaptids e = ts @ [t]"
    and "so' = so\<lparr>so_elems := (so_elems so)[sc_element sc := e\<lparr>he_heaptids := ts\<rparr>]\<rparr>"
  shows "scan_wf so'" "remaining so = t # remaining so'"
proof -
  have r: "sc_element sc < length (so_elems so)" "sc_element sc \<notin> sc_element ` set w" using assms(1,2) by (auto simp: scan_wf_def)
  show "scan_wf so'" using assms(1,5) by (simp add: scan_wf_def)
  have "cand_tids (so_elems so') x = cand_tids (so_elems so) x" if "x \<in> set w" for x
  proof -
    have "sc_element x \<noteq> sc_element sc" using r(2) imageI [OF that, of sc_element] by metis
    then show ?thesis using assms(5) by (simp add: cand_tids_def)
  qed
  then have "concat (map (cand_tids (so_elems so')) (rev w)) = concat (map (cand_tids (so_elems so)) (rev w))"
    by (intro arg_cong [of _ _ concat] map_cong) simp_all
  moreover have "cand_tids (so_elems so) sc = t # cand_tids (so_elems so') sc"
    using assms(3,4,5) r(1) by (simp add: cand_tids_def)
  ultimately show "remaining so = t # remaining so'" using assms(2,5) by (simp add: remaining_def)
qed

lemma fetch_loop_off:
  assumes "hnsw_iterative_scan guc = HNSW_ITERATIVE_SCAN_OFF" "scan_wf so"
  shows "case remaining so of
      [] \<Rightarrow> \<exists>so'. fetch_loop guc mem index so = Inr (None, so')
    | t # ts \<Rightarrow> \<exists>d so'. fetch_loop guc mem index so = Inr (Some (t, d), so') \<and> remaining so' = ts \<and> scan_wf so' \<and> so_first so' = so_first so"
  using assms(2)
proof (induction "so_w so" arbitrary: so rule: rev_induct)
  case Nil
  then have w: "so_w so = []" by simp
  then have "fetch_loop guc mem index so = Inr (None, so)"
    by (subst fetch_loop.simps) (simp add: fetch_step_def refill_def assms(1))
  then show ?case using w by (simp add: remaining_def)
next
  case (snoc sc w)
  then have w: "so_w so = w @ [sc]" by simp
  let ?e = "so_elems so ! sc_element sc"
  have r: "sc_element sc < length (so_elems so)" using snoc.prems w by (simp add: scan_wf_def)
  show ?case
  proof (cases "he_heaptids ?e" rule: rev_cases)
    case Nil
    let ?so = "so\<lparr>so_w := w\<rparr>"
    have n: "next_heaptid guc so = Inr (Again, ?so)" using Nil r by (simp add: next_heaptid_def w Let_def)
    have e: "remaining ?so = remaining so" using Nil by (simp add: remaining_def w cand_tids_def)
    have l: "fetch_loop guc mem index so = fetch_loop guc mem index ?so" using fetch_loop_step [OF _ n] w by simp
    have "scan_wf ?so" using snoc.prems w by (simp add: scan_wf_def)
    from snoc.hyps(1) [OF _ this] show ?thesis unfolding e l by (cases "remaining so") simp_all
  next
    case (snoc ts t)
    let ?so = "so\<lparr>so_elems := (so_elems so)[sc_element sc := ?e\<lparr>he_heaptids := ts\<rparr>]\<rparr>"
    have n: "next_heaptid guc so = Inr (Found t (sc_distance sc), ?so)"
      using snoc r assms(1) by (simp add: next_heaptid_def w Let_def)
    have l: "fetch_loop guc mem index so = Inr (Some (t, sc_distance sc), ?so)" using fetch_loop_step [OF _ n] w by simp
    show ?thesis using consume_remaining [OF \<open>scan_wf so\<close> w refl snoc refl] l by simp
  qed
qed

lemma fetch_all_off:
  assumes "hnsw_iterative_scan guc = HNSW_ITERATIVE_SCAN_OFF"
  shows "sd_opaque scan = Some so \<Longrightarrow> \<not> so_first so \<Longrightarrow> scan_wf so \<Longrightarrow> length (remaining so) < n \<Longrightarrow>
    \<exists>scan'. fetch_all guc mem n scan = Inr (remaining so, True, scan')"
proof (induction n arbitrary: scan so)
  case (Suc n)
  note f = fetch_loop_off [OF assms Suc.prems(3), of mem "sd_index scan"]
  have s: "start_scan guc scan so = Inr so" using Suc.prems(2) by (simp add: start_scan_def)
  show ?case
  proof (cases "remaining so")
    case Nil
    then show ?thesis using f Suc.prems(1) s by (auto simp: hnswgettuple_def)
  next
    case (Cons t ts)
    then obtain d so' where l: "fetch_loop guc mem (sd_index scan) so = Inr (Some (t, d), so')"
      and so': "remaining so' = ts" "scan_wf so'" "\<not> so_first so'" using f Suc.prems(2) by auto
    let ?scan = "scan\<lparr>sd_opaque := Some so', sd_heaptid := Some t\<rparr>"
    have "hnswgettuple guc mem scan = Inr (True, ?scan)" using Suc.prems(1) s l by (simp add: hnswgettuple_def)
    moreover have "\<exists>scan'. fetch_all guc mem n ?scan = Inr (remaining so', True, scan')"
      using Suc.IH [of ?scan so'] so' Suc.prems(4) Cons by simp
    ultimately show ?thesis using so'(1) Cons by auto
  qed
qed simp

section \<open>The elements a scan loads\<close>

text \<open>Every element of the store was read from its tuple, heap TIDs included.\<close>

definition from_tuple :: "Relation \<Rightarrow> HnswElementData \<Rightarrow> bool" where
  "from_tuple r e \<longleftrightarrow> (\<exists>et. tid_tuple r (ItemPointerSet (he_blkno e) (he_offno e)) = Inr et \<and> he_heaptids e = tup_tids et)"

definition store_ok :: "Relation \<Rightarrow> elems \<Rightarrow> bool" where
  "store_ok r es \<longleftrightarrow> (\<forall>e\<in>set es. from_tuple r e)"

lemma HnswLoadElementImpl_store:
  assumes "HnswLoadElementImpl es b off True q r support lv mx None = Inr (d, p, es')" "store_ok r es"
  shows "store_ok r es'"
proof -
  obtain et where et: "tid_tuple r (ItemPointerSet b off) = Inr et"
      and e: "es' = es \<or> es' = es @ [HnswLoadElementFromTuple (HnswInitElementFromBlock b off) et True lv]"
    using assms(1) by (auto simp: HnswLoadElementImpl_def tid_tuple_def rbind_InrE split: if_splits)
  have "from_tuple r (HnswLoadElementFromTuple (HnswInitElementFromBlock b off) et True lv)"
    using et by (simp add: from_tuple_def HnswLoadElementFromTuple_def HnswInitElementFromBlock_def Let_def tup_tids_def)
  then show ?thesis using e assms(2) by (auto simp: store_ok_def)
qed

lemma load_unvisited_store:
  assumes "load_unvisited env st d u = Inr (p, e, es')" "se_index env = Some r" "store_ok r (ss_elems st)"
  shows "store_ok r es'"
proof -
  obtain tid where u: "u = UTid tid" using assms(1,2) by (cases u) (simp_all add: load_unvisited_def)
  then obtain mx where "HnswLoadElementImpl (ss_elems st) (ip_blkid tid) (ip_posid tid) True (se_q env) r (se_support env)
      (se_inserting env) mx None = Inr (Some e, p, es')"
    using assms(1,2) by (auto simp: load_unvisited_def rbind_InrE split: option.splits if_splits)
  then show ?thesis using HnswLoadElementImpl_store assms(3) by blast
qed

lemma process_unvisited_store:
  assumes "process_unvisited env st u = Inr st'" "se_index env = Some r" "store_ok r (ss_elems st)"
  shows "store_ok r (ss_elems st')"
  using assms(1)
proof (cases rule: process_unvisited_cases)
  case (skipped f d es)
  then show ?thesis using load_unvisited_store [OF skipped(2) assms(2,3)] by simp
next
  case (discarded f d es p)
  then show ?thesis using load_unvisited_store [OF discarded(2) assms(2,3)] by simp
next
  case (wrong_level f d es p)
  then show ?thesis using load_unvisited_store [OF wrong_level(2) assms(2,3)] by simp
next
  case (added f d es p)
  then show ?thesis using load_unvisited_store [OF added(2) assms(2,3)] add_candidate_keeps [OF added(6)] by simp
qed

lemma process_all_store:
  "process_all env us st = Inr st' \<Longrightarrow> se_index env = Some r \<Longrightarrow> store_ok r (ss_elems st) \<Longrightarrow> store_ok r (ss_elems st')"
proof (induction us arbitrary: st)
  case (Cons u us)
  then show ?case using process_unvisited_store by (auto simp: rbind_InrE)
qed simp

lemma search_step_store:
  assumes "search_step env st = Inr (go, st')" "se_index env = Some r" "store_ok r (ss_elems st)"
  shows "store_ok r (ss_elems st')"
proof (cases go)
  case True
  then obtain us st1 where "process_all env us st1 = Inr st'" "ss_elems st1 = ss_elems st"
    using assms(1) by (auto simp: search_step_def rbind_InrE Let_def split: if_splits)
  then show ?thesis using process_all_store assms(2,3) by metis
next
  case False
  then have "ss_elems st' = ss_elems st" using assms(1) by (auto simp: search_step_def rbind_InrE Let_def split: if_splits)
  then show ?thesis using assms(3) by simp
qed

lemma HnswSearchLayer_store:
  assumes "HnswSearchLayer env es ep v d iv t = Inr (w, st)" "se_index env = Some r" "store_ok r es"
  shows "store_ok r (ss_elems st)"
proof -
  obtain st0 st1 where a: "add_entries env (iv \<or> v = None) ep st0 = Inr st1" "ss_elems st0 = es" "search_loop env st1 = Inr st"
    using assms(1) by (auto simp: HnswSearchLayer_def Let_def rbind_InrE)
  have "store_ok r (ss_elems st1) \<longrightarrow> store_ok r (ss_elems st)"
    by (rule search_loop_closure [OF a(3), where R = "\<lambda>a b. store_ok r (ss_elems a) \<longrightarrow> store_ok r (ss_elems b)"])
       (use search_step_store assms(2) in blast)+
  then show ?thesis using add_entries_elems [OF a(1)] a(2) assms(3) by simp
qed

section \<open>From the entry point to the bottom layer\<close>

text \<open>Candidates that are ready for the search of a layer.\<close>

definition entries_ok :: "Vector option \<Rightarrow> HnswSupport \<Rightarrow> nat \<Rightarrow> Relation \<Rightarrow> elems \<Rightarrow> HnswSearchCandidate list \<Rightarrow> bool" where
  "entries_ok q support lc r es ep \<longleftrightarrow> ep \<noteq> [] \<and> distinct (map (sc_tid es) ep) \<and> (\<forall>sc\<in>set ep. disk_entry_ok q support lc r es sc) \<and>
     store_ok r es"

lemma disk_entry_lower: "disk_entry_ok q support lc r es sc \<Longrightarrow> lc' \<le> lc \<Longrightarrow> disk_entry_ok q support lc' r es sc"
  by (auto simp: disk_entry_ok_def disk_known_def search_env_for_def live_tid_def split: sum.splits)

lemma entries_lower: "entries_ok q support lc r es ep \<Longrightarrow> lc' \<le> lc \<Longrightarrow> entries_ok q support lc' r es ep"
  using disk_entry_lower by (auto simp: entries_ok_def)

lemma search_entries:
  assumes "pages_ok q support m lc r" "entries_ok q support lc r es ep"
  shows "\<exists>w st. HnswSearchLayer (disk_env q ef lc r support m ins None) es ep v d True tuples = Inr (w, st) \<and>
    disk.result_ok (disk_env q ef lc r support m ins None) {} (length ep) w st \<and> entries_ok q support lc r (ss_elems st) w"
proof -
  note e = assms(2) [unfolded entries_ok_def]
  obtain w st where s: "HnswSearchLayer (disk_env q ef lc r support m ins None) es ep v d True tuples = Inr (w, st)"
    and r: "disk.result_ok (disk_env q ef lc r support m ins None) {} (length ep) w st"
    using search_disk [OF assms(1)] e by blast
  have "store_ok r (ss_elems st)" using HnswSearchLayer_store [OF s] e by (simp add: search_env_for_def)
  then have "entries_ok q support lc r (ss_elems st) w" using disk_result(1,2,4) [OF assms(1) r] by (simp add: entries_ok_def)
  then show ?thesis using s r by blast
qed

lemma descent_entries:
  assumes "\<forall>lc\<le>L. pages_ok q support m lc r"
  shows "n \<le> L \<Longrightarrow> entries_ok q support n r es ep \<Longrightarrow> length ep \<le> 1 \<Longrightarrow>
    \<exists>ep' es'. greedy_descent q (Some r) support m ins None (rev [1..<Suc n]) ep es = Inr (ep', es') \<and> entries_ok q support 0 r es' ep' \<and>
      length ep' \<le> 1"
proof (induction n arbitrary: es ep)
  case (Suc n)
  have p: "pages_ok q support m (Suc n) r" using assms Suc.prems(1) by blast
  from search_entries [OF p Suc.prems(2), where ef = 1 and ins = ins and v = None and d = None and tuples = None]
  obtain w st where s: "HnswSearchLayer (disk_env q 1 (Suc n) r support m ins None) es ep None None True None = Inr (w, st)"
    "entries_ok q support (Suc n) r (ss_elems st) w" and r: "disk.result_ok (disk_env q 1 (Suc n) r support m ins None) {} (length ep) w st"
    by blast
  have "length w \<le> 1" using disk_result(5) [OF p r] Suc.prems(3) by simp
  moreover have "entries_ok q support n r (ss_elems st) w" using entries_lower [OF s(2)] by simp
  ultimately show ?case using Suc.IH [of "ss_elems st" w] Suc.prems(1) s(1) by simp
qed simp

text \<open>An index that a scan can start from: a metapage with the magic number, an entry point (if any) that is a live element of
  the level the metapage records, and pages fit for the search at every layer up to it.\<close>

definition index_ok :: "Vector option \<Rightarrow> HnswSupport \<Rightarrow> Relation \<Rightarrow> bool" where
  "index_ok q support r =
     (case read_meta r of
        Inl _ \<Rightarrow> False
      | Inr mp \<Rightarrow> mp_magicNumber mp = HNSW_MAGIC_NUMBER \<and>
          (mp_entryBlkno mp = InvalidBlockNumber \<or>
           0 \<le> mp_entryLevel mp \<and> mp_entryLevel mp < 256 \<and>
           (\<exists>et. tid_tuple r (ItemPointerSet (mp_entryBlkno mp) (mp_entryOffno mp)) = Inr et \<and> et_deleted et = 0 \<and>
              int (et_level et) = mp_entryLevel mp \<and> (\<forall>lc\<le>et_level et. pages_ok q support (mp_m mp) lc r))))"

lemma entry_candidate_disk:
  assumes t: "tid_tuple r (ItemPointerSet b off) = Inr et" "et_deleted et = 0" and p: "pages_ok q support m (et_level et) r"
  shows "\<exists>sc es. HnswEntryCandidate [(HnswInitElementFromBlock b off)\<lparr>he_level := l\<rparr>] 0 q (Some r) support False = Inr (sc, es) \<and>
    entries_ok q support (et_level et) r es [sc] \<and> length es = 1 \<and> he_level (es ! 0) = et_level et \<and> sc_element sc = 0"
proof -
  have live: "live_tid r (et_level et) (ItemPointerSet b off)" using t by (simp add: live_tid_def)
  then obtain d where d: "tid_distance q support r (ItemPointerSet b off) = Inr d"
    using p by (auto simp: pages_ok_def disk_good_def search_env_for_def)
  obtain pg where pg: "read_page r b = Inr pg" "element_tuple pg off = Inr et" using t(1) by (auto simp: tid_tuple_def rbind_InrE)
  let ?e = "HnswLoadElementFromTuple ((HnswInitElementFromBlock b off)\<lparr>he_level := l\<rparr>) et True False"
  have dq: "(case q of None \<Rightarrow> Inr (Some f8_zero) | Some qv \<Rightarrow> rbind (HnswGetDistance qv (et_data et) support) (\<lambda>d. Inr (Some d))) = Inr (Some d)"
    using d t(1) by (auto simp: tid_distance_def split: option.splits)
  have e: "HnswEntryCandidate [(HnswInitElementFromBlock b off)\<lparr>he_level := l\<rparr>] 0 q (Some r) support False
      = Inr (HnswInitSearchCandidate 0 d, [?e])"
    using pg dq
    by (simp add: HnswEntryCandidate_def HnswLoadElement_def HnswLoadElementImpl_def HnswInitElementFromBlock_def)
  have f: "he_blkno ?e = b" "he_offno ?e = off" "he_heaptids ?e = tup_tids et" "he_level ?e = et_level et" "he_version ?e = et_version et"
      "he_neighborPage ?e = ip_blkid (et_neighbortid et)" "he_neighborOffno ?e = ip_posid (et_neighbortid et)"
    by (simp_all add: HnswLoadElementFromTuple_def HnswInitElementFromBlock_def Let_def tup_tids_def)
  have "store_ok r [?e]" using t(1) f by (simp add: store_ok_def from_tuple_def)
  moreover have "disk_entry_ok q support (et_level et) r [?e] (HnswInitSearchCandidate 0 d)"
    using d t(1) f live by (simp add: disk_entry_ok_def disk_known_def search_env_for_def HnswInitSearchCandidate_def sc_tid_def)
  ultimately show ?thesis using e f by (simp add: entries_ok_def HnswInitSearchCandidate_def)
qed

lemma GetScanItems_disk:
  assumes "read_meta r = Inr mp" "mp_entryBlkno mp \<noteq> InvalidBlockNumber" "index_ok q support r" "so_support so = support" "so_elems so = []"
    and off: "hnsw_iterative_scan guc = HNSW_ITERATIVE_SCAN_OFF"
  shows "\<exists>w st ep tu. GetScanItems guc r so q = Inr (w, so\<lparr>so_q := q, so_m := mp_m mp, so_elems := ss_elems st, so_v := Some (ss_v st), so_tuples := tu\<rparr>) \<and>
    disk.result_ok (disk_env q (hnsw_ef_search guc) 0 r support (mp_m mp) False None) {} ep w st \<and> ep \<le> 1 \<and>
    entries_ok q support 0 r (ss_elems st) w"
proof -
  from assms(1,2,3) obtain et where m: "mp_magicNumber mp = HNSW_MAGIC_NUMBER" "0 \<le> mp_entryLevel mp" "mp_entryLevel mp < 256"
      and et: "tid_tuple r (ItemPointerSet (mp_entryBlkno mp) (mp_entryOffno mp)) = Inr et" "et_deleted et = 0"
      and l: "int (et_level et) = mp_entryLevel mp" and p: "\<forall>lc\<le>et_level et. pages_ok q support (mp_m mp) lc r"
    by (auto simp: index_ok_def)
  have p0: "pages_ok q support (mp_m mp) 0 r" "pages_ok q support (mp_m mp) (et_level et) r" using p by simp_all
  let ?entry = "(HnswInitElementFromBlock (mp_entryBlkno mp) (mp_entryOffno mp))\<lparr>he_level := nat (mp_entryLevel mp mod 256)\<rparr>"
  from entry_candidate_disk [OF et p0(2)] obtain sc es
    where e: "HnswEntryCandidate [?entry] 0 q (Some r) support False = Inr (sc, es)"
      "entries_ok q support (et_level et) r es [sc]" "length es = 1" "he_level (es ! 0) = et_level et" by blast
  from descent_entries [OF p order_refl e(2), of False] obtain ep es1
    where g: "greedy_descent q (Some r) support (mp_m mp) False None (rev [1..<Suc (et_level et)]) [sc] es = Inr (ep, es1)"
      "entries_ok q support 0 r es1 ep" "length ep \<le> 1" by auto
  from search_entries [OF p0(1) g(2), where ef = "hnsw_ef_search guc" and ins = False and v = "Some {}" and d = None
      and tuples = "Some (so_tuples so)"] obtain w st
    where s: "HnswSearchLayer (disk_env q (hnsw_ef_search guc) 0 r support (mp_m mp) False None) es1 ep (Some {}) None True
        (Some (so_tuples so)) = Inr (w, st)"
      "disk.result_ok (disk_env q (hnsw_ef_search guc) 0 r support (mp_m mp) False None) {} (length ep) w st"
      "entries_ok q support 0 r (ss_elems st) w" by blast
  have i: "HnswGetMetaPageInfo r = Inr (mp_m mp, Some ?entry)" using assms(1,2) m(1) by (simp add: HnswGetMetaPageInfo_def)
  have "GetScanItems guc r so q = Inr (w, so\<lparr>so_q := q, so_m := mp_m mp, so_elems := ss_elems st, so_v := Some (ss_v st),
      so_tuples := the (ss_tuples st)\<rparr>)"
    using i e(1,3,4) g(1) s(1) assms(4,5) off by (simp add: GetScanItems_def Let_def del: upt_Suc)
  then show ?thesis using s(2,3) g(3) by blast
qed

text \<open>The heap TIDs of the element tuples at the given positions.\<close>

definition disk_tids :: "Relation \<Rightarrow> ItemPointerData \<Rightarrow> ItemPointerData list" where
  "disk_tids r u = (case tid_tuple r u of Inl _ \<Rightarrow> [] | Inr et \<Rightarrow> rev (tup_tids et))"

definition tid_closer :: "Vector option \<Rightarrow> HnswSupport \<Rightarrow> Relation \<Rightarrow> ItemPointerData \<Rightarrow> ItemPointerData \<Rightarrow> bool" where
  "tid_closer q support r a b = (case (tid_distance q support r a, tid_distance q support r b) of
     (Inr da, Inr db) \<Rightarrow> \<not> f8_lt db da | _ \<Rightarrow> False)"

lemma entries_remaining:
  assumes "entries_ok q support 0 r es w" "so_elems so = es" "so_w so = w"
  shows "scan_wf so" "remaining so = concat (map (disk_tids r) (rev (map (sc_tid es) w)))"
proof -
  note e = assms(1) [unfolded entries_ok_def]
  have b: "sc_element sc < length es" if "sc \<in> set w" for sc
    using e that by (auto simp: disk_entry_ok_def disk_known_def)
  have "distinct (map sc_element w)"
  proof (rule distinct_map [THEN iffD2], intro conjI)
    show "distinct w" using e distinct_map by blast
    show "inj_on sc_element (set w)" using e by (auto simp: inj_on_def distinct_map sc_tid_def)
  qed
  then show "scan_wf so" using assms(2,3) b by (simp add: scan_wf_def)
  have "cand_tids es sc = disk_tids r (sc_tid es sc)" if "sc \<in> set w" for sc
  proof -
    have "from_tuple r (es ! sc_element sc)" using e b [OF that] by (auto simp: store_ok_def)
    then show ?thesis by (auto simp: from_tuple_def cand_tids_def disk_tids_def sc_tid_def)
  qed
  then have "map (cand_tids es) (rev w) = map (disk_tids r \<circ> sc_tid es) (rev w)" by simp
  then show "remaining so = concat (map (disk_tids r) (rev (map (sc_tid es) w)))"
    unfolding remaining_def assms(2,3) by (simp only: rev_map map_map)
qed

lemma result_tids:
  assumes p: "pages_ok q support m 0 r" and res: "disk.result_ok (disk_env q ef 0 r support m False None) {} n w st" "n \<le> 1"
    and us: "us = rev (map (sc_tid (ss_elems st)) w)"
  shows "us \<noteq> []" "distinct us" "length us \<le> max ef 1" "sorted_wrt (tid_closer q support r) us" "\<forall>u\<in>set us. live_tid r 0 u"
    "\<forall>u\<in>set us. \<forall>t\<in>disk_nbrs r m 0 u. t \<in> set us \<or> (ef \<le> length us \<and> (\<forall>u'\<in>set us. tid_closer q support r u' t))"
proof -
  let ?es = "ss_elems st"
  note d = disk_result [OF p res(1)]
  have k: "tid_distance q support r (sc_tid ?es c) = Inr (sc_distance c)" "live_tid r 0 (sc_tid ?es c)" if "c \<in> set w" for c
    using d(2) [OF that] by (auto simp: disk_entry_ok_def disk_known_def search_env_for_def sc_tid_def)
  show "us \<noteq> []" "distinct us" using d(1,4) us by simp_all
  show "length us \<le> max ef 1" using d(5) res(2) us by simp
  show "\<forall>u\<in>set us. live_tid r 0 u" using k us by auto
  have "sorted_wrt (\<lambda>a b. tid_closer q support r (sc_tid ?es b) (sc_tid ?es a)) w"
    by (rule sorted_wrt_mono_rel [OF _ d(3)]) (simp add: tid_closer_def k)
  then show "sorted_wrt (tid_closer q support r) us" by (simp add: us sorted_wrt_rev sorted_wrt_map)
  show "\<forall>u\<in>set us. \<forall>t\<in>disk_nbrs r m 0 u. t \<in> set us \<or> (ef \<le> length us \<and> (\<forall>u'\<in>set us. tid_closer q support r u' t))"
  proof (intro ballI)
    fix u t assume u: "u \<in> set us" and t: "t \<in> disk_nbrs r m 0 u"
    then obtain c where c: "c \<in> set w" "u = sc_tid ?es c" using us by auto
    have "live_tid r 0 u" using k(2) c by blast
    then obtain et where et: "tid_tuple r u = Inr et" by (auto simp: live_tid_def split: sum.splits)
    then have "live_tid r 0 t"
      using p t \<open>live_tid r 0 u\<close> by (auto simp: pages_ok_def disk_good_def search_env_for_def disk_nbrs_def)
    then obtain dt where dt: "tid_distance q support r t = Inr dt"
      using p by (auto simp: pages_ok_def disk_good_def search_env_for_def)
    have "VTid t \<in> ss_v st" using d(6) [OF c(1)] t c(2) by blast
    then have "t \<in> sc_tid ?es ` set w \<or> (ef \<le> length w \<and> (\<forall>x\<in>set w. \<not> f8_lt dt (sc_distance x)))"
      using d(7) [of t] dt by auto
    then show "t \<in> set us \<or> (ef \<le> length us \<and> (\<forall>u'\<in>set us. tid_closer q support r u' t))"
      using us dt k(1) by (auto simp: tid_closer_def)
  qed
qed

text \<open>The first call does the search and goes on as every other call.\<close>

lemma hnswgettuple_started:
  assumes "sd_opaque scan = Some so" "start_scan guc scan so = Inr so2" "\<not> so_first so2"
  shows "hnswgettuple guc mem scan = hnswgettuple guc mem (scan\<lparr>sd_opaque := Some so2\<rparr>)"
proof -
  have "start_scan guc (scan\<lparr>sd_opaque := Some so2\<rparr>) so2 = Inr so2" using assms(3) by (simp add: start_scan_def)
  then show ?thesis using assms(1,2)
    by (cases scan, cases "fetch_loop guc mem (sd_index scan) so2") (auto simp: hnswgettuple_def split: option.splits)
qed

section \<open>Properties of scans\<close>

lemma scan_off_result:
  assumes "hnsw_iterative_scan guc = HNSW_ITERATIVE_SCAN_OFF" and "sd_opaque scan0 = Some so0" and "sd_mvcc scan0"
    and "hnswrescan scan0 (Some arg) = Inr scan" and "GetScanValue arg so0 = Inr q"
    and "read_meta (sd_index scan0) = Inr mp" and "index_ok q (so_support so0) (sd_index scan0)"
  shows "\<exists>us. (\<forall>n>length (concat (map (disk_tids (sd_index scan0)) us)). \<exists>scan'.
      fetch_all guc mem n scan = Inr (concat (map (disk_tids (sd_index scan0)) us), True, scan')) \<and>
    distinct us \<and> length us \<le> max (hnsw_ef_search guc) 1 \<and> (us = [] \<longleftrightarrow> mp_entryBlkno mp = InvalidBlockNumber) \<and>
    sorted_wrt (tid_closer q (so_support so0) (sd_index scan0)) us \<and> (\<forall>u\<in>set us. live_tid (sd_index scan0) 0 u) \<and>
    (\<forall>u\<in>set us. \<forall>t\<in>disk_nbrs (sd_index scan0) (mp_m mp) 0 u. t \<in> set us \<or>
       (hnsw_ef_search guc \<le> length us \<and> (\<forall>u'\<in>set us. tid_closer q (so_support so0) (sd_index scan0) u' t)))"
proof -
  let ?r = "sd_index scan0" and ?s = "so_support so0"
  define so where "so = so0\<lparr>so_first := True, so_v := None, so_discarded := None, so_tuples := 0,
             so_previousDistance := f8_neg_infinity, so_elems := []\<rparr>"
  have scan: "scan = scan0\<lparr>sd_opaque := Some so, sd_orderBy := Some arg\<rparr>" using assms(2,4) by (simp add: hnswrescan_def so_def)
  have v: "GetScanValue arg so = Inr q" using assms(5) by (cases arg) (auto simp: GetScanValue_def so_def split: if_splits)
  have fetch: "\<exists>scan'. fetch_all guc mem n scan = Inr (remaining so2, True, scan')"
    if "GetScanItems guc ?r so q = Inr (w, so1)" "so2 = so1\<lparr>so_w := w, so_first := False\<rparr>" "scan_wf so2" "length (remaining so2) < n"
    for w so1 so2 n
  proof -
    have ss: "start_scan guc scan so = Inr so2" using that(1,2) v assms(3) by (simp add: start_scan_def scan so_def)
    let ?scan = "scan\<lparr>sd_opaque := Some so2\<rparr>"
    have "hnswgettuple guc mem scan = hnswgettuple guc mem ?scan"
      by (rule hnswgettuple_started [OF _ ss]) (simp_all add: scan that(2))
    then have "fetch_all guc mem n scan = fetch_all guc mem n ?scan" using that(4) by (cases n) simp_all
    then show ?thesis using fetch_all_off [OF assms(1), of ?scan so2 n mem] that(2-4) by simp
  qed
  show ?thesis
  proof (cases "mp_entryBlkno mp = InvalidBlockNumber")
    case True
    then have "GetScanItems guc ?r so q = Inr ([], so\<lparr>so_q := q, so_m := mp_m mp\<rparr>)"
      using assms(6,7) by (simp add: GetScanItems_def HnswGetMetaPageInfo_def index_ok_def Let_def)
    note f = fetch [OF this refl]
    have "\<forall>n>0. \<exists>scan'. fetch_all guc mem n scan = Inr ([], True, scan')"
      using f by (simp add: scan_wf_def remaining_def)
    then show ?thesis using True by (intro exI [of _ "[]"]) simp
  next
    case False
    have so: "so_support so = ?s" "so_elems so = []" by (simp_all add: so_def)
    obtain w st ep tu where g: "GetScanItems guc ?r so q = Inr (w, so\<lparr>so_q := q, so_m := mp_m mp, so_elems := ss_elems st,
          so_v := Some (ss_v st), so_tuples := tu\<rparr>)"
        "disk.result_ok (disk_env q (hnsw_ef_search guc) 0 ?r ?s (mp_m mp) False None) {} ep w st" "ep \<le> 1"
        "entries_ok q ?s 0 ?r (ss_elems st) w"
      using GetScanItems_disk [OF assms(6) False assms(7) so assms(1)] by blast
    define us where "us = rev (map (sc_tid (ss_elems st)) w)"
    let ?so2 = "so\<lparr>so_q := q, so_m := mp_m mp, so_elems := ss_elems st, so_v := Some (ss_v st), so_tuples := tu, so_w := w,
      so_first := False\<rparr>"
    have rem: "scan_wf ?so2" "remaining ?so2 = concat (map (disk_tids ?r) us)"
      using entries_remaining [OF g(4), of ?so2] by (simp_all add: us_def)
    have p: "pages_ok q ?s (mp_m mp) 0 ?r" using assms(6,7) False by (auto simp: index_ok_def)
    have "\<forall>n>length (concat (map (disk_tids ?r) us)). \<exists>scan'. fetch_all guc mem n scan = Inr (concat (map (disk_tids ?r) us), True, scan')"
      using fetch [OF g(1), of ?so2] rem by simp
    then show ?thesis
      using result_tids [OF p g(2,3) us_def] False by (intro exI [of _ us]) blast
  qed
qed

text \<open>C10: an index scan that is not iterative, from the start of the scan to its end: it returns, for the positions \<open>us\<close> of distinct
  live elements in order of their distance to the query, nearest first, exactly the heap TIDs of these elements, then reports its
  end.  At most \<open>ef_search\<close> elements contribute, and they are locally optimal: a stored neighbour of one of them that is not
  returned is no closer than any of them.  An empty index gives an empty result.\<close>

theorem scan_returns_nearest:
  assumes "hnsw_iterative_scan guc = HNSW_ITERATIVE_SCAN_OFF" and "sd_opaque scan0 = Some so0" and "sd_mvcc scan0"
    and "hnswrescan scan0 (Some arg) = Inr scan" and "GetScanValue arg so0 = Inr q"
    and "read_meta (sd_index scan0) = Inr mp" and "index_ok q (so_support so0) (sd_index scan0)"
  shows "\<exists>us. (\<forall>n>length (concat (map (disk_tids (sd_index scan0)) us)). \<exists>scan'.
      fetch_all guc mem n scan = Inr (concat (map (disk_tids (sd_index scan0)) us), True, scan')) \<and>
    distinct us \<and> length us \<le> max (hnsw_ef_search guc) 1 \<and> (us = [] \<longleftrightarrow> mp_entryBlkno mp = InvalidBlockNumber) \<and>
    sorted_wrt (tid_closer q (so_support so0) (sd_index scan0)) us \<and> (\<forall>u\<in>set us. live_tid (sd_index scan0) 0 u) \<and>
    (\<forall>u\<in>set us. \<forall>t\<in>disk_nbrs (sd_index scan0) (mp_m mp) 0 u. t \<in> set us \<or>
       (hnsw_ef_search guc \<le> length us \<and> (\<forall>u'\<in>set us. tid_closer q (so_support so0) (sd_index scan0) u' t)))"
  by (rule scan_off_result [OF assms])

definition pair_guc :: hnsw_settings where
  "pair_guc = \<lparr>hnsw_ef_search = 40, hnsw_iterative_scan = HNSW_ITERATIVE_SCAN_OFF, hnsw_max_scan_tuples = 20000, hnsw_scan_mem_multiplier = 0\<rparr>"

definition pair_scan :: IndexScanDesc where
  "pair_scan = \<lparr>sd_index = pair_rel, sd_orderBy = None, sd_mvcc = True,
     sd_opaque = Some \<lparr>so_typeInfo = HnswGetTypeInfo None, so_first = False, so_w = [], so_v = None, so_discarded = None, so_q = None,
       so_m = 0, so_tuples = 0, so_previousDistance = 0, so_maxMemory = 256, so_support = l2_support, so_elems = []\<rparr>,
     sd_heaptid = None\<rparr>"

lemma pair_index_ok: "index_ok (Some one_vec) l2_support pair_rel"
proof -
  have "read_meta pair_rel = Inr pair_meta" by (simp add: read_meta_def pair_rel_def hnsw_const)
  then show ?thesis using pair_pages_ok by (simp add: index_ok_def pair_meta_def pair_tuple) (simp add: pair_etup_def)
qed

theorem scan_returns_nearest_witness:
  "\<exists>scan us. hnswrescan pair_scan (Some (Some one_vec)) = Inr scan \<and> us \<noteq> [] \<and>
     (\<exists>scan'. fetch_all pair_guc (\<lambda>_. 0) (Suc (length (concat (map (disk_tids pair_rel) us)))) scan =
        Inr (concat (map (disk_tids pair_rel) us), True, scan'))"
proof -
  obtain scan where s: "hnswrescan pair_scan (Some (Some one_vec)) = Inr scan" by (simp add: hnswrescan_def pair_scan_def)
  obtain so0 where o: "sd_opaque pair_scan = Some so0" "so_support so0 = l2_support" by (simp add: pair_scan_def)
  have v: "GetScanValue (Some one_vec) so0 = Inr (Some one_vec)" using o by (simp add: GetScanValue_def l2_support_def)
  have p: "sd_mvcc pair_scan" "sd_index pair_scan = pair_rel" by (simp_all add: pair_scan_def)
  have m: "read_meta (sd_index pair_scan) = Inr pair_meta" by (simp add: p read_meta_def pair_rel_def hnsw_const)
  have g: "hnsw_iterative_scan pair_guc = HNSW_ITERATIVE_SCAN_OFF" by (simp add: pair_guc_def)
  have i: "index_ok (Some one_vec) (so_support so0) (sd_index pair_scan)" using o(2) p pair_index_ok by simp
  have b: "mp_entryBlkno pair_meta \<noteq> InvalidBlockNumber" by (simp add: pair_meta_def InvalidBlockNumber_def)
  from scan_returns_nearest [OF g o(1) p(1) s v m i, of "\<lambda>_. 0"] show ?thesis
    using s b p(2) by (metis lessI)
qed

text \<open>What a caller sees of the loop: the heap TIDs with the distances of their elements.\<close>

fun fetch_trace ::
    "hnsw_settings \<Rightarrow> (HnswScanOpaqueData \<Rightarrow> nat) \<Rightarrow> Relation \<Rightarrow> nat \<Rightarrow> HnswScanOpaqueData \<Rightarrow> ((ItemPointerData \<times> float8) list) result" where
  "fetch_trace guc mem index 0 so = Inr []"
| "fetch_trace guc mem index (Suc n) so =
     rbind (fetch_loop guc mem index so) (\<lambda>(r, so').
       case r of None \<Rightarrow> Inr [] | Some x \<Rightarrow> rbind (fetch_trace guc mem index n so') (\<lambda>xs. Inr (x # xs)))"

lemma resume_keeps:
  assumes "ResumeScanItems guc index so = Inr (w, so')"
  shows "so_previousDistance so' = so_previousDistance so \<and> so_first so' = so_first so"
  using assms by (auto simp: ResumeScanItems_def rbind_InrE Let_def split: option.splits if_splits prod.splits)

lemma refill_keeps:
  "refill guc mem index so = Inr (go, so') \<Longrightarrow> so_previousDistance so' = so_previousDistance so"
  by (erule refill_cases) (auto dest: resume_keeps)

lemma fetch_step_strict:
  assumes "hnsw_iterative_scan guc = HNSW_ITERATIVE_SCAN_STRICT" "fetch_step guc mem index so = Inr (Some f, so')"
  shows "case f of Again \<Rightarrow> so_previousDistance so' = so_previousDistance so
    | Found t d \<Rightarrow> so_previousDistance so' = d \<and> \<not> f8_lt d (so_previousDistance so)"
  using assms(2)
proof (cases rule: fetch_step_cases)
  case (went so1 f')
  then have n: "next_heaptid guc so1 = Inr (f, so')" and k: "so_previousDistance so1 = so_previousDistance so"
    using refill_keeps [OF went(1)] by simp_all
  show ?thesis
    using n unfolding k [symmetric] by (auto simp: next_heaptid_def Let_def rbind_InrE assms(1) split: if_splits)
qed simp

lemma fetch_loop_strict:
  "fetch_loop guc mem index so = Inr (Some (t, d), so') \<Longrightarrow> hnsw_iterative_scan guc = HNSW_ITERATIVE_SCAN_STRICT \<Longrightarrow>
    so_previousDistance so' = d \<and> \<not> f8_lt d (so_previousDistance so)"
proof (induction guc mem index so rule: fetch_loop.induct)
  case (1 guc mem index so)
  obtain r so1 where s: "fetch_step guc mem index so = Inr (r, so1)"
    using 1(2) by (subst (asm) fetch_loop.simps) (auto simp: rbind_InrE)
  note l = 1(2) [unfolded fetch_loop.simps [of guc mem index so], unfolded s, simplified]
  obtain f where r: "r = Some f" using l by (cases r) simp_all
  note k = fetch_step_strict [OF 1(3) s [unfolded r]]
  show ?case
  proof (cases f)
    case Again
    have "so_previousDistance so' = d \<and> \<not> f8_lt d (so_previousDistance so1)"
      using 1(1) [OF s refl r Again _ 1(3)] l r Again by simp
    then show ?thesis using k Again by simp
  next
    case (Found t' d')
    then show ?thesis using k l r by simp
  qed
qed

lemma fetch_trace_Cons:
  "fetch_trace guc mem index n so = Inr (x # xs) \<Longrightarrow>
   \<exists>n' so'. n = Suc n' \<and> fetch_loop guc mem index so = Inr (Some x, so') \<and> fetch_trace guc mem index n' so' = Inr xs"
  by (cases n) (auto simp: rbind_InrE split: option.splits)



text \<open>C23: the loop of \<open>hnswgettuple\<close> ends on every index and for any memory use: there is no infinite sequence of iterations.\<close>

theorem gettuple_loop_ends:
  "\<nexists>s. \<forall>i. fetch_step guc mem index (s i) = Inr (Some Again, s (Suc i))"
proof
  assume "\<exists>s. \<forall>i. fetch_step guc mem index (s i) = Inr (Some Again, s (Suc i))"
  then obtain s where "\<And>i. fetch_step guc mem index (s i) = Inr (Some Again, s (Suc i))" by blast
  from fetch_step_measure [OF this] have "(fetch_measure index (s (Suc i)), fetch_measure index (s i))
      \<in> less_than <*lex*> less_than <*lex*> less_than" for i .
  moreover have "wf (less_than <*lex*> less_than <*lex*> less_than)" by auto
  ultimately show False
    unfolding wf_iff_no_infinite_down_chain by (elim notE) (rule exI [of _ "\<lambda>i. fetch_measure index (s i)"], blast)
qed

text \<open>\<open>hnswgettuple\<close> refuses a scan with no ORDER BY key, and one with a snapshot that is not MVCC, when a scan starts.\<close>

lemma scan_start_checks:
  assumes "hnswrescan scan0 k = Inr scan"
  shows "(sd_orderBy scan = None \<longrightarrow> hnswgettuple guc mem scan = Inl ErrNoOrder) \<and>
    (sd_orderBy scan \<noteq> None \<and> \<not> sd_mvcc scan \<longrightarrow> hnswgettuple guc mem scan = Inl ErrSnapshot)"
  using assms by (auto simp: hnswrescan_def hnswgettuple_def start_scan_def split: option.splits)

lemma GetScanItems_stale:
  "rbind (GetScanItems guc r (so\<lparr>so_w := w1, so_q := q1, so_m := m1\<rparr>) v) (\<lambda>(w, s). Inr (s\<lparr>so_w := w, so_first := False\<rparr>)) =
   rbind (GetScanItems guc r so v) (\<lambda>(w, s). Inr (s\<lparr>so_w := w, so_first := False\<rparr>))"
  by (cases so) (auto simp: GetScanItems_def Let_def rbind_def split: sum.splits option.splits prod.splits)

lemma start_scan_stale:
  "so_first so \<Longrightarrow> start_scan guc scan (so\<lparr>so_w := w1, so_q := q1, so_m := m1\<rparr>) = start_scan guc scan so"
proof -
  have "GetScanValue arg (so\<lparr>so_w := w1, so_q := q1, so_m := m1\<rparr>) = GetScanValue arg so" for arg
    by (simp add: GetScanValue_def split: option.splits)
  then show "so_first so \<Longrightarrow> ?thesis" by (simp add: start_scan_def GetScanItems_stale split: option.splits)
qed

lemma hnswgettuple_opaque:
  assumes "start_scan guc sc so = start_scan guc sc so'"
  shows "hnswgettuple guc mem (sc\<lparr>sd_opaque := Some so\<rparr>) = hnswgettuple guc mem (sc\<lparr>sd_opaque := Some so'\<rparr>)"
proof -
  have o: "start_scan guc (sc\<lparr>sd_opaque := x\<rparr>) y = start_scan guc sc y" for x y by (simp add: start_scan_def split: option.splits)
  show ?thesis
  proof (cases "start_scan guc sc so'")
    case (Inr so1)
    then show ?thesis using assms
      by (cases "fetch_loop guc mem (sd_index sc) so1") (auto simp: hnswgettuple_def o split: option.splits)
  qed (simp add: hnswgettuple_def o assms)
qed

text \<open>C26: a rescan forgets the state of the scan before it: whatever the visited elements, candidates, discarded candidates, counters and
  query were, the next call of \<open>hnswgettuple\<close> has the same result and leaves the same state.\<close>

theorem rescan_forgets:
  assumes "sd_opaque scan1 = Some so1" and "so_typeInfo so2 = so_typeInfo so1" and "so_support so2 = so_support so1"
    and "so_maxMemory so2 = so_maxMemory so1"
    and "hnswrescan scan1 k = Inr a" and "hnswrescan (scan1\<lparr>sd_opaque := Some so2\<rparr>) k = Inr b"
  shows "hnswgettuple guc mem a = hnswgettuple guc mem b"
proof -
  let ?R = "\<lambda>so. so\<lparr>so_first := True, so_v := None, so_discarded := None, so_tuples := 0,
             so_previousDistance := f8_neg_infinity, so_elems := []\<rparr>"
  have r: "?R so2 = (?R so1)\<lparr>so_w := so_w so2, so_q := so_q so2, so_m := so_m so2\<rparr>"
    using assms(2-4) by (cases so1, cases so2) simp
  have s: "start_scan guc sc (?R so2) = start_scan guc sc (?R so1)" for sc unfolding r by (rule start_scan_stale) simp
  have "hnswgettuple guc mem (sc\<lparr>sd_opaque := Some (?R so2)\<rparr>) = hnswgettuple guc mem (sc\<lparr>sd_opaque := Some (?R so1)\<rparr>)" for sc
    by (rule hnswgettuple_opaque [OF s])
  moreover have "b = a\<lparr>sd_opaque := Some (?R so2)\<rparr>" "a = a\<lparr>sd_opaque := Some (?R so1)\<rparr>"
    using assms(1,5,6) by (auto simp: hnswrescan_def split: option.splits)
  ultimately show ?thesis by metis
qed

theorem rescan_forgets_witness:
  "hnswgettuple pair_guc (\<lambda>_. 0) (projr (hnswrescan pair_scan (Some None))) =
   hnswgettuple pair_guc (\<lambda>_. 0) (projr (hnswrescan (pair_scan\<lparr>sd_opaque := Some ((the (sd_opaque pair_scan))\<lparr>so_tuples := 7, so_w := [pair_entry]\<rparr>)\<rparr>) (Some None)))"
proof -
  have "sd_opaque pair_scan = Some (the (sd_opaque pair_scan))" by (simp add: pair_scan_def)
  then show ?thesis
    by (rule rescan_forgets [where k = "Some None" and ?so2.0 = "(the (sd_opaque pair_scan))\<lparr>so_tuples := 7, so_w := [pair_entry]\<rparr>"]) (simp_all add: hnswrescan_def pair_scan_def)
qed

end
