(* ===== verification/HnswInsert.thy ===== *)
theory HnswInsert
  imports HnswSearch
begin

text \<open>
  Insertion into the index on disk, \<open>src/backend/access/hnsw/hnswinsert.c\<close>: placing the element and
  neighbour tuples on the chain of pages, linking the new element into the neighbour lists of its neighbours, adding a
  heap TID to a duplicate, and the insert entry point.

  The functions run on one relation value; what an ongoing insert changes becomes visible when it returns, and an error
  leaves the relation as it was, as with the generic WAL records of the code (and the dropped index of a failed build).
  Buffer and page locks have no state of their own here.
\<close>

section \<open>Placing an element\<close>

definition GetInsertPage :: "Relation \<Rightarrow> nat result" where
  "GetInsertPage index = rbind (read_meta index) (\<lambda>metap. Inr (mp_insertPage metap))"

text \<open>The search for the space of a deleted element on a page: its offset, its neighbour tuple's block and
  offset, and the version to use; and the insert page noted so far.\<close>

fun free_offset_loop ::
    "Relation \<Rightarrow> nat \<Rightarrow> hpage \<Rightarrow> nat \<Rightarrow> nat \<Rightarrow> nat \<Rightarrow> HnswTuple list \<Rightarrow> nat \<Rightarrow>
     ((nat \<times> nat \<times> nat \<times> nat) option \<times> nat) result" where
  "free_offset_loop index blk page etupSize ntupSize offno [] newInsertPage = Inr (None, newInsertPage)"
| "free_offset_loop index blk page etupSize ntupSize offno (NeighborTup _ # ts) newInsertPage =
     free_offset_loop index blk page etupSize ntupSize (Suc offno) ts newInsertPage"
| "free_offset_loop index blk page etupSize ntupSize offno (ElementTup etup # ts) newInsertPage =
     (if et_deleted etup = 0 then free_offset_loop index blk page etupSize ntupSize (Suc offno) ts newInsertPage
      else
        let neighborPage = ip_blkid (et_neighbortid etup);
            neighborOffno = ip_posid (et_neighbortid etup);
            newInsertPage' = (if newInsertPage = InvalidBlockNumber then blk else newInsertPage) in
        rbind (if neighborPage = blk then Inr page else read_page index neighborPage) (\<lambda>npage.
        rbind (page_tuple npage neighborOffno) (\<lambda>ntup.
          if \<not> (etupSize = MAXALIGN etupSize \<and> ntupSize = MAXALIGN ntupSize) then Inl AssertionFailed
          else
            let pageFree = tuple_size (ElementTup etup) + ip_exact_free_space page;
                npageFree = tuple_size ntup +
                  (if neighborPage \<noteq> blk then ip_exact_free_space npage
                   else if pageFree \<ge> etupSize then pageFree - etupSize else 0) in
            if pageFree \<ge> etupSize \<and> npageFree \<ge> ntupSize
            then Inr (Some (offno, neighborPage, neighborOffno, et_version etup), newInsertPage')
            else free_offset_loop index blk page etupSize ntupSize (Suc offno) ts newInsertPage')))"

definition HnswFreeOffset ::
    "Relation \<Rightarrow> nat \<Rightarrow> hpage \<Rightarrow> nat \<Rightarrow> nat \<Rightarrow> nat \<Rightarrow> ((nat \<times> nat \<times> nat \<times> nat) option \<times> nat) result" where
  "HnswFreeOffset index blk page etupSize ntupSize newInsertPage =
     free_offset_loop index blk page etupSize ntupSize FirstOffsetNumber (ip_items page) newInsertPage"

text \<open>Adding a page after page \<open>blk\<close>, the last one of the chain: the new block number.\<close>

definition HnswInsertAppendPage :: "Relation \<Rightarrow> nat \<Rightarrow> (nat \<times> Relation) result" where
  "HnswInsertAppendPage index blk =
     (let (nblk, index1) = HnswNewBuffer index (GraphBlock HnswInitPage) in
      rbind (read_page index1 blk) (\<lambda>page. Inr (nblk, write_page index1 blk (page\<lparr>hp_nextblkno := nblk\<rparr>))))"

text \<open>Where the tuples go: the blocks of the element and of the neighbour tuple, and the offsets and version of a
  reused deleted element.\<close>

record placement =
  pl_blk :: nat
  pl_nblk :: nat
  pl_free :: "(nat \<times> nat \<times> nat) option"
  pl_newInsertPage :: nat

text \<open>The loop over the pages.  Running out of fuel stands for a cyclic page chain, on which the code does not return.\<close>

fun find_place :: "nat \<Rightarrow> Relation \<Rightarrow> nat \<Rightarrow> nat \<Rightarrow> nat \<Rightarrow> nat \<Rightarrow> nat \<Rightarrow> (placement \<times> Relation) result" where
  "find_place 0 index currentPage etupSize ntupSize minCombinedSize newInsertPage = Inl Diverges"
| "find_place (Suc fuel) index currentPage etupSize ntupSize minCombinedSize newInsertPage =
     rbind (read_page index currentPage) (\<lambda>page.
       let combinedSize = etupSize + ntupSize + sizeof_ItemIdData;
           free = ip_free_space page;
           nip1 = (if newInsertPage = InvalidBlockNumber \<and> free \<ge> minCombinedSize then currentPage else newInsertPage) in
       if free \<ge> combinedSize then
         Inr (\<lparr>pl_blk = currentPage, pl_nblk = currentPage, pl_free = None, pl_newInsertPage = nip1\<rparr>, index)
       else rbind (HnswFreeOffset index currentPage page etupSize ntupSize nip1) (\<lambda>(found, nip2).
         case found of
           Some (offno, nblk, noffno, version) \<Rightarrow>
             Inr (\<lparr>pl_blk = currentPage, pl_nblk = nblk, pl_free = Some (offno, noffno, version), pl_newInsertPage = nip2\<rparr>, index)
         | None \<Rightarrow>
             if combinedSize > HNSW_MAX_SIZE \<and> free \<ge> etupSize \<and> hp_nextblkno page = InvalidBlockNumber then
               rbind (HnswInsertAppendPage index currentPage) (\<lambda>(nblk, index1).
                 Inr (\<lparr>pl_blk = currentPage, pl_nblk = nblk, pl_free = None, pl_newInsertPage = nip2\<rparr>, index1))
             else if hp_nextblkno page \<noteq> InvalidBlockNumber then
               find_place fuel index (hp_nextblkno page) etupSize ntupSize minCombinedSize nip2
             else
               rbind (HnswInsertAppendPage index currentPage) (\<lambda>(newblk, index1).
               rbind (read_page index1 newblk) (\<lambda>newpage.
                 if ip_free_space newpage < combinedSize then
                   rbind (HnswInsertAppendPage index1 newblk) (\<lambda>(nblk, index2).
                     Inr (\<lparr>pl_blk = newblk, pl_nblk = nblk, pl_free = None, pl_newInsertPage = nip2\<rparr>, index2))
                 else Inr (\<lparr>pl_blk = newblk, pl_nblk = newblk, pl_free = None, pl_newInsertPage = nip2\<rparr>, index1)))))"

text \<open>Writing one tuple: over an existing one, or at the end of a page.\<close>

definition overwrite_tuple :: "Relation \<Rightarrow> nat \<Rightarrow> nat \<Rightarrow> HnswTuple \<Rightarrow> Relation result" where
  "overwrite_tuple index blk offno t =
     rbind (read_page index blk) (\<lambda>page.
     rbind (ip_overwrite tuple_size page offno t) (\<lambda>(ok, page').
       if ok then Inr (write_page index blk page') else Inl ErrAddItem))"

definition append_tuple :: "Relation \<Rightarrow> nat \<Rightarrow> nat \<Rightarrow> HnswTuple \<Rightarrow> Relation result" where
  "append_tuple index blk offno t =
     rbind (read_page index blk) (\<lambda>page.
       let (off, page') = ip_add tuple_size page t in
       if off = offno then Inr (write_page index blk page') else Inl ErrAddItem)"

definition zero_etup :: HnswElementTupleData where
  "zero_etup = \<lparr>et_level = 0, et_deleted = 0, et_version = 0, et_heaptids = replicate HNSW_HEAPTIDS (ItemPointerSet 0 0),
     et_neighbortid = ItemPointerSet 0 0, et_unused = 0, et_data = \<lparr>vl_len = 0, v_dim = 0, v_unused = 0, v_x = []\<rparr>, et_datalen = 0\<rparr>"

definition zero_ntup :: HnswNeighborTupleData where
  "zero_ntup = \<lparr>nt_version = 0, nt_count = 0, nt_indextids = []\<rparr>"

text \<open>Adding both tuples at the place found; the offsets they get.\<close>

definition add_tuples ::
    "Relation \<Rightarrow> placement \<Rightarrow> HnswElementTupleData \<Rightarrow> HnswNeighborTupleData \<Rightarrow> (Relation \<times> nat \<times> nat) result" where
  "add_tuples index pl etup ntup =
     rbind (read_page index (pl_blk pl)) (\<lambda>page.
       let offno = (case pl_free pl of Some (off, _, _) \<Rightarrow> off | None \<Rightarrow> Suc (length (ip_items page)));
           noffno = (case pl_free pl of Some (_, noff, _) \<Rightarrow> noff
                     | None \<Rightarrow> if pl_nblk pl = pl_blk pl then Suc offno else FirstOffsetNumber);
           etup1 = (case pl_free pl of Some (_, _, ver) \<Rightarrow> etup\<lparr>et_version := ver\<rparr> | None \<Rightarrow> etup)
                     \<lparr>et_neighbortid := ItemPointerSet (pl_nblk pl) noffno\<rparr>;
           ntup1 = (case pl_free pl of Some (_, _, ver) \<Rightarrow> ntup\<lparr>nt_version := ver\<rparr> | None \<Rightarrow> ntup);
           put = (if pl_free pl \<noteq> None then overwrite_tuple else append_tuple) in
       rbind (put index (pl_blk pl) offno (ElementTup etup1)) (\<lambda>index1.
       rbind (put index1 (pl_nblk pl) noffno (NeighborTup ntup1)) (\<lambda>index2. Inr (index2, offno, noffno))))"

text \<open>The result: the relation, the store with the element's position set, and \<open>*updatedInsertPage\<close> when set.\<close>

definition AddElementOnDisk ::
    "Relation \<Rightarrow> elems \<Rightarrow> eptr \<Rightarrow> nat \<Rightarrow> nat \<Rightarrow> (Relation \<times> elems \<times> nat option) result" where
  "AddElementOnDisk index elems p m insertPage =
     rbind (nth_r elems p) (\<lambda>e.
     rbind (case he_value e of None \<Rightarrow> Inl UndefinedBehaviour | Some v \<Rightarrow> Inr v) (\<lambda>value.
       let etupSize = HNSW_ELEMENT_TUPLE_SIZE (nat (vl_len value));
           ntupSize = HNSW_NEIGHBOR_TUPLE_SIZE (he_level e) m;
           minCombinedSize = etupSize + HNSW_NEIGHBOR_TUPLE_SIZE 0 m + sizeof_ItemIdData in
       rbind (HnswSetElementTuple zero_etup e) (\<lambda>etup.
       rbind (HnswSetNeighborTuple elems zero_ntup e m) (\<lambda>ntup.
       rbind (find_place (Suc (length (rel_blocks index))) index insertPage etupSize ntupSize minCombinedSize InvalidBlockNumber)
         (\<lambda>(pl, index1).
         let nip = (if pl_newInsertPage pl = InvalidBlockNumber then pl_nblk pl else pl_newInsertPage pl) in
         rbind (add_tuples index1 pl etup ntup) (\<lambda>(index2, offno, noffno).
           Inr (index2,
                elems[p := e\<lparr>he_blkno := pl_blk pl, he_neighborPage := pl_nblk pl, he_offno := offno, he_neighborOffno := noffno\<rparr>],
                if nip \<noteq> InvalidBlockNumber \<and> nip \<noteq> insertPage then Some nip else None)))))))"

section \<open>Linking the neighbours back\<close>

fun load_neighbor_elements :: "elems \<Rightarrow> ItemPointerData list \<Rightarrow> HnswCandidate list \<times> elems" where
  "load_neighbor_elements elems [] = ([], elems)"
| "load_neighbor_elements elems (tid # tids) =
     (if \<not> ItemPointerIsValid tid then ([], elems)
      else let (hcs, elems') = load_neighbor_elements (elems @ [HnswInitElementFromBlock (ip_blkid tid) (ip_posid tid)]) tids
           in (\<lparr>hc_element = length elems, hc_distance = 0, hc_closer = False\<rparr> # hcs, elems'))"

definition HnswLoadNeighbors ::
    "elems \<Rightarrow> HnswElementData \<Rightarrow> Relation \<Rightarrow> nat \<Rightarrow> nat \<Rightarrow> nat \<Rightarrow> (HnswNeighborArray \<times> elems) result" where
  "HnswLoadNeighbors elems element index m lm lc =
     rbind (HnswLoadNeighborTids element index m lm lc) (\<lambda>r.
       case r of
         None \<Rightarrow> Inr (HnswInitNeighborArray lm, elems)
       | Some tids \<Rightarrow>
           if length tids > HNSW_MAX_M * 2 then Inl UndefinedBehaviour
           else let (hcs, elems') = load_neighbor_elements elems tids
                in Inr ((HnswInitNeighborArray lm)\<lparr>na_items := hcs\<rparr>, elems'))"

text \<open>Loads the elements of the array; stops at one that is being deleted and returns its index.\<close>

fun load_for_insert ::
    "elems \<Rightarrow> Vector option \<Rightarrow> Relation \<Rightarrow> HnswSupport \<Rightarrow> nat \<Rightarrow> HnswCandidate list \<Rightarrow>
     (HnswCandidate list \<times> int \<times> elems) result" where
  "load_for_insert elems q index support i [] = Inr ([], -1, elems)"
| "load_for_insert elems q index support i (hc # hcs) =
     rbind (HnswLoadElement elems (hc_element hc) True q index support True None) (\<lambda>(distance, elems1).
     rbind (case distance of None \<Rightarrow> Inl UndefinedBehaviour | Some d \<Rightarrow> Inr d) (\<lambda>d.
     rbind (nth_r elems1 (hc_element hc)) (\<lambda>element.
       let hc' = hc\<lparr>hc_distance := f4_of_f8 d\<rparr> in
       if length (he_heaptids element) = 0 then Inr (hc' # hcs, int i, elems1)
       else rbind (load_for_insert elems1 q index support (Suc i) hcs) (\<lambda>(hcs', idx, elems2). Inr (hc' # hcs', idx, elems2)))))"

definition LoadElementsForInsert ::
    "elems \<Rightarrow> HnswNeighborArray \<Rightarrow> Vector option \<Rightarrow> Relation \<Rightarrow> HnswSupport \<Rightarrow> (HnswNeighborArray \<times> int \<times> elems) result" where
  "LoadElementsForInsert elems neighbors q index support =
     rbind (load_for_insert elems q index support 0 (na_items neighbors)) (\<lambda>(items, idx, elems').
       Inr (neighbors\<lparr>na_items := items\<rparr>, idx, elems'))"

definition GetUpdateIndex ::
    "elems \<Rightarrow> eptr \<Rightarrow> eptr \<Rightarrow> float4 \<Rightarrow> nat \<Rightarrow> nat \<Rightarrow> nat \<Rightarrow> Relation \<Rightarrow> HnswSupport \<Rightarrow> (int \<times> elems) result" where
  "GetUpdateIndex elems p newElement distance m lm lc index support =
     rbind (nth_r elems p) (\<lambda>element.
     rbind (HnswLoadNeighbors elems element index m lm lc) (\<lambda>(neighbors, elems1).
       if length (na_items neighbors) < lm then Inr (-2, elems1)
       else rbind (LoadElementsForInsert elems1 neighbors (he_value element) index support) (\<lambda>(neighbors1, idx, elems2).
         if idx = -1 then
           rbind (HnswUpdateConnection elems2 True neighbors1 newElement distance lm support) (\<lambda>(_, upd).
             Inr (case upd of None \<Rightarrow> -1 | Some i \<Rightarrow> i, elems2))
         else Inr (idx, elems2))))"

fun ConnectionExists :: "HnswElementData \<Rightarrow> ItemPointerData list \<Rightarrow> nat \<Rightarrow> nat \<Rightarrow> bool result" where
  "ConnectionExists e indextids idx 0 = Inr False"
| "ConnectionExists e indextids idx (Suc n) =
     rbind (nth_r indextids idx) (\<lambda>tid.
       if \<not> ItemPointerIsValid tid then Inr False
       else if ip_blkid tid = he_blkno e \<and> ip_posid tid = he_offno e then Inr True
       else ConnectionExists e indextids (Suc idx) n)"

text \<open>The first unused slot among \<open>n\<close> from \<open>idx\<close>.\<close>

fun find_free_slot :: "ItemPointerData list \<Rightarrow> nat \<Rightarrow> nat \<Rightarrow> int result" where
  "find_free_slot indextids idx 0 = Inr (-2)"
| "find_free_slot indextids idx (Suc n) =
     rbind (nth_r indextids idx) (\<lambda>tid.
       if \<not> ItemPointerIsValid tid then Inr (int idx) else find_free_slot indextids (Suc idx) n)"

definition UpdateNeighborOnDisk ::
    "HnswElementData \<Rightarrow> HnswElementData \<Rightarrow> int \<Rightarrow> nat \<Rightarrow> nat \<Rightarrow> nat \<Rightarrow> Relation \<Rightarrow> bool \<Rightarrow> Relation result" where
  "UpdateNeighborOnDisk element newElement idx m lm lc index checkExisting =
     rbind (read_page index (he_neighborPage element)) (\<lambda>page.
     rbind (neighbor_tuple page (he_neighborOffno element)) (\<lambda>ntup.
     if he_level element < lc then Inl UndefinedBehaviour
     else let startIdx = (he_level element - lc) * m in
     rbind (if checkExisting then ConnectionExists newElement (nt_indextids ntup) startIdx lm else Inr False) (\<lambda>exists.
     rbind (if exists then Inr (-1)
            else if idx = -2 then find_free_slot (nt_indextids ntup) startIdx lm
            else Inr (idx + int startIdx)) (\<lambda>idx'.
       if idx' \<ge> 0 \<and> idx' < int (nt_count ntup) then
         if nat idx' < length (nt_indextids ntup) then
           Inr (write_page index (he_neighborPage element)
             (page\<lparr>ip_items := (ip_items page)[he_neighborOffno element - 1 :=
                NeighborTup (ntup\<lparr>nt_indextids := (nt_indextids ntup)[nat idx' := ItemPointerSet (he_blkno newElement) (he_offno newElement)]\<rparr>)]\<rparr>))
         else Inl UndefinedBehaviour
       else Inr index))))"

fun update_neighbors_loop ::
    "elems \<Rightarrow> HnswSupport \<Rightarrow> eptr \<Rightarrow> nat \<Rightarrow> bool \<Rightarrow> (nat \<times> HnswCandidate) list \<Rightarrow> Relation \<Rightarrow> (Relation \<times> elems) result" where
  "update_neighbors_loop elems support p m checkExisting [] index = Inr (index, elems)"
| "update_neighbors_loop elems support p m checkExisting ((lc, hc) # rest) index =
     rbind (GetUpdateIndex elems (hc_element hc) p (hc_distance hc) m (HnswGetLayerM m lc) lc index support) (\<lambda>(idx, elems1).
       if idx = -1 then update_neighbors_loop elems1 support p m checkExisting rest index
       else rbind (nth_r elems1 (hc_element hc)) (\<lambda>neighborElement. rbind (nth_r elems1 p) (\<lambda>e.
         rbind (UpdateNeighborOnDisk neighborElement e idx m (HnswGetLayerM m lc) lc index checkExisting) (\<lambda>index1.
           update_neighbors_loop elems1 support p m checkExisting rest index1))))"

definition HnswUpdateNeighborsOnDisk ::
    "elems \<Rightarrow> Relation \<Rightarrow> HnswSupport \<Rightarrow> eptr \<Rightarrow> nat \<Rightarrow> bool \<Rightarrow> (Relation \<times> elems) result" where
  "HnswUpdateNeighborsOnDisk elems index support p m checkExisting =
     rbind (nth_r elems p) (\<lambda>e.
     rbind (mapM (\<lambda>lc. rbind (HnswGetNeighbors e lc) (\<lambda>a. Inr (map (Pair lc) (na_items a)))) (rev [0..<Suc (he_level e)])) (\<lambda>work.
       update_neighbors_loop elems support p m checkExisting (concat work) index))"

section \<open>Duplicates\<close>

definition AddDuplicateOnDisk ::
    "Relation \<Rightarrow> HnswElementData \<Rightarrow> HnswElementData \<Rightarrow> (bool \<times> Relation) result" where
  "AddDuplicateOnDisk index element dup =
     rbind (read_page index (he_blkno dup)) (\<lambda>page.
     rbind (element_tuple page (he_offno dup)) (\<lambda>etup.
       let i = length (takeWhile ItemPointerIsValid (take HNSW_HEAPTIDS (et_heaptids etup))) in
       if i = 0 \<or> i = HNSW_HEAPTIDS then Inr (False, index)
       else rbind (nth_r (he_heaptids element) 0) (\<lambda>heaptid.
         Inr (True, write_page index (he_blkno dup)
           (page\<lparr>ip_items := (ip_items page)[he_offno dup - 1 := ElementTup (etup\<lparr>et_heaptids := (et_heaptids etup)[i := heaptid]\<rparr>)]\<rparr>)))))"

fun find_duplicate_loop ::
    "elems \<Rightarrow> Relation \<Rightarrow> HnswElementData \<Rightarrow> HnswCandidate list \<Rightarrow> (bool \<times> Relation) result" where
  "find_duplicate_loop elems index element [] = Inr (False, index)"
| "find_duplicate_loop elems index element (neighbor # rest) =
     rbind (nth_r elems (hc_element neighbor)) (\<lambda>neighborElement.
       case (he_value element, he_value neighborElement) of
         (Some v, Some nv) \<Rightarrow>
           if \<not> datumIsEqual v nv then Inr (False, index)
           else rbind (AddDuplicateOnDisk index element neighborElement) (\<lambda>(ok, index1).
             if ok then Inr (True, index1) else find_duplicate_loop elems index element rest)
       | _ \<Rightarrow> Inl UndefinedBehaviour)"

definition FindDuplicateOnDisk :: "elems \<Rightarrow> Relation \<Rightarrow> eptr \<Rightarrow> (bool \<times> Relation) result" where
  "FindDuplicateOnDisk elems index p =
     rbind (nth_r elems p) (\<lambda>element.
     rbind (HnswGetNeighbors element 0) (\<lambda>neighbors. find_duplicate_loop elems index element (na_items neighbors)))"

section \<open>Inserting a tuple\<close>

definition UpdateGraphOnDisk ::
    "elems \<Rightarrow> Relation \<Rightarrow> HnswSupport \<Rightarrow> eptr \<Rightarrow> nat \<Rightarrow> eptr option \<Rightarrow> (Relation \<times> elems) result" where
  "UpdateGraphOnDisk elems index support p m entryPoint =
     rbind (FindDuplicateOnDisk elems index p) (\<lambda>(dup, index1).
       if dup then Inr (index1, elems)
       else rbind (GetInsertPage index) (\<lambda>insertPage.
         rbind (AddElementOnDisk index elems p m insertPage) (\<lambda>(index2, elems2, newInsertPage).
         rbind (case newInsertPage of None \<Rightarrow> Inr index2 | Some b \<Rightarrow> HnswUpdateMetaPage index2 NoUpdate None b) (\<lambda>index3.
         rbind (HnswUpdateNeighborsOnDisk elems2 index3 support p m False) (\<lambda>(index4, elems4).
         rbind (nth_r elems4 p) (\<lambda>e.
         rbind (case entryPoint of None \<Rightarrow> Inr True
                | Some ep \<Rightarrow> rbind (nth_r elems4 ep) (\<lambda>ee. Inr (he_level e > he_level ee))) (\<lambda>upd.
         rbind (if upd then HnswUpdateMetaPage index4 UpdateGreater (Some e) InvalidBlockNumber else Inr index4) (\<lambda>index5.
           Inr (index5, elems4)))))))))"

text \<open>The entry point is read again once the exclusive lock is held.\<close>

definition HnswInsertTupleOnDisk ::
    "Relation \<Rightarrow> HnswSupport \<Rightarrow> Vector \<Rightarrow> ItemPointerData \<Rightarrow> nat \<Rightarrow> Relation result" where
  "HnswInsertTupleOnDisk index support value heaptid randomLevel =
     rbind (HnswGetMetaPageInfo index) (\<lambda>(m, entryPoint).
     rbind (HnswInitElement heaptid m randomLevel (HnswGetMaxLevel m)) (\<lambda>element0.
       let element = element0\<lparr>he_value := Some value\<rparr> in
       rbind (if (case entryPoint of None \<Rightarrow> True | Some ep \<Rightarrow> he_level element > he_level ep)
              then HnswGetEntryPoint index else Inr entryPoint) (\<lambda>entryPoint'.
         let elems = element # (case entryPoint' of None \<Rightarrow> [] | Some ep \<Rightarrow> [ep]);
             entry = (case entryPoint' of None \<Rightarrow> None | Some _ \<Rightarrow> Some 1) in
         rbind (HnswFindElementNeighbors elems True 0 entry (Some index) support m (HnswGetEfConstruction index) False) (\<lambda>elems1.
         rbind (UpdateGraphOnDisk elems1 index support 0 m entry) (\<lambda>(index1, _). Inr index1)))))"

definition HnswInsertTuple ::
    "Relation \<Rightarrow> HnswTypeInfo \<Rightarrow> HnswSupport \<Rightarrow> Vector \<Rightarrow> ItemPointerData \<Rightarrow> nat \<Rightarrow> Relation result" where
  "HnswInsertTuple index typeInfo support value heaptid randomLevel =
     rbind (HnswFormIndexValue typeInfo support value) (\<lambda>v.
       case v of None \<Rightarrow> Inr index | Some v' \<Rightarrow> HnswInsertTupleOnDisk index support v' heaptid randomLevel)"

text \<open>\<open>value = None\<close> is a NULL; the C function always returns false, the model its effect on the index.\<close>

definition hnswinsert ::
    "Relation \<Rightarrow> HnswTypeInfo \<Rightarrow> HnswSupport \<Rightarrow> Vector option \<Rightarrow> ItemPointerData \<Rightarrow> nat \<Rightarrow> Relation result" where
  "hnswinsert index typeInfo support value heaptid randomLevel =
     (case value of None \<Rightarrow> Inr index | Some v \<Rightarrow> HnswInsertTuple index typeInfo support v heaptid randomLevel)"

section \<open>Well-formed relations\<close>

text \<open>The item at a position, and the pages of a relation: the metapage first, then pages whose space adds up, chained to later blocks
  only, with every deleted element pointing at its neighbour tuple.\<close>

definition tup_at :: "Relation \<Rightarrow> nat \<Rightarrow> nat \<Rightarrow> HnswTuple result" where
  "tup_at r b off = rbind (read_page r b) (\<lambda>p. page_tuple p off)"

definition hp_ok :: "hpage \<Rightarrow> bool" where
  "hp_ok p \<longleftrightarrow> ip_lower p = SizeOfPageHeaderData + sizeof_ItemIdData * length (ip_items p) \<and> ip_lower p \<le> ip_upper p \<and>
     ip_upper p + sum_list (map tuple_size (ip_items p)) = BLCKSZ - MAXALIGN sizeof_HnswPageOpaqueData"

definition next_ok :: "Relation \<Rightarrow> nat \<Rightarrow> hpage \<Rightarrow> bool" where
  "next_ok r b p \<longleftrightarrow> hp_nextblkno p = InvalidBlockNumber \<or> (b < hp_nextblkno p \<and> hp_nextblkno p < length (rel_blocks r))"

definition deleted_ok :: "Relation \<Rightarrow> bool" where
  "deleted_ok r \<longleftrightarrow> (\<forall>b off et. tup_at r b off = Inr (ElementTup et) \<longrightarrow> et_deleted et \<noteq> 0 \<longrightarrow>
     (\<exists>n. tup_at r (ip_blkid (et_neighbortid et)) (ip_posid (et_neighbortid et)) = Inr (NeighborTup n)))"

definition rel_wf :: "Relation \<Rightarrow> bool" where
  "rel_wf r \<longleftrightarrow> (\<exists>mp. read_meta r = Inr mp) \<and>
     (\<forall>b. 0 < b \<and> b < length (rel_blocks r) \<longrightarrow> (\<exists>p. read_page r b = Inr p \<and> hp_ok p \<and> next_ok r b p)) \<and> deleted_ok r"

lemma rel_wf_block:
  "rel_wf r \<Longrightarrow> 0 < b \<Longrightarrow> b < length (rel_blocks r) \<Longrightarrow> \<exists>p. read_page r b = Inr p \<and> hp_ok p \<and> next_ok r b p"
  by (simp add: rel_wf_def)

lemma page_tuple_next [simp]: "page_tuple (p\<lparr>hp_nextblkno := n\<rparr>) off = page_tuple p off"
  by (simp add: page_tuple_def ip_get_def)

lemma read_page_bounds: "read_page r b = Inr p \<Longrightarrow> b < length (rel_blocks r)"
  by (simp add: read_page_def split: if_splits)

lemma rel_wf_page:
  assumes "rel_wf r" "read_page r b = Inr p"
  shows "0 < b" "hp_ok p" "next_ok r b p"
proof -
  show b: "0 < b"
  proof (rule ccontr)
    assume "\<not> 0 < b"
    then show False using assms by (auto simp: rel_wf_def read_meta_def read_page_def hnsw_const split: if_splits block.splits)
  qed
  then show "hp_ok p" "next_ok r b p" using assms read_page_bounds [OF assms(2)] by (auto simp: rel_wf_def)
qed

lemma read_write_page:
  "b < length (rel_blocks r) \<Longrightarrow> read_page (write_page r b p) b' = (if b' = b then Inr p else read_page r b')"
  by (simp add: read_page_def write_page_def)

lemma write_page_simps [simp]: "length (rel_blocks (write_page r b p)) = length (rel_blocks r)"
  by (simp add: write_page_def)

lemma read_meta_write_page: "0 < b \<Longrightarrow> read_meta (write_page r b p) = read_meta r"
  by (cases b) (simp_all add: read_meta_def write_page_def hnsw_const nth_list_update)

text \<open>Writing back a page whose old tuples that matter are kept.\<close>

lemma rel_wf_write:
  assumes wf: "rel_wf r" and p: "read_page r b = Inr p" and ok: "hp_ok p'" "next_ok r b p'" and d: "deleted_ok (write_page r b p')"
  shows "rel_wf (write_page r b p')"
proof -
  have b: "0 < b" "b < length (rel_blocks r)" using rel_wf_page(1) [OF wf p] read_page_bounds [OF p] by simp_all
  have "\<exists>q. read_page (write_page r b p') c = Inr q \<and> hp_ok q \<and> next_ok (write_page r b p') c q"
    if c: "0 < c" "c < length (rel_blocks r)" for c
  proof (cases "c = b")
    case True
    then show ?thesis using read_write_page [OF b(2), of p' c] ok by (simp add: next_ok_def)
  next
    case False
    obtain q where "read_page r c = Inr q" "hp_ok q" "next_ok r c q" using rel_wf_block [OF wf c] by blast
    then show ?thesis using read_write_page [OF b(2), of p' c] False by (simp add: next_ok_def)
  qed
  then show ?thesis using wf d read_meta_write_page [OF b(1)] by (simp add: rel_wf_def)
qed

subsection \<open>Appending a tuple\<close>

definition keeps_tuples :: "Relation \<Rightarrow> Relation \<Rightarrow> (nat \<times> nat) set \<Rightarrow> bool" where
  "keeps_tuples r r' X \<longleftrightarrow> (\<forall>b off t. (b, off) \<notin> X \<longrightarrow> tup_at r b off = Inr t \<longrightarrow> tup_at r' b off = Inr t)"

definition only_new :: "Relation \<Rightarrow> Relation \<Rightarrow> (nat \<times> nat) set \<Rightarrow> bool" where
  "only_new r r' X \<longleftrightarrow> (\<forall>b off t. (b, off) \<notin> X \<longrightarrow> tup_at r' b off = Inr t \<longrightarrow> tup_at r b off = Inr t)"

lemma keeps_trans: "keeps_tuples a b X \<Longrightarrow> keeps_tuples b c Y \<Longrightarrow> X \<union> Y \<subseteq> Z \<Longrightarrow> keeps_tuples a c Z"
  unfolding keeps_tuples_def by blast

lemma only_trans: "only_new a b X \<Longrightarrow> only_new b c Y \<Longrightarrow> X \<union> Y \<subseteq> Z \<Longrightarrow> only_new a c Z"
  unfolding only_new_def by blast

lemma keepsD: "keeps_tuples a b X \<Longrightarrow> (c, off) \<notin> X \<Longrightarrow> tup_at a c off = Inr t \<Longrightarrow> tup_at b c off = Inr t"
  unfolding keeps_tuples_def by blast

lemma hp_ok_add:
  assumes "hp_ok p" "tuple_size t \<le> ip_free_space p"
  shows "ip_add tuple_size p t = (Suc (length (ip_items p)), p\<lparr>ip_lower := ip_lower p + 4, ip_upper := ip_upper p - tuple_size t,
      ip_items := ip_items p @ [t]\<rparr>)"
    "hp_ok (p\<lparr>ip_lower := ip_lower p + 4, ip_upper := ip_upper p - tuple_size t, ip_items := ip_items p @ [t]\<rparr>)"
  using assms tuple_size_pos [of t] by (auto simp: ip_add_def hp_ok_def ip_free_space_def hnsw_const)

lemma page_tuple_append:
  "page_tuple (p\<lparr>ip_lower := l, ip_upper := u, ip_items := ip_items p @ [t]\<rparr>) off = Inr x \<longleftrightarrow>
   (off = Suc (length (ip_items p)) \<and> x = t) \<or> page_tuple p off = Inr x"
  by (auto simp: page_tuple_def ip_get_def nth_r_def nth_append less_Suc_eq split: if_splits)

lemma append_tuple_spec:
  assumes wf: "rel_wf r" and p: "read_page r b = Inr p" and fits: "tuple_size t \<le> ip_free_space p"
    and t: "case t of ElementTup et \<Rightarrow> et_deleted et = 0 | NeighborTup n \<Rightarrow> True" and off: "off = Suc (length (ip_items p))"
  shows "\<exists>r' p'. append_tuple r b off t = Inr r' \<and> rel_wf r' \<and> tup_at r' b off = Inr t \<and> keeps_tuples r r' {} \<and>
    only_new r r' {(b, off)} \<and> read_page r' b = Inr p' \<and> ip_items p' = ip_items p @ [t] \<and>
    ip_free_space p' = ip_free_space p - tuple_size t - 4 \<and> (\<forall>c. c \<noteq> b \<longrightarrow> read_page r' c = read_page r c)"
proof -
  let ?p = "p\<lparr>ip_lower := ip_lower p + 4, ip_upper := ip_upper p - tuple_size t, ip_items := ip_items p @ [t]\<rparr>"
  let ?r = "write_page r b ?p"
  note w = rel_wf_page [OF wf p] and l = read_page_bounds [OF p]
  note a = hp_ok_add [OF w(2) fits]
  have rd: "read_page ?r c = (if c = b then Inr ?p else read_page r c)" for c using read_write_page [OF l] .
  have tup: "tup_at ?r c o' = Inr x \<longleftrightarrow> (c = b \<and> o' = off \<and> x = t) \<or> tup_at r c o' = Inr x" for c o' x
    using p off by (simp add: tup_at_def rd page_tuple_append)
  have k: "keeps_tuples r ?r {}" "only_new r ?r {(b, off)}" using tup by (auto simp: keeps_tuples_def only_new_def)
  have "deleted_ok ?r" using wf t by (fastforce simp: rel_wf_def deleted_ok_def tup)
  then have "rel_wf ?r" using rel_wf_write [OF wf p a(2)] w(3) by (simp add: next_ok_def)
  moreover have "append_tuple r b off t = Inr ?r" using p off a(1) by (simp add: append_tuple_def)
  moreover have "ip_free_space ?p = ip_free_space p - tuple_size t - 4" by (simp add: ip_free_space_def hnsw_const)
  moreover have "tup_at ?r b off = Inr t" by (simp add: tup)
  ultimately show ?thesis using k rd by auto
qed

subsection \<open>Overwriting a tuple\<close>

lemma page_tuple_update:
  "page_tuple p off = Inr old \<Longrightarrow>
   page_tuple (p\<lparr>ip_upper := u, ip_items := (ip_items p)[off - 1 := t]\<rparr>) o' = (if o' = off then Inr t else page_tuple p o')"
  by (auto simp: page_tuple_def ip_get_def nth_r_def nth_list_update split: if_splits)

lemma hp_ok_overwrite:
  assumes "hp_ok p" "page_tuple p off = Inr old" "tuple_size t \<le> tuple_size old + ip_exact_free_space p"
  shows "ip_overwrite tuple_size p off t = Inr (True, p\<lparr>ip_upper := ip_upper p + tuple_size old - tuple_size t,
      ip_items := (ip_items p)[off - 1 := t]\<rparr>)"
    "hp_ok (p\<lparr>ip_upper := ip_upper p + tuple_size old - tuple_size t, ip_items := (ip_items p)[off - 1 := t]\<rparr>)"
proof -
  have o: "off \<noteq> 0" "off - 1 < length (ip_items p)" "ip_items p ! (off - 1) = old"
    using assms(2) by (auto simp: page_tuple_def ip_get_def nth_r_def split: if_splits)
  show "ip_overwrite tuple_size p off t = Inr (True, p\<lparr>ip_upper := ip_upper p + tuple_size old - tuple_size t,
      ip_items := (ip_items p)[off - 1 := t]\<rparr>)"
    using o assms(3) by (auto simp: ip_overwrite_def Let_def ip_exact_free_space_def)
  let ?xs = "map tuple_size (ip_items p)"
  have s: "sum_list (map tuple_size ((ip_items p)[off - 1 := t])) = sum_list ?xs + tuple_size t - tuple_size old"
    using o sum_list_update [of "off - 1" ?xs "tuple_size t"] by (simp add: map_update)
  have "tuple_size old \<in> set ?xs" using o nth_mem [of "off - 1" "ip_items p"] by auto
  then have "tuple_size old \<le> sum_list ?xs" using member_le_sum_list by blast
  then show "hp_ok (p\<lparr>ip_upper := ip_upper p + tuple_size old - tuple_size t, ip_items := (ip_items p)[off - 1 := t]\<rparr>)"
    using assms(1,3) s by (auto simp: hp_ok_def ip_exact_free_space_def)
qed

lemma overwrite_tuple_spec:
  assumes wf: "rel_wf r" and p: "read_page r b = Inr p" and old: "page_tuple p off = Inr old"
    and fits: "tuple_size t \<le> tuple_size old + ip_exact_free_space p"
    and d: "deleted_ok (write_page r b (p\<lparr>ip_upper := ip_upper p + tuple_size old - tuple_size t, ip_items := (ip_items p)[off - 1 := t]\<rparr>))"
  shows "\<exists>r' p'. overwrite_tuple r b off t = Inr r' \<and> rel_wf r' \<and> tup_at r' b off = Inr t \<and> keeps_tuples r r' {(b, off)} \<and>
    only_new r r' {(b, off)} \<and> read_page r' b = Inr p' \<and>
    ip_exact_free_space p' = ip_exact_free_space p + tuple_size old - tuple_size t \<and> (\<forall>c. c \<noteq> b \<longrightarrow> read_page r' c = read_page r c)"
proof -
  define p' where "p' = p\<lparr>ip_upper := ip_upper p + tuple_size old - tuple_size t, ip_items := (ip_items p)[off - 1 := t]\<rparr>"
  let ?r = "write_page r b p'"
  note w = rel_wf_page [OF wf p] and l = read_page_bounds [OF p]
  note a = hp_ok_overwrite [OF w(2) old fits, folded p'_def]
  have rd: "read_page ?r c = (if c = b then Inr p' else read_page r c)" for c using read_write_page [OF l] .
  have pt: "page_tuple p' o' = (if o' = off then Inr t else page_tuple p o')" for o'
    unfolding p'_def by (rule page_tuple_update [OF old])
  have tup: "tup_at ?r c o' = (if c = b \<and> o' = off then Inr t else tup_at r c o')" for c o'
    using p by (simp add: tup_at_def rd pt)
  have k: "keeps_tuples r ?r {(b, off)}" "only_new r ?r {(b, off)}" using tup by (auto simp: keeps_tuples_def only_new_def split: if_splits)
  have "rel_wf ?r" using rel_wf_write [OF wf p a(2)] w(3) d [folded p'_def] by (simp add: next_ok_def p'_def)
  moreover have "overwrite_tuple r b off t = Inr ?r" using p a(1) by (simp add: overwrite_tuple_def)
  moreover have "ip_exact_free_space p' = ip_exact_free_space p + tuple_size old - tuple_size t"
    using w(2) fits by (auto simp: p'_def ip_exact_free_space_def hp_ok_def)
  ultimately show ?thesis using k rd tup by auto
qed

subsection \<open>Adding a page\<close>

lemma init_page_ok: "hp_ok HnswInitPage" "hp_nextblkno HnswInitPage = InvalidBlockNumber" "ip_items HnswInitPage = []"
    "ip_free_space HnswInitPage = HNSW_MAX_SIZE"
  by (simp_all add: hp_ok_def HnswInitPage_def ip_free_space_def hnsw_const MAXALIGN_def)

lemma append_page_spec:
  assumes wf: "rel_wf r" and p: "read_page r b = Inr p" and last: "hp_nextblkno p = InvalidBlockNumber"
  shows "\<exists>r'. HnswInsertAppendPage r b = Inr (length (rel_blocks r), r') \<and> rel_wf r' \<and>
    (\<forall>c o' t. tup_at r' c o' = Inr t \<longleftrightarrow> tup_at r c o' = Inr t) \<and> length (rel_blocks r') = Suc (length (rel_blocks r)) \<and>
    read_page r' (length (rel_blocks r)) = Inr HnswInitPage \<and>
    read_page r' b = Inr (p\<lparr>hp_nextblkno := length (rel_blocks r)\<rparr>) \<and> (\<forall>c. c \<noteq> b \<longrightarrow> c \<noteq> length (rel_blocks r) \<longrightarrow> read_page r' c = read_page r c)"
proof -
  let ?n = "length (rel_blocks r)" and ?p = "p\<lparr>hp_nextblkno := length (rel_blocks r)\<rparr>"
  define r1 where "r1 = r\<lparr>rel_blocks := rel_blocks r @ [GraphBlock HnswInitPage]\<rparr>"
  define r' where "r' = write_page r1 b ?p"
  note w = rel_wf_page [OF wf p] and l = read_page_bounds [OF p]
  have r1: "read_page r1 c = (if c = ?n then Inr HnswInitPage else read_page r c)" for c
    by (auto simp: r1_def read_page_def nth_append)
  have l1: "length (rel_blocks r1) = Suc ?n" by (simp add: r1_def)
  have rd: "read_page r' c = (if c = b then Inr ?p else if c = ?n then Inr HnswInitPage else read_page r c)" for c
    unfolding r'_def using read_write_page [of b r1] l l1 r1 by simp
  have a: "HnswInsertAppendPage r b = Inr (?n, r')"
    using r1 [of b] l p by (simp add: HnswInsertAppendPage_def HnswNewBuffer_def r1_def [symmetric] r'_def)
  have oob: "read_page r ?n = Inl (ErrBadBlock ?n)" by (simp add: read_page_def)
  have i: "page_tuple HnswInitPage o' = Inl UndefinedBehaviour" for o'
    by (simp add: page_tuple_def ip_get_def nth_r_def HnswInitPage_def)
  have tup: "tup_at r' c o' = Inr t \<longleftrightarrow> tup_at r c o' = Inr t" for c o' t
    using p l oob by (auto simp: tup_at_def rd i)
  have "\<exists>q. read_page r' c = Inr q \<and> hp_ok q \<and> next_ok r' c q" if c: "0 < c" "c < Suc ?n" for c
  proof -
    have l': "length (rel_blocks r') = Suc ?n" by (simp add: r'_def l1)
    consider "c = b" | "c = ?n" "c \<noteq> b" | "c \<noteq> b" "c < ?n" using c(2) by (cases "c = ?n") auto
    then show ?thesis
    proof cases
      case 1
      then show ?thesis using rd [of c] w(2) l l' by (simp add: next_ok_def hp_ok_def)
    next
      case 2
      then show ?thesis using rd [of c] init_page_ok by (simp add: next_ok_def)
    next
      case 3
      then obtain q where "read_page r c = Inr q" "hp_ok q" "next_ok r c q" using rel_wf_block [OF wf c(1)] by blast
      then show ?thesis using rd [of c] 3 l' by (auto simp: next_ok_def)
    qed
  qed
  moreover have "read_meta r' = read_meta r1" unfolding r'_def by (rule read_meta_write_page [OF w(1)])
  moreover have "read_meta r1 = read_meta r" using l by (auto simp: r1_def read_meta_def nth_append hnsw_const)
  moreover have "deleted_ok r'" using wf by (simp add: rel_wf_def deleted_ok_def tup)
  ultimately have "rel_wf r'" using wf by (simp add: rel_wf_def r'_def l1)
  then show ?thesis using a tup rd l by (simp add: r'_def l1)
qed

subsection \<open>Finding a place\<close>

definition free_ok :: "Relation \<Rightarrow> nat \<Rightarrow> hpage \<Rightarrow> nat \<Rightarrow> nat \<Rightarrow> nat \<Rightarrow> nat \<Rightarrow> nat \<Rightarrow> nat \<Rightarrow> bool" where
  "free_ok r blk page es ns off nb noff ver \<longleftrightarrow> (\<exists>et npage nt. page_tuple page off = Inr (ElementTup et) \<and> et_deleted et \<noteq> 0 \<and>
     et_neighbortid et = ItemPointerSet nb noff \<and> et_version et = ver \<and> read_page r nb = Inr npage \<and>
     page_tuple npage noff = Inr (NeighborTup nt) \<and> es \<le> tuple_size (ElementTup et) + ip_exact_free_space page \<and>
     ns \<le> tuple_size (NeighborTup nt) +
       (if nb \<noteq> blk then ip_exact_free_space npage else tuple_size (ElementTup et) + ip_exact_free_space page - es))"

lemma ItemPointer_collapse: "ItemPointerSet (ip_blkid t) (ip_posid t) = t"
  by (simp add: ItemPointerSet_def)

lemma free_offset_loop_spec:
  assumes wf: "rel_wf r" and p: "read_page r blk = Inr page" and al: "MAXALIGN es = es" "MAXALIGN ns = ns"
  shows "ts = drop k (ip_items page) \<Longrightarrow> \<exists>found nip'. free_offset_loop r blk page es ns (Suc k) ts nip = Inr (found, nip') \<and>
    (case found of None \<Rightarrow> True | Some (off, nb, noff, ver) \<Rightarrow> free_ok r blk page es ns off nb noff ver)"
proof (induction ts arbitrary: k nip)
  case (Cons t ts)
  have rest: "ts = drop (Suc k) (ip_items page)" using Cons.prems by (metis drop_Suc list.sel(3) tl_drop)
  have k: "k < length (ip_items page)" "ip_items page ! k = t"
    using Cons.prems by (metis drop_all list.distinct(1) not_le, metis hd_drop_conv_nth list.sel(1) drop_all list.distinct(1) not_le)
  then have at: "page_tuple page (Suc k) = Inr t" by (simp add: page_tuple_def ip_get_def)
  show ?case
  proof (cases t)
    case (NeighborTup n)
    then show ?thesis using Cons.IH [OF rest, of nip] by simp
  next
    case (ElementTup et)
    show ?thesis
    proof (cases "et_deleted et = 0")
      case True
      then show ?thesis using Cons.IH [OF rest, of nip] ElementTup by simp
    next
      case False
      let ?nb = "ip_blkid (et_neighbortid et)" and ?no = "ip_posid (et_neighbortid et)"
      let ?nip = "if nip = InvalidBlockNumber then blk else nip"
      have "tup_at r blk (Suc k) = Inr (ElementTup et)" using p at ElementTup by (simp add: tup_at_def)
      then obtain nt where "tup_at r ?nb ?no = Inr (NeighborTup nt)" using wf False unfolding rel_wf_def deleted_ok_def by blast
      then obtain npage where n: "read_page r ?nb = Inr npage" "page_tuple npage ?no = Inr (NeighborTup nt)"
        by (auto simp: tup_at_def rbind_InrE)
      have np: "(if ?nb = blk then Inr page else read_page r ?nb) = Inr npage" using n p by (cases "?nb = blk") simp_all
      let ?pf = "tuple_size (ElementTup et) + ip_exact_free_space page"
      let ?nf = "tuple_size (NeighborTup nt) + (if ?nb \<noteq> blk then ip_exact_free_space npage else if ?pf \<ge> es then ?pf - es else 0)"
      have eq: "free_offset_loop r blk page es ns (Suc k) (t # ts) nip =
          (if ?pf \<ge> es \<and> ?nf \<ge> ns then Inr (Some (Suc k, ?nb, ?no, et_version et), ?nip)
           else free_offset_loop r blk page es ns (Suc (Suc k)) ts ?nip)"
        using False ElementTup np n(2) al by (simp add: Let_def)
      show ?thesis
      proof (cases "?pf \<ge> es \<and> ?nf \<ge> ns")
        case True
        then have "free_ok r blk page es ns (Suc k) ?nb ?no (et_version et)"
          unfolding free_ok_def using at ElementTup False n ItemPointer_collapse [of "et_neighbortid et"]
          by (intro exI [of _ et] exI [of _ npage] exI [of _ nt]) auto
        then show ?thesis using eq True by simp
      next
        case no: False
        then show ?thesis using eq Cons.IH [OF rest, of ?nip] by (simp only: if_False)
      qed
    qed
  qed
qed simp

definition placement_ok :: "Relation \<Rightarrow> placement \<Rightarrow> nat \<Rightarrow> nat \<Rightarrow> bool" where
  "placement_ok r pl es ns \<longleftrightarrow> (\<exists>page npage. read_page r (pl_blk pl) = Inr page \<and> read_page r (pl_nblk pl) = Inr npage \<and>
     (case pl_free pl of
        None \<Rightarrow> if pl_nblk pl = pl_blk pl then es + ns + 4 \<le> ip_free_space page
                else es \<le> ip_free_space page \<and> ns \<le> ip_free_space npage \<and> ip_items npage = []
      | Some (off, noff, ver) \<Rightarrow> free_ok r (pl_blk pl) page es ns off (pl_nblk pl) noff ver))"

definition same_tuples :: "Relation \<Rightarrow> Relation \<Rightarrow> bool" where
  "same_tuples r r' \<longleftrightarrow> (\<forall>b off t. tup_at r' b off = Inr t \<longleftrightarrow> tup_at r b off = Inr t)"

lemma find_place_last:
  assumes wf: "rel_wf r" and mx: "es \<le> HNSW_MAX_SIZE" "ns \<le> HNSW_MAX_SIZE" and p: "read_page r b = Inr page"
    and c: "\<not> es + ns + sizeof_ItemIdData \<le> ip_free_space page" and nx: "hp_nextblkno page = InvalidBlockNumber"
    and f: "HnswFreeOffset r b page es ns (if nip = InvalidBlockNumber \<and> mc \<le> ip_free_space page then b else nip) = Inr (None, nip')"
  shows "\<exists>pl r'. find_place (Suc fuel) r b es ns mc nip = Inr (pl, r') \<and> rel_wf r' \<and> same_tuples r r' \<and> placement_ok r' pl es ns"
proof -
  let ?c = "es + ns + sizeof_ItemIdData"
  let ?n = "length (rel_blocks r)"
  obtain r1 where r1: "HnswInsertAppendPage r b = Inr (?n, r1)" "rel_wf r1" "same_tuples r r1"
      "length (rel_blocks r1) = Suc ?n" "read_page r1 ?n = Inr HnswInitPage" "read_page r1 b = Inr (page\<lparr>hp_nextblkno := ?n\<rparr>)"
    using append_page_spec [OF wf p nx] unfolding same_tuples_def by blast
  show ?thesis
  proof (cases "HNSW_MAX_SIZE < ?c \<and> es \<le> ip_free_space page")
    case True
    then have "find_place (Suc fuel) r b es ns mc nip =
        Inr (\<lparr>pl_blk = b, pl_nblk = ?n, pl_free = None, pl_newInsertPage = nip'\<rparr>, r1)"
      using c f nx p r1(1) by (simp add: Let_def)
    moreover have "placement_ok r1 \<lparr>pl_blk = b, pl_nblk = ?n, pl_free = None, pl_newInsertPage = nip'\<rparr> es ns"
      using r1(5,6) True mx init_page_ok read_page_bounds [OF p] by (simp add: placement_ok_def ip_free_space_def)
    ultimately show ?thesis using r1 by blast
  next
    case no: False
    show ?thesis
    proof (cases "HNSW_MAX_SIZE < ?c")
      case big: True
      obtain r2 where r2: "HnswInsertAppendPage r1 ?n = Inr (Suc ?n, r2)" "rel_wf r2" "same_tuples r1 r2"
          "read_page r2 (Suc ?n) = Inr HnswInitPage" "read_page r2 ?n = Inr (HnswInitPage\<lparr>hp_nextblkno := Suc ?n\<rparr>)"
        using append_page_spec [OF r1(2,5) init_page_ok(2)] r1(4) unfolding same_tuples_def by auto
      have "find_place (Suc fuel) r b es ns mc nip =
          Inr (\<lparr>pl_blk = ?n, pl_nblk = Suc ?n, pl_free = None, pl_newInsertPage = nip'\<rparr>, r2)"
        using c f nx p r1(1,5) r2(1) no big init_page_ok(4) by (simp add: Let_def)
      moreover have "placement_ok r2 \<lparr>pl_blk = ?n, pl_nblk = Suc ?n, pl_free = None, pl_newInsertPage = nip'\<rparr> es ns"
        using r2(4,5) mx init_page_ok by (simp add: placement_ok_def ip_free_space_def)
      moreover have "same_tuples r r2" using r1(3) r2(3) by (simp add: same_tuples_def)
      ultimately show ?thesis using r2 by blast
    next
      case small: False
      have "find_place (Suc fuel) r b es ns mc nip =
          Inr (\<lparr>pl_blk = ?n, pl_nblk = ?n, pl_free = None, pl_newInsertPage = nip'\<rparr>, r1)"
        using c f nx p r1(1,5) no small init_page_ok(4) by (simp add: Let_def)
      moreover have "placement_ok r1 \<lparr>pl_blk = ?n, pl_nblk = ?n, pl_free = None, pl_newInsertPage = nip'\<rparr> es ns"
        using r1(5) small init_page_ok by (simp add: placement_ok_def hnsw_const)
      ultimately show ?thesis using r1 by blast
    qed
  qed
qed

lemma find_place_spec:
  assumes wf: "rel_wf r" and al: "MAXALIGN es = es" "MAXALIGN ns = ns" and mx: "es \<le> HNSW_MAX_SIZE" "ns \<le> HNSW_MAX_SIZE"
  shows "0 < b \<Longrightarrow> b < length (rel_blocks r) \<Longrightarrow> length (rel_blocks r) < b + fuel \<Longrightarrow>
    \<exists>pl r'. find_place fuel r b es ns mc nip = Inr (pl, r') \<and> rel_wf r' \<and> same_tuples r r' \<and> placement_ok r' pl es ns"
proof (induction fuel arbitrary: b nip)
  case (Suc fuel)
  obtain page where p: "read_page r b = Inr page" "hp_ok page" "next_ok r b page" using rel_wf_block [OF wf Suc.prems(1,2)] by blast
  let ?c = "es + ns + sizeof_ItemIdData"
  let ?nip = "if nip = InvalidBlockNumber \<and> mc \<le> ip_free_space page then b else nip"
  have same: "same_tuples r r" by (simp add: same_tuples_def)
  show ?case
  proof (cases "?c \<le> ip_free_space page")
    case True
    then show ?thesis using p wf same by (simp add: Let_def placement_ok_def hnsw_const)
  next
    case c: False
    obtain found nip' where f: "HnswFreeOffset r b page es ns ?nip = Inr (found, nip')"
      and fok: "case found of None \<Rightarrow> True | Some (off, nb, noff, ver) \<Rightarrow> free_ok r b page es ns off nb noff ver"
      using free_offset_loop_spec [OF wf p(1) al, of "ip_items page" 0 ?nip] unfolding HnswFreeOffset_def FirstOffsetNumber_def by auto
    show ?thesis
    proof (cases found)
      case (Some x)
      obtain off nb noff ver where x: "x = (off, nb, noff, ver)" by (cases x)
      then have k: "free_ok r b page es ns off nb noff ver" using fok Some by simp
      then obtain npage where "read_page r nb = Inr npage" unfolding free_ok_def by blast
      then show ?thesis using Some x p wf same c f k by (simp add: Let_def placement_ok_def)
    next
      case None
      show ?thesis
      proof (cases "hp_nextblkno page = InvalidBlockNumber")
        case nx: False
        then have "b < hp_nextblkno page" "hp_nextblkno page < length (rel_blocks r)" using p(3) by (simp_all add: next_ok_def)
        then show ?thesis using Suc.IH [of "hp_nextblkno page" nip'] Suc.prems nx None f c p(1) by (simp add: Let_def)
      next
        case nx: True
        show ?thesis using find_place_last [OF wf mx p(1) c nx] f None by simp
      qed
    qed
  qed
qed simp

subsection \<open>Writing both tuples\<close>

text \<open>The two tuples are in place, every other tuple is as it was, and what was at the position of the element is either nothing
  or a deleted element whose neighbour tuple is the one written over.\<close>

definition placed :: "Relation \<Rightarrow> Relation \<Rightarrow> nat \<times> nat \<Rightarrow> nat \<times> nat \<Rightarrow> HnswElementTupleData \<Rightarrow> HnswNeighborTupleData \<Rightarrow> bool" where
  "placed r r' ep np et nt \<longleftrightarrow> rel_wf r' \<and> tup_at r' (fst ep) (snd ep) = Inr (ElementTup et) \<and> tup_at r' (fst np) (snd np) = Inr (NeighborTup nt) \<and>
     keeps_tuples r r' {ep, np} \<and> only_new r r' {ep, np} \<and>
     ((\<forall>t. tup_at r (fst ep) (snd ep) \<noteq> Inr t \<and> tup_at r (fst np) (snd np) \<noteq> Inr t) \<or>
      (\<exists>d. tup_at r (fst ep) (snd ep) = Inr (ElementTup d) \<and> et_deleted d \<noteq> 0 \<and> et_neighbortid d = ItemPointerSet (fst np) (snd np)))"

lemma tup_beyond: "read_page r b = Inr p \<Longrightarrow> length (ip_items p) < off \<Longrightarrow> tup_at r b off \<noteq> Inr t"
  by (auto simp: tup_at_def page_tuple_def ip_get_def nth_r_def)

lemma put_appended:
  assumes wf: "rel_wf r" and pl: "placement_ok r pl (tuple_size (ElementTup et)) (tuple_size (NeighborTup nt))" "pl_free pl = None"
    and d: "et_deleted et = 0" and p: "read_page r (pl_blk pl) = Inr page"
    and off: "off = Suc (length (ip_items page))" "noff = (if pl_nblk pl = pl_blk pl then Suc off else FirstOffsetNumber)"
  shows "\<exists>r2 r3. append_tuple r (pl_blk pl) off (ElementTup et) = Inr r2 \<and> append_tuple r2 (pl_nblk pl) noff (NeighborTup nt) = Inr r3 \<and>
    placed r r3 (pl_blk pl, off) (pl_nblk pl, noff) et nt"
proof -
  obtain npage where np: "read_page r (pl_nblk pl) = Inr npage"
    and fits: "if pl_nblk pl = pl_blk pl then tuple_size (ElementTup et) + tuple_size (NeighborTup nt) + 4 \<le> ip_free_space page
       else tuple_size (ElementTup et) \<le> ip_free_space page \<and> tuple_size (NeighborTup nt) \<le> ip_free_space npage \<and> ip_items npage = []"
    using pl p by (auto simp: placement_ok_def)
  have f1: "tuple_size (ElementTup et) \<le> ip_free_space page" using fits by (auto split: if_splits)
  obtain r2 p2 where r2: "append_tuple r (pl_blk pl) off (ElementTup et) = Inr r2" "rel_wf r2" "tup_at r2 (pl_blk pl) off = Inr (ElementTup et)"
      "keeps_tuples r r2 {}" "only_new r r2 {(pl_blk pl, off)}" "read_page r2 (pl_blk pl) = Inr p2" "ip_items p2 = ip_items page @ [ElementTup et]"
      "ip_free_space p2 = ip_free_space page - tuple_size (ElementTup et) - 4" "\<forall>c. c \<noteq> pl_blk pl \<longrightarrow> read_page r2 c = read_page r c"
    using append_tuple_spec [OF wf p f1 _ off(1)] d by auto
  obtain q where q: "read_page r2 (pl_nblk pl) = Inr q" "tuple_size (NeighborTup nt) \<le> ip_free_space q" "noff = Suc (length (ip_items q))"
  proof (cases "pl_nblk pl = pl_blk pl")
    case True
    then show ?thesis using that [of p2] r2(6,7,8) fits off by simp
  next
    case False
    then show ?thesis using that [of npage] r2(9) np fits off by (simp add: FirstOffsetNumber_def)
  qed
  obtain r3 p3 where r3: "append_tuple r2 (pl_nblk pl) noff (NeighborTup nt) = Inr r3" "rel_wf r3" "tup_at r3 (pl_nblk pl) noff = Inr (NeighborTup nt)"
      "keeps_tuples r2 r3 {}" "only_new r2 r3 {(pl_nblk pl, noff)}"
    using append_tuple_spec [OF r2(2) q(1,2) _ q(3)] by auto
  have e1: "tup_at r (pl_blk pl) off \<noteq> Inr t" for t using tup_beyond [OF p] off(1) by simp
  have e2: "tup_at r (pl_nblk pl) noff \<noteq> Inr t" for t
  proof (cases "pl_nblk pl = pl_blk pl")
    case True
    then show ?thesis using tup_beyond [OF p] off by simp
  next
    case False
    then show ?thesis using tup_beyond [OF np] off fits by (simp add: FirstOffsetNumber_def)
  qed
  have "keeps_tuples r r3 {(pl_blk pl, off), (pl_nblk pl, noff)}" "only_new r r3 {(pl_blk pl, off), (pl_nblk pl, noff)}"
    by (rule keeps_trans [OF r2(4) r3(4)], simp, rule only_trans [OF r2(5) r3(5)], simp)
  moreover have "tup_at r3 (pl_blk pl) off = Inr (ElementTup et)" using keepsD [OF r3(4) _ r2(3)] by simp
  ultimately show ?thesis using r2(1) r3(1-3) e1 e2 by (auto simp: placed_def)
qed

text \<open>Tuples that may be written over: a neighbour tuple over any tuple; an element tuple over an element tuple, which has a neighbour tuple
  when it is marked deleted.\<close>

definition replace_ok :: "Relation \<Rightarrow> HnswTuple \<Rightarrow> HnswTuple \<Rightarrow> bool" where
  "replace_ok r old t \<longleftrightarrow> (case t of NeighborTup _ \<Rightarrow> True
     | ElementTup e \<Rightarrow> (\<exists>e0. old = ElementTup e0) \<and> (et_deleted e = 0 \<or>
         (\<exists>n. tup_at r (ip_blkid (et_neighbortid e)) (ip_posid (et_neighbortid e)) = Inr (NeighborTup n))))"

lemma deleted_ok_replace:
  assumes "deleted_ok r" "\<And>b o'. tup_at r' b o' = (if b = c \<and> o' = off then Inr t else tup_at r b o')" "tup_at r c off = Inr old"
    and "replace_ok r old t"
  shows "deleted_ok r'"
  unfolding deleted_ok_def
proof (intro allI impI)
  fix b o' et assume t: "tup_at r' b o' = Inr (ElementTup et)" "et_deleted et \<noteq> 0"
  let ?b = "ip_blkid (et_neighbortid et)" and ?o = "ip_posid (et_neighbortid et)"
  obtain n where n: "tup_at r ?b ?o = Inr (NeighborTup n)"
  proof (cases "b = c \<and> o' = off")
    case True
    then show thesis using t assms(2) [of b o'] assms(4) that by (auto simp: replace_ok_def)
  next
    case False
    then have "tup_at r b o' = Inr (ElementTup et)" using t(1) assms(2) [of b o'] by auto
    then show thesis using assms(1) t(2) that unfolding deleted_ok_def by blast
  qed
  show "\<exists>n. tup_at r' ?b ?o = Inr (NeighborTup n)"
  proof (cases "?b = c \<and> ?o = off")
    case True
    then have "old = NeighborTup n" using n assms(3) by simp
    then have "\<exists>n. t = NeighborTup n" using assms(4) by (cases t) (simp_all add: replace_ok_def)
    then show ?thesis using assms(2) [of ?b ?o] True by auto
  next
    case False
    then show ?thesis using n assms(2) [of ?b ?o] by auto
  qed
qed

lemma overwrite_replace:
  assumes wf: "rel_wf r" and p: "read_page r b = Inr p" and old: "page_tuple p off = Inr old"
    and fits: "tuple_size t \<le> tuple_size old + ip_exact_free_space p"
    and k: "replace_ok r old t"
  shows "\<exists>r' p'. overwrite_tuple r b off t = Inr r' \<and> rel_wf r' \<and> tup_at r' b off = Inr t \<and> keeps_tuples r r' {(b, off)} \<and>
    only_new r r' {(b, off)} \<and> read_page r' b = Inr p' \<and>
    ip_exact_free_space p' = ip_exact_free_space p + tuple_size old - tuple_size t \<and> (\<forall>c. c \<noteq> b \<longrightarrow> read_page r' c = read_page r c)"
proof (rule overwrite_tuple_spec [OF wf p old fits], rule deleted_ok_replace)
  show "deleted_ok r" using wf by (simp add: rel_wf_def)
  show "tup_at r b off = Inr old" using p old by (simp add: tup_at_def)
  fix c o'
  show "tup_at (write_page r b (p\<lparr>ip_upper := ip_upper p + tuple_size old - tuple_size t, ip_items := (ip_items p)[off - 1 := t]\<rparr>)) c o' =
      (if c = b \<and> o' = off then Inr t else tup_at r c o')"
    using p unfolding tup_at_def read_write_page [OF read_page_bounds [OF p]] by (auto simp only: page_tuple_update [OF old] rbind_simps split: if_splits)
qed (rule k)

lemma put_reused:
  assumes wf: "rel_wf r" and pl: "placement_ok r pl (tuple_size (ElementTup et)) (tuple_size (NeighborTup nt))" "pl_free pl = Some (off, noff, ver)"
    and d: "et_deleted et = 0"
  shows "\<exists>r2 r3. overwrite_tuple r (pl_blk pl) off (ElementTup et) = Inr r2 \<and> overwrite_tuple r2 (pl_nblk pl) noff (NeighborTup nt) = Inr r3 \<and>
    placed r r3 (pl_blk pl, off) (pl_nblk pl, noff) et nt"
proof -
  let ?b = "pl_blk pl" and ?nb = "pl_nblk pl"
  obtain page old npage on where p: "read_page r ?b = Inr page" and old: "page_tuple page off = Inr (ElementTup old)" "et_deleted old \<noteq> 0"
      "et_neighbortid old = ItemPointerSet ?nb noff" and np: "read_page r ?nb = Inr npage" "page_tuple npage noff = Inr (NeighborTup on)"
      and fits: "tuple_size (ElementTup et) \<le> tuple_size (ElementTup old) + ip_exact_free_space page"
        "tuple_size (NeighborTup nt) \<le> tuple_size (NeighborTup on) + (if ?nb \<noteq> ?b then ip_exact_free_space npage
          else tuple_size (ElementTup old) + ip_exact_free_space page - tuple_size (ElementTup et))"
    using pl by (auto simp: placement_ok_def free_ok_def)
  obtain r2 p2 where r2: "overwrite_tuple r ?b off (ElementTup et) = Inr r2" "rel_wf r2" "tup_at r2 ?b off = Inr (ElementTup et)"
      "keeps_tuples r r2 {(?b, off)}" "only_new r r2 {(?b, off)}" "read_page r2 ?b = Inr p2"
      "ip_exact_free_space p2 = ip_exact_free_space page + tuple_size (ElementTup old) - tuple_size (ElementTup et)"
      "\<forall>c. c \<noteq> ?b \<longrightarrow> read_page r2 c = read_page r c"
    using overwrite_replace [OF wf p old(1) fits(1)] d by (auto simp: replace_ok_def)
  have ne: "(?nb, noff) \<noteq> (?b, off)" using p np old(1) by auto
  have "tup_at r2 ?nb noff = Inr (NeighborTup on)" using keepsD [OF r2(4), of ?nb noff] ne np by (simp add: tup_at_def)
  then obtain q where q: "read_page r2 ?nb = Inr q" "page_tuple q noff = Inr (NeighborTup on)" by (auto simp: tup_at_def rbind_InrE)
  have f2: "tuple_size (NeighborTup nt) \<le> tuple_size (NeighborTup on) + ip_exact_free_space q"
    using fits(2) r2(6,7,8) q(1) np(1) by (cases "?nb = ?b") (simp_all add: add.commute)
  obtain r3 where r3: "overwrite_tuple r2 ?nb noff (NeighborTup nt) = Inr r3" "rel_wf r3" "tup_at r3 ?nb noff = Inr (NeighborTup nt)"
      "keeps_tuples r2 r3 {(?nb, noff)}" "only_new r2 r3 {(?nb, noff)}"
    using overwrite_replace [OF r2(2) q f2] by (auto simp: replace_ok_def)
  have "keeps_tuples r r3 {(?b, off), (?nb, noff)}" "only_new r r3 {(?b, off), (?nb, noff)}"
    by (rule keeps_trans [OF r2(4) r3(4)], simp, rule only_trans [OF r2(5) r3(5)], simp)
  moreover have "tup_at r3 ?b off = Inr (ElementTup et)" using keepsD [OF r3(4) _ r2(3)] ne by auto
  moreover have "tup_at r ?b off = Inr (ElementTup old)" using p old(1) by (simp add: tup_at_def)
  ultimately show ?thesis using r2(1) r3(1-3) old(2,3) by (auto simp: placed_def)
qed

section \<open>The neighbour tuple of an element\<close>

lemma mapM_total: "(\<And>x. x \<in> set xs \<Longrightarrow> f x = Inr (g x)) \<Longrightarrow> mapM f xs = Inr (map g xs)"
  by (induction xs) simp_all

text \<open>An element whose arrays have room for their layers and point into the store.\<close>

definition arrays_ok :: "elems \<Rightarrow> HnswElementData \<Rightarrow> bool" where
  "arrays_ok es e \<longleftrightarrow> (case he_neighbors e of None \<Rightarrow> False
     | Some ns \<Rightarrow> length ns = Suc (he_level e) \<and> (\<forall>a\<in>set ns. \<forall>hc\<in>set (na_items a). hc_element hc < length es))"

definition elem_tid :: "HnswElementData \<Rightarrow> ItemPointerData" where
  "elem_tid e = ItemPointerSet (he_blkno e) (he_offno e)"

text \<open>The slots of a layer: the positions of the neighbours, then unused ones.\<close>

definition layer_slots :: "elems \<Rightarrow> HnswElementData \<Rightarrow> nat \<Rightarrow> nat \<Rightarrow> ItemPointerData list" where
  "layer_slots es e m lc = (let items = na_items (the (he_neighbors e) ! lc) in
     map (\<lambda>i. if i < length items then elem_tid (es ! hc_element (items ! i)) else InvalidItemPointer) [0..<HnswGetLayerM m lc])"

lemma layer_tids_eq: "arrays_ok es e \<Longrightarrow> lc \<le> he_level e \<Longrightarrow> layer_tids es e m lc = Inr (layer_slots es e m lc)"
proof -
  assume ok: "arrays_ok es e" and lc: "lc \<le> he_level e"
  obtain ns where ns: "he_neighbors e = Some ns" "length ns = Suc (he_level e)"
    and el: "\<And>a hc. a \<in> set ns \<Longrightarrow> hc \<in> set (na_items a) \<Longrightarrow> hc_element hc < length es"
    using ok by (auto simp: arrays_ok_def split: option.splits)
  have "neighbor_tid es (ns ! lc) i =
      Inr (if i < length (na_items (ns ! lc)) then elem_tid (es ! hc_element (na_items (ns ! lc) ! i)) else InvalidItemPointer)" for i
    using el [of "ns ! lc" "na_items (ns ! lc) ! i"] lc ns(2) by (simp add: neighbor_tid_def elem_tid_def)
  then show ?thesis
    unfolding layer_tids_def layer_slots_def Let_def using ns lc by (simp add: HnswGetNeighbors_def mapM_total)
qed

lemma SetNeighborTuple_eq:
  assumes "arrays_ok es e"
  shows "HnswSetNeighborTuple es nt e m = Inr (nt\<lparr>nt_indextids := concat (map (layer_slots es e m) (rev [0..<Suc (he_level e)])),
    nt_count := length (concat (map (layer_slots es e m) (rev [0..<Suc (he_level e)]))) mod 65536, nt_version := he_version e\<rparr>)"
proof -
  have "mapM (layer_tids es e m) (rev [0..<Suc (he_level e)]) = Inr (map (layer_slots es e m) (rev [0..<Suc (he_level e)]))"
    by (rule mapM_total) (use layer_tids_eq [OF assms] in auto)
  then show ?thesis unfolding HnswSetNeighborTuple_def by (simp only: rbind_simps)
qed

lemma layer_slots_length [simp]: "length (layer_slots es e m lc) = HnswGetLayerM m lc"
  by (simp add: layer_slots_def Let_def)

lemma slots_length: "length (concat (map (layer_slots es e m) (rev [0..<Suc l]))) = (l + 2) * m"
  by (induction l) (simp_all add: HnswGetLayerM_def)

text \<open>The layers above \<open>lc\<close> take \<open>m\<close> slots each.\<close>

lemma slots_slice:
  "lc \<le> l \<Longrightarrow> take (HnswGetLayerM m lc) (drop ((l - lc) * m) (concat (map (layer_slots es e m) (rev [0..<Suc l])))) = layer_slots es e m lc"
proof (induction l)
  case (Suc l)
  show ?case
  proof (cases "lc = Suc l")
    case True
    then show ?thesis by (simp add: HnswGetLayerM_def)
  next
    case False
    then have l: "lc \<le> l" using Suc.prems by simp
    have "concat (map (layer_slots es e m) (rev [0..<Suc (Suc l)])) =
        layer_slots es e m (Suc l) @ concat (map (layer_slots es e m) (rev [0..<Suc l]))" by simp
    moreover have "(Suc l - lc) * m = length (layer_slots es e m (Suc l)) + (l - lc) * m"
      using l by (simp add: HnswGetLayerM_def Suc_diff_le)
    ultimately show ?thesis using Suc.IH [OF l] by (simp only: drop_append drop_drop [symmetric]) simp
  qed
qed (simp add: HnswGetLayerM_def)

lemma layer_bound: "lc \<le> l \<Longrightarrow> (l - lc) * m + HnswGetLayerM m lc \<le> (l + 2) * m"
proof -
  assume "lc \<le> l"
  then have "(l - lc) * m + 2 * m \<le> (l + 2) * m" by (simp add: algebra_simps diff_mult_distrib)
  moreover have "HnswGetLayerM m lc \<le> 2 * m" by (simp add: HnswGetLayerM_def)
  ultimately show ?thesis by linarith
qed

lemma neighbor_tids_read:
  assumes "arrays_ok elems e" and "HnswSetNeighborTuple elems ntup e m = Inr n" and "(he_level e + 2) * m < 65536"
    and "tup_at r (he_neighborPage e') (he_neighborOffno e') = Inr (NeighborTup n)" and "he_level e' = he_level e" and "he_version e' = he_version e"
    and "lc \<le> he_level e"
  shows "HnswLoadNeighborTids e' r m (HnswGetLayerM m lc) lc = Inr (Some (layer_slots elems e m lc))"
proof -
  let ?s = "concat (map (layer_slots elems e m) (rev [0..<Suc (he_level e)]))"
  have n: "nt_indextids n = ?s" "nt_version n = he_version e" "nt_count n = (he_level e + 2) * m"
    using assms(2,3) SetNeighborTuple_eq [OF assms(1), of ntup m] slots_length [of elems e m "he_level e"] by auto
  obtain p where p: "read_page r (he_neighborPage e') = Inr p" "neighbor_tuple p (he_neighborOffno e') = Inr n"
    using assms(4) by (auto simp: tup_at_def neighbor_tuple_def rbind_InrE)
  have "(he_level e - lc) * m + HnswGetLayerM m lc \<le> (he_level e + 2) * m" by (rule layer_bound [OF assms(7)])
  moreover have "length ?s = (he_level e + 2) * m" by (rule slots_length)
  ultimately show ?thesis
    using p n assms(5,6,7) slots_slice [OF assms(7), of m elems e]
    by (simp add: HnswLoadNeighborTids_def Let_def del: upt_Suc)
qed

text \<open>C24: the neighbour lists survive the way to disk: where the tuple built by \<open>HnswSetNeighborTuple\<close> for an element is stored,
  \<open>HnswLoadNeighborTids\<close> reads for every layer of the element the positions of exactly the neighbours it has there, in order,
  followed by unused slots.\<close>

theorem neighbor_tuple_roundtrip:
  assumes "arrays_ok elems e" and "HnswSetNeighborTuple elems ntup e m = Inr n" and "(he_level e + 2) * m < 65536"
    and "tup_at r (he_neighborPage e') (he_neighborOffno e') = Inr (NeighborTup n)" and "he_level e' = he_level e" and "he_version e' = he_version e"
    and "lc \<le> he_level e"
  shows "HnswLoadNeighborTids e' r m (HnswGetLayerM m lc) lc = Inr (Some (layer_slots elems e m lc))"
  by (rule neighbor_tids_read [OF assms])

section \<open>Adding an element\<close>

lemma SetNeighborTuple_size:
  assumes "arrays_ok es e" "HnswSetNeighborTuple es nt0 e m = Inr nt"
  shows "tuple_size (NeighborTup nt) = HNSW_NEIGHBOR_TUPLE_SIZE (he_level e) m" "nt_version nt = he_version e"
  using assms(2) SetNeighborTuple_eq [OF assms(1), of nt0 m] slots_length [of es e m "he_level e"]
  by (auto simp: tuple_size_def HNSW_NEIGHBOR_TUPLE_SIZE_def)

lemma aligned_sizes: "MAXALIGN (HNSW_ELEMENT_TUPLE_SIZE n) = HNSW_ELEMENT_TUPLE_SIZE n"
  "MAXALIGN (HNSW_NEIGHBOR_TUPLE_SIZE l m) = HNSW_NEIGHBOR_TUPLE_SIZE l m"
  by (simp_all add: HNSW_ELEMENT_TUPLE_SIZE_def HNSW_NEIGHBOR_TUPLE_SIZE_def MAXALIGN_id)

lemma placed_same: "same_tuples r r1 \<Longrightarrow> placed r1 r3 ep np et nt \<Longrightarrow> placed r r3 ep np et nt"
proof -
  assume "same_tuples r r1" and p: "placed r1 r3 ep np et nt"
  then have e: "\<And>b off t. tup_at r1 b off = Inr t \<longleftrightarrow> tup_at r b off = Inr t" by (simp add: same_tuples_def)
  have "placed r1 r3 ep np et nt = placed r r3 ep np et nt" unfolding placed_def keeps_tuples_def only_new_def by (simp only: e)
  then show "placed r r3 ep np et nt" using p by simp
qed

text \<open>The version the tuples get, and the two tuples as written.\<close>

definition new_version :: "placement \<Rightarrow> nat \<Rightarrow> nat" where
  "new_version pl ver0 = (case pl_free pl of Some (_, _, ver) \<Rightarrow> ver | None \<Rightarrow> ver0)"

lemma add_tuples_placed:
  assumes wf: "rel_wf r" and pl: "placement_ok r pl (tuple_size (ElementTup et0)) (tuple_size (NeighborTup nt0))"
    and d: "et_deleted et0 = 0" and v: "et_version et0 = ver0" "nt_version nt0 = ver0"
  shows "\<exists>r' off noff. add_tuples r pl et0 nt0 = Inr (r', off, noff) \<and> placed r r' (pl_blk pl, off) (pl_nblk pl, noff)
      (et0\<lparr>et_version := new_version pl ver0, et_neighbortid := ItemPointerSet (pl_nblk pl) noff\<rparr>) (nt0\<lparr>nt_version := new_version pl ver0\<rparr>)"
proof -
  obtain page where p: "read_page r (pl_blk pl) = Inr page" using pl by (auto simp: placement_ok_def)
  have sz: "tuple_size (ElementTup (et0\<lparr>et_version := x, et_neighbortid := y\<rparr>)) = tuple_size (ElementTup et0)"
      "tuple_size (NeighborTup (nt0\<lparr>nt_version := x\<rparr>)) = tuple_size (NeighborTup nt0)" for x y by (simp_all add: tuple_size_def)
  show ?thesis
  proof (cases "pl_free pl")
    case None
    let ?off = "Suc (length (ip_items page))"
    let ?noff = "if pl_nblk pl = pl_blk pl then Suc ?off else FirstOffsetNumber"
    let ?et = "et0\<lparr>et_neighbortid := ItemPointerSet (pl_nblk pl) ?noff\<rparr>"
    have e: "et0\<lparr>et_version := ver0, et_neighbortid := ItemPointerSet (pl_nblk pl) ?noff\<rparr> = ?et" "nt0\<lparr>nt_version := ver0\<rparr> = nt0" using v by simp_all
    have "placement_ok r pl (tuple_size (ElementTup ?et)) (tuple_size (NeighborTup nt0))" using pl by (simp add: tuple_size_def)
    from put_appended [OF wf this None _ p refl refl] d obtain r2 r3
      where "append_tuple r (pl_blk pl) ?off (ElementTup ?et) = Inr r2" "append_tuple r2 (pl_nblk pl) ?noff (NeighborTup nt0) = Inr r3"
        "placed r r3 (pl_blk pl, ?off) (pl_nblk pl, ?noff) ?et nt0" by auto
    then show ?thesis using None p e unfolding add_tuples_def new_version_def Let_def by auto
  next
    case (Some x)
    obtain a b c where x: "x = (a, b, c)" by (cases x)
    from put_reused [OF wf _ Some [unfolded x], of "et0\<lparr>et_version := c, et_neighbortid := ItemPointerSet (pl_nblk pl) b\<rparr>" "nt0\<lparr>nt_version := c\<rparr>"]
    show ?thesis using pl sz d Some x p unfolding add_tuples_def new_version_def Let_def by auto
  qed
qed

text \<open>An element that \<open>AddElementOnDisk\<close> can be asked to store: it has a value and arrays, and each of its tuples fits on an empty page.\<close>

definition storable :: "elems \<Rightarrow> HnswElementData \<Rightarrow> nat \<Rightarrow> bool" where
  "storable es e m \<longleftrightarrow> arrays_ok es e \<and> (case he_value e of None \<Rightarrow> False
     | Some v \<Rightarrow> HNSW_ELEMENT_TUPLE_SIZE (nat (vl_len v)) \<le> HNSW_MAX_SIZE) \<and> HNSW_NEIGHBOR_TUPLE_SIZE (he_level e) m \<le> HNSW_MAX_SIZE"

lemma AddElementOnDisk_placed:
  assumes "rel_wf r" and "0 < insertPage" and "insertPage < length (rel_blocks r)"
    and "p < length elems" and "storable elems (elems ! p) m"
  shows "\<exists>r' e' nip et0 et nt0. AddElementOnDisk r elems p m insertPage = Inr (r', elems[p := e'], nip) \<and>
    e' = (elems ! p)\<lparr>he_blkno := he_blkno e', he_neighborPage := he_neighborPage e', he_offno := he_offno e',
      he_neighborOffno := he_neighborOffno e'\<rparr> \<and>
    HnswSetElementTuple zero_etup (elems ! p) = Inr et0 \<and> HnswSetNeighborTuple elems zero_ntup (elems ! p) m = Inr nt0 \<and>
    et = et0\<lparr>et_version := et_version et, et_neighbortid := ItemPointerSet (he_neighborPage e') (he_neighborOffno e')\<rparr> \<and>
    placed r r' (he_blkno e', he_offno e') (he_neighborPage e', he_neighborOffno e') et (nt0\<lparr>nt_version := et_version et\<rparr>)"
proof -
  let ?e = "elems ! p"
  obtain v where v: "he_value ?e = Some v" and ok: "arrays_ok elems ?e"
    and mx: "HNSW_ELEMENT_TUPLE_SIZE (nat (vl_len v)) \<le> HNSW_MAX_SIZE" "HNSW_NEIGHBOR_TUPLE_SIZE (he_level ?e) m \<le> HNSW_MAX_SIZE"
    using assms(5) by (auto simp: storable_def split: option.splits)
  let ?es = "HNSW_ELEMENT_TUPLE_SIZE (nat (vl_len v))" and ?ns = "HNSW_NEIGHBOR_TUPLE_SIZE (he_level ?e) m"
  let ?mc = "?es + HNSW_NEIGHBOR_TUPLE_SIZE 0 m + sizeof_ItemIdData"
  obtain et0 where et0: "HnswSetElementTuple zero_etup ?e = Inr et0" "et_datalen et0 = nat (vl_len v)" "et_deleted et0 = 0" "et_version et0 = he_version ?e"
    using v by (simp add: HnswSetElementTuple_def)
  obtain nt0 where nt0: "HnswSetNeighborTuple elems zero_ntup ?e m = Inr nt0" using SetNeighborTuple_eq [OF ok] by blast
  note ns = SetNeighborTuple_size [OF ok nt0]
  obtain pl r1 where f: "find_place (Suc (length (rel_blocks r))) r insertPage ?es ?ns ?mc InvalidBlockNumber = Inr (pl, r1)"
    and r1: "rel_wf r1" "same_tuples r r1" and pl: "placement_ok r1 pl ?es ?ns"
    using find_place_spec [OF assms(1) aligned_sizes mx assms(2,3), of "Suc (length (rel_blocks r))" ?mc InvalidBlockNumber] assms(2) by auto
  have sz: "tuple_size (ElementTup et0) = ?es" "tuple_size (NeighborTup nt0) = ?ns" using et0(2) ns(1) by (simp_all add: tuple_size_def)
  let ?v = "new_version pl (he_version ?e)"
  obtain r3 off noff where put: "add_tuples r1 pl et0 nt0 = Inr (r3, off, noff)"
    and pd: "placed r1 r3 (pl_blk pl, off) (pl_nblk pl, noff) (et0\<lparr>et_version := ?v, et_neighbortid := ItemPointerSet (pl_nblk pl) noff\<rparr>)
      (nt0\<lparr>nt_version := ?v\<rparr>)"
    using add_tuples_placed [OF r1(1) pl [folded sz] et0(3,4) ns(2)] by blast
  let ?nip = "if pl_newInsertPage pl = InvalidBlockNumber then pl_nblk pl else pl_newInsertPage pl"
  let ?e' = "?e\<lparr>he_blkno := pl_blk pl, he_neighborPage := pl_nblk pl, he_offno := off, he_neighborOffno := noff\<rparr>"
  have "AddElementOnDisk r elems p m insertPage = Inr (r3, elems[p := ?e'],
      if ?nip \<noteq> InvalidBlockNumber \<and> ?nip \<noteq> insertPage then Some ?nip else None)"
    using assms(4) v et0(1) nt0 f put unfolding AddElementOnDisk_def Let_def by (simp only: nth_r_simps rbind_simps option.case prod.case)
  then show ?thesis
    using et0(1) nt0 placed_same [OF r1(2) pd]
    by (intro exI [of _ r3] exI [of _ ?e'] exI [of _ "if ?nip \<noteq> InvalidBlockNumber \<and> ?nip \<noteq> insertPage then Some ?nip else None"]
        exI [of _ et0] exI [of _ "et0\<lparr>et_version := ?v, et_neighbortid := ItemPointerSet (pl_nblk pl) noff\<rparr>"] exI [of _ nt0]) simp
qed

text \<open>C17: adding an element on disk always succeeds on a well-formed relation: the element tuple and the neighbour tuple are stored
  (on the page with room, over a deleted element, or on new pages), the element tuple points at the neighbour tuple, both carry
  the same version, every other tuple stays where it was, and the relation stays well-formed.\<close>

theorem add_element_on_disk:
  assumes "rel_wf r" and "0 < insertPage" and "insertPage < length (rel_blocks r)"
    and "p < length elems" and "storable elems (elems ! p) m"
  shows "\<exists>r' e' nip et0 et nt0. AddElementOnDisk r elems p m insertPage = Inr (r', elems[p := e'], nip) \<and>
    e' = (elems ! p)\<lparr>he_blkno := he_blkno e', he_neighborPage := he_neighborPage e', he_offno := he_offno e',
      he_neighborOffno := he_neighborOffno e'\<rparr> \<and>
    HnswSetElementTuple zero_etup (elems ! p) = Inr et0 \<and> HnswSetNeighborTuple elems zero_ntup (elems ! p) m = Inr nt0 \<and>
    et = et0\<lparr>et_version := et_version et, et_neighbortid := ItemPointerSet (he_neighborPage e') (he_neighborOffno e')\<rparr> \<and>
    placed r r' (he_blkno e', he_offno e') (he_neighborPage e', he_neighborOffno e') et (nt0\<lparr>nt_version := et_version et\<rparr>)"
  by (rule AddElementOnDisk_placed [OF assms])

text \<open>The example index is well-formed and the elements of the example graph can be stored.\<close>

lemma one_vec_len: "vl_len one_vec = 12"
  using one_vec_wf by (simp add: vec_wf_def VECTOR_SIZE_def one_vec_def)

lemma pair_wf: "rel_wf pair_rel"
proof -
  have "read_meta pair_rel = Inr pair_meta" by (simp add: read_meta_def pair_rel_def hnsw_const)
  moreover have "hp_ok pair_page" "next_ok pair_rel b pair_page" for b
    by (simp_all add: hp_ok_def next_ok_def pair_page_def pair_etup_def pair_ntup_def HnswInitPage_def tuple_size_def
        HNSW_ELEMENT_TUPLE_SIZE_def MAXALIGN_def one_vec_len hnsw_const)
  moreover have "et_deleted et = 0" if "tup_at pair_rel b off = Inr (ElementTup et)" for b off et
    using that by (auto simp: tup_at_def page_tuple_def ip_get_def nth_r_def pair_page_def less_Suc_eq numeral_eq_Suc pair_etup_def split: if_splits)
  moreover have "length (rel_blocks pair_rel) = 2" by (simp add: pair_rel_def)
  ultimately show ?thesis by (auto simp: rel_wf_def deleted_ok_def less_Suc_eq numeral_eq_Suc)
qed

lemma pair_storable: "storable pair_graph (pair_graph ! 0) 2"
  by (simp add: storable_def arrays_ok_def pair_graph_def pair_elem_def raw_element_def one_vec_len HNSW_ELEMENT_TUPLE_SIZE_def
      HNSW_NEIGHBOR_TUPLE_SIZE_def MAXALIGN_def hnsw_const)

theorem add_element_on_disk_witness:
  "\<exists>r' e' nip et nt. AddElementOnDisk pair_rel pair_graph 0 2 1 = Inr (r', pair_graph[0 := e'], nip) \<and>
     tup_at r' (he_blkno e') (he_offno e') = Inr (ElementTup et) \<and> tup_at r' (he_neighborPage e') (he_neighborOffno e') = Inr (NeighborTup nt)"
proof -
  have "1 < length (rel_blocks pair_rel)" "0 < length pair_graph" by (simp_all add: pair_rel_def pair_graph_def)
  then show ?thesis using add_element_on_disk [OF pair_wf _ _ _ pair_storable, of 1] by (fastforce simp: placed_def)
qed

theorem neighbor_tuple_roundtrip_witness:
  "HnswLoadNeighborTids (pair_elem 1\<lparr>he_neighborPage := 1, he_neighborOffno := 1\<rparr>)
     (pair_rel\<lparr>rel_blocks := [MetaBlock pair_meta HNSW_PAGE_ID, GraphBlock (pair_page\<lparr>ip_items :=
        [NeighborTup (projr (HnswSetNeighborTuple pair_graph zero_ntup (pair_elem 1) 2))]\<rparr>)]\<rparr>) 2 (HnswGetLayerM 2 0) 0
   = Inr (Some (layer_slots pair_graph (pair_elem 1) 2 0))"
proof (rule neighbor_tuple_roundtrip)
  show ok: "arrays_ok pair_graph (pair_elem 1)" using pair_storable by (simp add: storable_def pair_graph_def)
  then show "HnswSetNeighborTuple pair_graph zero_ntup (pair_elem 1) 2 = Inr (projr (HnswSetNeighborTuple pair_graph zero_ntup (pair_elem 1) 2))"
    using SetNeighborTuple_eq [OF ok, of zero_ntup 2] by simp
qed (simp_all add: pair_elem_def raw_element_def tup_at_def read_page_def page_tuple_def ip_get_def)

section \<open>Well-formedness is kept\<close>

lemma append_tuple_wf:
  assumes "rel_wf r" "append_tuple r b off t = Inr r'" "off \<noteq> 0" "case t of ElementTup et \<Rightarrow> et_deleted et = 0 | NeighborTup n \<Rightarrow> True"
  shows "rel_wf r'"
proof -
  obtain p where p: "read_page r b = Inr p" using assms(2) by (auto simp: append_tuple_def rbind_InrE)
  then have a: "fst (ip_add tuple_size p t) = off"
    using assms(2) by (cases "ip_add tuple_size p t") (simp add: append_tuple_def split: if_splits)
  have "tuple_size t \<le> ip_free_space p" and "off = Suc (length (ip_items p))"
    using a assms(3) by (auto simp: ip_add_def ip_free_space_def InvalidOffsetNumber_def split: if_splits)
  then show ?thesis using append_tuple_spec [OF assms(1) p _ assms(4)] assms(2) by fastforce
qed

lemma overwrite_tuple_wf:
  assumes "rel_wf r" "overwrite_tuple r b off t = Inr r'" "\<And>old. tup_at r b off = Inr old \<Longrightarrow> replace_ok r old t"
  shows "rel_wf r'"
proof -
  obtain p p' where p: "read_page r b = Inr p" and o: "ip_overwrite tuple_size p off t = Inr (True, p')"
    using assms(2) by (auto simp: overwrite_tuple_def rbind_InrE split: if_splits)
  have off: "off \<noteq> 0" "off - 1 < length (ip_items p)"
    and fits: "tuple_size t \<le> tuple_size (ip_items p ! (off - 1)) + ip_exact_free_space p"
    using o by (auto simp: ip_overwrite_def Let_def ip_exact_free_space_def split: if_splits)
  have old: "page_tuple p off = Inr (ip_items p ! (off - 1))" using off by (simp add: page_tuple_def ip_get_def)
  then have "replace_ok r (ip_items p ! (off - 1)) t" using assms(3) p by (simp add: tup_at_def)
  then show ?thesis using overwrite_replace [OF assms(1) p old fits] assms(2) by fastforce
qed

lemma free_offset_element:
  "free_offset_loop r blk page es ns (Suc k) ts nip = Inr (Some (off, nb, noff, ver), nip') \<Longrightarrow> ts = drop k (ip_items page) \<Longrightarrow>
   \<exists>et. page_tuple page off = Inr (ElementTup et)"
proof (induction ts arbitrary: k nip)
  case (Cons t ts)
  have rest: "ts = drop (Suc k) (ip_items page)" using Cons.prems(2) by (metis drop_Suc list.sel(3) tl_drop)
  have k: "k < length (ip_items page)" "ip_items page ! k = t"
    using Cons.prems(2) by (metis drop_all list.distinct(1) not_le, metis hd_drop_conv_nth list.sel(1) drop_all list.distinct(1) not_le)
  then have at: "page_tuple page (Suc k) = Inr t" by (simp add: page_tuple_def ip_get_def)
  show ?case
    using Cons.prems(1) Cons.IH [OF _ rest] at
    by (cases t) (auto simp: Let_def rbind_InrE split: if_splits)
qed simp

definition place_ok :: "Relation \<Rightarrow> placement \<Rightarrow> bool" where
  "place_ok r pl \<longleftrightarrow> rel_wf r \<and> (\<forall>off noff ver. pl_free pl = Some (off, noff, ver) \<longrightarrow> (\<exists>et. tup_at r (pl_blk pl) off = Inr (ElementTup et)))"

lemma find_place_wf:
  assumes wf: "rel_wf r"
  shows "find_place fuel r b es ns mc nip = Inr (pl, r') \<Longrightarrow> place_ok r' pl"
proof (induction fuel arbitrary: b nip)
  case (Suc fuel)
  obtain page where p: "read_page r b = Inr page" using Suc.prems by (auto simp: rbind_InrE)
  let ?nip = "if nip = InvalidBlockNumber \<and> mc \<le> ip_free_space page then b else nip"
  note fp = Suc.prems [simplified, unfolded p, simplified, unfolded Let_def]
  show ?case
  proof (cases "es + ns + sizeof_ItemIdData \<le> ip_free_space page")
    case True
    then show ?thesis using fp wf by (auto simp: place_ok_def)
  next
    case c: False
    obtain found nip' where f: "HnswFreeOffset r b page es ns ?nip = Inr (found, nip')" using fp c by (auto simp: rbind_InrE)
    note fp2 = fp [unfolded f, simplified if_not_P [OF c], simplified]
    show ?thesis
    proof (cases found)
      case (Some x)
      obtain off nb noff ver where x: "x = (off, nb, noff, ver)" by (cases x)
      have "\<exists>et. page_tuple page off = Inr (ElementTup et)"
        using free_offset_element [of r b page es ns 0 "ip_items page"] f Some x by (simp add: HnswFreeOffset_def FirstOffsetNumber_def)
      then show ?thesis using fp2 Some x wf p by (auto simp: place_ok_def tup_at_def)
    next
      case None
      show ?thesis
      proof (cases "hp_nextblkno page = InvalidBlockNumber")
        case False
        then show ?thesis using fp2 None Suc.IH by simp
      next
        case nx: True
        obtain r1 where r1: "HnswInsertAppendPage r b = Inr (length (rel_blocks r), r1)" "rel_wf r1"
            "read_page r1 (length (rel_blocks r)) = Inr HnswInitPage" using append_page_spec [OF wf p nx] by blast
        obtain n r2 where r2: "HnswInsertAppendPage r1 (length (rel_blocks r)) = Inr (n, r2)" "rel_wf r2"
          using append_page_spec [OF r1(2,3) init_page_ok(2)] by blast
        have "rel_wf r' \<and> pl_free pl = None" using fp2 None nx r1 r2 by (auto split: if_splits)
        then show ?thesis by (simp add: place_ok_def)
      qed
    qed
  qed
qed simp

lemma add_tuples_wf:
  assumes "place_ok r pl" "et_deleted et0 = 0" "add_tuples r pl et0 nt0 = Inr (r', off, noff)"
  shows "rel_wf r'"
proof -
  have wf: "rel_wf r" using assms(1) by (simp add: place_ok_def)
  obtain page where p: "read_page r (pl_blk pl) = Inr page" using assms(3) by (auto simp: add_tuples_def rbind_InrE)
  show ?thesis
  proof (cases "pl_free pl")
    case None
    obtain et r2 where "append_tuple r (pl_blk pl) off (ElementTup et) = Inr r2" "append_tuple r2 (pl_nblk pl) noff (NeighborTup nt0) = Inr r'"
        "et_deleted et = 0" "off \<noteq> 0" "noff \<noteq> 0"
      using assms(2,3) p None by (auto simp: add_tuples_def Let_def rbind_InrE FirstOffsetNumber_def)
    then show ?thesis using append_tuple_wf [OF append_tuple_wf [OF wf]] by simp
  next
    case (Some x)
    obtain a b c where x: "x = (a, b, c)" by (cases x)
    obtain et nt r2 where o: "overwrite_tuple r (pl_blk pl) a (ElementTup et) = Inr r2" "overwrite_tuple r2 (pl_nblk pl) b (NeighborTup nt) = Inr r'"
        "et_deleted et = 0"
      using assms(2,3) p Some x by (auto simp: add_tuples_def Let_def rbind_InrE)
    have "rel_wf r2" by (rule overwrite_tuple_wf [OF wf o(1)]) (use assms(1) Some x o(3) in \<open>auto simp: place_ok_def replace_ok_def\<close>)
    then show ?thesis by (rule overwrite_tuple_wf [OF _ o(2)]) (simp add: replace_ok_def)
  qed
qed

lemma AddElementOnDisk_cases:
  assumes "AddElementOnDisk r es p m ip = Inr (r', es', nip)"
  obtains e etup ntup fuel a b c pl r1 off noff where "HnswSetElementTuple zero_etup e = Inr etup"
    "find_place fuel r ip a b c InvalidBlockNumber = Inr (pl, r1)" "add_tuples r1 pl etup ntup = Inr (r', off, noff)"
proof -
  obtain e v where e: "nth_r es p = Inr e" "he_value e = Some v"
    using assms by (auto simp: AddElementOnDisk_def rbind_InrE split: option.splits)
  obtain etup ntup where t: "HnswSetElementTuple zero_etup e = Inr etup" "HnswSetNeighborTuple es zero_ntup e m = Inr ntup"
    using assms by (auto simp: AddElementOnDisk_def rbind_InrE Let_def e)
  obtain fuel a b c pl r1 where "find_place fuel r ip a b c InvalidBlockNumber = Inr (pl, r1)"
      and "\<exists>off noff. add_tuples r1 pl etup ntup = Inr (r', off, noff)"
    using assms by (auto simp: AddElementOnDisk_def rbind_InrE Let_def e t simp del: find_place.simps)
  then show thesis using that t(1) by blast
qed

lemma AddElementOnDisk_wf:
  assumes "rel_wf r" "AddElementOnDisk r es p m ip = Inr (r', es', nip)"
  shows "rel_wf r'"
  using assms(2)
proof (rule AddElementOnDisk_cases)
  fix e etup ntup fuel a b c pl r1 off noff
  assume e: "HnswSetElementTuple zero_etup e = Inr etup" and f: "find_place fuel r ip a b c InvalidBlockNumber = Inr (pl, r1)"
    and t: "add_tuples r1 pl etup ntup = Inr (r', off, noff)"
  have "et_deleted etup = 0" using e by (auto simp: HnswSetElementTuple_def split: option.splits)
  then show ?thesis using add_tuples_wf [OF find_place_wf [OF assms(1) f] _ t] by blast
qed

subsection \<open>Changing a tuple in place\<close>

definition set_tuple :: "Relation \<Rightarrow> nat \<Rightarrow> hpage \<Rightarrow> nat \<Rightarrow> HnswTuple \<Rightarrow> Relation" where
  "set_tuple r b p off t = write_page r b (p\<lparr>ip_items := (ip_items p)[off - 1 := t]\<rparr>)"

lemma set_tuple_spec:
  assumes wf: "rel_wf r" and p: "read_page r b = Inr p" and old: "page_tuple p off = Inr old"
    and sz: "tuple_size t = tuple_size old" and k: "replace_ok r old t"
  shows "rel_wf (set_tuple r b p off t)" and "tup_at (set_tuple r b p off t) c o' = (if c = b \<and> o' = off then Inr t else tup_at r c o')"
proof -
  let ?p = "p\<lparr>ip_items := (ip_items p)[off - 1 := t]\<rparr>"
  have e: "p\<lparr>ip_upper := ip_upper p + tuple_size old - tuple_size t, ip_items := (ip_items p)[off - 1 := t]\<rparr> = ?p"
    using sz by (cases p) simp
  note w = rel_wf_page [OF wf p] and l = read_page_bounds [OF p]
  have ok: "hp_ok ?p" using hp_ok_overwrite(2) [OF w(2) old, of t, unfolded e] sz by simp
  have pt: "page_tuple ?p o' = (if o' = off then Inr t else page_tuple p o')" for o'
    using page_tuple_update [OF old, where u = "ip_upper p + tuple_size old - tuple_size t" and t = t and o' = o', unfolded e] .
  have tup: "tup_at (write_page r b ?p) c o' = (if c = b \<and> o' = off then Inr t else tup_at r c o')" for c o'
    using p unfolding tup_at_def read_write_page [OF l] by (auto simp only: pt rbind_simps split: if_splits)
  then show "tup_at (set_tuple r b p off t) c o' = (if c = b \<and> o' = off then Inr t else tup_at r c o')" by (simp only: set_tuple_def)
  have "deleted_ok r" using wf by (simp add: rel_wf_def)
  moreover have "tup_at r b off = Inr old" using p old by (simp add: tup_at_def)
  ultimately have "deleted_ok (write_page r b ?p)" using deleted_ok_replace [OF _ tup _ k] by blast
  moreover have "next_ok r b ?p" using w(3) by (simp add: next_ok_def)
  ultimately show "rel_wf (set_tuple r b p off t)" unfolding set_tuple_def by (intro rel_wf_write [OF wf p ok]) simp_all
qed

lemma neighbor_tuple_at: "neighbor_tuple p off = Inr n \<longleftrightarrow> page_tuple p off = Inr (NeighborTup n)"
  by (cases "page_tuple p off") (auto simp: neighbor_tuple_def split: HnswTuple.splits)

lemma element_tuple_at: "element_tuple p off = Inr e \<longleftrightarrow> page_tuple p off = Inr (ElementTup e)"
  by (cases "page_tuple p off") (auto simp: element_tuple_def split: HnswTuple.splits)

subsection \<open>A neighbour's list\<close>

lemma find_free_slot_spec:
  "idx + n \<le> length tids \<Longrightarrow>
   (find_free_slot tids idx n = Inr (-2) \<and> (\<forall>j<n. ItemPointerIsValid (tids ! (idx + j)))) \<or>
   (\<exists>j<n. find_free_slot tids idx n = Inr (int (idx + j)) \<and> \<not> ItemPointerIsValid (tids ! (idx + j)) \<and>
      (\<forall>i<j. ItemPointerIsValid (tids ! (idx + i))))"
proof (induction n arbitrary: idx)
  case (Suc n)
  show ?case
  proof (cases "ItemPointerIsValid (tids ! idx)")
    case False
    then show ?thesis using Suc.prems by (intro disjI2 exI [of _ 0]) simp
  next
    case True
    have e: "find_free_slot tids idx (Suc n) = find_free_slot tids (Suc idx) n" using True Suc.prems by simp
    consider (none) "find_free_slot tids (Suc idx) n = Inr (-2)" "\<forall>j<n. ItemPointerIsValid (tids ! (Suc idx + j))"
      | (some) j where "j < n" "find_free_slot tids (Suc idx) n = Inr (int (Suc idx + j))" "\<not> ItemPointerIsValid (tids ! (Suc idx + j))"
        "\<forall>i<j. ItemPointerIsValid (tids ! (Suc idx + i))"
      using Suc.IH [of "Suc idx"] Suc.prems by auto
    then show ?thesis
    proof cases
      case none
      then show ?thesis unfolding e using True by (intro disjI1) (auto simp: less_Suc_eq_0_disj)
    next
      case some
      then show ?thesis unfolding e using True by (intro disjI2 exI [of _ "Suc j"]) (auto simp: less_Suc_eq_0_disj)
    qed
  qed
qed simp

lemma ConnectionExists_spec:
  "idx + n \<le> length tids \<Longrightarrow> \<exists>b. ConnectionExists e tids idx n = Inr b \<and> (b \<longrightarrow> (\<exists>j<n. tids ! (idx + j) = elem_tid e))"
proof (induction n arbitrary: idx)
  case (Suc n)
  have eq: "tids ! idx = elem_tid e" if "ip_blkid (tids ! idx) = he_blkno e" "ip_posid (tids ! idx) = he_offno e"
    using that ItemPointer_collapse [of "tids ! idx"] by (simp add: elem_tid_def)
  obtain b where b: "ConnectionExists e tids (Suc idx) n = Inr b" "b \<longrightarrow> (\<exists>j<n. tids ! (Suc idx + j) = elem_tid e)"
    using Suc.IH [of "Suc idx"] Suc.prems by auto
  have "\<exists>j<Suc n. tids ! (idx + j) = elem_tid e" if B: "b"
  proof -
    obtain j where "j < n" "tids ! (Suc idx + j) = elem_tid e" using b(2) B by blast
    then show ?thesis by (intro exI [of _ "Suc j"]) simp
  qed
  moreover have "\<exists>j<Suc n. tids ! (idx + j) = elem_tid e" if "tids ! idx = elem_tid e" using that by (intro exI [of _ 0]) simp
  moreover have "ConnectionExists e tids idx (Suc n) =
      (if \<not> ItemPointerIsValid (tids ! idx) then Inr False
       else if ip_blkid (tids ! idx) = he_blkno e \<and> ip_posid (tids ! idx) = he_offno e then Inr True else Inr b)"
    using b(1) Suc.prems by simp
  ultimately show ?case using eq by metis
qed (auto intro: exI [of _ False])

lemma UpdateNeighborOnDisk_eq:
  assumes "read_page r (he_neighborPage e) = Inr p" "neighbor_tuple p (he_neighborOffno e) = Inr n" "lc \<le> he_level e"
    and "(if chk then ConnectionExists new (nt_indextids n) ((he_level e - lc) * m) lm else Inr False) = Inr ex"
    and "(if ex then Inr (-1) else if idx = -2 then find_free_slot (nt_indextids n) ((he_level e - lc) * m) lm
          else Inr (idx + int ((he_level e - lc) * m))) = Inr idx'"
  shows "UpdateNeighborOnDisk e new idx m lm lc r chk =
    (if idx' \<ge> 0 \<and> idx' < int (nt_count n) then
       if nat idx' < length (nt_indextids n) then Inr (set_tuple r (he_neighborPage e) p (he_neighborOffno e)
         (NeighborTup (n\<lparr>nt_indextids := (nt_indextids n)[nat idx' := elem_tid new]\<rparr>)))
       else Inl UndefinedBehaviour
     else Inr r)"
  using assms by (simp add: UpdateNeighborOnDisk_def Let_def set_tuple_def elem_tid_def)

lemma UpdateNeighborOnDisk_spec:
  assumes "rel_wf r" and "tup_at r (he_neighborPage e) (he_neighborOffno e) = Inr (NeighborTup n)" and "lc \<le> he_level e"
    and "nt_count n = (he_level e + 2) * m" and "length (nt_indextids n) = (he_level e + 2) * m" and "lm = HnswGetLayerM m lc"
    and "start = (he_level e - lc) * m" and "idx = -2 \<or> (0 \<le> idx \<and> idx < int lm)"
  shows "\<exists>r'. UpdateNeighborOnDisk e new idx m lm lc r chk = Inr r' \<and> rel_wf r' \<and>
    (r' = r \<and> ((chk \<and> elem_tid new \<in> set (nt_indextids n)) \<or> (idx = -2 \<and> (\<forall>j<lm. ItemPointerIsValid (nt_indextids n ! (start + j))))) \<or>
     (\<exists>j<lm. (\<forall>b off. tup_at r' b off = (if b = he_neighborPage e \<and> off = he_neighborOffno e
          then Inr (NeighborTup (n\<lparr>nt_indextids := (nt_indextids n)[start + j := elem_tid new]\<rparr>)) else tup_at r b off)) \<and>
        (if idx = -2 then \<not> ItemPointerIsValid (nt_indextids n ! (start + j)) \<and> (\<forall>i<j. ItemPointerIsValid (nt_indextids n ! (start + i)))
         else int j = idx)))"
proof -
  obtain p where p: "read_page r (he_neighborPage e) = Inr p" "page_tuple p (he_neighborOffno e) = Inr (NeighborTup n)"
    using assms(2) by (auto simp: tup_at_def rbind_InrE)
  note n = neighbor_tuple_at [THEN iffD2, OF p(2)]
  have len: "start + lm \<le> (he_level e + 2) * m" using layer_bound [OF assms(3), of m] assms(6,7) by simp
  let ?t = "\<lambda>j. NeighborTup (n\<lparr>nt_indextids := (nt_indextids n)[start + j := elem_tid new]\<rparr>)"
  have wr: "rel_wf (set_tuple r (he_neighborPage e) p (he_neighborOffno e) (?t j))" "tup_at (set_tuple r (he_neighborPage e) p (he_neighborOffno e) (?t j)) b off =
      (if b = he_neighborPage e \<and> off = he_neighborOffno e then Inr (?t j) else tup_at r b off)" for j b off
    by (rule set_tuple_spec [OF assms(1) p]; simp add: tuple_size_def replace_ok_def)+
  obtain ex where ex: "(if chk then ConnectionExists new (nt_indextids n) start lm else Inr False) = Inr ex"
    "ex \<longrightarrow> chk \<and> (\<exists>j<lm. nt_indextids n ! (start + j) = elem_tid new)"
    using ConnectionExists_spec [of start lm "nt_indextids n" new] len assms(5) by (cases chk) auto
  note U = UpdateNeighborOnDisk_eq [OF p(1) n assms(3), where chk = chk and new = new and m = m and lm = lm and idx = idx, folded assms(7), OF ex(1)]
  have wrt: "?thesis" if w: "UpdateNeighborOnDisk e new idx m lm lc r chk = Inr (set_tuple r (he_neighborPage e) p (he_neighborOffno e) (?t j))" "j < lm"
      "if idx = -2 then \<not> ItemPointerIsValid (nt_indextids n ! (start + j)) \<and> (\<forall>i<j. ItemPointerIsValid (nt_indextids n ! (start + i)))
         else int j = idx" for j
    using w wr [of j] by blast
  show ?thesis
  proof (cases ex)
    case True
    have "elem_tid new \<in> set (nt_indextids n)" using ex(2) True len assms(5) by (metis add_less_cancel_left le_trans not_le nth_mem)
    then show ?thesis using U [of "-1"] True ex(2) assms(1) by simp
  next
    case f: False
    show ?thesis
    proof (cases "idx = -2")
      case True
      from find_free_slot_spec [of start lm "nt_indextids n"] len assms(5) consider
          (none) "find_free_slot (nt_indextids n) start lm = Inr (-2)" "\<forall>j<lm. ItemPointerIsValid (nt_indextids n ! (start + j))"
        | (some) j where "j < lm" "find_free_slot (nt_indextids n) start lm = Inr (int (start + j))"
            "\<not> ItemPointerIsValid (nt_indextids n ! (start + j))" "\<forall>i<j. ItemPointerIsValid (nt_indextids n ! (start + i))" by auto
      then show ?thesis
      proof cases
        case none
        then show ?thesis using U [of "-2"] True f assms(1) by simp
      next
        case some
        have "nat (int (start + j)) = start + j" by (rule nat_int)
        then show ?thesis using U [of "int (start + j)"] True f some len assms(4,5) by (intro wrt [of j]) (simp_all del: of_nat_add)
      qed
    next
      case False
      then obtain j where j: "idx = int j" "j < lm" using assms(8) by (metis nat_0_le of_nat_less_iff)
      have e: "idx + int start = int (start + j)" using j(1) by simp
      have "nat (int (start + j)) = start + j" by (rule nat_int)
      then have "UpdateNeighborOnDisk e new idx m lm lc r chk = Inr (set_tuple r (he_neighborPage e) p (he_neighborOffno e) (?t j))"
        using U [of "int (start + j)"] False f j(2) len assms(4,5) e by (simp del: of_nat_add)
      then show ?thesis using False j by (intro wrt [of j]) simp_all
    qed
  qed
qed

section \<open>Duplicates\<close>

text \<open>The heap TIDs of a tuple fill its array from the front.\<close>

definition packed :: "HnswElementTupleData \<Rightarrow> bool" where
  "packed et \<longleftrightarrow> length (et_heaptids et) = HNSW_HEAPTIDS \<and> (\<forall>t\<in>set (drop (length (tup_tids et)) (et_heaptids et)). \<not> ItemPointerIsValid t)"

lemma tup_tids_take: "length (et_heaptids et) = HNSW_HEAPTIDS \<Longrightarrow> tup_tids et = take (length (tup_tids et)) (et_heaptids et)"
proof -
  assume "length (et_heaptids et) = HNSW_HEAPTIDS"
  then have "take HNSW_HEAPTIDS (et_heaptids et) = et_heaptids et" by simp
  then show ?thesis unfolding tup_tids_def by (metis takeWhile_eq_take)
qed

lemma packed_append:
  assumes "packed et" "length (tup_tids et) < HNSW_HEAPTIDS" "ItemPointerIsValid t"
  shows "tup_tids (et\<lparr>et_heaptids := (et_heaptids et)[length (tup_tids et) := t]\<rparr>) = tup_tids et @ [t]"
    "packed (et\<lparr>et_heaptids := (et_heaptids et)[length (tup_tids et) := t]\<rparr>)"
proof -
  let ?k = "length (tup_tids et)" and ?h = "et_heaptids et"
  have l: "length ?h = HNSW_HEAPTIDS" using assms(1) by (simp add: packed_def)
  have k: "?k < length ?h" using assms(2) l by simp
  have split: "?h[?k := t] = tup_tids et @ [t] @ drop (Suc ?k) ?h"
    using upd_conv_take_nth_drop [OF k, of t] tup_tids_take [OF l] by simp
  have inv: "\<forall>x\<in>set (drop (Suc ?k) ?h). \<not> ItemPointerIsValid x"
    using assms(1) k by (auto simp: packed_def Cons_nth_drop_Suc [symmetric])
  have v: "\<forall>x\<in>set (tup_tids et). ItemPointerIsValid x" unfolding tup_tids_def using set_takeWhileD by fastforce
  have "takeWhile ItemPointerIsValid (drop (Suc ?k) ?h) = []" using inv by (cases "drop (Suc ?k) ?h") auto
  then have tw: "takeWhile ItemPointerIsValid (?h[?k := t]) = tup_tids et @ [t]"
    using v assms(3) by (simp add: split takeWhile_append2)
  then show t: "tup_tids (et\<lparr>et_heaptids := ?h[?k := t]\<rparr>) = tup_tids et @ [t]" by (simp add: tup_tids_def [of "et\<lparr>et_heaptids := _\<rparr>"] l)
  show "packed (et\<lparr>et_heaptids := ?h[?k := t]\<rparr>)" unfolding packed_def t using l inv assms(2) by (simp add: split)
qed

lemma AddDuplicateOnDisk_spec:
  assumes "rel_wf r" and "tup_at r (he_blkno dup) (he_offno dup) = Inr (ElementTup et)" and "packed et"
    and "he_heaptids element = [t]" and "ItemPointerIsValid t"
  shows "if tup_tids et = [] \<or> length (tup_tids et) = HNSW_HEAPTIDS then AddDuplicateOnDisk r element dup = Inr (False, r)
    else \<exists>r' et'. AddDuplicateOnDisk r element dup = Inr (True, r') \<and> rel_wf r' \<and> tup_tids et' = tup_tids et @ [t] \<and> packed et' \<and>
      (\<forall>b off. tup_at r' b off = (if b = he_blkno dup \<and> off = he_offno dup then Inr (ElementTup et') else tup_at r b off))"
proof -
  obtain p where p: "read_page r (he_blkno dup) = Inr p" "page_tuple p (he_offno dup) = Inr (ElementTup et)"
    using assms(2) by (auto simp: tup_at_def rbind_InrE)
  let ?et = "et\<lparr>et_heaptids := (et_heaptids et)[length (tup_tids et) := t]\<rparr>"
  have eq: "AddDuplicateOnDisk r element dup =
      (if length (tup_tids et) = 0 \<or> length (tup_tids et) = HNSW_HEAPTIDS then Inr (False, r)
       else Inr (True, set_tuple r (he_blkno dup) p (he_offno dup) (ElementTup ?et)))"
    using p(1) element_tuple_at [THEN iffD2, OF p(2)] assms(4) by (simp add: AddDuplicateOnDisk_def Let_def tup_tids_def set_tuple_def)
  show ?thesis
  proof (cases "tup_tids et = [] \<or> length (tup_tids et) = HNSW_HEAPTIDS")
    case False
    have "length (tup_tids et) \<le> HNSW_HEAPTIDS" unfolding tup_tids_def by (rule le_trans [OF length_takeWhile_le]) simp
    then have lt: "length (tup_tids et) < HNSW_HEAPTIDS" using False by simp
    have "replace_ok r (ElementTup et) (ElementTup ?et)"
    proof (cases "et_deleted et = 0")
      case no: False
      have "deleted_ok r" using assms(1) by (simp add: rel_wf_def)
      then show ?thesis using assms(2) no unfolding deleted_ok_def replace_ok_def by simp
    qed (simp add: replace_ok_def)
    then have "rel_wf (set_tuple r (he_blkno dup) p (he_offno dup) (ElementTup ?et))"
      "\<forall>b off. tup_at (set_tuple r (he_blkno dup) p (he_offno dup) (ElementTup ?et)) b off =
         (if b = he_blkno dup \<and> off = he_offno dup then Inr (ElementTup ?et) else tup_at r b off)"
      using set_tuple_spec [OF assms(1) p, of "ElementTup ?et"] by (simp_all add: tuple_size_def)
    then show ?thesis using False eq packed_append [OF assms(3) lt assms(5)] by auto
  qed (use eq in auto)
qed

section \<open>Inserting keeps the relation well-formed\<close>

lemma read_meta_head: "read_meta r = Inr mp \<Longrightarrow> \<exists>pid bs. rel_blocks r = MetaBlock mp pid # bs"
  by (cases "rel_blocks r") (auto simp: read_meta_def hnsw_const split: block.splits if_splits)

lemma write_meta_spec:
  assumes "read_meta r = Inr mp"
  shows "read_meta (write_meta r mp') = Inr mp'" "read_page (write_meta r mp') b = read_page r b" "tup_at (write_meta r mp') b off = tup_at r b off"
    "length (rel_blocks (write_meta r mp')) = length (rel_blocks r)"
proof -
  obtain pid bs where r: "rel_blocks r = MetaBlock mp pid # bs" using read_meta_head [OF assms] by blast
  show "read_meta (write_meta r mp') = Inr mp'" "length (rel_blocks (write_meta r mp')) = length (rel_blocks r)"
    by (simp_all add: write_meta_def read_meta_def r hnsw_const)
  show rd: "read_page (write_meta r mp') b = read_page r b" for b
    by (cases b) (simp_all add: write_meta_def read_page_def r)
  then show "tup_at (write_meta r mp') b off = tup_at r b off" by (simp add: tup_at_def)
qed

lemma write_meta_wf: "rel_wf r \<Longrightarrow> read_meta r = Inr mp \<Longrightarrow> rel_wf (write_meta r mp')"
  using write_meta_spec [of r mp mp'] by (simp add: rel_wf_def deleted_ok_def next_ok_def)

lemma HnswUpdateMetaPage_wf: "HnswUpdateMetaPage r u ep ip = Inr r' \<Longrightarrow> rel_wf r \<Longrightarrow> rel_wf r'"
  by (auto simp: HnswUpdateMetaPage_def rbind_InrE intro: write_meta_wf)

lemma UpdateNeighborOnDisk_wf:
  assumes "UpdateNeighborOnDisk e new idx m lm lc r chk = Inr r'" "rel_wf r"
  shows "rel_wf r'"
proof -
  obtain p n where p: "read_page r (he_neighborPage e) = Inr p" and n: "neighbor_tuple p (he_neighborOffno e) = Inr n"
    using assms(1) by (auto simp: UpdateNeighborOnDisk_def rbind_InrE)
  have lc: "lc \<le> he_level e" by (rule ccontr) (use assms(1) p n in \<open>simp add: UpdateNeighborOnDisk_def\<close>)
  let ?start = "(he_level e - lc) * m"
  let ?ex = "if chk then ConnectionExists new (nt_indextids n) ?start lm else Inr False"
  obtain ex where ex: "?ex = Inr ex"
    by (cases ?ex) (use assms(1) p n lc in \<open>simp_all add: UpdateNeighborOnDisk_def Let_def\<close>)
  let ?i = "if ex then Inr (-1) else if idx = -2 then find_free_slot (nt_indextids n) ?start lm else Inr (idx + int ?start)"
  obtain idx' where i: "?i = Inr idx'"
    by (cases ?i) (use assms(1) p n lc ex in \<open>simp_all add: UpdateNeighborOnDisk_def Let_def\<close>)
  have "replace_ok r (NeighborTup n) t \<Longrightarrow> tuple_size t = tuple_size (NeighborTup n) \<Longrightarrow> rel_wf (set_tuple r (he_neighborPage e) p (he_neighborOffno e) t)" for t
    using set_tuple_spec(1) [OF assms(2) p] n [unfolded neighbor_tuple_at] by blast
  then have "rel_wf (set_tuple r (he_neighborPage e) p (he_neighborOffno e) (NeighborTup (n\<lparr>nt_indextids := (nt_indextids n)[k := t]\<rparr>)))" for k t
    by (simp add: replace_ok_def tuple_size_def)
  then show ?thesis
    using assms UpdateNeighborOnDisk_eq [OF p n lc ex i] by (auto split: if_splits)
qed

lemma update_neighbors_loop_wf:
  "update_neighbors_loop es support p m chk work r = Inr (r', es') \<Longrightarrow> rel_wf r \<Longrightarrow> rel_wf r'"
proof (induction work arbitrary: es r)
  case (Cons w work)
  obtain lc hc where w: "w = (lc, hc)" by (cases w)
  obtain idx es1 where g: "GetUpdateIndex es (hc_element hc) p (hc_distance hc) m (HnswGetLayerM m lc) lc r support = Inr (idx, es1)"
    using Cons.prems(1) w by (auto simp: rbind_InrE)
  show ?case
  proof (cases "idx = -1")
    case True
    then show ?thesis using Cons.prems Cons.IH g w by simp
  next
    case False
    then obtain ne e r1 where "UpdateNeighborOnDisk ne e idx m (HnswGetLayerM m lc) lc r chk = Inr r1"
        "update_neighbors_loop es1 support p m chk work r1 = Inr (r', es')"
      using Cons.prems(1) g w by (auto simp: rbind_InrE)
    then show ?thesis using UpdateNeighborOnDisk_wf Cons.prems(2) Cons.IH by blast
  qed
qed simp

lemma AddDuplicateOnDisk_wf:
  assumes "AddDuplicateOnDisk r element dup = Inr (ok, r')" "rel_wf r"
  shows "rel_wf r'"
proof -
  obtain p et where p: "read_page r (he_blkno dup) = Inr p" "element_tuple p (he_offno dup) = Inr et"
    using assms(1) by (auto simp: AddDuplicateOnDisk_def rbind_InrE)
  have at: "page_tuple p (he_offno dup) = Inr (ElementTup et)" using p(2) by (simp add: element_tuple_at)
  have "replace_ok r (ElementTup et) (ElementTup (et\<lparr>et_heaptids := h\<rparr>))" for h
  proof (cases "et_deleted et = 0")
    case no: False
    have "tup_at r (he_blkno dup) (he_offno dup) = Inr (ElementTup et)" using p(1) at by (simp add: tup_at_def)
    moreover have "deleted_ok r" using assms(2) by (simp add: rel_wf_def)
    ultimately show ?thesis using no unfolding deleted_ok_def replace_ok_def by simp
  qed (simp add: replace_ok_def)
  then have "rel_wf (set_tuple r (he_blkno dup) p (he_offno dup) (ElementTup (et\<lparr>et_heaptids := h\<rparr>)))" for h
    using set_tuple_spec(1) [OF assms(2) p(1) at] by (simp add: tuple_size_def)
  then show ?thesis
    using assms p by (auto simp: AddDuplicateOnDisk_def Let_def rbind_InrE set_tuple_def split: if_splits)
qed

lemma find_duplicate_loop_wf: "find_duplicate_loop es r element ns = Inr (dup, r') \<Longrightarrow> rel_wf r \<Longrightarrow> rel_wf r'"
proof (induction ns)
  case (Cons n ns)
  obtain ne where ne: "nth_r es (hc_element n) = Inr ne" using Cons.prems(1) by (auto simp: rbind_InrE)
  obtain v nv where v: "he_value element = Some v" "he_value ne = Some nv"
    using Cons.prems(1) ne by (cases "he_value element"; cases "he_value ne") simp_all
  show ?case
  proof (cases "datumIsEqual v nv")
    case True
    obtain ok r1 where a: "AddDuplicateOnDisk r element ne = Inr (ok, r1)" using Cons.prems(1) ne v True by (auto simp: rbind_InrE)
    show ?thesis using Cons.prems Cons.IH ne v True a AddDuplicateOnDisk_wf [OF a] by (cases ok) simp_all
  qed (use Cons.prems ne v in simp)
qed simp

lemma UpdateGraphOnDisk_wf:
  assumes "UpdateGraphOnDisk es r support p m entry = Inr (r', es')" "rel_wf r"
  shows "rel_wf r'"
proof -
  obtain dup r1 where f: "FindDuplicateOnDisk es r p = Inr (dup, r1)" using assms(1) by (auto simp: UpdateGraphOnDisk_def rbind_InrE)
  have r1: "rel_wf r1" using f find_duplicate_loop_wf assms(2) by (auto simp: FindDuplicateOnDisk_def rbind_InrE)
  show ?thesis
  proof (cases dup)
    case True
    then show ?thesis using assms(1) f r1 by (simp add: UpdateGraphOnDisk_def)
  next
    case False
    then obtain ip where ip: "GetInsertPage r = Inr ip" using assms(1) f by (auto simp: UpdateGraphOnDisk_def rbind_InrE)
    obtain r2 es2 nip where a: "AddElementOnDisk r es p m ip = Inr (r2, es2, nip)"
      using assms(1) f False ip by (auto simp: UpdateGraphOnDisk_def rbind_InrE)
    obtain r3 where r3: "(case nip of None \<Rightarrow> Inr r2 | Some b \<Rightarrow> HnswUpdateMetaPage r2 NoUpdate None b) = Inr r3"
      using assms(1) f False ip a by (auto simp: UpdateGraphOnDisk_def rbind_InrE)
    obtain r4 es4 where r4: "HnswUpdateNeighborsOnDisk es2 r3 support p m False = Inr (r4, es4)"
      using assms(1) f False ip a r3 by (auto simp: UpdateGraphOnDisk_def rbind_InrE)
    have "rel_wf r3" using r3 AddElementOnDisk_wf [OF assms(2) a] HnswUpdateMetaPage_wf by (cases nip) auto
    then have "rel_wf r4" using r4 update_neighbors_loop_wf by (auto simp: HnswUpdateNeighborsOnDisk_def rbind_InrE)
    moreover have "r' = r4 \<or> (\<exists>e. HnswUpdateMetaPage r4 UpdateGreater (Some e) InvalidBlockNumber = Inr r')"
      using assms(1) f False ip a r3 r4 by (auto simp: UpdateGraphOnDisk_def rbind_InrE split: if_splits)
    ultimately show ?thesis using HnswUpdateMetaPage_wf by blast
  qed
qed

text \<open>On any well-formed relation, an insertion that returns leaves a well-formed one; NULL and skipped values leave it unchanged.\<close>

lemma hnswinsert_wf:
  assumes "rel_wf r" and "hnswinsert r typeInfo support value heaptid randomLevel = Inr r'"
  shows "rel_wf r' \<and> (value = None \<or> (\<exists>v. value = Some v \<and> HnswFormIndexValue typeInfo support v = Inr None) \<longrightarrow> r' = r)"
proof (cases "value")
  case (Some v)
  then obtain iv where iv: "HnswFormIndexValue typeInfo support v = Inr iv" using assms(2) by (auto simp: hnswinsert_def HnswInsertTuple_def rbind_InrE)
  show ?thesis
  proof (cases iv)
    case None
    then show ?thesis using Some iv assms by (simp add: hnswinsert_def HnswInsertTuple_def)
  next
    case x: (Some v')
    then have "HnswInsertTupleOnDisk r support v' heaptid randomLevel = Inr r'" using Some iv assms(2) by (simp add: hnswinsert_def HnswInsertTuple_def)
    then obtain es p m entry es' where "UpdateGraphOnDisk es r support p m entry = Inr (r', es')"
      by (auto simp: HnswInsertTupleOnDisk_def rbind_InrE Let_def)
    then show ?thesis using UpdateGraphOnDisk_wf assms(1) Some iv x by auto
  qed
qed (use assms in \<open>simp add: hnswinsert_def\<close>)

section \<open>The first element\<close>

text \<open>The level of an element is capped so that its neighbour tuple fits on a page, for every \<open>m\<close> the index option allows.\<close>

lemma max_level_tuple:
  assumes "HNSW_MIN_M \<le> m" and "m \<le> HNSW_MAX_M" and "level \<le> HnswGetMaxLevel m"
  shows "HNSW_NEIGHBOR_TUPLE_SIZE level m \<le> HNSW_MAX_SIZE"
proof -
  have m: "2 \<le> m" "m \<le> 100" using assms by (simp_all add: hnsw_const)
  have q: "13 \<le> 1358 div m" using m div_le_mono2 [of m 100 1358] by simp
  have "HnswGetMaxLevel m \<le> 1358 div m - 2"
  proof -
    have "1358 div m \<le> 1358" by (rule div_le_dividend)
    then have "int (1358 div m) - 2 < 1358" by linarith
    then have "int (1358 div m) - 2 < 2 ^ 64" by (rule less_trans) simp
    then have "(int (1358 div m) - 2) mod 2 ^ 64 = int (1358 div m) - 2" using q by (intro mod_pos_pos_trivial) linarith+
    then show ?thesis by (simp add: HnswGetMaxLevel_def MAXALIGN_def hnsw_const)
  qed
  then have "(level + 2) * m \<le> (1358 div m) * m" using assms(3) q by (intro mult_le_mono1) simp
  also have "\<dots> \<le> 1358" by (rule div_times_less_eq_dividend)
  finally show ?thesis by (simp add: HNSW_NEIGHBOR_TUPLE_SIZE_def MAXALIGN_def hnsw_const)
qed

definition new_element :: "ItemPointerData \<Rightarrow> nat \<Rightarrow> nat \<Rightarrow> Vector \<Rightarrow> HnswElementData" where
  "new_element heaptid m level v = raw_element\<lparr>he_heaptids := [heaptid], he_level := level, he_version := 1,
     he_neighbors := Some (map (\<lambda>lc. HnswInitNeighborArray (HnswGetLayerM m lc)) [0..<Suc level]), he_value := Some v\<rparr>"

lemma HnswInitElement_eq:
  "HnswInitElement heaptid m rl mx = Inr e0 \<Longrightarrow> e0\<lparr>he_value := Some v\<rparr> = new_element heaptid m (min rl mx) v"
  by (auto simp: HnswInitElement_def HnswAddHeapTid_def HnswInitNeighbors_def new_element_def raw_element_def hnsw_const Let_def min_def)

lemma HnswInitElement_total: "\<exists>e0. HnswInitElement heaptid m rl mx = Inr e0"
  by (simp add: HnswInitElement_def HnswAddHeapTid_def raw_element_def hnsw_const Let_def)

lemma new_element_arrays: "arrays_ok es (new_element heaptid m level v)"
  by (auto simp: arrays_ok_def new_element_def HnswInitNeighborArray_def)

lemma new_element_slots: "lc \<le> level \<Longrightarrow> layer_slots es (new_element heaptid m level v) m' lc = replicate (HnswGetLayerM m' lc) InvalidItemPointer"
  by (simp add: layer_slots_def Let_def new_element_def HnswInitNeighborArray_def map_replicate_const nth_append del: upt_Suc)

lemma new_element_neighbors: "lc \<le> level \<Longrightarrow> HnswGetNeighbors (new_element heaptid m level v) lc = Inr (HnswInitNeighborArray (HnswGetLayerM m lc))"
  by (simp add: HnswGetNeighbors_def new_element_def del: upt_Suc)

lemma new_element_updates:
  assumes "e = (new_element heaptid m level v)\<lparr>he_blkno := a, he_neighborPage := b, he_offno := c, he_neighborOffno := d\<rparr>"
  shows "HnswUpdateNeighborsOnDisk [e] r support 0 m' chk = Inr (r, [e])"
proof -
  have "HnswGetNeighbors e lc = HnswGetNeighbors (new_element heaptid m level v) lc" for lc
    by (simp add: assms HnswGetNeighbors_def split: option.splits)
  moreover have lv: "he_level e = level" by (simp add: assms new_element_def)
  ultimately have "mapM (\<lambda>lc. rbind (HnswGetNeighbors e lc) (\<lambda>a. Inr (map (Pair lc) (na_items a)))) (rev [0..<Suc (he_level e)]) =
      Inr (map (\<lambda>lc. []) (rev [0..<Suc (he_level e)]))"
    by (intro mapM_total) (simp add: new_element_neighbors HnswInitNeighborArray_def less_Suc_eq_le del: upt_Suc)
  moreover have "concat (map (\<lambda>lc. []) xs) = ([] :: (nat \<times> HnswCandidate) list)" for xs :: "nat list" by simp
  ultimately show ?thesis by (simp only: HnswUpdateNeighborsOnDisk_def nth_r_simps rbind_simps list.size nth_Cons_0 update_neighbors_loop.simps
      zero_less_Suc One_nat_def add_0)
qed

text \<open>An index that has no element yet: a well-formed relation whose metapage records no entry point and an insert page of the chain, and
  with no element that is not marked deleted.\<close>

definition empty_index :: "Relation \<Rightarrow> HnswMetaPageData \<Rightarrow> bool" where
  "empty_index r mp \<longleftrightarrow> rel_wf r \<and> read_meta r = Inr mp \<and> mp_magicNumber mp = HNSW_MAGIC_NUMBER \<and> mp_entryBlkno mp = InvalidBlockNumber \<and>
     mp_entryLevel mp = -1 \<and> HNSW_MIN_M \<le> mp_m mp \<and> mp_m mp \<le> HNSW_MAX_M \<and> 0 < mp_insertPage mp \<and> mp_insertPage mp < length (rel_blocks r) \<and>
     (\<forall>b off et. tup_at r b off = Inr (ElementTup et) \<longrightarrow> et_deleted et \<noteq> 0)"

lemma new_element_storable:
  assumes "HNSW_MIN_M \<le> m" "m \<le> HNSW_MAX_M" "HNSW_NEIGHBOR_TUPLE_SIZE level m \<le> HNSW_MAX_SIZE" "HNSW_ELEMENT_TUPLE_SIZE (nat (vl_len v)) \<le> HNSW_MAX_SIZE"
  shows "storable es (new_element heaptid m level v) m"
  using assms new_element_arrays by (simp add: storable_def new_element_def)

lemma placed_cong:
  assumes "\<And>b off. tup_at r2 b off = tup_at r1 b off" "rel_wf r2" "placed r r1 ep np et nt"
  shows "placed r r2 ep np et nt"
proof -
  have "keeps_tuples r r2 = keeps_tuples r r1" "only_new r r2 = only_new r r1"
    by (simp_all add: keeps_tuples_def only_new_def fun_eq_iff assms(1))
  then show ?thesis using assms(2,3) by (simp only: placed_def assms(1) simp_thms)
qed

lemma placed_meta:
  assumes "placed r r1 ep np et nt" "read_meta r1 = Inr mp1"
  shows "placed r (write_meta r1 mp2) ep np et nt"
  by (rule placed_cong [OF write_meta_spec(3) [OF assms(2)] write_meta_wf [OF _ assms(2)] assms(1)]) (use assms(1) in \<open>simp add: placed_def\<close>)

text \<open>Placing an element leaves the metapage alone.\<close>

lemma meta_write: "read_meta r = Inr mp \<Longrightarrow> read_page r b = Inr q \<Longrightarrow> read_meta (write_page r b p) = Inr mp"
  by (cases b) (auto simp: read_meta_def read_page_def write_page_def hnsw_const split: if_splits block.splits)

lemma append_tuple_meta: "append_tuple r b off t = Inr r' \<Longrightarrow> read_meta r = Inr mp \<Longrightarrow> read_meta r' = Inr mp"
  by (cases "read_page r b"; cases "ip_add tuple_size (projr (read_page r b)) t") (auto simp: append_tuple_def meta_write split: if_splits)

lemma overwrite_tuple_meta: "overwrite_tuple r b off t = Inr r' \<Longrightarrow> read_meta r = Inr mp \<Longrightarrow> read_meta r' = Inr mp"
  by (auto simp: overwrite_tuple_def rbind_InrE meta_write split: if_splits)

lemma HnswInsertAppendPage_meta:
  assumes "HnswInsertAppendPage r b = Inr (n, r')" "read_meta r = Inr mp"
  shows "read_meta r' = Inr mp"
proof -
  let ?r = "r\<lparr>rel_blocks := rel_blocks r @ [GraphBlock HnswInitPage]\<rparr>"
  obtain p where p: "read_page ?r b = Inr p" "r' = write_page ?r b (p\<lparr>hp_nextblkno := n\<rparr>)"
    using assms(1) by (auto simp: HnswInsertAppendPage_def HnswNewBuffer_def rbind_InrE)
  have "read_meta ?r = Inr mp" using assms(2) by (auto simp: read_meta_def hnsw_const nth_append split: if_splits)
  then show ?thesis using meta_write p by blast
qed

lemma find_place_meta:
  assumes m: "read_meta r = Inr mp"
  shows "find_place fuel r b es ns mc nip = Inr (pl, r') \<Longrightarrow> read_meta r' = Inr mp"
proof (induction fuel arbitrary: b nip)
  case (Suc fuel)
  obtain page where p: "read_page r b = Inr page" using Suc.prems by (auto simp: rbind_InrE)
  note fp = Suc.prems [simplified, unfolded p, simplified, unfolded Let_def]
  let ?nip = "if nip = InvalidBlockNumber \<and> mc \<le> ip_free_space page then b else nip"
  show ?case
  proof (cases "es + ns + sizeof_ItemIdData \<le> ip_free_space page")
    case True
    then show ?thesis using fp m by auto
  next
    case c: False
    obtain found nip' where f: "HnswFreeOffset r b page es ns ?nip = Inr (found, nip')" using fp c by (auto simp: rbind_InrE)
    note fp2 = fp [unfolded f, simplified if_not_P [OF c], simplified]
    show ?thesis
    proof (cases found)
      case (Some x)
      then show ?thesis using fp2 m by (cases x) auto
    next
      case None
      have app: "HnswInsertAppendPage r1 b1 = Inr (n1, r2) \<Longrightarrow> read_meta r1 = Inr mp \<Longrightarrow> read_meta r2 = Inr mp" for r1 b1 n1 r2
        by (rule HnswInsertAppendPage_meta)
      show ?thesis
      proof (cases "hp_nextblkno page = InvalidBlockNumber")
        case False
        then show ?thesis using fp2 None Suc.IH by simp
      next
        case nx: True
        then obtain n1 r1 where a1: "HnswInsertAppendPage r b = Inr (n1, r1)" using fp2 None by (auto simp: rbind_InrE split: if_splits)
        consider "r' = r1" | n2 r2 where "HnswInsertAppendPage r1 n1 = Inr (n2, r2)" "r' = r2"
          using fp2 None nx a1 by (auto simp: rbind_InrE split: if_splits)
        then show ?thesis using app a1 m by cases auto
      qed
    qed
  qed
qed simp

lemma add_tuples_meta:
  assumes "add_tuples r pl et nt = Inr (r', off, noff)" "read_meta r = Inr mp"
  shows "read_meta r' = Inr mp"
proof (cases "pl_free pl")
  case None
  then obtain a b c d r1 where "append_tuple r (pl_blk pl) a b = Inr r1" "append_tuple r1 (pl_nblk pl) c d = Inr r'"
    using assms(1) by (auto simp: add_tuples_def Let_def rbind_InrE)
  then show ?thesis using append_tuple_meta assms(2) by blast
next
  case (Some x)
  then obtain a b c d r1 where "overwrite_tuple r (pl_blk pl) a b = Inr r1" "overwrite_tuple r1 (pl_nblk pl) c d = Inr r'"
    using assms(1) by (auto simp: add_tuples_def Let_def rbind_InrE)
  then show ?thesis using overwrite_tuple_meta assms(2) by blast
qed

lemma AddElementOnDisk_meta:
  assumes "AddElementOnDisk r es p m ip = Inr (r', es', nip)" "read_meta r = Inr mp"
  shows "read_meta r' = Inr mp"
  using assms(1) by (rule AddElementOnDisk_cases) (use find_place_meta add_tuples_meta assms(2) in blast)

lemma insert_first_placed:
  assumes "empty_index r mp" and "HNSW_ELEMENT_TUPLE_SIZE (nat (vl_len v)) \<le> HNSW_MAX_SIZE" and l: "level = min randomLevel (HnswGetMaxLevel (mp_m mp))"
  shows "\<exists>r' ep np et0 et nt0 mp'. HnswInsertTupleOnDisk r support v heaptid randomLevel = Inr r' \<and>
    HnswSetElementTuple zero_etup (new_element heaptid (mp_m mp) level v) = Inr et0 \<and>
    HnswSetNeighborTuple [new_element heaptid (mp_m mp) level v] zero_ntup (new_element heaptid (mp_m mp) level v) (mp_m mp) = Inr nt0 \<and>
    et = et0\<lparr>et_version := et_version et, et_neighbortid := ItemPointerSet (fst np) (snd np)\<rparr> \<and>
    placed r r' ep np et (nt0\<lparr>nt_version := et_version et\<rparr>) \<and> read_meta r' = Inr mp' \<and> mp_magicNumber mp' = HNSW_MAGIC_NUMBER \<and> mp_m mp' = mp_m mp \<and>
    mp_entryBlkno mp' = fst ep \<and> mp_entryOffno mp' = snd ep \<and> mp_entryLevel mp' = int level"
proof -
  note e = assms(1) [unfolded empty_index_def]
  have fits: "HNSW_NEIGHBOR_TUPLE_SIZE level (mp_m mp) \<le> HNSW_MAX_SIZE" by (rule max_level_tuple) (use e l in simp_all)
  define el where "el = new_element heaptid (mp_m mp) level v"
  have st: "storable [el] ([el] ! 0) (mp_m mp)" using e assms(2) fits by (simp add: el_def new_element_storable)
  obtain r1 e' nip et0 et nt0 where a: "AddElementOnDisk r [el] 0 (mp_m mp) (mp_insertPage mp) = Inr (r1, [el][0 := e'], nip)"
    and e': "e' = el\<lparr>he_blkno := he_blkno e', he_neighborPage := he_neighborPage e', he_offno := he_offno e', he_neighborOffno := he_neighborOffno e'\<rparr>"
    and t: "HnswSetElementTuple zero_etup el = Inr et0" "HnswSetNeighborTuple [el] zero_ntup el (mp_m mp) = Inr nt0"
      "et = et0\<lparr>et_version := et_version et, et_neighbortid := ItemPointerSet (he_neighborPage e') (he_neighborOffno e')\<rparr>"
    and pl: "placed r r1 (he_blkno e', he_offno e') (he_neighborPage e', he_neighborOffno e') et (nt0\<lparr>nt_version := et_version et\<rparr>)"
    using AddElementOnDisk_placed [of r "mp_insertPage mp" 0 "[el]" "mp_m mp"] st e by auto
  have m1: "read_meta r1 = Inr mp" using AddElementOnDisk_meta [OF a] e by blast
  define mp2 where "mp2 = (case nip of None \<Rightarrow> mp | Some b \<Rightarrow> HnswUpdateMetaPageInfo mp NoUpdate None b)"
  define r2 where "r2 = (case nip of None \<Rightarrow> r1 | Some b \<Rightarrow> write_meta r1 mp2)"
  have r2: "(case nip of None \<Rightarrow> Inr r1 | Some b \<Rightarrow> HnswUpdateMetaPage r1 NoUpdate None b) = Inr r2" "read_meta r2 = Inr mp2"
    using m1 write_meta_spec(1) [OF m1] by (auto simp: r2_def mp2_def HnswUpdateMetaPage_def split: option.splits)
  have p2: "placed r r2 (he_blkno e', he_offno e') (he_neighborPage e', he_neighborOffno e') et (nt0\<lparr>nt_version := et_version et\<rparr>)"
    using pl placed_meta [OF pl m1] by (cases nip) (simp_all add: r2_def)
  have mp2: "mp_entryLevel mp2 = -1" "mp_magicNumber mp2 = HNSW_MAGIC_NUMBER" "mp_m mp2 = mp_m mp"
    using e by (auto simp: mp2_def HnswUpdateMetaPageInfo_def Let_def split: option.splits)
  define mp3 where "mp3 = HnswUpdateMetaPageInfo mp2 UpdateGreater (Some e') InvalidBlockNumber"
  have lv: "he_level e' = level" by (subst e') (simp add: el_def new_element_def)
  have mp3: "mp_magicNumber mp3 = HNSW_MAGIC_NUMBER" "mp_m mp3 = mp_m mp" "mp_entryBlkno mp3 = he_blkno e'" "mp_entryOffno mp3 = he_offno e'"
      "mp_entryLevel mp3 = int level" using mp2 lv by (simp_all add: mp3_def HnswUpdateMetaPageInfo_def Let_def)
  have d: "FindDuplicateOnDisk [el] r 0 = Inr (False, r)"
    by (simp add: FindDuplicateOnDisk_def el_def new_element_neighbors HnswInitNeighborArray_def)
  have n: "HnswUpdateNeighborsOnDisk [e'] r2 support 0 (mp_m mp) False = Inr (r2, [e'])"
    by (rule new_element_updates) (use e' in \<open>simp add: el_def\<close>)
  have u: "UpdateGraphOnDisk [el] r support 0 (mp_m mp) None = Inr (write_meta r2 mp3, [e'])"
    using d a r2 n e by (simp add: UpdateGraphOnDisk_def GetInsertPage_def HnswUpdateMetaPage_def mp3_def)
  obtain e0 where i: "HnswInitElement heaptid (mp_m mp) randomLevel (HnswGetMaxLevel (mp_m mp)) = Inr e0" using HnswInitElement_total by blast
  have "HnswInsertTupleOnDisk r support v heaptid randomLevel = Inr (write_meta r2 mp3)"
    using e i u HnswInitElement_eq [OF i, of v]
    by (simp add: HnswInsertTupleOnDisk_def HnswGetMetaPageInfo_def HnswGetEntryPoint_def Let_def HnswFindElementNeighbors_def el_def l)
  then show ?thesis
    using t placed_meta [OF p2 r2(2), of mp3] write_meta_spec(1) [OF r2(2), of mp3] mp3 unfolding el_def by fastforce
qed

end
