(* ===== verification/HnswEntries.thy ===== *)
theory HnswEntries
  imports HnswInsert
begin

text \<open>
  The index seen by its clients: a multiset of entries, each a heap TID with the vector it was indexed under.  The operations of
  \<open>hnswbuild.c\<close>, \<open>hnswinsert.c\<close> and \<open>hnswvacuum.c\<close> are specified by their effect on it.
\<close>

definition elem_tids :: "Relation \<Rightarrow> ItemPointerData set" where
  "elem_tids r = {t. \<exists>et. tup_at r (ip_blkid t) (ip_posid t) = Inr (ElementTup et)}"

definition elem_at :: "Relation \<Rightarrow> ItemPointerData \<Rightarrow> HnswElementTupleData" where
  "elem_at r t = (case tup_at r (ip_blkid t) (ip_posid t) of Inr (ElementTup et) \<Rightarrow> et | _ \<Rightarrow> zero_etup)"

definition tup_entries :: "HnswElementTupleData \<Rightarrow> (ItemPointerData \<times> Vector) multiset" where
  "tup_entries et = image_mset (\<lambda>h. (h, et_data et)) (mset (tup_tids et))"

definition index_entries :: "Relation \<Rightarrow> (ItemPointerData \<times> Vector) multiset" where
  "index_entries r = (\<Sum>t\<in>elem_tids r. tup_entries (elem_at r t))"

lemma elem_at_eq: "tup_at r b off = Inr (ElementTup et) \<Longrightarrow> elem_at r (ItemPointerSet b off) = et"
  by (simp add: elem_at_def ItemPointerSet_def)

lemma elem_tids_iff: "ItemPointerSet b off \<in> elem_tids r \<longleftrightarrow> (\<exists>et. tup_at r b off = Inr (ElementTup et))"
  by (simp add: elem_tids_def ItemPointerSet_def)

lemma ItemPointer_eq: "t = ItemPointerSet (ip_blkid t) (ip_posid t)"
  by (cases t) (simp add: ItemPointerSet_def)

text \<open>There are finitely many tuples.\<close>

lemma tup_at_page: "tup_at r b off = Inr t \<Longrightarrow> \<exists>p. read_page r b = Inr p \<and> b < length (rel_blocks r) \<and> off \<le> length (ip_items p)"
  using read_page_bounds by (fastforce simp: tup_at_def rbind_InrE page_tuple_def ip_get_def nth_r_def split: if_splits)

lemma finite_elem_tids: "finite (elem_tids r)"
proof -
  let ?n = "\<lambda>b. case read_page r b of Inr p \<Rightarrow> length (ip_items p) | Inl _ \<Rightarrow> 0"
  have "elem_tids r \<subseteq> (\<Union>b<length (rel_blocks r). ItemPointerSet b ` {..?n b})"
  proof
    fix t assume "t \<in> elem_tids r"
    then obtain p where "read_page r (ip_blkid t) = Inr p" "ip_blkid t < length (rel_blocks r)" "ip_posid t \<le> length (ip_items p)"
      using tup_at_page unfolding elem_tids_def by blast
    moreover from this have "t \<in> ItemPointerSet (ip_blkid t) ` {..?n (ip_blkid t)}"
      by (intro image_eqI [where x = "ip_posid t"]) (rule ItemPointer_eq, simp)
    ultimately show "t \<in> (\<Union>b<length (rel_blocks r). ItemPointerSet b ` {..?n b})" by blast
  qed
  then show ?thesis by (rule finite_subset) simp
qed

text \<open>Relations with the same element tuples have the same entries; changing one tuple changes its entries only.\<close>

lemma index_entries_cong:
  assumes "\<And>b off et. tup_at r' b off = Inr (ElementTup et) \<longleftrightarrow> tup_at r b off = Inr (ElementTup et)"
  shows "index_entries r' = index_entries r"
proof -
  have e: "elem_tids r' = elem_tids r" using assms by (simp add: elem_tids_def)
  have "elem_at r' t = elem_at r t" if "t \<in> elem_tids r" for t
  proof -
    obtain et where "tup_at r (ip_blkid t) (ip_posid t) = Inr (ElementTup et)" using \<open>t \<in> elem_tids r\<close> by (auto simp: elem_tids_def)
    moreover from this have "tup_at r' (ip_blkid t) (ip_posid t) = Inr (ElementTup et)" using assms by blast
    ultimately show ?thesis by (simp add: elem_at_def)
  qed
  then show ?thesis by (simp add: index_entries_def e)
qed

text \<open>The entries of a changed relation, element by element.\<close>

lemma index_entries_map:
  assumes "\<And>b off et'. tup_at r' b off = Inr (ElementTup et') \<longleftrightarrow> (\<exists>et. tup_at r b off = Inr (ElementTup et) \<and> et' = f b et)"
    and "\<And>b et. tup_entries (f b et) = F (tup_entries et)" and F: "F {#} = {#}" "\<And>A B. F (A + B) = F A + F B"
  shows "index_entries r' = F (index_entries r)"
proof -
  have e: "elem_tids r' = elem_tids r" using assms(1) by (auto simp: elem_tids_def)
  have "tup_entries (elem_at r' t) = F (tup_entries (elem_at r t))" if "t \<in> elem_tids r" for t
  proof -
    obtain et where et: "tup_at r (ip_blkid t) (ip_posid t) = Inr (ElementTup et)" using \<open>t \<in> elem_tids r\<close> by (auto simp: elem_tids_def)
    then have "tup_at r' (ip_blkid t) (ip_posid t) = Inr (ElementTup (f (ip_blkid t) et))" using assms(1) by blast
    then show ?thesis using et assms(2) by (simp add: elem_at_def)
  qed
  then have "index_entries r' = (\<Sum>t\<in>elem_tids r. F (tup_entries (elem_at r t)))" by (simp add: index_entries_def e)
  also have "\<dots> = F (\<Sum>t\<in>elem_tids r. tup_entries (elem_at r t))"
    using finite_elem_tids [of r] by (induction rule: finite_induct) (simp_all add: F)
  finally show ?thesis by (simp add: index_entries_def)
qed

lemma index_entries_add:
  assumes "\<And>b off et. tup_at r' b off = Inr (ElementTup et) \<longleftrightarrow> (b = b0 \<and> off = off0 \<and> et = et') \<or> (\<not> (b = b0 \<and> off = off0) \<and> tup_at r b off = Inr (ElementTup et))"
    and old: "\<And>et. tup_at r b0 off0 = Inr (ElementTup et) \<Longrightarrow> tup_entries et' = tup_entries et + N"
    and new: "ItemPointerSet b0 off0 \<notin> elem_tids r \<Longrightarrow> tup_entries et' = N"
  shows "index_entries r' = index_entries r + N"
proof -
  let ?t = "ItemPointerSet b0 off0" and ?S = "elem_tids r - {ItemPointerSet b0 off0}"
  have t': "elem_at r' ?t = et'" using assms(1) elem_at_eq by blast
  have e: "elem_tids r' = insert ?t ?S"
  proof (rule set_eqI)
    fix t
    have "t = ?t \<longleftrightarrow> ip_blkid t = b0 \<and> ip_posid t = off0" by (cases t) (simp add: ItemPointerSet_def)
    then show "t \<in> elem_tids r' \<longleftrightarrow> t \<in> insert ?t ?S" using assms(1) by (auto simp: elem_tids_def)
  qed
  have eq: "elem_at r' t = elem_at r t" if "t \<in> ?S" for t
  proof -
    obtain et where et: "tup_at r (ip_blkid t) (ip_posid t) = Inr (ElementTup et)" using \<open>t \<in> ?S\<close> by (auto simp: elem_tids_def)
    have "\<not> (ip_blkid t = b0 \<and> ip_posid t = off0)" using \<open>t \<in> ?S\<close> ItemPointer_eq [of t] by auto
    then have "tup_at r' (ip_blkid t) (ip_posid t) = Inr (ElementTup et)" using assms(1) et by blast
    then show ?thesis using et by (simp add: elem_at_def)
  qed
  have r': "index_entries r' = tup_entries et' + (\<Sum>t\<in>?S. tup_entries (elem_at r t))"
  proof -
    have "?t \<notin> ?S" "finite ?S" using finite_elem_tids by simp_all
    then have "index_entries r' = tup_entries et' + (\<Sum>t\<in>?S. tup_entries (elem_at r' t))" unfolding index_entries_def e t' [symmetric] by (rule sum.insert [rotated])
    also have "(\<Sum>t\<in>?S. tup_entries (elem_at r' t)) = (\<Sum>t\<in>?S. tup_entries (elem_at r t))" by (rule sum.cong) (simp_all only: eq)
    finally show ?thesis .
  qed
  show ?thesis
  proof (cases "?t \<in> elem_tids r")
    case True
    then obtain et where et: "tup_at r b0 off0 = Inr (ElementTup et)" by (auto simp: elem_tids_iff)
    have "index_entries r = tup_entries et + (\<Sum>t\<in>?S. tup_entries (elem_at r t))"
      unfolding index_entries_def using sum.remove [OF finite_elem_tids True] elem_at_eq [OF et] by metis
    then show ?thesis using r' old [OF et] by (simp add: ac_simps)
  next
    case False
    then have "?S = elem_tids r" by simp
    then show ?thesis using r' new [OF False] by (simp add: index_entries_def ac_simps)
  qed
qed

end
