(* ===== verification/HnswVacuum.thy ===== *)
theory HnswVacuum
  imports HnswScan HnswInsert
begin

text \<open>
  VACUUM of the index, \<open>src/backend/access/hnsw/hnswvacuum.c\<close>: the three passes over the chain of pages (removing
  the heap TIDs of dead tuples, repairing the neighbour lists that point at elements about to be deleted, marking the
  empty elements as deleted) and the two entry points of the access method.

  The callback that tells dead heap TIDs is a function argument, the hash table of deleted index TIDs is a set, and the
  counters of \<open>IndexBulkDeleteResult\<close> are natural numbers (doubles holding integers in the code).  Every pass runs on one
  relation value; page locks and WAL records have no state of their own here.
\<close>

section \<open>State\<close>

record IndexBulkDeleteResult =
  num_pages :: nat
  estimated_count :: bool
  num_index_tuples :: nat
  tuples_removed :: nat
  pages_newly_deleted :: nat
  pages_deleted :: nat
  pages_free :: nat

text \<open>The buffer \<open>ntup\<close> is zeroed before each use and has no field of its own.\<close>

record HnswVacuumState =
  vs_index :: Relation
  vs_stats :: IndexBulkDeleteResult
  vs_callback :: "ItemPointerData \<Rightarrow> bool"
  vs_m :: nat
  vs_efConstruction :: nat
  vs_support :: HnswSupport
  vs_deleted :: "ItemPointerData set"
  vs_highestPoint :: HnswElementData

definition DeletedContains :: "ItemPointerData set \<Rightarrow> ItemPointerData \<Rightarrow> bool" where
  "DeletedContains deleted indextid \<longleftrightarrow> indextid \<in> deleted"

text \<open>The loop \<open>while (BlockNumberIsValid(blkno))\<close> all three passes have; the body returns the next block.  Running out
  of fuel stands for a cyclic page chain, on which the code does not return.\<close>

fun walk_pages :: "nat \<Rightarrow> (nat \<Rightarrow> 's \<Rightarrow> (nat \<times> 's) result) \<Rightarrow> nat \<Rightarrow> 's \<Rightarrow> 's result" where
  "walk_pages 0 body blkno s = Inl Diverges"
| "walk_pages (Suc fuel) body blkno s =
     (if blkno = InvalidBlockNumber then Inr s
      else rbind (body blkno s) (\<lambda>(next, s'). walk_pages fuel body next s'))"

section \<open>Removing heap TIDs\<close>

text \<open>The loop over the heap TIDs of a tuple with \<open>n\<close> iterations left: it compacts the array in place.  The result: the
  number of heap TIDs kept, \<open>itemUpdated\<close>, the array, and the counters.\<close>

fun compact_tids ::
    "(ItemPointerData \<Rightarrow> bool) \<Rightarrow> nat \<Rightarrow> nat \<Rightarrow> nat \<Rightarrow> ItemPointerData list \<Rightarrow> bool \<Rightarrow> IndexBulkDeleteResult \<Rightarrow>
     (nat \<times> bool \<times> ItemPointerData list \<times> IndexBulkDeleteResult) result" where
  "compact_tids callback 0 i idx tids itemUpdated stats = Inr (idx, itemUpdated, tids, stats)"
| "compact_tids callback (Suc n) i idx tids itemUpdated stats =
     rbind (nth_r tids i) (\<lambda>tid.
       if \<not> ItemPointerIsValid tid then Inr (idx, itemUpdated, tids, stats)
       else if callback tid
         then compact_tids callback n (Suc i) idx tids True (stats\<lparr>tuples_removed := tuples_removed stats + 1\<rparr>)
         else compact_tids callback n (Suc i) (Suc idx) (tids[idx := tid]) itemUpdated
                (stats\<lparr>num_index_tuples := num_index_tuples stats + 1\<rparr>))"

definition remove_heaptids ::
    "(ItemPointerData \<Rightarrow> bool) \<Rightarrow> HnswElementTupleData \<Rightarrow> IndexBulkDeleteResult \<Rightarrow>
     (HnswElementTupleData \<times> bool \<times> IndexBulkDeleteResult) result" where
  "remove_heaptids callback etup stats =
     rbind (nth_r (et_heaptids etup) 0) (\<lambda>first.
       if ItemPointerIsValid first then
         rbind (compact_tids callback HNSW_HEAPTIDS 0 0 (et_heaptids etup) False stats) (\<lambda>(idx, itemUpdated, tids, stats').
           Inr (etup\<lparr>et_heaptids :=
                  (if itemUpdated then take idx tids @ replicate (HNSW_HEAPTIDS - idx) InvalidItemPointer @ drop HNSW_HEAPTIDS tids
                   else tids)\<rparr>, itemUpdated, stats'))
       else Inr (etup, False, stats))"

text \<open>One item of a page; besides the vacuum state the loop carries \<open>highestLevel\<close> and \<open>updated\<close>.\<close>

definition remove_item ::
    "HnswElementData option \<Rightarrow> nat \<Rightarrow> nat \<Rightarrow> HnswTuple \<Rightarrow> HnswVacuumState \<times> int \<times> bool \<Rightarrow>
     (HnswTuple \<times> HnswVacuumState \<times> int \<times> bool) result" where
  "remove_item entryPoint blkno offno t s =
     (case t of NeighborTup n \<Rightarrow> Inr (t, s)
      | ElementTup etup0 \<Rightarrow> (case s of (vs0, highestLevel, updated) \<Rightarrow>
          rbind (remove_heaptids (vs_callback vs0) etup0 (vs_stats vs0)) (\<lambda>(etup, itemUpdated, stats).
          rbind (nth_r (et_heaptids etup) 0) (\<lambda>first.
            let vs = vs0\<lparr>vs_stats := stats\<rparr>; ip = ItemPointerSet blkno offno in
            if \<not> ItemPointerIsValid first then
              if ip \<in> vs_deleted vs then Inl AssertionFailed
              else Inr (ElementTup etup, vs\<lparr>vs_deleted := insert ip (vs_deleted vs)\<rparr>, highestLevel, updated \<or> itemUpdated)
            else if int (et_level etup) > highestLevel \<and>
                \<not> (case entryPoint of None \<Rightarrow> False | Some ep \<Rightarrow> blkno = he_blkno ep \<and> offno = he_offno ep) then
              Inr (ElementTup etup,
                   vs\<lparr>vs_highestPoint := (vs_highestPoint vs)\<lparr>he_blkno := blkno, he_offno := offno, he_level := et_level etup\<rparr>\<rparr>,
                   int (et_level etup), updated \<or> itemUpdated)
            else Inr (ElementTup etup, vs, highestLevel, updated \<or> itemUpdated)))))"

fun remove_items ::
    "HnswElementData option \<Rightarrow> nat \<Rightarrow> nat \<Rightarrow> HnswTuple list \<Rightarrow> HnswVacuumState \<times> int \<times> bool \<Rightarrow>
     (HnswTuple list \<times> HnswVacuumState \<times> int \<times> bool) result" where
  "remove_items entryPoint blkno offno [] s = Inr ([], s)"
| "remove_items entryPoint blkno offno (t # ts) s =
     rbind (remove_item entryPoint blkno offno t s) (\<lambda>(t', s').
     rbind (remove_items entryPoint blkno (Suc offno) ts s') (\<lambda>(ts', s''). Inr (t' # ts', s'')))"

text \<open>One page: the changed copy becomes the page when something was removed, otherwise it is dropped.\<close>

definition remove_page ::
    "HnswElementData option \<Rightarrow> nat \<Rightarrow> HnswVacuumState \<times> int \<Rightarrow> (nat \<times> HnswVacuumState \<times> int) result" where
  "remove_page entryPoint blkno s =
     rbind (read_page (vs_index (fst s)) blkno) (\<lambda>page.
     rbind (remove_items entryPoint blkno FirstOffsetNumber (ip_items page) (fst s, snd s, False)) (\<lambda>(items, vs, highestLevel, updated).
       Inr (hp_nextblkno page,
            if updated then vs\<lparr>vs_index := write_page (vs_index vs) blkno (page\<lparr>ip_items := items\<rparr>)\<rparr> else vs,
            highestLevel)))"

definition RemoveHeapTids :: "HnswVacuumState \<Rightarrow> HnswVacuumState result" where
  "RemoveHeapTids vs =
     rbind (HnswGetEntryPoint (vs_index vs)) (\<lambda>entryPoint.
       let vs0 = vs\<lparr>vs_highestPoint := (vs_highestPoint vs)\<lparr>he_blkno := InvalidBlockNumber, he_offno := InvalidOffsetNumber\<rparr>\<rparr> in
       rbind (walk_pages (Suc (length (rel_blocks (vs_index vs)))) (remove_page entryPoint) HNSW_HEAD_BLKNO (vs0, -1))
         (\<lambda>(vs1, _). Inr vs1))"

section \<open>Repairing the graph\<close>

text \<open>The loop over the index TIDs of a neighbour tuple, from index \<open>i\<close> with \<open>n\<close> left.\<close>

fun any_deleted :: "ItemPointerData set \<Rightarrow> ItemPointerData list \<Rightarrow> nat \<Rightarrow> nat \<Rightarrow> bool result" where
  "any_deleted deleted indextids i 0 = Inr False"
| "any_deleted deleted indextids i (Suc n) =
     rbind (nth_r indextids i) (\<lambda>indextid.
       if ItemPointerIsValid indextid \<and> DeletedContains deleted indextid then Inr True
       else any_deleted deleted indextids (Suc i) n)"

definition NeedsUpdated :: "HnswVacuumState \<Rightarrow> HnswElementData \<Rightarrow> bool result" where
  "NeedsUpdated vs element =
     rbind (read_page (vs_index vs) (he_neighborPage element)) (\<lambda>page.
     rbind (page_tuple page (he_neighborOffno element)) (\<lambda>t.
       case t of ElementTup _ \<Rightarrow> Inl AssertionFailed
       | NeighborTup ntup \<Rightarrow>
           rbind (any_deleted (vs_deleted vs) (nt_indextids ntup) 0 (nt_count ntup)) (\<lambda>needsUpdated.
             if needsUpdated then Inr True
             else if nt_count ntup = 0 then Inl UndefinedBehaviour
             else rbind (nth_r (nt_indextids ntup) (nt_count ntup - 1)) (\<lambda>last. Inr (\<not> ItemPointerIsValid last)))))"

definition RepairGraphElement ::
    "HnswVacuumState \<Rightarrow> elems \<Rightarrow> eptr \<Rightarrow> eptr option \<Rightarrow> (HnswVacuumState \<times> elems) result" where
  "RepairGraphElement vs elems p entryPoint =
     rbind (nth_r elems p) (\<lambda>element.
     rbind (case entryPoint of None \<Rightarrow> Inr False
            | Some q \<Rightarrow> rbind (nth_r elems q) (\<lambda>ep. Inr (he_blkno element = he_blkno ep \<and> he_offno element = he_offno ep))) (\<lambda>skip.
       if skip then Inr (vs, elems)
       else
         let elems1 = elems[p := (HnswInitNeighbors element (vs_m vs))\<lparr>he_heaptids := []\<rparr>] in
         rbind (HnswFindElementNeighbors elems1 True p entryPoint (Some (vs_index vs)) (vs_support vs) (vs_m vs)
                  (vs_efConstruction vs) True) (\<lambda>elems2.
         rbind (nth_r elems2 p) (\<lambda>e.
         rbind (HnswSetNeighborTuple elems2 zero_ntup e (vs_m vs)) (\<lambda>ntup.
         rbind (overwrite_tuple (vs_index vs) (he_neighborPage e) (he_neighborOffno e) (NeighborTup ntup)) (\<lambda>index1.
         rbind (HnswUpdateNeighborsOnDisk elems2 index1 (vs_support vs) p (vs_m vs) True) (\<lambda>(index2, elems3).
           Inr (vs\<lparr>vs_index := index2\<rparr>, elems3))))))))"

text \<open>The entry point read from the metapage, as a store cell after the store \<open>elems\<close>.\<close>

definition with_entry :: "elems \<Rightarrow> HnswElementData option \<Rightarrow> elems \<times> eptr option" where
  "with_entry elems entryPoint =
     (case entryPoint of None \<Rightarrow> (elems, None) | Some ep \<Rightarrow> (elems @ [ep], Some (length elems)))"

text \<open>The highest point is cell 0 of the store; what is loaded into it lives in the temporary memory context, which is
  reset at the end.\<close>

definition repair_highest :: "HnswVacuumState \<Rightarrow> (HnswVacuumState \<times> elems) result" where
  "repair_highest vs =
     rbind (HnswLoadElement [vs_highestPoint vs] 0 False None (vs_index vs) (vs_support vs) True None) (\<lambda>(_, elems).
     rbind (nth_r elems 0) (\<lambda>highestPoint.
     rbind (NeedsUpdated vs highestPoint) (\<lambda>needsUpdated.
       if needsUpdated then
         rbind (HnswGetEntryPoint (vs_index vs)) (\<lambda>entryPoint.
           let (elems1, ep) = with_entry elems entryPoint in RepairGraphElement vs elems1 0 ep)
       else Inr (vs, elems))))"

text \<open>The entry point, after the highest point has been repaired: a dead one is replaced by the highest point, another one is repaired with it.\<close>

definition repair_entry :: "bool \<Rightarrow> elems \<Rightarrow> HnswVacuumState \<Rightarrow> HnswVacuumState result" where
  "repair_entry highestValid elems vs =
     rbind (HnswGetEntryPoint (vs_index vs)) (\<lambda>entryPoint.
       case entryPoint of
         None \<Rightarrow> Inr vs
       | Some ep \<Rightarrow>
           if DeletedContains (vs_deleted vs) (ItemPointerSet (he_blkno ep) (he_offno ep)) then
             rbind (if highestValid then rbind (nth_r elems 0) (\<lambda>h. Inr (Some h)) else Inr None) (\<lambda>highestPoint.
             rbind (HnswUpdateMetaPage (vs_index vs) UpdateAlways highestPoint InvalidBlockNumber) (\<lambda>index.
               Inr (vs\<lparr>vs_index := index\<rparr>)))
           else
             rbind (HnswLoadElement (elems @ [ep]) (length elems) False None (vs_index vs) (vs_support vs) True None) (\<lambda>(_, elems1).
             rbind (nth_r elems1 (length elems)) (\<lambda>entry.
             rbind (NeedsUpdated vs entry) (\<lambda>needsUpdated.
               if needsUpdated then
                 let elems2 = (if highestValid then elems1[0 := (elems1 ! 0)\<lparr>he_neighbors := None\<rparr>] else elems1) in
                 rbind (RepairGraphElement vs elems2 (length elems) (if highestValid then Some 0 else None)) (\<lambda>(vs2, _). Inr vs2)
               else Inr vs))))"

definition RepairGraphEntryPoint :: "HnswVacuumState \<Rightarrow> HnswVacuumState result" where
  "RepairGraphEntryPoint vs =
     (let highestValid = he_blkno (vs_highestPoint vs) \<noteq> InvalidBlockNumber in
      rbind (if highestValid then repair_highest vs else Inr (vs, [vs_highestPoint vs])) (\<lambda>(vs1, elems).
        repair_entry highestValid elems vs1))"

text \<open>The elements of a page that are not being deleted, loaded without their heap TIDs.\<close>

fun load_elements :: "nat \<Rightarrow> nat \<Rightarrow> HnswTuple list \<Rightarrow> (HnswElementData list) result" where
  "load_elements blkno offno [] = Inr []"
| "load_elements blkno offno (NeighborTup _ # ts) = load_elements blkno (Suc offno) ts"
| "load_elements blkno offno (ElementTup etup # ts) =
     rbind (nth_r (et_heaptids etup) 0) (\<lambda>first.
     rbind (load_elements blkno (Suc offno) ts) (\<lambda>elements.
       Inr (if ItemPointerIsValid first
            then HnswLoadElementFromTuple (HnswInitElementFromBlock blkno offno) etup False True # elements
            else elements)))"

definition repair_element :: "HnswVacuumState \<Rightarrow> HnswElementData \<Rightarrow> HnswVacuumState result" where
  "repair_element vs element =
     rbind (NeedsUpdated vs element) (\<lambda>needsUpdated.
       if \<not> needsUpdated then Inr vs
       else
         rbind (HnswGetEntryPoint (vs_index vs)) (\<lambda>entryPoint0.
         rbind (if (case entryPoint0 of None \<Rightarrow> True | Some ep \<Rightarrow> he_level element > he_level ep)
                then HnswGetEntryPoint (vs_index vs) else Inr entryPoint0) (\<lambda>entryPoint.
           let (elems, ep) = with_entry [element] entryPoint in
           rbind (RepairGraphElement vs elems 0 ep) (\<lambda>(vs1, elems1).
           rbind (nth_r elems1 0) (\<lambda>e.
           rbind (case ep of None \<Rightarrow> Inr True
                  | Some q \<Rightarrow> rbind (nth_r elems1 q) (\<lambda>ee. Inr (he_level e > he_level ee))) (\<lambda>upd.
             if upd then
               rbind (HnswUpdateMetaPage (vs_index vs1) UpdateGreater (Some e) InvalidBlockNumber) (\<lambda>index.
                 Inr (vs1\<lparr>vs_index := index\<rparr>))
             else Inr vs1))))))"

fun repair_elements :: "HnswElementData list \<Rightarrow> HnswVacuumState \<Rightarrow> HnswVacuumState result" where
  "repair_elements [] vs = Inr vs"
| "repair_elements (element # elements) vs = rbind (repair_element vs element) (repair_elements elements)"

definition repair_page :: "nat \<Rightarrow> HnswVacuumState \<Rightarrow> (nat \<times> HnswVacuumState) result" where
  "repair_page blkno vs =
     rbind (read_page (vs_index vs) blkno) (\<lambda>page.
     rbind (load_elements blkno FirstOffsetNumber (ip_items page)) (\<lambda>elements.
     rbind (repair_elements elements vs) (\<lambda>vs1. Inr (hp_nextblkno page, vs1))))"

definition RepairGraph :: "HnswVacuumState \<Rightarrow> HnswVacuumState result" where
  "RepairGraph vs =
     rbind (RepairGraphEntryPoint vs) (\<lambda>vs1.
       walk_pages (Suc (length (rel_blocks (vs_index vs1)))) repair_page HNSW_HEAD_BLKNO vs1)"

section \<open>Marking elements deleted\<close>

text \<open>\<open>version\<close> is one byte; the cycle leaves out 0.\<close>

definition next_version :: "nat \<Rightarrow> nat" where
  "next_version version = (let v = Suc version mod 256 in if v > 15 then 1 else v)"

definition clear_element :: "HnswElementTupleData \<Rightarrow> HnswElementTupleData" where
  "clear_element etup =
     etup\<lparr>et_deleted := 1, et_version := next_version (et_version etup),
       et_data := \<lparr>vl_len = 0, v_dim = 0, v_unused = 0, v_x = replicate (length (v_x (et_data etup))) 0\<rparr>\<rparr>"

definition clear_neighbors :: "HnswNeighborTupleData \<Rightarrow> nat \<Rightarrow> HnswNeighborTupleData" where
  "clear_neighbors ntup version =
     ntup\<lparr>nt_indextids := replicate (nt_count ntup) InvalidItemPointer @ drop (nt_count ntup) (nt_indextids ntup), nt_version := version\<rparr>"

text \<open>One item of page \<open>blkno\<close>; the state is the relation and the insert page found so far.\<close>

definition mark_item :: "nat \<Rightarrow> nat \<Rightarrow> Relation \<times> nat \<Rightarrow> (Relation \<times> nat) result" where
  "mark_item blkno offno s =
     (case s of (index, insertPage) \<Rightarrow>
       rbind (read_page index blkno) (\<lambda>page.
       rbind (page_tuple page offno) (\<lambda>t.
         case t of NeighborTup _ \<Rightarrow> Inr s
         | ElementTup etup \<Rightarrow>
             let insertPage' = (if insertPage = InvalidBlockNumber then blkno else insertPage) in
             if et_deleted etup \<noteq> 0 then Inr (index, insertPage')
             else rbind (nth_r (et_heaptids etup) 0) (\<lambda>first.
               if ItemPointerIsValid first then Inr s
               else
                 let nblk = ip_blkid (et_neighbortid etup); noff = ip_posid (et_neighbortid etup) in
                 rbind (read_page index nblk) (\<lambda>npage.
                 rbind (neighbor_tuple npage noff) (\<lambda>ntup.
                   if nt_count ntup > length (nt_indextids ntup) then Inl UndefinedBehaviour
                   else
                     let index1 = write_page index blkno (page\<lparr>ip_items := (ip_items page)[offno - 1 := ElementTup (clear_element etup)]\<rparr>) in
                     rbind (read_page index1 nblk) (\<lambda>npage1.
                       Inr (write_page index1 nblk (npage1\<lparr>ip_items := (ip_items npage1)[noff - 1 :=
                              NeighborTup (clear_neighbors ntup (et_version (clear_element etup)))]\<rparr>),
                            insertPage'))))))))"

fun mark_items :: "nat \<Rightarrow> nat list \<Rightarrow> Relation \<times> nat \<Rightarrow> (Relation \<times> nat) result" where
  "mark_items blkno [] s = Inr s"
| "mark_items blkno (offno # offs) s = rbind (mark_item blkno offno s) (mark_items blkno offs)"

definition mark_page :: "nat \<Rightarrow> Relation \<times> nat \<Rightarrow> (nat \<times> Relation \<times> nat) result" where
  "mark_page blkno s =
     rbind (read_page (fst s) blkno) (\<lambda>page.
     rbind (mark_items blkno [FirstOffsetNumber..<Suc (length (ip_items page))] s) (\<lambda>s1.
     rbind (read_page (fst s1) blkno) (\<lambda>page1. Inr (hp_nextblkno page1, s1))))"

definition MarkDeleted :: "HnswVacuumState \<Rightarrow> HnswVacuumState result" where
  "MarkDeleted vs =
     rbind (walk_pages (Suc (length (rel_blocks (vs_index vs)))) mark_page HNSW_HEAD_BLKNO (vs_index vs, InvalidBlockNumber))
       (\<lambda>(index, insertPage).
     rbind (HnswUpdateMetaPage index NoUpdate None insertPage) (\<lambda>index1. Inr (vs\<lparr>vs_index := index1\<rparr>)))"

section \<open>The entry points\<close>

definition InitVacuumState ::
    "Relation \<Rightarrow> HnswSupport \<Rightarrow> IndexBulkDeleteResult option \<Rightarrow> (ItemPointerData \<Rightarrow> bool) \<Rightarrow> HnswVacuumState result" where
  "InitVacuumState index support stats callback =
     rbind (HnswGetMetaPageInfo index) (\<lambda>(m, _).
       Inr \<lparr>vs_index = index,
            vs_stats = (case stats of Some s \<Rightarrow> s
              | None \<Rightarrow> \<lparr>num_pages = 0, estimated_count = False, num_index_tuples = 0, tuples_removed = 0, pages_newly_deleted = 0,
                  pages_deleted = 0, pages_free = 0\<rparr>),
            vs_callback = callback, vs_m = m, vs_efConstruction = HnswGetEfConstruction index, vs_support = support,
            vs_deleted = {}, vs_highestPoint = raw_element\<rparr>)"

text \<open>The result: the relation after the VACUUM and the counters.\<close>

definition hnswbulkdelete ::
    "Relation \<Rightarrow> HnswSupport \<Rightarrow> IndexBulkDeleteResult option \<Rightarrow> (ItemPointerData \<Rightarrow> bool) \<Rightarrow> (Relation \<times> IndexBulkDeleteResult) result" where
  "hnswbulkdelete index support stats callback =
     rbind (InitVacuumState index support stats callback) (\<lambda>vs0.
     rbind (RemoveHeapTids vs0) (\<lambda>vs1.
     rbind (RepairGraph vs1) (\<lambda>vs2.
     rbind (MarkDeleted vs2) (\<lambda>vs3. Inr (vs_index vs3, vs_stats vs3)))))"

definition hnswvacuumcleanup :: "Relation \<Rightarrow> bool \<Rightarrow> IndexBulkDeleteResult option \<Rightarrow> IndexBulkDeleteResult option" where
  "hnswvacuumcleanup rel analyze_only stats =
     (if analyze_only then stats
      else case stats of None \<Rightarrow> None | Some s \<Rightarrow> Some (s\<lparr>num_pages := length (rel_blocks rel)\<rparr>))"

section \<open>Walking the chain of pages\<close>

definition next_of :: "Relation \<Rightarrow> nat \<Rightarrow> nat option" where
  "next_of r b = (case read_page r b of Inr p \<Rightarrow> Some (hp_nextblkno p) | Inl _ \<Rightarrow> None)"

fun chain_from :: "nat \<Rightarrow> Relation \<Rightarrow> nat \<Rightarrow> nat list" where
  "chain_from 0 r b = []"
| "chain_from (Suc n) r b =
     (if b = InvalidBlockNumber then [] else b # (case next_of r b of Some c \<Rightarrow> chain_from n r c | None \<Rightarrow> []))"

definition page_chain :: "Relation \<Rightarrow> nat list" where
  "page_chain r = chain_from (Suc (length (rel_blocks r))) r HNSW_HEAD_BLKNO"

lemma next_of_page: "read_page r b = Inr p \<Longrightarrow> next_of r b = Some (hp_nextblkno p)"
  by (simp add: next_of_def)

lemma next_of_wf:
  assumes "rel_wf r" "next_of r b = Some n"
  shows "n = InvalidBlockNumber \<or> (b < n \<and> n < length (rel_blocks r))"
  using assms rel_wf_page(3) [OF assms(1), of b] by (auto simp: next_of_def next_ok_def split: sum.splits)

lemma chain_from_cong: "(\<And>b. next_of r b = next_of r' b) \<Longrightarrow> chain_from n r b = chain_from n r' b"
  by (induction n arbitrary: b) (simp_all split: option.splits)

text \<open>A pass keeps the relation well-formed and the links of its pages, and extends its invariant by the page it has
  handled; with the progress of every step it returns.\<close>

locale page_walk =
  fixes body :: "nat \<Rightarrow> 's \<Rightarrow> (nat \<times> 's) result" and rel :: "'s \<Rightarrow> Relation" and I :: "nat set \<Rightarrow> 's \<Rightarrow> bool"
  assumes step: "\<lbrakk>body b s = Inr (n, s'); I D s; rel_wf (rel s); D \<subseteq> {..<b}; b \<noteq> InvalidBlockNumber\<rbrakk> \<Longrightarrow>
    next_of (rel s) b = Some n \<and> I (insert b D) s' \<and> rel_wf (rel s') \<and> next_of (rel s') = next_of (rel s) \<and>
    length (rel_blocks (rel s')) = length (rel_blocks (rel s))"
begin

lemma walk_inv:
  "\<lbrakk>walk_pages fuel body b s = Inr s'; I D s; rel_wf (rel s); b = InvalidBlockNumber \<or> D \<subseteq> {..<b}\<rbrakk> \<Longrightarrow>
   I (D \<union> set (chain_from fuel (rel s) b)) s' \<and> rel_wf (rel s') \<and> next_of (rel s') = next_of (rel s) \<and>
   length (rel_blocks (rel s')) = length (rel_blocks (rel s))"
proof (induction fuel arbitrary: b s D)
  case (Suc fuel)
  show ?case
  proof (cases "b = InvalidBlockNumber")
    case True
    then show ?thesis using Suc.prems by simp
  next
    case False
    then obtain n s1 where s1: "body b s = Inr (n, s1)" "walk_pages fuel body n s1 = Inr s'"
      using Suc.prems(1) by (auto simp: rbind_InrE)
    have D: "D \<subseteq> {..<b}" using False Suc.prems(4) by simp
    note st = step [OF s1(1) Suc.prems(2,3) D False]
    have "n = InvalidBlockNumber \<or> b < n" using next_of_wf [OF Suc.prems(3)] st by blast
    then have "n = InvalidBlockNumber \<or> insert b D \<subseteq> {..<n}" using D by auto
    then have "I (insert b D \<union> set (chain_from fuel (rel s1) n)) s' \<and> rel_wf (rel s') \<and> next_of (rel s') = next_of (rel s1) \<and>
        length (rel_blocks (rel s')) = length (rel_blocks (rel s1))"
      using Suc.IH [OF s1(2)] st by blast
    moreover have "chain_from fuel (rel s1) n = chain_from fuel (rel s) n" by (rule chain_from_cong) (use st in simp)
    ultimately show ?thesis using st False by simp
  qed
qed simp

lemma pass_inv:
  assumes "walk_pages (Suc (length (rel_blocks (rel s)))) body HNSW_HEAD_BLKNO s = Inr s'" "I {} s" "rel_wf (rel s)"
  shows "I (set (page_chain (rel s))) s'" "rel_wf (rel s')" "next_of (rel s') = next_of (rel s)"
    "length (rel_blocks (rel s')) = length (rel_blocks (rel s))"
  using walk_inv [OF assms] by (simp_all add: page_chain_def)

end

locale page_walk_total = page_walk +
  assumes progress: "\<lbrakk>I D s; rel_wf (rel s); read_page (rel s) b = Inr p; D \<subseteq> {..<b}; b \<noteq> InvalidBlockNumber\<rbrakk> \<Longrightarrow>
    \<exists>n s'. body b s = Inr (n, s')"
begin

lemma walk_total:
  "\<lbrakk>I D s; rel_wf (rel s); b = InvalidBlockNumber \<or> (D \<subseteq> {..<b} \<and> 0 < b \<and> b < length (rel_blocks (rel s)));
    if b = InvalidBlockNumber then 0 < fuel else length (rel_blocks (rel s)) < b + fuel\<rbrakk> \<Longrightarrow>
   \<exists>s'. walk_pages fuel body b s = Inr s'"
proof (induction fuel arbitrary: b s D)
  case (Suc fuel)
  show ?case
  proof (cases "b = InvalidBlockNumber")
    case False
    then have b: "D \<subseteq> {..<b}" "0 < b" "b < length (rel_blocks (rel s))" using Suc.prems(3) by auto
    obtain p where p: "read_page (rel s) b = Inr p" using rel_wf_block [OF Suc.prems(2) b(2,3)] by blast
    obtain n s1 where s1: "body b s = Inr (n, s1)" using progress [OF Suc.prems(1,2) p b(1) False] by blast
    note st = step [OF s1 Suc.prems(1,2) b(1) False]
    have "n = InvalidBlockNumber \<or> (b < n \<and> n < length (rel_blocks (rel s)))" using next_of_wf [OF Suc.prems(2)] st by blast
    then have n: "n = InvalidBlockNumber \<or> (insert b D \<subseteq> {..<n} \<and> 0 < n \<and> n < length (rel_blocks (rel s1)))"
        "if n = InvalidBlockNumber then 0 < fuel else length (rel_blocks (rel s1)) < n + fuel"
      using b st Suc.prems(4) False by auto
    then obtain s' where "walk_pages fuel body n s1 = Inr s'" using Suc.IH [of "insert b D" s1 n] st by blast
    then show ?thesis using s1 False by simp
  qed simp
qed (simp split: if_splits)

lemma pass_total:
  assumes "I {} s" "rel_wf (rel s)" "1 < length (rel_blocks (rel s))"
  shows "\<exists>s'. walk_pages (Suc (length (rel_blocks (rel s)))) body HNSW_HEAD_BLKNO s = Inr s'"
  by (rule walk_total [OF assms(1,2)]) (use assms(3) in \<open>simp_all add: hnsw_const\<close>)

end

section \<open>Heap TIDs after the first pass\<close>

lemma compact_tids_spec:
  assumes "i + n \<le> length tids" "idx \<le> i" and v: "v = takeWhile ItemPointerIsValid (take n (drop i tids))"
  shows "\<exists>tids'. compact_tids cb n i idx tids upd stats = Inr (idx + length (filter (\<lambda>t. \<not> cb t) v), upd \<or> (\<exists>t\<in>set v. cb t), tids',
      stats\<lparr>num_index_tuples := num_index_tuples stats + length (filter (\<lambda>t. \<not> cb t) v), tuples_removed := tuples_removed stats + length (filter cb v)\<rparr>) \<and>
    length tids' = length tids \<and> take (idx + length (filter (\<lambda>t. \<not> cb t) v)) tids' = take idx tids @ filter (\<lambda>t. \<not> cb t) v \<and>
    (idx = i \<and> \<not> (\<exists>t\<in>set v. cb t) \<longrightarrow> tids' = tids)"
  using assms
proof (induction n arbitrary: i idx tids upd stats v)
  case (Suc n)
  have i: "i < length tids" using Suc.prems(1) by simp
  have d: "take (Suc n) (drop i tids) = tids ! i # take n (drop (Suc i) tids)" using i by (metis Cons_nth_drop_Suc take_Suc_Cons)
  let ?v = "takeWhile ItemPointerIsValid (take n (drop (Suc i) tids))"
  show ?case
  proof (cases "ItemPointerIsValid (tids ! i)")
    case False
    then show ?thesis using Suc.prems i d by simp
  next
    case val: True
    then have v: "v = tids ! i # ?v" using Suc.prems(3) d by simp
    show ?thesis
    proof (cases "cb (tids ! i)")
      case True
      then show ?thesis
        using Suc.IH [of "Suc i" tids idx ?v True "stats\<lparr>tuples_removed := tuples_removed stats + 1\<rparr>"] Suc.prems(1,2) i v val by auto
    next
      case False
      let ?t = "tids[idx := tids ! i]"
      have dr: "drop (Suc i) ?t = drop (Suc i) tids" using Suc.prems(2) by simp
      have tk: "take (Suc idx) ?t = take idx tids @ [tids ! i]" using Suc.prems(2) i by (simp add: take_Suc_conv_app_nth)
      have same: "idx = i \<Longrightarrow> ?t = tids" by simp
      obtain tids' where t: "compact_tids cb n (Suc i) (Suc idx) ?t upd (stats\<lparr>num_index_tuples := num_index_tuples stats + 1\<rparr>) =
          Inr (Suc idx + length (filter (\<lambda>t. \<not> cb t) ?v), upd \<or> (\<exists>t\<in>set ?v. cb t), tids',
            stats\<lparr>num_index_tuples := num_index_tuples stats + 1 + length (filter (\<lambda>t. \<not> cb t) ?v), tuples_removed := tuples_removed stats + length (filter cb ?v)\<rparr>)"
          "length tids' = length tids" "take (Suc idx + length (filter (\<lambda>t. \<not> cb t) ?v)) tids' = take (Suc idx) ?t @ filter (\<lambda>t. \<not> cb t) ?v"
          "idx = i \<and> \<not> (\<exists>t\<in>set ?v. cb t) \<longrightarrow> tids' = ?t"
        using Suc.IH [of "Suc i" ?t "Suc idx" ?v upd "stats\<lparr>num_index_tuples := num_index_tuples stats + 1\<rparr>"] Suc.prems(1,2) dr by auto
      have e: "compact_tids cb (Suc n) i idx tids upd stats = compact_tids cb n (Suc i) (Suc idx) ?t upd (stats\<lparr>num_index_tuples := num_index_tuples stats + 1\<rparr>)"
        using val False i by simp
      show ?thesis unfolding e using t False v tk same by simp
    qed
  qed
qed simp

text \<open>What the first pass does to a tuple: the heap TIDs the callback selects are gone, the others stay in order.\<close>

definition trim_tids :: "(ItemPointerData \<Rightarrow> bool) \<Rightarrow> HnswElementTupleData \<Rightarrow> HnswElementTupleData" where
  "trim_tids cb et =
     (if \<exists>t\<in>set (tup_tids et). cb t
      then et\<lparr>et_heaptids := filter (\<lambda>t. \<not> cb t) (tup_tids et) @
             replicate (HNSW_HEAPTIDS - length (filter (\<lambda>t. \<not> cb t) (tup_tids et))) InvalidItemPointer\<rparr>
      else et)"

fun trim :: "(ItemPointerData \<Rightarrow> bool) \<Rightarrow> HnswTuple \<Rightarrow> HnswTuple" where
  "trim cb (ElementTup et) = ElementTup (trim_tids cb et)"
| "trim cb (NeighborTup n) = NeighborTup n"

definition tids_of :: "HnswTuple \<Rightarrow> ItemPointerData list" where
  "tids_of t = (case t of ElementTup et \<Rightarrow> tup_tids et | NeighborTup _ \<Rightarrow> [])"

definition empty_tuple :: "HnswTuple \<Rightarrow> bool" where
  "empty_tuple t = (case t of ElementTup et \<Rightarrow> tup_tids et = [] | NeighborTup _ \<Rightarrow> False)"

definition ten_tids :: "HnswTuple \<Rightarrow> bool" where
  "ten_tids t = (case t of ElementTup et \<Rightarrow> length (et_heaptids et) = HNSW_HEAPTIDS | NeighborTup _ \<Rightarrow> True)"

lemma tup_tids_valid: "t \<in> set (tup_tids et) \<Longrightarrow> ItemPointerIsValid t"
  unfolding tup_tids_def using set_takeWhileD by fastforce

lemma tup_tids_le: "length (tup_tids et) \<le> HNSW_HEAPTIDS"
  unfolding tup_tids_def by (rule le_trans [OF length_takeWhile_le]) simp

lemma tup_tids_pad:
  assumes "\<forall>t\<in>set ts. ItemPointerIsValid t" "length ts \<le> HNSW_HEAPTIDS"
  shows "tup_tids (et\<lparr>et_heaptids := ts @ replicate (HNSW_HEAPTIDS - length ts) InvalidItemPointer\<rparr>) = ts"
proof -
  have "takeWhile ItemPointerIsValid (replicate k InvalidItemPointer) = []" for k by (cases k) simp_all
  then show ?thesis using assms by (simp add: tup_tids_def takeWhile_append2)
qed

lemma filter_tids_le: "length (filter P (tup_tids et)) \<le> HNSW_HEAPTIDS"
  by (rule le_trans [OF length_filter_le tup_tids_le])

lemma tup_tids_trim [simp]: "tup_tids (trim_tids cb et) = filter (\<lambda>t. \<not> cb t) (tup_tids et)"
proof (cases "\<exists>t\<in>set (tup_tids et). cb t")
  case True
  have "tup_tids (et\<lparr>et_heaptids := filter (\<lambda>t. \<not> cb t) (tup_tids et) @
      replicate (HNSW_HEAPTIDS - length (filter (\<lambda>t. \<not> cb t) (tup_tids et))) InvalidItemPointer\<rparr>) = filter (\<lambda>t. \<not> cb t) (tup_tids et)"
    by (rule tup_tids_pad) (auto dest: tup_tids_valid intro: filter_tids_le)
  then show ?thesis using True by (simp add: trim_tids_def)
next
  case False
  then have "filter (\<lambda>t. \<not> cb t) (tup_tids et) = tup_tids et" by (simp add: filter_id_conv)
  then show ?thesis using False by (simp add: trim_tids_def)
qed

lemma trim_tids_fields [simp]:
  "et_level (trim_tids cb et) = et_level et" "et_deleted (trim_tids cb et) = et_deleted et" "et_version (trim_tids cb et) = et_version et"
  "et_neighbortid (trim_tids cb et) = et_neighbortid et" "et_data (trim_tids cb et) = et_data et" "et_datalen (trim_tids cb et) = et_datalen et"
  by (simp_all add: trim_tids_def)

lemma trim_tids_length: "length (et_heaptids et) = HNSW_HEAPTIDS \<Longrightarrow> length (et_heaptids (trim_tids cb et)) = HNSW_HEAPTIDS"
  using filter_tids_le [of "\<lambda>t. \<not> cb t" et] by (auto simp: trim_tids_def)

lemma tup_tids_first:
  assumes "length (et_heaptids et) = HNSW_HEAPTIDS"
  shows "nth_r (et_heaptids et) 0 = Inr (et_heaptids et ! 0)" "ItemPointerIsValid (et_heaptids et ! 0) \<longleftrightarrow> tup_tids et \<noteq> []"
proof -
  obtain t ts where "et_heaptids et = t # ts" using assms by (cases "et_heaptids et") (simp_all add: hnsw_const)
  then show "nth_r (et_heaptids et) 0 = Inr (et_heaptids et ! 0)" "ItemPointerIsValid (et_heaptids et ! 0) \<longleftrightarrow> tup_tids et \<noteq> []"
    by (simp_all add: tup_tids_def hnsw_const)
qed

lemma remove_heaptids_spec:
  assumes l: "length (et_heaptids et) = HNSW_HEAPTIDS"
  shows "remove_heaptids cb et stats = Inr (trim_tids cb et, \<exists>t\<in>set (tup_tids et). cb t,
      stats\<lparr>num_index_tuples := num_index_tuples stats + length (filter (\<lambda>t. \<not> cb t) (tup_tids et)),
        tuples_removed := tuples_removed stats + length (filter cb (tup_tids et))\<rparr>)"
proof (cases "tup_tids et = []")
  case True
  then show ?thesis using tup_tids_first [OF l] by (simp add: remove_heaptids_def trim_tids_def)
next
  case False
  have v: "tup_tids et = takeWhile ItemPointerIsValid (take HNSW_HEAPTIDS (drop 0 (et_heaptids et)))" by (simp add: tup_tids_def)
  obtain tids' where t: "compact_tids cb HNSW_HEAPTIDS 0 0 (et_heaptids et) False stats =
      Inr (length (filter (\<lambda>t. \<not> cb t) (tup_tids et)), \<exists>t\<in>set (tup_tids et). cb t, tids',
        stats\<lparr>num_index_tuples := num_index_tuples stats + length (filter (\<lambda>t. \<not> cb t) (tup_tids et)),
          tuples_removed := tuples_removed stats + length (filter cb (tup_tids et))\<rparr>)"
      "length tids' = HNSW_HEAPTIDS" "take (length (filter (\<lambda>t. \<not> cb t) (tup_tids et))) tids' = filter (\<lambda>t. \<not> cb t) (tup_tids et)"
      "\<not> (\<exists>t\<in>set (tup_tids et). cb t) \<longrightarrow> tids' = et_heaptids et"
    using compact_tids_spec [OF _ _ v, of 0 cb False stats] l by auto
  show ?thesis using tup_tids_first [OF l] False t by (simp add: remove_heaptids_def trim_tids_def)
qed

text \<open>Positions of the items of a page with a property.\<close>

definition offs :: "nat \<Rightarrow> nat \<Rightarrow> (HnswTuple \<Rightarrow> bool) \<Rightarrow> HnswTuple list \<Rightarrow> ItemPointerData set" where
  "offs b off P ts = {ItemPointerSet b (off + j) | j. j < length ts \<and> P (ts ! j)}"

lemma offs_Cons: "offs b off P (t # ts) = (if P t then {ItemPointerSet b off} else {}) \<union> offs b (Suc off) P ts"
proof -
  have im: "offs b off P ts = (\<lambda>j. ItemPointerSet b (off + j)) ` {j. j < length ts \<and> P (ts ! j)}" for off ts by (auto simp: offs_def)
  have "{j. j < length (t # ts) \<and> P ((t # ts) ! j)} = (if P t then {0} else {}) \<union> Suc ` {j. j < length ts \<and> P (ts ! j)}"
    by (auto simp: less_Suc_eq_0_disj)
  then show ?thesis by (simp add: im image_Un image_image del: length_Cons)
qed

lemma offs_Nil [simp]: "offs b off P [] = {}"
  by (simp add: offs_def)

lemma ItemPointerSet_inj [simp]: "ItemPointerSet b x = ItemPointerSet c y \<longleftrightarrow> b = c \<and> x = y"
  by (simp add: ItemPointerSet_def)

definition counted :: "(ItemPointerData \<Rightarrow> bool) \<Rightarrow> HnswTuple list \<Rightarrow> IndexBulkDeleteResult \<Rightarrow> IndexBulkDeleteResult" where
  "counted cb ts stats = stats\<lparr>num_index_tuples := num_index_tuples stats + length (filter (\<lambda>t. \<not> cb t) (concat (map tids_of ts))),
     tuples_removed := tuples_removed stats + length (filter cb (concat (map tids_of ts)))\<rparr>"

definition high_tid :: "HnswElementData \<Rightarrow> ItemPointerData" where
  "high_tid e = ItemPointerSet (he_blkno e) (he_offno e)"

text \<open>How the highest point moves over elements with heap TIDs at the positions \<open>L\<close>: it becomes one of them, other than the entry point, or it
  stays; while no point has been found, only the entry point is passed over.\<close>

definition at_entry :: "HnswElementData option \<Rightarrow> ItemPointerData \<Rightarrow> bool" where
  "at_entry ep ip \<longleftrightarrow> (case ep of None \<Rightarrow> False | Some e \<Rightarrow> ip = high_tid e)"

definition moved :: "HnswElementData option \<Rightarrow> ItemPointerData set \<Rightarrow> HnswElementData \<times> int \<Rightarrow> HnswElementData \<times> int \<Rightarrow> bool" where
  "moved ep L h h' \<longleftrightarrow> h' = h \<and> (snd h = -1 \<longrightarrow> (\<forall>ip\<in>L. at_entry ep ip)) \<or>
     high_tid (fst h') \<in> L \<and> \<not> at_entry ep (high_tid (fst h')) \<and> snd h' \<noteq> -1"

lemma moved_trans: "moved ep L h h1 \<Longrightarrow> moved ep L1 h1 h2 \<Longrightarrow> moved ep (L \<union> L1) h h2"
  unfolding moved_def by auto

abbreviation has_tids :: "HnswTuple \<Rightarrow> bool" where
  "has_tids t \<equiv> tids_of t \<noteq> []"

lemma remove_item_spec:
  assumes "ten_tids t" "ItemPointerSet b off \<notin> vs_deleted vs" "cb = vs_callback vs"
  shows "\<exists>hp hl' upd'. remove_item ep b off t (vs, hl, upd) = Inr (trim cb t, vs\<lparr>vs_stats := counted cb [t] (vs_stats vs),
      vs_deleted := vs_deleted vs \<union> offs b off empty_tuple [trim cb t], vs_highestPoint := hp\<rparr>, hl', upd') \<and>
    (upd \<longrightarrow> upd') \<and> (\<not> upd' \<longrightarrow> trim cb t = t) \<and>
    moved ep (offs b off has_tids [trim cb t]) (vs_highestPoint vs, hl) (hp, hl')"
proof (cases t)
  case (NeighborTup n)
  then show ?thesis
    by (intro exI [of _ "vs_highestPoint vs"] exI [of _ hl] exI [of _ upd]) (simp add: remove_item_def offs_Cons empty_tuple_def counted_def tids_of_def moved_def)
next
  case (ElementTup et)
  then have l: "length (et_heaptids et) = HNSW_HEAPTIDS" using assms(1) by (simp add: ten_tids_def)
  note r = remove_heaptids_spec [OF l, of cb "vs_stats vs"] and cb = assms(3) [symmetric]
  note f = tup_tids_first [OF trim_tids_length [OF l, of cb]]
  have nt: "\<not> (\<exists>t\<in>set (tup_tids et). cb t) \<Longrightarrow> trim_tids cb et = et" by (simp add: trim_tids_def)
  have c: "counted cb [t] (vs_stats vs) = (vs_stats vs)\<lparr>num_index_tuples := num_index_tuples (vs_stats vs) + length (filter (\<lambda>t. \<not> cb t) (tup_tids et)),
        tuples_removed := tuples_removed (vs_stats vs) + length (filter cb (tup_tids et))\<rparr>"
    by (simp add: counted_def tids_of_def ElementTup)
  have e: "remove_item ep b off t (vs, hl, upd) =
      (let vs1 = vs\<lparr>vs_stats := counted cb [t] (vs_stats vs)\<rparr>; u = (upd \<or> (\<exists>t\<in>set (tup_tids et). cb t)) in
       if tup_tids (trim_tids cb et) = [] then Inr (trim cb t, vs1\<lparr>vs_deleted := insert (ItemPointerSet b off) (vs_deleted vs)\<rparr>, hl, u)
       else if int (et_level et) > hl \<and> \<not> (case ep of None \<Rightarrow> False | Some ep \<Rightarrow> b = he_blkno ep \<and> off = he_offno ep)
         then Inr (trim cb t, vs1\<lparr>vs_highestPoint := (vs_highestPoint vs)\<lparr>he_blkno := b, he_offno := off, he_level := et_level et\<rparr>\<rparr>, int (et_level et), u)
       else Inr (trim cb t, vs1, hl, u))"
    unfolding remove_item_def using r f assms(2) by (simp add: cb ElementTup c [unfolded ElementTup] Let_def)
  show ?thesis
  proof (cases "tup_tids (trim_tids cb et) = []")
    case True
    then show ?thesis unfolding e using nt
      by (intro exI [of _ "vs_highestPoint vs"]) (auto simp: Let_def ElementTup offs_Cons empty_tuple_def tids_of_def moved_def)
  next
    case False
    show ?thesis
    proof (cases "int (et_level et) > hl \<and> \<not> (case ep of None \<Rightarrow> False | Some ep \<Rightarrow> b = he_blkno ep \<and> off = he_offno ep)")
      case True
      have m: "\<not> at_entry ep (ItemPointerSet b off)" using True by (auto simp: at_entry_def high_tid_def split: option.splits)
      show ?thesis unfolding e if_not_P [OF False] if_P [OF True] Let_def using nt False m
        by (intro exI [of _ "(vs_highestPoint vs)\<lparr>he_blkno := b, he_offno := off, he_level := et_level et\<rparr>"])
          (auto simp: ElementTup offs_Cons empty_tuple_def tids_of_def high_tid_def moved_def)
    next
      case no: False
      have m: "hl = -1 \<longrightarrow> at_entry ep (ItemPointerSet b off)" using no by (auto simp: at_entry_def high_tid_def split: option.splits)
      show ?thesis unfolding e if_not_P [OF False] if_not_P [OF no] Let_def using nt False m
        by (intro exI [of _ "vs_highestPoint vs"]) (auto simp: ElementTup offs_Cons empty_tuple_def tids_of_def moved_def)
    qed
  qed
qed

lemma counted_Cons: "counted cb ts (counted cb [t] stats) = counted cb (t # ts) stats"
  by (simp add: counted_def)

lemma remove_items_spec:
  assumes "\<forall>t\<in>set ts. ten_tids t" "\<forall>j\<ge>off. ItemPointerSet b j \<notin> vs_deleted vs" "cb = vs_callback vs"
  shows "\<exists>hp hl' upd'. remove_items ep b off ts (vs, hl, upd) = Inr (map (trim cb) ts, vs\<lparr>vs_stats := counted cb ts (vs_stats vs),
      vs_deleted := vs_deleted vs \<union> offs b off empty_tuple (map (trim cb) ts), vs_highestPoint := hp\<rparr>, hl', upd') \<and>
    (upd \<longrightarrow> upd') \<and> (\<not> upd' \<longrightarrow> map (trim cb) ts = ts) \<and>
    moved ep (offs b off has_tids (map (trim cb) ts)) (vs_highestPoint vs, hl) (hp, hl')"
  using assms
proof (induction ts arbitrary: off vs hl upd)
  case Nil
  show ?case by (intro exI [of _ "vs_highestPoint vs"] exI [of _ hl] exI [of _ upd]) (simp add: counted_def moved_def)
next
  case (Cons t ts)
  obtain hp1 hl1 upd1 where t: "remove_item ep b off t (vs, hl, upd) = Inr (trim cb t, vs\<lparr>vs_stats := counted cb [t] (vs_stats vs),
      vs_deleted := vs_deleted vs \<union> offs b off empty_tuple [trim cb t], vs_highestPoint := hp1\<rparr>, hl1, upd1)"
    "upd \<longrightarrow> upd1" "\<not> upd1 \<longrightarrow> trim cb t = t"
    "moved ep (offs b off has_tids [trim cb t]) (vs_highestPoint vs, hl) (hp1, hl1)"
    using remove_item_spec [of t b off vs cb ep hl upd] Cons.prems by auto
  define vs1 where "vs1 = vs\<lparr>vs_stats := counted cb [t] (vs_stats vs), vs_deleted := vs_deleted vs \<union> offs b off empty_tuple [trim cb t], vs_highestPoint := hp1\<rparr>"
  have v1: "vs_stats vs1 = counted cb [t] (vs_stats vs)" "vs_highestPoint vs1 = hp1" "cb = vs_callback vs1"
      "vs_deleted vs1 = vs_deleted vs \<union> offs b off empty_tuple [trim cb t]" using Cons.prems(3) by (simp_all add: vs1_def)
  have "\<forall>j\<ge>Suc off. ItemPointerSet b j \<notin> vs_deleted vs1" using Cons.prems(2) by (auto simp: v1 offs_Cons)
  then obtain hp hl' upd' where r: "remove_items ep b (Suc off) ts (vs1, hl1, upd1) = Inr (map (trim cb) ts, vs1\<lparr>vs_stats := counted cb ts (vs_stats vs1),
      vs_deleted := vs_deleted vs1 \<union> offs b (Suc off) empty_tuple (map (trim cb) ts), vs_highestPoint := hp\<rparr>, hl', upd')"
    "upd1 \<longrightarrow> upd'" "\<not> upd' \<longrightarrow> map (trim cb) ts = ts"
    "moved ep (offs b (Suc off) has_tids (map (trim cb) ts)) (hp1, hl1) (hp, hl')"
    using Cons.IH [of "Suc off" vs1 hl1 upd1] Cons.prems(1) v1 by auto
  have d: "offs b off P [x] \<union> offs b (Suc off) P xs = offs b off P (x # xs)" for P x xs by (simp add: offs_Cons)
  have h: "moved ep (offs b off has_tids (map (trim cb) (t # ts))) (vs_highestPoint vs, hl) (hp, hl')"
    using moved_trans [OF t(4) r(4)] d [of has_tids "trim cb t" "map (trim cb) ts"] by simp
  have e: "remove_items ep b off (t # ts) (vs, hl, upd) = Inr (map (trim cb) (t # ts), vs\<lparr>vs_stats := counted cb (t # ts) (vs_stats vs),
      vs_deleted := vs_deleted vs \<union> offs b off empty_tuple (map (trim cb) (t # ts)), vs_highestPoint := hp\<rparr>, hl', upd')"
    using t(1) [folded vs1_def] r(1) d [of empty_tuple "trim cb t" "map (trim cb) ts"]
    by (simp add: v1 counted_Cons Un_assoc) (simp add: vs1_def)
  have u: "upd \<longrightarrow> upd'" "\<not> upd' \<longrightarrow> map (trim cb) (t # ts) = t # ts" using t(2,3) r(2,3) by auto
  show ?case by (intro exI [of _ hp] exI [of _ hl'] exI [of _ upd'] conjI; fact e u h)
qed

text \<open>Replacing the items of a page by their trimmed versions.\<close>

lemma trim_size [simp]: "tuple_size (trim cb t) = tuple_size t"
  by (cases t) (simp_all add: tuple_size_def)

lemma page_tuple_map: "page_tuple (p\<lparr>ip_items := map f (ip_items p)\<rparr>) off = map_sum id f (page_tuple p off)"
  by (simp add: page_tuple_def ip_get_def nth_r_def)

lemma trim_page:
  fixes cb :: "ItemPointerData \<Rightarrow> bool"
  assumes wf: "rel_wf r" and p: "read_page r b = Inr p"
  defines "r' \<equiv> write_page r b (p\<lparr>ip_items := map (trim cb) (ip_items p)\<rparr>)"
  shows "tup_at r' c off = (if c = b then map_sum id (trim cb) (tup_at r c off) else tup_at r c off)" "rel_wf r'"
    "next_of r' = next_of r" "read_page r' c = (if c = b then Inr (p\<lparr>ip_items := map (trim cb) (ip_items p)\<rparr>) else read_page r c)"
    "read_meta r' = read_meta r"
proof -
  note l = read_page_bounds [OF p] and w = rel_wf_page [OF wf p]
  show rd: "read_page r' c = (if c = b then Inr (p\<lparr>ip_items := map (trim cb) (ip_items p)\<rparr>) else read_page r c)" for c
    unfolding r'_def by (rule read_write_page [OF l])
  show tup: "tup_at r' c off = (if c = b then map_sum id (trim cb) (tup_at r c off) else tup_at r c off)" for c off
    using p by (simp add: tup_at_def rd page_tuple_map)
  show "next_of r' = next_of r" using p by (auto simp: next_of_def rd fun_eq_iff)
  show "read_meta r' = read_meta r" unfolding r'_def by (rule read_meta_write_page [OF w(1)])
  have "hp_ok (p\<lparr>ip_items := map (trim cb) (ip_items p)\<rparr>)" using w(2) by (simp add: hp_ok_def comp_def)
  moreover have "deleted_ok r'"
    unfolding deleted_ok_def
  proof (intro allI impI)
    fix c off et assume t: "tup_at r' c off = Inr (ElementTup et)" and d: "et_deleted et \<noteq> 0"
    obtain et0 where t0: "tup_at r c off = Inr (ElementTup et0)" "et_neighbortid et = et_neighbortid et0" "et_deleted et = et_deleted et0"
    proof (cases "c = b")
      case True
      obtain x where x: "tup_at r c off = Inr x" "trim cb x = ElementTup et"
        using t True by (cases "tup_at r c off") (auto simp: tup)
      then show thesis using that by (cases x) auto
    qed (use t that in \<open>auto simp: tup\<close>)
    then obtain n where "tup_at r (ip_blkid (et_neighbortid et)) (ip_posid (et_neighbortid et)) = Inr (NeighborTup n)"
      using wf d unfolding rel_wf_def deleted_ok_def by metis
    then show "\<exists>n. tup_at r' (ip_blkid (et_neighbortid et)) (ip_posid (et_neighbortid et)) = Inr (NeighborTup n)" by (auto simp: tup)
  qed
  ultimately show "rel_wf r'" unfolding r'_def by (intro rel_wf_write [OF wf p]) (use w(3) in \<open>simp_all add: next_ok_def\<close>)
qed

definition tup_in :: "Relation \<Rightarrow> (HnswTuple \<Rightarrow> bool) \<Rightarrow> ItemPointerData \<Rightarrow> bool" where
  "tup_in r P ip \<longleftrightarrow> (\<exists>t. tup_at r (ip_blkid ip) (ip_posid ip) = Inr t \<and> P t)"

lemma offs_page: "read_page r b = Inr p \<Longrightarrow> offs b FirstOffsetNumber P (ip_items p) = {ip. ip_blkid ip = b \<and> tup_in r P ip}"
proof -
  assume p: "read_page r b = Inr p"
  have "tup_in r P ip \<longleftrightarrow> (\<exists>j. ip_posid ip = Suc j \<and> j < length (ip_items p) \<and> P (ip_items p ! j))" if "ip_blkid ip = b" for ip
    using p that by (cases "ip_posid ip") (auto simp: tup_in_def tup_at_def page_tuple_def ip_get_def nth_r_def)
  then have "ip \<in> offs b FirstOffsetNumber P (ip_items p) \<longleftrightarrow> ip_blkid ip = b \<and> tup_in r P ip" for ip
    by (auto simp: offs_def FirstOffsetNumber_def ItemPointerSet_def) (cases ip, auto)
  then show ?thesis by auto
qed

definition page_tids :: "Relation \<Rightarrow> nat \<Rightarrow> ItemPointerData list" where
  "page_tids r b = (case read_page r b of Inr p \<Rightarrow> concat (map tids_of (ip_items p)) | Inl _ \<Rightarrow> [])"

definition stats_after :: "(ItemPointerData \<Rightarrow> bool) \<Rightarrow> Relation \<Rightarrow> nat set \<Rightarrow> IndexBulkDeleteResult \<Rightarrow> IndexBulkDeleteResult" where
  "stats_after cb r D stats =
     stats\<lparr>num_index_tuples := num_index_tuples stats + (\<Sum>b\<in>D. length (filter (\<lambda>t. \<not> cb t) (page_tids r b))),
       tuples_removed := tuples_removed stats + (\<Sum>b\<in>D. length (filter cb (page_tids r b)))\<rparr>"

text \<open>The state of the pass after the pages \<open>D\<close>: they are trimmed, their empty elements are the deleted ones, and the highest point is an
  element of theirs with heap TIDs other than the entry point; it is missing only when no other element of theirs has heap TIDs.\<close>

definition high_ok :: "HnswElementData option \<Rightarrow> Relation \<Rightarrow> nat set \<Rightarrow> HnswElementData \<times> int \<Rightarrow> bool" where
  "high_ok ep r D h \<longleftrightarrow>
     he_blkno (fst h) = InvalidBlockNumber \<and> snd h = -1 \<and> (\<forall>ip. ip_blkid ip \<in> D \<longrightarrow> tup_in r has_tids ip \<longrightarrow> at_entry ep ip) \<or>
     he_blkno (fst h) \<in> D \<and> tup_in r has_tids (high_tid (fst h)) \<and> \<not> at_entry ep (high_tid (fst h))"

definition remove_inv :: "HnswElementData option \<Rightarrow> HnswVacuumState \<Rightarrow> nat set \<Rightarrow> HnswVacuumState \<times> int \<Rightarrow> bool" where
  "remove_inv ep vs0 D s \<longleftrightarrow>
     (\<forall>b off t. tup_at (vs_index vs0) b off = Inr t \<longrightarrow> ten_tids t) \<and>
     (\<forall>b off. tup_at (vs_index (fst s)) b off =
        (if b \<in> D then map_sum id (trim (vs_callback vs0)) (tup_at (vs_index vs0) b off) else tup_at (vs_index vs0) b off)) \<and>
     (\<forall>b. b \<notin> D \<longrightarrow> read_page (vs_index (fst s)) b = read_page (vs_index vs0) b) \<and>
     read_meta (vs_index (fst s)) = read_meta (vs_index vs0) \<and> rel_options (vs_index (fst s)) = rel_options (vs_index vs0) \<and>
     fst s = vs0\<lparr>vs_index := vs_index (fst s), vs_stats := stats_after (vs_callback vs0) (vs_index vs0) D (vs_stats vs0),
       vs_deleted := {ip. ip_blkid ip \<in> D \<and> tup_in (vs_index (fst s)) empty_tuple ip}, vs_highestPoint := vs_highestPoint (fst s)\<rparr> \<and>
     high_ok ep (vs_index (fst s)) D (vs_highestPoint (fst s), snd s)"

lemma high_tid_sel [simp]: "ip_blkid (high_tid e) = he_blkno e" "ip_posid (high_tid e) = he_offno e"
  by (simp_all add: high_tid_def)

lemma stats_after_insert:
  assumes "finite D" "b \<notin> D" "read_page r b = Inr p"
  shows "counted cb (ip_items p) (stats_after cb r D stats) = stats_after cb r (insert b D) stats"
  using assms by (simp add: counted_def stats_after_def page_tids_def)

lemma write_page_options [simp]: "rel_options (write_page r b p) = rel_options r"
  by (simp add: write_page_def)

lemma page_items_at: "read_page r b = Inr p \<Longrightarrow> t \<in> set (ip_items p) \<Longrightarrow> \<exists>off. tup_at r b off = Inr t"
proof -
  assume p: "read_page r b = Inr p" and "t \<in> set (ip_items p)"
  then obtain i where "i < length (ip_items p)" "t = ip_items p ! i" by (auto simp: in_set_conv_nth)
  then have "tup_at r b (Suc i) = Inr t" using p by (simp add: tup_at_def page_tuple_def ip_get_def)
  then show ?thesis by blast
qed

lemma high_ok_moved:
  assumes "high_ok ep r D h" "moved ep {ip. ip_blkid ip = b \<and> tup_in r' has_tids ip} h h'"
    and "\<And>ip. ip_blkid ip \<in> D \<Longrightarrow> tup_in r' has_tids ip \<longleftrightarrow> tup_in r has_tids ip"
  shows "high_ok ep r' (insert b D) h'"
  using assms(2) unfolding moved_def
proof
  assume "h' = h \<and> (snd h = -1 \<longrightarrow> (\<forall>ip\<in>{ip. ip_blkid ip = b \<and> tup_in r' has_tids ip}. at_entry ep ip))"
  then show ?thesis using assms(1,3) by (auto simp: high_ok_def)
qed (auto simp: high_ok_def)

lemma remove_page_ok:
  assumes I: "remove_inv ep vs0 D s" and wf: "rel_wf (vs_index (fst s))" and p: "read_page (vs_index (fst s)) b = Inr p"
    and D: "D \<subseteq> {..<b}"
  shows "\<exists>s'. remove_page ep b s = Inr (hp_nextblkno p, s') \<and> remove_inv ep vs0 (insert b D) s' \<and> rel_wf (vs_index (fst s')) \<and>
    next_of (vs_index (fst s')) = next_of (vs_index (fst s)) \<and> length (rel_blocks (vs_index (fst s'))) = length (rel_blocks (vs_index (fst s)))"
proof -
  obtain vs hl where s: "s = (vs, hl)" by (cases s)
  note inv = I [unfolded remove_inv_def s fst_conv]
  let ?cb = "vs_callback vs0" and ?ro = "vs_index vs0" and ?r = "vs_index vs" and ?hp = "vs_highestPoint vs"
  have p': "read_page ?r b = Inr p" and wf': "rel_wf ?r" using p wf s by simp_all
  have bD: "b \<notin> D" and fin: "finite D" using D finite_subset by auto
  have p0: "read_page ?ro b = Inr p" using inv bD p' by auto
  note q = inv [THEN conjunct2, THEN conjunct2, THEN conjunct2, THEN conjunct2, THEN conjunct2, THEN conjunct1]
  have eqs: "vs_callback vs = ?cb" "vs_stats vs = stats_after ?cb ?ro D (vs_stats vs0)"
      "vs_deleted vs = {ip. ip_blkid ip \<in> D \<and> tup_in ?r empty_tuple ip}"
    using arg_cong [OF q, of vs_callback] arg_cong [OF q, of vs_stats] arg_cong [OF q, of vs_deleted] by simp_all
  have ten: "\<forall>t\<in>set (ip_items p). ten_tids t" using inv page_items_at [OF p0] by blast
  have nd: "\<forall>j\<ge>FirstOffsetNumber. ItemPointerSet b j \<notin> vs_deleted vs" using bD by (simp add: eqs)
  obtain hp hl' upd' where r: "remove_items ep b FirstOffsetNumber (ip_items p) (vs, hl, False) = Inr (map (trim ?cb) (ip_items p),
      vs\<lparr>vs_stats := counted ?cb (ip_items p) (vs_stats vs), vs_deleted := vs_deleted vs \<union> offs b FirstOffsetNumber empty_tuple (map (trim ?cb) (ip_items p)),
        vs_highestPoint := hp\<rparr>, hl', upd')"
    "\<not> upd' \<longrightarrow> map (trim ?cb) (ip_items p) = ip_items p"
    "moved ep (offs b FirstOffsetNumber has_tids (map (trim ?cb) (ip_items p))) (?hp, hl) (hp, hl')"
    using remove_items_spec [OF ten nd eqs(1) [symmetric], of ep hl False] by blast
  let ?p = "p\<lparr>ip_items := map (trim ?cb) (ip_items p)\<rparr>"
  define r' where "r' = write_page ?r b ?p"
  note t = trim_page [OF wf' p', of ?cb, folded r'_def]
  have same: "\<not> upd' \<Longrightarrow> r' = ?r"
  proof -
    assume "\<not> upd'"
    then have "?p = p" using r(2) by simp
    moreover have "rel_blocks ?r ! b = GraphBlock p" using p' by (auto simp: read_page_def split: if_splits block.splits)
    ultimately show "r' = ?r" by (simp add: r'_def write_page_def list_update_same_conv [THEN iffD2] read_page_bounds [OF p'])
  qed
  define vs' where "vs' = vs0\<lparr>vs_index := r', vs_stats := stats_after ?cb ?ro (insert b D) (vs_stats vs0),
      vs_deleted := {ip. ip_blkid ip \<in> insert b D \<and> tup_in r' empty_tuple ip}, vs_highestPoint := hp\<rparr>"
  have of: "offs b FirstOffsetNumber P (map (trim ?cb) (ip_items p)) = {ip. ip_blkid ip = b \<and> tup_in r' P ip}" for P
    using offs_page [of r' b ?p P] t(4) by simp
  have keep: "tup_in r' P ip \<longleftrightarrow> tup_in ?r P ip" if "ip_blkid ip \<in> D" for P ip
    using that bD t(1) by (auto simp: tup_in_def)
  have del: "vs_deleted vs \<union> offs b FirstOffsetNumber empty_tuple (map (trim ?cb) (ip_items p)) = {ip. ip_blkid ip \<in> insert b D \<and> tup_in r' empty_tuple ip}"
    unfolding of eqs using keep by auto
  have vs: "vs\<lparr>vs_index := r', vs_stats := counted ?cb (ip_items p) (vs_stats vs),
      vs_deleted := vs_deleted vs \<union> offs b FirstOffsetNumber empty_tuple (map (trim ?cb) (ip_items p)), vs_highestPoint := hp\<rparr> = vs'"
  proof -
    have "vs = vs0\<lparr>vs_index := ?r, vs_stats := vs_stats vs, vs_deleted := vs_deleted vs, vs_highestPoint := ?hp\<rparr>"
      unfolding eqs by (rule q)
    then show ?thesis unfolding vs'_def del [symmetric] stats_after_insert [OF fin bD p0, symmetric] eqs(2) [symmetric] by (cases vs, cases vs0) simp
  qed
  have e: "remove_page ep b s = Inr (hp_nextblkno p, vs', hl')"
    using p r(1) same unfolding vs [symmetric] r'_def by (cases upd') (simp_all add: remove_page_def s)
  have "high_ok ep r' (insert b D) (hp, hl')" by (rule high_ok_moved [OF _ r(3) [unfolded of]]) (use inv keep in auto)
  moreover have "tup_at r' c off = (if c \<in> insert b D then map_sum id (trim ?cb) (tup_at ?ro c off) else tup_at ?ro c off)" for c off
    using inv t(1) [of c off] bD by auto
  moreover have "\<forall>c. c \<notin> insert b D \<longrightarrow> read_page r' c = read_page ?ro c" using inv t(4) by auto
  moreover have "rel_options r' = rel_options ?ro" "read_meta r' = read_meta ?ro" using inv t(5) by (simp_all add: r'_def)
  ultimately have "remove_inv ep vs0 (insert b D) (vs', hl')" using inv by (simp add: remove_inv_def vs'_def)
  then show ?thesis using e t(2,3) s by (simp add: vs'_def r'_def)
qed

interpretation removing: page_walk_total "remove_page ep" "\<lambda>s. vs_index (fst s)" "remove_inv ep vs0" for ep vs0
proof
  fix b s n s' D
  assume a: "remove_page ep b s = Inr (n, s')" and i: "remove_inv ep vs0 D s" "rel_wf (vs_index (fst s))" "D \<subseteq> {..<b}"
  obtain p where p: "read_page (vs_index (fst s)) b = Inr p" using a by (auto simp: remove_page_def rbind_InrE)
  show "next_of (vs_index (fst s)) b = Some n \<and> remove_inv ep vs0 (insert b D) s' \<and> rel_wf (vs_index (fst s')) \<and>
      next_of (vs_index (fst s')) = next_of (vs_index (fst s)) \<and> length (rel_blocks (vs_index (fst s'))) = length (rel_blocks (vs_index (fst s)))"
    using remove_page_ok [OF i(1,2) p i(3)] a next_of_page [OF p] by auto
next
  fix D s b p
  assume i: "remove_inv ep vs0 D s" "rel_wf (vs_index (fst s))" "read_page (vs_index (fst s)) b = Inr p" "D \<subseteq> {..<b}"
  show "\<exists>n s'. remove_page ep b s = Inr (n, s')" using remove_page_ok [OF i] by blast
qed

lemma remove_invD:
  assumes "remove_inv ep vs0 C (vs, hl)"
  shows "tup_at (vs_index vs) b off = (if b \<in> C then map_sum id (trim (vs_callback vs0)) (tup_at (vs_index vs0) b off) else tup_at (vs_index vs0) b off)"
    "read_meta (vs_index vs) = read_meta (vs_index vs0)"
    "vs_deleted vs = {ip. ip_blkid ip \<in> C \<and> tup_in (vs_index vs) empty_tuple ip}"
    "vs_stats vs = stats_after (vs_callback vs0) (vs_index vs0) C (vs_stats vs0)"
    "he_blkno (vs_highestPoint vs) = InvalidBlockNumber \<or> tup_in (vs_index vs) has_tids (high_tid (vs_highestPoint vs))"
    "high_ok ep (vs_index vs) C (vs_highestPoint vs, hl)"
    "vs_m vs = vs_m vs0" "vs_support vs = vs_support vs0"
proof -
  note i = assms [unfolded remove_inv_def fst_conv]
  note q = i [THEN conjunct2, THEN conjunct2, THEN conjunct2, THEN conjunct2, THEN conjunct2, THEN conjunct1]
  show "tup_at (vs_index vs) b off = (if b \<in> C then map_sum id (trim (vs_callback vs0)) (tup_at (vs_index vs0) b off) else tup_at (vs_index vs0) b off)"
    "read_meta (vs_index vs) = read_meta (vs_index vs0)"
    using i by blast+
  show h: "high_ok ep (vs_index vs) C (vs_highestPoint vs, hl)" using i by simp
  then show "he_blkno (vs_highestPoint vs) = InvalidBlockNumber \<or> tup_in (vs_index vs) has_tids (high_tid (vs_highestPoint vs))" by (auto simp: high_ok_def)
  show "vs_deleted vs = {ip. ip_blkid ip \<in> C \<and> tup_in (vs_index vs) empty_tuple ip}"
    "vs_stats vs = stats_after (vs_callback vs0) (vs_index vs0) C (vs_stats vs0)" "vs_m vs = vs_m vs0" "vs_support vs = vs_support vs0"
    using arg_cong [OF q, of vs_deleted] arg_cong [OF q, of vs_stats] arg_cong [OF q, of vs_m] arg_cong [OF q, of vs_support] by simp_all
qed

lemma HnswGetEntryPoint_meta: "read_meta r = read_meta r' \<Longrightarrow> HnswGetEntryPoint r = HnswGetEntryPoint r'"
  by (simp add: HnswGetEntryPoint_def HnswGetMetaPageInfo_def)

lemma RemoveHeapTids_inv:
  assumes "rel_wf (vs_index vs)" "1 < length (rel_blocks (vs_index vs))" "\<forall>b off t. tup_at (vs_index vs) b off = Inr t \<longrightarrow> ten_tids t"
    and "vs_deleted vs = {}" "HnswGetEntryPoint (vs_index vs) = Inr ep"
  shows "\<exists>vs' hl vs0. RemoveHeapTids vs = Inr vs' \<and> rel_wf (vs_index vs') \<and> next_of (vs_index vs') = next_of (vs_index vs) \<and>
    length (rel_blocks (vs_index vs')) = length (rel_blocks (vs_index vs)) \<and> vs0 = vs\<lparr>vs_highestPoint := vs_highestPoint vs0\<rparr> \<and>
    remove_inv ep vs0 (set (page_chain (vs_index vs))) (vs', hl)"
proof -
  define vs0 where "vs0 = vs\<lparr>vs_highestPoint := (vs_highestPoint vs)\<lparr>he_blkno := InvalidBlockNumber, he_offno := InvalidOffsetNumber\<rparr>\<rparr>"
  have f: "vs_index vs0 = vs_index vs" "vs_deleted vs0 = {}" "he_blkno (vs_highestPoint vs0) = InvalidBlockNumber"
    using assms(4) by (simp_all add: vs0_def)
  have "vs0 = vs0\<lparr>vs_deleted := {}\<rparr>" using f(2) by (cases vs0) simp
  then have i: "remove_inv ep vs0 {} (vs0, -1)" using assms(3) f by (simp add: remove_inv_def stats_after_def high_ok_def)
  let ?w = "walk_pages (Suc (length (rel_blocks (vs_index vs)))) (remove_page ep) HNSW_HEAD_BLKNO (vs0, -1)"
  obtain vs' hl where w: "?w = Inr (vs', hl)"
    using removing.pass_total [OF i] assms(1,2) f(1) by auto
  note r = removing.pass_inv [OF _ i, of "(vs', hl)", simplified f(1) fst_conv, OF w assms(1)]
  have "RemoveHeapTids vs = Inr vs'" unfolding RemoveHeapTids_def Let_def vs0_def [symmetric] using assms(5) w by simp
  moreover have "vs0 = vs\<lparr>vs_highestPoint := vs_highestPoint vs0\<rparr>" by (simp add: vs0_def)
  ultimately show ?thesis using r by blast
qed

section \<open>Marking the empty elements\<close>

text \<open>An index in which every element tuple has its array of heap TIDs and a neighbour tuple of its own, of the same version.\<close>

definition linked :: "Relation \<Rightarrow> bool" where
  "linked r \<longleftrightarrow>
     (\<forall>b off et. tup_at r b off = Inr (ElementTup et) \<longrightarrow> length (et_heaptids et) = HNSW_HEAPTIDS \<and>
        (\<exists>n. tup_at r (ip_blkid (et_neighbortid et)) (ip_posid (et_neighbortid et)) = Inr (NeighborTup n) \<and>
           nt_count n = length (nt_indextids n) \<and> nt_version n = et_version et)) \<and>
     (\<forall>b off et b' off' et'. tup_at r b off = Inr (ElementTup et) \<longrightarrow> tup_at r b' off' = Inr (ElementTup et') \<longrightarrow>
        et_neighbortid et = et_neighbortid et' \<longrightarrow> b = b' \<and> off = off')"

abbreviation nbr_at :: "Relation \<Rightarrow> HnswElementTupleData \<Rightarrow> HnswTuple result" where
  "nbr_at r et \<equiv> tup_at r (ip_blkid (et_neighbortid et)) (ip_posid (et_neighbortid et))"

definition to_mark :: "HnswElementTupleData \<Rightarrow> bool" where
  "to_mark et \<longleftrightarrow> et_deleted et = 0 \<and> tup_tids et = []"

text \<open>The relation \<open>r\<close> after the positions \<open>X\<close> of \<open>r0\<close> have been handled.\<close>

definition marked :: "Relation \<Rightarrow> (nat \<times> nat) set \<Rightarrow> Relation \<Rightarrow> bool" where
  "marked r0 X r \<longleftrightarrow>
     (\<forall>b off et n. (b, off) \<in> X \<longrightarrow> tup_at r0 b off = Inr (ElementTup et) \<longrightarrow> to_mark et \<longrightarrow> nbr_at r0 et = Inr (NeighborTup n) \<longrightarrow>
        tup_at r b off = Inr (ElementTup (clear_element et)) \<and>
        nbr_at r et = Inr (NeighborTup (clear_neighbors n (next_version (et_version et))))) \<and>
     (\<forall>b off. (\<forall>b' off' et. (b', off') \<in> X \<longrightarrow> tup_at r0 b' off' = Inr (ElementTup et) \<longrightarrow> to_mark et \<longrightarrow>
          (b, off) \<noteq> (b', off') \<and> ItemPointerSet b off \<noteq> et_neighbortid et) \<longrightarrow>
        tup_at r b off = tup_at r0 b off)"

lemma markedD:
  assumes "marked r0 X r" "(b, off) \<in> X" "tup_at r0 b off = Inr (ElementTup et)" "to_mark et" "nbr_at r0 et = Inr (NeighborTup n)"
  shows "tup_at r b off = Inr (ElementTup (clear_element et))"
    "nbr_at r et = Inr (NeighborTup (clear_neighbors n (next_version (et_version et))))"
  using assms unfolding marked_def by blast+

lemma marked_other:
  assumes "marked r0 X r"
    and "\<And>b' off' et. (b', off') \<in> X \<Longrightarrow> tup_at r0 b' off' = Inr (ElementTup et) \<Longrightarrow> to_mark et \<Longrightarrow>
          (b, off) \<noteq> (b', off') \<and> ItemPointerSet b off \<noteq> et_neighbortid et"
  shows "tup_at r b off = tup_at r0 b off"
  using assms unfolding marked_def by blast

lemma linkedD:
  assumes "linked r" "tup_at r b off = Inr (ElementTup et)"
  obtains n where "nbr_at r et = Inr (NeighborTup n)" "nt_count n = length (nt_indextids n)" "nt_version n = et_version et"
    "length (et_heaptids et) = HNSW_HEAPTIDS"
  using assms unfolding linked_def by blast

lemma linked_inj:
  assumes "linked r" "tup_at r b off = Inr (ElementTup et)" "tup_at r b' off' = Inr (ElementTup et')" "et_neighbortid et = et_neighbortid et'"
  shows "b = b' \<and> off = off'"
  using assms unfolding linked_def by blast

lemma linked_nbr_position:
  assumes "linked r" "tup_at r b off = Inr (ElementTup et)" "tup_at r c o' = Inr (ElementTup et')"
  shows "ItemPointerSet c o' \<noteq> et_neighbortid et"
proof
  assume e: "ItemPointerSet c o' = et_neighbortid et"
  obtain n where "nbr_at r et = Inr (NeighborTup n)" using linkedD [OF assms(1,2)] by blast
  then show False using assms(3) by (simp add: e [symmetric])
qed

text \<open>An element not handled yet is still what it was, and so is its neighbour tuple.\<close>

lemma marked_fresh:
  assumes m: "marked r0 X r" and l: "linked r0" and t: "tup_at r0 b off = Inr (ElementTup et)" and x: "(b, off) \<notin> X"
  shows "tup_at r b off = Inr (ElementTup et)" "nbr_at r et = nbr_at r0 et"
proof -
  show "tup_at r b off = Inr (ElementTup et)"
    unfolding t [symmetric] by (rule marked_other [OF m]) (use x linked_nbr_position [OF l _ t] in blast)
  show "nbr_at r et = nbr_at r0 et"
  proof (rule marked_other [OF m])
    fix b' off' et' assume a: "(b', off') \<in> X" "tup_at r0 b' off' = Inr (ElementTup et')"
    have "et_neighbortid et \<noteq> et_neighbortid et'" using linked_inj [OF l t a(2)] a(1) x by blast
    moreover obtain n where "nbr_at r0 et = Inr (NeighborTup n)" using linkedD [OF l t] by blast
    ultimately show "(ip_blkid (et_neighbortid et), ip_posid (et_neighbortid et)) \<noteq> (b', off') \<and>
        ItemPointerSet (ip_blkid (et_neighbortid et)) (ip_posid (et_neighbortid et)) \<noteq> et_neighbortid et'"
      using a(2) by (auto simp: ItemPointer_collapse)
  qed
qed

lemma marked_neighbor:
  assumes m: "marked r0 X r" and l: "linked r0" and t: "tup_at r0 b off = Inr (NeighborTup n)"
  shows "\<exists>n'. tup_at r b off = Inr (NeighborTup n')"
proof (cases "\<exists>b' off' et. (b', off') \<in> X \<and> tup_at r0 b' off' = Inr (ElementTup et) \<and> to_mark et \<and> ItemPointerSet b off = et_neighbortid et")
  case True
  then obtain b' off' et where e: "(b', off') \<in> X" "tup_at r0 b' off' = Inr (ElementTup et)" "to_mark et" "ItemPointerSet b off = et_neighbortid et"
    by blast
  obtain k where "nbr_at r0 et = Inr (NeighborTup k)" using linkedD [OF l e(2)] by blast
  then show ?thesis using markedD(2) [OF m e(1-3)] by (simp add: e(4) [symmetric])
next
  case False
  then have "tup_at r b off = tup_at r0 b off" using t by (intro marked_other [OF m]) auto
  then show ?thesis using t by simp
qed

lemma marked_cong:
  assumes m: "marked r0 X r" and e: "\<And>b off et. tup_at r0 b off = Inr (ElementTup et) \<Longrightarrow> to_mark et \<Longrightarrow> (b, off) \<in> Y \<longleftrightarrow> (b, off) \<in> X"
  shows "marked r0 Y r"
  unfolding marked_def
proof (intro conjI allI impI)
  fix b off et n assume a: "(b, off) \<in> Y" "tup_at r0 b off = Inr (ElementTup et)" "to_mark et" "nbr_at r0 et = Inr (NeighborTup n)"
  then have "(b, off) \<in> X" using e by blast
  from markedD [OF m this a(2-4)] show "tup_at r b off = Inr (ElementTup (clear_element et))"
    "nbr_at r et = Inr (NeighborTup (clear_neighbors n (next_version (et_version et))))" .
next
  fix b off assume a: "\<forall>b' off' et. (b', off') \<in> Y \<longrightarrow> tup_at r0 b' off' = Inr (ElementTup et) \<longrightarrow> to_mark et \<longrightarrow>
      (b, off) \<noteq> (b', off') \<and> ItemPointerSet b off \<noteq> et_neighbortid et"
  show "tup_at r b off = tup_at r0 b off"
  proof (rule marked_other [OF m])
    fix b' off' et assume x: "(b', off') \<in> X" "tup_at r0 b' off' = Inr (ElementTup et)" "to_mark et"
    then have "(b', off') \<in> Y" using e by blast
    then show "(b, off) \<noteq> (b', off') \<and> ItemPointerSet b off \<noteq> et_neighbortid et" using a x by blast
  qed
qed

lemma clear_sizes [simp]:
  "tuple_size (ElementTup (clear_element et)) = tuple_size (ElementTup et)"
  "nt_count n \<le> length (nt_indextids n) \<Longrightarrow> tuple_size (NeighborTup (clear_neighbors n v)) = tuple_size (NeighborTup n)"
  by (simp_all add: tuple_size_def clear_element_def clear_neighbors_def)

lemma clear_element_fields [simp]:
  "et_deleted (clear_element et) = 1" "et_neighbortid (clear_element et) = et_neighbortid et" "et_heaptids (clear_element et) = et_heaptids et"
  "et_version (clear_element et) = next_version (et_version et)" "tup_tids (clear_element et) = tup_tids et"
  by (simp_all add: clear_element_def tup_tids_def)

text \<open>Clearing one element and its neighbour tuple.\<close>

lemma clear_pair:
  assumes wf: "rel_wf r" and t: "tup_at r b off = Inr (ElementTup et)" and n: "nbr_at r et = Inr (NeighborTup n)" "nt_count n \<le> length (nt_indextids n)"
    and d: "to_mark et" and h: "length (et_heaptids et) = HNSW_HEAPTIDS"
  shows "\<exists>r'. mark_item b off (r, ip) = Inr (r', if ip = InvalidBlockNumber then b else ip) \<and> rel_wf r' \<and> next_of r' = next_of r \<and>
    length (rel_blocks r') = length (rel_blocks r) \<and> read_meta r' = read_meta r \<and> rel_options r' = rel_options r \<and>
    (\<forall>c o'. tup_at r' c o' = (if c = b \<and> o' = off then Inr (ElementTup (clear_element et))
       else if ItemPointerSet c o' = et_neighbortid et then Inr (NeighborTup (clear_neighbors n (next_version (et_version et)))) else tup_at r c o'))"
proof -
  let ?nb = "ip_blkid (et_neighbortid et)" and ?no = "ip_posid (et_neighbortid et)"
  obtain p where p: "read_page r b = Inr p" "page_tuple p off = Inr (ElementTup et)" using t by (auto simp: tup_at_def rbind_InrE)
  obtain q where q: "read_page r ?nb = Inr q" "page_tuple q ?no = Inr (NeighborTup n)" using n(1) by (auto simp: tup_at_def rbind_InrE)
  define r1 where "r1 = set_tuple r b p off (ElementTup (clear_element et))"
  have ro: "replace_ok r (ElementTup et) (ElementTup (clear_element et))" using n(1) by (simp add: replace_ok_def)
  have r1: "rel_wf r1" "\<And>c o'. tup_at r1 c o' = (if c = b \<and> o' = off then Inr (ElementTup (clear_element et)) else tup_at r c o')"
    unfolding r1_def by (rule set_tuple_spec [OF wf p _ ro]; simp)+
  have ne: "\<not> (?nb = b \<and> ?no = off)" using t n(1) by auto
  have "tup_at r1 ?nb ?no = Inr (NeighborTup n)" using r1(2) n(1) ne by simp
  then obtain q1 where q1: "read_page r1 ?nb = Inr q1" "page_tuple q1 ?no = Inr (NeighborTup n)" by (auto simp: tup_at_def rbind_InrE)
  define r2 where "r2 = set_tuple r1 ?nb q1 ?no (NeighborTup (clear_neighbors n (next_version (et_version et))))"
  have r2: "rel_wf r2" "\<And>c o'. tup_at r2 c o' = (if c = ?nb \<and> o' = ?no then Inr (NeighborTup (clear_neighbors n (next_version (et_version et)))) else tup_at r1 c o')"
    unfolding r2_def by (rule set_tuple_spec [OF r1(1) q1]; simp add: n(2) replace_ok_def)+
  have e: "mark_item b off (r, ip) = Inr (r2, if ip = InvalidBlockNumber then b else ip)"
    using p q q1 d n(2) h tup_tids_first [OF h] neighbor_tuple_at [THEN iffD2, OF q(2)]
    by (simp add: mark_item_def Let_def to_mark_def r1_def r2_def set_tuple_def)
  have rd: "read_page r1 c = (if c = b then Inr (p\<lparr>ip_items := (ip_items p)[off - 1 := ElementTup (clear_element et)]\<rparr>) else read_page r c)" for c
    unfolding r1_def set_tuple_def by (rule read_write_page [OF read_page_bounds [OF p(1)]])
  have rd2: "read_page r2 c = (if c = ?nb then Inr (q1\<lparr>ip_items := (ip_items q1)[?no - 1 := NeighborTup (clear_neighbors n (next_version (et_version et)))]\<rparr>) else read_page r1 c)" for c
    unfolding r2_def set_tuple_def by (rule read_write_page [OF read_page_bounds [OF q1(1)]])
  have nx: "next_of r1 = next_of r" "next_of r2 = next_of r1" using p q1 by (auto simp: next_of_def rd rd2 fun_eq_iff)
  have mt: "read_meta r2 = read_meta r1" "read_meta r1 = read_meta r"
    unfolding r1_def r2_def set_tuple_def using rel_wf_page(1) [OF wf p(1)] rel_wf_page(1) [OF wf q(1)] by (simp_all add: read_meta_write_page)
  have pos: "(c = ?nb \<and> o' = ?no) = (ItemPointerSet c o' = et_neighbortid et)" for c o'
    using ItemPointer_collapse [of "et_neighbortid et"] by (metis ItemPointerSet_inj)
  have "tup_at r2 c o' = (if c = b \<and> o' = off then Inr (ElementTup (clear_element et))
       else if ItemPointerSet c o' = et_neighbortid et then Inr (NeighborTup (clear_neighbors n (next_version (et_version et)))) else tup_at r c o')" for c o'
    unfolding r2(2) r1(2) pos [symmetric] using ne by auto
  moreover have "length (rel_blocks r2) = length (rel_blocks r)" "rel_options r2 = rel_options r" by (simp_all add: r1_def r2_def set_tuple_def)
  ultimately show ?thesis using e r2(1) nx mt by auto
qed

lemma marked_clear:
  assumes m: "marked r0 X r" and l: "linked r0" and t: "tup_at r0 b off = Inr (ElementTup et)" and x: "(b, off) \<notin> X" and mk: "to_mark et"
    and n: "nbr_at r0 et = Inr (NeighborTup n)"
    and r': "\<forall>c o'. tup_at r' c o' = (if c = b \<and> o' = off then Inr (ElementTup (clear_element et))
       else if ItemPointerSet c o' = et_neighbortid et then Inr (NeighborTup (clear_neighbors n (next_version (et_version et)))) else tup_at r c o')"
  shows "marked r0 (insert (b, off) X) r'"
  unfolding marked_def
proof (intro conjI allI impI)
  fix c o' et' n'
  assume a: "(c, o') \<in> insert (b, off) X" "tup_at r0 c o' = Inr (ElementTup et')" "to_mark et'" "nbr_at r0 et' = Inr (NeighborTup n')"
  have nb: "\<not> (ip_blkid (et_neighbortid et') = b \<and> ip_posid (et_neighbortid et') = off)" using a(4) t by auto
  have same: "tup_at r' c o' = Inr (ElementTup (clear_element et')) \<and>
      nbr_at r' et' = Inr (NeighborTup (clear_neighbors n' (next_version (et_version et'))))" if "(c, o') = (b, off)"
    using that a t n nb r' by (auto simp: ItemPointer_collapse)
  have other: "tup_at r' c o' = Inr (ElementTup (clear_element et')) \<and>
      nbr_at r' et' = Inr (NeighborTup (clear_neighbors n' (next_version (et_version et'))))" if ne: "(c, o') \<noteq> (b, off)"
  proof -
    have X: "(c, o') \<in> X" using a(1) ne by blast
    note old = markedD [OF m X a(2-4)]
    have "et_neighbortid et' \<noteq> et_neighbortid et" using linked_inj [OF l a(2) t] ne by blast
    moreover have "ItemPointerSet c o' \<noteq> et_neighbortid et" by (rule linked_nbr_position [OF l t a(2)])
    ultimately show ?thesis using old ne nb r' by (auto simp: ItemPointer_collapse)
  qed
  show "tup_at r' c o' = Inr (ElementTup (clear_element et'))"
    "nbr_at r' et' = Inr (NeighborTup (clear_neighbors n' (next_version (et_version et'))))"
    using same other by blast+
next
  fix c o' assume a: "\<forall>b' off' et'. (b', off') \<in> insert (b, off) X \<longrightarrow> tup_at r0 b' off' = Inr (ElementTup et') \<longrightarrow> to_mark et' \<longrightarrow>
      (c, o') \<noteq> (b', off') \<and> ItemPointerSet c o' \<noteq> et_neighbortid et'"
  have "tup_at r c o' = tup_at r0 c o'" by (rule marked_other [OF m]) (use a in blast)
  moreover have "(c, o') \<noteq> (b, off) \<and> ItemPointerSet c o' \<noteq> et_neighbortid et" using a t mk by blast
  ultimately show "tup_at r' c o' = tup_at r0 c o'" using r' by auto
qed

text \<open>The insert page found so far: the first page with a deleted element.\<close>

definition del_at :: "Relation \<Rightarrow> nat \<times> nat \<Rightarrow> bool" where
  "del_at r x \<longleftrightarrow> (\<exists>et. tup_at r (fst x) (snd x) = Inr (ElementTup et) \<and> et_deleted et \<noteq> 0)"

definition insert_page_ok :: "Relation \<Rightarrow> (nat \<times> nat) set \<Rightarrow> nat \<Rightarrow> bool" where
  "insert_page_ok r X ip \<longleftrightarrow>
     (if ip = InvalidBlockNumber then \<forall>x\<in>X. \<not> del_at r x
      else (\<exists>off. (ip, off) \<in> X \<and> del_at r (ip, off)) \<and> (\<forall>x\<in>X. del_at r x \<longrightarrow> ip \<le> fst x))"

lemma insert_page_skip: "insert_page_ok r X ip \<Longrightarrow> \<not> del_at r x \<Longrightarrow> insert_page_ok r (insert x X) ip"
  by (auto simp: insert_page_ok_def)

lemma insert_page_add:
  assumes "insert_page_ok r X ip" "\<forall>x\<in>X. fst x \<le> b" "b \<noteq> InvalidBlockNumber"
    and "\<And>x. x \<in> insert (b, off) X \<Longrightarrow> del_at r' x \<longleftrightarrow> x = (b, off) \<or> del_at r x"
  shows "insert_page_ok r' (insert (b, off) X) (if ip = InvalidBlockNumber then b else ip)"
proof (cases "ip = InvalidBlockNumber")
  case True
  then have "\<forall>x\<in>X. \<not> del_at r x" using assms(1) by (simp add: insert_page_ok_def)
  then show ?thesis using True assms(3,4) by (auto simp: insert_page_ok_def)
next
  case False
  then obtain o1 where o1: "(ip, o1) \<in> X" "del_at r (ip, o1)" and le: "\<forall>x\<in>X. del_at r x \<longrightarrow> ip \<le> fst x"
    using assms(1) by (auto simp: insert_page_ok_def)
  have "ip \<le> b" using bspec [OF assms(2) o1(1)] by simp
  then have "ip \<le> fst x" if "x \<in> insert (b, off) X" "del_at r' x" for x
    using assms(4) [OF that(1)] that le by (cases "x = (b, off)") auto
  moreover have "del_at r' (ip, o1)" using assms(4) [of "(ip, o1)"] o1 by blast
  ultimately show ?thesis using False o1(1) unfolding insert_page_ok_def by (simp only: if_False) blast
qed

definition mark_inv :: "Relation \<Rightarrow> (nat \<times> nat) set \<Rightarrow> Relation \<times> nat \<Rightarrow> bool" where
  "mark_inv r0 X s \<longleftrightarrow> linked r0 \<and> marked r0 X (fst s) \<and> insert_page_ok (fst s) X (snd s) \<and>
     read_meta (fst s) = read_meta r0 \<and> rel_options (fst s) = rel_options r0"

definition same_pages :: "Relation \<Rightarrow> Relation \<Rightarrow> bool" where
  "same_pages r r' \<longleftrightarrow> next_of r' = next_of r \<and> length (rel_blocks r') = length (rel_blocks r)"

lemma mark_item_ok:
  assumes I: "mark_inv r0 X s" and wf: "rel_wf (fst s)" and x: "(b, off) \<notin> X" and t: "tup_at r0 b off = Inr t"
    and le: "\<forall>x\<in>X. fst x \<le> b" and b: "b \<noteq> InvalidBlockNumber"
  shows "\<exists>s'. mark_item b off s = Inr s' \<and> mark_inv r0 (insert (b, off) X) s' \<and> rel_wf (fst s') \<and> same_pages (fst s) (fst s')"
proof -
  obtain r ip where s: "s = (r, ip)" by (cases s)
  have l: "linked r0" and m: "marked r0 X r" and ipo: "insert_page_ok r X ip" and mt: "read_meta r = read_meta r0" "rel_options r = rel_options r0"
    using I s by (simp_all add: mark_inv_def)
  have refl: "same_pages r r" by (simp add: same_pages_def)
  have at: "tup_at r c o' = Inr t' \<Longrightarrow> \<exists>p. read_page r c = Inr p \<and> page_tuple p o' = Inr t'" for c o' t'
    by (auto simp: tup_at_def rbind_InrE)
  show ?thesis
  proof (cases t)
    case (NeighborTup n)
    then obtain n' where n': "tup_at r b off = Inr (NeighborTup n')" using marked_neighbor [OF m l] t by blast
    then have "mark_item b off s = Inr s" using at s by (fastforce simp: mark_item_def)
    moreover have "marked r0 (insert (b, off) X) r" by (rule marked_cong [OF m]) (use t NeighborTup in auto)
    moreover have "insert_page_ok r (insert (b, off) X) ip" using n' by (intro insert_page_skip [OF ipo]) (simp add: del_at_def)
    ultimately show ?thesis using s l mt wf refl by (auto simp: mark_inv_def)
  next
    case (ElementTup et)
    note t = t [unfolded ElementTup]
    note f = marked_fresh [OF m l t x]
    obtain n where n: "nbr_at r0 et = Inr (NeighborTup n)" "nt_count n = length (nt_indextids n)" "length (et_heaptids et) = HNSW_HEAPTIDS"
      using linkedD [OF l t] by blast
    obtain p where p: "read_page r b = Inr p" "page_tuple p off = Inr (ElementTup et)" using at [OF f(1)] by blast
    show ?thesis
    proof (cases "to_mark et")
      case True
      obtain r' where r': "mark_item b off (r, ip) = Inr (r', if ip = InvalidBlockNumber then b else ip)" "rel_wf r'" "same_pages r r'"
          "read_meta r' = read_meta r" "rel_options r' = rel_options r"
          "\<forall>c o'. tup_at r' c o' = (if c = b \<and> o' = off then Inr (ElementTup (clear_element et))
             else if ItemPointerSet c o' = et_neighbortid et then Inr (NeighborTup (clear_neighbors n (next_version (et_version et)))) else tup_at r c o')"
        using clear_pair [OF wf [unfolded s fst_conv] f(1) _ _ True n(3), of n ip] f(2) n unfolding same_pages_def by auto
      have "marked r0 (insert (b, off) X) r'" by (rule marked_clear [OF m l t x True n(1) r'(6)])
      moreover have "del_at r' y \<longleftrightarrow> y = (b, off) \<or> del_at r y" for y
      proof -
        have "ItemPointerSet (fst y) (snd y) = et_neighbortid et \<Longrightarrow> tup_at r (fst y) (snd y) = Inr (NeighborTup n)"
          using f(2) n(1) by (metis ItemPointerSet_sel)
        then show ?thesis using r'(6) by (cases y) (auto simp: del_at_def)
      qed
      then have "insert_page_ok r' (insert (b, off) X) (if ip = InvalidBlockNumber then b else ip)"
        by (intro insert_page_add [OF ipo le b]) blast
      ultimately show ?thesis using r' s l mt by (simp add: mark_inv_def)
    next
      case False
      have m': "marked r0 (insert (b, off) X) r" by (rule marked_cong [OF m]) (use t False in auto)
      show ?thesis
      proof (cases "et_deleted et = 0")
        case True
        then have "mark_item b off s = Inr s" using s p False n(3) tup_tids_first [OF n(3)] by (simp add: mark_item_def to_mark_def Let_def)
        moreover have "insert_page_ok r (insert (b, off) X) ip" using f(1) True by (intro insert_page_skip [OF ipo]) (simp add: del_at_def)
        ultimately show ?thesis using m' s l mt wf refl by (auto simp: mark_inv_def)
      next
        case d: False
        then have "mark_item b off s = Inr (r, if ip = InvalidBlockNumber then b else ip)" using s p by (simp add: mark_item_def Let_def)
        moreover have "insert_page_ok r (insert (b, off) X) (if ip = InvalidBlockNumber then b else ip)"
          using f(1) d by (intro insert_page_add [OF ipo le b]) (auto simp: del_at_def)
        ultimately show ?thesis using m' s l mt wf refl by (auto simp: mark_inv_def)
      qed
    qed
  qed
qed

lemma same_pages_trans: "same_pages a b \<Longrightarrow> same_pages b c \<Longrightarrow> same_pages a c"
  by (simp add: same_pages_def)

lemma mark_items_ok:
  "\<lbrakk>mark_inv r0 X s; rel_wf (fst s); \<forall>off\<in>set os. (b, off) \<notin> X \<and> (\<exists>t. tup_at r0 b off = Inr t); distinct os; \<forall>x\<in>X. fst x \<le> b;
    b \<noteq> InvalidBlockNumber\<rbrakk> \<Longrightarrow>
   \<exists>s'. mark_items b os s = Inr s' \<and> mark_inv r0 (X \<union> Pair b ` set os) s' \<and> rel_wf (fst s') \<and> same_pages (fst s) (fst s')"
proof (induction os arbitrary: X s)
  case Nil
  then show ?case by (simp add: same_pages_def)
next
  case (Cons off os)
  obtain t where t: "(b, off) \<notin> X" "tup_at r0 b off = Inr t" using Cons.prems(3) by auto
  obtain s1 where s1: "mark_item b off s = Inr s1" "mark_inv r0 (insert (b, off) X) s1" "rel_wf (fst s1)" "same_pages (fst s) (fst s1)"
    using mark_item_ok [OF Cons.prems(1,2) t Cons.prems(5,6)] by blast
  have "\<forall>o'\<in>set os. (b, o') \<notin> insert (b, off) X \<and> (\<exists>t. tup_at r0 b o' = Inr t)" using Cons.prems(3,4) by auto
  then obtain s' where "mark_items b os s1 = Inr s'" "mark_inv r0 (insert (b, off) X \<union> Pair b ` set os) s'" "rel_wf (fst s')" "same_pages (fst s1) (fst s')"
    using Cons.IH [OF s1(2,3)] Cons.prems(4-6) by auto
  then show ?case using s1 same_pages_trans by auto
qed

lemma marked_dom:
  assumes m: "marked r0 X r" and l: "linked r0"
  shows "(\<exists>t. tup_at r b off = Inr t) \<longleftrightarrow> (\<exists>t. tup_at r0 b off = Inr t)"
proof (cases "tup_at r0 b off")
  case (Inl e)
  have "tup_at r b off = tup_at r0 b off"
  proof (rule marked_other [OF m])
    fix b' off' et assume a: "tup_at r0 b' off' = Inr (ElementTup et)"
    obtain n where "nbr_at r0 et = Inr (NeighborTup n)" using linkedD [OF l a] by blast
    then show "(b, off) \<noteq> (b', off') \<and> ItemPointerSet b off \<noteq> et_neighbortid et" using a Inl by (metis ItemPointerSet_sel Inl_Inr_False prod.inject)
  qed
  then show ?thesis by simp
next
  case (Inr t)
  show ?thesis
  proof (cases t)
    case (NeighborTup n)
    then show ?thesis using marked_neighbor [OF m l] Inr by blast
  next
    case (ElementTup et)
    note t = Inr [unfolded ElementTup]
    obtain n where n: "nbr_at r0 et = Inr (NeighborTup n)" using linkedD [OF l t] by blast
    have "tup_at r b off = tup_at r0 b off" if "\<not> ((b, off) \<in> X \<and> to_mark et)"
      by (rule marked_other [OF m]) (use that t linked_nbr_position [OF l _ t] in auto)
    then show ?thesis using markedD(1) [OF m _ t _ n] t by auto
  qed
qed

lemma insert_page_cong:
  assumes "insert_page_ok r X ip" "\<And>x. del_at r x \<Longrightarrow> x \<in> Y \<longleftrightarrow> x \<in> X"
  shows "insert_page_ok r Y ip"
  using assms unfolding insert_page_ok_def by (cases "ip = InvalidBlockNumber") (simp_all, blast+)

lemma page_positions: "read_page r b = Inr p \<Longrightarrow> (\<exists>t. tup_at r b off = Inr t) \<longleftrightarrow> off \<in> set [FirstOffsetNumber..<Suc (length (ip_items p))]"
  by (cases off) (auto simp: tup_at_def page_tuple_def ip_get_def nth_r_def FirstOffsetNumber_def)

lemma mark_page_ok:
  assumes I: "mark_inv r0 (D \<times> UNIV) s" and wf: "rel_wf (fst s)" and p: "read_page (fst s) b = Inr p" and D: "D \<subseteq> {..<b}" and b: "b \<noteq> InvalidBlockNumber"
  shows "\<exists>s'. mark_page b s = Inr (hp_nextblkno p, s') \<and> mark_inv r0 (insert b D \<times> UNIV) s' \<and> rel_wf (fst s') \<and> same_pages (fst s) (fst s')"
proof -
  let ?os = "[FirstOffsetNumber..<Suc (length (ip_items p))]"
  have l: "linked r0" and m: "marked r0 (D \<times> UNIV) (fst s)" using I by (simp_all add: mark_inv_def)
  have pos: "off \<in> set ?os \<longleftrightarrow> (\<exists>t. tup_at r0 b off = Inr t)" for off using page_positions [OF p] marked_dom [OF m l] by blast
  have bD: "b \<notin> D" using D by auto
  have "\<forall>off\<in>set ?os. (b, off) \<notin> D \<times> UNIV \<and> (\<exists>t. tup_at r0 b off = Inr t)" using pos bD by blast
  moreover have "distinct ?os" by simp
  moreover have "\<forall>x\<in>D \<times> UNIV. fst x \<le> b" using D by auto
  ultimately obtain s' where s': "mark_items b ?os s = Inr s'" "mark_inv r0 (D \<times> UNIV \<union> Pair b ` set ?os) s'" "rel_wf (fst s')" "same_pages (fst s) (fst s')"
    using mark_items_ok [OF I wf] b by blast
  have m': "marked r0 (D \<times> UNIV \<union> Pair b ` set ?os) (fst s')" and i': "insert_page_ok (fst s') (D \<times> UNIV \<union> Pair b ` set ?os) (snd s')"
    using s'(2) by (simp_all only: mark_inv_def)
  have mem: "(c, off) \<in> insert b D \<times> UNIV \<longleftrightarrow> (c, off) \<in> D \<times> UNIV \<union> Pair b ` set ?os" if "\<exists>t. tup_at r0 c off = Inr t" for c off
  proof (cases "c = b")
    case True
    then have "off \<in> set ?os" using that pos by simp
    then show ?thesis using True by blast
  qed auto
  have "marked r0 (insert b D \<times> UNIV) (fst s')" by (rule marked_cong [OF m']) (use mem in blast)
  moreover have "insert_page_ok (fst s') (insert b D \<times> UNIV) (snd s')"
  proof (rule insert_page_cong [OF i'])
    fix x assume "del_at (fst s') x"
    then have "\<exists>t. tup_at (fst s') (fst x) (snd x) = Inr t" by (auto simp: del_at_def)
    then show "x \<in> insert b D \<times> UNIV \<longleftrightarrow> x \<in> D \<times> UNIV \<union> Pair b ` set ?os"
      using mem [of "fst x" "snd x"] marked_dom [OF m' l] by (simp only: prod.collapse)
  qed
  ultimately have inv: "mark_inv r0 (insert b D \<times> UNIV) s'" using s'(2) by (simp only: mark_inv_def)
  have nx: "next_of (fst s') b = Some (hp_nextblkno p)" using s'(4) next_of_page [OF p] by (simp add: same_pages_def)
  then obtain p' where "read_page (fst s') b = Inr p'" "hp_nextblkno p' = hp_nextblkno p" by (auto simp: next_of_def split: sum.splits)
  then have "mark_page b s = Inr (hp_nextblkno p, s')" using p s'(1) by (simp add: mark_page_def del: upt_Suc)
  then show ?thesis using inv s' by blast
qed

interpretation marking: page_walk_total mark_page fst "\<lambda>D. mark_inv r0 (D \<times> UNIV)" for r0
proof
  fix b s n s' D
  assume a: "mark_page b s = Inr (n, s')" and i: "mark_inv r0 (D \<times> UNIV) s" "rel_wf (fst s)" "D \<subseteq> {..<b}" "b \<noteq> InvalidBlockNumber"
  obtain p where p: "read_page (fst s) b = Inr p" using a by (auto simp: mark_page_def rbind_InrE)
  show "next_of (fst s) b = Some n \<and> mark_inv r0 (insert b D \<times> UNIV) s' \<and> rel_wf (fst s') \<and> next_of (fst s') = next_of (fst s) \<and>
      length (rel_blocks (fst s')) = length (rel_blocks (fst s))"
    using mark_page_ok [OF i(1,2) p i(3,4)] a next_of_page [OF p] by (auto simp: same_pages_def)
next
  fix D s b p
  assume "mark_inv r0 (D \<times> UNIV) s" "rel_wf (fst s)" "read_page (fst s) b = Inr p" "D \<subseteq> {..<b}" "b \<noteq> InvalidBlockNumber"
  then show "\<exists>n s'. mark_page b s = Inr (n, s')" using mark_page_ok by blast
qed

text \<open>The whole pass, with the insert page it records.\<close>

lemma MarkDeleted_ok:
  assumes wf: "rel_wf (vs_index vs)" and l: "linked (vs_index vs)" and len: "1 < length (rel_blocks (vs_index vs))" and mp: "read_meta (vs_index vs) = Inr mp"
  shows "\<exists>r' ip. MarkDeleted vs = Inr (vs\<lparr>vs_index := r'\<rparr>) \<and> rel_wf r' \<and> same_pages (vs_index vs) r' \<and>
    marked (vs_index vs) (set (page_chain (vs_index vs)) \<times> UNIV) r' \<and> insert_page_ok r' (set (page_chain (vs_index vs)) \<times> UNIV) ip \<and>
    rel_options r' = rel_options (vs_index vs) \<and> read_meta r' = Inr (if ip = InvalidBlockNumber then mp else mp\<lparr>mp_insertPage := ip\<rparr>)"
proof -
  let ?r = "vs_index vs" and ?X = "set (page_chain (vs_index vs)) \<times> (UNIV :: nat set)"
  have i: "mark_inv ?r ({} \<times> UNIV) (?r, InvalidBlockNumber)" using l by (simp add: mark_inv_def marked_def insert_page_ok_def)
  have wf0: "rel_wf (fst (?r, InvalidBlockNumber))" using wf by simp
  obtain r1 ip where w: "walk_pages (Suc (length (rel_blocks ?r))) mark_page HNSW_HEAD_BLKNO (?r, InvalidBlockNumber) = Inr (r1, ip)"
    using marking.pass_total [OF i wf0] len by auto
  note ps = marking.pass_inv [OF _ i wf0, of "(r1, ip)", unfolded fst_conv, OF w]
  have r1: "marked ?r ?X r1" "insert_page_ok r1 ?X ip" "read_meta r1 = Inr mp" "rel_options r1 = rel_options ?r"
    using ps(1) mp by (simp_all add: mark_inv_def)
  define mp' where "mp' = (if ip = InvalidBlockNumber then mp else mp\<lparr>mp_insertPage := ip\<rparr>)"
  define r' where "r' = write_meta r1 mp'"
  note wm = write_meta_spec [OF r1(3), of mp', folded r'_def]
  have "HnswUpdateMetaPage r1 NoUpdate None ip = Inr r'"
    using r1(3) by (simp add: HnswUpdateMetaPage_def HnswUpdateMetaPageInfo_def r'_def mp'_def)
  then have "MarkDeleted vs = Inr (vs\<lparr>vs_index := r'\<rparr>)" using w by (simp add: MarkDeleted_def)
  moreover have "rel_wf r'" unfolding r'_def by (rule write_meta_wf [OF ps(2) r1(3)])
  moreover have "next_of r' = next_of r1" by (simp add: next_of_def wm(2) fun_eq_iff)
  then have "same_pages ?r r'" using ps(3,4) wm(4) by (simp add: same_pages_def)
  moreover have "marked ?r ?X r'" using r1(1) by (simp add: marked_def wm(3))
  moreover have "del_at r' = del_at r1" by (simp add: del_at_def wm(3) fun_eq_iff)
  then have "insert_page_ok r' ?X ip" using r1(2) by (simp only: insert_page_ok_def)
  moreover have "rel_options r' = rel_options ?r" using r1(4) by (simp add: r'_def write_meta_def)
  ultimately show ?thesis using wm(1) mp'_def by blast
qed

lemma marked_element:
  assumes m: "marked r0 X r" and l: "linked r0"
  shows "tup_at r b off = Inr (ElementTup et) \<longleftrightarrow>
    (\<exists>et0. tup_at r0 b off = Inr (ElementTup et0) \<and> et = (if (b, off) \<in> X \<and> to_mark et0 then clear_element et0 else et0))"
proof -
  have at: "tup_at r b off = Inr (ElementTup (if (b, off) \<in> X \<and> to_mark et0 then clear_element et0 else et0))"
    if e: "tup_at r0 b off = Inr (ElementTup et0)" for et0
  proof -
    obtain n where n: "nbr_at r0 et0 = Inr (NeighborTup n)" using linkedD [OF l e] by blast
    have "tup_at r b off = tup_at r0 b off" if "\<not> ((b, off) \<in> X \<and> to_mark et0)"
      by (rule marked_other [OF m]) (use that e linked_nbr_position [OF l _ e] in auto)
    then show ?thesis using e markedD(1) [OF m _ e _ n] by auto
  qed
  have "\<exists>et0. tup_at r0 b off = Inr (ElementTup et0)" if t: "tup_at r b off = Inr (ElementTup et)"
  proof -
    obtain x where x: "tup_at r0 b off = Inr x" using marked_dom [OF m l] t by blast
    then show ?thesis using t marked_neighbor [OF m l, of b off] by (cases x) auto
  qed
  then have ex: "tup_at r b off = Inr (ElementTup et) \<Longrightarrow> \<exists>et0. tup_at r0 b off = Inr (ElementTup et0)" .
  show ?thesis
  proof
    assume t: "tup_at r b off = Inr (ElementTup et)"
    then obtain et0 where e: "tup_at r0 b off = Inr (ElementTup et0)" using ex by blast
    have "et = (if (b, off) \<in> X \<and> to_mark et0 then clear_element et0 else et0)" using at [OF e] t by simp
    then show "\<exists>et0. tup_at r0 b off = Inr (ElementTup et0) \<and> et = (if (b, off) \<in> X \<and> to_mark et0 then clear_element et0 else et0)"
      using e by blast
  qed (use at in blast)
qed

text \<open>An element that is not marked keeps its neighbour tuple.\<close>

lemma marked_kept_nbr:
  assumes m: "marked r0 X r" and l: "linked r0" and e: "tup_at r0 b off = Inr (ElementTup et)" "\<not> ((b, off) \<in> X \<and> to_mark et)"
  shows "nbr_at r et = nbr_at r0 et"
proof (rule marked_other [OF m])
  fix b' off' et' assume a: "(b', off') \<in> X" "tup_at r0 b' off' = Inr (ElementTup et')" "to_mark et'"
  have "et_neighbortid et \<noteq> et_neighbortid et'" using linked_inj [OF l e(1) a(2)] a e by auto
  moreover obtain n where "nbr_at r0 et = Inr (NeighborTup n)" by (rule linkedD [OF l e(1)])
  ultimately show "(ip_blkid (et_neighbortid et), ip_posid (et_neighbortid et)) \<noteq> (b', off') \<and>
      ItemPointerSet (ip_blkid (et_neighbortid et)) (ip_posid (et_neighbortid et)) \<noteq> et_neighbortid et'"
    using a(2) by (auto simp: ItemPointer_collapse)
qed

lemma linked_marked:
  assumes m: "marked r0 X r" and l: "linked r0"
  shows "linked r"
proof -
  have old: "\<exists>et0. tup_at r0 b off = Inr (ElementTup et0) \<and>
      (if (b, off) \<in> X \<and> to_mark et0 then et = clear_element et0 else et = et0)" if "tup_at r b off = Inr (ElementTup et)" for b off et
    using that marked_element [OF m l] by auto
  have nb: "\<exists>n. nbr_at r et = Inr (NeighborTup n) \<and> nt_count n = length (nt_indextids n) \<and> nt_version n = et_version et"
    and ht: "length (et_heaptids et) = HNSW_HEAPTIDS" if t: "tup_at r b off = Inr (ElementTup et)" for b off et
  proof -
    obtain et0 where e: "tup_at r0 b off = Inr (ElementTup et0)" "if (b, off) \<in> X \<and> to_mark et0 then et = clear_element et0 else et = et0"
      using old [OF t] by blast
    obtain n where n: "nbr_at r0 et0 = Inr (NeighborTup n)" "nt_count n = length (nt_indextids n)" "nt_version n = et_version et0"
        "length (et_heaptids et0) = HNSW_HEAPTIDS" using linkedD [OF l e(1)] by blast
    show "length (et_heaptids et) = HNSW_HEAPTIDS" using e(2) n(4) by (auto split: if_splits)
    show "\<exists>n. nbr_at r et = Inr (NeighborTup n) \<and> nt_count n = length (nt_indextids n) \<and> nt_version n = et_version et"
    proof (cases "(b, off) \<in> X \<and> to_mark et0")
      case True
      then have "nbr_at r et0 = Inr (NeighborTup (clear_neighbors n (next_version (et_version et0))))" "et = clear_element et0"
        using markedD(2) [OF m _ e(1) _ n(1)] e(2) by auto
      then show ?thesis using n(2) by (simp add: clear_neighbors_def)
    next
      case False
      then have et: "et = et0" using e(2) by simp
      have "nbr_at r et0 = nbr_at r0 et0" by (rule marked_kept_nbr [OF m l e(1) False])
      then show ?thesis using n et by simp
    qed
  qed
  have "b = b' \<and> off = off'" if t: "tup_at r b off = Inr (ElementTup et)" "tup_at r b' off' = Inr (ElementTup et')" "et_neighbortid et = et_neighbortid et'"
    for b off et b' off' et'
  proof -
    obtain e0 where e0: "tup_at r0 b off = Inr (ElementTup e0)" "if (b, off) \<in> X \<and> to_mark e0 then et = clear_element e0 else et = e0" using old [OF t(1)] by blast
    obtain e1 where e1: "tup_at r0 b' off' = Inr (ElementTup e1)" "if (b', off') \<in> X \<and> to_mark e1 then et' = clear_element e1 else et' = e1" using old [OF t(2)] by blast
    have "et_neighbortid e0 = et_neighbortid e1" using t(3) e0(2) e1(2) by (auto split: if_splits)
    then show ?thesis using linked_inj [OF l e0(1) e1(1)] by blast
  qed
  then show ?thesis using nb ht unfolding linked_def by blast
qed

section \<open>Properties of the first and the last pass\<close>

lemma InitVacuumState_fields:
  assumes "InitVacuumState r support stats cb = Inr vs"
  shows "vs_index vs = r" "vs_callback vs = cb" "vs_deleted vs = {}" "vs_support vs = support" "\<exists>ep. HnswGetEntryPoint r = Inr ep"
    "\<exists>mp. read_meta r = Inr mp \<and> mp_magicNumber mp = HNSW_MAGIC_NUMBER \<and> vs_m vs = mp_m mp"
proof -
  obtain m ep where i: "HnswGetMetaPageInfo r = Inr (m, ep)" using assms by (auto simp: InitVacuumState_def rbind_InrE)
  have vs: "vs_index vs = r \<and> vs_callback vs = cb \<and> vs_deleted vs = {} \<and> vs_support vs = support \<and> vs_m vs = m"
    using assms i by (auto simp: InitVacuumState_def)
  then show "vs_index vs = r" "vs_callback vs = cb" "vs_deleted vs = {}" "vs_support vs = support" by simp_all
  show "\<exists>ep. HnswGetEntryPoint r = Inr ep" using i by (simp add: HnswGetEntryPoint_def)
  show "\<exists>mp. read_meta r = Inr mp \<and> mp_magicNumber mp = HNSW_MAGIC_NUMBER \<and> vs_m vs = mp_m mp"
    using i vs by (auto simp: HnswGetMetaPageInfo_def rbind_InrE split: if_splits)
qed

lemma pair_at:
  "tup_at pair_rel b off = Inr t \<longleftrightarrow> b = 1 \<and> (off = 1 \<and> t = ElementTup (pair_etup 2) \<or> off = 2 \<and> t = NeighborTup (pair_ntup 3) \<or>
     off = 3 \<and> t = ElementTup (pair_etup 4) \<or> off = 4 \<and> t = NeighborTup (pair_ntup 1))"
  by (auto simp: tup_at_def page_tuple_def ip_get_def nth_r_def pair_page_def less_Suc_eq numeral_eq_Suc split: if_splits)

lemma pair_ten: "tup_at pair_rel b off = Inr t \<Longrightarrow> ten_tids t"
  by (auto simp: pair_at ten_tids_def pair_etup_def hnsw_const)

lemma pair_init: "InitVacuumState pair_rel l2_support None cb = Inr (projr (InitVacuumState pair_rel l2_support None cb))"
  by (simp add: InitVacuumState_def HnswGetMetaPageInfo_def read_meta_def pair_rel_def pair_meta_def hnsw_const)

lemma pair_linked: "linked pair_rel"
  unfolding linked_def
proof (intro conjI allI impI)
  fix b off et assume "tup_at pair_rel b off = Inr (ElementTup et)"
  then have et: "et = pair_etup 2 \<or> et = pair_etup 4" by (auto simp: pair_at)
  then show "length (et_heaptids et) = HNSW_HEAPTIDS" by (auto simp: pair_etup_def hnsw_const)
  show "\<exists>n. nbr_at pair_rel et = Inr (NeighborTup n) \<and> nt_count n = length (nt_indextids n) \<and> nt_version n = et_version et"
    using et by (auto simp: pair_at pair_etup_def pair_ntup_def)
qed (auto simp: pair_at pair_etup_def)

lemma linked_trim:
  assumes "\<And>b off. tup_at r' b off = (if b \<in> D then map_sum id (trim cb) (tup_at r b off) else tup_at r b off)" "linked r"
  shows "linked r'"
proof -
  have el: "\<exists>et0. tup_at r b off = Inr (ElementTup et0) \<and> (et = et0 \<or> et = trim_tids cb et0)" if "tup_at r' b off = Inr (ElementTup et)" for b off et
  proof (cases "tup_at r b off")
    case (Inr t)
    then show ?thesis using that assms(1) [of b off] by (cases t) (auto split: if_splits)
  qed (use that assms(1) [of b off] in \<open>auto split: if_splits\<close>)
  have nb: "tup_at r' b off = Inr (NeighborTup n)" if "tup_at r b off = Inr (NeighborTup n)" for b off n using that assms(1) [of b off] by simp
  show ?thesis
    unfolding linked_def
  proof (intro conjI allI impI)
    fix b off et assume "tup_at r' b off = Inr (ElementTup et)"
    then obtain et0 where e: "tup_at r b off = Inr (ElementTup et0)" "et = et0 \<or> et = trim_tids cb et0" using el by blast
    obtain n where n: "nbr_at r et0 = Inr (NeighborTup n)" "nt_count n = length (nt_indextids n)" "nt_version n = et_version et0"
        "length (et_heaptids et0) = HNSW_HEAPTIDS" using linkedD [OF assms(2) e(1)] by blast
    show "length (et_heaptids et) = HNSW_HEAPTIDS" using e(2) n(4) trim_tids_length by auto
    show "\<exists>n. nbr_at r' et = Inr (NeighborTup n) \<and> nt_count n = length (nt_indextids n) \<and> nt_version n = et_version et"
      using e(2) n nb by auto
  next
    fix b off et b' off' et'
    assume t: "tup_at r' b off = Inr (ElementTup et)" "tup_at r' b' off' = Inr (ElementTup et')" "et_neighbortid et = et_neighbortid et'"
    obtain e0 e1 where e: "tup_at r b off = Inr (ElementTup e0)" "tup_at r b' off' = Inr (ElementTup e1)" "et_neighbortid e0 = et_neighbortid e1"
      using el [OF t(1)] el [OF t(2)] t(3) by auto
    then show "b = b'" "off = off'" using linked_inj [OF assms(2) e] by auto
  qed
qed

text \<open>The example index with the heap TIDs of both elements removed.\<close>

definition emptied_rel :: Relation where
  "emptied_rel = write_page pair_rel 1 (pair_page\<lparr>ip_items := map (trim (\<lambda>_. True)) (ip_items pair_page)\<rparr>)"

definition emptied_state :: HnswVacuumState where
  "emptied_state = (projr (InitVacuumState pair_rel l2_support None (\<lambda>_. True)))\<lparr>vs_index := emptied_rel\<rparr>"

lemma emptied_facts:
  "rel_wf emptied_rel" "linked emptied_rel" "1 < length (rel_blocks emptied_rel)" "read_meta emptied_rel = Inr pair_meta"
  "tup_at emptied_rel 1 1 = Inr (ElementTup (trim_tids (\<lambda>_. True) (pair_etup 2)))" "page_chain emptied_rel = [1]"
proof -
  have p: "read_page pair_rel 1 = Inr pair_page" by simp
  note t = trim_page [OF pair_wf p, of "\<lambda>_. True", folded emptied_rel_def]
  show "rel_wf emptied_rel" by (rule t(2))
  show "linked emptied_rel" by (rule linked_trim [OF _ pair_linked, where D = "{1}" and cb = "\<lambda>_. True"]) (simp add: t(1))
  show l: "1 < length (rel_blocks emptied_rel)" by (simp add: emptied_rel_def pair_rel_def)
  show "read_meta emptied_rel = Inr pair_meta" using t(5) by (simp add: read_meta_def pair_rel_def hnsw_const)
  have "tup_at pair_rel 1 1 = Inr (ElementTup (pair_etup 2))" by (simp add: pair_at)
  then show "tup_at emptied_rel 1 1 = Inr (ElementTup (trim_tids (\<lambda>_. True) (pair_etup 2)))" by (simp add: t(1))
  have "next_of emptied_rel 1 = Some InvalidBlockNumber" unfolding t(3) by (simp add: next_of_def pair_page_def HnswInitPage_def)
  moreover have "length (rel_blocks emptied_rel) = Suc (Suc 0)" by (simp add: emptied_rel_def pair_rel_def)
  moreover have "HNSW_HEAD_BLKNO = 1" "1 \<noteq> InvalidBlockNumber" by (simp_all add: hnsw_const)
  ultimately show "page_chain emptied_rel = [1]" by (simp add: page_chain_def)
qed

lemma next_version_bounds: "1 \<le> v \<Longrightarrow> v \<le> 15 \<Longrightarrow> 1 \<le> next_version v \<and> next_version v \<le> 15 \<and> next_version v \<noteq> v"
  by (auto simp: next_version_def Let_def)

text \<open>C18: an element that a scan or insert loaded before it was marked deleted is recognised afterwards: its version no longer matches its
  neighbour tuple, so \<open>HnswLoadNeighborTids\<close> reports no neighbours instead of those of whatever element reuses the space.  The versions in
  use stay between 1 and 15.\<close>

theorem stale_read_detected:
  assumes "rel_wf (vs_index vs)" and "linked (vs_index vs)" and "1 < length (rel_blocks (vs_index vs))" and "read_meta (vs_index vs) = Inr mp"
    and "b \<in> set (page_chain (vs_index vs))" and "tup_at (vs_index vs) b off = Inr (ElementTup et)" and "to_mark et"
    and "1 \<le> et_version et" and "et_version et \<le> 15"
  shows "\<exists>vs'. MarkDeleted vs = Inr vs' \<and>
    HnswLoadNeighborTids (HnswLoadElementFromTuple (HnswInitElementFromBlock b off) et heaptids vec) (vs_index vs') m lm lc = Inr None \<and>
    (\<exists>et'. tup_at (vs_index vs') b off = Inr (ElementTup et') \<and> 1 \<le> et_version et' \<and> et_version et' \<le> 15)"
proof -
  obtain r' where r': "MarkDeleted vs = Inr (vs\<lparr>vs_index := r'\<rparr>)" "marked (vs_index vs) (set (page_chain (vs_index vs)) \<times> UNIV) r'"
    using MarkDeleted_ok [OF assms(1-4)] by blast
  obtain n where n: "nbr_at (vs_index vs) et = Inr (NeighborTup n)" using linkedD [OF assms(2,6)] by blast
  have x: "(b, off) \<in> set (page_chain (vs_index vs)) \<times> UNIV" using assms(5) by simp
  note m = markedD [OF r'(2) x assms(6,7) n]
  obtain q where q: "read_page r' (ip_blkid (et_neighbortid et)) = Inr q"
      "page_tuple q (ip_posid (et_neighbortid et)) = Inr (NeighborTup (clear_neighbors n (next_version (et_version et))))"
    using m(2) by (auto simp: tup_at_def rbind_InrE)
  note v = next_version_bounds [OF assms(8,9)]
  have "HnswLoadNeighborTids (HnswLoadElementFromTuple (HnswInitElementFromBlock b off) et heaptids vec) r' m lm lc = Inr None"
    using q(1) neighbor_tuple_at [THEN iffD2, OF q(2)] v
    by (simp add: HnswLoadNeighborTids_def HnswLoadElementFromTuple_def Let_def clear_neighbors_def)
  then show ?thesis using r'(1) m(1) v by auto
qed

theorem stale_read_detected_witness:
  "\<exists>vs'. MarkDeleted emptied_state = Inr vs' \<and>
     HnswLoadNeighborTids (HnswLoadElementFromTuple (HnswInitElementFromBlock 1 1) (trim_tids (\<lambda>_. True) (pair_etup 2)) True True) (vs_index vs') 2 4 0 = Inr None"
proof -
  have v: "vs_index emptied_state = emptied_rel" by (simp add: emptied_state_def)
  have "to_mark (trim_tids (\<lambda>_. True) (pair_etup 2))" by (simp add: to_mark_def pair_etup_def)
  then show ?thesis
    using stale_read_detected [of emptied_state pair_meta 1 1 "trim_tids (\<lambda>_. True) (pair_etup 2)" True True 2 4 0] emptied_facts
    unfolding v by (auto simp: pair_etup_def)
qed

end
