(* ===== verification/HnswRepair.thy ===== *)
theory HnswRepair
  imports HnswVacuum
begin

text \<open>
  The second pass of a VACUUM, \<open>RepairGraph\<close> of \<open>src/backend/access/hnsw/hnswvacuum.c\<close>, and the whole of
  \<open>hnswbulkdelete\<close>: the repair writes neighbour tuples and the entry point only, so the three passes together remove
  exactly the dead heap TIDs and mark exactly the elements that have none left.
\<close>

section \<open>Stores grow\<close>

definition grows :: "elems \<Rightarrow> elems \<Rightarrow> bool" where
  "grows es es' \<longleftrightarrow> take (length es) es' = es"

lemma grows_refl [simp]: "grows es es"
  by (simp add: grows_def)

lemma grows_append [simp]: "grows es (es @ xs)"
  by (simp add: grows_def)

lemma grows_length: "grows es es' \<Longrightarrow> length es \<le> length es'"
  unfolding grows_def by (metis length_take min.cobounded1)

lemma grows_nth: "grows es es' \<Longrightarrow> p < length es \<Longrightarrow> es' ! p = es ! p"
  unfolding grows_def by (metis nth_take)

lemma grows_trans: "grows a b \<Longrightarrow> grows b c \<Longrightarrow> grows a c"
proof -
  assume a: "grows a b" "grows b c"
  have "take (length a) c = take (length a) (take (length b) c)" using grows_length [OF a(1)] by (simp add: min_absorb1)
  then show ?thesis using a unfolding grows_def by (simp only:)
qed

lemma HnswLoadElementImpl_grows:
  "HnswLoadElementImpl es b off wd q r support lv mx None = Inr (d, p, es') \<Longrightarrow> grows es es'"
  by (auto simp: HnswLoadElementImpl_def rbind_InrE split: if_splits)

lemma load_unvisited_grows:
  assumes "load_unvisited env st d u = Inr (p, e, es')" "se_index env = Some r"
  shows "grows (ss_elems st) es'"
proof -
  obtain tid where u: "u = UTid tid" using assms by (cases u) (simp_all add: load_unvisited_def)
  then obtain mx where "HnswLoadElementImpl (ss_elems st) (ip_blkid tid) (ip_posid tid) True (se_q env) r (se_support env)
      (se_inserting env) mx None = Inr (Some e, p, es')"
    using assms by (auto simp: load_unvisited_def rbind_InrE split: option.splits if_splits)
  then show ?thesis by (rule HnswLoadElementImpl_grows)
qed

lemma process_unvisited_grows:
  assumes "process_unvisited env st u = Inr st'" "se_index env = Some r"
  shows "grows (ss_elems st) (ss_elems st')"
  using assms(1)
proof (cases rule: process_unvisited_cases)
  case (skipped f d es)
  then show ?thesis using load_unvisited_grows [OF skipped(2) assms(2)] by simp
next
  case (discarded f d es p)
  then show ?thesis using load_unvisited_grows [OF discarded(2) assms(2)] by (simp add: discard_def)
next
  case (wrong_level f d es p)
  then show ?thesis using load_unvisited_grows [OF wrong_level(2) assms(2)] by simp
next
  case (added f d es p)
  then show ?thesis using load_unvisited_grows [OF added(2) assms(2)] add_candidate_keeps [OF added(6)] by simp
qed

lemma process_all_grows:
  "process_all env us st = Inr st' \<Longrightarrow> se_index env = Some r \<Longrightarrow> grows (ss_elems st) (ss_elems st')"
proof (induction us arbitrary: st)
  case (Cons u us)
  then obtain st1 where "process_unvisited env st u = Inr st1" "process_all env us st1 = Inr st'" by (auto simp: rbind_InrE)
  then show ?case using process_unvisited_grows Cons grows_trans by blast
qed simp

lemma search_step_grows:
  assumes "search_step env st = Inr (go, st')" "se_index env = Some r"
  shows "grows (ss_elems st) (ss_elems st')"
proof (cases go)
  case True
  then obtain us st1 where "process_all env us st1 = Inr st'" "ss_elems st1 = ss_elems st"
    using assms(1) by (auto simp: search_step_def rbind_InrE Let_def split: if_splits)
  then show ?thesis using process_all_grows assms(2) by metis
next
  case False
  then have "ss_elems st' = ss_elems st" using assms(1) by (auto simp: search_step_def rbind_InrE Let_def split: if_splits)
  then show ?thesis by simp
qed

lemma HnswSearchLayer_grows:
  assumes "HnswSearchLayer env es ep v d iv t = Inr (w, st)" "se_index env = Some r"
  shows "grows es (ss_elems st)"
proof -
  obtain st0 st1 where a: "add_entries env (iv \<or> v = None) ep st0 = Inr st1" "ss_elems st0 = es" "search_loop env st1 = Inr st"
    using assms(1) by (auto simp: HnswSearchLayer_def Let_def rbind_InrE)
  have "grows (ss_elems st1) (ss_elems st)"
  proof (rule search_loop_closure [OF a(3), where R = "\<lambda>a b. grows (ss_elems a) (ss_elems b)"])
    show "grows (ss_elems x) (ss_elems z)" if "grows (ss_elems x) (ss_elems y)" "grows (ss_elems y) (ss_elems z)" for x y z
      using that by (rule grows_trans)
    show "grows (ss_elems x) (ss_elems y)" if "search_step env x = Inr (go, y)" for x go y
      using that assms(2) by (rule search_step_grows)
  qed simp
  then show ?thesis using add_entries_elems [OF a(1)] a(2) by simp
qed

lemma greedy_descent_grows: "greedy_descent q (Some r) support m ins skip lcs ep es = Inr (ep', es') \<Longrightarrow> grows es es'"
proof (induction lcs arbitrary: ep es)
  case (Cons lc lcs)
  then obtain w st where s: "HnswSearchLayer (search_env_for q 1 lc (Some r) support m ins skip) es ep None None True None = Inr (w, st)"
      "greedy_descent q (Some r) support m ins skip lcs w (ss_elems st) = Inr (ep', es')" by (auto simp: rbind_InrE)
  have "grows es (ss_elems st)" using HnswSearchLayer_grows [OF s(1)] by (simp add: search_env_for_def)
  then show ?case using Cons.IH [OF s(2)] grows_trans by blast
qed simp

section \<open>The position of an element does not change\<close>

definition same_pos :: "HnswElementData \<Rightarrow> HnswElementData \<Rightarrow> bool" where
  "same_pos e e' \<longleftrightarrow> he_blkno e' = he_blkno e \<and> he_offno e' = he_offno e \<and> he_neighborPage e' = he_neighborPage e \<and>
     he_neighborOffno e' = he_neighborOffno e \<and> he_version e' = he_version e \<and> he_level e' = he_level e"

definition kept_cells :: "eptr \<Rightarrow> elems \<Rightarrow> elems \<Rightarrow> bool" where
  "kept_cells p es es' \<longleftrightarrow> p < length es' \<and> same_pos (es ! p) (es' ! p)"

lemma kept_cells_trans: "kept_cells p a b \<Longrightarrow> kept_cells p b c \<Longrightarrow> kept_cells p a c"
  by (simp add: kept_cells_def same_pos_def)

lemma kept_cells_grows: "grows es es' \<Longrightarrow> p < length es \<Longrightarrow> kept_cells p es es'"
  using grows_length [of es es'] grows_nth [of es es' p] by (simp add: kept_cells_def same_pos_def)

lemma kept_cells_refl: "p < length es \<Longrightarrow> kept_cells p es es"
  by (simp add: kept_cells_def same_pos_def)

lemma AddConnections_keeps:
  assumes "AddConnections es p ns lc = Inr es'"
  shows "kept_cells p es es'"
proof -
  have p: "p < length es" using assms by (auto simp: AddConnections_def rbind_InrE nth_r_eq)
  then show ?thesis using assms by (auto simp: AddConnections_def rbind_InrE nth_r_eq kept_cells_def same_pos_def split: if_splits)
qed

lemma set_closerSet_keeps: "p < length es \<Longrightarrow> kept_cells p es (set_closerSet es p lc b)"
  by (simp add: set_closerSet_def kept_cells_def same_pos_def)

lemma connect_layers_keeps:
  "connect_layers bn q ef (Some r) support m skip p lcs ep es = Inr es' \<Longrightarrow> p < length es \<Longrightarrow> kept_cells p es es'"
proof (induction lcs arbitrary: ep es)
  case Nil
  then show ?case using kept_cells_refl by simp
next
  case (Cons lc lcs)
  obtain w st where s: "HnswSearchLayer (search_env_for q ef lc (Some r) support m True skip) es ep None None True None = Inr (w, st)"
    using Cons.prems(1) by (auto simp: rbind_InrE)
  obtain cs ns b es1 where c: "AddConnections (set_closerSet (ss_elems st) p lc b) p ns lc = Inr es1"
      "connect_layers bn q ef (Some r) support m skip p lcs w es1 = Inr es'"
    using Cons.prems(1) s by (auto simp: rbind_InrE)
  have "grows es (ss_elems st)" using HnswSearchLayer_grows [OF s] by (simp add: search_env_for_def)
  then have k1: "kept_cells p es (ss_elems st)" using kept_cells_grows Cons.prems(2) by blast
  then have k2: "kept_cells p (ss_elems st) (set_closerSet (ss_elems st) p lc b)" using set_closerSet_keeps by (simp add: kept_cells_def)
  note k3 = AddConnections_keeps [OF c(1)]
  have "p < length es1" using k3 by (simp add: kept_cells_def)
  then show ?case using Cons.IH [OF c(2)] k1 k2 k3 kept_cells_trans by blast
qed

lemma HnswEntryCandidate_keeps:
  assumes "HnswEntryCandidate es entry q (Some r) support lv = Inr (sc, es')" "p < length es" "entry \<noteq> p"
  shows "kept_cells p es es'" "length es' = length es"
proof -
  obtain e et where "es' = es[entry := HnswLoadElementFromTuple e et True lv]"
    using assms(1) by (auto simp: HnswEntryCandidate_def HnswLoadElement_def HnswLoadElementImpl_def rbind_InrE split: option.splits if_splits)
  then show "kept_cells p es es'" "length es' = length es" using assms(2,3) by (simp_all add: kept_cells_def same_pos_def)
qed

lemma HnswFindElementNeighbors_keeps:
  assumes "HnswFindElementNeighbors es bn p entry (Some r) support m ef ex = Inr es'" "p < length es" "entry \<noteq> Some p"
  shows "kept_cells p es es'"
proof (cases entry)
  case None
  then show ?thesis using assms by (simp add: HnswFindElementNeighbors_def kept_cells_refl)
next
  case (Some e)
  obtain sc es1 where c: "HnswEntryCandidate es e (he_value (es ! p)) (Some r) support True = Inr (sc, es1)"
    using assms Some by (auto simp: HnswFindElementNeighbors_def rbind_InrE nth_r_eq Let_def)
  obtain ep es2 q m' skip lcs lcs' ef' where g: "greedy_descent q (Some r) support m' True skip lcs [sc] es1 = Inr (ep, es2)"
      "connect_layers bn q ef' (Some r) support m' skip p lcs' ep es2 = Inr es'"
    using assms Some c
    by (auto simp: HnswFindElementNeighbors_def rbind_InrE nth_r_eq Let_def simp del: upt_Suc connect_layers.simps greedy_descent.simps)
  note k1 = HnswEntryCandidate_keeps [OF c assms(2)]
  have k: "kept_cells p es es1" "length es1 = length es" using k1 Some assms(3) by auto
  have k2: "kept_cells p es1 es2" by (rule kept_cells_grows [OF greedy_descent_grows [OF g(1)]]) (use k assms(2) in simp)
  then have "p < length es2" by (simp add: kept_cells_def)
  then show ?thesis using connect_layers_keeps [OF g(2)] k(1) k2 kept_cells_trans by blast
qed

section \<open>What the repair writes\<close>

text \<open>Only neighbour tuples change, and they keep their version.\<close>

definition renewed :: "HnswTuple result \<Rightarrow> HnswTuple result \<Rightarrow> bool" where
  "renewed t t' \<longleftrightarrow> t' = t \<or> (\<exists>n n'. t = Inr (NeighborTup n) \<and> t' = Inr (NeighborTup n') \<and> nt_version n' = nt_version n \<and>
     (nt_count n = length (nt_indextids n) \<longrightarrow> nt_count n' = length (nt_indextids n')))"

definition repaired :: "Relation \<Rightarrow> Relation \<Rightarrow> bool" where
  "repaired r r' \<longleftrightarrow> rel_wf r' \<and> same_pages r r' \<and> rel_options r' = rel_options r \<and> (\<forall>b off. renewed (tup_at r b off) (tup_at r' b off))"

lemma repaired_refl: "rel_wf r \<Longrightarrow> repaired r r"
  by (simp add: repaired_def same_pages_def renewed_def)

lemma renewed_trans: "renewed a b \<Longrightarrow> renewed b c \<Longrightarrow> renewed a c"
  unfolding renewed_def by fastforce

lemma repaired_trans: "repaired a b \<Longrightarrow> repaired b c \<Longrightarrow> repaired a c"
  unfolding repaired_def using same_pages_trans renewed_trans by metis

lemma repaired_wf: "repaired r r' \<Longrightarrow> rel_wf r'"
  by (simp add: repaired_def)

lemma renewed_element: "renewed t t' \<Longrightarrow> t = Inr (ElementTup et) \<longleftrightarrow> t' = Inr (ElementTup et)"
  by (auto simp: renewed_def)

lemma repaired_element: "repaired r r' \<Longrightarrow> tup_at r' b off = Inr (ElementTup et) \<longleftrightarrow> tup_at r b off = Inr (ElementTup et)"
  using renewed_element unfolding repaired_def by metis

lemma repaired_linked:
  assumes "repaired r r'" "linked r"
  shows "linked r'"
proof -
  note e = repaired_element [OF assms(1)]
  have nb: "\<exists>n'. tup_at r' b off = Inr (NeighborTup n') \<and> nt_count n' = length (nt_indextids n') \<and> nt_version n' = nt_version n"
    if n: "tup_at r b off = Inr (NeighborTup n)" "nt_count n = length (nt_indextids n)" for b off n
  proof -
    have "renewed (tup_at r b off) (tup_at r' b off)" using assms(1) by (simp add: repaired_def)
    then show ?thesis using n by (auto simp: renewed_def)
  qed
  show ?thesis
    unfolding linked_def
  proof (intro conjI allI impI)
    fix b off et assume "tup_at r' b off = Inr (ElementTup et)"
    then have t: "tup_at r b off = Inr (ElementTup et)" by (simp add: e)
    obtain n where n: "nbr_at r et = Inr (NeighborTup n)" "nt_count n = length (nt_indextids n)" "nt_version n = et_version et"
        "length (et_heaptids et) = HNSW_HEAPTIDS" using linkedD [OF assms(2) t] by blast
    show "length (et_heaptids et) = HNSW_HEAPTIDS" by (rule n(4))
    show "\<exists>n. nbr_at r' et = Inr (NeighborTup n) \<and> nt_count n = length (nt_indextids n) \<and> nt_version n = et_version et"
      using nb [OF n(1,2)] n(3) by auto
  next
    fix b off et b' off' et'
    assume "tup_at r' b off = Inr (ElementTup et)" "tup_at r' b' off' = Inr (ElementTup et')" "et_neighbortid et = et_neighbortid et'"
    then show "b = b'" "off = off'" using linked_inj [OF assms(2)] unfolding e by blast+
  qed
qed

lemma write_page_pages:
  assumes "read_page r b = Inr p" "hp_nextblkno p' = hp_nextblkno p"
  shows "same_pages r (write_page r b p')"
proof -
  have "next_of (write_page r b p') c = next_of r c" for c
    using assms read_write_page [OF read_page_bounds [OF assms(1)], of p' c] by (simp add: next_of_def)
  then show ?thesis by (simp add: same_pages_def fun_eq_iff)
qed

lemma set_tuple_repaired:
  assumes wf: "rel_wf r" and p: "read_page r b = Inr p" "page_tuple p off = Inr (NeighborTup n)"
    and n': "tuple_size (NeighborTup n') = tuple_size (NeighborTup n)" "nt_version n' = nt_version n"
      "nt_count n = length (nt_indextids n) \<longrightarrow> nt_count n' = length (nt_indextids n')"
  shows "repaired r (set_tuple r b p off (NeighborTup n'))" "read_meta (set_tuple r b p off (NeighborTup n')) = read_meta r"
proof -
  have k: "replace_ok r (NeighborTup n) (NeighborTup n')" by (simp add: replace_ok_def)
  note s = set_tuple_spec [OF wf p n'(1) k]
  have "tup_at r b off = Inr (NeighborTup n)" using p by (simp add: tup_at_def)
  then have "renewed (tup_at r c o') (tup_at (set_tuple r b p off (NeighborTup n')) c o')" for c o'
    using s(2) [of c o'] n'(2,3) by (auto simp: renewed_def)
  moreover have "same_pages r (set_tuple r b p off (NeighborTup n'))" unfolding set_tuple_def by (rule write_page_pages [OF p(1)]) simp
  ultimately show "repaired r (set_tuple r b p off (NeighborTup n'))" using s(1) by (simp add: repaired_def set_tuple_def)
  show "read_meta (set_tuple r b p off (NeighborTup n')) = read_meta r"
    unfolding set_tuple_def by (rule read_meta_write_page [OF rel_wf_page(1) [OF wf p(1)]])
qed

lemma UpdateNeighborOnDisk_repaired:
  assumes "UpdateNeighborOnDisk e new idx m lm lc r chk = Inr r'" "rel_wf r"
  shows "repaired r r' \<and> read_meta r' = read_meta r"
proof -
  obtain p n where p: "read_page r (he_neighborPage e) = Inr p" and n: "neighbor_tuple p (he_neighborOffno e) = Inr n"
    using assms(1) by (auto simp: UpdateNeighborOnDisk_def rbind_InrE)
  have "r' = r \<or> (\<exists>k t. r' = set_tuple r (he_neighborPage e) p (he_neighborOffno e) (NeighborTup (n\<lparr>nt_indextids := (nt_indextids n)[k := t]\<rparr>)))"
    using assms(1) p n by (auto simp: UpdateNeighborOnDisk_def rbind_InrE Let_def set_tuple_def split: if_splits)
  moreover have "repaired r (set_tuple r (he_neighborPage e) p (he_neighborOffno e) (NeighborTup (n\<lparr>nt_indextids := (nt_indextids n)[k := t]\<rparr>)))"
      "read_meta (set_tuple r (he_neighborPage e) p (he_neighborOffno e) (NeighborTup (n\<lparr>nt_indextids := (nt_indextids n)[k := t]\<rparr>))) = read_meta r" for k t
    by (rule set_tuple_repaired [OF assms(2) p n [unfolded neighbor_tuple_at]]; simp add: tuple_size_def)+
  ultimately show ?thesis using repaired_refl [OF assms(2)] by blast
qed

text \<open>Finding the slot to use loads neighbours into new cells of the store.\<close>

lemma load_neighbor_elements_grows:
  "load_neighbor_elements es tids = (hcs, es') \<Longrightarrow> grows es es' \<and> (\<forall>hc\<in>set hcs. length es \<le> hc_element hc)"
proof (induction tids arbitrary: es hcs es')
  case (Cons tid tids)
  show ?case
  proof (cases "ItemPointerIsValid tid")
    case True
    obtain hcs' es1 where l: "load_neighbor_elements (es @ [HnswInitElementFromBlock (ip_blkid tid) (ip_posid tid)]) tids = (hcs', es1)" by force
    have "grows (es @ [HnswInitElementFromBlock (ip_blkid tid) (ip_posid tid)]) es1 \<and> (\<forall>hc\<in>set hcs'. Suc (length es) \<le> hc_element hc)"
      using Cons.IH [OF l] by simp
    then show ?thesis using Cons.prems True l grows_trans [OF grows_append] by (auto dest: Suc_leD)
  qed (use Cons.prems in simp)
qed simp

lemma load_for_insert_grows:
  "load_for_insert es q r support i hcs = Inr (hcs', idx, es') \<Longrightarrow> \<forall>hc\<in>set hcs. k \<le> hc_element hc \<Longrightarrow> take k es' = take k es"
proof (induction hcs arbitrary: es i hcs')
  case (Cons hc hcs)
  obtain d es1 where l: "HnswLoadElement es (hc_element hc) True q r support True None = Inr (d, es1)" using Cons.prems(1) by (auto simp: rbind_InrE)
  have "take k es1 = take k es"
    using l Cons.prems(2) by (auto simp: HnswLoadElement_def HnswLoadElementImpl_def rbind_InrE split: if_splits option.splits)
  then show ?case using Cons.prems Cons.IH l by (auto simp: rbind_InrE Let_def split: if_splits)
qed simp

lemma GetUpdateIndex_grows:
  assumes "GetUpdateIndex es p new d m lm lc r support = Inr (idx, es')"
  shows "grows es es'"
proof -
  obtain e where e: "nth_r es p = Inr e" using assms by (auto simp: GetUpdateIndex_def rbind_InrE)
  obtain a es1 where n: "HnswLoadNeighbors es e r m lm lc = Inr (a, es1)" using assms e by (auto simp: GetUpdateIndex_def rbind_InrE)
  have g: "grows es es1 \<and> (\<forall>hc\<in>set (na_items a). length es \<le> hc_element hc)"
  proof -
    obtain t where t: "HnswLoadNeighborTids e r m lm lc = Inr t" using n by (auto simp: HnswLoadNeighbors_def rbind_InrE)
    show ?thesis
    proof (cases t)
      case None
      then show ?thesis using n t by (auto simp: HnswLoadNeighbors_def HnswInitNeighborArray_def)
    next
      case (Some tids)
      obtain hcs es2 where l: "load_neighbor_elements es tids = (hcs, es2)" by force
      then show ?thesis using n t Some load_neighbor_elements_grows [OF l] by (auto simp: HnswLoadNeighbors_def split: if_splits)
    qed
  qed
  have "es' = es1 \<or> (\<exists>hcs' idx'. load_for_insert es1 (he_value e) r support 0 (na_items a) = Inr (hcs', idx', es'))"
    using assms n e by (auto simp: GetUpdateIndex_def LoadElementsForInsert_def rbind_InrE split: if_splits)
  then show ?thesis using g load_for_insert_grows [of es1 _ r support 0 "na_items a" _ _ es' "length es"] unfolding grows_def by metis
qed

lemma update_neighbors_repaired:
  "update_neighbors_loop es support p m chk work r = Inr (r', es') \<Longrightarrow> rel_wf r \<Longrightarrow> repaired r r' \<and> read_meta r' = read_meta r \<and> grows es es'"
proof (induction work arbitrary: es r)
  case Nil
  then show ?case using repaired_refl by simp
next
  case (Cons w work)
  obtain lc hc where w: "w = (lc, hc)" by (cases w)
  obtain idx es1 where g: "GetUpdateIndex es (hc_element hc) p (hc_distance hc) m (HnswGetLayerM m lc) lc r support = Inr (idx, es1)"
    using Cons.prems(1) w by (auto simp: rbind_InrE)
  note g1 = GetUpdateIndex_grows [OF g]
  show ?case
  proof (cases "idx = -1")
    case True
    then show ?thesis using Cons.prems Cons.IH [of es1 r] g w g1 grows_trans by auto
  next
    case False
    then obtain ne e r1 where u: "UpdateNeighborOnDisk ne e idx m (HnswGetLayerM m lc) lc r chk = Inr r1"
        "update_neighbors_loop es1 support p m chk work r1 = Inr (r', es')"
      using Cons.prems(1) g w by (auto simp: rbind_InrE)
    note u1 = UpdateNeighborOnDisk_repaired [OF u(1) Cons.prems(2)]
    then have "repaired r1 r' \<and> read_meta r' = read_meta r1 \<and> grows es1 es'" using Cons.IH [OF u(2)] repaired_wf by blast
    then show ?thesis using u1 g1 repaired_trans grows_trans by metis
  qed
qed

lemma hp_ok_size: "hp_ok p \<Longrightarrow> page_tuple p off = Inr old \<Longrightarrow> tuple_size old + ip_exact_free_space p \<le> BLCKSZ"
proof -
  assume ok: "hp_ok p" and "page_tuple p off = Inr old"
  then have "old \<in> set (ip_items p)" by (auto simp: page_tuple_def ip_get_def nth_r_def split: if_splits)
  then have "tuple_size old \<in> set (map tuple_size (ip_items p))" by simp
  then have "tuple_size old \<le> sum_list (map tuple_size (ip_items p))" using member_le_sum_list by blast
  then show ?thesis using ok by (auto simp: hp_ok_def ip_exact_free_space_def hnsw_const)
qed

lemma overwrite_repaired:
  assumes o: "overwrite_tuple r b off (NeighborTup nt) = Inr r'" and wf: "rel_wf r" and t: "tup_at r b off = Inr (NeighborTup n)"
    and v: "nt_version nt = nt_version n" and c: "nt_count nt = length (nt_indextids nt) mod 65536"
  shows "repaired r r' \<and> read_meta r' = read_meta r"
proof -
  obtain p where p: "read_page r b = Inr p" "page_tuple p off = Inr (NeighborTup n)" using t by (auto simp: tup_at_def rbind_InrE)
  have old: "off \<noteq> 0" "off - 1 < length (ip_items p)" "ip_items p ! (off - 1) = NeighborTup n"
    using p(2) by (auto simp: page_tuple_def ip_get_def nth_r_def split: if_splits)
  have fits: "tuple_size (NeighborTup nt) \<le> tuple_size (NeighborTup n) + ip_exact_free_space p"
    using o p(1) old by (auto simp: overwrite_tuple_def ip_overwrite_def Let_def ip_exact_free_space_def split: if_splits)
  let ?p = "p\<lparr>ip_upper := ip_upper p + tuple_size (NeighborTup n) - tuple_size (NeighborTup nt), ip_items := (ip_items p)[off - 1 := NeighborTup nt]\<rparr>"
  note w = rel_wf_page [OF wf p(1)]
  have e: "r' = write_page r b ?p" using o p(1) hp_ok_overwrite(1) [OF w(2) p(2) fits] by (simp add: overwrite_tuple_def)
  have "rel_wf r'" using overwrite_replace [OF wf p fits] o by (fastforce simp: replace_ok_def)
  moreover have "same_pages r r'" unfolding e by (rule write_page_pages [OF p(1)]) simp
  moreover have "tuple_size (NeighborTup nt) \<le> BLCKSZ" using fits hp_ok_size [OF w(2) p(2)] by simp
  then have "length (nt_indextids nt) < 65536"
    using MAXALIGN_ge [of "offsetof_NeighborTuple_indextids + length (nt_indextids nt) * sizeof_ItemPointerData"] by (simp add: tuple_size_def hnsw_const)
  then have "nt_count nt = length (nt_indextids nt)" using c by simp
  moreover have "tup_at r' d o' = (if d = b \<and> o' = off then Inr (NeighborTup nt) else tup_at r d o')" for d o'
    using p(1) unfolding e tup_at_def read_write_page [OF read_page_bounds [OF p(1)]]
    by (auto simp only: page_tuple_update [OF p(2)] rbind_simps split: if_splits)
  ultimately have "repaired r r'" using t v by (auto simp: repaired_def renewed_def e)
  moreover have "read_meta r' = read_meta r" unfolding e by (rule read_meta_write_page [OF w(1)])
  ultimately show ?thesis by blast
qed

text \<open>An element whose recorded position, neighbour tuple and version are those of its tuple.\<close>

definition anchored :: "Relation \<Rightarrow> HnswElementData \<Rightarrow> bool" where
  "anchored r e \<longleftrightarrow> (\<exists>et. tup_at r (he_blkno e) (he_offno e) = Inr (ElementTup et) \<and>
     et_neighbortid et = ItemPointerSet (he_neighborPage e) (he_neighborOffno e) \<and> et_version et = he_version e)"

lemma RepairGraphElement_repaired:
  assumes a: "RepairGraphElement vs es p entry = Inr (vs', es')" and wf: "rel_wf (vs_index vs)" and l: "linked (vs_index vs)"
    and p: "p < length es" "entry \<noteq> Some p" and an: "anchored (vs_index vs) (es ! p)"
  shows "repaired (vs_index vs) (vs_index vs')" "read_meta (vs_index vs') = read_meta (vs_index vs)" "vs' = vs\<lparr>vs_index := vs_index vs'\<rparr>" "kept_cells p es es'"
proof -
  let ?r = "vs_index vs"
  define es1 where "es1 = es[p := (HnswInitNeighbors (es ! p) (vs_m vs))\<lparr>he_heaptids := []\<rparr>]"
  have k1: "kept_cells p es es1" using p(1) by (simp add: es1_def kept_cells_def same_pos_def HnswInitNeighbors_def)
  have skip: "\<exists>b. (case entry of None \<Rightarrow> Inr False
      | Some q \<Rightarrow> rbind (nth_r es q) (\<lambda>ep. Inr (he_blkno (es ! p) = he_blkno ep \<and> he_offno (es ! p) = he_offno ep))) = Inr b"
    using a p(1) by (auto simp: RepairGraphElement_def rbind_InrE nth_r_eq)
  have "vs' = vs \<and> es' = es \<or> (\<exists>es2 e nt r1 r2. HnswFindElementNeighbors es1 True p entry (Some ?r) (vs_support vs) (vs_m vs) (vs_efConstruction vs) True = Inr es2 \<and>
      nth_r es2 p = Inr e \<and> HnswSetNeighborTuple es2 zero_ntup e (vs_m vs) = Inr nt \<and>
      overwrite_tuple ?r (he_neighborPage e) (he_neighborOffno e) (NeighborTup nt) = Inr r1 \<and>
      HnswUpdateNeighborsOnDisk es2 r1 (vs_support vs) p (vs_m vs) True = Inr (r2, es') \<and> vs' = vs\<lparr>vs_index := r2\<rparr>)"
    using a p(1) skip unfolding es1_def by (auto simp: RepairGraphElement_def rbind_InrE Let_def split: if_splits)
  then have "repaired ?r (vs_index vs') \<and> read_meta (vs_index vs') = read_meta ?r \<and> vs' = vs\<lparr>vs_index := vs_index vs'\<rparr> \<and> kept_cells p es es'"
  proof (elim disjE exE conjE)
    assume "vs' = vs" "es' = es"
    then show ?thesis using repaired_refl [OF wf] kept_cells_refl [OF p(1)] by simp
  next
    fix es2 e nt r1 r2
    assume f: "HnswFindElementNeighbors es1 True p entry (Some ?r) (vs_support vs) (vs_m vs) (vs_efConstruction vs) True = Inr es2"
      and e: "nth_r es2 p = Inr e" and nt: "HnswSetNeighborTuple es2 zero_ntup e (vs_m vs) = Inr nt"
      and o: "overwrite_tuple ?r (he_neighborPage e) (he_neighborOffno e) (NeighborTup nt) = Inr r1"
      and u: "HnswUpdateNeighborsOnDisk es2 r1 (vs_support vs) p (vs_m vs) True = Inr (r2, es')" and v: "vs' = vs\<lparr>vs_index := r2\<rparr>"
    have "kept_cells p es1 es2" by (rule HnswFindElementNeighbors_keeps [OF f]) (use p in \<open>simp_all add: es1_def\<close>)
    then have k2: "kept_cells p es es2" using k1 kept_cells_trans by blast
    then have "same_pos (es ! p) e" using e by (simp add: kept_cells_def nth_r_eq)
    then obtain et where et: "tup_at ?r (he_blkno e) (he_offno e) = Inr (ElementTup et)"
        "et_neighbortid et = ItemPointerSet (he_neighborPage e) (he_neighborOffno e)" "et_version et = he_version e"
      using an by (auto simp: anchored_def same_pos_def)
    obtain n where n: "nbr_at ?r et = Inr (NeighborTup n)" "nt_version n = et_version et" using linkedD [OF l et(1)] by blast
    have nt': "nt_version nt = he_version e" "nt_count nt = length (nt_indextids nt) mod 65536"
      using nt by (auto simp: HnswSetNeighborTuple_def rbind_InrE)
    have r1: "repaired ?r r1 \<and> read_meta r1 = read_meta ?r"
      by (rule overwrite_repaired [OF o wf]) (use n et nt' in auto)
    obtain work where "update_neighbors_loop es2 (vs_support vs) p (vs_m vs) True work r1 = Inr (r2, es')"
      using u by (auto simp: HnswUpdateNeighborsOnDisk_def rbind_InrE)
    then have r2: "repaired r1 r2 \<and> read_meta r2 = read_meta r1 \<and> grows es2 es'" using update_neighbors_repaired r1 repaired_wf by blast
    have "kept_cells p es2 es'" by (rule kept_cells_grows) (use r2 k2 in \<open>simp_all add: kept_cells_def\<close>)
    then show ?thesis using v r1 r2 k2 repaired_trans kept_cells_trans by (auto simp: v)
  qed
  then show "repaired ?r (vs_index vs')" "read_meta (vs_index vs') = read_meta ?r" "vs' = vs\<lparr>vs_index := vs_index vs'\<rparr>" "kept_cells p es es'"
    by simp_all
qed

section \<open>The entry point\<close>

abbreviation live_at :: "Relation \<Rightarrow> HnswElementData \<Rightarrow> bool" where
  "live_at r e \<equiv> tup_in r (\<lambda>t. tids_of t \<noteq> []) (high_tid e)"

text \<open>The metapage names no entry point or an element with heap TIDs.\<close>

definition entry_live :: "Relation \<Rightarrow> bool" where
  "entry_live r \<longleftrightarrow> (\<forall>mp. read_meta r = Inr mp \<longrightarrow> mp_entryBlkno mp = InvalidBlockNumber \<or>
     tup_in r (\<lambda>t. tids_of t \<noteq> []) (ItemPointerSet (mp_entryBlkno mp) (mp_entryOffno mp)))"

lemma tids_of_element: "tids_of t \<noteq> [] \<Longrightarrow> \<exists>et. t = ElementTup et"
  by (cases t) (simp_all add: tids_of_def)

lemma tup_in_live:
  "tup_in r (\<lambda>t. tids_of t \<noteq> []) ip \<Longrightarrow> \<exists>et. tup_at r (ip_blkid ip) (ip_posid ip) = Inr (ElementTup et) \<and> tup_tids et \<noteq> []"
  unfolding tup_in_def by (elim exE conjE, frule tids_of_element) (auto simp: tids_of_def)

lemma repaired_live:
  assumes "repaired r r'"
  shows "tup_in r' (\<lambda>t. tids_of t \<noteq> []) ip \<longleftrightarrow> tup_in r (\<lambda>t. tids_of t \<noteq> []) ip"
  using tids_of_element repaired_element [OF assms] unfolding tup_in_def by metis

lemma repaired_anchored: "repaired r r' \<Longrightarrow> anchored r e \<Longrightarrow> anchored r' e"
  unfolding anchored_def using repaired_element by blast

lemma entry_live_cong: "repaired r r' \<Longrightarrow> read_meta r' = read_meta r \<Longrightarrow> entry_live r \<Longrightarrow> entry_live r'"
  unfolding entry_live_def using repaired_live by auto

lemma HnswUpdateMetaPage_repaired:
  assumes "HnswUpdateMetaPage r u e ip = Inr r'" "rel_wf r"
  shows "repaired r r'" "\<exists>mp. read_meta r = Inr mp \<and> read_meta r' = Inr (HnswUpdateMetaPageInfo mp u e ip)"
proof -
  obtain mp where mp: "read_meta r = Inr mp" "r' = write_meta r (HnswUpdateMetaPageInfo mp u e ip)"
    using assms(1) by (auto simp: HnswUpdateMetaPage_def rbind_InrE)
  note w = write_meta_spec [OF mp(1), of "HnswUpdateMetaPageInfo mp u e ip", folded mp(2)]
  have "next_of r' = next_of r" by (simp add: next_of_def w(2) fun_eq_iff)
  moreover have "rel_wf r'" unfolding mp(2) by (rule write_meta_wf [OF assms(2) mp(1)])
  moreover have "rel_options r' = rel_options r" by (simp add: mp(2) write_meta_def)
  ultimately show "repaired r r'" using w by (simp add: repaired_def same_pages_def renewed_def)
  show "\<exists>mp. read_meta r = Inr mp \<and> read_meta r' = Inr (HnswUpdateMetaPageInfo mp u e ip)" using mp(1) w(1) by blast
qed

lemma HnswUpdateMetaPage_live:
  assumes "HnswUpdateMetaPage r u (Some e) ip = Inr r'" "rel_wf r" "u = UpdateAlways \<or> entry_live r" "live_at r e"
  shows "entry_live r'"
proof -
  note rp = HnswUpdateMetaPage_repaired [OF assms(1,2)]
  obtain mp where mp: "read_meta r = Inr mp" "read_meta r' = Inr (HnswUpdateMetaPageInfo mp u (Some e) ip)" using rp(2) by blast
  define mp' where "mp' = HnswUpdateMetaPageInfo mp u (Some e) ip"
  have "mp_entryBlkno mp' = he_blkno e \<and> mp_entryOffno mp' = he_offno e \<or>
      u \<noteq> UpdateAlways \<and> mp_entryBlkno mp' = mp_entryBlkno mp \<and> mp_entryOffno mp' = mp_entryOffno mp"
    by (auto simp: HnswUpdateMetaPageInfo_def Let_def mp'_def)
  then have "mp_entryBlkno mp' = InvalidBlockNumber \<or> tup_in r (\<lambda>t. tids_of t \<noteq> []) (ItemPointerSet (mp_entryBlkno mp') (mp_entryOffno mp'))"
  proof (elim disjE conjE)
    assume "mp_entryBlkno mp' = he_blkno e" "mp_entryOffno mp' = he_offno e"
    then show ?thesis using assms(4) by (simp add: high_tid_def)
  next
    assume "u \<noteq> UpdateAlways" "mp_entryBlkno mp' = mp_entryBlkno mp" "mp_entryOffno mp' = mp_entryOffno mp"
    then show ?thesis using assms(3) mp(1) by (simp add: entry_live_def)
  qed
  then show ?thesis using mp(2) [folded mp'_def] repaired_live [OF rp(1)] by (simp add: entry_live_def)
qed

lemma HnswUpdateMetaPage_none:
  assumes "HnswUpdateMetaPage r UpdateAlways None ip = Inr r'" "rel_wf r"
  shows "entry_live r'"
proof -
  obtain mp where "read_meta r' = Inr (HnswUpdateMetaPageInfo mp UpdateAlways None ip)" using HnswUpdateMetaPage_repaired(2) [OF assms] by blast
  moreover have "mp_entryBlkno (HnswUpdateMetaPageInfo mp UpdateAlways None ip) = InvalidBlockNumber"
    by (simp add: HnswUpdateMetaPageInfo_def Let_def)
  ultimately show ?thesis by (simp add: entry_live_def)
qed

section \<open>Repairing elements\<close>

lemma RepairGraphElement_step:
  assumes "RepairGraphElement vs es p entry = Inr (vs', es')" "rel_wf (vs_index vs)" "linked (vs_index vs)" "p < length es" "entry \<noteq> Some p"
    "anchored (vs_index vs) (es ! p)"
  shows "repaired (vs_index vs) (vs_index vs') \<and> vs' = vs\<lparr>vs_index := vs_index vs'\<rparr> \<and> read_meta (vs_index vs') = read_meta (vs_index vs) \<and>
    p < length es' \<and> high_tid (es' ! p) = high_tid (es ! p)"
  using RepairGraphElement_repaired [OF assms] by (simp add: kept_cells_def same_pos_def high_tid_def)

lemma with_entry_facts:
  assumes "with_entry es ep = (es', q)" "p < length es"
  shows "p < length es'" "es' ! p = es ! p" "q \<noteq> Some p"
  using assms by (auto simp: with_entry_def nth_append split: option.splits)

lemma repair_element_ok:
  assumes a: "repair_element vs e = Inr vs'" and wf: "rel_wf (vs_index vs)" and l: "linked (vs_index vs)" and an: "anchored (vs_index vs) e"
    and lv: "live_at (vs_index vs) e" and el: "entry_live (vs_index vs)"
  shows "repaired (vs_index vs) (vs_index vs') \<and> vs' = vs\<lparr>vs_index := vs_index vs'\<rparr> \<and> entry_live (vs_index vs')"
proof -
  let ?r = "vs_index vs"
  obtain need where n: "NeedsUpdated vs e = Inr need" using a by (auto simp: repair_element_def rbind_InrE)
  show ?thesis
  proof (cases need)
    case False
    then show ?thesis using a n repaired_refl [OF wf] el by (simp add: repair_element_def)
  next
    case True
    then obtain ep0 where ep0: "HnswGetEntryPoint ?r = Inr ep0" using a n by (auto simp: repair_element_def rbind_InrE)
    obtain es q where w: "with_entry [e] ep0 = (es, q)" by force
    have eq: "repair_element vs e = rbind (RepairGraphElement vs es 0 q) (\<lambda>(vs1, elems1). rbind (nth_r elems1 0) (\<lambda>e.
        rbind (case q of None \<Rightarrow> Inr True | Some q \<Rightarrow> rbind (nth_r elems1 q) (\<lambda>ee. Inr (he_level e > he_level ee))) (\<lambda>upd.
          if upd then rbind (HnswUpdateMetaPage (vs_index vs1) UpdateGreater (Some e) InvalidBlockNumber) (\<lambda>index. Inr (vs1\<lparr>vs_index := index\<rparr>))
          else Inr vs1)))"
      using n True ep0 w by (simp add: repair_element_def)
    obtain vs1 es1 e1 upd where g: "RepairGraphElement vs es 0 q = Inr (vs1, es1)"
      and e1: "nth_r es1 0 = Inr e1" and u: "(if upd then rbind (HnswUpdateMetaPage (vs_index vs1) UpdateGreater (Some e1) InvalidBlockNumber)
           (\<lambda>index. Inr (vs1\<lparr>vs_index := index\<rparr>)) else Inr vs1) = Inr vs'"
      using a [unfolded eq] by (auto simp: rbind_InrE)
    note we = with_entry_facts [OF w, of 0, simplified]
    have s: "repaired ?r (vs_index vs1)" "vs1 = vs\<lparr>vs_index := vs_index vs1\<rparr>" "read_meta (vs_index vs1) = read_meta ?r" "high_tid e1 = high_tid e"
      using RepairGraphElement_step [OF g wf l] we an e1 by (auto simp: nth_r_eq)
    have el1: "entry_live (vs_index vs1)" by (rule entry_live_cong [OF s(1,3) el])
    show ?thesis
    proof (cases upd)
      case False
      then show ?thesis using u s el1 by auto
    next
      case up: True
      then obtain r2 where r2: "HnswUpdateMetaPage (vs_index vs1) UpdateGreater (Some e1) InvalidBlockNumber = Inr r2" "vs' = vs1\<lparr>vs_index := r2\<rparr>"
        using u by (auto simp: rbind_InrE)
      have "live_at (vs_index vs1) e1" using lv repaired_live [OF s(1)] s(4) by simp
      then have "entry_live r2" using HnswUpdateMetaPage_live [OF r2(1) repaired_wf [OF s(1)]] el1 by blast
      moreover have "repaired ?r r2" using repaired_trans [OF s(1) HnswUpdateMetaPage_repaired(1) [OF r2(1) repaired_wf [OF s(1)]]] .
      moreover have "vs' = vs\<lparr>vs_index := r2\<rparr>" using r2(2) by (subst (asm) s(2)) simp
      ultimately show ?thesis by simp
    qed
  qed
qed

lemma repair_elements_ok:
  "\<lbrakk>repair_elements es vs = Inr vs'; rel_wf (vs_index vs); linked (vs_index vs); \<forall>e\<in>set es. anchored (vs_index vs) e \<and> live_at (vs_index vs) e;
    entry_live (vs_index vs)\<rbrakk> \<Longrightarrow>
   repaired (vs_index vs) (vs_index vs') \<and> vs' = vs\<lparr>vs_index := vs_index vs'\<rparr> \<and> entry_live (vs_index vs')"
proof (induction es arbitrary: vs)
  case Nil
  then show ?case using repaired_refl by simp
next
  case (Cons e es)
  obtain vs1 where v1: "repair_element vs e = Inr vs1" "repair_elements es vs1 = Inr vs'" using Cons.prems(1) by (auto simp: rbind_InrE)
  have s: "repaired (vs_index vs) (vs_index vs1)" "vs1 = vs\<lparr>vs_index := vs_index vs1\<rparr>" "entry_live (vs_index vs1)"
    using repair_element_ok [OF v1(1) Cons.prems(2,3)] Cons.prems(4,5) by auto
  have "\<forall>e\<in>set es. anchored (vs_index vs1) e \<and> live_at (vs_index vs1) e"
    using Cons.prems(4) repaired_anchored [OF s(1)] repaired_live [OF s(1)] by simp
  then have r: "repaired (vs_index vs1) (vs_index vs') \<and> vs' = vs1\<lparr>vs_index := vs_index vs'\<rparr> \<and> entry_live (vs_index vs')"
    using Cons.IH [OF v1(2) repaired_wf [OF s(1)] repaired_linked [OF s(1) Cons.prems(3)]] s(3) by blast
  have "vs1\<lparr>vs_index := x\<rparr> = vs\<lparr>vs_index := x\<rparr>" for x by (subst s(2)) simp
  then show ?case using r repaired_trans [OF s(1)] by simp
qed

lemma load_elements_ok:
  "\<lbrakk>load_elements b off ts = Inr es; \<And>j. j < length ts \<Longrightarrow> tup_at r b (off + j) = Inr (ts ! j)\<rbrakk> \<Longrightarrow> \<forall>e\<in>set es. anchored r e \<and> live_at r e"
proof (induction b off ts arbitrary: es rule: load_elements.induct)
  case (2 b off n ts)
  then show ?case using "2.prems"(2) [of "Suc _"] by simp
next
  case (3 b off et ts)
  obtain first es1 where f: "nth_r (et_heaptids et) 0 = Inr first" "load_elements b (Suc off) ts = Inr es1"
      "es = (if ItemPointerIsValid first then HnswLoadElementFromTuple (HnswInitElementFromBlock b off) et False True # es1 else es1)"
    using "3.prems"(1) by (auto simp: rbind_InrE)
  have rest: "\<forall>e\<in>set es1. anchored r e \<and> live_at r e" using "3.IH" [OF f(1,2)] "3.prems"(2) [of "Suc _"] by simp
  have at: "tup_at r b off = Inr (ElementTup et)" using "3.prems"(2) [of 0] by simp
  let ?e = "HnswLoadElementFromTuple (HnswInitElementFromBlock b off) et False True"
  have "anchored r ?e" using at by (simp add: anchored_def HnswLoadElementFromTuple_def HnswInitElementFromBlock_def Let_def ItemPointer_collapse)
  moreover have "live_at r ?e" if "ItemPointerIsValid first"
  proof -
    have "tup_tids et \<noteq> []" using f(1) that by (cases "et_heaptids et") (auto simp: tup_tids_def nth_r_def hnsw_const)
    then show ?thesis using at by (simp add: tup_in_def tids_of_def HnswLoadElementFromTuple_def HnswInitElementFromBlock_def Let_def)
  qed
  ultimately show ?case using rest f(3) by simp
qed simp

section \<open>The pass\<close>

definition repair_inv :: "HnswVacuumState \<Rightarrow> HnswVacuumState \<Rightarrow> bool" where
  "repair_inv vs0 vs \<longleftrightarrow> linked (vs_index vs) \<and> repaired (vs_index vs0) (vs_index vs) \<and> vs = vs0\<lparr>vs_index := vs_index vs\<rparr> \<and> entry_live (vs_index vs)"

lemma repair_page_ok:
  assumes a: "repair_page b vs = Inr (n, vs')" and I: "repair_inv vs0 vs" and wf: "rel_wf (vs_index vs)"
  shows "next_of (vs_index vs) b = Some n \<and> repair_inv vs0 vs' \<and> repaired (vs_index vs) (vs_index vs')"
proof -
  obtain p es where p: "read_page (vs_index vs) b = Inr p" "load_elements b FirstOffsetNumber (ip_items p) = Inr es" "repair_elements es vs = Inr vs'"
      "n = hp_nextblkno p" using a by (auto simp: repair_page_def rbind_InrE)
  have "\<forall>e\<in>set es. anchored (vs_index vs) e \<and> live_at (vs_index vs) e"
    by (rule load_elements_ok [OF p(2)]) (use p(1) in \<open>simp add: tup_at_def page_tuple_def ip_get_def FirstOffsetNumber_def\<close>)
  then have r: "repaired (vs_index vs) (vs_index vs') \<and> vs' = vs\<lparr>vs_index := vs_index vs'\<rparr> \<and> entry_live (vs_index vs')"
    using repair_elements_ok [OF p(3) wf] I by (simp add: repair_inv_def)
  have e: "vs = vs0\<lparr>vs_index := vs_index vs\<rparr>" using I by (simp add: repair_inv_def)
  have "vs\<lparr>vs_index := x\<rparr> = vs0\<lparr>vs_index := x\<rparr>" for x by (subst e) simp
  then have "repair_inv vs0 vs'" using r I repaired_trans repaired_linked by (fastforce simp: repair_inv_def)
  then show ?thesis using r next_of_page [OF p(1)] p(4) by simp
qed

interpretation repairing: page_walk repair_page vs_index "\<lambda>_. repair_inv vs0" for vs0
proof
  fix b s n s' D
  assume a: "repair_page b s = Inr (n, s')" and i: "repair_inv vs0 s" "rel_wf (vs_index s)"
  show "next_of (vs_index s) b = Some n \<and> repair_inv vs0 s' \<and> rel_wf (vs_index s') \<and> next_of (vs_index s') = next_of (vs_index s) \<and>
      length (rel_blocks (vs_index s')) = length (rel_blocks (vs_index s))"
    using repair_page_ok [OF a i] by (auto simp: repaired_def same_pages_def)
qed

lemma HnswLoadElement_anchored:
  assumes "HnswLoadElement es p False None r support True None = Inr (d, es')"
  shows "p < length es" "es' = es[p := es' ! p]" "anchored r (es' ! p)" "high_tid (es' ! p) = high_tid (es ! p)"
    "\<exists>et. tup_at r (he_blkno (es ! p)) (he_offno (es ! p)) = Inr (ElementTup et)"
proof -
  have p: "p < length es" using assms by (auto simp: HnswLoadElement_def rbind_InrE nth_r_eq)
  obtain pg et where l: "read_page r (he_blkno (es ! p)) = Inr pg" "element_tuple pg (he_offno (es ! p)) = Inr et"
      "es' = es[p := HnswLoadElementFromTuple (es ! p) et True True]"
    using assms p by (auto simp: HnswLoadElement_def HnswLoadElementImpl_def rbind_InrE)
  have t: "tup_at r (he_blkno (es ! p)) (he_offno (es ! p)) = Inr (ElementTup et)" using l(1) l(2) [unfolded element_tuple_at] by (simp add: tup_at_def)
  have e: "es' ! p = HnswLoadElementFromTuple (es ! p) et True True" using p l(3) by simp
  show "p < length es" "es' = es[p := es' ! p]" using p l(3) e by simp_all
  show "anchored r (es' ! p)" unfolding e using t by (simp add: anchored_def HnswLoadElementFromTuple_def Let_def ItemPointer_collapse)
  show "high_tid (es' ! p) = high_tid (es ! p)" unfolding e by (simp add: high_tid_def HnswLoadElementFromTuple_def Let_def)
  show "\<exists>et. tup_at r (he_blkno (es ! p)) (he_offno (es ! p)) = Inr (ElementTup et)" using t by blast
qed

lemma repair_highest_ok:
  assumes a: "repair_highest vs = Inr (vs', es)" and wf: "rel_wf (vs_index vs)" and l: "linked (vs_index vs)"
  shows "repaired (vs_index vs) (vs_index vs') \<and> vs' = vs\<lparr>vs_index := vs_index vs'\<rparr> \<and> read_meta (vs_index vs') = read_meta (vs_index vs) \<and>
    0 < length es \<and> high_tid (es ! 0) = high_tid (vs_highestPoint vs)"
proof -
  obtain d es1 where ld: "HnswLoadElement [vs_highestPoint vs] 0 False None (vs_index vs) (vs_support vs) True None = Inr (d, es1)"
    using a by (auto simp: repair_highest_def rbind_InrE)
  note la = HnswLoadElement_anchored [OF ld]
  have len: "0 < length es1" using la(2) by (metis la(1) length_list_update)
  obtain need where n: "NeedsUpdated vs (es1 ! 0) = Inr need" using a ld len by (auto simp: repair_highest_def rbind_InrE nth_r_eq)
  show ?thesis
  proof (cases need)
    case False
    then show ?thesis using a ld len n la(4) repaired_refl [OF wf] by (simp add: repair_highest_def)
  next
    case True
    then obtain ep where ep: "HnswGetEntryPoint (vs_index vs) = Inr ep" using a ld len n by (auto simp: repair_highest_def rbind_InrE)
    obtain es2 q where w: "with_entry es1 ep = (es2, q)" by force
    note we = with_entry_facts [OF w len]
    have "RepairGraphElement vs es2 0 q = Inr (vs', es)" using a ld len n True ep w by (simp add: repair_highest_def)
    then show ?thesis using RepairGraphElement_step [OF _ wf l we(1,3)] we(2) la(3,4) by auto
  qed
qed

text \<open>The entry point is on the chain of pages.\<close>

definition entry_on_chain :: "Relation \<Rightarrow> bool" where
  "entry_on_chain r \<longleftrightarrow> (\<forall>mp. read_meta r = Inr mp \<longrightarrow> mp_entryBlkno mp = InvalidBlockNumber \<or> mp_entryBlkno mp \<in> set (page_chain r))"

lemma HnswGetEntryPoint_eq:
  assumes "HnswGetEntryPoint r = Inr ep" "read_meta r = Inr mp"
  shows "case ep of None \<Rightarrow> mp_entryBlkno mp = InvalidBlockNumber | Some e \<Rightarrow> high_tid e = ItemPointerSet (mp_entryBlkno mp) (mp_entryOffno mp)"
  using assms by (auto simp: HnswGetEntryPoint_def HnswGetMetaPageInfo_def high_tid_def HnswInitElementFromBlock_def rbind_InrE split: if_splits)

lemma RepairGraphEntryPoint_ok:
  assumes a: "RepairGraphEntryPoint vs = Inr vs'" and wf: "rel_wf (vs_index vs)" and l: "linked (vs_index vs)"
    and d: "vs_deleted vs = {ip. ip_blkid ip \<in> C \<and> tup_in (vs_index vs) empty_tuple ip}"
    and h: "he_blkno (vs_highestPoint vs) = InvalidBlockNumber \<or> live_at (vs_index vs) (vs_highestPoint vs)"
    and c: "read_meta (vs_index vs) = Inr mp" "mp_entryBlkno mp = InvalidBlockNumber \<or> mp_entryBlkno mp \<in> C"
  shows "repaired (vs_index vs) (vs_index vs') \<and> vs' = vs\<lparr>vs_index := vs_index vs'\<rparr> \<and> entry_live (vs_index vs')"
proof -
  let ?r = "vs_index vs" and ?hv = "he_blkno (vs_highestPoint vs) \<noteq> InvalidBlockNumber"
  obtain vs1 es where s: "(if ?hv then repair_highest vs else Inr (vs, [vs_highestPoint vs])) = Inr (vs1, es)"
    using a by (auto simp: RepairGraphEntryPoint_def repair_entry_def Let_def rbind_InrE split: if_splits)
  have h1: "repaired ?r (vs_index vs1) \<and> vs1 = vs\<lparr>vs_index := vs_index vs1\<rparr> \<and> read_meta (vs_index vs1) = read_meta ?r \<and>
      0 < length es \<and> high_tid (es ! 0) = high_tid (vs_highestPoint vs)"
  proof (cases ?hv)
    case True
    then show ?thesis using s repair_highest_ok [OF _ wf l] by simp
  next
    case False
    then have "vs1 = vs" "es = [vs_highestPoint vs]" using s by auto
    then show ?thesis using repaired_refl [OF wf] by simp
  qed
  then have r1: "repaired ?r (vs_index vs1)" and v1: "vs1 = vs\<lparr>vs_index := vs_index vs1\<rparr>" and m1: "read_meta (vs_index vs1) = Inr mp" and len: "0 < length es"
    and ht: "high_tid (es ! 0) = high_tid (vs_highestPoint vs)" using c(1) by simp_all
  have upd: "vs1\<lparr>vs_index := x\<rparr> = vs\<lparr>vs_index := x\<rparr>" for x by (subst v1) simp
  note w1 = repaired_wf [OF r1]
  obtain ep where ep: "HnswGetEntryPoint (vs_index vs1) = Inr ep" using a s by (auto simp: RepairGraphEntryPoint_def repair_entry_def Let_def rbind_InrE)
  note me = HnswGetEntryPoint_eq [OF ep m1]
  show ?thesis
  proof (cases ep)
    case None
    then have "vs' = vs1" using a s ep by (simp add: RepairGraphEntryPoint_def repair_entry_def Let_def)
    moreover have "entry_live (vs_index vs1)" using None me m1 by (simp add: entry_live_def)
    ultimately show ?thesis using r1 v1 by simp
  next
    case (Some e)
    then have et: "high_tid e = ItemPointerSet (mp_entryBlkno mp) (mp_entryOffno mp)" using me by simp
    show ?thesis
    proof (cases "DeletedContains (vs_deleted vs1) (ItemPointerSet (he_blkno e) (he_offno e))")
      case True
      then obtain hp r2 where hp: "(if ?hv then rbind (nth_r es 0) (\<lambda>h. Inr (Some h)) else Inr None) = Inr hp"
          and r2: "HnswUpdateMetaPage (vs_index vs1) UpdateAlways hp InvalidBlockNumber = Inr r2" and v': "vs' = vs1\<lparr>vs_index := r2\<rparr>"
        using a s ep Some by (auto simp: RepairGraphEntryPoint_def repair_entry_def Let_def rbind_InrE)
      have "entry_live r2"
      proof (cases ?hv)
        case hv: True
        then have hp0: "hp = Some (es ! 0)" using hp len by simp
        have "live_at (vs_index vs1) (es ! 0)" using h hv repaired_live [OF r1] ht by simp
        then show ?thesis using HnswUpdateMetaPage_live [OF r2 [unfolded hp0] w1] by simp
      next
        case False
        then show ?thesis using hp r2 HnswUpdateMetaPage_none [OF _ w1] by simp
      qed
      moreover have "repaired ?r r2" using repaired_trans [OF r1 HnswUpdateMetaPage_repaired(1) [OF r2 w1]] .
      ultimately show ?thesis using v' upd by simp
    next
      case no: False
      let ?k = "length es"
      obtain d2 es1 where ld: "HnswLoadElement (es @ [e]) ?k False None (vs_index vs1) (vs_support vs1) True None = Inr (d2, es1)"
        using a s ep Some no by (auto simp: RepairGraphEntryPoint_def repair_entry_def Let_def rbind_InrE)
      note la = HnswLoadElement_anchored [OF ld]
      have k1: "?k < length es1" using la(1,2) by (metis length_list_update)
      obtain need where n: "NeedsUpdated vs1 (es1 ! ?k) = Inr need"
        using a s ep Some no ld k1 by (auto simp: RepairGraphEntryPoint_def repair_entry_def Let_def rbind_InrE nth_r_eq)
      have live: "entry_live (vs_index vs1)"
      proof -
        obtain t where t: "tup_at (vs_index vs1) (he_blkno e) (he_offno e) = Inr (ElementTup t)" using la(5) by auto
        then have t0: "tup_at ?r (he_blkno e) (he_offno e) = Inr (ElementTup t)" using repaired_element [OF r1] by simp
        have del: "vs_deleted vs1 = vs_deleted vs" using arg_cong [OF v1, of vs_deleted] by simp
        have "he_blkno e = mp_entryBlkno mp" "he_offno e = mp_entryOffno mp" using et by (simp_all add: high_tid_def)
        then have "mp_entryBlkno mp = InvalidBlockNumber \<or> tup_tids t \<noteq> []"
          using no c(2) t0 d unfolding del by (auto simp: DeletedContains_def tup_in_def empty_tuple_def)
        then show ?thesis using m1 t \<open>he_blkno e = mp_entryBlkno mp\<close> \<open>he_offno e = mp_entryOffno mp\<close>
          by (auto simp: entry_live_def tup_in_def tids_of_def)
      qed
      show ?thesis
      proof (cases need)
        case False
        then have "vs' = vs1" using a s ep Some no ld k1 n by (simp add: RepairGraphEntryPoint_def repair_entry_def Let_def)
        then show ?thesis using r1 v1 live by simp
      next
        case True
        define es2 where "es2 = (if ?hv then es1[0 := (es1 ! 0)\<lparr>he_neighbors := None\<rparr>] else es1)"
        obtain es3 where g: "RepairGraphElement vs1 es2 ?k (if ?hv then Some 0 else None) = Inr (vs', es3)"
          using a s ep Some no ld k1 n True unfolding es2_def by (auto simp: RepairGraphEntryPoint_def repair_entry_def Let_def rbind_InrE)
        have k2: "?k < length es2" "es2 ! ?k = es1 ! ?k" using k1 len by (simp_all add: es2_def)
        have "repaired (vs_index vs1) (vs_index vs') \<and> vs' = vs1\<lparr>vs_index := vs_index vs'\<rparr> \<and> read_meta (vs_index vs') = read_meta (vs_index vs1)"
          using RepairGraphElement_step [OF g w1 repaired_linked [OF r1 l] k2(1)] k2(2) la(3) len by auto
        then show ?thesis using repaired_trans [OF r1] entry_live_cong live upd by metis
      qed
    qed
  qed
qed

lemma RepairGraph_ok:
  assumes a: "RepairGraph vs = Inr vs'" and wf: "rel_wf (vs_index vs)" and l: "linked (vs_index vs)"
    and d: "vs_deleted vs = {ip. ip_blkid ip \<in> C \<and> tup_in (vs_index vs) empty_tuple ip}"
    and h: "he_blkno (vs_highestPoint vs) = InvalidBlockNumber \<or> live_at (vs_index vs) (vs_highestPoint vs)"
    and c: "read_meta (vs_index vs) = Inr mp" "mp_entryBlkno mp = InvalidBlockNumber \<or> mp_entryBlkno mp \<in> C"
  shows "repaired (vs_index vs) (vs_index vs') \<and> linked (vs_index vs') \<and> vs' = vs\<lparr>vs_index := vs_index vs'\<rparr> \<and> entry_live (vs_index vs')"
proof -
  obtain vs1 where e: "RepairGraphEntryPoint vs = Inr vs1"
    and w: "walk_pages (Suc (length (rel_blocks (vs_index vs1)))) repair_page HNSW_HEAD_BLKNO vs1 = Inr vs'"
    using a by (auto simp: RepairGraph_def rbind_InrE)
  have s: "repaired (vs_index vs) (vs_index vs1)" "vs1 = vs\<lparr>vs_index := vs_index vs1\<rparr>" "entry_live (vs_index vs1)"
    using RepairGraphEntryPoint_ok [OF e wf l d h c] by auto
  then have i: "repair_inv vs vs1" using repaired_linked [OF s(1) l] unfolding repair_inv_def by blast
  have "repair_inv vs vs'" by (rule repairing.pass_inv(1) [OF w i repaired_wf [OF s(1)]])
  then show ?thesis by (simp add: repair_inv_def)
qed

section \<open>The whole VACUUM\<close>

text \<open>What a VACUUM does to an element tuple.\<close>

definition vacuumed :: "(ItemPointerData \<Rightarrow> bool) \<Rightarrow> HnswElementTupleData \<Rightarrow> HnswElementTupleData" where
  "vacuumed cb et = (let t = trim_tids cb et in if to_mark t then clear_element t else t)"

lemma tup_tids_vacuumed [simp]: "tup_tids (vacuumed cb et) = filter (\<lambda>t. \<not> cb t) (tup_tids et)"
  by (simp add: vacuumed_def Let_def)

lemma page_chain_cong: "same_pages r r' \<Longrightarrow> page_chain r' = page_chain r"
  using chain_from_cong [of r' r] by (simp add: page_chain_def same_pages_def)

lemma map_sum_Inr: "map_sum id f x = Inr y \<longleftrightarrow> (\<exists>z. x = Inr z \<and> y = f z)"
  by (cases x) auto

lemma trim_element: "trim cb t = ElementTup et \<longleftrightarrow> (\<exists>et0. t = ElementTup et0 \<and> et = trim_tids cb et0)"
  by (cases t) auto

lemma hnswbulkdelete_ok:
  assumes wf: "rel_wf r" and l: "linked r" and len: "1 < length (rel_blocks r)" and c: "entry_on_chain r"
    and a: "hnswbulkdelete r support stats cb = Inr (r', st)" and i: "InitVacuumState r support stats cb = Inr vs"
  shows "rel_wf r' \<and> linked r' \<and> same_pages r r' \<and> entry_live r' \<and> st = stats_after cb r (set (page_chain r)) (vs_stats vs) \<and>
    (\<forall>b off et'. tup_at r' b off = Inr (ElementTup et') \<longleftrightarrow>
       (\<exists>et. tup_at r b off = Inr (ElementTup et) \<and> et' = (if b \<in> set (page_chain r) then vacuumed cb et else et)))"
proof -
  let ?C = "set (page_chain r)"
  note f = InitVacuumState_fields [OF i]
  obtain mp where mp: "read_meta r = Inr mp" using f(6) by blast
  have ten: "\<forall>b off t. tup_at (vs_index vs) b off = Inr t \<longrightarrow> ten_tids t"
    using linkedD [OF l] f(1) by (auto simp: ten_tids_def split: HnswTuple.splits)
  obtain ep where ep: "HnswGetEntryPoint (vs_index vs) = Inr ep" using f by auto
  obtain vs1 hl vs0 where p1: "RemoveHeapTids vs = Inr vs1" "rel_wf (vs_index vs1)" "same_pages r (vs_index vs1)"
      "vs0 = vs\<lparr>vs_highestPoint := vs_highestPoint vs0\<rparr>" "remove_inv ep vs0 ?C (vs1, hl)"
    using RemoveHeapTids_inv [of vs ep] wf len ten f ep unfolding same_pages_def by auto
  have v0: "vs_index vs0 = r" "vs_callback vs0 = cb" "vs_stats vs0 = vs_stats vs"
    using f arg_cong [OF p1(4), of vs_index] arg_cong [OF p1(4), of vs_callback] arg_cong [OF p1(4), of vs_stats] by simp_all
  note t1 = remove_invD(1) [OF p1(5), unfolded v0] and d1 = remove_invD(3) [OF p1(5)] and h1 = remove_invD(5) [OF p1(5)]
  have m1: "read_meta (vs_index vs1) = Inr mp" and s1: "vs_stats vs1 = stats_after cb r ?C (vs_stats vs)"
    using remove_invD(2,4) [OF p1(5), unfolded v0] mp by simp_all
  note l1 = linked_trim [OF t1 l]
  have ec: "mp_entryBlkno mp = InvalidBlockNumber \<or> mp_entryBlkno mp \<in> ?C" using c mp by (simp add: entry_on_chain_def)
  obtain vs2 vs3 where p2: "RepairGraph vs1 = Inr vs2" and p3: "MarkDeleted vs2 = Inr vs3" "r' = vs_index vs3" "st = vs_stats vs3"
    using a i p1(1) by (auto simp: hnswbulkdelete_def rbind_InrE)
  have r2: "repaired (vs_index vs1) (vs_index vs2)" "linked (vs_index vs2)" "vs2 = vs1\<lparr>vs_index := vs_index vs2\<rparr>" "entry_live (vs_index vs2)"
    using RepairGraph_ok [OF p2 p1(2) l1 d1 h1 m1 ec] by auto
  have sp: "same_pages r (vs_index vs2)" using r2(1) p1(3) same_pages_trans unfolding repaired_def by blast
  note ch = page_chain_cong [OF sp]
  have len2: "1 < length (rel_blocks (vs_index vs2))" using sp len by (simp add: same_pages_def)
  obtain mp2 where mp2: "read_meta (vs_index vs2) = Inr mp2" using repaired_wf [OF r2(1)] by (auto simp: rel_wf_def)
  obtain r3 ip where k: "MarkDeleted vs2 = Inr (vs2\<lparr>vs_index := r3\<rparr>)" "rel_wf r3" "same_pages (vs_index vs2) r3" "marked (vs_index vs2) (?C \<times> UNIV) r3"
      "read_meta r3 = Inr (if ip = InvalidBlockNumber then mp2 else mp2\<lparr>mp_insertPage := ip\<rparr>)"
    using MarkDeleted_ok [OF repaired_wf [OF r2(1)] r2(2) len2 mp2] unfolding ch by blast
  have r3: "r' = r3" "st = vs_stats vs2" using k(1) p3 by simp_all
  have st: "st = stats_after cb r ?C (vs_stats vs)" using r3(2) s1 arg_cong [OF r2(3), of vs_stats] by simp
  note me = marked_element [OF k(4) r2(2)]
  have el: "tup_at r3 b off = Inr (ElementTup et') \<longleftrightarrow>
      (\<exists>et. tup_at r b off = Inr (ElementTup et) \<and> et' = (if b \<in> ?C then vacuumed cb et else et))" for b off et'
  proof (cases "b \<in> ?C")
    case True
    have "tup_at (vs_index vs2) b off = Inr (ElementTup e) \<longleftrightarrow> (\<exists>et. tup_at r b off = Inr (ElementTup et) \<and> e = trim_tids cb et)" for e
      unfolding repaired_element [OF r2(1)] t1 if_P [OF True] map_sum_Inr using trim_element by (metis trim.simps(1))
    then show ?thesis unfolding me using True by (simp only: vacuumed_def Let_def if_True mem_Sigma_iff UNIV_I simp_thms) blast
  next
    case False
    then show ?thesis unfolding me repaired_element [OF r2(1)] t1 by simp
  qed
  have "entry_live r3"
  proof -
    have "tup_in r3 (\<lambda>t. tids_of t \<noteq> []) x" if x: "tup_in (vs_index vs2) (\<lambda>t. tids_of t \<noteq> []) x" for x
    proof -
      obtain et where et: "tup_at (vs_index vs2) (ip_blkid x) (ip_posid x) = Inr (ElementTup et)" "tup_tids et \<noteq> []"
        using tup_in_live [OF x] by blast
      then have "\<not> to_mark et" by (simp add: to_mark_def)
      then have "tup_at r3 (ip_blkid x) (ip_posid x) = Inr (ElementTup et)" using me et(1) by auto
      then show ?thesis using et(2) by (simp add: tup_in_def tids_of_def)
    qed
    then show ?thesis using r2(4) mp2 k(5) by (auto simp: entry_live_def)
  qed
  then show ?thesis using r3(1) k(2) linked_marked [OF k(4) r2(2)] same_pages_trans [OF sp k(3)] st el by blast
qed

section \<open>A VACUUM that removes everything\<close>

definition all_empty :: "Relation \<Rightarrow> bool" where
  "all_empty r \<longleftrightarrow> (\<forall>b off et. tup_at r b off = Inr (ElementTup et) \<longrightarrow> length (et_heaptids et) = HNSW_HEAPTIDS \<and> tup_tids et = [])"

lemma load_elements_empty:
  "\<forall>et. ElementTup et \<in> set ts \<longrightarrow> length (et_heaptids et) = HNSW_HEAPTIDS \<and> tup_tids et = [] \<Longrightarrow> load_elements b off ts = Inr []"
proof (induction ts arbitrary: off)
  case (Cons t ts)
  then show ?case by (cases t) (simp_all add: tup_tids_first)
qed simp

lemma tup_at_item: "read_page r b = Inr p \<Longrightarrow> t \<in> set (ip_items p) \<Longrightarrow> \<exists>off. tup_at r b off = Inr t"
proof -
  assume p: "read_page r b = Inr p" and "t \<in> set (ip_items p)"
  then obtain j where "j < length (ip_items p)" "ip_items p ! j = t" by (auto simp: in_set_conv_nth)
  then have "tup_at r b (Suc j) = Inr t" using p by (simp add: tup_at_def page_tuple_def ip_get_def nth_r_def)
  then show ?thesis ..
qed

lemma repair_page_idle:
  assumes "all_empty (vs_index vs)" "read_page (vs_index vs) b = Inr p"
  shows "repair_page b vs = Inr (hp_nextblkno p, vs)"
proof -
  have "load_elements b FirstOffsetNumber (ip_items p) = Inr []"
    by (rule load_elements_empty) (use assms tup_at_item in \<open>fastforce simp: all_empty_def\<close>)
  then show ?thesis using assms(2) by (simp add: repair_page_def)
qed

interpretation idle: page_walk_total repair_page vs_index "\<lambda>_ s. s = vs0 \<and> all_empty (vs_index vs0)" for vs0
proof
  fix b s n s' D
  assume a: "repair_page b s = Inr (n, s')" and i: "s = vs0 \<and> all_empty (vs_index vs0)" "rel_wf (vs_index s)"
  obtain p where p: "read_page (vs_index s) b = Inr p" using a by (auto simp: repair_page_def rbind_InrE)
  then show "next_of (vs_index s) b = Some n \<and> (s' = vs0 \<and> all_empty (vs_index vs0)) \<and> rel_wf (vs_index s') \<and>
      next_of (vs_index s') = next_of (vs_index s) \<and> length (rel_blocks (vs_index s')) = length (rel_blocks (vs_index s))"
    using repair_page_idle [of s b p] a i next_of_page [OF p] by auto
next
  fix D s b p
  assume "s = vs0 \<and> all_empty (vs_index vs0)" "read_page (vs_index s) b = Inr p"
  then show "\<exists>n s'. repair_page b s = Inr (n, s')" using repair_page_idle by blast
qed

lemma RepairGraph_idle:
  assumes e: "all_empty (vs_index vs)" and wf: "rel_wf (vs_index vs)" and len: "1 < length (rel_blocks (vs_index vs))"
    and h: "he_blkno (vs_highestPoint vs) = InvalidBlockNumber" and ep: "HnswGetEntryPoint (vs_index vs) = Inr ep"
    and d: "\<And>x. ep = Some x \<Longrightarrow> high_tid x \<in> vs_deleted vs"
  shows "\<exists>r'. RepairGraph vs = Inr (vs\<lparr>vs_index := r'\<rparr>) \<and> tup_at r' = tup_at (vs_index vs) \<and> HnswGetEntryPoint r' = Inr None \<and>
    rel_wf r' \<and> same_pages (vs_index vs) r'"
proof -
  let ?r = "vs_index vs"
  obtain m where m: "HnswGetMetaPageInfo ?r = Inr (m, ep)" using ep by (auto simp: HnswGetEntryPoint_def rbind_InrE)
  obtain mp where mp: "read_meta ?r = Inr mp" using m by (auto simp: HnswGetMetaPageInfo_def rbind_InrE)
  obtain vs1 where v: "RepairGraphEntryPoint vs = Inr vs1" "vs1 = vs\<lparr>vs_index := vs_index vs1\<rparr>" "rel_wf (vs_index vs1)"
    "tup_at (vs_index vs1) = tup_at ?r" "HnswGetEntryPoint (vs_index vs1) = Inr None" "same_pages ?r (vs_index vs1)"
  proof (cases ep)
    case None
    then show ?thesis using that [of vs] h ep wf by (simp add: RepairGraphEntryPoint_def repair_entry_def same_pages_def)
  next
    case (Some x)
    let ?m = "HnswUpdateMetaPageInfo mp UpdateAlways None InvalidBlockNumber"
    have "DeletedContains (vs_deleted vs) (ItemPointerSet (he_blkno x) (he_offno x))" using d [OF Some] by (simp add: DeletedContains_def high_tid_def)
    then have "RepairGraphEntryPoint vs = Inr (vs\<lparr>vs_index := write_meta ?r ?m\<rparr>)"
      using Some h ep mp by (simp add: RepairGraphEntryPoint_def repair_entry_def HnswUpdateMetaPage_def)
    moreover have "HnswGetEntryPoint (write_meta ?r ?m) = Inr None"
      using m mp write_meta_spec(1) [OF mp, of ?m]
      by (auto simp: HnswGetEntryPoint_def HnswGetMetaPageInfo_def HnswUpdateMetaPageInfo_def split: if_splits)
    ultimately show ?thesis using that write_meta_spec [OF mp, of ?m] write_meta_wf [OF wf mp, of ?m] by (simp add: fun_eq_iff same_pages_def next_of_def)
  qed
  have e1: "all_empty (vs_index vs1)" using e v(4) by (simp add: all_empty_def)
  obtain vs2 where w: "walk_pages (Suc (length (rel_blocks (vs_index vs1)))) repair_page HNSW_HEAD_BLKNO vs1 = Inr vs2"
    using idle.pass_total [of vs1 vs1] e1 v(3,6) len by (auto simp: same_pages_def)
  have "vs2 = vs1" using idle.pass_inv(1) [OF w, of vs1] e1 v(3) by simp
  then have "RepairGraph vs = Inr (vs\<lparr>vs_index := vs_index vs1\<rparr>)" using v(1,2) w by (simp add: RepairGraph_def)
  then show ?thesis using v(3-6) by blast
qed

lemma trim_all_dead: "\<forall>t\<in>set (tup_tids et). cb t \<Longrightarrow> tup_tids (trim_tids cb et) = []"
  by simp

lemma bulk_delete_all:
  assumes wf: "rel_wf r" and l: "linked r" and len: "1 < length (rel_blocks r)" and ep: "HnswGetEntryPoint r = Inr ep"
    and entry: "\<And>e. ep = Some e \<Longrightarrow> \<exists>et. tup_at r (he_blkno e) (he_offno e) = Inr (ElementTup et)"
    and dead: "\<And>b off et. tup_at r b off = Inr (ElementTup et) \<Longrightarrow> b \<in> set (page_chain r) \<and> (\<forall>t\<in>set (tup_tids et). cb t)"
  shows "\<exists>r' st. hnswbulkdelete r support stats cb = Inr (r', st) \<and> HnswGetEntryPoint r' = Inr None \<and>
    (\<forall>b off et. tup_at r' b off = Inr (ElementTup et) \<longrightarrow> et_deleted et \<noteq> 0 \<and> tup_tids et = [])"
proof -
  let ?C = "set (page_chain r)"
  obtain vs where i: "InitVacuumState r support stats cb = Inr vs" using ep by (auto simp: InitVacuumState_def HnswGetEntryPoint_def rbind_InrE)
  note f = InitVacuumState_fields [OF i]
  have ten: "\<forall>b off t. tup_at (vs_index vs) b off = Inr t \<longrightarrow> ten_tids t"
    using linkedD [OF l] f(1) by (auto simp: ten_tids_def split: HnswTuple.splits)
  obtain vs1 hl vs0 where p1: "RemoveHeapTids vs = Inr vs1" "rel_wf (vs_index vs1)" "same_pages r (vs_index vs1)"
      "vs0 = vs\<lparr>vs_highestPoint := vs_highestPoint vs0\<rparr>" "remove_inv ep vs0 ?C (vs1, hl)"
    using RemoveHeapTids_inv [of vs ep] wf len ten f ep unfolding same_pages_def by auto
  have v0: "vs_index vs0 = r" "vs_callback vs0 = cb" using f arg_cong [OF p1(4), of vs_index] arg_cong [OF p1(4), of vs_callback] by simp_all
  note t1 = remove_invD(1) [OF p1(5), unfolded v0] and d1 = remove_invD(3) [OF p1(5)] and h1 = remove_invD(5) [OF p1(5)]
  have el: "\<exists>et0. tup_at r b off = Inr (ElementTup et0) \<and> et = trim_tids cb et0" if "tup_at (vs_index vs1) b off = Inr (ElementTup et)" for b off et
  proof (cases "b \<in> ?C")
    case True
    then show ?thesis using that t1 [of b off] unfolding if_P [OF True] by (metis map_sum_Inr trim_element)
  next
    case False
    then show ?thesis using that dead t1 [of b off] by auto
  qed
  have e1: "all_empty (vs_index vs1)"
    unfolding all_empty_def
  proof (intro allI impI)
    fix b off et assume "tup_at (vs_index vs1) b off = Inr (ElementTup et)"
    then obtain et0 where t: "tup_at r b off = Inr (ElementTup et0)" "et = trim_tids cb et0" using el by blast
    then show "length (et_heaptids et) = HNSW_HEAPTIDS \<and> tup_tids et = []"
      using trim_tids_length linkedD [OF l t(1)] trim_all_dead dead [OF t(1)] by auto
  qed
  have hi: "he_blkno (vs_highestPoint vs1) = InvalidBlockNumber" using h1 e1 tup_in_live by (fastforce simp: all_empty_def)
  have mt: "read_meta (vs_index vs1) = read_meta r" using remove_invD(2) [OF p1(5), unfolded v0] by simp
  then have ep1: "HnswGetEntryPoint (vs_index vs1) = Inr ep" using ep by (simp add: HnswGetEntryPoint_def HnswGetMetaPageInfo_def)
  have de: "high_tid x \<in> vs_deleted vs1" if x: "ep = Some x" for x
  proof -
    obtain et where et: "tup_at r (he_blkno x) (he_offno x) = Inr (ElementTup et)" using entry [OF x] by blast
    note c = dead [OF et]
    have "tup_at (vs_index vs1) (he_blkno x) (he_offno x) = Inr (ElementTup (trim_tids cb et))" using t1 et c by simp
    then show ?thesis unfolding d1 using c by (auto simp: high_tid_def tup_in_def empty_tuple_def)
  qed
  have len1: "1 < length (rel_blocks (vs_index vs1))" using p1(3) len by (simp add: same_pages_def)
  obtain r2 where p2: "RepairGraph vs1 = Inr (vs1\<lparr>vs_index := r2\<rparr>)" "tup_at r2 = tup_at (vs_index vs1)" "HnswGetEntryPoint r2 = Inr None"
      "rel_wf r2" "same_pages (vs_index vs1) r2"
    using RepairGraph_idle [OF e1 p1(2) len1 hi ep1 de] by blast
  have l2: "linked r2" using linked_trim [OF t1 l] p2(2) by (simp add: linked_def)
  have len2: "1 < length (rel_blocks r2)" using len1 p2(5) by (simp add: same_pages_def)
  obtain mp2 where mp2: "read_meta r2 = Inr mp2" using p2(4) by (auto simp: rel_wf_def)
  obtain r3 ip where p3: "MarkDeleted (vs1\<lparr>vs_index := r2\<rparr>) = Inr (vs1\<lparr>vs_index := r3\<rparr>)" "marked r2 (set (page_chain r2) \<times> UNIV) r3"
      "read_meta r3 = Inr (if ip = InvalidBlockNumber then mp2 else mp2\<lparr>mp_insertPage := ip\<rparr>)"
    using MarkDeleted_ok [of "vs1\<lparr>vs_index := r2\<rparr>" mp2] p2(4) l2 len2 mp2 by auto
  have run: "hnswbulkdelete r support stats cb = Inr (r3, vs_stats vs1)" using i p1(1) p2(1) p3(1) by (simp add: hnswbulkdelete_def)
  have en: "HnswGetEntryPoint r3 = Inr None" using p2(3) mp2 p3(3)
    by (auto simp: HnswGetEntryPoint_def HnswGetMetaPageInfo_def split: if_splits)
  have ch: "page_chain r2 = page_chain r" using page_chain_cong [OF same_pages_trans [OF p1(3) p2(5)]] .
  have "et_deleted et \<noteq> 0 \<and> tup_tids et = []" if e: "tup_at r3 b off = Inr (ElementTup et)" for b off et
  proof -
    obtain e2 where e2: "tup_at (vs_index vs1) b off = Inr (ElementTup e2)" "et = (if b \<in> ?C \<and> to_mark e2 then clear_element e2 else e2)"
      using e marked_element [OF p3(2) l2] p2(2) ch by auto
    then obtain e0 where "tup_at r b off = Inr (ElementTup e0)" using el by blast
    then have "b \<in> ?C" using dead by blast
    moreover have "tup_tids e2 = []" using e1 e2(1) by (simp add: all_empty_def)
    ultimately show ?thesis using e2(2) by (auto simp: to_mark_def clear_element_def tup_tids_def)
  qed
  then show ?thesis using run en by blast
qed

section \<open>The properties\<close>

lemma pair_entry_point: "HnswGetEntryPoint pair_rel = Inr (Some ((HnswInitElementFromBlock 1 1)\<lparr>he_level := 0\<rparr>))"
  by (simp add: HnswGetEntryPoint_def HnswGetMetaPageInfo_def read_meta_def pair_rel_def pair_meta_def hnsw_const)

lemma pair_blocks: "1 < length (rel_blocks pair_rel)"
  by (simp add: pair_rel_def)

lemma pair_entry_element:
  "\<exists>et. tup_at pair_rel (he_blkno ((HnswInitElementFromBlock 1 1)\<lparr>he_level := 0\<rparr>)) (he_offno ((HnswInitElementFromBlock 1 1)\<lparr>he_level := 0\<rparr>)) = Inr (ElementTup et)"
  by (auto simp: pair_at HnswInitElementFromBlock_def)

lemma pair_chain: "page_chain pair_rel = [1]"
proof -
  have "next_of pair_rel 1 = Some InvalidBlockNumber" by (simp add: next_of_def pair_page_def HnswInitPage_def)
  moreover have "length (rel_blocks pair_rel) = Suc (Suc 0)" by (simp add: pair_rel_def)
  moreover have "HNSW_HEAD_BLKNO = 1" "1 \<noteq> InvalidBlockNumber" by (simp_all add: hnsw_const)
  ultimately show ?thesis by (simp add: page_chain_def)
qed

text \<open>C9: VACUUM, all three passes.  The element tuples of the result are those of the index before: on the pages of the chain each has lost exactly
  the heap TIDs the callback selects and is marked deleted, with its data cleared, exactly when it has none left; so no heap TID the callback
  selects is left in the index and no other is lost.  The counters are the numbers of removed and remaining heap TIDs.  The index stays
  well-formed and linked, and the entry point in the metapage, if there is one, is an element that has heap TIDs.\<close>

theorem bulk_delete:
  assumes "rel_wf r" and "linked r" and "1 < length (rel_blocks r)" and "entry_on_chain r" and "hnswbulkdelete r support None cb = Inr (r', st)"
  shows "rel_wf r' \<and> linked r' \<and> entry_live r' \<and>
    (\<forall>b off et'. tup_at r' b off = Inr (ElementTup et') \<longleftrightarrow>
       (\<exists>et. tup_at r b off = Inr (ElementTup et) \<and> et' = (if b \<in> set (page_chain r) then vacuumed cb et else et))) \<and>
    tuples_removed st = (\<Sum>b\<in>set (page_chain r). length (filter cb (page_tids r b))) \<and>
    num_index_tuples st = (\<Sum>b\<in>set (page_chain r). length (filter (\<lambda>t. \<not> cb t) (page_tids r b)))"
proof -
  obtain vs where i: "InitVacuumState r support None cb = Inr vs" using assms(5) by (auto simp: hnswbulkdelete_def rbind_InrE)
  have s: "tuples_removed (vs_stats vs) = 0" "num_index_tuples (vs_stats vs) = 0" using i by (auto simp: InitVacuumState_def rbind_InrE)
  note h = hnswbulkdelete_ok [OF assms i]
  then have "st = stats_after cb r (set (page_chain r)) (vs_stats vs)" by blast
  then have "tuples_removed st = (\<Sum>b\<in>set (page_chain r). length (filter cb (page_tids r b)))"
    "num_index_tuples st = (\<Sum>b\<in>set (page_chain r). length (filter (\<lambda>t. \<not> cb t) (page_tids r b)))" using s by (simp_all add: stats_after_def)
  then show ?thesis using h by blast
qed

theorem bulk_delete_witness:
  "\<exists>r' st. hnswbulkdelete pair_rel l2_support None (\<lambda>_. True) = Inr (r', st) \<and> linked r' \<and> tuples_removed st = 2 \<and> num_index_tuples st = 0"
proof -
  obtain r' st where a: "hnswbulkdelete pair_rel l2_support None (\<lambda>_. True) = Inr (r', st)"
    using bulk_delete_all [OF pair_wf pair_linked pair_blocks pair_entry_point, of "\<lambda>_. True" l2_support None] pair_entry_element
    by (auto simp: pair_at pair_chain)
  have "read_meta pair_rel = Inr pair_meta" by (simp add: read_meta_def pair_rel_def hnsw_const)
  then have c: "entry_on_chain pair_rel" by (simp add: entry_on_chain_def pair_chain pair_meta_def)
  have "page_tids pair_rel 1 = [ItemPointerSet 7 2, ItemPointerSet 7 4]"
    by (simp add: page_tids_def pair_page_def tids_of_def tup_tids_def pair_etup_def hnsw_const ItemPointerIsValid_def InvalidItemPointer_def)
  then show ?thesis using bulk_delete [OF pair_wf pair_linked pair_blocks c a] a by (auto simp: pair_chain)
qed

end
