(* ===== verification/HnswBuild.thy ===== *)
theory HnswBuild
  imports HnswInsert
begin

text \<open>
  Building the index, \<open>src/backend/access/hnsw/hnswbuild.c\<close>: the graph grown in memory, tuple by tuple, then
  written out page by page; once the memory limit is reached the graph is flushed and the rest of the tuples are inserted
  on disk.  The state of a build is the record \<open>HnswBuildState\<close>; its element store stands for the memory context
  of the graph, which a flush empties.

  The build is the one of a single process (\<open>hnswleader\<close> and \<open>hnswarea\<close> are null): light-weight locks have no
  state of their own here.  The number of bytes the memory context has allocated is a function argument of the element
  store, the random level of each new element comes with its tuple, and the tuples the heap scan passes to
  \<open>BuildCallback\<close> are a list.
\<close>

section \<open>State\<close>

record HnswBuildState =
  bs_index :: Relation
  bs_typeInfo :: HnswTypeInfo
  bs_dimensions :: int
  bs_m :: nat
  bs_efConstruction :: nat
  bs_indtuples :: nat
  bs_reltuples :: nat
  bs_support :: HnswSupport
  bs_graph :: HnswGraph
  bs_maxLevel :: nat
  bs_elems :: elems

section \<open>Writing the pages\<close>

definition HNSW_TUPLE_ALLOC_SIZE :: nat where [hnsw_const]:
  "HNSW_TUPLE_ALLOC_SIZE = BLCKSZ"

text \<open>The new page becomes the metapage; the fields have the widths of \<open>HnswMetaPageData\<close>.\<close>

definition CreateMetaPage :: "HnswBuildState \<Rightarrow> Relation" where
  "CreateMetaPage bs =
     snd (HnswNewBuffer (bs_index bs) (MetaBlock
       \<lparr>mp_magicNumber = HNSW_MAGIC_NUMBER, mp_version = HNSW_VERSION, mp_dimensions = nat (bs_dimensions bs mod 2 ^ 32),
        mp_m = bs_m bs mod 2 ^ 16, mp_efConstruction = bs_efConstruction bs mod 2 ^ 16, mp_entryBlkno = InvalidBlockNumber,
        mp_entryOffno = InvalidOffsetNumber, mp_entryLevel = -1, mp_insertPage = InvalidBlockNumber\<rparr> HNSW_PAGE_ID))"

text \<open>Page \<open>blk\<close> is the current one; the result is the block that becomes the current one.\<close>

definition HnswBuildAppendPage :: "Relation \<Rightarrow> nat \<Rightarrow> (nat \<times> Relation) result" where
  "HnswBuildAppendPage index blk =
     (let (newblk, index1) = HnswNewBuffer index (GraphBlock HnswInitPage) in
      rbind (read_page index1 blk) (\<lambda>page. Inr (newblk, write_page index1 blk (page\<lparr>hp_nextblkno := newblk\<rparr>))))"

text \<open>The placeholder for a neighbour tuple: \<open>ntupSize\<close> zero bytes.  (Its type byte is zero too; nothing reads it
  before \<open>WriteNeighborTuples\<close> overwrites the item.)\<close>

definition placeholder :: "nat \<Rightarrow> nat \<Rightarrow> HnswNeighborTupleData" where
  "placeholder level m = zero_ntup\<lparr>nt_indextids := replicate ((level + 2) * m) (ItemPointerSet 0 0)\<rparr>"

text \<open>One element of the list: its tuple and the placeholder are added at the end of the chain, and it learns its
  position.\<close>

definition create_element :: "nat \<Rightarrow> eptr \<Rightarrow> Relation \<times> nat \<times> elems \<Rightarrow> (Relation \<times> nat \<times> elems) result" where
  "create_element m p s =
     (case s of (index, blk, elems) \<Rightarrow>
       rbind (nth_r elems p) (\<lambda>element.
       rbind (case he_value element of None \<Rightarrow> Inl UndefinedBehaviour | Some v \<Rightarrow> Inr v) (\<lambda>value.
         let etupSize = HNSW_ELEMENT_TUPLE_SIZE (nat (vl_len value));
             ntupSize = HNSW_NEIGHBOR_TUPLE_SIZE (he_level element) m;
             combinedSize = etupSize + ntupSize + sizeof_ItemIdData in
         if etupSize > HNSW_TUPLE_ALLOC_SIZE then Inl ErrTupleTooLarge
         else
         rbind (HnswSetElementTuple zero_etup element) (\<lambda>etup.
         rbind (read_page index blk) (\<lambda>page0.
         rbind (if ip_free_space page0 < etupSize \<or> (combinedSize \<le> HNSW_MAX_SIZE \<and> ip_free_space page0 < combinedSize)
                then HnswBuildAppendPage index blk else Inr (blk, index)) (\<lambda>(blk1, index1).
         rbind (read_page index1 blk1) (\<lambda>page1.
           let offno = Suc (length (ip_items page1));
               (npage, noffno) = (if combinedSize \<le> HNSW_MAX_SIZE then (blk1, Suc offno) else (blk1 + 1, FirstOffsetNumber)) in
           rbind (append_tuple index1 blk1 offno (ElementTup (etup\<lparr>et_neighbortid := ItemPointerSet npage noffno\<rparr>))) (\<lambda>index2.
           rbind (read_page index2 blk1) (\<lambda>page2.
           rbind (if ip_free_space page2 < ntupSize then HnswBuildAppendPage index2 blk1 else Inr (blk1, index2)) (\<lambda>(blk3, index3).
           rbind (append_tuple index3 blk3 noffno (NeighborTup (placeholder (he_level element) m))) (\<lambda>index4.
             Inr (index4, blk3,
                  elems[p := element\<lparr>he_blkno := blk1, he_offno := offno, he_neighborPage := npage, he_neighborOffno := noffno\<rparr>]))))))))))))"

text \<open>The loops over the element list.  Running out of fuel stands for a cyclic list, on which the code does not return.\<close>

fun create_elements :: "nat \<Rightarrow> nat \<Rightarrow> eptr option \<Rightarrow> Relation \<times> nat \<times> elems \<Rightarrow> (Relation \<times> nat \<times> elems) result" where
  "create_elements fuel m None s = Inr s"
| "create_elements 0 m (Some p) s = Inl Diverges"
| "create_elements (Suc fuel) m (Some p) s =
     rbind (nth_r (snd (snd s)) p) (\<lambda>element.
     rbind (create_element m p s) (create_elements fuel m (he_next element)))"

definition CreateGraphPages :: "HnswBuildState \<Rightarrow> HnswBuildState result" where
  "CreateGraphPages bs =
     (let (blk, index) = HnswNewBuffer (bs_index bs) (GraphBlock HnswInitPage) in
      rbind (create_elements (length (bs_elems bs)) (bs_m bs) (g_head (bs_graph bs)) (index, blk, bs_elems bs)) (\<lambda>(index1, insertPage, elems1).
      rbind (case g_entryPoint (bs_graph bs) of None \<Rightarrow> Inr None | Some q \<Rightarrow> rbind (nth_r elems1 q) (\<lambda>e. Inr (Some e))) (\<lambda>entryPoint.
      rbind (HnswUpdateMetaPage index1 UpdateAlways entryPoint insertPage) (\<lambda>index2.
        Inr (bs\<lparr>bs_index := index2, bs_elems := elems1\<rparr>)))))"

fun write_neighbors :: "nat \<Rightarrow> nat \<Rightarrow> elems \<Rightarrow> eptr option \<Rightarrow> Relation \<Rightarrow> Relation result" where
  "write_neighbors fuel m elems None index = Inr index"
| "write_neighbors 0 m elems (Some p) index = Inl Diverges"
| "write_neighbors (Suc fuel) m elems (Some p) index =
     rbind (nth_r elems p) (\<lambda>element.
     rbind (HnswSetNeighborTuple elems zero_ntup element m) (\<lambda>ntup.
     rbind (overwrite_tuple index (he_neighborPage element) (he_neighborOffno element) (NeighborTup ntup))
       (write_neighbors fuel m elems (he_next element))))"

definition WriteNeighborTuples :: "HnswBuildState \<Rightarrow> HnswBuildState result" where
  "WriteNeighborTuples bs =
     rbind (write_neighbors (length (bs_elems bs)) (bs_m bs) (bs_elems bs) (g_head (bs_graph bs)) (bs_index bs)) (\<lambda>index.
       Inr (bs\<lparr>bs_index := index\<rparr>))"

definition FlushPages :: "HnswBuildState \<Rightarrow> HnswBuildState result" where
  "FlushPages bs =
     rbind (CreateGraphPages (bs\<lparr>bs_index := CreateMetaPage bs\<rparr>)) (\<lambda>bs1.
     rbind (WriteNeighborTuples bs1) (\<lambda>bs2.
       Inr (bs2\<lparr>bs_graph := (bs_graph bs2)\<lparr>g_flushed := True\<rparr>, bs_elems := []\<rparr>)))"

section \<open>Inserting in memory\<close>

definition AddDuplicateInMemory :: "elems \<Rightarrow> HnswElementData \<Rightarrow> eptr \<Rightarrow> (bool \<times> elems) result" where
  "AddDuplicateInMemory elems element dup =
     rbind (nth_r elems dup) (\<lambda>d.
       if length (he_heaptids d) = HNSW_HEAPTIDS then Inr (False, elems)
       else rbind (nth_r (he_heaptids element) 0) (\<lambda>heaptid.
         rbind (HnswAddHeapTid d heaptid) (\<lambda>d'. Inr (True, elems[dup := d']))))"

fun find_duplicate_memory :: "elems \<Rightarrow> HnswElementData \<Rightarrow> HnswCandidate list \<Rightarrow> (bool \<times> elems) result" where
  "find_duplicate_memory elems element [] = Inr (False, elems)"
| "find_duplicate_memory elems element (neighbor # rest) =
     rbind (nth_r elems (hc_element neighbor)) (\<lambda>neighborElement.
       case (he_value element, he_value neighborElement) of
         (Some v, Some nv) \<Rightarrow>
           if \<not> datumIsEqual v nv then Inr (False, elems)
           else rbind (AddDuplicateInMemory elems element (hc_element neighbor)) (\<lambda>(ok, elems1).
             if ok then Inr (True, elems1) else find_duplicate_memory elems element rest)
       | _ \<Rightarrow> Inl UndefinedBehaviour)"

definition FindDuplicateInMemory :: "elems \<Rightarrow> eptr \<Rightarrow> (bool \<times> elems) result" where
  "FindDuplicateInMemory elems p =
     rbind (nth_r elems p) (\<lambda>element.
     rbind (HnswGetNeighbors element 0) (\<lambda>neighbors. find_duplicate_memory elems element (na_items neighbors)))"

definition AddElementInMemory :: "HnswGraph \<Rightarrow> elems \<Rightarrow> eptr \<Rightarrow> (HnswGraph \<times> elems) result" where
  "AddElementInMemory graph elems p =
     rbind (nth_r elems p) (\<lambda>e. Inr (graph\<lparr>g_head := Some p\<rparr>, elems[p := e\<lparr>he_next := g_head graph\<rparr>]))"

definition set_neighbors :: "HnswElementData \<Rightarrow> nat \<Rightarrow> HnswNeighborArray \<Rightarrow> HnswElementData" where
  "set_neighbors e lc a = e\<lparr>he_neighbors := map_option (\<lambda>ns. ns[lc := a]) (he_neighbors e)\<rparr>"

text \<open>The loop over the neighbours of one layer, then the loop over the layers, from the top one down.\<close>

fun update_layer :: "HnswSupport \<Rightarrow> eptr \<Rightarrow> nat \<Rightarrow> nat \<Rightarrow> HnswCandidate list \<Rightarrow> elems \<Rightarrow> elems result" where
  "update_layer support p m lc [] elems = Inr elems"
| "update_layer support p m lc (hc # hcs) elems =
     rbind (nth_r elems (hc_element hc)) (\<lambda>neighborElement.
     rbind (HnswGetNeighbors neighborElement lc) (\<lambda>neighbors.
     rbind (HnswUpdateConnection elems True neighbors p (hc_distance hc) (HnswGetLayerM m lc) support) (\<lambda>(neighbors', _).
       update_layer support p m lc hcs (elems[hc_element hc := set_neighbors neighborElement lc neighbors']))))"

fun update_layers :: "HnswSupport \<Rightarrow> eptr \<Rightarrow> nat \<Rightarrow> nat list \<Rightarrow> elems \<Rightarrow> elems result" where
  "update_layers support p m [] elems = Inr elems"
| "update_layers support p m (lc # lcs) elems =
     rbind (nth_r elems p) (\<lambda>e.
     rbind (HnswGetNeighbors e lc) (\<lambda>neighbors.
     rbind (update_layer support p m lc (na_items neighbors) elems) (update_layers support p m lcs)))"

definition UpdateNeighborsInMemory :: "elems \<Rightarrow> HnswSupport \<Rightarrow> eptr \<Rightarrow> nat \<Rightarrow> elems result" where
  "UpdateNeighborsInMemory elems support p m =
     rbind (nth_r elems p) (\<lambda>e. update_layers support p m (rev [0..<Suc (he_level e)]) elems)"

definition UpdateGraphInMemory :: "HnswSupport \<Rightarrow> eptr \<Rightarrow> nat \<Rightarrow> eptr option \<Rightarrow> HnswBuildState \<Rightarrow> HnswBuildState result" where
  "UpdateGraphInMemory support p m entryPoint bs =
     rbind (FindDuplicateInMemory (bs_elems bs) p) (\<lambda>(dup, elems0).
       if dup then Inr (bs\<lparr>bs_elems := elems0\<rparr>)
       else
       rbind (AddElementInMemory (bs_graph bs) elems0 p) (\<lambda>(graph, elems1).
       rbind (UpdateNeighborsInMemory elems1 support p m) (\<lambda>elems2.
       rbind (nth_r elems2 p) (\<lambda>e.
       rbind (case entryPoint of None \<Rightarrow> Inr True
              | Some q \<Rightarrow> rbind (nth_r elems2 q) (\<lambda>ee. Inr (he_level e > he_level ee))) (\<lambda>upd.
         Inr (bs\<lparr>bs_elems := elems2, bs_graph := (if upd then graph\<lparr>g_entryPoint := Some p\<rparr> else graph)\<rparr>))))))"

text \<open>The entry point is read again once the exclusive lock is held.\<close>

definition InsertTupleInMemory :: "HnswBuildState \<Rightarrow> eptr \<Rightarrow> HnswBuildState result" where
  "InsertTupleInMemory bs p =
     (let entryPoint = g_entryPoint (bs_graph bs) in
      rbind (HnswFindElementNeighbors (bs_elems bs) True p entryPoint None (bs_support bs) (bs_m bs) (bs_efConstruction bs) False) (\<lambda>elems1.
        UpdateGraphInMemory (bs_support bs) p (bs_m bs) entryPoint (bs\<lparr>bs_elems := elems1\<rparr>)))"

section \<open>Inserting a tuple\<close>

text \<open>\<open>memAllocated\<close> gives the bytes allocated in the memory context for the elements of a store.\<close>

definition InsertTuple ::
    "(elems \<Rightarrow> nat) \<Rightarrow> Vector \<Rightarrow> ItemPointerData \<Rightarrow> nat \<Rightarrow> HnswBuildState \<Rightarrow> (bool \<times> HnswBuildState) result" where
  "InsertTuple memAllocated value heaptid randomLevel bs =
     rbind (HnswFormIndexValue (bs_typeInfo bs) (bs_support bs) value) (\<lambda>v.
       case v of
         None \<Rightarrow> Inr (False, bs)
       | Some value' \<Rightarrow>
           if g_flushed (bs_graph bs) then
             rbind (HnswInsertTupleOnDisk (bs_index bs) (bs_support bs) value' heaptid randomLevel) (\<lambda>index.
               Inr (True, bs\<lparr>bs_index := index\<rparr>))
           else if g_memoryUsed (bs_graph bs) \<ge> g_memoryTotal (bs_graph bs) then
             rbind (FlushPages bs) (\<lambda>bs1.
             rbind (HnswInsertTupleOnDisk (bs_index bs1) (bs_support bs1) value' heaptid randomLevel) (\<lambda>index.
               Inr (True, bs1\<lparr>bs_index := index\<rparr>)))
           else
             rbind (HnswInitElement heaptid (bs_m bs) randomLevel (bs_maxLevel bs)) (\<lambda>element.
               let elems = bs_elems bs @ [element\<lparr>he_value := Some value'\<rparr>];
                   bs1 = bs\<lparr>bs_elems := elems, bs_graph := (bs_graph bs)\<lparr>g_memoryUsed := memAllocated elems\<rparr>\<rparr> in
               rbind (InsertTupleInMemory bs1 (length (bs_elems bs))) (\<lambda>bs2. Inr (True, bs2))))"

text \<open>A tuple of the heap scan: its heap TID, its value (\<open>None\<close> for NULL) and the random level it gets.\<close>

type_synonym heap_row = "ItemPointerData \<times> Vector option \<times> nat"

definition BuildCallback :: "(elems \<Rightarrow> nat) \<Rightarrow> heap_row \<Rightarrow> HnswBuildState \<Rightarrow> HnswBuildState result" where
  "BuildCallback memAllocated row bs =
     (case row of (tid, value, randomLevel) \<Rightarrow>
        (case value of
           None \<Rightarrow> Inr bs
         | Some v \<Rightarrow> rbind (InsertTuple memAllocated v tid randomLevel bs) (\<lambda>(inserted, bs1).
             Inr (if inserted then bs1\<lparr>bs_graph := (bs_graph bs1)\<lparr>g_indtuples := Suc (g_indtuples (bs_graph bs1))\<rparr>\<rparr> else bs1))))"

fun build_scan :: "(elems \<Rightarrow> nat) \<Rightarrow> heap_row list \<Rightarrow> HnswBuildState \<Rightarrow> HnswBuildState result" where
  "build_scan memAllocated [] bs = Inr bs"
| "build_scan memAllocated (row # rows) bs = rbind (BuildCallback memAllocated row bs) (build_scan memAllocated rows)"

section \<open>Allocators\<close>

text \<open>An allocation from the shared area: the offset of the chunk.\<close>

definition HnswSharedMemoryAlloc :: "nat \<Rightarrow> HnswGraph \<Rightarrow> nat \<times> HnswGraph" where
  "HnswSharedMemoryAlloc sz graph = (g_memoryUsed graph, graph\<lparr>g_memoryUsed := g_memoryUsed graph + MAXALIGN sz\<rparr>)"

definition InitGraph :: "nat \<Rightarrow> HnswGraph" where
  "InitGraph memoryTotal = \<lparr>g_head = None, g_indtuples = 0, g_entryPoint = None, g_memoryUsed = 0, g_memoryTotal = memoryTotal, g_flushed = False\<rparr>"

text \<open>What an insertion allocates: the element, the list of its neighbour arrays, the arrays, and the value.\<close>

definition insert_allocs :: "nat \<Rightarrow> nat \<Rightarrow> nat \<Rightarrow> nat list" where
  "insert_allocs m level valueSize =
     [sizeof_HnswElementData, 8 * (level + 1)] @ map (\<lambda>lc. HNSW_NEIGHBOR_ARRAY_SIZE (HnswGetLayerM m lc)) [0..<Suc level] @ [valueSize]"

text \<open>The size of the shared area of a parallel build, and the graph it starts with: \<open>Size\<close> is a 64-bit unsigned type, so the
  subtraction wraps around.\<close>

definition parallel_area :: "nat \<Rightarrow> nat" where
  "parallel_area maintenance_work_mem =
     (let esthnswarea = maintenance_work_mem * 1024; estother = 3 * 1024 * 1024 in
      if esthnswarea > estother then esthnswarea - estother else esthnswarea)"

definition parallel_graph :: "nat \<Rightarrow> HnswGraph" where
  "parallel_graph maintenance_work_mem =
     InitGraph (nat ((int (parallel_area maintenance_work_mem) - 1024 * 1024) mod 2 ^ 64))"

section \<open>The build\<close>

text \<open>The column of the index: whether its type is varbit, and its type modifier.\<close>

definition InitBuildState ::
    "nat \<Rightarrow> Relation \<Rightarrow> HnswTypeInfo \<Rightarrow> HnswSupport \<Rightarrow> bool \<Rightarrow> int \<Rightarrow> HnswBuildState result" where
  "InitBuildState maintenance_work_mem index typeInfo support isVarbit atttypmod =
     (let m = HnswGetM index; efConstruction = HnswGetEfConstruction index; dimensions = atttypmod in
      if isVarbit then Inl ErrTypeNotSupported
      else if dimensions < 0 then Inl ErrNoDimensions
      else if dimensions > ti_maxDimensions typeInfo then Inl (ErrColumnDims (ti_maxDimensions typeInfo))
      else if efConstruction < 2 * m then Inl ErrEfConstruction
      else Inr \<lparr>bs_index = index, bs_typeInfo = typeInfo, bs_dimensions = dimensions, bs_m = m, bs_efConstruction = efConstruction,
        bs_indtuples = 0, bs_reltuples = 0, bs_support = support, bs_graph = InitGraph (maintenance_work_mem * 1024),
        bs_maxLevel = HnswGetMaxLevel m, bs_elems = []\<rparr>)"

definition ComputeParallelWorkers :: "int \<Rightarrow> int \<Rightarrow> int \<Rightarrow> int" where
  "ComputeParallelWorkers planned storageParameter max_parallel_maintenance_workers =
     (if planned = 0 then 0
      else if storageParameter \<noteq> -1 then min storageParameter max_parallel_maintenance_workers
      else max_parallel_maintenance_workers)"

text \<open>\<open>heap\<close> is the rows of the heap scan and the number of heap tuples it reports, \<open>None\<close> for the init fork.\<close>

definition BuildGraph ::
    "(elems \<Rightarrow> nat) \<Rightarrow> (heap_row list \<times> nat) option \<Rightarrow> HnswBuildState \<Rightarrow> HnswBuildState result" where
  "BuildGraph memAllocated heap bs =
     rbind (case heap of
              None \<Rightarrow> Inr bs
            | Some (rows, reltuples) \<Rightarrow>
                rbind (build_scan memAllocated rows bs) (\<lambda>bs1.
                  Inr (bs1\<lparr>bs_reltuples := reltuples, bs_indtuples := g_indtuples (bs_graph bs1)\<rparr>))) (\<lambda>bs2.
       if g_flushed (bs_graph bs2) then Inr bs2 else FlushPages bs2)"

definition BuildIndex ::
    "(elems \<Rightarrow> nat) \<Rightarrow> nat \<Rightarrow> (heap_row list \<times> nat) option \<Rightarrow> Relation \<Rightarrow> HnswTypeInfo \<Rightarrow> HnswSupport \<Rightarrow> bool \<Rightarrow> int \<Rightarrow> HnswBuildState result" where
  "BuildIndex memAllocated maintenance_work_mem heap index typeInfo support isVarbit atttypmod =
     rbind (InitBuildState maintenance_work_mem index typeInfo support isVarbit atttypmod) (BuildGraph memAllocated heap)"

record IndexBuildResult =
  heap_tuples :: nat
  index_tuples :: nat

definition hnswbuild ::
    "(elems \<Rightarrow> nat) \<Rightarrow> nat \<Rightarrow> heap_row list \<times> nat \<Rightarrow> Relation \<Rightarrow> HnswTypeInfo \<Rightarrow> HnswSupport \<Rightarrow> bool \<Rightarrow> int \<Rightarrow> (Relation \<times> IndexBuildResult) result" where
  "hnswbuild memAllocated maintenance_work_mem heap index typeInfo support isVarbit atttypmod =
     rbind (BuildIndex memAllocated maintenance_work_mem (Some heap) index typeInfo support isVarbit atttypmod) (\<lambda>bs.
       Inr (bs_index bs, \<lparr>heap_tuples = bs_reltuples bs, index_tuples = bs_indtuples bs\<rparr>))"

definition hnswbuildempty :: "(elems \<Rightarrow> nat) \<Rightarrow> nat \<Rightarrow> Relation \<Rightarrow> HnswTypeInfo \<Rightarrow> HnswSupport \<Rightarrow> bool \<Rightarrow> int \<Rightarrow> Relation result" where
  "hnswbuildempty memAllocated maintenance_work_mem index typeInfo support isVarbit atttypmod =
     rbind (BuildIndex memAllocated maintenance_work_mem None index typeInfo support isVarbit atttypmod) (\<lambda>bs. Inr (bs_index bs))"

section \<open>Placing the elements of a list\<close>

lemma HnswBuildAppendPage_eq: "HnswBuildAppendPage index blk = HnswInsertAppendPage index blk"
  by (simp add: HnswBuildAppendPage_def HnswInsertAppendPage_def)

text \<open>The pages of a build: each points at the next block, and the current page is the last one.\<close>

definition seq_chain :: "Relation \<Rightarrow> bool" where
  "seq_chain r \<longleftrightarrow> (\<forall>b p. read_page r b = Inr p \<longrightarrow> hp_nextblkno p = (if Suc b = length (rel_blocks r) then InvalidBlockNumber else Suc b))"

definition at_end :: "Relation \<Rightarrow> nat \<Rightarrow> bool" where
  "at_end r blk \<longleftrightarrow> rel_wf r \<and> seq_chain r \<and> 0 < blk \<and> Suc blk = length (rel_blocks r)"

definition same_tups :: "Relation \<Rightarrow> Relation \<Rightarrow> bool" where
  "same_tups r r' \<longleftrightarrow> (\<forall>b off t. tup_at r' b off = Inr t \<longleftrightarrow> tup_at r b off = Inr t) \<and> read_meta r' = read_meta r \<and> rel_options r' = rel_options r"

lemma at_end_page: "at_end r blk \<Longrightarrow> \<exists>p. read_page r blk = Inr p \<and> hp_ok p \<and> hp_nextblkno p = InvalidBlockNumber"
  using rel_wf_block [of r blk] by (fastforce simp: at_end_def seq_chain_def)

lemma free_space_le: "hp_ok p \<Longrightarrow> ip_free_space p \<le> HNSW_MAX_SIZE"
  by (auto simp: hp_ok_def ip_free_space_def hnsw_const MAXALIGN_def)

lemma append_page_end:
  assumes "at_end r blk"
  shows "\<exists>r'. HnswBuildAppendPage r blk = Inr (Suc blk, r') \<and> at_end r' (Suc blk) \<and> same_tups r r' \<and> read_page r' (Suc blk) = Inr HnswInitPage"
proof -
  obtain p where p: "read_page r blk = Inr p" "hp_nextblkno p = InvalidBlockNumber" using at_end_page [OF assms] by blast
  have wf: "rel_wf r" and ch: "seq_chain r" and l: "Suc blk = length (rel_blocks r)" using assms by (auto simp: at_end_def)
  obtain r' where a: "HnswInsertAppendPage r blk = Inr (Suc blk, r')" "rel_wf r'" "\<forall>c o' t. tup_at r' c o' = Inr t \<longleftrightarrow> tup_at r c o' = Inr t"
      "length (rel_blocks r') = Suc (Suc blk)" "read_page r' (Suc blk) = Inr HnswInitPage" "read_page r' blk = Inr (p\<lparr>hp_nextblkno := Suc blk\<rparr>)"
      "\<forall>c. c \<noteq> blk \<longrightarrow> c \<noteq> Suc blk \<longrightarrow> read_page r' c = read_page r c"
    using append_page_spec [OF wf p] unfolding l [symmetric] by blast
  obtain mp where mp: "read_meta r = Inr mp" using wf by (auto simp: rel_wf_def)
  have m: "read_meta r' = read_meta r" "rel_options r' = rel_options r"
    using HnswInsertAppendPage_meta [OF a(1) mp] mp a(1) by (auto simp: HnswInsertAppendPage_def HnswNewBuffer_def write_page_def rbind_InrE)
  have "seq_chain r'"
    unfolding seq_chain_def
  proof (intro allI impI)
    fix b q assume q: "read_page r' b = Inr q"
    consider "b = blk" | "b = Suc blk" | "b \<noteq> blk" "b \<noteq> Suc blk" by blast
    then show "hp_nextblkno q = (if Suc b = length (rel_blocks r') then InvalidBlockNumber else Suc b)"
    proof cases
      case 1
      then show ?thesis using q a(4,6) by auto
    next
      case 2
      then show ?thesis using q a(4,5) init_page_ok(2) by auto
    next
      case 3
      then have q': "read_page r b = Inr q" using q a(7) by simp
      then show ?thesis using ch l a(4) 3 read_page_bounds [OF q'] by (auto simp: seq_chain_def)
    qed
  qed
  then show ?thesis using a m assms by (auto simp: at_end_def same_tups_def HnswBuildAppendPage_eq)
qed

lemma append_tuple_end:
  assumes e: "at_end r blk" and p: "read_page r blk = Inr p" and fits: "tuple_size t \<le> ip_free_space p"
    and t: "case t of ElementTup et \<Rightarrow> et_deleted et = 0 | NeighborTup n \<Rightarrow> True" and off: "off = Suc (length (ip_items p))"
  shows "\<exists>r' p'. append_tuple r blk off t = Inr r' \<and> at_end r' blk \<and> read_meta r' = read_meta r \<and> rel_options r' = rel_options r \<and>
    (\<forall>b o' x. tup_at r' b o' = Inr x \<longleftrightarrow> (b = blk \<and> o' = off \<and> x = t) \<or> tup_at r b o' = Inr x) \<and> (\<forall>x. tup_at r blk off \<noteq> Inr x) \<and>
    read_page r' blk = Inr p' \<and> ip_items p' = ip_items p @ [t] \<and> ip_free_space p' = ip_free_space p - tuple_size t - 4"
proof -
  have wf: "rel_wf r" and ch: "seq_chain r" using e by (simp_all add: at_end_def)
  obtain mp where mp: "read_meta r = Inr mp" using wf by (auto simp: rel_wf_def)
  obtain r' p' where a: "append_tuple r blk off t = Inr r'" "rel_wf r'" "tup_at r' blk off = Inr t" "keeps_tuples r r' {}" "only_new r r' {(blk, off)}"
      "read_page r' blk = Inr p'" "ip_items p' = ip_items p @ [t]" "ip_free_space p' = ip_free_space p - tuple_size t - 4"
      "\<forall>c. c \<noteq> blk \<longrightarrow> read_page r' c = read_page r c"
    using append_tuple_spec [OF wf p fits t off] by blast
  have r': "\<exists>q. r' = write_page r blk q \<and> hp_nextblkno q = hp_nextblkno p"
    using a(1) p hp_ok_add(1) [OF rel_wf_page(2) [OF wf p] fits] off by (auto simp: append_tuple_def)
  then have l: "length (rel_blocks r') = length (rel_blocks r)" "rel_options r' = rel_options r" "hp_nextblkno p' = hp_nextblkno p"
    using a(6) read_write_page [OF read_page_bounds [OF p], of _ blk] by (auto simp: write_page_def)
  have "seq_chain r'"
    unfolding seq_chain_def
  proof (intro allI impI)
    fix b q assume q: "read_page r' b = Inr q"
    show "hp_nextblkno q = (if Suc b = length (rel_blocks r') then InvalidBlockNumber else Suc b)"
      using q a(6,9) p ch l unfolding seq_chain_def by (cases "b = blk") auto
  qed
  moreover have "tup_at r' b o' = Inr x \<longleftrightarrow> (b = blk \<and> o' = off \<and> x = t) \<or> tup_at r b o' = Inr x" for b o' x
  proof (cases "b = blk \<and> o' = off")
    case True
    then show ?thesis using a(3) tup_beyond [OF p, of off x] off by auto
  next
    case False
    then show ?thesis using a(4,5) unfolding keeps_tuples_def only_new_def by blast
  qed
  moreover have "tup_at r blk off \<noteq> Inr x" for x using tup_beyond [OF p] off by simp
  ultimately show ?thesis using a(1,2,6-8) e l append_tuple_meta [OF a(1) mp] mp by (auto simp: at_end_def)
qed

text \<open>An element is stored with its position known, and its tuple points at the placeholder.\<close>

definition place :: "HnswElementData \<Rightarrow> HnswElementData \<Rightarrow> HnswElementData" where
  "place e e' = e\<lparr>he_blkno := he_blkno e', he_offno := he_offno e', he_neighborPage := he_neighborPage e', he_neighborOffno := he_neighborOffno e'\<rparr>"

definition nbr_tid :: "HnswElementData \<Rightarrow> ItemPointerData" where
  "nbr_tid e = ItemPointerSet (he_neighborPage e) (he_neighborOffno e)"

abbreviation at_tid :: "Relation \<Rightarrow> ItemPointerData \<Rightarrow> HnswTuple result" where
  "at_tid r t \<equiv> tup_at r (ip_blkid t) (ip_posid t)"

definition element_data :: "HnswElementData \<Rightarrow> ItemPointerData \<Rightarrow> HnswElementTupleData" where
  "element_data e nt = (projr (HnswSetElementTuple zero_etup e))\<lparr>et_neighbortid := nt\<rparr>"

lemma create_element_spec:
  assumes e: "at_end r blk" and p: "p < length es" and st: "storable es (es ! p) m"
  shows "\<exists>r' blk' e'. create_element m p (r, blk, es) = Inr (r', blk', es[p := e']) \<and> at_end r' blk' \<and> (\<exists>x. e' = place (es ! p) x) \<and>
    read_meta r' = read_meta r \<and> rel_options r' = rel_options r \<and> (\<forall>x. at_tid r (elem_tid e') \<noteq> Inr x \<and> at_tid r (nbr_tid e') \<noteq> Inr x) \<and>
    (\<forall>t x. at_tid r' t = Inr x \<longleftrightarrow> (t = elem_tid e' \<and> x = ElementTup (element_data (es ! p) (nbr_tid e'))) \<or>
       (t = nbr_tid e' \<and> x = NeighborTup (placeholder (he_level e') m)) \<or> at_tid r t = Inr x)"
proof -
  let ?e = "es ! p"
  obtain v where v: "he_value ?e = Some v" and mx: "HNSW_ELEMENT_TUPLE_SIZE (nat (vl_len v)) \<le> HNSW_MAX_SIZE" "HNSW_NEIGHBOR_TUPLE_SIZE (he_level ?e) m \<le> HNSW_MAX_SIZE"
    using st by (auto simp: storable_def split: option.splits)
  define esz where "esz = HNSW_ELEMENT_TUPLE_SIZE (nat (vl_len v))"
  define nsz where "nsz = HNSW_NEIGHBOR_TUPLE_SIZE (he_level ?e) m"
  define same where "same \<longleftrightarrow> esz + nsz + sizeof_ItemIdData \<le> HNSW_MAX_SIZE"
  note sz = mx [folded esz_def nsz_def]
  obtain et where et: "HnswSetElementTuple zero_etup ?e = Inr et" "et_datalen et = nat (vl_len v)" "et_deleted et = 0"
    using v by (simp add: HnswSetElementTuple_def)
  obtain p0 where p0: "read_page r blk = Inr p0" "hp_ok p0" using at_end_page [OF e] by blast
  let ?full = "ip_free_space p0 < esz \<or> (same \<and> ip_free_space p0 < esz + nsz + sizeof_ItemIdData)"
  obtain blk1 r1 p1 where s1: "(if ?full then HnswBuildAppendPage r blk else Inr (blk, r)) = Inr (blk1, r1)" "at_end r1 blk1" "same_tups r r1"
      "read_page r1 blk1 = Inr p1" "hp_ok p1" "esz \<le> ip_free_space p1" "same \<Longrightarrow> esz + nsz + sizeof_ItemIdData \<le> ip_free_space p1"
  proof (cases ?full)
    case True
    obtain r1 where "HnswBuildAppendPage r blk = Inr (Suc blk, r1)" "at_end r1 (Suc blk)" "same_tups r r1" "read_page r1 (Suc blk) = Inr HnswInitPage"
      using append_page_end [OF e] by blast
    then show ?thesis using that [of "Suc blk" r1 HnswInitPage] True init_page_ok sz by (simp add: same_def)
  next
    case False
    then have "(if ?full then HnswBuildAppendPage r blk else Inr (blk, r)) = Inr (blk, r)" by (rule if_not_P)
    then show ?thesis using that [of blk r p0] e p0 False by (auto simp: same_tups_def)
  qed
  define off where "off = Suc (length (ip_items p1))"
  define nb where "nb = (if same then blk1 else blk1 + 1)"
  define noff where "noff = (if same then Suc off else FirstOffsetNumber)"
  define e' where "e' = ?e\<lparr>he_blkno := blk1, he_offno := off, he_neighborPage := nb, he_neighborOffno := noff\<rparr>"
  let ?et = "et\<lparr>et_neighbortid := ItemPointerSet nb noff\<rparr>" and ?nt = "placeholder (he_level ?e) m"
  have tsz: "tuple_size (ElementTup ?et) = esz" "tuple_size (NeighborTup ?nt) = nsz"
    using et(2) by (simp_all add: tuple_size_def esz_def nsz_def placeholder_def zero_ntup_def HNSW_NEIGHBOR_TUPLE_SIZE_def)
  obtain r2 p2 where s2: "append_tuple r1 blk1 off (ElementTup ?et) = Inr r2" "at_end r2 blk1" "read_meta r2 = read_meta r1" "rel_options r2 = rel_options r1"
      "\<forall>b o' x. tup_at r2 b o' = Inr x \<longleftrightarrow> (b = blk1 \<and> o' = off \<and> x = ElementTup ?et) \<or> tup_at r1 b o' = Inr x" "\<forall>x. tup_at r1 blk1 off \<noteq> Inr x"
      "read_page r2 blk1 = Inr p2" "ip_items p2 = ip_items p1 @ [ElementTup ?et]" "ip_free_space p2 = ip_free_space p1 - esz - 4"
    using append_tuple_end [OF s1(2,4) _ _ off_def, of "ElementTup ?et"] s1(6) et(3) unfolding tsz by auto
  have small: "(ip_free_space p2 < nsz) = (\<not> same)"
    using s1(7) s2(9) free_space_le [OF s1(5)] tuple_size_pos [of "NeighborTup ?nt"] unfolding tsz by (auto simp: same_def sizeof_ItemIdData_def)
  obtain r3 p3 where s3: "(if ip_free_space p2 < nsz then HnswBuildAppendPage r2 blk1 else Inr (blk1, r2)) = Inr (nb, r3)" "at_end r3 nb" "same_tups r2 r3"
      "read_page r3 nb = Inr p3" "nsz \<le> ip_free_space p3" "noff = Suc (length (ip_items p3))"
  proof (cases same)
    case True
    then show ?thesis using that [of r2 p2] small s2(2,7,8) by (simp add: nb_def noff_def off_def same_tups_def)
  next
    case False
    obtain r3 where "HnswBuildAppendPage r2 blk1 = Inr (Suc blk1, r3)" "at_end r3 (Suc blk1)" "same_tups r2 r3" "read_page r3 (Suc blk1) = Inr HnswInitPage"
      using append_page_end [OF s2(2)] by blast
    then show ?thesis using that [of r3 HnswInitPage] False small init_page_ok sz by (simp add: nb_def noff_def FirstOffsetNumber_def)
  qed
  obtain r4 where s4: "append_tuple r3 nb noff (NeighborTup ?nt) = Inr r4" "at_end r4 nb" "read_meta r4 = read_meta r3" "rel_options r4 = rel_options r3"
      "\<forall>b o' x. tup_at r4 b o' = Inr x \<longleftrightarrow> (b = nb \<and> o' = noff \<and> x = NeighborTup ?nt) \<or> tup_at r3 b o' = Inr x" "\<forall>x. tup_at r3 nb noff \<noteq> Inr x"
    using append_tuple_end [OF s3(2,4) _ _ s3(6), of "NeighborTup ?nt"] s3(5) unfolding tsz by auto
  have run: "create_element m p (r, blk, es) = Inr (r4, nb, es[p := e'])"
  proof -
    have al: "\<not> HNSW_TUPLE_ALLOC_SIZE < esz" using sz(1) by (simp add: hnsw_const MAXALIGN_def)
    have np: "(if same then (blk1, Suc off) else (blk1 + 1, FirstOffsetNumber)) = (nb, noff)" by (simp add: nb_def noff_def)
    show ?thesis
      unfolding create_element_def prod.case nth_r_simps [OF p] rbind_simps v option.case Let_def esz_def [symmetric] nsz_def [symmetric] same_def [symmetric]
        if_not_P [OF al] et(1) p0(1) s1(1,4) off_def [symmetric] np s2(1,7) s3(1) s4(1) e'_def by simp
  qed
  have tids: "elem_tid e' = ItemPointerSet blk1 off" "nbr_tid e' = ItemPointerSet nb noff" "he_level e' = he_level ?e"
    by (simp_all add: e'_def elem_tid_def nbr_tid_def)
  have ed: "element_data ?e (nbr_tid e') = ?et" using et(1) by (simp add: element_data_def tids)
  have st: "tup_at r1 b o' = Inr x \<longleftrightarrow> tup_at r b o' = Inr x" "tup_at r3 b o' = Inr x \<longleftrightarrow> tup_at r2 b o' = Inr x" for b o' x
    using s1(3) s3(3) by (simp_all add: same_tups_def)
  have "at_tid r4 t = Inr x \<longleftrightarrow> (t = elem_tid e' \<and> x = ElementTup (element_data ?e (nbr_tid e'))) \<or>
       (t = nbr_tid e' \<and> x = NeighborTup (placeholder (he_level e') m)) \<or> at_tid r t = Inr x" for t x
  proof -
    have eq: "t = ItemPointerSet b o' \<longleftrightarrow> ip_blkid t = b \<and> ip_posid t = o'" for b o' by (cases t) (auto simp: ItemPointerSet_def)
    show ?thesis unfolding ed [unfolded tids] tids eq s4(5) [rule_format] st s2(5) [rule_format] by blast
  qed
  moreover have "at_tid r (elem_tid e') \<noteq> Inr x \<and> at_tid r (nbr_tid e') \<noteq> Inr x" for x
    unfolding tids using s2(6) s4(6) st s2(5) by simp
  moreover have "e' = place ?e e'" by (simp add: e'_def place_def)
  then have "\<exists>x. e' = place ?e x" ..
  moreover have "read_meta r4 = read_meta r" "rel_options r4 = rel_options r" using s4(3,4) s2(3,4) s1(3) s3(3) by (simp_all add: same_tups_def)
  ultimately show ?thesis using run s4(2) by blast
qed

text \<open>The element list of the graph.\<close>

fun list_at :: "elems \<Rightarrow> eptr option \<Rightarrow> eptr list \<Rightarrow> bool" where
  "list_at es None [] \<longleftrightarrow> True"
| "list_at es (Some p) (q # ps) \<longleftrightarrow> p = q \<and> p < length es \<and> list_at es (he_next (es ! p)) ps"
| "list_at es _ _ \<longleftrightarrow> False"

lemma list_at_cong: "length es' = length es \<Longrightarrow> \<forall>p<length es. he_next (es' ! p) = he_next (es ! p) \<Longrightarrow> list_at es' h ps = list_at es h ps"
  by (induction es h ps rule: list_at.induct) auto

lemma list_at_bound: "list_at es h ps \<Longrightarrow> set ps \<subseteq> {..<length es}"
  by (induction es h ps rule: list_at.induct) auto

text \<open>What the pages hold once the elements \<open>D\<close> of the store \<open>es0\<close> have been placed, where \<open>es\<close> is the store with their positions and \<open>N\<close>
  gives the neighbour tuples.\<close>

definition holds :: "elems \<Rightarrow> elems \<Rightarrow> (eptr \<Rightarrow> HnswNeighborTupleData) \<Rightarrow> eptr set \<Rightarrow> Relation \<Rightarrow> bool" where
  "holds es0 es N D r \<longleftrightarrow> (\<forall>t x. at_tid r t = Inr x \<longleftrightarrow>
     (\<exists>p\<in>D. t = elem_tid (es ! p) \<and> x = ElementTup (element_data (es0 ! p) (nbr_tid (es ! p))) \<or> t = nbr_tid (es ! p) \<and> x = NeighborTup (N p)))"

definition located :: "elems \<Rightarrow> elems \<Rightarrow> eptr set \<Rightarrow> bool" where
  "located es0 es D \<longleftrightarrow> length es = length es0 \<and> D \<subseteq> {..<length es0} \<and> (\<forall>p<length es0. (\<exists>x. es ! p = place (es0 ! p) x) \<and> (p \<notin> D \<longrightarrow> es ! p = es0 ! p)) \<and>
     inj_on (\<lambda>p. elem_tid (es ! p)) D \<and> inj_on (\<lambda>p. nbr_tid (es ! p)) D"

lemma place_fields [simp]:
  "he_next (place e e') = he_next e" "he_level (place e e') = he_level e" "he_value (place e e') = he_value e" "he_version (place e e') = he_version e"
  "he_neighbors (place e e') = he_neighbors e" "he_heaptids (place e e') = he_heaptids e"
  "element_data (place e e') t = element_data e t" "storable es (place e e') m = storable es e m"
  by (cases "he_value e"; cases "he_neighbors e"; simp add: place_def element_data_def HnswSetElementTuple_def storable_def arrays_ok_def)+

lemma storable_length: "length es' = length es \<Longrightarrow> storable es' e m = storable es e m"
  by (cases "he_neighbors e") (simp_all add: storable_def arrays_ok_def)

lemma located_fields:
  assumes "located es0 es D" "p < length es0"
  shows "length es = length es0" "he_next (es ! p) = he_next (es0 ! p)" "he_level (es ! p) = he_level (es0 ! p)" "he_version (es ! p) = he_version (es0 ! p)"
    "he_neighbors (es ! p) = he_neighbors (es0 ! p)" "storable es (es ! p) m = storable es0 (es0 ! p) m"
    "element_data (es ! p) t = element_data (es0 ! p) t"
proof -
  show l: "length es = length es0" using assms by (simp add: located_def)
  obtain e' where e: "es ! p = place (es0 ! p) e'" using assms by (auto simp: located_def)
  show "he_next (es ! p) = he_next (es0 ! p)" "he_level (es ! p) = he_level (es0 ! p)" "he_version (es ! p) = he_version (es0 ! p)"
    "he_neighbors (es ! p) = he_neighbors (es0 ! p)" "storable es (es ! p) m = storable es0 (es0 ! p) m"
    "element_data (es ! p) t = element_data (es0 ! p) t" unfolding e using storable_length [OF l] by simp_all
qed

lemma located_list: "located es0 es D \<Longrightarrow> list_at es h ps = list_at es0 h ps"
  using located_fields(2) [of es0 es D] by (intro list_at_cong) (auto simp: located_def)

lemma create_step:
  assumes l: "located es0 es D" and h: "holds es0 es N D r" and e: "at_end r blk" and p: "p < length es0" "p \<notin> D" and st: "storable es0 (es0 ! p) m"
    and N: "N p = placeholder (he_level (es0 ! p)) m"
  shows "\<exists>r' blk' es'. create_element m p (r, blk, es) = Inr (r', blk', es') \<and> at_end r' blk' \<and> located es0 es' (insert p D) \<and>
    holds es0 es' N (insert p D) r' \<and> read_meta r' = read_meta r \<and> rel_options r' = rel_options r"
proof -
  note lf = located_fields [OF l p(1)]
  have pe: "p < length es" "es ! p = es0 ! p" using l p by (auto simp: located_def)
  have stp: "storable es (es ! p) m" unfolding lf(6) by (rule st)
  obtain r' blk' e' where a: "create_element m p (r, blk, es) = Inr (r', blk', es[p := e'])" "at_end r' blk'" "\<exists>x. e' = place (es ! p) x"
      "read_meta r' = read_meta r" "rel_options r' = rel_options r" "\<forall>x. at_tid r (elem_tid e') \<noteq> Inr x \<and> at_tid r (nbr_tid e') \<noteq> Inr x"
      "\<forall>t x. at_tid r' t = Inr x \<longleftrightarrow> (t = elem_tid e' \<and> x = ElementTup (element_data (es ! p) (nbr_tid e'))) \<or>
         (t = nbr_tid e' \<and> x = NeighborTup (placeholder (he_level e') m)) \<or> at_tid r t = Inr x"
    using create_element_spec [OF e pe(1) stp] by blast
  let ?es = "es[p := e']"
  have old: "?es ! q = es ! q" if "q \<in> D" for q using that p(2) by (cases "q = p") simp_all
  have new: "?es ! p = e'" using pe(1) by simp
  have lv: "he_level e' = he_level (es0 ! p)" using a(3) pe(2) by auto
  have free: "elem_tid e' \<noteq> elem_tid (es ! q)" "nbr_tid e' \<noteq> nbr_tid (es ! q)" if q: "q \<in> D" for q
  proof -
    have "at_tid r (elem_tid (es ! q)) = Inr (ElementTup (element_data (es0 ! q) (nbr_tid (es ! q))))" "at_tid r (nbr_tid (es ! q)) = Inr (NeighborTup (N q))"
      using h q unfolding holds_def by blast+
    then show "elem_tid e' \<noteq> elem_tid (es ! q)" "nbr_tid e' \<noteq> nbr_tid (es ! q)" using a(6) by metis+
  qed
  have "located es0 ?es (insert p D)"
    unfolding located_def
  proof (intro conjI allI impI)
    fix q assume q: "q < length es0"
    show "\<exists>x. ?es ! q = place (es0 ! q) x" using l q a(3) pe by (cases "q = p") (auto simp: located_def)
    show "?es ! q = es0 ! q" if "q \<notin> insert p D" using that l q by (simp add: located_def)
  next
    show "inj_on (\<lambda>q. elem_tid (?es ! q)) (insert p D)" "inj_on (\<lambda>q. nbr_tid (?es ! q)) (insert p D)"
      using l old new free p(2) unfolding inj_on_insert located_def by (auto simp: inj_on_def)
  qed (use l p(1) in \<open>auto simp: located_def\<close>)
  moreover have "holds es0 ?es N (insert p D) r'"
    unfolding holds_def
  proof (intro allI)
    fix t x
    have "(\<exists>q\<in>insert p D. t = elem_tid (?es ! q) \<and> x = ElementTup (element_data (es0 ! q) (nbr_tid (?es ! q))) \<or> t = nbr_tid (?es ! q) \<and> x = NeighborTup (N q)) \<longleftrightarrow>
        (t = elem_tid e' \<and> x = ElementTup (element_data (es ! p) (nbr_tid e'))) \<or> (t = nbr_tid e' \<and> x = NeighborTup (placeholder (he_level e') m)) \<or>
        (\<exists>q\<in>D. t = elem_tid (es ! q) \<and> x = ElementTup (element_data (es0 ! q) (nbr_tid (es ! q))) \<or> t = nbr_tid (es ! q) \<and> x = NeighborTup (N q))"
      unfolding bex_simps(5) new N lv pe(2) using old by (simp cong: bex_cong)
    then show "at_tid r' t = Inr x \<longleftrightarrow> (\<exists>q\<in>insert p D. t = elem_tid (?es ! q) \<and> x = ElementTup (element_data (es0 ! q) (nbr_tid (?es ! q))) \<or>
        t = nbr_tid (?es ! q) \<and> x = NeighborTup (N q))"
      using a(7) h unfolding holds_def by simp
  qed
  ultimately show ?thesis using a(1,2,4,5) by blast
qed

lemma create_elements_spec:
  "\<lbrakk>list_at es0 h ps; distinct ps; set ps \<inter> D = {}; located es0 es D; holds es0 es N D r; at_end r blk; length ps \<le> fuel;
    \<forall>p\<in>set ps. storable es0 (es0 ! p) m \<and> N p = placeholder (he_level (es0 ! p)) m\<rbrakk> \<Longrightarrow>
   \<exists>r' blk' es'. create_elements fuel m h (r, blk, es) = Inr (r', blk', es') \<and> at_end r' blk' \<and> located es0 es' (D \<union> set ps) \<and>
     holds es0 es' N (D \<union> set ps) r' \<and> read_meta r' = read_meta r \<and> rel_options r' = rel_options r"
proof (induction ps arbitrary: h D es r blk fuel)
  case Nil
  then have "h = None" by (cases h) simp_all
  then show ?case using Nil.prems by (intro exI [of _ r] exI [of _ blk] exI [of _ es]) simp
next
  case (Cons p ps)
  have h: "h = Some p" "p < length es0" "list_at es0 (he_next (es0 ! p)) ps" using Cons.prems(1) by (cases h; simp)+
  obtain fuel' where f: "fuel = Suc fuel'" using Cons.prems(7) by (cases fuel) simp_all
  have p: "p \<notin> D" "storable es0 (es0 ! p) m" "N p = placeholder (he_level (es0 ! p)) m" using Cons.prems(3,8) by simp_all
  obtain r1 blk1 es1 where s: "create_element m p (r, blk, es) = Inr (r1, blk1, es1)" "at_end r1 blk1" "located es0 es1 (insert p D)"
      "holds es0 es1 N (insert p D) r1" "read_meta r1 = read_meta r" "rel_options r1 = rel_options r"
    using create_step [OF Cons.prems(4,5,6) h(2) p] by blast
  note lf = located_fields [OF Cons.prems(4) h(2)]
  have n: "nth_r es p = Inr (es ! p)" "he_next (es ! p) = he_next (es0 ! p)" using lf(1,2) h(2) by simp_all
  have "\<exists>r' blk' es'. create_elements fuel' m (he_next (es0 ! p)) (r1, blk1, es1) = Inr (r', blk', es') \<and> at_end r' blk' \<and>
      located es0 es' (insert p D \<union> set ps) \<and> holds es0 es' N (insert p D \<union> set ps) r' \<and> read_meta r' = read_meta r1 \<and> rel_options r' = rel_options r1"
    by (rule Cons.IH [OF h(3) _ _ s(3,4,2)]) (use Cons.prems f in auto)
  then show ?case unfolding h(1) f create_elements.simps snd_conv n rbind_simps s(1) using s(5,6) by simp
qed

text \<open>The neighbour tuple of an element, once all positions are known.\<close>

definition neighbor_data :: "elems \<Rightarrow> nat \<Rightarrow> eptr \<Rightarrow> HnswNeighborTupleData" where
  "neighbor_data es m p = projr (HnswSetNeighborTuple es zero_ntup (es ! p) m)"

lemma overwrite_end:
  assumes e: "at_end r blk" and t: "tup_at r b off = Inr (NeighborTup n0)" and sz: "tuple_size (NeighborTup n) = tuple_size (NeighborTup n0)"
  shows "\<exists>r'. overwrite_tuple r b off (NeighborTup n) = Inr r' \<and> at_end r' blk \<and> read_meta r' = read_meta r \<and> rel_options r' = rel_options r \<and>
    (\<forall>c o'. tup_at r' c o' = (if c = b \<and> o' = off then Inr (NeighborTup n) else tup_at r c o'))"
proof -
  have wf: "rel_wf r" and ch: "seq_chain r" using e by (simp_all add: at_end_def)
  obtain mp where mp: "read_meta r = Inr mp" using wf by (auto simp: rel_wf_def)
  obtain p where p: "read_page r b = Inr p" "page_tuple p off = Inr (NeighborTup n0)" using t by (auto simp: tup_at_def rbind_InrE)
  define q where "q = p\<lparr>ip_upper := ip_upper p + tuple_size (NeighborTup n0) - tuple_size (NeighborTup n), ip_items := (ip_items p)[off - 1 := NeighborTup n]\<rparr>"
  let ?r = "write_page r b q"
  have fits: "tuple_size (NeighborTup n) \<le> tuple_size (NeighborTup n0) + ip_exact_free_space p" using sz by simp
  have run: "overwrite_tuple r b off (NeighborTup n) = Inr ?r"
    using p(1) hp_ok_overwrite(1) [OF rel_wf_page(2) [OF wf p(1)] p(2) fits] by (simp add: overwrite_tuple_def q_def)
  have wf': "rel_wf ?r" using overwrite_replace [OF wf p fits] run by (auto simp: replace_ok_def)
  have rd: "read_page ?r c = (if c = b then Inr q else read_page r c)" for c using read_write_page [OF read_page_bounds [OF p(1)]] .
  have "tup_at ?r c o' = (if c = b \<and> o' = off then Inr (NeighborTup n) else tup_at r c o')" for c o'
  proof -
    have "page_tuple q o' = (if o' = off then Inr (NeighborTup n) else page_tuple p o')" unfolding q_def by (rule page_tuple_update [OF p(2)])
    then show ?thesis using p(1) unfolding tup_at_def rd by (cases "o' = off") simp_all
  qed
  moreover have "hp_nextblkno q = hp_nextblkno p" by (simp add: q_def)
  then have "seq_chain ?r" using ch p(1) unfolding seq_chain_def rd by (simp split: if_splits)
  moreover have "read_meta ?r = read_meta r" using overwrite_tuple_meta [OF run mp] mp by simp
  ultimately show ?thesis using run wf' e by (auto simp: at_end_def write_page_def)
qed

lemma write_step:
  assumes l: "located es0 es D" and h: "holds es0 es N D r" and e: "at_end r blk" and p: "p \<in> D" and st: "storable es0 (es0 ! p) m"
    and N: "N p = placeholder (he_level (es0 ! p)) m"
  shows "\<exists>r'. overwrite_tuple r (he_neighborPage (es ! p)) (he_neighborOffno (es ! p)) (NeighborTup (neighbor_data es m p)) = Inr r' \<and> at_end r' blk \<and>
    read_meta r' = read_meta r \<and> rel_options r' = rel_options r \<and> holds es0 es (N(p := neighbor_data es m p)) D r' \<and>
    HnswSetNeighborTuple es zero_ntup (es ! p) m = Inr (neighbor_data es m p)"
proof -
  have pl: "p < length es0" using l p by (auto simp: located_def)
  note lf = located_fields [OF l pl]
  have "storable es (es ! p) m" unfolding lf(6) by (rule st)
  then have ok: "arrays_ok es (es ! p)" by (simp add: storable_def)
  have sn: "HnswSetNeighborTuple es zero_ntup (es ! p) m = Inr (neighbor_data es m p)" using SetNeighborTuple_eq [OF ok] by (simp add: neighbor_data_def)
  let ?n = "neighbor_data es m p" and ?t = "nbr_tid (es ! p)"
  have sz: "tuple_size (NeighborTup ?n) = tuple_size (NeighborTup (N p))"
    unfolding SetNeighborTuple_size(1) [OF ok sn] N lf(3) by (simp add: placeholder_def zero_ntup_def tuple_size_def HNSW_NEIGHBOR_TUPLE_SIZE_def)
  have at: "at_tid r ?t = Inr (NeighborTup (N p))" using h p unfolding holds_def by blast
  obtain r' where r': "overwrite_tuple r (ip_blkid ?t) (ip_posid ?t) (NeighborTup ?n) = Inr r'" "at_end r' blk" "read_meta r' = read_meta r" "rel_options r' = rel_options r"
      "\<forall>c o'. tup_at r' c o' = (if c = ip_blkid ?t \<and> o' = ip_posid ?t then Inr (NeighborTup ?n) else tup_at r c o')"
    using overwrite_end [OF e at sz] by blast
  have "holds es0 es (N(p := ?n)) D r'"
    unfolding holds_def
  proof (intro allI)
    fix t x
    have eq: "ip_blkid t = ip_blkid ?t \<and> ip_posid t = ip_posid ?t \<longleftrightarrow> t = ?t" using ItemPointer_collapse by metis
    have tt: "at_tid r' t = (if t = ?t then Inr (NeighborTup ?n) else at_tid r t)" using r'(5) unfolding eq [symmetric] by simp
    show "at_tid r' t = Inr x \<longleftrightarrow> (\<exists>q\<in>D. t = elem_tid (es ! q) \<and> x = ElementTup (element_data (es0 ! q) (nbr_tid (es ! q))) \<or>
        t = nbr_tid (es ! q) \<and> x = NeighborTup ((N(p := ?n)) q))"
    proof (cases "t = ?t")
      case True
      have "?t \<noteq> elem_tid (es ! q)" if "q \<in> D" for q
        using h that at unfolding holds_def by (metis HnswTuple.distinct(1) Inr_inject)
      moreover have "q = p" if "q \<in> D" "?t = nbr_tid (es ! q)" for q using l p that by (auto simp: located_def inj_on_def)
      ultimately show ?thesis unfolding tt using True p by auto
    next
      case False
      have "(\<exists>q\<in>D. t = elem_tid (es ! q) \<and> x = ElementTup (element_data (es0 ! q) (nbr_tid (es ! q))) \<or> t = nbr_tid (es ! q) \<and> x = NeighborTup ((N(p := ?n)) q)) \<longleftrightarrow>
          (\<exists>q\<in>D. t = elem_tid (es ! q) \<and> x = ElementTup (element_data (es0 ! q) (nbr_tid (es ! q))) \<or> t = nbr_tid (es ! q) \<and> x = NeighborTup (N q))"
        by (rule bex_cong [OF refl]) (use False in auto)
      then show ?thesis unfolding tt using False h unfolding holds_def by simp
    qed
  qed
  then show ?thesis using r' sn by (auto simp: nbr_tid_def)
qed

lemma write_neighbors_spec:
  "\<lbrakk>list_at es0 h ps; distinct ps; located es0 es D; holds es0 es N D r; at_end r blk; length ps \<le> fuel;
    \<forall>p\<in>set ps. p \<in> D \<and> storable es0 (es0 ! p) m \<and> N p = placeholder (he_level (es0 ! p)) m\<rbrakk> \<Longrightarrow>
   \<exists>r'. write_neighbors fuel m es h r = Inr r' \<and> at_end r' blk \<and> read_meta r' = read_meta r \<and> rel_options r' = rel_options r \<and>
     holds es0 es (\<lambda>p. if p \<in> set ps then neighbor_data es m p else N p) D r'"
proof (induction ps arbitrary: h N r fuel)
  case Nil
  then have "h = None" by (cases h) simp_all
  then show ?case using Nil.prems by simp
next
  case (Cons p ps)
  have h: "h = Some p" "p < length es0" "list_at es0 (he_next (es0 ! p)) ps" using Cons.prems(1) by (cases h; simp)+
  obtain fuel' where f: "fuel = Suc fuel'" using Cons.prems(6) by (cases fuel) simp_all
  have p: "p \<in> D" "storable es0 (es0 ! p) m" "N p = placeholder (he_level (es0 ! p)) m" using Cons.prems(7) by simp_all
  obtain r1 where s: "overwrite_tuple r (he_neighborPage (es ! p)) (he_neighborOffno (es ! p)) (NeighborTup (neighbor_data es m p)) = Inr r1" "at_end r1 blk"
      "read_meta r1 = read_meta r" "rel_options r1 = rel_options r" "holds es0 es (N(p := neighbor_data es m p)) D r1"
      "HnswSetNeighborTuple es zero_ntup (es ! p) m = Inr (neighbor_data es m p)"
    using write_step [OF Cons.prems(3,4,5) p] by blast
  note lf = located_fields [OF Cons.prems(3) h(2)]
  have n: "nth_r es p = Inr (es ! p)" "he_next (es ! p) = he_next (es0 ! p)" using lf(1,2) h(2) by simp_all
  have "\<exists>r'. write_neighbors fuel' m es (he_next (es0 ! p)) r1 = Inr r' \<and> at_end r' blk \<and> read_meta r' = read_meta r1 \<and> rel_options r' = rel_options r1 \<and>
      holds es0 es (\<lambda>q. if q \<in> set ps then neighbor_data es m q else (N(p := neighbor_data es m p)) q) D r'"
    by (rule Cons.IH [OF h(3) _ Cons.prems(3) s(5,2)]) (use Cons.prems f in auto)
  moreover have "(\<lambda>q. if q \<in> set ps then neighbor_data es m q else (N(p := neighbor_data es m p)) q) =
      (\<lambda>q. if q \<in> set (p # ps) then neighbor_data es m q else N q)" by (auto simp: fun_eq_iff)
  ultimately show ?case unfolding h(1) f write_neighbors.simps n rbind_simps s(1,6) using s(3,4) by simp
qed

section \<open>The flushed graph\<close>

lemma build_start:
  assumes "rel_blocks (bs_index bs) = []"
  shows "\<exists>r mp. HnswNewBuffer (CreateMetaPage bs) (GraphBlock HnswInitPage) = (1, r) \<and> at_end r 1 \<and> (\<forall>t x. at_tid r t \<noteq> Inr x) \<and>
    rel_options r = rel_options (bs_index bs) \<and> read_meta r = Inr mp \<and> mp_magicNumber mp = HNSW_MAGIC_NUMBER \<and> mp_m mp = bs_m bs mod 2 ^ 16 \<and>
    mp_efConstruction mp = bs_efConstruction bs mod 2 ^ 16 \<and> mp_dimensions mp = nat (bs_dimensions bs mod 2 ^ 32) \<and> mp_insertPage mp = InvalidBlockNumber"
proof -
  define mp where "mp = \<lparr>mp_magicNumber = HNSW_MAGIC_NUMBER, mp_version = HNSW_VERSION, mp_dimensions = nat (bs_dimensions bs mod 2 ^ 32),
        mp_m = bs_m bs mod 2 ^ 16, mp_efConstruction = bs_efConstruction bs mod 2 ^ 16, mp_entryBlkno = InvalidBlockNumber,
        mp_entryOffno = InvalidOffsetNumber, mp_entryLevel = -1, mp_insertPage = InvalidBlockNumber\<rparr>"
  define r where "r = (bs_index bs)\<lparr>rel_blocks := [MetaBlock mp HNSW_PAGE_ID, GraphBlock HnswInitPage]\<rparr>"
  have rd: "read_page r b = Inr p \<longleftrightarrow> b = 1 \<and> p = HnswInitPage" for b p
    by (cases b) (auto simp: read_page_def r_def less_Suc_eq)
  have no: "tup_at r b off \<noteq> Inr x" for b off x
    by (auto simp: tup_at_def rbind_InrE rd page_tuple_def ip_get_def nth_r_def HnswInitPage_def)
  have m: "read_meta r = Inr mp" by (simp add: read_meta_def r_def hnsw_const)
  have "\<exists>p. read_page r b = Inr p \<and> hp_ok p \<and> next_ok r b p" if "0 < b" "b < length (rel_blocks r)" for b
  proof -
    have "b = 1" using that by (simp add: r_def)
    then have "read_page r b = Inr HnswInitPage" by (simp add: rd)
    then show ?thesis using init_page_ok by (simp add: next_ok_def)
  qed
  then have "rel_wf r" using m no by (simp add: rel_wf_def deleted_ok_def)
  moreover have "seq_chain r" using init_page_ok(2) by (simp add: seq_chain_def rd) (simp add: r_def)
  ultimately have "at_end r 1" by (simp add: at_end_def r_def)
  moreover have "HnswNewBuffer (CreateMetaPage bs) (GraphBlock HnswInitPage) = (1, r)"
    using assms by (simp add: HnswNewBuffer_def CreateMetaPage_def r_def mp_def)
  ultimately show ?thesis using no m by (intro exI [of _ r] exI [of _ mp]) (simp add: mp_def r_def)
qed

lemma meta_end: "at_end r blk \<Longrightarrow> read_meta r = Inr mp \<Longrightarrow> at_end (write_meta r mp') blk"
  using write_meta_spec [of r mp mp'] write_meta_wf [of r mp mp'] by (simp add: at_end_def seq_chain_def)

definition flushed :: "HnswBuildState \<Rightarrow> Relation \<Rightarrow> HnswBuildState" where
  "flushed bs r = bs\<lparr>bs_index := r, bs_graph := (bs_graph bs)\<lparr>g_flushed := True\<rparr>, bs_elems := []\<rparr>"

lemma FlushPages_ok:
  assumes "rel_blocks (bs_index bs) = []" and ls: "list_at (bs_elems bs) (g_head (bs_graph bs)) ps" "distinct ps"
    and st: "\<forall>p\<in>set ps. storable (bs_elems bs) (bs_elems bs ! p) (bs_m bs)" and en: "\<forall>q. g_entryPoint (bs_graph bs) = Some q \<longrightarrow> q < length (bs_elems bs)"
  shows "\<exists>r es blk mp. FlushPages bs = Inr (flushed bs r) \<and> at_end r blk \<and> located (bs_elems bs) es (set ps) \<and>
    holds (bs_elems bs) es (neighbor_data es (bs_m bs)) (set ps) r \<and> rel_options r = rel_options (bs_index bs) \<and>
    read_meta r = Inr (HnswUpdateMetaPageInfo mp UpdateAlways (map_option ((!) es) (g_entryPoint (bs_graph bs))) blk) \<and>
    mp_magicNumber mp = HNSW_MAGIC_NUMBER \<and> mp_m mp = bs_m bs mod 2 ^ 16"
proof -
  let ?es = "bs_elems bs" and ?m = "bs_m bs" and ?h = "g_head (bs_graph bs)" and ?ep = "g_entryPoint (bs_graph bs)"
  obtain r0 mp where r0: "HnswNewBuffer (CreateMetaPage bs) (GraphBlock HnswInitPage) = (1, r0)" "at_end r0 1" "\<forall>t x. at_tid r0 t \<noteq> Inr x"
      "rel_options r0 = rel_options (bs_index bs)" "read_meta r0 = Inr mp" "mp_magicNumber mp = HNSW_MAGIC_NUMBER" "mp_m mp = bs_m bs mod 2 ^ 16"
    using build_start [OF assms(1)] by blast
  define N where "N p = placeholder (he_level (?es ! p)) ?m" for p
  have place_id: "e = place e e" for e by (simp add: place_def)
  have l0: "located ?es ?es {}" unfolding located_def using place_id by auto
  have h0: "holds ?es ?es N {} r0" using r0(3) by (simp add: holds_def)
  have sub: "set ps \<subseteq> {..<length ?es}" by (rule list_at_bound [OF ls(1)])
  have len: "length ps \<le> length ?es" using distinct_card [OF ls(2)] card_mono [OF _ sub] by simp
  obtain r1 blk es where s1: "create_elements (length ?es) ?m ?h (r0, 1, ?es) = Inr (r1, blk, es)" "at_end r1 blk" "located ?es es (set ps)"
      "holds ?es es N (set ps) r1" "read_meta r1 = read_meta r0" "rel_options r1 = rel_options r0"
    using create_elements_spec [OF ls _ l0 h0 r0(2) len, of ?m] st by (auto simp: N_def)
  have l: "length es = length ?es" using s1(3) by (simp add: located_def)
  define mp' where "mp' = HnswUpdateMetaPageInfo mp UpdateAlways (map_option ((!) es) ?ep) blk"
  define r2 where "r2 = write_meta r1 mp'"
  have m1: "read_meta r1 = Inr mp" using s1(5) r0(5) by simp
  have ep: "(case ?ep of None \<Rightarrow> Inr None | Some q \<Rightarrow> rbind (nth_r es q) (\<lambda>e. Inr (Some e))) = Inr (map_option ((!) es) ?ep)"
    using en l by (cases ?ep) simp_all
  have c: "CreateGraphPages (bs\<lparr>bs_index := CreateMetaPage bs\<rparr>) = Inr (bs\<lparr>bs_index := r2, bs_elems := es\<rparr>)"
    using r0(1) s1(1) ep m1 by (simp add: CreateGraphPages_def HnswUpdateMetaPage_def mp'_def r2_def)
  have e2: "at_end r2 blk" and m2: "read_meta r2 = Inr mp'" and h2: "holds ?es es N (set ps) r2"
    using meta_end [OF s1(2) m1] write_meta_spec [OF m1, of mp'] s1(4) by (simp_all add: r2_def holds_def)
  have o2: "rel_options r2 = rel_options (bs_index bs)" using s1(6) r0(4) by (simp add: r2_def write_meta_def)
  have lw: "list_at ?es ?h ps" by (rule ls(1))
  obtain r3 where s3: "write_neighbors (length ?es) ?m es ?h r2 = Inr r3" "at_end r3 blk" "read_meta r3 = read_meta r2" "rel_options r3 = rel_options r2"
      "holds ?es es (\<lambda>p. if p \<in> set ps then neighbor_data es ?m p else N p) (set ps) r3"
    using write_neighbors_spec [OF lw ls(2) s1(3) h2 e2 len, of ?m] st by (auto simp: N_def)
  have h3: "holds ?es es (neighbor_data es ?m) (set ps) r3" using s3(5) by (simp add: holds_def cong: bex_cong)
  have "FlushPages bs = Inr (flushed bs r3)"
    using c s3(1) l by (simp add: FlushPages_def WriteNeighborTuples_def flushed_def)
  then show ?thesis using s3(2-4) s1(3) h3 m2 o2 r0(6,7) unfolding mp'_def by (intro exI [of _ r3] exI [of _ es] exI [of _ blk] exI [of _ mp]) simp
qed

text \<open>The neighbour tuple an element has when the elements are at the positions \<open>pos\<close>: for each layer, from the top one down, the positions of
  its neighbours there, then unused slots.\<close>

definition stored_layer :: "(eptr \<Rightarrow> ItemPointerData) \<Rightarrow> HnswElementData \<Rightarrow> nat \<Rightarrow> nat \<Rightarrow> ItemPointerData list" where
  "stored_layer pos e m lc = (let items = na_items (the (he_neighbors e) ! lc) in
     map (\<lambda>i. if i < length items then pos (hc_element (items ! i)) else InvalidItemPointer) [0..<HnswGetLayerM m lc])"

definition stored_neighbors :: "(eptr \<Rightarrow> ItemPointerData) \<Rightarrow> HnswElementData \<Rightarrow> nat \<Rightarrow> HnswNeighborTupleData" where
  "stored_neighbors pos e m = \<lparr>nt_version = he_version e, nt_count = (he_level e + 2) * m mod 65536,
     nt_indextids = concat (map (stored_layer pos e m) (rev [0..<Suc (he_level e)]))\<rparr>"

lemma neighbor_data_stored:
  assumes "located es0 es D" "p < length es0" "storable es0 (es0 ! p) m"
  shows "neighbor_data es m p = stored_neighbors (\<lambda>q. elem_tid (es ! q)) (es0 ! p) m"
proof -
  note lf = located_fields [OF assms(1,2)]
  have "storable es (es ! p) m" unfolding lf(6) by (rule assms(3))
  then have ok: "arrays_ok es (es ! p)" by (simp add: storable_def)
  have ls: "layer_slots es (es ! p) m = stored_layer (\<lambda>q. elem_tid (es ! q)) (es0 ! p) m"
    by (simp add: layer_slots_def stored_layer_def lf(5) fun_eq_iff)
  have "neighbor_data es m p = zero_ntup\<lparr>nt_indextids := concat (map (layer_slots es (es ! p) m) (rev [0..<Suc (he_level (es ! p))])),
      nt_count := (he_level (es ! p) + 2) * m mod 65536, nt_version := he_version (es ! p)\<rparr>"
    unfolding neighbor_data_def SetNeighborTuple_eq [OF ok] slots_length by simp
  then show ?thesis unfolding ls lf(3,4) stored_neighbors_def by (simp add: zero_ntup_def)
qed

text \<open>C19: writing out the graph built in memory always succeeds when each element fits on a page, and the pages are a copy of the graph: every
  element of the list gets a position of its own and a tuple with its data, the tuple points at its neighbour tuple, which lists on every
  layer the positions of exactly the neighbours the element has in memory; nothing else is stored, the pages are well-formed, and the entry
  point of the metapage is the position of the graph's entry point.\<close>

theorem flush_pages:
  assumes "rel_blocks (bs_index bs) = []" and "list_at (bs_elems bs) (g_head (bs_graph bs)) ps" and "distinct ps"
    and "\<forall>p\<in>set ps. storable (bs_elems bs) (bs_elems bs ! p) (bs_m bs)"
    and "\<forall>q. g_entryPoint (bs_graph bs) = Some q \<longrightarrow> q < length (bs_elems bs)"
  shows "\<exists>r pos npos. FlushPages bs = Inr (flushed bs r) \<and> rel_wf r \<and> inj_on pos (set ps) \<and> inj_on npos (set ps) \<and>
    (\<forall>t x. at_tid r t = Inr x \<longleftrightarrow> (\<exists>p\<in>set ps. t = pos p \<and> x = ElementTup (element_data (bs_elems bs ! p) (npos p)) \<or>
       t = npos p \<and> x = NeighborTup (stored_neighbors pos (bs_elems bs ! p) (bs_m bs)))) \<and>
    (\<exists>mp. read_meta r = Inr mp \<and> (case g_entryPoint (bs_graph bs) of None \<Rightarrow> mp_entryBlkno mp = InvalidBlockNumber
       | Some q \<Rightarrow> ItemPointerSet (mp_entryBlkno mp) (mp_entryOffno mp) = pos q \<and> mp_entryLevel mp = int (he_level (bs_elems bs ! q))))"
proof -
  let ?es = "bs_elems bs" and ?m = "bs_m bs" and ?ep = "g_entryPoint (bs_graph bs)"
  obtain r es blk mp where f: "FlushPages bs = Inr (flushed bs r)" "at_end r blk" "located ?es es (set ps)"
      "holds ?es es (neighbor_data es ?m) (set ps) r" "read_meta r = Inr (HnswUpdateMetaPageInfo mp UpdateAlways (map_option ((!) es) ?ep) blk)"
    using FlushPages_ok [OF assms] by blast
  define pos npos where d: "pos = (\<lambda>p. elem_tid (es ! p))" "npos = (\<lambda>p. nbr_tid (es ! p))"
  have sn: "neighbor_data es ?m p = stored_neighbors pos (?es ! p) ?m" if "p \<in> set ps" for p
    unfolding d(1) by (rule neighbor_data_stored [OF f(3)]) (use that f(3) assms(4) in \<open>auto simp: located_def\<close>)
  have "at_tid r t = Inr x \<longleftrightarrow> (\<exists>p\<in>set ps. t = pos p \<and> x = ElementTup (element_data (?es ! p) (npos p)) \<or>
       t = npos p \<and> x = NeighborTup (stored_neighbors pos (?es ! p) ?m))" for t x
    using f(4) sn unfolding holds_def d by (simp cong: bex_cong)
  moreover have "inj_on pos (set ps)" "inj_on npos (set ps)" using f(3) by (simp_all add: located_def d)
  moreover have "\<exists>mp. read_meta r = Inr mp \<and> (case ?ep of None \<Rightarrow> mp_entryBlkno mp = InvalidBlockNumber
       | Some q \<Rightarrow> ItemPointerSet (mp_entryBlkno mp) (mp_entryOffno mp) = pos q \<and> mp_entryLevel mp = int (he_level (?es ! q)))"
  proof (cases ?ep)
    case None
    then show ?thesis using f(5) by (simp add: HnswUpdateMetaPageInfo_def Let_def)
  next
    case (Some q)
    then have "he_level (es ! q) = he_level (?es ! q)" using located_fields(3) [OF f(3)] assms(5) by simp
    then show ?thesis using f(5) Some by (simp add: HnswUpdateMetaPageInfo_def Let_def elem_tid_def d)
  qed
  ultimately show ?thesis using f(1,2) unfolding at_end_def by blast
qed

text \<open>A build state whose graph is the example graph.\<close>

definition pair_build :: HnswBuildState where
  "pair_build = \<lparr>bs_index = \<lparr>rel_options = None, rel_blocks = []\<rparr>, bs_typeInfo = HnswGetTypeInfo None, bs_dimensions = 1, bs_m = 2,
     bs_efConstruction = 4, bs_indtuples = 0, bs_reltuples = 0, bs_support = l2_support,
     bs_graph = (InitGraph 65536)\<lparr>g_head := Some 0, g_entryPoint := Some 1\<rparr>, bs_maxLevel = HnswGetMaxLevel 2,
     bs_elems = [(pair_elem 1)\<lparr>he_next := Some 1\<rparr>, pair_elem 0]\<rparr>"

theorem flush_pages_witness:
  "\<exists>r pos npos. FlushPages pair_build = Inr (flushed pair_build r) \<and> rel_wf r \<and>
     at_tid r (npos 0) = Inr (NeighborTup (stored_neighbors pos (bs_elems pair_build ! 0) 2))"
proof -
  have st: "storable (bs_elems pair_build) (bs_elems pair_build ! p) 2" if "p < 2" for p
    using that by (auto simp: less_Suc_eq numeral_2_eq_2 pair_build_def storable_def arrays_ok_def pair_elem_def raw_element_def one_vec_len HNSW_ELEMENT_TUPLE_SIZE_def
        HNSW_NEIGHBOR_TUPLE_SIZE_def MAXALIGN_def hnsw_const)
  have "list_at (bs_elems pair_build) (g_head (bs_graph pair_build)) [0, 1]" by (simp add: pair_build_def pair_elem_def raw_element_def)
  moreover have "rel_blocks (bs_index pair_build) = []" "bs_m pair_build = 2" "g_entryPoint (bs_graph pair_build) = Some 1" "length (bs_elems pair_build) = 2"
    by (simp_all add: pair_build_def)
  ultimately show ?thesis using flush_pages [of pair_build "[0, 1]"] st by fastforce
qed

section \<open>The shared area of a parallel build\<close>

lemma MAXALIGN_bound: "MAXALIGN n \<le> n + 7"
  by (simp add: MAXALIGN_def)

lemma alloc_total: "g_memoryUsed (fold (\<lambda>sz g. snd (HnswSharedMemoryAlloc sz g)) szs g) = g_memoryUsed g + sum_list (map MAXALIGN szs)"
  by (induction szs arbitrary: g) (simp_all add: HnswSharedMemoryAlloc_def)

lemma arrays_total: "sum_list (map (\<lambda>lc. MAXALIGN (HNSW_NEIGHBOR_ARRAY_SIZE (HnswGetLayerM m lc))) [0..<Suc l]) = 8 * Suc l + 16 * ((l + 2) * m)"
proof (induction l)
  case 0
  have "MAXALIGN (8 + 16 * k) = 8 + 16 * k" for k unfolding MAXALIGN_def by presburger
  then show ?case by (simp add: HNSW_NEIGHBOR_ARRAY_SIZE_def HnswGetLayerM_def hnsw_const)
next
  case (Suc l)
  have "MAXALIGN (8 + 16 * k) = 8 + 16 * k" for k unfolding MAXALIGN_def by presburger
  then show ?case using Suc.IH by (simp add: HNSW_NEIGHBOR_ARRAY_SIZE_def HnswGetLayerM_def hnsw_const algebra_simps)
qed

text \<open>C21: a parallel build never leaves its shared memory area when \<open>maintenance_work_mem\<close> is at least 4 MB, or between 1 and 3 MB: an insertion that
  finds less than \<open>memoryTotal\<close> bytes used allocates, whatever the level of the element, only memory inside the area.\<close>

theorem shared_area_suffices:
  assumes "4096 \<le> maintenance_work_mem \<or> (1024 \<le> maintenance_work_mem \<and> maintenance_work_mem \<le> 3072)" and "maintenance_work_mem < 2 ^ 31"
    and "g_memoryTotal g = g_memoryTotal (parallel_graph maintenance_work_mem)" and "g_memoryUsed g < g_memoryTotal g"
    and "HNSW_MIN_M \<le> m" and "m \<le> HNSW_MAX_M" and "level \<le> HnswGetMaxLevel m" and "vec_wf v"
  shows "g_memoryUsed (fold (\<lambda>sz g. snd (HnswSharedMemoryAlloc sz g)) (insert_allocs m level (nat (vl_len v))) g) \<le> parallel_area maintenance_work_mem"
proof -
  have area: "1024 * 1024 \<le> parallel_area maintenance_work_mem" "parallel_area maintenance_work_mem < 2 ^ 63"
    using assms(1,2) by (auto simp: parallel_area_def Let_def)
  then have "(int (parallel_area maintenance_work_mem) - 1024 * 1024) mod 2 ^ 64 = int (parallel_area maintenance_work_mem) - 1024 * 1024"
    by (intro mod_pos_pos_trivial) simp_all
  then have tot: "g_memoryTotal (parallel_graph maintenance_work_mem) + 1024 * 1024 = parallel_area maintenance_work_mem"
    using area(1) by (simp add: parallel_graph_def InitGraph_def)
  have lev: "level \<le> 255" using assms(7) by (simp add: HnswGetMaxLevel_def Let_def)
  have "6 * ((level + 2) * m) \<le> HNSW_MAX_SIZE"
    using max_level_tuple [OF assms(5-7)] MAXALIGN_ge [of "offsetof_NeighborTuple_indextids + (level + 2) * m * sizeof_ItemPointerData"]
    by (simp add: HNSW_NEIGHBOR_TUPLE_SIZE_def hnsw_const)
  moreover have "HNSW_MAX_SIZE \<le> 8192" by (simp add: hnsw_const)
  ultimately have arr: "6 * ((level + 2) * m) \<le> 8192" by linarith
  have val: "nat (vl_len v) \<le> 64008" using assms(8) unfolding vec_wf_def VECTOR_SIZE_def VECTOR_MAX_DIM_def by linarith
  have comp: "MAXALIGN \<circ> (\<lambda>lc. HNSW_NEIGHBOR_ARRAY_SIZE (HnswGetLayerM m lc)) = (\<lambda>lc. MAXALIGN (HNSW_NEIGHBOR_ARRAY_SIZE (HnswGetLayerM m lc)))" by (simp add: comp_def)
  have "sum_list (map MAXALIGN (insert_allocs m level (nat (vl_len v)))) =
      MAXALIGN 128 + MAXALIGN (8 * (level + 1)) + (8 * Suc level + 16 * ((level + 2) * m)) + MAXALIGN (nat (vl_len v))"
    unfolding insert_allocs_def map_append map_map comp sum_list_append arrays_total by (simp add: hnsw_const)
  also have "\<dots> \<le> 1024 * 1024"
  proof -
    define a b c d where ab: "a = MAXALIGN 128" "b = MAXALIGN (8 * (level + 1))" "c = MAXALIGN (nat (vl_len v))" "d = (level + 2) * m"
    have "a \<le> 135" "b \<le> 8 * level + 15" "c \<le> 64015" "6 * d \<le> 8192"
      using MAXALIGN_bound [of 128] MAXALIGN_bound [of "8 * (level + 1)"] MAXALIGN_bound [of "nat (vl_len v)"] arr val by (simp_all add: ab)
    then show ?thesis using lev unfolding ab [symmetric] by simp
  qed
  finally show ?thesis using assms(3,4) tot unfolding alloc_total by linarith
qed

theorem shared_area_suffices_witness:
  "g_memoryUsed (fold (\<lambda>sz g. snd (HnswSharedMemoryAlloc sz g)) (insert_allocs 16 5 (nat (vl_len one_vec))) (parallel_graph 65536)) \<le> parallel_area 65536"
  by (rule shared_area_suffices)
     (simp_all add: parallel_graph_def InitGraph_def parallel_area_def hnsw_const HnswGetMaxLevel_def MAXALIGN_def one_vec_wf)

text \<open>C22: for every other setting the size of the area minus the reserve of 1 MB wraps around: the limit for the graph is far beyond the area, so
  the flush that should end the in-memory phase never comes and the allocator runs past the end of the area.\<close>

theorem shared_area_wraps:
  assumes "maintenance_work_mem < 1024 \<or> (3072 < maintenance_work_mem \<and> maintenance_work_mem < 4096)"
  shows "parallel_area maintenance_work_mem < 1024 * 1024 \<and> 2 ^ 63 < g_memoryTotal (parallel_graph maintenance_work_mem)"
proof -
  have area: "parallel_area maintenance_work_mem < 1024 * 1024" using assms by (auto simp: parallel_area_def Let_def)
  then have "(int (parallel_area maintenance_work_mem) - 1024 * 1024) mod 2 ^ 64 = int (parallel_area maintenance_work_mem) - 1024 * 1024 + 2 ^ 64"
    by (subst mod_add_self2 [symmetric], intro mod_pos_pos_trivial) simp_all
  then show ?thesis using area by (simp add: parallel_graph_def InitGraph_def)
qed

theorem shared_area_wraps_witness: "parallel_area 64 < 1024 * 1024 \<and> 2 ^ 63 < g_memoryTotal (parallel_graph 64)"
  by (rule shared_area_wraps) simp

section \<open>An empty index\<close>

lemma FlushPages_empty:
  assumes "rel_blocks (bs_index bs) = []" "g_head (bs_graph bs) = None" "g_entryPoint (bs_graph bs) = None" "HNSW_MIN_M \<le> bs_m bs" "bs_m bs \<le> HNSW_MAX_M"
  shows "\<exists>r mp. FlushPages bs = Inr (flushed bs r) \<and> empty_index r mp \<and> mp_m mp = bs_m bs \<and> rel_options r = rel_options (bs_index bs)"
proof -
  obtain r0 mp where r0: "HnswNewBuffer (CreateMetaPage bs) (GraphBlock HnswInitPage) = (1, r0)" "at_end r0 1" "\<forall>t x. at_tid r0 t \<noteq> Inr x"
      "rel_options r0 = rel_options (bs_index bs)" "read_meta r0 = Inr mp" "mp_magicNumber mp = HNSW_MAGIC_NUMBER" "mp_m mp = bs_m bs mod 2 ^ 16"
    using build_start [OF assms(1)] by blast
  define mp' where "mp' = mp\<lparr>mp_entryBlkno := InvalidBlockNumber, mp_entryOffno := InvalidOffsetNumber, mp_entryLevel := -1, mp_insertPage := 1\<rparr>"
  have u: "HnswUpdateMetaPageInfo mp UpdateAlways None 1 = mp'" by (simp add: HnswUpdateMetaPageInfo_def mp'_def hnsw_const)
  have run: "FlushPages bs = Inr (flushed bs (write_meta r0 mp'))"
    using r0(1,5) assms(2,3) u by (simp add: FlushPages_def CreateGraphPages_def WriteNeighborTuples_def HnswUpdateMetaPage_def flushed_def)
  note w = write_meta_spec [OF r0(5), of mp']
  have "rel_wf (write_meta r0 mp')" using meta_end [OF r0(2,5), of mp'] by (simp add: at_end_def)
  moreover have "mp_m mp' = bs_m bs" using r0(7) assms(5) by (simp add: mp'_def hnsw_const)
  moreover have no: "tup_at (write_meta r0 mp') b off \<noteq> Inr x" for b off x using w(3) r0(3) [rule_format, of "ItemPointerSet b off" x] by simp
  moreover have "1 < length (rel_blocks (write_meta r0 mp'))" using w(4) r0(2) by (simp add: at_end_def)
  ultimately have "empty_index (write_meta r0 mp') mp'" using w(1) assms(4,5) r0(6) by (simp add: empty_index_def mp'_def)
  moreover have "rel_options (write_meta r0 mp') = rel_options (bs_index bs)" using r0(4) by (simp add: write_meta_def)
  ultimately show ?thesis using run \<open>mp_m mp' = bs_m bs\<close> by blast
qed

text \<open>C20: building the index of an unlogged table succeeds exactly when the column has a supported type with a number of dimensions within the
  limit and \<open>ef_construction\<close> is at least twice \<open>m\<close>; the result is an empty index with the requested \<open>m\<close>: a metapage without an entry point and
  one empty page.  Otherwise the error is the first check that fails.\<close>

theorem build_empty:
  assumes "rel_blocks index = []" and "HNSW_MIN_M \<le> HnswGetM index" and "HnswGetM index \<le> HNSW_MAX_M"
  shows "case hnswbuildempty mem mwm index typeInfo support isVarbit typmod of
      Inr r \<Rightarrow> \<not> isVarbit \<and> 0 \<le> typmod \<and> typmod \<le> ti_maxDimensions typeInfo \<and> 2 * HnswGetM index \<le> HnswGetEfConstruction index \<and>
        (\<exists>mp. empty_index r mp \<and> mp_m mp = HnswGetM index)
    | Inl e \<Rightarrow> e = ErrTypeNotSupported \<and> isVarbit \<or> e = ErrNoDimensions \<and> \<not> isVarbit \<and> typmod < 0 \<or>
        e = ErrColumnDims (ti_maxDimensions typeInfo) \<and> \<not> isVarbit \<and> 0 \<le> typmod \<and> ti_maxDimensions typeInfo < typmod \<or>
        e = ErrEfConstruction \<and> \<not> isVarbit \<and> 0 \<le> typmod \<and> typmod \<le> ti_maxDimensions typeInfo \<and> HnswGetEfConstruction index < 2 * HnswGetM index"
proof (cases "InitBuildState mwm index typeInfo support isVarbit typmod")
  case (Inl e)
  then show ?thesis by (auto simp: hnswbuildempty_def BuildIndex_def InitBuildState_def Let_def split: if_splits)
next
  case (Inr bs)
  then have c: "\<not> isVarbit" "0 \<le> typmod" "typmod \<le> ti_maxDimensions typeInfo" "2 * HnswGetM index \<le> HnswGetEfConstruction index"
    and bs: "bs_index bs = index" "bs_m bs = HnswGetM index" "g_head (bs_graph bs) = None" "g_entryPoint (bs_graph bs) = None" "\<not> g_flushed (bs_graph bs)"
    by (auto simp: InitBuildState_def InitGraph_def Let_def split: if_splits)
  obtain r mp where f: "FlushPages bs = Inr (flushed bs r)" "empty_index r mp" "mp_m mp = HnswGetM index"
    using FlushPages_empty [of bs] assms bs by auto
  have "hnswbuildempty mem mwm index typeInfo support isVarbit typmod = Inr r"
    using Inr bs(5) f(1) by (simp add: hnswbuildempty_def BuildIndex_def BuildGraph_def flushed_def)
  then show ?thesis using c f(2,3) by auto
qed

theorem build_empty_witness:
  "\<exists>r mp. hnswbuildempty (\<lambda>_. 0) 65536 \<lparr>rel_options = None, rel_blocks = []\<rparr> (HnswGetTypeInfo None) l2_support False 3 = Inr r \<and> empty_index r mp \<and> mp_m mp = 16"
proof -
  let ?i = "\<lparr>rel_options = None, rel_blocks = []\<rparr>"
  have m: "HnswGetM ?i = 16" "HnswGetEfConstruction ?i = 64" by (simp_all add: HnswGetM_def HnswGetEfConstruction_def hnsw_const)
  have t: "ti_maxDimensions (HnswGetTypeInfo None) = 2000" by (simp add: HnswGetTypeInfo_def HNSW_MAX_DIM_def)
  show ?thesis
    using build_empty [where index = ?i and mem = "\<lambda>_. 0" and mwm = 65536 and typeInfo = "HnswGetTypeInfo None" and support = l2_support and isVarbit = False and typmod = 3] m t
    by (cases "hnswbuildempty (\<lambda>_. 0) 65536 ?i (HnswGetTypeInfo None) l2_support False 3") (auto simp: hnsw_const)
qed

end
