(* ===== verification/HnswMemory.thy ===== *)
theory HnswMemory
  imports HnswSelect HnswEntries HnswBuild
begin

text \<open>
  Correctness of the graph built in memory (\<open>src/backend/access/hnsw/hnswbuild.c\<close> with the algorithms of
  \<open>hnswutils.c\<close>): the
  insertion of a tuple keeps the graph well-formed and adds its entry, and the pages the graph is written to hold the same entries.
\<close>

section \<open>Searching for neighbours in memory\<close>

text \<open>A set of elements that the neighbour arrays do not leave.\<close>

definition nbr_closed :: "elems \<Rightarrow> eptr set \<Rightarrow> bool" where
  "nbr_closed es R \<longleftrightarrow> (\<forall>p\<in>R. \<forall>lc. \<forall>hc\<in>set (layer_items es lc p). hc_element hc \<in> R)"

text \<open>Entry points for a search of layer \<open>lc\<close> inside \<open>R\<close>.\<close>

definition entries_in :: "elems \<Rightarrow> Vector \<Rightarrow> HnswSupport \<Rightarrow> nat \<Rightarrow> eptr set \<Rightarrow> HnswSearchCandidate list \<Rightarrow> bool" where
  "entries_in es q support lc R ep \<longleftrightarrow> ep \<noteq> [] \<and> distinct (map sc_element ep) \<and> sc_element ` set ep \<subseteq> R \<and> (\<forall>c\<in>set ep. entry_ok es q support lc c)"

lemma entries_in_lower: "entries_in es q support hi R ep \<Longrightarrow> lc \<le> hi \<Longrightarrow> entries_in es q support lc R ep"
  by (auto simp: entries_in_def entry_ok_def)

lemma search_in:
  assumes wf: "graph_wf m dim es" "dist_ok support dim" "vec_wf q" "v_dim q = dim" and ep: "entries_in es q support lc R ep" and R: "nbr_closed es R"
  shows "\<exists>w st. HnswSearchLayer (mem_env q ef lc support m ins None) es ep None None True None = Inr (w, st) \<and> ss_elems st = es \<and>
    entries_in es q support lc R w"
proof -
  have e: "ep \<noteq> []" "distinct (map sc_element ep)" "sc_element ` set ep \<subseteq> R" "\<forall>c\<in>set ep. entry_ok es q support lc c"
    using ep by (simp_all add: entries_in_def)
  obtain w st where s: "HnswSearchLayer (mem_env q ef lc support m ins None) es ep None None True None = Inr (w, st)" "ss_elems st = es"
      "mem.result_ok (mem_env q ef lc support m ins None) {} (length ep) w st" "ss_v st \<subseteq> VPtr ` R"
    using search_memory [OF wf e(1,2,4,3), where v = None and d = None and tuples = None and skip = None and ef = ef and ins = ins] R
    unfolding nbr_closed_def by blast
  note r = mem_result [OF wf s(3,2)]
  have "sc_element c \<in> R" if "c \<in> set w" for c using r(8) [OF that] s(4) by auto
  then show ?thesis using s(1,2) r(1,2,4) by (auto simp: entries_in_def)
qed

lemma descent_in:
  assumes wf: "graph_wf m dim es" "dist_ok support dim" "vec_wf q" "v_dim q = dim" and R: "nbr_closed es R"
  shows "entries_in es q support hi R ep \<Longrightarrow> sorted_wrt (\<ge>) (hi # lcs) \<Longrightarrow>
    \<exists>w. greedy_descent (Some q) None support m ins None lcs ep es = Inr (w, es) \<and> entries_in es q support (last (hi # lcs)) R w"
proof (induction lcs arbitrary: hi ep)
  case (Cons lc lcs)
  have "entries_in es q support lc R ep" using entries_in_lower [OF Cons.prems(1)] Cons.prems(2) by simp
  then obtain w st where s: "HnswSearchLayer (mem_env q 1 lc support m ins None) es ep None None True None = Inr (w, st)" "ss_elems st = es"
      "entries_in es q support lc R w"
    using search_in [OF wf _ R] by blast
  obtain w' where "greedy_descent (Some q) None support m ins None lcs w es = Inr (w', es)" "entries_in es q support (last (lc # lcs)) R w'"
    using Cons.IH [OF s(3)] Cons.prems(2) by auto
  then show ?case using s(1,2) by simp
qed simp

section \<open>Changing neighbour arrays\<close>

text \<open>Stores that differ in neighbour arrays only.\<close>

definition same_shape :: "elems \<Rightarrow> elems \<Rightarrow> bool" where
  "same_shape es es' \<longleftrightarrow> length es' = length es \<and> (\<forall>i<length es. \<exists>ns. es' ! i = (es ! i)\<lparr>he_neighbors := ns\<rparr>)"

lemma same_shapeD:
  assumes "same_shape es es'"
  shows "length es' = length es" "i < length es \<Longrightarrow> he_level (es' ! i) = he_level (es ! i)" "i < length es \<Longrightarrow> he_value (es' ! i) = he_value (es ! i)"
    "i < length es \<Longrightarrow> he_next (es' ! i) = he_next (es ! i)" "i < length es \<Longrightarrow> he_heaptids (es' ! i) = he_heaptids (es ! i)"
    "i < length es \<Longrightarrow> he_version (es' ! i) = he_version (es ! i)"
  using assms unfolding same_shape_def by auto

lemma same_shape_refl [simp]: "same_shape es es"
proof -
  have "e = e\<lparr>he_neighbors := he_neighbors e\<rparr>" for e :: HnswElementData by simp
  then show ?thesis unfolding same_shape_def by blast
qed

lemma same_shape_trans: "same_shape a b \<Longrightarrow> same_shape b c \<Longrightarrow> same_shape a c"
  unfolding same_shape_def by fastforce

lemma same_shape_update: "p < length es \<Longrightarrow> same_shape es (es[p := (es ! p)\<lparr>he_neighbors := ns\<rparr>])"
proof -
  assume p: "p < length es"
  have "\<exists>ns'. es[p := (es ! p)\<lparr>he_neighbors := ns\<rparr>] ! i = (es ! i)\<lparr>he_neighbors := ns'\<rparr>" for i
  proof (cases "i = p")
    case False
    then have "es[p := (es ! p)\<lparr>he_neighbors := ns\<rparr>] ! i = (es ! i)\<lparr>he_neighbors := he_neighbors (es ! i)\<rparr>" by simp
    then show ?thesis by blast
  qed (use p in auto)
  then show ?thesis by (simp add: same_shape_def)
qed

lemma set_neighbors_shape: "p < length es \<Longrightarrow> same_shape es (es[p := set_neighbors (es ! p) lc a])"
  unfolding set_neighbors_def by (rule same_shape_update)

lemma entry_ok_shape: "same_shape es es' \<Longrightarrow> entry_ok es q support lc c \<Longrightarrow> entry_ok es' q support lc c"
  using same_shapeD(1-3) [of es es'] by (auto simp: entry_ok_def GetElementDistance_def nth_r_def split: if_splits)

lemma entries_in_shape: "same_shape es es' \<Longrightarrow> entries_in es q support lc R ep \<Longrightarrow> entries_in es' q support lc R ep"
  using entry_ok_shape by (auto simp: entries_in_def)

lemma array_wf_shape: "same_shape es es' \<Longrightarrow> array_wf m es lc a \<Longrightarrow> array_wf m es' lc a"
  using same_shapeD(1,2) [of es es'] by (auto simp: array_wf_def)

lemma layer_items_set:
  assumes "p < length es" "HnswGetNeighbors (es ! p) lc = Inr a0"
  shows "layer_items (es[p := set_neighbors (es ! p) lc a]) lc' i = (if i = p \<and> lc' = lc then na_items a else layer_items es lc' i)"
proof -
  obtain ns where ns: "he_neighbors (es ! p) = Some ns" "lc \<le> he_level (es ! p)" "lc < length ns"
    using assms(2) by (auto simp: HnswGetNeighbors_def nth_r_def split: option.splits if_splits)
  show ?thesis
  proof (cases "i = p")
    case True
    have "HnswGetNeighbors (set_neighbors (es ! p) lc a) lc' = (if lc' = lc then Inr a else HnswGetNeighbors (es ! p) lc')"
      using ns by (auto simp: HnswGetNeighbors_def set_neighbors_def nth_r_def)
    then show ?thesis using True assms(1) by (simp add: layer_items_def)
  qed (simp add: layer_items_def)
qed

lemma graph_wf_set:
  assumes wf: "graph_wf m dim es" and p: "p < length es" "lc \<le> he_level (es ! p)" and a: "array_wf m es lc a"
  shows "graph_wf m dim (es[p := set_neighbors (es ! p) lc a])"
  unfolding graph_wf_def
proof
  let ?es = "es[p := set_neighbors (es ! p) lc a]"
  note sh = set_neighbors_shape [OF p(1), of lc a]
  fix e assume "e \<in> set ?es"
  then obtain i where i: "i < length es" "e = ?es ! i" by (auto simp: in_set_conv_nth)
  have w: "elem_wf m dim es (es ! i)" using wf i(1) by (simp add: graph_wf_def)
  then obtain v ns where n: "he_value (es ! i) = Some v" "vec_wf v" "v_dim v = dim" "he_neighbors (es ! i) = Some ns" "length ns = Suc (he_level (es ! i))"
      "\<forall>lc'\<le>he_level (es ! i). array_wf m es lc' (ns ! lc')"
    by (auto simp: elem_wf_def split: option.splits)
  have ar: "array_wf m ?es lc' (ns ! lc')" if "lc' \<le> he_level (es ! i)" for lc' using n(6) that array_wf_shape [OF sh] by blast
  show "elem_wf m dim ?es e"
  proof (cases "i = p")
    case True
    have "array_wf m ?es lc' (ns[lc := a] ! lc')" if "lc' \<le> he_level (es ! i)" for lc'
      using ar [OF that] array_wf_shape [OF sh a] that n(5) by (cases "lc' = lc") simp_all
    then show ?thesis using i n True p(1) by (simp add: elem_wf_def set_neighbors_def)
  next
    case False
    then show ?thesis using i n ar by (simp add: elem_wf_def)
  qed
qed

section \<open>Connecting a new element\<close>

lemma graph_wf_value:
  assumes "graph_wf m dim es" "p < length es"
  shows "\<exists>v. he_value (es ! p) = Some v \<and> vec_wf v \<and> v_dim v = dim"
proof -
  have "elem_wf m dim es (es ! p)" using assms by (simp add: graph_wf_def)
  then show ?thesis by (auto simp: elem_wf_def split: option.splits)
qed

lemma cands_ok_graph: "graph_wf m dim es \<Longrightarrow> \<forall>hc\<in>set cs. hc_element hc < length es \<Longrightarrow> cands_ok es dim cs"
  unfolding cands_ok_def cand_value_def using graph_wf_value by fastforce

lemma connect_eq:
  assumes "p < length es" "HnswGetNeighbors (es ! p) lc = Inr a" "length (na_items a) + length sel \<le> na_cap a"
  shows "AddConnections (set_closerSet es p lc cl) p sel lc = Inr (es[p := set_neighbors (es ! p) lc (a\<lparr>na_closerSet := cl, na_items := na_items a @ sel\<rparr>)])"
proof -
  obtain ns where ns: "he_neighbors (es ! p) = Some ns" "lc \<le> he_level (es ! p)" "lc < length ns" "ns ! lc = a"
    using assms(2) by (auto simp: HnswGetNeighbors_def nth_r_def split: option.splits if_splits)
  then have "HnswGetNeighbors ((set_closerSet es p lc cl) ! p) lc = Inr (a\<lparr>na_closerSet := cl\<rparr>)"
    using assms(1) by (simp add: set_closerSet_def HnswGetNeighbors_def)
  then show ?thesis using assms(1,3) ns by (simp add: AddConnections_def set_closerSet_def set_neighbors_def)
qed

text \<open>The layers that are connected: the new element gets neighbours inside \<open>R\<close>, and nothing else changes.\<close>

lemma connect_layer:
  assumes wf: "graph_wf m dim es" "dist_ok support dim" "vec_wf q" "v_dim q = dim" and R: "nbr_closed es R" "R \<subseteq> {..<length es}"
    and p: "p < length es" "lc \<le> he_level (es ! p)" "layer_items es lc p = []" and ep: "entries_in es q support lc R ep"
  shows "\<exists>w a. entries_in es q support lc R w \<and> array_wf m es lc a \<and> hc_element ` set (na_items a) \<subseteq> R \<and>
    connect_layers bn (Some q) ef None support m None p (lc # lcs) ep es =
      connect_layers bn (Some q) ef None support m None p lcs w (es[p := set_neighbors (es ! p) lc a])"
proof -
  obtain w st where s: "HnswSearchLayer (mem_env q ef lc support m True None) es ep None None True None = Inr (w, st)" "ss_elems st = es" "entries_in es q support lc R w"
    using search_in [OF wf ep R(1)] by blast
  obtain a where a: "HnswGetNeighbors (es ! p) lc = Inr a" "array_wf m es lc a" using graph_wf_neighbors [OF wf(1) p(1,2)] by blast
  have e: "na_items a = []" using p(3) a(1) by (simp add: layer_items_def)
  let ?c = "map to_candidate w"
  have w: "\<forall>c\<in>set w. sc_element c \<in> R \<and> sc_element c < length es \<and> lc \<le> he_level (es ! sc_element c)"
    using s(3) R(2) by (auto simp: entries_in_def entry_ok_def)
  have ok: "cands_ok es dim ?c" by (rule cands_ok_graph [OF wf(1)]) (use w in \<open>auto simp: to_candidate_def\<close>)
  obtain r pr cs cl where sel: "SelectNeighbors es bn ?c (HnswGetLayerM m lc) support (na_closerSet a) None False False = Inr (r, pr, cs, cl)"
      "same_cands ?c cs" "length r \<le> HnswGetLayerM m lc" "set r \<subseteq> {..<length ?c}"
  proof -
    from SelectNeighbors_total [OF wf(2) ok, of bn "HnswGetLayerM m lc" "na_closerSet a" None False False] obtain r pr cs cl
      where "SelectNeighbors es bn ?c (HnswGetLayerM m lc) support (na_closerSet a) None False False = Inr (r, pr, cs, cl)"
        "same_cands ?c cs" "length r = min (HnswGetLayerM m lc) (length ?c)" "set r \<subseteq> {..<length ?c}" by blast
    then show ?thesis using that [of r pr cs cl] by simp
  qed
  let ?sel = "map ((!) cs) r" and ?a = "a\<lparr>na_closerSet := cl, na_items := na_items a @ map ((!) cs) r\<rparr>"
  have el: "hc_element hc \<in> sc_element ` set w" if hc: "hc \<in> set ?sel" for hc
  proof -
    obtain i where i: "i < length ?c" "hc = cs ! i" using hc sel(4) by auto
    then show ?thesis using same_cands_nth [OF sel(2) i(1)] by (auto simp: to_candidate_def)
  qed
  have el': "hc_element hc \<in> R \<and> hc_element hc < length es \<and> lc \<le> he_level (es ! hc_element hc)" if hc: "hc \<in> set ?sel" for hc
    using el [OF hc] w by fastforce
  have cap: "length (na_items a) + length ?sel \<le> na_cap a" using a(2) sel(3) e by (simp add: array_wf_def)
  have it: "na_items ?a = ?sel" using e by simp
  have "array_wf m es lc ?a" unfolding array_wf_def it using a(2) sel(3) el' by (simp add: array_wf_def)
  moreover have "hc_element ` set (na_items ?a) \<subseteq> R" unfolding it using el' by blast
  moreover have "connect_layers bn (Some q) ef None support m None p (lc # lcs) ep es =
      connect_layers bn (Some q) ef None support m None p lcs w (es[p := set_neighbors (es ! p) lc ?a])"
    using s(1,2) p(1) a(1) sel(1) connect_eq [OF p(1) a(1) cap, of cl] by simp
  ultimately show ?thesis using s(3) a(1) by blast
qed

lemma connect_layers_ok:
  assumes d: "dist_ok support dim" "vec_wf q" "v_dim q = dim"
  shows "\<lbrakk>graph_wf m dim es; nbr_closed es R; R \<subseteq> {..<length es}; p < length es; p \<notin> R; entries_in es q support hi R ep; sorted_wrt (>) lcs;
     \<forall>lc\<in>set lcs. lc \<le> hi \<and> lc \<le> he_level (es ! p) \<and> layer_items es lc p = []\<rbrakk> \<Longrightarrow>
   \<exists>es' ns. connect_layers bn (Some q) ef None support m None p lcs ep es = Inr es' \<and> es' = es[p := (es ! p)\<lparr>he_neighbors := ns\<rparr>] \<and> graph_wf m dim es' \<and>
     (\<forall>lc. hc_element ` set (layer_items es' lc p) \<subseteq> hc_element ` set (layer_items es lc p) \<union> R)"
proof (induction lcs arbitrary: es hi ep)
  case Nil
  then show ?case by (intro exI [of _ es] exI [of _ "he_neighbors (es ! p)"]) simp
next
  case (Cons lc lcs)
  note wf = Cons.prems(1) d
  have lc: "lc \<le> hi" "lc \<le> he_level (es ! p)" "layer_items es lc p = []" using Cons.prems(8) by auto
  obtain w a where s: "entries_in es q support lc R w" "array_wf m es lc a" "hc_element ` set (na_items a) \<subseteq> R"
      "connect_layers bn (Some q) ef None support m None p (lc # lcs) ep es =
        connect_layers bn (Some q) ef None support m None p lcs w (es[p := set_neighbors (es ! p) lc a])"
    using connect_layer [OF wf Cons.prems(2,3,4) lc(2,3) entries_in_lower [OF Cons.prems(6) lc(1)], of bn ef lcs] by blast
  let ?es = "es[p := set_neighbors (es ! p) lc a]"
  obtain a0 where a0: "HnswGetNeighbors (es ! p) lc = Inr a0" using graph_wf_neighbors [OF Cons.prems(1,4) lc(2)] by blast
  note li = layer_items_set [OF Cons.prems(4) a0, of a]
  note sh = set_neighbors_shape [OF Cons.prems(4), of lc a]
  have wf1: "graph_wf m dim ?es" by (rule graph_wf_set [OF Cons.prems(1,4) lc(2) s(2)])
  have cl1: "nbr_closed ?es R" using Cons.prems(2,5) by (auto simp: nbr_closed_def li)
  have lv: "he_level (?es ! p) = he_level (es ! p)" by (rule same_shapeD(2) [OF sh Cons.prems(4)])
  have "\<exists>es' ns. connect_layers bn (Some q) ef None support m None p lcs w ?es = Inr es' \<and> es' = ?es[p := (?es ! p)\<lparr>he_neighbors := ns\<rparr>] \<and> graph_wf m dim es' \<and>
     (\<forall>lc. hc_element ` set (layer_items es' lc p) \<subseteq> hc_element ` set (layer_items ?es lc p) \<union> R)"
    by (rule Cons.IH [OF wf1 cl1 _ _ Cons.prems(5) entries_in_shape [OF sh s(1)]])
       (use Cons.prems(3,4,7,8) lv in \<open>auto simp: li\<close>)
  then obtain es' ns where r: "connect_layers bn (Some q) ef None support m None p lcs w ?es = Inr es'" "es' = ?es[p := (?es ! p)\<lparr>he_neighbors := ns\<rparr>]"
      "graph_wf m dim es'" "\<forall>lc. hc_element ` set (layer_items es' lc p) \<subseteq> hc_element ` set (layer_items ?es lc p) \<union> R" by blast
  have "es' = es[p := (es ! p)\<lparr>he_neighbors := ns\<rparr>]" using r(2) Cons.prems(4) by (simp add: set_neighbors_def)
  moreover have "hc_element ` set (layer_items es' l p) \<subseteq> hc_element ` set (layer_items es l p) \<union> R" for l
    using r(4) [rule_format, of l] s(3) lc(3) unfolding li by (cases "l = lc") auto
  ultimately show ?case using s(4) r(1,3) by auto
qed

lemma find_neighbors_memory:
  assumes wf: "graph_wf m dim es" "dist_ok support dim" and R: "nbr_closed es R" "R \<subseteq> {..<length es}"
    and p: "p < length es" "p \<notin> R" "\<And>lc. layer_items es lc p = []" and en: "\<And>x. entry = Some x \<Longrightarrow> x \<in> R"
  shows "\<exists>es' ns. HnswFindElementNeighbors es True p entry None support m efc False = Inr es' \<and> es' = es[p := (es ! p)\<lparr>he_neighbors := ns\<rparr>] \<and>
    graph_wf m dim es' \<and> (\<forall>lc. hc_element ` set (layer_items es' lc p) \<subseteq> R)"
proof (cases entry)
  case None
  then show ?thesis using wf(1) p by (intro exI [of _ es] exI [of _ "he_neighbors (es ! p)"]) (simp add: HnswFindElementNeighbors_def)
next
  case (Some x)
  obtain q where q: "he_value (es ! p) = Some q" "vec_wf q" "v_dim q = dim" using graph_wf_value [OF wf(1) p(1)] by blast
  have x: "x \<in> R" "x < length es" using en [OF Some] R(2) by auto
  obtain d where d: "GetElementDistance es x (Some q) support = Inr d" using graph_wf_distance [OF wf q(2,3) x(2)] by blast
  let ?sc = "HnswInitSearchCandidate x d" and ?L = "he_level (es ! x)" and ?l = "he_level (es ! p)"
  have e0: "entries_in es q support ?L R [?sc]" using x d by (simp add: entries_in_def entry_ok_def HnswInitSearchCandidate_def)
  let ?lcs = "rev [Suc ?l..<Suc ?L]"
  have so: "sorted_wrt (\<ge>) (?L # ?lcs)" by (auto simp: sorted_wrt_rev simp del: upt_Suc)
  obtain w where w: "greedy_descent (Some q) None support m True None ?lcs [?sc] es = Inr (w, es)" "entries_in es q support (last (?L # ?lcs)) R w"
    using descent_in [OF wf q(2,3) R(1) e0 so] by blast
  have la: "min ?l ?L \<le> last (?L # ?lcs)"
  proof (cases "?l < ?L")
    case True
    then have "last (?L # ?lcs) = Suc ?l" by (simp add: last_rev upt_conv_Cons del: upt_Suc)
    then show ?thesis by simp
  qed simp
  have so': "sorted_wrt (>) (rev [0..<Suc (min ?l ?L)])" by (auto simp: sorted_wrt_rev simp del: upt_Suc)
  have lv: "\<forall>lc\<in>set (rev [0..<Suc (min ?l ?L)]). lc \<le> min ?l ?L \<and> lc \<le> ?l \<and> layer_items es lc p = []"
    using p(3) by (auto simp del: upt_Suc)
  have "\<exists>es' ns. connect_layers True (Some q) efc None support m None p (rev [0..<Suc (min ?l ?L)]) w es = Inr es' \<and> es' = es[p := (es ! p)\<lparr>he_neighbors := ns\<rparr>] \<and> graph_wf m dim es' \<and>
     (\<forall>lc. hc_element ` set (layer_items es' lc p) \<subseteq> hc_element ` set (layer_items es lc p) \<union> R)"
    by (rule connect_layers_ok [OF wf(2) q(2,3) wf(1) R p(1,2) entries_in_lower [OF w(2) la] so' lv])
  then obtain es' ns where c: "connect_layers True (Some q) efc None support m None p (rev [0..<Suc (min ?l ?L)]) w es = Inr es'"
      "es' = es[p := (es ! p)\<lparr>he_neighbors := ns\<rparr>]" "graph_wf m dim es'" "\<forall>lc. hc_element ` set (layer_items es' lc p) \<subseteq> hc_element ` set (layer_items es lc p) \<union> R"
    by blast
  have "HnswFindElementNeighbors es True p entry None support m efc False = Inr es'"
    using Some p(1) x(2) q(1) d w(1) c(1) by (simp add: HnswFindElementNeighbors_def HnswEntryCandidate_def del: upt_Suc)
  moreover have "\<forall>lc. hc_element ` set (layer_items es' lc p) \<subseteq> R" using c(4) unfolding p(3) by simp
  ultimately show ?thesis using c(2,3) by blast
qed

section \<open>Linking the neighbours back in memory\<close>

lemma update_layer_ok:
  assumes d: "dist_ok support dim"
  shows "\<lbrakk>graph_wf m dim es; p < length es; lc \<le> he_level (es ! p); \<forall>hc\<in>set hcs. hc_element hc < length es \<and> lc \<le> he_level (es ! hc_element hc) \<and> hc_element hc \<noteq> p\<rbrakk> \<Longrightarrow>
   \<exists>es'. update_layer support p m lc hcs es = Inr es' \<and> graph_wf m dim es' \<and> same_shape es es' \<and>
     (\<forall>l i. hc_element ` set (layer_items es' l i) \<subseteq> insert p (hc_element ` set (layer_items es l i))) \<and> (\<forall>l. layer_items es' l p = layer_items es l p)"
proof (induction hcs arbitrary: es)
  case Nil
  then show ?case by (intro exI [of _ es]) auto
next
  case (Cons hc hcs)
  let ?x = "hc_element hc" and ?lm = "HnswGetLayerM m lc"
  have x: "?x < length es" "lc \<le> he_level (es ! ?x)" "?x \<noteq> p" using Cons.prems(4) by auto
  obtain a where a: "HnswGetNeighbors (es ! ?x) lc = Inr a" "array_wf m es lc a" using graph_wf_neighbors [OF Cons.prems(1) x(1,2)] by blast
  have cap: "na_cap a = ?lm" "length (na_items a) \<le> ?lm" using a(2) by (simp_all add: array_wf_def)
  have ok: "cands_ok es dim (na_items a @ [\<lparr>hc_element = p, hc_distance = hc_distance hc, hc_closer = False\<rparr>])"
    by (rule cands_ok_graph [OF Cons.prems(1)]) (use a(2) Cons.prems(2) in \<open>auto simp: array_wf_def\<close>)
  obtain a' u where u: "HnswUpdateConnection es True a p (hc_distance hc) ?lm support = Inr (a', u)" "na_cap a' = ?lm" "length (na_items a') \<le> ?lm"
      "hc_element ` set (na_items a') \<subseteq> insert p (hc_element ` set (na_items a))"
  proof -
    from HnswUpdateConnection_total [OF d ok cap] obtain a' u where "HnswUpdateConnection es True a p (hc_distance hc) ?lm support = Inr (a', u)"
        "na_cap a' = ?lm" "length (na_items a') \<le> ?lm" "connected a a' p ?lm u" by blast
    then show ?thesis using that connected_subset by metis
  qed
  have "hc_element h < length es \<and> lc \<le> he_level (es ! hc_element h)" if h: "h \<in> set (na_items a')" for h
  proof -
    have "hc_element h = p \<or> (\<exists>h'\<in>set (na_items a). hc_element h = hc_element h')" using u(4) h by blast
    then show ?thesis using a(2) Cons.prems(2,3) by (auto simp: array_wf_def)
  qed
  then have a': "array_wf m es lc a'" using u(2,3) by (simp add: array_wf_def)
  let ?es = "es[?x := set_neighbors (es ! ?x) lc a']"
  note sh = set_neighbors_shape [OF x(1), of lc a'] and li = layer_items_set [OF x(1) a(1), of a']
  have wf1: "graph_wf m dim ?es" by (rule graph_wf_set [OF Cons.prems(1) x(1,2) a'])
  note sd = same_shapeD(1,2) [OF sh]
  have "\<exists>es'. update_layer support p m lc hcs ?es = Inr es' \<and> graph_wf m dim es' \<and> same_shape ?es es' \<and>
     (\<forall>l i. hc_element ` set (layer_items es' l i) \<subseteq> insert p (hc_element ` set (layer_items ?es l i))) \<and> (\<forall>l. layer_items es' l p = layer_items ?es l p)"
    by (rule Cons.IH [OF wf1]) (use Cons.prems(2,3,4) sd in auto)
  then obtain es' where r: "update_layer support p m lc hcs ?es = Inr es'" "graph_wf m dim es'" "same_shape ?es es'"
      "\<forall>l i. hc_element ` set (layer_items es' l i) \<subseteq> insert p (hc_element ` set (layer_items ?es l i))" "\<forall>l. layer_items es' l p = layer_items ?es l p" by blast
  have "hc_element ` set (layer_items es' l i) \<subseteq> insert p (hc_element ` set (layer_items es l i))" for l i
    using r(4) [rule_format, of l i] u(4) a(1) unfolding li by (cases "i = ?x \<and> l = lc") (auto simp: layer_items_def)
  moreover have "layer_items es' l p = layer_items es l p" for l using r(5) x(3) by (simp add: li)
  moreover have "update_layer support p m lc (hc # hcs) es = Inr es'" using x(1) a(1) u(1) r(1) by simp
  ultimately show ?case using r(2) same_shape_trans [OF sh r(3)] by blast
qed

lemma update_layers_ok:
  assumes d: "dist_ok support dim"
  shows "\<lbrakk>graph_wf m dim es; p < length es; \<forall>lc\<in>set lcs. lc \<le> he_level (es ! p); \<forall>lc. p \<notin> hc_element ` set (layer_items es lc p)\<rbrakk> \<Longrightarrow>
   \<exists>es'. update_layers support p m lcs es = Inr es' \<and> graph_wf m dim es' \<and> same_shape es es' \<and>
     (\<forall>l i. hc_element ` set (layer_items es' l i) \<subseteq> insert p (hc_element ` set (layer_items es l i))) \<and> (\<forall>l. layer_items es' l p = layer_items es l p)"
proof (induction lcs arbitrary: es)
  case Nil
  then show ?case by (intro exI [of _ es]) auto
next
  case (Cons lc lcs)
  have lc: "lc \<le> he_level (es ! p)" using Cons.prems(3) by simp
  obtain a where a: "HnswGetNeighbors (es ! p) lc = Inr a" "array_wf m es lc a" using graph_wf_neighbors [OF Cons.prems(1,2) lc] by blast
  have it: "\<forall>hc\<in>set (na_items a). hc_element hc < length es \<and> lc \<le> he_level (es ! hc_element hc) \<and> hc_element hc \<noteq> p"
    using a Cons.prems(4) [rule_format, of lc] by (auto simp: array_wf_def layer_items_def)
  obtain es1 where u: "update_layer support p m lc (na_items a) es = Inr es1" "graph_wf m dim es1" "same_shape es es1"
      "\<forall>l i. hc_element ` set (layer_items es1 l i) \<subseteq> insert p (hc_element ` set (layer_items es l i))" "\<forall>l. layer_items es1 l p = layer_items es l p"
    using update_layer_ok [OF d Cons.prems(1,2) lc it] by blast
  note sd = same_shapeD(1,2) [OF u(3)]
  have "\<exists>es'. update_layers support p m lcs es1 = Inr es' \<and> graph_wf m dim es' \<and> same_shape es1 es' \<and>
     (\<forall>l i. hc_element ` set (layer_items es' l i) \<subseteq> insert p (hc_element ` set (layer_items es1 l i))) \<and> (\<forall>l. layer_items es' l p = layer_items es1 l p)"
    by (rule Cons.IH [OF u(2)]) (use Cons.prems(2,3,4) sd u(5) in auto)
  then obtain es' where r: "update_layers support p m lcs es1 = Inr es'" "graph_wf m dim es'" "same_shape es1 es'"
      "\<forall>l i. hc_element ` set (layer_items es' l i) \<subseteq> insert p (hc_element ` set (layer_items es1 l i))" "\<forall>l. layer_items es' l p = layer_items es1 l p" by blast
  have "hc_element ` set (layer_items es' l i) \<subseteq> insert p (hc_element ` set (layer_items es l i))" for l i
    using r(4) [rule_format, of l i] u(4) [rule_format, of l i] by blast
  moreover have "update_layers support p m (lc # lcs) es = Inr es'" using Cons.prems(2) a(1) u(1) r(1) by simp
  ultimately show ?case using r(2,5) u(5) same_shape_trans [OF u(3) r(3)] by auto
qed

section \<open>Changing other fields\<close>

lemma graph_wf_fields:
  assumes "graph_wf m dim es" and l: "length es' = length es"
    and f: "\<And>i. i < length es \<Longrightarrow> he_level (es' ! i) = he_level (es ! i) \<and> he_value (es' ! i) = he_value (es ! i) \<and> he_neighbors (es' ! i) = he_neighbors (es ! i)"
  shows "graph_wf m dim es'"
proof -
  have a: "array_wf m es lc a \<Longrightarrow> array_wf m es' lc a" for lc a using f l by (auto simp: array_wf_def)
  have "elem_wf m dim es' (es' ! i)" if i: "i < length es" for i
  proof -
    have "elem_wf m dim es (es ! i)" using assms(1) i by (simp add: graph_wf_def)
    then show ?thesis using f [OF i] a by (auto simp: elem_wf_def split: option.splits)
  qed
  then show ?thesis using l by (auto simp: graph_wf_def in_set_conv_nth)
qed

lemma layer_items_cong: "he_neighbors (es' ! i) = he_neighbors (es ! j) \<Longrightarrow> he_level (es' ! i) = he_level (es ! j) \<Longrightarrow> layer_items es' lc i = layer_items es lc j"
  by (cases "he_neighbors (es ! j)") (simp_all add: layer_items_def HnswGetNeighbors_def)

lemma nbr_closed_cong: "nbr_closed es R \<Longrightarrow> (\<And>i. i \<in> R \<Longrightarrow> he_neighbors (es' ! i) = he_neighbors (es ! i) \<and> he_level (es' ! i) = he_level (es ! i)) \<Longrightarrow> nbr_closed es' R"
  using layer_items_cong unfolding nbr_closed_def by metis

lemma list_at_append: "list_at es h ps \<Longrightarrow> list_at (es @ [e]) h ps"
  by (induction es h ps rule: list_at.induct) (auto simp: nth_append)

lemma list_at_other:
  "list_at es h ps \<Longrightarrow> length es' = length es \<Longrightarrow> (\<And>i. i \<in> set ps \<Longrightarrow> he_next (es' ! i) = he_next (es ! i)) \<Longrightarrow> list_at es' h ps"
  by (induction es h ps rule: list_at.induct) auto

lemma graph_wf_new:
  assumes "graph_wf m dim es" and v: "vec_wf v" "v_dim v = dim"
  shows "graph_wf m dim (es @ [new_element tid m l v])"
proof -
  let ?es = "es @ [new_element tid m l v]"
  have a: "array_wf m es lc a \<Longrightarrow> array_wf m ?es lc a" for lc a by (auto simp: array_wf_def nth_append)
  have "elem_wf m dim ?es e" if "e \<in> set es" for e
    using assms(1) that a by (auto simp: graph_wf_def elem_wf_def split: option.splits)
  moreover have "elem_wf m dim ?es (new_element tid m l v)"
    using v by (auto simp: elem_wf_def new_element_def array_wf_def HnswInitNeighborArray_def simp del: upt_Suc)
  ultimately show ?thesis by (simp add: graph_wf_def)
qed

lemma layer_items_new: "layer_items (es @ [new_element tid m l v]) lc (length es) = []"
  by (auto simp: layer_items_def HnswGetNeighbors_def new_element_def HnswInitNeighborArray_def nth_r_def simp del: upt_Suc split: sum.splits)

section \<open>What the graph indexes\<close>

text \<open>The heap TIDs of the elements of a list, each with the value of its element.\<close>

definition indexed :: "elems \<Rightarrow> eptr list \<Rightarrow> (ItemPointerData \<times> Vector option) list" where
  "indexed es ps = concat (map (\<lambda>p. map (\<lambda>t. (t, he_value (es ! p))) (he_heaptids (es ! p))) ps)"

lemma indexed_cong:
  "(\<And>p. p \<in> set ps \<Longrightarrow> he_value (es' ! p) = he_value (es ! p) \<and> he_heaptids (es' ! p) = he_heaptids (es ! p)) \<Longrightarrow> indexed es' ps = indexed es ps"
  by (simp add: indexed_def cong: map_cong)

lemma indexed_add:
  assumes "distinct ps" "q \<in> set ps" "q < length es"
  shows "mset (indexed (es[q := (es ! q)\<lparr>he_heaptids := he_heaptids (es ! q) @ [t]\<rparr>]) ps) = add_mset (t, he_value (es ! q)) (mset (indexed es ps))"
proof -
  let ?es = "es[q := (es ! q)\<lparr>he_heaptids := he_heaptids (es ! q) @ [t]\<rparr>]"
  obtain xs ys where ps: "ps = xs @ q # ys" using assms(2) by (auto simp: in_set_conv_decomp)
  have q: "q \<notin> set xs" "q \<notin> set ys" using assms(1) ps by auto
  have "indexed ?es zs = indexed es zs" if "q \<notin> set zs" for zs
  proof (rule indexed_cong)
    fix p assume "p \<in> set zs"
    then have "p \<noteq> q" using that by blast
    then show "he_value (?es ! p) = he_value (es ! p) \<and> he_heaptids (?es ! p) = he_heaptids (es ! p)" by simp
  qed
  then have "indexed ?es xs = indexed es xs" "indexed ?es ys = indexed es ys" using q by blast+
  moreover have "indexed e (xs @ q # ys) = indexed e xs @ map (\<lambda>t. (t, he_value (e ! q))) (he_heaptids (e ! q)) @ indexed e ys" for e by (simp add: indexed_def)
  ultimately show ?thesis using assms(3) by (simp add: ps)
qed

section \<open>Duplicates in memory\<close>

lemma find_duplicate_ok:
  assumes "he_value e = Some v" "he_heaptids e = [t]" "\<forall>q<length es. length (he_heaptids (es ! q)) \<le> HNSW_HEAPTIDS"
    "\<forall>q<length es. he_value (es ! q) \<noteq> None"
  shows "\<forall>hc\<in>set hcs. hc_element hc < length es \<and> hc_element hc \<in> R \<Longrightarrow>
    find_duplicate_memory es e hcs = Inr (False, es) \<or>
    (\<exists>q\<in>R. q < length es \<and> he_value (es ! q) = Some v \<and> length (he_heaptids (es ! q)) < HNSW_HEAPTIDS \<and>
       find_duplicate_memory es e hcs = Inr (True, es[q := (es ! q)\<lparr>he_heaptids := he_heaptids (es ! q) @ [t]\<rparr>]))"
proof (induction hcs)
  case (Cons hc hcs)
  let ?q = "hc_element hc"
  have q: "?q < length es" "?q \<in> R" using Cons.prems by simp_all
  obtain w where w: "he_value (es ! ?q) = Some w" using assms(4) q(1) by blast
  consider "v \<noteq> w" | "v = w" "length (he_heaptids (es ! ?q)) = HNSW_HEAPTIDS" | "v = w" "length (he_heaptids (es ! ?q)) < HNSW_HEAPTIDS"
    using assms(3) q(1) by (metis le_neq_implies_less)
  then show ?case
  proof cases
    case 1
    then show ?thesis using q w assms(1) by (simp add: datumIsEqual_iff)
  next
    case 2
    then have "find_duplicate_memory es e (hc # hcs) = find_duplicate_memory es e hcs"
      using q w assms(1) by (simp add: datumIsEqual_iff AddDuplicateInMemory_def)
    then show ?thesis using Cons by simp
  next
    case 3
    then have "find_duplicate_memory es e (hc # hcs) = Inr (True, es[?q := (es ! ?q)\<lparr>he_heaptids := he_heaptids (es ! ?q) @ [t]\<rparr>])"
      using q w assms(1,2) by (simp add: datumIsEqual_iff AddDuplicateInMemory_def HnswAddHeapTid_def)
    then show ?thesis using q w 3 by blast
  qed
qed simp

section \<open>The invariant of the graph in memory\<close>

text \<open>The elements \<open>ps\<close> of the list are the nodes of the graph; further elements of the store are duplicates whose insertion stopped.  Neighbour
  arrays of nodes hold nodes, the entry point is a node of the highest level, levels and heap TIDs stay within their bounds.\<close>

definition tids_ok :: "nat \<Rightarrow> HnswElementData \<Rightarrow> bool" where
  "tids_ok ml e \<longleftrightarrow> he_level e \<le> ml \<and> he_heaptids e \<noteq> [] \<and> length (he_heaptids e) \<le> HNSW_HEAPTIDS"

definition entry_top :: "elems \<Rightarrow> eptr list \<Rightarrow> eptr option \<Rightarrow> bool" where
  "entry_top es ps entry \<longleftrightarrow> (case entry of None \<Rightarrow> ps = [] | Some q \<Rightarrow> q \<in> set ps \<and> (\<forall>p\<in>set ps. he_level (es ! p) \<le> he_level (es ! q)))"

definition mem_ok :: "nat \<Rightarrow> int \<Rightarrow> nat \<Rightarrow> eptr list \<Rightarrow> HnswGraph \<Rightarrow> elems \<Rightarrow> bool" where
  "mem_ok m dim ml ps g es \<longleftrightarrow> graph_wf m dim es \<and> list_at es (g_head g) ps \<and> distinct ps \<and> nbr_closed es (set ps) \<and>
     entry_top es ps (g_entryPoint g) \<and> (\<forall>e\<in>set es. tids_ok ml e)"

lemma mem_ok_bound: "mem_ok m dim ml ps g es \<Longrightarrow> p \<in> set ps \<Longrightarrow> p < length es"
  using list_at_bound unfolding mem_ok_def by blast

text \<open>The store with a new element whose neighbours have been found.\<close>

definition with_new :: "nat \<Rightarrow> elems \<Rightarrow> eptr list \<Rightarrow> HnswElementData \<Rightarrow> elems \<Rightarrow> bool" where
  "with_new ml es ps e es1 \<longleftrightarrow> es1 = es @ [e] \<and> (\<forall>lc. hc_element ` set (layer_items es1 lc (length es)) \<subseteq> set ps) \<and> tids_ok ml e"

lemma with_new_ok:
  assumes "mem_ok m dim ml ps g es" "with_new ml es ps e es1" "graph_wf m dim es1"
  shows "mem_ok m dim ml ps g es1" "indexed es1 ps = indexed es ps"
proof -
  have nth: "es1 ! i = es ! i" if "i \<in> set ps" for i using assms(2) mem_ok_bound [OF assms(1) that] by (simp add: with_new_def nth_append)
  have "nbr_closed es1 (set ps)" by (rule nbr_closed_cong [of es]) (use assms(1) nth in \<open>auto simp: mem_ok_def\<close>)
  moreover have "list_at es1 (g_head g) ps" using assms(1,2) list_at_append by (simp add: mem_ok_def with_new_def)
  moreover have "entry_top es1 ps (g_entryPoint g)" using assms(1) nth by (simp add: mem_ok_def entry_top_def split: option.splits)
  ultimately show "mem_ok m dim ml ps g es1" using assms by (auto simp: mem_ok_def with_new_def)
  show "indexed es1 ps = indexed es ps" by (rule indexed_cong) (simp add: nth)
qed

lemma add_duplicate_ok:
  assumes ok: "mem_ok m dim ml ps g es" and q: "q \<in> set ps" "length (he_heaptids (es ! q)) < HNSW_HEAPTIDS"
  shows "mem_ok m dim ml ps g (es[q := (es ! q)\<lparr>he_heaptids := he_heaptids (es ! q) @ [t]\<rparr>])"
proof -
  let ?es = "es[q := (es ! q)\<lparr>he_heaptids := he_heaptids (es ! q) @ [t]\<rparr>]"
  have b: "q < length es" by (rule mem_ok_bound [OF ok q(1)])
  have f: "he_level (?es ! i) = he_level (es ! i) \<and> he_value (?es ! i) = he_value (es ! i) \<and> he_neighbors (?es ! i) = he_neighbors (es ! i) \<and> he_next (?es ! i) = he_next (es ! i)" for i
    using b by (cases "i = q") auto
  have "graph_wf m dim ?es" by (rule graph_wf_fields [of m dim es]) (use ok f in \<open>auto simp: mem_ok_def\<close>)
  moreover have "nbr_closed ?es (set ps)" by (rule nbr_closed_cong [of es]) (use ok f in \<open>auto simp: mem_ok_def\<close>)
  moreover have "list_at ?es (g_head g) ps" by (rule list_at_other [of es]) (use ok f in \<open>auto simp: mem_ok_def\<close>)
  moreover have "entry_top ?es ps (g_entryPoint g)" using ok f by (simp add: mem_ok_def entry_top_def split: option.splits)
  moreover have "\<forall>e\<in>set ?es. tids_ok ml e"
  proof
    fix e assume "e \<in> set ?es"
    then have "e \<in> set es \<or> e = (es ! q)\<lparr>he_heaptids := he_heaptids (es ! q) @ [t]\<rparr>" using set_update_subset_insert [of es q] by fastforce
    then show "tids_ok ml e" using ok q(2) b by (auto simp: mem_ok_def tids_ok_def)
  qed
  ultimately show ?thesis using ok by (simp add: mem_ok_def)
qed

text \<open>Linking a new element whose neighbours have been found.\<close>

lemma link_new_ok:
  assumes ok: "mem_ok m dim ml ps g es" and d: "dist_ok support dim" and n: "with_new ml es ps e es1" and wf: "graph_wf m dim es1"
    and e: "he_heaptids e = [t]" "he_value e = Some v"
  shows "\<exists>es2 es3. AddElementInMemory g es1 (length es) = Inr (g\<lparr>g_head := Some (length es)\<rparr>, es2) \<and>
    UpdateNeighborsInMemory es2 support (length es) m = Inr es3 \<and> length es3 = length es1 \<and> (\<forall>i<length es1. he_level (es3 ! i) = he_level (es1 ! i)) \<and>
    (\<forall>entry. entry_top es3 (length es # ps) entry \<longrightarrow> mem_ok m dim ml (length es # ps) (g\<lparr>g_head := Some (length es), g_entryPoint := entry\<rparr>) es3) \<and>
    mset (indexed es3 (length es # ps)) = add_mset (t, Some v) (mset (indexed es ps))"
proof -
  let ?p = "length es"
  note ok1 = with_new_ok [OF ok n wf]
  have b: "\<And>i. i \<in> set ps \<Longrightarrow> i < ?p" using mem_ok_bound [OF ok] by blast
  have p: "?p < length es1" "?p \<notin> set ps" "es1 ! ?p = e" "?p \<notin> set ps" "length es1 = Suc ?p" using n b by (auto simp: with_new_def)
  define es2 where "es2 = es1[?p := e\<lparr>he_next := g_head g\<rparr>]"
  have f: "he_level (es2 ! i) = he_level (es1 ! i) \<and> he_value (es2 ! i) = he_value (es1 ! i) \<and> he_neighbors (es2 ! i) = he_neighbors (es1 ! i) \<and> he_heaptids (es2 ! i) = he_heaptids (es1 ! i)" for i
    using p(1,3) by (cases "i = ?p") (auto simp: es2_def)
  have l2: "length es2 = length es1" by (simp add: es2_def)
  have nx: "he_next (es2 ! i) = (if i = ?p then g_head g else he_next (es1 ! i))" for i using p(1) by (simp add: es2_def)
  have li: "layer_items es2 lc i = layer_items es1 lc i" for lc i using f by (intro layer_items_cong) simp_all
  have wf2: "graph_wf m dim es2" by (rule graph_wf_fields [OF wf l2]) (use f in blast)
  have ls: "list_at es2 (Some ?p) (?p # ps)"
  proof -
    have "list_at es2 (g_head g) ps" by (rule list_at_other [of es1]) (use ok1(1) l2 nx p(2) in \<open>auto simp: mem_ok_def\<close>)
    then show ?thesis using nx p(1) l2 by simp
  qed
  have self: "\<forall>lc. ?p \<notin> hc_element ` set (layer_items es2 lc ?p)" using n p(2) unfolding li with_new_def by blast
  have lv: "\<forall>lc\<in>set (rev [0..<Suc (he_level (es2 ! ?p))]). lc \<le> he_level (es2 ! ?p)" by (auto simp del: upt_Suc)
  have p2: "?p < length es2" using p(1) l2 by simp
  obtain es3 where u: "update_layers support ?p m (rev [0..<Suc (he_level (es2 ! ?p))]) es2 = Inr es3" "graph_wf m dim es3" "same_shape es2 es3"
      "\<forall>l i. hc_element ` set (layer_items es3 l i) \<subseteq> insert ?p (hc_element ` set (layer_items es2 l i))"
    using update_layers_ok [OF d wf2 p2 lv self] by blast
  note sd = same_shapeD [OF u(3)]
  have "nbr_closed es3 (set (?p # ps))"
  proof -
    have "hc_element ` set (layer_items es1 lc i) \<subseteq> set ps" if "i \<in> set (?p # ps)" for lc i
      using that n ok1(1) unfolding with_new_def mem_ok_def nbr_closed_def by auto
    then show ?thesis using u(4) unfolding li nbr_closed_def by fastforce
  qed
  moreover have "list_at es3 (Some ?p) (?p # ps)" by (rule list_at_other [OF ls sd(1)]) (use sd(4) b l2 p in \<open>auto simp: less_SucI\<close>)
  moreover have "\<forall>e\<in>set es3. tids_ok ml e"
    using ok1(1) f sd(1,2,5) l2 unfolding mem_ok_def all_set_conv_all_nth tids_ok_def by auto
  moreover have "indexed es3 (?p # ps) = (t, Some v) # indexed es ps"
  proof -
    have "indexed es3 (?p # ps) = indexed es1 (?p # ps)" by (rule indexed_cong) (use f sd(3,5) b l2 p in \<open>auto simp: less_SucI\<close>)
    then show ?thesis using e p(3) ok1(2) by (simp add: indexed_def)
  qed
  moreover have "AddElementInMemory g es1 ?p = Inr (g\<lparr>g_head := Some ?p\<rparr>, es2)" using p(1,3) by (simp add: AddElementInMemory_def es2_def)
  moreover have "UpdateNeighborsInMemory es2 support ?p m = Inr es3" using u(1) p2 by (simp add: UpdateNeighborsInMemory_def del: upt_Suc)
  moreover have "distinct (?p # ps)" using ok p(2) by (simp add: mem_ok_def)
  ultimately show ?thesis using u(2) sd(1,2) f l2 by (intro exI [of _ es2] exI [of _ es3]) (simp add: mem_ok_def)
qed

text \<open>The insertion of one tuple.\<close>

lemma update_graph_ok:
  assumes ok: "mem_ok m dim ml ps g es" and d: "dist_ok support dim" and n: "with_new ml es ps e es1" and wf: "graph_wf m dim es1"
    and e: "he_heaptids e = [t]" "he_value e = Some v" and bs: "bs_graph bs = g" "bs_elems bs = es1"
  shows "\<exists>es' h en ps'. UpdateGraphInMemory support (length es) m (g_entryPoint g) bs = Inr (bs\<lparr>bs_elems := es', bs_graph := g\<lparr>g_head := h, g_entryPoint := en\<rparr>\<rparr>) \<and>
    mem_ok m dim ml ps' (g\<lparr>g_head := h, g_entryPoint := en\<rparr>) es' \<and> mset (indexed es' ps') = add_mset (t, Some v) (mset (indexed es ps)) \<and> length es' = length es1"
proof -
  let ?p = "length es"
  note ok1 = with_new_ok [OF ok n wf]
  have p: "?p < length es1" "es1 ! ?p = e" using n by (simp_all add: with_new_def)
  obtain a where a: "HnswGetNeighbors (es1 ! ?p) 0 = Inr a" "array_wf m es1 0 a" using graph_wf_neighbors [OF wf p(1)] by blast
  have hcs: "\<forall>hc\<in>set (na_items a). hc_element hc < length es1 \<and> hc_element hc \<in> set ps"
  proof
    fix hc assume h: "hc \<in> set (na_items a)"
    then have "hc \<in> set (layer_items es1 0 ?p)" using a(1) by (simp add: layer_items_def)
    then have "hc_element hc \<in> set ps" using n unfolding with_new_def by blast
    then show "hc_element hc < length es1 \<and> hc_element hc \<in> set ps" using h a(2) by (simp add: array_wf_def)
  qed
  have el: "\<forall>q<length es1. length (he_heaptids (es1 ! q)) \<le> HNSW_HEAPTIDS" using ok1(1) by (simp add: mem_ok_def tids_ok_def)
  have vl: "\<forall>q<length es1. he_value (es1 ! q) \<noteq> None" using graph_wf_value [OF wf] by blast
  have fd: "FindDuplicateInMemory es1 ?p = find_duplicate_memory es1 e (na_items a)" using p a(1) by (simp add: FindDuplicateInMemory_def)
  consider (dup) q where "q \<in> set ps" "q < length es1" "he_value (es1 ! q) = Some v" "length (he_heaptids (es1 ! q)) < HNSW_HEAPTIDS"
      "FindDuplicateInMemory es1 ?p = Inr (True, es1[q := (es1 ! q)\<lparr>he_heaptids := he_heaptids (es1 ! q) @ [t]\<rparr>])"
    | (new) "FindDuplicateInMemory es1 ?p = Inr (False, es1)"
    unfolding fd using find_duplicate_ok [OF e(2,1) el vl hcs] by blast
  then show ?thesis
  proof cases
    case dup
    let ?es = "es1[q := (es1 ! q)\<lparr>he_heaptids := he_heaptids (es1 ! q) @ [t]\<rparr>]"
    have "mset (indexed ?es ps) = add_mset (t, Some v) (mset (indexed es ps))"
      using indexed_add [OF _ dup(1,2), of t] ok dup(3) ok1(2) by (simp add: mem_ok_def)
    moreover have "UpdateGraphInMemory support ?p m (g_entryPoint g) bs = Inr (bs\<lparr>bs_elems := ?es, bs_graph := g\<lparr>g_head := g_head g, g_entryPoint := g_entryPoint g\<rparr>\<rparr>)"
      using dup(5) bs by (simp add: UpdateGraphInMemory_def)
    ultimately show ?thesis using add_duplicate_ok [OF ok1(1) dup(1,4), of t]
      by (intro exI [of _ ?es] exI [of _ "g_head g"] exI [of _ "g_entryPoint g"] exI [of _ ps]) simp
  next
    case new
    let ?ps = "?p # ps"
    obtain es2 es3 where u: "AddElementInMemory g es1 ?p = Inr (g\<lparr>g_head := Some ?p\<rparr>, es2)" "UpdateNeighborsInMemory es2 support ?p m = Inr es3"
        "length es3 = length es1" "\<forall>i<length es1. he_level (es3 ! i) = he_level (es1 ! i)"
        "\<forall>entry. entry_top es3 ?ps entry \<longrightarrow> mem_ok m dim ml ?ps (g\<lparr>g_head := Some ?p, g_entryPoint := entry\<rparr>) es3"
        "mset (indexed es3 ?ps) = add_mset (t, Some v) (mset (indexed es ps))"
      using link_new_ok [OF ok d n wf e] by blast
    have b: "i < length es1" if "i \<in> set ps" for i using mem_ok_bound [OF ok1(1) that] .
    obtain en where en: "entry_top es3 ?ps en"
        "UpdateGraphInMemory support ?p m (g_entryPoint g) bs = Inr (bs\<lparr>bs_elems := es3, bs_graph := g\<lparr>g_head := Some ?p, g_entryPoint := en\<rparr>\<rparr>)"
    proof (cases "g_entryPoint g")
      case None
      have "entry_top es3 ?ps (Some ?p)" using ok None by (simp add: mem_ok_def entry_top_def)
      then show ?thesis using that [of "Some ?p"] None new u(1,2,3) bs p(1) by (simp add: UpdateGraphInMemory_def)
    next
      case (Some q)
      have q: "q \<in> set ps" "\<forall>i\<in>set ps. he_level (es1 ! i) \<le> he_level (es1 ! q)" using ok1(1) Some by (simp_all add: mem_ok_def entry_top_def)
      have q3: "\<forall>i\<in>set ps. he_level (es3 ! i) \<le> he_level (es3 ! q)" using q u(4) b by simp
      let ?up = "he_level (es3 ! ?p) > he_level (es3 ! q)"
      let ?en = "if ?up then Some ?p else Some q"
      have "entry_top es3 ?ps ?en" using q(1) q3 by (fastforce simp: entry_top_def)
      moreover have "UpdateGraphInMemory support ?p m (g_entryPoint g) bs = Inr (bs\<lparr>bs_elems := es3, bs_graph := g\<lparr>g_head := Some ?p, g_entryPoint := ?en\<rparr>\<rparr>)"
        using Some new u(1-3) bs p(1) b [OF q(1)] by (simp add: UpdateGraphInMemory_def)
      ultimately show ?thesis using that by blast
    qed
    then show ?thesis using u(3,5,6) by (intro exI [of _ es3] exI [of _ "Some ?p"] exI [of _ en] exI [of _ ?ps]) simp
  qed
qed

lemma insert_memory_ok:
  assumes ok: "mem_ok m dim ml ps g es" and d: "dist_ok support dim" "vec_wf v" "v_dim v = dim" and l: "l \<le> ml"
    and bs: "bs_graph bs = g" "bs_elems bs = es @ [new_element t m l v]" "bs_m bs = m" "bs_support bs = support"
  shows "\<exists>es' h en ps'. InsertTupleInMemory bs (length es) = Inr (bs\<lparr>bs_elems := es', bs_graph := g\<lparr>g_head := h, g_entryPoint := en\<rparr>\<rparr>) \<and>
    mem_ok m dim ml ps' (g\<lparr>g_head := h, g_entryPoint := en\<rparr>) es' \<and> mset (indexed es' ps') = add_mset (t, Some v) (mset (indexed es ps)) \<and> length es' = Suc (length es)"
proof -
  let ?p = "length es" and ?es = "es @ [new_element t m l v]"
  have wf: "graph_wf m dim ?es" using ok d by (intro graph_wf_new) (simp_all add: mem_ok_def)
  have b: "\<And>i. i \<in> set ps \<Longrightarrow> i < ?p" using mem_ok_bound [OF ok] by blast
  have R: "nbr_closed ?es (set ps)" by (rule nbr_closed_cong [of es]) (use ok b in \<open>auto simp: mem_ok_def nth_append\<close>)
  have R2: "set ps \<subseteq> {..<length ?es}" using b by (auto simp: less_SucI)
  have en: "x \<in> set ps" if "g_entryPoint g = Some x" for x using ok that by (simp add: mem_ok_def entry_top_def)
  obtain es1 ns where f: "HnswFindElementNeighbors ?es True ?p (g_entryPoint g) None support m (bs_efConstruction bs) False = Inr es1"
      "es1 = ?es[?p := (?es ! ?p)\<lparr>he_neighbors := ns\<rparr>]" "graph_wf m dim es1" "\<forall>lc. hc_element ` set (layer_items es1 lc ?p) \<subseteq> set ps"
    using find_neighbors_memory [OF wf d(1) R R2 _ _ layer_items_new en] b by (metis length_append_singleton lessI less_irrefl)
  let ?e = "(new_element t m l v)\<lparr>he_neighbors := ns\<rparr>"
  have e: "he_heaptids ?e = [t]" "he_value ?e = Some v" "he_level ?e = l" by (simp_all add: new_element_def)
  have n: "with_new ml es ps ?e es1" using f(2,4) l e by (simp add: with_new_def tids_ok_def hnsw_const)
  have "\<exists>es' h en ps'. UpdateGraphInMemory support ?p m (g_entryPoint g) (bs\<lparr>bs_elems := es1\<rparr>) =
        Inr (bs\<lparr>bs_elems := es1\<rparr>\<lparr>bs_elems := es', bs_graph := g\<lparr>g_head := h, g_entryPoint := en\<rparr>\<rparr>) \<and>
      mem_ok m dim ml ps' (g\<lparr>g_head := h, g_entryPoint := en\<rparr>) es' \<and> mset (indexed es' ps') = add_mset (t, Some v) (mset (indexed es ps)) \<and> length es' = length es1"
    by (rule update_graph_ok [OF ok d(1) n f(3) e(1,2)]) (simp_all add: bs(1))
  then show ?thesis using f(1,2) bs by (simp add: InsertTupleInMemory_def)
qed

section \<open>The entries of the written index\<close>

lemma mem_ok_storable:
  assumes ok: "mem_ok m dim (HnswGetMaxLevel m) ps g es" and m: "HNSW_MIN_M \<le> m" "m \<le> HNSW_MAX_M" and dim: "dim \<le> HNSW_MAX_DIM" and p: "p \<in> set ps"
  shows "storable es (es ! p) m"
proof -
  have b: "p < length es" by (rule mem_ok_bound [OF ok p])
  have wf: "graph_wf m dim es" and t: "tids_ok (HnswGetMaxLevel m) (es ! p)" using ok b by (simp_all add: mem_ok_def)
  obtain v where v: "he_value (es ! p) = Some v" "vec_wf v" "v_dim v = dim" using graph_wf_value [OF wf b] by blast
  have "vl_len v = 8 + 4 * dim" using v by (simp add: vec_wf_def VECTOR_SIZE_def)
  then have "nat (vl_len v) \<le> 8008" using dim by (simp add: hnsw_const)
  then have e: "HNSW_ELEMENT_TUPLE_SIZE (nat (vl_len v)) \<le> HNSW_MAX_SIZE" by (simp add: HNSW_ELEMENT_TUPLE_SIZE_def MAXALIGN_def hnsw_const)
  have n: "HNSW_NEIGHBOR_TUPLE_SIZE (he_level (es ! p)) m \<le> HNSW_MAX_SIZE" using t by (intro max_level_tuple [OF m]) (simp add: tids_ok_def)
  have "elem_wf m dim es (es ! p)" using wf b by (simp add: graph_wf_def)
  then obtain ns where ns: "he_neighbors (es ! p) = Some ns" "length ns = Suc (he_level (es ! p))" "\<forall>lc\<le>he_level (es ! p). array_wf m es lc (ns ! lc)"
    by (auto simp: elem_wf_def split: option.splits)
  have "hc_element hc < length es" if a: "a \<in> set ns" "hc \<in> set (na_items a)" for a hc
  proof -
    obtain lc where lc: "lc < length ns" "ns ! lc = a" using a(1) by (auto simp: in_set_conv_nth)
    then have "array_wf m es lc a" using ns(2,3) by auto
    then show ?thesis using a(2) by (simp add: array_wf_def)
  qed
  then have "arrays_ok es (es ! p)" using ns(1,2) by (simp add: arrays_ok_def)
  then show ?thesis using v(1) e n by (simp add: storable_def)
qed

lemma tup_tids_element:
  assumes "he_value e = Some v" "length (he_heaptids e) \<le> HNSW_HEAPTIDS" "\<forall>t\<in>set (he_heaptids e). ItemPointerIsValid t"
  shows "tup_tids (element_data e nt) = he_heaptids e" "packed (element_data e nt)" "tup_entries (element_data e nt) = mset (map (\<lambda>t. (t, v)) (he_heaptids e))"
proof -
  let ?h = "he_heaptids e"
  have h: "map (\<lambda>i. if i < length ?h then ?h ! i else InvalidItemPointer) [0..<HNSW_HEAPTIDS] = ?h @ replicate (HNSW_HEAPTIDS - length ?h) InvalidItemPointer"
    using assms(2) by (intro nth_equalityI) (auto simp: nth_append)
  have tw: "takeWhile ItemPointerIsValid (?h @ replicate k InvalidItemPointer) = ?h" for k
    using assms(3) by (cases k) (simp_all add: takeWhile_append2 ItemPointerIsValid_def InvalidItemPointer_def)
  show tt: "tup_tids (element_data e nt) = ?h" using h tw assms(1,2) by (simp add: tup_tids_def element_data_def HnswSetElementTuple_def)
  have "et_heaptids (element_data e nt) = ?h @ replicate (HNSW_HEAPTIDS - length ?h) InvalidItemPointer"
    using h assms(1) by (simp add: element_data_def HnswSetElementTuple_def)
  then show "packed (element_data e nt)" unfolding packed_def tt using assms(2) by (simp add: ItemPointerIsValid_def InvalidItemPointer_def)
  have "et_data (element_data e nt) = v" using assms(1) by (simp add: element_data_def HnswSetElementTuple_def)
  then show "tup_entries (element_data e nt) = mset (map (\<lambda>t. (t, v)) (he_heaptids e))" using tt by (simp add: tup_entries_def)
qed

text \<open>Pages that hold a copy of the graph have its entries.\<close>

lemma holds_entries:
  assumes h: "holds es0 es N (set ps) r" and l: "located es0 es (set ps)" and ok: "mem_ok m dim ml ps g es0"
    and t: "\<forall>x\<in>set (indexed es0 ps). ItemPointerIsValid (fst x)"
  shows "index_entries r = image_mset (map_prod id the) (mset (indexed es0 ps))"
proof -
  let ?t = "\<lambda>p. elem_tid (es ! p)" and ?d = "\<lambda>p. element_data (es0 ! p) (nbr_tid (es ! p))"
  have ti: "elem_tids r = ?t ` set ps" using h unfolding elem_tids_def holds_def by auto
  have at: "elem_at r (?t p) = ?d p" if "p \<in> set ps" for p
  proof -
    have "at_tid r (?t p) = Inr (ElementTup (?d p))" using h that unfolding holds_def by blast
    then show ?thesis by (simp add: elem_at_def)
  qed
  have en: "tup_entries (?d p) = image_mset (map_prod id the) (mset (map (\<lambda>t. (t, he_value (es0 ! p))) (he_heaptids (es0 ! p))))" if p: "p \<in> set ps" for p
  proof -
    have b: "p < length es0" by (rule mem_ok_bound [OF ok p])
    then obtain v where v: "he_value (es0 ! p) = Some v" using graph_wf_value ok unfolding mem_ok_def by blast
    have "length (he_heaptids (es0 ! p)) \<le> HNSW_HEAPTIDS" using ok b by (simp add: mem_ok_def tids_ok_def)
    moreover have "\<forall>t\<in>set (he_heaptids (es0 ! p)). ItemPointerIsValid t" using t p by (force simp: indexed_def)
    ultimately show ?thesis using tup_tids_element [OF v] by (simp add: v multiset.map_comp comp_def)
  qed
  have "index_entries r = (\<Sum>p\<in>set ps. tup_entries (elem_at r (?t p)))"
    unfolding index_entries_def ti using l by (subst sum.reindex) (simp_all add: located_def)
  also have "\<dots> = (\<Sum>p\<in>set ps. image_mset (map_prod id the) (mset (map (\<lambda>t. (t, he_value (es0 ! p))) (he_heaptids (es0 ! p)))))"
    using at en by (intro sum.cong) simp_all
  also have "\<dots> = sum_list (map (\<lambda>p. image_mset (map_prod id the) (mset (map (\<lambda>t. (t, he_value (es0 ! p))) (he_heaptids (es0 ! p))))) ps)"
    using ok by (intro sum_list_distinct_conv_sum_set [symmetric]) (simp add: mem_ok_def)
  also have "\<dots> = image_mset (map_prod id the) (mset (indexed es0 ps))" by (induction ps) (simp_all add: indexed_def)
  finally show ?thesis .
qed

section \<open>The rows of a build\<close>

text \<open>What the rows of the table contribute: the TID of every row with an indexable value, with the value as the operator class forms it.\<close>

fun row_entries :: "HnswTypeInfo \<Rightarrow> HnswSupport \<Rightarrow> heap_row list \<Rightarrow> (ItemPointerData \<times> Vector) list" where
  "row_entries ti support [] = []"
| "row_entries ti support ((tid, value, level) # rows) =
     (case value of None \<Rightarrow> [] | Some v \<Rightarrow> (case HnswFormIndexValue ti support v of Inr (Some w) \<Rightarrow> [(tid, w)] | _ \<Rightarrow> [])) @ row_entries ti support rows"

text \<open>Rows that a build can index: valid heap TIDs, and values that the operator class accepts as vectors of the dimension or skips.\<close>

definition row_ok :: "HnswTypeInfo \<Rightarrow> HnswSupport \<Rightarrow> int \<Rightarrow> heap_row \<Rightarrow> bool" where
  "row_ok ti support dim row \<longleftrightarrow> (case row of (tid, value, level) \<Rightarrow> ItemPointerIsValid tid \<and>
     (case value of None \<Rightarrow> True | Some v \<Rightarrow> (case HnswFormIndexValue ti support v of Inl _ \<Rightarrow> False | Inr None \<Rightarrow> True | Inr (Some w) \<Rightarrow> vec_wf w \<and> v_dim w = dim)))"

lemma row_entries_valid: "\<forall>row\<in>set rows. row_ok ti support dim row \<Longrightarrow> x \<in> set (row_entries ti support rows) \<Longrightarrow> ItemPointerIsValid (fst x)"
  by (induction rows rule: row_entries.induct) (auto simp: row_ok_def split: option.splits sum.splits)

lemma row_entries_Cons: "row_entries ti support (row # rows) = row_entries ti support [row] @ row_entries ti support rows"
  by (cases row) simp

text \<open>Every element takes at most two new pages.\<close>

lemma blocks_simps:
  "length (rel_blocks (write_page r b p)) = length (rel_blocks r)" "length (rel_blocks (write_meta r mp)) = length (rel_blocks r)"
  by (simp_all add: write_page_def write_meta_def split: list.splits block.splits)

lemma append_tuple_blocks: "append_tuple r b off t = Inr r' \<Longrightarrow> length (rel_blocks r') = length (rel_blocks r)"
  by (auto simp: append_tuple_def rbind_InrE Let_def case_prod_beta blocks_simps split: if_splits)

lemma overwrite_tuple_blocks: "overwrite_tuple r b off t = Inr r' \<Longrightarrow> length (rel_blocks r') = length (rel_blocks r)"
  by (auto simp: overwrite_tuple_def rbind_InrE blocks_simps split: prod.splits if_splits)

lemma append_page_blocks: "HnswBuildAppendPage r b = Inr (b', r') \<Longrightarrow> length (rel_blocks r') = Suc (length (rel_blocks r))"
  by (auto simp: HnswBuildAppendPage_def rbind_InrE HnswNewBuffer_def blocks_simps)

lemma create_element_blocks:
  assumes "create_element m p (r, blk, es) = Inr (r', blk', es')"
  shows "length (rel_blocks r') \<le> length (rel_blocks r) + 2 \<and> length es' = length es"
proof -
  have step: "length (rel_blocks r1) \<le> Suc (length (rel_blocks r0))" if "(if c then HnswBuildAppendPage r0 b else Inr (b, r0)) = Inr (b1, r1)" for c b r0 b1 r1
    using that append_page_blocks by (auto split: if_splits)
  obtain e v where e: "nth_r es p = Inr e" "he_value e = Some v"
    using assms by (auto simp: create_element_def rbind_InrE split: option.splits)
  let ?esz = "HNSW_ELEMENT_TUPLE_SIZE (nat (vl_len v))" and ?nsz = "HNSW_NEIGHBOR_TUPLE_SIZE (he_level e) m"
  have sz: "\<not> ?esz > HNSW_TUPLE_ALLOC_SIZE" by (rule notI) (use assms e in \<open>simp add: create_element_def Let_def\<close>)
  note run = assms [unfolded create_element_def prod.case e rbind_simps option.case Let_def if_not_P [OF sz]]
  obtain et p0 where s0: "HnswSetElementTuple zero_etup e = Inr et" "read_page r blk = Inr p0" using run by (auto simp only: rbind_InrE)
  let ?a = "if ip_free_space p0 < ?esz \<or> ?esz + ?nsz + sizeof_ItemIdData \<le> HNSW_MAX_SIZE \<and> ip_free_space p0 < ?esz + ?nsz + sizeof_ItemIdData
    then HnswBuildAppendPage r blk else Inr (blk, r)"
  obtain b1 r1 where s1: "?a = Inr (b1, r1)" using run unfolding s0 rbind_simps by (cases ?a) auto
  note run1 = run [unfolded s0 rbind_simps s1 prod.case]
  obtain p1 where p1: "read_page r1 b1 = Inr p1" using run1 by (auto simp only: rbind_InrE)
  let ?off = "Suc (length (ip_items p1))"
  obtain np no where np: "(if ?esz + ?nsz + sizeof_ItemIdData \<le> HNSW_MAX_SIZE then (b1, Suc ?off) else (b1 + 1, FirstOffsetNumber)) = (np, no)" by fastforce
  note run2 = run1 [unfolded p1 rbind_simps np prod.case]
  let ?t = "ElementTup (et\<lparr>et_neighbortid := ItemPointerSet np no\<rparr>)"
  obtain r2 where r2: "append_tuple r1 b1 ?off ?t = Inr r2" using run2 by (auto simp only: rbind_InrE)
  note run3 = run2 [unfolded r2 rbind_simps]
  obtain p2 where p2: "read_page r2 b1 = Inr p2" using run3 by (auto simp only: rbind_InrE)
  let ?b = "if ip_free_space p2 < ?nsz then HnswBuildAppendPage r2 b1 else Inr (b1, r2)"
  obtain b3 r3 where r3: "?b = Inr (b3, r3)" using run3 unfolding p2 rbind_simps by (cases ?b) auto
  have "append_tuple r3 b3 no (NeighborTup (placeholder (he_level e) m)) = Inr r'" "length es' = length es"
    using run3 [unfolded p2 rbind_simps r3 prod.case] by (auto simp: rbind_InrE)
  then show ?thesis using step [OF s1] step [OF r3] append_tuple_blocks [OF r2] append_tuple_blocks by fastforce
qed

lemma create_elements_blocks:
  "create_elements fuel m h (r, blk, es) = Inr (r', blk', es') \<Longrightarrow> length (rel_blocks r') \<le> length (rel_blocks r) + 2 * fuel \<and> length es' = length es"
proof (induction fuel arbitrary: h r blk es)
  case 0
  then show ?case by (cases h) simp_all
next
  case (Suc fuel)
  show ?case
  proof (cases h)
    case (Some p)
    then obtain n r1 b1 es1 where "create_element m p (r, blk, es) = Inr (r1, b1, es1)" "create_elements fuel m n (r1, b1, es1) = Inr (r', blk', es')"
      using Suc.prems by (auto simp: rbind_InrE)
    then show ?thesis using create_element_blocks Suc.IH by fastforce
  qed (use Suc.prems in simp)
qed

lemma write_neighbors_blocks: "write_neighbors fuel m es h r = Inr r' \<Longrightarrow> length (rel_blocks r') = length (rel_blocks r)"
proof (induction fuel m es h r rule: write_neighbors.induct)
  case (3 fuel m es p r)
  obtain e n r1 where s: "nth_r es p = Inr e" "HnswSetNeighborTuple es zero_ntup e m = Inr n"
      "overwrite_tuple r (he_neighborPage e) (he_neighborOffno e) (NeighborTup n) = Inr r1" "write_neighbors fuel m es (he_next e) r1 = Inr r'"
    using "3.prems" by (auto simp: rbind_InrE)
  then show ?case using "3.IH" [OF s] overwrite_tuple_blocks [OF s(3)] by simp
qed simp_all

lemma FlushPages_blocks:
  assumes "FlushPages bs = Inr (flushed bs r)" "rel_blocks (bs_index bs) = []"
  shows "length (rel_blocks r) \<le> 2 + 2 * length (bs_elems bs)"
proof -
  let ?r0 = "snd (HnswNewBuffer (CreateMetaPage bs) (GraphBlock HnswInitPage))"
  obtain blk r1 b1 es1 en r2 r3 where c: "create_elements (length (bs_elems bs)) (bs_m bs) (g_head (bs_graph bs)) (?r0, blk, bs_elems bs) = Inr (r1, b1, es1)"
      "HnswUpdateMetaPage r1 UpdateAlways en b1 = Inr r2" "write_neighbors (length es1) (bs_m bs) es1 (g_head (bs_graph bs)) r2 = Inr r3" "r = r3"
  proof -
    obtain bs1 bs2 where f: "CreateGraphPages (bs\<lparr>bs_index := CreateMetaPage bs\<rparr>) = Inr bs1" "WriteNeighborTuples bs1 = Inr bs2" "bs_index bs2 = r"
      using assms(1) by (auto simp: FlushPages_def rbind_InrE flushed_def dest: arg_cong [of _ _ bs_index])
    obtain blk r1 b1 es1 en r2 where c: "create_elements (length (bs_elems bs)) (bs_m bs) (g_head (bs_graph bs)) (?r0, blk, bs_elems bs) = Inr (r1, b1, es1)"
        "HnswUpdateMetaPage r1 UpdateAlways en b1 = Inr r2" "bs1 = bs\<lparr>bs_index := r2, bs_elems := es1\<rparr>"
      using f(1) by (auto simp: CreateGraphPages_def rbind_InrE case_prod_beta)
    show ?thesis using that [OF c(1,2)] f(2,3) c(3) by (auto simp: WriteNeighborTuples_def rbind_InrE)
  qed
  have "length (rel_blocks ?r0) = 2" using assms(2) by (simp add: HnswNewBuffer_def CreateMetaPage_def)
  moreover have "length (rel_blocks r2) = length (rel_blocks r1)" using c(2) by (auto simp: HnswUpdateMetaPage_def rbind_InrE blocks_simps)
  ultimately show ?thesis using create_elements_blocks [OF c(1)] write_neighbors_blocks [OF c(3)] c(4) by simp
qed

text \<open>C12: inserting a tuple into the graph in memory always returns and keeps the graph's invariant (arrays within capacity, neighbours of nodes are nodes
  of the layer, the entry point is a node of the highest level, at most \<open>HNSW_HEAPTIDS\<close> heap TIDs per element); exactly the new heap TID is
  added, under its value, either to a new node or to a node with the same value.\<close>

theorem insert_in_memory:
  assumes "mem_ok (bs_m bs) dim ml ps (bs_graph bs) es" and "dist_ok (bs_support bs) dim" and "vec_wf v" and "v_dim v = dim" and "level \<le> ml"
    and "bs_elems bs = es @ [new_element tid (bs_m bs) level v]"
  shows "\<exists>bs' ps'. InsertTupleInMemory bs (length es) = Inr bs' \<and> mem_ok (bs_m bs) dim ml ps' (bs_graph bs') (bs_elems bs') \<and>
    mset (indexed (bs_elems bs') ps') = add_mset (tid, Some v) (mset (indexed es ps)) \<and> bs_index bs' = bs_index bs"
proof -
  from insert_memory_ok [OF assms(1-5) refl assms(6) refl refl] show ?thesis by fastforce
qed

theorem insert_in_memory_witness:
  "\<exists>bs' ps'. InsertTupleInMemory (pair_build\<lparr>bs_elems := [new_element (ItemPointerSet 7 2) 2 0 one_vec], bs_graph := InitGraph 65536\<rparr>) 0 = Inr bs' \<and>
     mset (indexed (bs_elems bs') ps') = {#(ItemPointerSet 7 2, Some one_vec)#}"
proof -
  let ?bs = "pair_build\<lparr>bs_elems := [new_element (ItemPointerSet 7 2) 2 0 one_vec], bs_graph := InitGraph 65536\<rparr>"
  have ok: "mem_ok (bs_m ?bs) 1 0 [] (bs_graph ?bs) []" by (simp add: mem_ok_def graph_wf_def nbr_closed_def entry_top_def InitGraph_def)
  have e: "bs_elems ?bs = [] @ [new_element (ItemPointerSet 7 2) (bs_m ?bs) 0 one_vec]" by (simp add: pair_build_def)
  have s: "dist_ok (bs_support ?bs) 1" using dist_ok_l2 by (simp add: pair_build_def)
  from insert_in_memory [OF ok s one_vec_wf(1,2) _ e] show ?thesis by (auto simp: indexed_def)
qed

end
