(* ===== verification/HnswDisk.thy ===== *)
theory HnswDisk
  imports HnswScan HnswMemory HnswRepair
begin

text \<open>
  Insertion on disk is correct (\<open>HnswInsertTupleOnDisk\<close> of \<open>src/backend/access/hnsw/hnswinsert.c\<close>): on a well-formed index it returns,
  keeps the index well-formed and adds exactly one entry.
\<close>

section \<open>Elements loaded from the pages\<close>

definition loaded :: "Relation \<Rightarrow> HnswElementData \<Rightarrow> bool" where
  "loaded r e \<longleftrightarrow> (\<exists>et. tup_at r (he_blkno e) (he_offno e) = Inr (ElementTup et) \<and> he_level e = et_level et \<and> he_version e = et_version et \<and>
     he_neighborPage e = ip_blkid (et_neighbortid et) \<and> he_neighborOffno e = ip_posid (et_neighbortid et) \<and> he_value e = Some (et_data et) \<and>
     he_heaptids e = tup_tids et)"

lemma loaded_tuple:
  "tup_at r b off = Inr (ElementTup et) \<Longrightarrow> he_blkno e = b \<Longrightarrow> he_offno e = off \<Longrightarrow> loaded r (HnswLoadElementFromTuple e et True True)"
  by (simp add: loaded_def HnswLoadElementFromTuple_def Let_def tup_tids_def)

lemma element_tuple_tup: "read_page r b = Inr p \<Longrightarrow> element_tuple p off = Inr et \<Longrightarrow> tup_at r b off = Inr (ElementTup et)"
  by (simp add: tup_at_def element_tuple_at)

section \<open>Candidates of an insertion\<close>

text \<open>Candidates for the neighbours of the element \<open>p\<close> of the store: loaded elements of the layer in other cells.\<close>

definition ents :: "eptr \<Rightarrow> Vector \<Rightarrow> HnswSupport \<Rightarrow> nat \<Rightarrow> Relation \<Rightarrow> elems \<Rightarrow> HnswSearchCandidate list \<Rightarrow> bool" where
  "ents p q support lc r es ep \<longleftrightarrow> ep \<noteq> [] \<and> distinct (map (sc_tid es) ep) \<and>
     (\<forall>sc\<in>set ep. disk_entry_ok (Some q) support lc r es sc \<and> sc_element sc \<noteq> p \<and> loaded r (es ! sc_element sc))"

lemma ents_lower: "ents p q support lc r es ep \<Longrightarrow> lc' \<le> lc \<Longrightarrow> ents p q support lc' r es ep"
  using disk_entry_lower by (auto simp: ents_def)

text \<open>A search loads elements into new cells, so it never reaches the cell \<open>p\<close>: the pages without it are a layer, too.\<close>

lemma load_impl_fresh:
  "HnswLoadElementImpl es b off True q r s True mx None = Inr (d, x, es') \<Longrightarrow> grows es es' \<and> (x = None \<or> x = Some (length es) \<and> loaded r (es' ! length es))"
proof -
  assume a: "HnswLoadElementImpl es b off True q r s True mx None = Inr (d, x, es')"
  then obtain pg et where et: "read_page r b = Inr pg" "element_tuple pg off = Inr et"
      and x: "x = None \<and> es' = es \<or> x = Some (length es) \<and> es' = es @ [HnswLoadElementFromTuple (HnswInitElementFromBlock b off) et True True]"
    by (auto simp: HnswLoadElementImpl_def rbind_InrE split: if_splits)
  have "loaded r (HnswLoadElementFromTuple (HnswInitElementFromBlock b off) et True True)"
    by (rule loaded_tuple [OF element_tuple_tup [OF et]]) (simp_all add: HnswInitElementFromBlock_def)
  then show ?thesis using x by auto
qed

lemma load_unvisited_fresh:
  assumes "load_unvisited env st d u = Inr (x, e, es')" "se_index env = Some r" "se_inserting env"
  shows "grows (ss_elems st) es' \<and> (x = None \<or> x = Some (length (ss_elems st)) \<and> loaded r (es' ! length (ss_elems st)))"
proof -
  obtain tid where "u = UTid tid" using assms by (cases u) (simp_all add: load_unvisited_def)
  then obtain mx where "HnswLoadElementImpl (ss_elems st) (ip_blkid tid) (ip_posid tid) True (se_q env) r (se_support env) True mx None = Inr (Some e, x, es')"
    using assms by (auto simp: load_unvisited_def rbind_InrE split: option.splits if_splits)
  then show ?thesis by (rule load_impl_fresh)
qed

definition cell_known :: "eptr \<Rightarrow> search_env \<Rightarrow> elems \<Rightarrow> eptr \<Rightarrow> bool" where
  "cell_known p env es q \<longleftrightarrow> disk_known env es q \<and> q \<noteq> p \<and> (\<forall>r. se_index env = Some r \<longrightarrow> loaded r (es ! q))"

interpretation around: layer_graph "\<lambda>env es. disk_good env es \<and> p < length es \<and> se_inserting env" "cell_known p" disk_valid
  "\<lambda>env es p. VTid (ItemPointerSet (he_blkno (es ! p)) (he_offno (es ! p)))" disk_D disk_N for p
proof (unfold_locales, goal_cases)
  case (1 env es q)
  then show ?case using disk.known_valid [of env es q] by (simp add: cell_known_def)
next
  case (2 env es k)
  then show ?case using disk.valid_notnan by blast
next
  case (3 env es k k')
  then show ?case using disk.valid_nbr by blast
next
  case (4 env es q)
  then show ?case using disk.visited_key [of env es q] by (simp add: cell_known_def)
next
  case (5 env st c)
  then show ?case using disk.load_nbrs [of env st c] by (simp add: cell_known_def)
next
  case (6 env st u fd)
  obtain r where r: "se_index env = Some r" using 6(1) by (auto simp: disk_good_def split: option.splits)
  obtain x es' where l: "load_unvisited env st fd u = Inr (x, disk_D env (ss_elems st) (ukey u), es')" "disk_good env es'"
      "disk_D env es' = disk_D env (ss_elems st)" "disk_N env es' = disk_N env (ss_elems st)" "disk_valid env es' = disk_valid env (ss_elems st)"
      "\<forall>q. disk_known env (ss_elems st) q \<longrightarrow> disk_known env es' q \<and>
        VTid (ItemPointerSet (he_blkno (es' ! q)) (he_offno (es' ! q))) = VTid (ItemPointerSet (he_blkno (ss_elems st ! q)) (he_offno (ss_elems st ! q)))"
      "case x of None \<Rightarrow> \<not> ss_wlen st < se_ef env \<and> ss_discarded st = None \<and> \<not> f8_lt (disk_D env (ss_elems st) (ukey u)) fd
         | Some q \<Rightarrow> disk_known env es' q \<and> VTid (ItemPointerSet (he_blkno (es' ! q)) (he_offno (es' ! q))) = ukey u"
    using disk.load_unv 6 by blast
  have f: "grows (ss_elems st) es'" "x = None \<or> x = Some (length (ss_elems st)) \<and> loaded r (es' ! length (ss_elems st))"
    using load_unvisited_fresh [OF l(1) r] 6(1) by blast+
  have p: "p < length es'" "p \<noteq> length (ss_elems st)" using grows_length [OF f(1)] 6(1) by simp_all
  have "cell_known p env es' q" if "cell_known p env (ss_elems st) q" for q
  proof -
    have "q < length (ss_elems st)" using that by (auto simp: cell_known_def disk_known_def)
    then show ?thesis using that l(6) grows_nth [OF f(1)] by (simp add: cell_known_def)
  qed
  moreover have "cell_known p env es' q" if "x = Some q" for q using that l(7) f(2) p(2) r by (simp add: cell_known_def)
  ultimately show ?case using l 6(1) p(1) by (intro exI [of _ x] exI [of _ es']) (auto simp: cell_known_def split: option.splits)
qed

lemma search_ents:
  assumes pg: "pages_ok (Some q) support m lc r" and e: "ents p q support lc r es ep" and p: "p < length es"
  shows "\<exists>w st. HnswSearchLayer (search_env_for (Some q) ef lc (Some r) support m True skip) es ep None None True None = Inr (w, st) \<and>
    ents p q support lc r (ss_elems st) w \<and> grows es (ss_elems st)"
proof -
  let ?env = "search_env_for (Some q) ef lc (Some r) support m True skip"
  have key: "(\<lambda>sc. VTid (ItemPointerSet (he_blkno (es ! sc_element sc)) (he_offno (es ! sc_element sc)))) = VTid \<circ> sc_tid es" for es
    by (simp add: fun_eq_iff sc_tid_def)
  have i: "se_index ?env = Some r" "se_inserting ?env" by (simp_all add: search_env_for_def)
  have snd: "around.sound p ?env es sc \<longleftrightarrow> disk_entry_ok (Some q) support lc r es sc \<and> sc_element sc \<noteq> p \<and> loaded r (es ! sc_element sc)" for es sc
    using disk_entry_sound [OF pg, of ef True skip es sc] i by (auto simp: around.sound_def disk.sound_def cell_known_def)
  have g: "disk_good ?env es \<and> p < length es \<and> se_inserting ?env" using pg p pages_ok_good i by blast
  have ne: "ep \<noteq> []" and s: "\<And>sc. sc \<in> set ep \<Longrightarrow> around.sound p ?env es sc" using e unfolding ents_def snd by blast+
  have dk: "distinct (map (\<lambda>sc. VTid (ItemPointerSet (he_blkno (es ! sc_element sc)) (he_offno (es ! sc_element sc)))) ep)"
    unfolding key using e by (simp add: ents_def distinct_map inj_on_def)
  obtain w st where w: "HnswSearchLayer ?env es ep None None True None = Inr (w, st)" "around.result_ok p ?env {} (length ep) w st"
    using around.search_correct [OF g ne s dk, where R = UNIV and v = None and d = None and tuples = None]
    unfolding around.closed_set_def by blast
  note r' = w(2) [unfolded around.result_ok_def]
  have d: "distinct (map (VTid \<circ> sc_tid (ss_elems st)) w)" using r' unfolding key by blast
  then have "distinct (map (sc_tid (ss_elems st)) w)" by (auto simp: distinct_map inj_on_def)
  then have "ents p q support lc r (ss_elems st) w" using r' snd unfolding ents_def by blast
  moreover have "grows es (ss_elems st)" by (rule HnswSearchLayer_grows [OF w(1)]) (rule i(1))
  ultimately show ?thesis using w(1) by blast
qed

lemma ents_element:
  assumes "ents p q support lc r es ep" "sc \<in> set ep"
  shows "sc_element sc \<noteq> p" "sc_element sc < length es" "live_tid r lc (elem_tid (es ! sc_element sc))" "loaded r (es ! sc_element sc)"
  using assms by (auto simp: ents_def disk_entry_ok_def disk_known_def search_env_for_def elem_tid_def)

lemma descent_ents:
  assumes pg: "\<And>lc. pages_ok (Some q) support m lc r"
  shows "ents p q support hi r es ep \<Longrightarrow> sorted_wrt (\<ge>) (hi # lcs) \<Longrightarrow> p < length es \<Longrightarrow>
    \<exists>w es'. greedy_descent (Some q) (Some r) support m True skip lcs ep es = Inr (w, es') \<and> ents p q support (last (hi # lcs)) r es' w \<and> grows es es'"
proof (induction lcs arbitrary: hi ep es)
  case (Cons lc lcs)
  have "ents p q support lc r es ep" using ents_lower [OF Cons.prems(1)] Cons.prems(2) by simp
  then obtain w st where s: "HnswSearchLayer (search_env_for (Some q) 1 lc (Some r) support m True skip) es ep None None True None = Inr (w, st)"
      "ents p q support lc r (ss_elems st) w" "grows es (ss_elems st)"
    using search_ents [OF pg _ Cons.prems(3)] by blast
  have "p < length (ss_elems st)" using grows_length [OF s(3)] Cons.prems(3) by simp
  then obtain w' es' where "greedy_descent (Some q) (Some r) support m True skip lcs w (ss_elems st) = Inr (w', es')" "ents p q support (last (lc # lcs)) r es' w'" "grows (ss_elems st) es'"
    using Cons.IH [OF s(2)] Cons.prems(2) by auto
  then show ?case using s(1) grows_trans [OF s(3)] by auto
qed auto

text \<open>The element itself and elements without heap TIDs are no neighbours.\<close>

definition kept_cand :: "elems \<Rightarrow> eptr option \<Rightarrow> HnswCandidate \<Rightarrow> bool" where
  "kept_cand es skip hc \<longleftrightarrow> he_heaptids (es ! hc_element hc) \<noteq> [] \<and> (\<forall>s. skip = Some s \<longrightarrow> elem_tid (es ! hc_element hc) \<noteq> elem_tid (es ! s))"

lemma RemoveElements_total:
  "\<forall>hc\<in>set cs. hc_element hc < length es \<Longrightarrow> \<forall>s. skip = Some s \<longrightarrow> s < length es \<Longrightarrow> RemoveElements es cs skip = Inr (filter (kept_cand es skip) cs)"
  by (induction cs) (auto simp: kept_cand_def elem_tid_def split: option.splits)

section \<open>A well-formed index on disk\<close>

lemma tid_tuple_at: "tid_tuple r t = Inr et \<longleftrightarrow> at_tid r t = Inr (ElementTup et)"
  by (auto simp: tid_tuple_def tup_at_def rbind_InrE element_tuple_at)

lemma live_tid_iff: "live_tid r lc t \<longleftrightarrow> (\<exists>et. at_tid r t = Inr (ElementTup et) \<and> et_deleted et = 0 \<and> lc \<le> et_level et)"
  by (cases "tid_tuple r t") (auto simp: live_tid_def tid_tuple_at [symmetric])

text \<open>The slots of a neighbour tuple: as many as the level asks for, and the used ones of a layer point at elements of that layer.\<close>

definition slots_ok :: "nat \<Rightarrow> Relation \<Rightarrow> nat \<Rightarrow> ItemPointerData list \<Rightarrow> bool" where
  "slots_ok m r level tids \<longleftrightarrow> length tids = (level + 2) * m \<and>
     (\<forall>lc\<le>level. \<forall>i<HnswGetLayerM m lc. ItemPointerIsValid (tids ! ((level - lc) * m + i)) \<longrightarrow> live_tid r lc (tids ! ((level - lc) * m + i)))"

text \<open>An element tuple is marked deleted and has no heap TIDs, or it holds a vector of the dimension of the index and a proper list of neighbours.
  While a VACUUM is running (\<open>vac\<close>) there are elements without heap TIDs that are not marked yet.\<close>

definition tuple_ok :: "bool \<Rightarrow> nat \<Rightarrow> int \<Rightarrow> Relation \<Rightarrow> HnswElementTupleData \<Rightarrow> bool" where
  "tuple_ok vac m dim r et \<longleftrightarrow> (if et_deleted et \<noteq> 0 then tup_tids et = []
     else vec_wf (et_data et) \<and> v_dim (et_data et) = dim \<and> et_level et \<le> HnswGetMaxLevel m \<and> packed et \<and> (vac \<or> tup_tids et \<noteq> []) \<and>
       (\<exists>n. nbr_at r et = Inr (NeighborTup n) \<and> slots_ok m r (et_level et) (nt_indextids n)))"

definition graph_ok :: "bool \<Rightarrow> nat \<Rightarrow> int \<Rightarrow> Relation \<Rightarrow> bool" where
  "graph_ok vac m dim r \<longleftrightarrow> HNSW_MIN_M \<le> m \<and> m \<le> HNSW_MAX_M \<and> rel_wf r \<and> seq_chain r \<and> linked r \<and>
     (\<forall>b off et. tup_at r b off = Inr (ElementTup et) \<longrightarrow> tuple_ok vac m dim r et)"

lemma graph_ok_live:
  assumes "graph_ok vac m dim r" "live_tid r lc t"
  obtains et n where "at_tid r t = Inr (ElementTup et)" "et_deleted et = 0" "lc \<le> et_level et" "vec_wf (et_data et)" "v_dim (et_data et) = dim"
    "packed et" "et_level et \<le> HnswGetMaxLevel m" "nbr_at r et = Inr (NeighborTup n)" "nt_count n = (et_level et + 2) * m" "nt_version n = et_version et"
    "slots_ok m r (et_level et) (nt_indextids n)"
proof -
  obtain et where et: "at_tid r t = Inr (ElementTup et)" "et_deleted et = 0" "lc \<le> et_level et" using assms(2) by (auto simp: live_tid_iff)
  have l: "linked r" and k: "tuple_ok vac m dim r et" using assms(1) et(1) unfolding graph_ok_def by blast+
  obtain n where n: "nbr_at r et = Inr (NeighborTup n)" "nt_count n = length (nt_indextids n)" "nt_version n = et_version et" by (rule linkedD [OF l et(1)])
  have s: "slots_ok m r (et_level et) (nt_indextids n)" using k n(1) et(2) by (auto simp: tuple_ok_def)
  then have "nt_count n = (et_level et + 2) * m" using n(2) by (simp add: slots_ok_def)
  then show thesis using that [OF et _ _ _ _ n(1) _ n(3) s] k et(2) by (simp add: tuple_ok_def)
qed

lemma live_slice:
  assumes g: "graph_ok vac m dim r" and t: "live_tid r lc t" "tid_tuple r t = Inr et"
  shows "\<exists>tids. tid_slice r m lc et = Inr (Some tids) \<and> length tids = HnswGetLayerM m lc \<and> (\<forall>x\<in>set tids. ItemPointerIsValid x \<longrightarrow> live_tid r lc x)"
proof -
  obtain n where n: "lc \<le> et_level et" "nbr_at r et = Inr (NeighborTup n)" "nt_count n = (et_level et + 2) * m" "nt_version n = et_version et"
      "slots_ok m r (et_level et) (nt_indextids n)"
    using graph_ok_live [OF g t(1)] t(2) unfolding tid_tuple_at by (metis sum.inject(2) HnswTuple.inject(1))
  let ?s = "(et_level et - lc) * m" and ?lm = "HnswGetLayerM m lc"
  have len: "length (nt_indextids n) = (et_level et + 2) * m" using n(5) by (simp add: slots_ok_def)
  have b: "?s + ?lm \<le> length (nt_indextids n)" unfolding len by (rule layer_bound [OF n(1)])
  obtain p where p: "read_page r (ip_blkid (et_neighbortid et)) = Inr p" "neighbor_tuple p (ip_posid (et_neighbortid et)) = Inr n"
    using n(2) by (auto simp: tup_at_def neighbor_tuple_at rbind_InrE)
  have "tid_slice r m lc et = Inr (Some (take ?lm (drop ?s (nt_indextids n))))"
    using p n(1,3,4) b by (simp add: tid_slice_def HnswLoadNeighborTids_def HnswLoadElementFromTuple_def Let_def)
  moreover have "live_tid r lc x" if x: "x \<in> set (take ?lm (drop ?s (nt_indextids n)))" "ItemPointerIsValid x" for x
  proof -
    obtain i where "i < ?lm" "x = nt_indextids n ! (?s + i)" using x(1) b by (auto simp: in_set_conv_nth)
    then show ?thesis using n(1,5) x(2) unfolding slots_ok_def by blast
  qed
  ultimately show ?thesis using b by auto
qed

lemma graph_pages_ok:
  assumes g: "graph_ok vac m dim r" and d: "dist_ok support dim" "vec_wf q" "v_dim q = dim"
  shows "pages_ok (Some q) support m lc r"
proof -
  have "(\<exists>d. tid_distance (Some q) support r t = Inr d \<and> \<not> f8_isnan d) \<and> (\<forall>et. tid_tuple r t = Inr et \<longrightarrow> (\<exists>s. tid_slice r m lc et = Inr s) \<and>
      (\<forall>t'\<in>tid_nbrs r m lc et. live_tid r lc t'))" if t: "live_tid r lc t" for t
  proof (intro conjI allI impI)
    obtain et n where et: "at_tid r t = Inr (ElementTup et)" "vec_wf (et_data et)" "v_dim (et_data et) = dim" by (rule graph_ok_live [OF g t])
    then show "\<exists>d. tid_distance (Some q) support r t = Inr d \<and> \<not> f8_isnan d"
      using d by (simp add: tid_distance_def tid_tuple_at [THEN iffD2] HnswGetDistance_def dist_ok_def)
    fix et assume et: "tid_tuple r t = Inr et"
    note sl = live_slice [OF g t et]
    then show "\<exists>s. tid_slice r m lc et = Inr s" by blast
    show "\<forall>t'\<in>tid_nbrs r m lc et. live_tid r lc t'" using sl set_takeWhileD by (fastforce simp: tid_nbrs_def)
  qed
  moreover have "HnswGetLayerM m lc \<le> HNSW_MAX_M * 2" using g by (simp add: graph_ok_def HnswGetLayerM_def)
  ultimately show ?thesis by (simp add: pages_ok_def disk_good_def search_env_for_def)
qed

section \<open>Connecting the new element\<close>

text \<open>The neighbour arrays of the element \<open>p\<close>.\<close>

definition arr_ok :: "eptr \<Rightarrow> nat \<Rightarrow> Relation \<Rightarrow> elems \<Rightarrow> nat \<Rightarrow> HnswNeighborArray \<Rightarrow> bool" where
  "arr_ok p m r es lc a \<longleftrightarrow> na_cap a = HnswGetLayerM m lc \<and> length (na_items a) \<le> HnswGetLayerM m lc \<and>
     (\<forall>hc\<in>set (na_items a). hc_element hc \<noteq> p \<and> hc_element hc < length es \<and> loaded r (es ! hc_element hc) \<and> live_tid r lc (elem_tid (es ! hc_element hc)) \<and>
        he_heaptids (es ! hc_element hc) \<noteq> [])"

definition new_ok :: "eptr \<Rightarrow> nat \<Rightarrow> Relation \<Rightarrow> elems \<Rightarrow> bool" where
  "new_ok p m r es \<longleftrightarrow> (\<exists>ns. he_neighbors (es ! p) = Some ns \<and> length ns = Suc (he_level (es ! p)) \<and> (\<forall>lc\<le>he_level (es ! p). arr_ok p m r es lc (ns ! lc)))"

lemma arr_ok_grows: "arr_ok p m r es lc a \<Longrightarrow> grows es es' \<Longrightarrow> arr_ok p m r es' lc a"
  using grows_length [of es es'] grows_nth [of es es'] by (fastforce simp: arr_ok_def)

lemma new_ok_grows: "new_ok p m r es \<Longrightarrow> p < length es \<Longrightarrow> grows es es' \<Longrightarrow> new_ok p m r es'"
  using grows_nth [of es es' p] arr_ok_grows [of p m r es _ _ es'] unfolding new_ok_def by (metis (no_types, lifting))

lemma arr_ok_head: "arr_ok p m r (es[p := e]) lc a \<longleftrightarrow> arr_ok p m r es lc a"
  unfolding arr_ok_def by (intro conj_cong refl ball_cong) auto

lemma new_ok_neighbors: "new_ok p m r es \<Longrightarrow> lc \<le> he_level (es ! p) \<Longrightarrow> \<exists>a. HnswGetNeighbors (es ! p) lc = Inr a \<and> arr_ok p m r es lc a"
  by (auto simp: new_ok_def HnswGetNeighbors_def)

lemma new_ok_set:
  assumes n: "new_ok p m r es" and es: "p < length es" and a: "arr_ok p m r es lc a" and lc: "lc \<le> he_level (es ! p)"
  shows "new_ok p m r (es[p := set_neighbors (es ! p) lc a])"
proof -
  obtain ns where ns: "he_neighbors (es ! p) = Some ns" "length ns = Suc (he_level (es ! p))" "\<forall>lc\<le>he_level (es ! p). arr_ok p m r es lc (ns ! lc)"
    using n by (auto simp: new_ok_def)
  have "arr_ok p m r es l (ns[lc := a] ! l)" if "l \<le> he_level (es ! p)" for l
    using that ns(2,3) a lc by (cases "l = lc") auto
  then show ?thesis using ns(1,2) es unfolding new_ok_def arr_ok_head by (simp add: set_neighbors_def)
qed

lemma ents_head:
  assumes "ents p q support lc r es ep"
  shows "ents p q support lc r (es[p := e]) ep"
proof -
  have ne: "sc_element sc \<noteq> p" if "sc \<in> set ep" for sc using assms that by (simp add: ents_def)
  have s: "sc_tid (es[p := e]) sc = sc_tid es sc" if "sc \<in> set ep" for sc using ne [OF that] by (simp add: sc_tid_def)
  have m: "map (sc_tid (es[p := e])) ep = map (sc_tid es) ep" using s by simp
  have "disk_entry_ok (Some q) support lc r (es[p := e]) sc \<and> loaded r (es[p := e] ! sc_element sc)" if sc: "sc \<in> set ep" for sc
  proof -
    have n: "es[p := e] ! sc_element sc = es ! sc_element sc" using ne [OF sc] by simp
    show ?thesis using assms sc unfolding ents_def disk_entry_ok_def disk_known_def n length_list_update s [OF sc] by blast
  qed
  then show ?thesis using assms unfolding ents_def m by blast
qed

lemma loaded_cands:
  assumes g: "graph_ok vac m dim r" and i: "\<forall>hc\<in>set cs. hc_element hc < length es \<and> loaded r (es ! hc_element hc) \<and> live_tid r lc (elem_tid (es ! hc_element hc))"
  shows "cands_ok es dim cs"
  unfolding cands_ok_def
proof (intro ballI)
  fix hc assume hc: "hc \<in> set cs"
  then have l: "hc_element hc < length es" "loaded r (es ! hc_element hc)" "live_tid r lc (elem_tid (es ! hc_element hc))" using i by simp_all
  obtain et n where et: "at_tid r (elem_tid (es ! hc_element hc)) = Inr (ElementTup et)" "vec_wf (et_data et)" "v_dim (et_data et) = dim"
    by (rule graph_ok_live [OF g l(3)])
  then have "he_value (es ! hc_element hc) = Some (et_data et)" using l(2) by (auto simp: loaded_def elem_tid_def ItemPointerSet_def)
  then show "\<exists>v. cand_value es hc = Inr v \<and> vec_wf v \<and> v_dim v = dim" using l(1) et(2,3) by (simp add: cand_value_def)
qed

lemma disk_connect_layer:
  assumes g: "graph_ok vac m dim r" and d: "dist_ok support dim" "vec_wf q" "v_dim q = dim" and p: "p < length es" and sk: "\<forall>s. skip = Some s \<longrightarrow> s < length es" and ep: "ents p q support lc r es ep"
    and a: "HnswGetNeighbors (es ! p) lc = Inr a" "na_items a = []" "na_cap a = HnswGetLayerM m lc"
  shows "\<exists>w es1 a'. ents p q support lc r es1 w \<and> grows es es1 \<and> arr_ok p m r es1 lc a' \<and>
    connect_layers bn (Some q) ef (Some r) support m skip p (lc # lcs) ep es =
      connect_layers bn (Some q) ef (Some r) support m skip p lcs w (es1[p := set_neighbors (es1 ! p) lc a'])"
proof -
  obtain w st where w: "HnswSearchLayer (search_env_for (Some q) ef lc (Some r) support m True skip) es ep None None True None = Inr (w, st)"
      "ents p q support lc r (ss_elems st) w" "grows es (ss_elems st)"
    using search_ents [OF graph_pages_ok [OF g d] ep p] by blast
  define es1 where "es1 = ss_elems st"
  have s1: "p < length es1" "es1 ! p = es ! p" "length es \<le> length es1" using grows_length [OF w(3)] grows_nth [OF w(3) p] p by (simp_all add: es1_def)
  note el = ents_element [OF w(2) [folded es1_def]]
  define c where "c = filter (kept_cand es1 skip) (map to_candidate w)"
  have c: "\<forall>hc\<in>set c. hc_element hc \<noteq> p \<and> he_heaptids (es1 ! hc_element hc) \<noteq> [] \<and> hc_element hc < length es1 \<and> loaded r (es1 ! hc_element hc) \<and> live_tid r lc (elem_tid (es1 ! hc_element hc))"
    using el by (fastforce simp: c_def to_candidate_def kept_cand_def)
  have rm: "RemoveElements es1 (map to_candidate w) skip = Inr c"
    unfolding c_def using el(2) sk s1(3) by (intro RemoveElements_total) (auto simp: to_candidate_def)
  have ok: "cands_ok es1 dim c" using c by (intro loaded_cands [OF g]) blast
  obtain ri pr cs cl where sel: "SelectNeighbors es1 bn c (HnswGetLayerM m lc) support (na_closerSet a) None False False = Inr (ri, pr, cs, cl)"
      "same_cands c cs" "length ri = min (HnswGetLayerM m lc) (length c)" "set ri \<subseteq> {..<length c}"
    using SelectNeighbors_total [OF d(1) ok, of bn "HnswGetLayerM m lc" "na_closerSet a" None False False] by blast
  let ?a = "a\<lparr>na_closerSet := cl, na_items := na_items a @ map ((!) cs) ri\<rparr>"
  have el': "hc_element hc \<in> hc_element ` set c" if hc: "hc \<in> set (map ((!) cs) ri)" for hc
  proof -
    obtain i where i: "i < length c" "hc = cs ! i" using hc sel(4) by auto
    then show ?thesis using same_cands_nth [OF sel(2) i(1)] by simp
  qed
  have "arr_ok p m r es1 lc ?a" unfolding arr_ok_def
  proof (intro conjI ballI)
    fix hc assume "hc \<in> set (na_items ?a)"
    then have "hc_element hc \<in> hc_element ` set c" using el' a(2) by simp
    then show "hc_element hc \<noteq> p" "hc_element hc < length es1" "loaded r (es1 ! hc_element hc)" "live_tid r lc (elem_tid (es1 ! hc_element hc))" "he_heaptids (es1 ! hc_element hc) \<noteq> []" using c by auto
  qed (use a(2,3) sel(3) in simp_all)
  moreover have "connect_layers bn (Some q) ef (Some r) support m skip p (lc # lcs) ep es =
      connect_layers bn (Some q) ef (Some r) support m skip p lcs w (es1[p := set_neighbors (es1 ! p) lc ?a])"
  proof -
    have "length (na_items a) + length (map ((!) cs) ri) \<le> na_cap a" using a(2,3) sel(3) by simp
    from connect_eq [OF s1(1) _ this, of lc cl] show ?thesis
      using w(1) rm sel(1) a(1) s1(1,2) by (simp add: es1_def [symmetric])
  qed
  ultimately show ?thesis using w(2,3) unfolding es1_def by blast
qed

lemma disk_connect_layers:
  assumes g: "graph_ok vac m dim r" and d: "dist_ok support dim" "vec_wf q" "v_dim q = dim"
  shows "\<lbrakk>p < length es; \<forall>s. skip = Some s \<longrightarrow> s < length es; new_ok p m r es; ents p q support hi r es ep; sorted_wrt (>) lcs;
     \<forall>lc\<in>set lcs. lc \<le> hi \<and> lc \<le> he_level (es ! p) \<and> (\<exists>a. HnswGetNeighbors (es ! p) lc = Inr a \<and> na_items a = [])\<rbrakk> \<Longrightarrow>
   \<exists>es' ns. connect_layers bn (Some q) ef (Some r) support m skip p lcs ep es = Inr es' \<and> new_ok p m r es' \<and>
     es' ! p = (es ! p)\<lparr>he_neighbors := ns\<rparr> \<and> length es \<le> length es'"
proof (induction lcs arbitrary: es hi ep)
  case Nil
  then show ?case by (intro exI [of _ es] exI [of _ "he_neighbors (es ! p)"]) simp
next
  case (Cons lc lcs)
  have lc: "lc \<le> hi" "lc \<le> he_level (es ! p)" using Cons.prems(6) by simp_all
  obtain a where a: "HnswGetNeighbors (es ! p) lc = Inr a" "na_items a = []" using Cons.prems(6) by auto
  have cap: "na_cap a = HnswGetLayerM m lc" using new_ok_neighbors [OF Cons.prems(3) lc(2)] a(1) by (auto simp: arr_ok_def)
  obtain w es1 a' where s: "ents p q support lc r es1 w" "grows es es1" "arr_ok p m r es1 lc a'"
      "connect_layers bn (Some q) ef (Some r) support m skip p (lc # lcs) ep es =
        connect_layers bn (Some q) ef (Some r) support m skip p lcs w (es1[p := set_neighbors (es1 ! p) lc a'])"
    using disk_connect_layer [OF g d Cons.prems(1,2) ents_lower [OF Cons.prems(4) lc(1)] a cap, of bn ef lcs] by blast
  have s1: "p < length es1" "es1 ! p = es ! p" "length es \<le> length es1" using grows_length [OF s(2)] grows_nth [OF s(2) Cons.prems(1)] Cons.prems(1) by simp_all
  let ?es = "es1[p := set_neighbors (es1 ! p) lc a']"
  have h: "?es ! p = (es ! p)\<lparr>he_neighbors := map_option (\<lambda>ns. ns[lc := a']) (he_neighbors (es ! p))\<rparr>" using s1(1,2) by (simp add: set_neighbors_def)
  have i1: "p < length ?es" using s1(1) by simp
  have n1: "new_ok p m r ?es" using new_ok_set [OF new_ok_grows [OF Cons.prems(3,1) s(2)] s1(1) s(3)] lc(2) s1(2) by simp
  have e1: "ents p q support lc r ?es w" by (rule ents_head [OF s(1)])
  have oth: "HnswGetNeighbors (?es ! p) l = HnswGetNeighbors (es ! p) l" if "l < lc" for l
    unfolding h using that by (simp add: HnswGetNeighbors_def nth_r_def split: option.splits)
  have hl: "he_level (?es ! p) = he_level (es ! p)" by (simp add: h)
  have lo: "\<forall>l\<in>set lcs. l \<le> lc \<and> l \<le> he_level (?es ! p) \<and> (\<exists>a. HnswGetNeighbors (?es ! p) l = Inr a \<and> na_items a = [])"
    using Cons.prems(5,6) oth unfolding hl by auto
  have sk: "\<forall>s. skip = Some s \<longrightarrow> s < length ?es" using Cons.prems(2) s1(3) by auto
  from Cons.IH [OF i1 sk n1 e1 _ lo] Cons.prems(5) obtain es' ns where r: "connect_layers bn (Some q) ef (Some r) support m skip p lcs w ?es = Inr es'"
      "new_ok p m r es'" "es' ! p = (?es ! p)\<lparr>he_neighbors := ns\<rparr>" "length ?es \<le> length es'" by auto
  have "es' ! p = (es ! p)\<lparr>he_neighbors := ns\<rparr>" using r(3) unfolding h by simp
  then show ?case using s(4) r s1(3) by auto
qed

section \<open>The neighbours of a new element\<close>

text \<open>An element with empty neighbour arrays.\<close>

definition unconnected :: "nat \<Rightarrow> Vector \<Rightarrow> HnswElementData \<Rightarrow> bool" where
  "unconnected m q e \<longleftrightarrow> he_value e = Some q \<and> he_neighbors e = Some (map (\<lambda>lc. HnswInitNeighborArray (HnswGetLayerM m lc)) [0..<Suc (he_level e)])"

lemma unconnected_new: "unconnected m q (new_element tid m level q)"
  by (simp add: unconnected_def new_element_def)

lemma unconnected_ok: "unconnected m q (es ! p) \<Longrightarrow> new_ok p m r es"
  unfolding new_ok_def unconnected_def by (simp add: arr_ok_def HnswInitNeighborArray_def del: upt_Suc)

lemma unconnected_neighbors: "unconnected m q e \<Longrightarrow> lc \<le> he_level e \<Longrightarrow> HnswGetNeighbors e lc = Inr (HnswInitNeighborArray (HnswGetLayerM m lc))"
  by (simp add: unconnected_def HnswGetNeighbors_def del: upt_Suc)

lemma find_neighbors_at:
  assumes g: "graph_ok vac m dim r" and d: "dist_ok support dim" "vec_wf q" "v_dim q = dim"
    and p: "p < length es" "unconnected m q (es ! p)" and en: "en < length es" "en \<noteq> p"
    and et: "tup_at r (he_blkno (es ! en)) (he_offno (es ! en)) = Inr (ElementTup et)" "et_deleted et = 0"
  shows "\<exists>es' ns. HnswFindElementNeighbors es True p (Some en) (Some r) support m efc existing = Inr es' \<and>
    new_ok p m r es' \<and> es' ! p = (es ! p)\<lparr>he_neighbors := ns\<rparr> \<and> length es \<le> length es'"
proof -
  let ?b = "he_blkno (es ! en)" and ?off = "he_offno (es ! en)" and ?level = "he_level (es ! p)" and ?skip = "if existing then Some p else None"
  define e where "e = HnswLoadElementFromTuple (es ! en) et True True"
  have le: "loaded r e" unfolding e_def by (rule loaded_tuple [OF et(1)]) simp_all
  have pos: "he_blkno e = ?b" "he_offno e = ?off" "he_level e = et_level et" by (simp_all add: e_def HnswLoadElementFromTuple_def Let_def)
  have live: "live_tid r (et_level et) (ItemPointerSet ?b ?off)" using et by (simp add: live_tid_iff ItemPointerSet_def)
  obtain pg where pg: "read_page r ?b = Inr pg" "element_tuple pg ?off = Inr et" using et(1) by (auto simp: tup_at_def element_tuple_at rbind_InrE)
  obtain x where x: "sup_procinfo support q (et_data et) = Inr x"
  proof -
    obtain et' n where "at_tid r (ItemPointerSet ?b ?off) = Inr (ElementTup et')" "vec_wf (et_data et')" "v_dim (et_data et') = dim" by (rule graph_ok_live [OF g live])
    then show thesis using that et(1) d by (auto simp: dist_ok_def ItemPointerSet_def)
  qed
  let ?sc = "HnswInitSearchCandidate en x" and ?es = "es[en := e]"
  have c: "HnswEntryCandidate es en (Some q) (Some r) support True = Inr (?sc, ?es)"
    using pg x en(1) by (simp add: HnswEntryCandidate_def HnswLoadElement_def HnswLoadElementImpl_def e_def HnswGetDistance_def)
  have ep: "?es ! p = es ! p" "?es ! en = e" using en by simp_all
  have nw: "new_ok p m r ?es" by (rule unconnected_ok) (use p(2) ep(1) in simp)
  have tt: "tid_tuple r (ItemPointerSet ?b ?off) = Inr et" using et(1) by (simp add: tid_tuple_at ItemPointerSet_def)
  have ents: "ents p q support (et_level et) r ?es [?sc]"
    using live le x pos tt et(1) en ep by (auto simp: ents_def disk_entry_ok_def disk_known_def search_env_for_def HnswInitSearchCandidate_def sc_tid_def tid_distance_def HnswGetDistance_def loaded_def)
  let ?L = "et_level et"
  let ?lcs = "rev [Suc ?level..<Suc ?L]"
  have so: "sorted_wrt (\<ge>) (?L # ?lcs)" by (auto simp: sorted_wrt_rev simp del: upt_Suc)
  have pl: "p < length ?es" using p(1) by simp
  obtain w es2 where w: "greedy_descent (Some q) (Some r) support m True ?skip ?lcs [?sc] ?es = Inr (w, es2)" "ents p q support (last (?L # ?lcs)) r es2 w" "grows ?es es2"
    using descent_ents [OF graph_pages_ok [OF g d] ents so pl] by blast
  have s2: "p < length es2" "es2 ! p = es ! p" "length es \<le> length es2" using grows_length [OF w(3)] grows_nth [OF w(3) pl] ep(1) p(1) by simp_all
  have n2: "new_ok p m r es2" by (rule new_ok_grows [OF nw pl w(3)])
  have la: "min ?level ?L \<le> last (?L # ?lcs)"
  proof (cases "?level < ?L")
    case True
    then have "last (?L # ?lcs) = Suc ?level" by (simp add: last_rev upt_conv_Cons del: upt_Suc)
    then show ?thesis by simp
  qed simp
  have so': "sorted_wrt (>) (rev [0..<Suc (min ?level ?L)])" by (auto simp: sorted_wrt_rev simp del: upt_Suc)
  have lcs: "\<forall>lc\<in>set (rev [0..<Suc (min ?level ?L)]). lc \<le> min ?level ?L \<and> lc \<le> he_level (es2 ! p) \<and> (\<exists>a. HnswGetNeighbors (es2 ! p) lc = Inr a \<and> na_items a = [])"
    unfolding s2(2) using unconnected_neighbors [OF p(2)] by (auto simp: HnswInitNeighborArray_def simp del: upt_Suc)
  have sk: "\<forall>s. ?skip = Some s \<longrightarrow> s < length es2" using s2(1) by simp
  let ?ef = "if existing then Suc efc else efc"
  from disk_connect_layers [OF g d s2(1) sk n2 ents_lower [OF w(2) la] so' lcs, of True ?ef] obtain es' ns where
    k: "connect_layers True (Some q) ?ef (Some r) support m ?skip p (rev [0..<Suc (min ?level ?L)]) w es2 = Inr es'" "new_ok p m r es'"
      "es' ! p = (es ! p)\<lparr>he_neighbors := ns\<rparr>" "length es2 \<le> length es'" unfolding s2(2) by blast
  have v: "he_value (es ! p) = Some q" using p(2) by (simp add: unconnected_def)
  have "HnswFindElementNeighbors es True p (Some en) (Some r) support m efc existing = Inr es'"
    unfolding HnswFindElementNeighbors_def Let_def using c p(1) v ep(2) en(1) pos(3) w(1) k(1) by (simp del: upt_Suc)
  then show ?thesis using k s2(3) by auto
qed

end
