(* ===== verification/HnswInserted.thy ===== *)
theory HnswInserted
  imports HnswDisk
begin

text \<open>
  Insertion on disk is correct (\<open>HnswInsertTupleOnDisk\<close> and \<open>hnswinsert\<close> of \<open>src/backend/access/hnsw/hnswinsert.c\<close>): on a well-formed
  index it returns, keeps the index well-formed and adds exactly one entry.
\<close>

section \<open>The chain of pages\<close>

lemma seq_chain_next: "seq_chain r \<longleftrightarrow> (\<forall>b n. next_of r b = Some n \<longrightarrow> n = (if Suc b = length (rel_blocks r) then InvalidBlockNumber else Suc b))"
  by (auto simp: seq_chain_def next_of_def split: sum.splits)

lemma seq_chain_same: "same_pages r r' \<Longrightarrow> seq_chain r \<Longrightarrow> seq_chain r'"
  by (simp add: seq_chain_next same_pages_def)

text \<open>A chain of consecutive blocks visits every page.\<close>

lemma seq_chain_from:
  assumes wf: "rel_wf r" "seq_chain r" "length (rel_blocks r) \<le> InvalidBlockNumber"
  shows "0 < b \<Longrightarrow> b < length (rel_blocks r) \<Longrightarrow> length (rel_blocks r) \<le> b + n \<Longrightarrow> chain_from n r b = [b..<length (rel_blocks r)]"
proof (induction n arbitrary: b)
  case (Suc n)
  obtain p where p: "read_page r b = Inr p" using rel_wf_block [OF wf(1) Suc.prems(1,2)] by blast
  have nx: "next_of r b = Some (if Suc b = length (rel_blocks r) then InvalidBlockNumber else Suc b)" using wf(2) p by (simp add: next_of_page seq_chain_def)
  have b: "b \<noteq> InvalidBlockNumber" using Suc.prems(2) wf(3) by linarith
  show ?case
  proof (cases "Suc b = length (rel_blocks r)")
    case True
    have "chain_from n r InvalidBlockNumber = []" by (cases n) simp_all
    then show ?thesis using b nx True by (simp add: upt_rec)
  next
    case False
    then have "chain_from n r (Suc b) = [Suc b..<length (rel_blocks r)]" using Suc by simp
    then show ?thesis using b nx False Suc.prems(2) by (simp add: upt_conv_Cons)
  qed
qed simp

lemma append_tuple_pages: "append_tuple r b off t = Inr r' \<Longrightarrow> same_pages r r'"
proof -
  assume a: "append_tuple r b off t = Inr r'"
  obtain p where p: "read_page r b = Inr p" using a by (auto simp: append_tuple_def rbind_InrE)
  obtain o' p' where q: "ip_add tuple_size p t = (o', p')" by force
  have "hp_nextblkno p' = hp_nextblkno p" using q by (auto simp: ip_add_def split: if_splits)
  then show ?thesis using a p q write_page_pages [OF p] by (auto simp: append_tuple_def split: if_splits)
qed

lemma overwrite_tuple_pages: "overwrite_tuple r b off t = Inr r' \<Longrightarrow> same_pages r r'"
proof -
  assume a: "overwrite_tuple r b off t = Inr r'"
  obtain p p' where p: "read_page r b = Inr p" and o: "ip_overwrite tuple_size p off t = Inr (True, p')" "r' = write_page r b p'"
    using a by (auto simp: overwrite_tuple_def rbind_InrE split: if_splits)
  have "hp_nextblkno p' = hp_nextblkno p" using o(1) by (auto simp: ip_overwrite_def Let_def split: if_splits)
  then show ?thesis using o(2) write_page_pages [OF p] by simp
qed

lemma add_tuples_pages:
  assumes "add_tuples r pl et nt = Inr (r', off, noff)"
  shows "same_pages r r'"
proof (cases "pl_free pl")
  case None
  then obtain a b c d r1 where "append_tuple r (pl_blk pl) a b = Inr r1" "append_tuple r1 (pl_nblk pl) c d = Inr r'"
    using assms(1) by (auto simp: add_tuples_def Let_def rbind_InrE)
  then show ?thesis using append_tuple_pages same_pages_trans by blast
next
  case (Some x)
  then obtain a b c d r1 where "overwrite_tuple r (pl_blk pl) a b = Inr r1" "overwrite_tuple r1 (pl_nblk pl) c d = Inr r'"
    using assms(1) by (auto simp: add_tuples_def Let_def rbind_InrE)
  then show ?thesis using overwrite_tuple_pages same_pages_trans by blast
qed

lemma insert_append_chain:
  assumes wf: "rel_wf r" "seq_chain r" and p: "read_page r b = Inr p" "hp_nextblkno p = InvalidBlockNumber" and len: "length (rel_blocks r) < InvalidBlockNumber"
  shows "\<exists>r'. HnswInsertAppendPage r b = Inr (length (rel_blocks r), r') \<and> rel_wf r' \<and> seq_chain r' \<and> length (rel_blocks r') = Suc (length (rel_blocks r)) \<and>
    read_page r' (length (rel_blocks r)) = Inr HnswInitPage"
proof -
  let ?n = "length (rel_blocks r)"
  obtain r' where r': "HnswInsertAppendPage r b = Inr (?n, r')" "rel_wf r'" "length (rel_blocks r') = Suc ?n" "read_page r' ?n = Inr HnswInitPage"
      "read_page r' b = Inr (p\<lparr>hp_nextblkno := ?n\<rparr>)" "\<forall>c. c \<noteq> b \<longrightarrow> c \<noteq> ?n \<longrightarrow> read_page r' c = read_page r c"
    using append_page_spec [OF wf(1) p] by blast
  have b: "Suc b = ?n"
  proof (rule ccontr)
    assume "Suc b \<noteq> ?n"
    then have "hp_nextblkno p = Suc b" using wf(2) p(1) by (simp add: seq_chain_def)
    then show False using p(2) read_page_bounds [OF p(1)] len by simp
  qed
  have "seq_chain r'" unfolding seq_chain_def
  proof (intro allI impI)
    fix c q assume q: "read_page r' c = Inr q"
    consider "c = b" | "c = ?n" | "c \<noteq> b" "c \<noteq> ?n" by blast
    then show "hp_nextblkno q = (if Suc c = length (rel_blocks r') then InvalidBlockNumber else Suc c)"
    proof cases
      case 1
      then show ?thesis using q r'(3,5) b by auto
    next
      case 2
      then show ?thesis using q r'(3,4) init_page_ok(2) by simp
    next
      case 3
      then have "read_page r c = Inr q" using q r'(6) by simp
      then show ?thesis using wf(2) 3 b r'(3) by (simp add: seq_chain_def)
    qed
  qed
  then show ?thesis using r' by blast
qed

text \<open>The insert page a search for a place notes is a page of the relation.\<close>

definition block_ok :: "Relation \<Rightarrow> nat \<Rightarrow> bool" where
  "block_ok r b \<longleftrightarrow> 0 < b \<and> b < length (rel_blocks r)"

lemma free_offset_page:
  "free_offset_loop r blk page es ns off ts nip = Inr (found, nip') \<Longrightarrow> nip' = nip \<or> nip' = blk"
proof (induction ts arbitrary: off nip)
  case (Cons t ts)
  show ?case
  proof (cases t)
    case (NeighborTup n)
    then show ?thesis using Cons by simp
  next
    case (ElementTup et)
    show ?thesis
    proof (cases "et_deleted et = 0")
      case True
      then show ?thesis using Cons ElementTup by simp
    next
      case False
      let ?nip = "if nip = InvalidBlockNumber then blk else nip"
      have "nip' = ?nip \<or> (\<exists>off. free_offset_loop r blk page es ns off ts ?nip = Inr (found, nip'))"
        using Cons.prems ElementTup False by (auto simp: Let_def rbind_InrE split: if_splits)
      then show ?thesis using Cons.IH by (auto split: if_splits)
    qed
  qed
qed simp

lemma find_place_chain:
  assumes wf: "rel_wf r" "seq_chain r" and len: "Suc (length (rel_blocks r)) < InvalidBlockNumber"
  shows "find_place fuel r b es ns mc nip = Inr (pl, r') \<Longrightarrow> nip = InvalidBlockNumber \<or> block_ok r nip \<Longrightarrow>
    seq_chain r' \<and> length (rel_blocks r) \<le> length (rel_blocks r') \<and> length (rel_blocks r') \<le> length (rel_blocks r) + 2 \<and>
    (pl_newInsertPage pl = InvalidBlockNumber \<or> block_ok r (pl_newInsertPage pl))"
proof (induction fuel arbitrary: b nip)
  case (Suc fuel)
  obtain page where p: "read_page r b = Inr page" using Suc.prems(1) by (auto simp: rbind_InrE)
  have bok: "block_ok r b" using rel_wf_page(1) [OF wf(1) p] read_page_bounds [OF p] by (simp add: block_ok_def)
  let ?nip = "if nip = InvalidBlockNumber \<and> mc \<le> ip_free_space page then b else nip"
  note fp = Suc.prems(1) [simplified, unfolded p, simplified, unfolded Let_def]
  have n1: "?nip = InvalidBlockNumber \<or> block_ok r ?nip" using Suc.prems(2) bok by auto
  show ?case
  proof (cases "es + ns + sizeof_ItemIdData \<le> ip_free_space page")
    case True
    then show ?thesis using fp wf n1 by auto
  next
    case c: False
    obtain found nip' where f: "HnswFreeOffset r b page es ns ?nip = Inr (found, nip')" using fp c by (auto simp: rbind_InrE)
    have n2: "nip' = InvalidBlockNumber \<or> block_ok r nip'" using free_offset_page [OF f [unfolded HnswFreeOffset_def]] n1 bok by auto
    note fp2 = fp [unfolded f, simplified if_not_P [OF c], simplified]
    show ?thesis
    proof (cases found)
      case (Some x)
      then show ?thesis using fp2 wf n2 by (cases x) auto
    next
      case None
      show ?thesis
      proof (cases "hp_nextblkno page = InvalidBlockNumber")
        case False
        then show ?thesis using fp2 None Suc.IH n2 by simp
      next
        case nx: True
        let ?n = "length (rel_blocks r)"
        obtain r1 where r1: "HnswInsertAppendPage r b = Inr (?n, r1)" "rel_wf r1" "seq_chain r1" "length (rel_blocks r1) = Suc ?n" "read_page r1 ?n = Inr HnswInitPage"
          using insert_append_chain [OF wf p nx] len by auto
        obtain r2 where r2: "HnswInsertAppendPage r1 ?n = Inr (Suc ?n, r2)" "seq_chain r2" "length (rel_blocks r2) = Suc (Suc ?n)"
          using insert_append_chain [OF r1(2,3,5) init_page_ok(2)] r1(4) len by auto
        have "(r' = r1 \<or> r' = r2) \<and> pl_newInsertPage pl = nip'" using fp2 None nx r1(1,5) r2(1) by (auto split: if_splits)
        then show ?thesis using r1 r2 n2 by auto
      qed
    qed
  qed
qed simp

lemma placed_blocks:
  assumes "placed r r' ep np et nt"
  shows "block_ok r' (fst ep)" "block_ok r' (fst np)"
proof -
  have "rel_wf r'" "tup_at r' (fst ep) (snd ep) = Inr (ElementTup et)" "tup_at r' (fst np) (snd np) = Inr (NeighborTup nt)" using assms by (simp_all add: placed_def)
  then show "block_ok r' (fst ep)" "block_ok r' (fst np)" using tup_at_page rel_wf_page(1) unfolding block_ok_def by blast+
qed

lemma AddElementOnDisk_chain:
  assumes wf: "rel_wf r" "seq_chain r" and len: "Suc (length (rel_blocks r)) < InvalidBlockNumber" and p: "p < length es"
    and a: "AddElementOnDisk r es p m ip = Inr (r', es', nip)"
  shows "seq_chain r'" "length (rel_blocks r) \<le> length (rel_blocks r')" "length (rel_blocks r') \<le> length (rel_blocks r) + 2"
    "nip = Some b \<Longrightarrow> b = he_neighborPage (es' ! p) \<or> block_ok r b"
proof -
  obtain v where e: "nth_r es p = Inr (es ! p)" "he_value (es ! p) = Some v"
    using a p by (auto simp: AddElementOnDisk_def rbind_InrE split: option.splits)
  obtain etup ntup where t: "HnswSetElementTuple zero_etup (es ! p) = Inr etup" "HnswSetNeighborTuple es zero_ntup (es ! p) m = Inr ntup"
    using a by (auto simp: AddElementOnDisk_def rbind_InrE Let_def e)
  let ?es = "HNSW_ELEMENT_TUPLE_SIZE (nat (vl_len v))" and ?ns = "HNSW_NEIGHBOR_TUPLE_SIZE (he_level (es ! p)) m"
  let ?mc = "?es + HNSW_NEIGHBOR_TUPLE_SIZE 0 m + sizeof_ItemIdData"
  obtain pl r1 where f: "find_place (Suc (length (rel_blocks r))) r ip ?es ?ns ?mc InvalidBlockNumber = Inr (pl, r1)"
    using a by (auto simp: AddElementOnDisk_def rbind_InrE Let_def e t simp del: find_place.simps)
  obtain off noff where q: "add_tuples r1 pl etup ntup = Inr (r', off, noff)"
      "es' = es[p := (es ! p)\<lparr>he_blkno := pl_blk pl, he_neighborPage := pl_nblk pl, he_offno := off, he_neighborOffno := noff\<rparr>]"
      "nip = Some b \<Longrightarrow> b = (if pl_newInsertPage pl = InvalidBlockNumber then pl_nblk pl else pl_newInsertPage pl)"
    using a f by (auto simp: AddElementOnDisk_def rbind_InrE Let_def e t simp del: find_place.simps split: if_splits)
  note c = find_place_chain [OF wf len f]
  note sp = add_tuples_pages [OF q(1)]
  then show "seq_chain r'" using seq_chain_same c by blast
  have l: "length (rel_blocks r') = length (rel_blocks r1)" using sp by (simp add: same_pages_def)
  show "length (rel_blocks r) \<le> length (rel_blocks r')" "length (rel_blocks r') \<le> length (rel_blocks r) + 2" using c l by simp_all
  show "b = he_neighborPage (es' ! p) \<or> block_ok r b" if "nip = Some b"
    using q(2) q(3) [OF that] c p by (auto split: if_splits)
qed

section \<open>The graph after an element is placed\<close>

lemma placed_element:
  assumes pl: "placed r r' ep np et nt" and l: "linked r"
  shows "tup_at r' b off = Inr (ElementTup x) \<longleftrightarrow> ((b, off) = ep \<and> x = et) \<or> ((b, off) \<noteq> ep \<and> tup_at r b off = Inr (ElementTup x))"
proof -
  have t: "tup_at r' (fst ep) (snd ep) = Inr (ElementTup et)" "tup_at r' (fst np) (snd np) = Inr (NeighborTup nt)"
    and k: "keeps_tuples r r' {ep, np}" "only_new r r' {ep, np}" using pl by (simp_all add: placed_def)
  have old: "tup_at r (fst np) (snd np) \<noteq> Inr (ElementTup y)" for y
  proof -
    consider "tup_at r (fst np) (snd np) \<noteq> Inr (ElementTup y)"
      | d where "tup_at r (fst ep) (snd ep) = Inr (ElementTup d)" "et_neighbortid d = ItemPointerSet (fst np) (snd np)"
      using pl unfolding placed_def by blast
    then show ?thesis
    proof cases
      case 2
      obtain n where "nbr_at r d = Inr (NeighborTup n)" by (rule linkedD [OF l 2(1)])
      then show ?thesis using 2(2) by (simp add: ItemPointerSet_def)
    qed
  qed
  consider "(b, off) = ep" | "(b, off) = np" "(b, off) \<noteq> ep" | "(b, off) \<notin> {ep, np}" by blast
  then show ?thesis
  proof cases
    case 1
    then show ?thesis using t(1) by auto
  next
    case 2
    then show ?thesis using t(2) old [of x] by auto
  next
    case 3
    then show ?thesis using k unfolding keeps_tuples_def only_new_def by blast
  qed
qed

lemma placed_neighbor:
  assumes pl: "placed r r' ep np et nt" and l: "linked r" and x: "tup_at r b off = Inr (ElementTup x)" "(b, off) \<noteq> ep"
  shows "nbr_at r' x = nbr_at r x" "et_neighbortid x \<noteq> ItemPointerSet (fst np) (snd np)"
proof -
  obtain n where n: "nbr_at r x = Inr (NeighborTup n)" by (rule linkedD [OF l x(1)])
  show ne: "et_neighbortid x \<noteq> ItemPointerSet (fst np) (snd np)"
  proof
    assume e: "et_neighbortid x = ItemPointerSet (fst np) (snd np)"
    consider "tup_at r (fst np) (snd np) \<noteq> Inr (NeighborTup n)"
      | d where "tup_at r (fst ep) (snd ep) = Inr (ElementTup d)" "et_neighbortid d = ItemPointerSet (fst np) (snd np)"
      using pl unfolding placed_def by blast
    then show False
    proof cases
      case 1
      then show ?thesis using n e by (simp add: ItemPointerSet_def)
    next
      case 2
      then show ?thesis using linked_inj [OF l x(1) 2(1)] e x(2) by (metis prod.collapse)
    qed
  qed
  let ?p = "(ip_blkid (et_neighbortid x), ip_posid (et_neighbortid x))"
  have "?p \<noteq> np" using ne by (auto simp: ItemPointerSet_def)
  moreover have "?p \<noteq> ep"
  proof
    assume e: "?p = ep"
    then have "tup_at r (fst ep) (snd ep) = Inr (NeighborTup n)" using n by (metis fst_conv snd_conv)
    then show False using pl unfolding placed_def by auto
  qed
  ultimately have "?p \<notin> {ep, np}" by blast
  then have "nbr_at r' x = Inr (NeighborTup n)" using pl n unfolding placed_def keeps_tuples_def by blast
  then show "nbr_at r' x = nbr_at r x" using n by simp
qed

lemma placed_live:
  assumes "placed r r' ep np et nt" "linked r" "live_tid r lc t"
  shows "live_tid r' lc t"
proof -
  obtain x where x: "at_tid r t = Inr (ElementTup x)" "et_deleted x = 0" "lc \<le> et_level x" using assms(3) by (auto simp: live_tid_iff)
  have "(ip_blkid t, ip_posid t) \<noteq> ep" using assms(1) x unfolding placed_def by auto
  then show ?thesis using x placed_element [OF assms(1,2)] by (auto simp: live_tid_iff)
qed

lemma slots_ok_live: "slots_ok m r level tids \<Longrightarrow> (\<And>lc t. live_tid r lc t \<Longrightarrow> live_tid r' lc t) \<Longrightarrow> slots_ok m r' level tids"
  by (simp add: slots_ok_def)

lemma placed_linked:
  assumes pl: "placed r r' ep np et nt" and l: "linked r" and n: "et_neighbortid et = ItemPointerSet (fst np) (snd np)"
    "length (et_heaptids et) = HNSW_HEAPTIDS" "nt_count nt = length (nt_indextids nt)" "nt_version nt = et_version et"
  shows "linked r'"
  unfolding linked_def
proof (intro conjI allI impI)
  note el = placed_element [OF pl l]
  have nb: "tup_at r' (fst np) (snd np) = Inr (NeighborTup nt)" using pl by (simp add: placed_def)
  fix b off x assume x: "tup_at r' b off = Inr (ElementTup x)"
  have "length (et_heaptids x) = HNSW_HEAPTIDS \<and> (\<exists>n. nbr_at r' x = Inr (NeighborTup n) \<and> nt_count n = length (nt_indextids n) \<and> nt_version n = et_version x)"
  proof (cases "(b, off) = ep")
    case True
    then have "x = et" using x el by simp
    then show ?thesis using n nb by (simp add: ItemPointerSet_def)
  next
    case False
    then have xr: "tup_at r b off = Inr (ElementTup x)" using x el by simp
    show ?thesis using linkedD [OF l xr] placed_neighbor(1) [OF pl l xr False] by metis
  qed
  then show "length (et_heaptids x) = HNSW_HEAPTIDS" "\<exists>n. nbr_at r' x = Inr (NeighborTup n) \<and> nt_count n = length (nt_indextids n) \<and> nt_version n = et_version x" by blast+
  fix b' off' x' assume x': "tup_at r' b' off' = Inr (ElementTup x')" and e: "et_neighbortid x = et_neighbortid x'"
  have "(b, off) = (b', off')"
  proof (cases "(b, off) = ep"; cases "(b', off') = ep")
    assume a: "(b, off) = ep" "(b', off') \<noteq> ep"
    then have "x = et" "tup_at r b' off' = Inr (ElementTup x')" using x x' el by simp_all
    then show ?thesis using placed_neighbor(2) [OF pl l _ a(2)] n(1) e by metis
  next
    assume a: "(b, off) \<noteq> ep" "(b', off') = ep"
    then have "x' = et" "tup_at r b off = Inr (ElementTup x)" using x x' el by simp_all
    then show ?thesis using placed_neighbor(2) [OF pl l _ a(1)] n(1) e by metis
  next
    assume "(b, off) \<noteq> ep" "(b', off') \<noteq> ep"
    then have "tup_at r b off = Inr (ElementTup x)" "tup_at r b' off' = Inr (ElementTup x')" using x x' el by simp_all
    then show ?thesis using linked_inj [OF l] e by blast
  qed simp
  then show "b = b'" "off = off'" by simp_all
qed

lemma placed_graph:
  assumes g: "graph_ok vac m dim r" and pl: "placed r r' ep np et nt" and s: "seq_chain r'" and d: "et_deleted et = 0"
    and n: "et_neighbortid et = ItemPointerSet (fst np) (snd np)" "nt_count nt = length (nt_indextids nt)" "nt_version nt = et_version et"
    and e: "vec_wf (et_data et)" "v_dim (et_data et) = dim" "et_level et \<le> HnswGetMaxLevel m" "packed et" "slots_ok m r (et_level et) (nt_indextids nt)" "tup_tids et \<noteq> []"
  shows "graph_ok vac m dim r'"
proof -
  have l: "linked r" using g by (simp add: graph_ok_def)
  note el = placed_element [OF pl l]
  have li: "linked r'" by (rule placed_linked [OF pl l n(1) _ n(2,3)]) (use e(4) in \<open>simp add: packed_def\<close>)
  have lv: "\<And>lc t. live_tid r lc t \<Longrightarrow> live_tid r' lc t" by (rule placed_live [OF pl l])
  have "tuple_ok vac m dim r' x" if x: "tup_at r' b off = Inr (ElementTup x)" for b off x
  proof (cases "(b, off) = ep")
    case True
    then have "x = et" using x el by simp
    moreover have "nbr_at r' et = Inr (NeighborTup nt)" using pl n(1) by (simp add: placed_def ItemPointerSet_def)
    moreover have "slots_ok m r' (et_level et) (nt_indextids nt)" using slots_ok_live [OF e(5) lv] by blast
    ultimately show ?thesis using e(1-4,6) d by (simp add: tuple_ok_def)
  next
    case False
    then have xr: "tup_at r b off = Inr (ElementTup x)" using x el by simp
    then have k: "tuple_ok vac m dim r x" using g unfolding graph_ok_def by blast
    show ?thesis using k placed_neighbor(1) [OF pl l xr False] slots_ok_live [OF _ lv] unfolding tuple_ok_def by (metis (no_types, lifting))
  qed
  moreover have "rel_wf r'" using pl by (simp add: placed_def)
  ultimately show ?thesis using g s li unfolding graph_ok_def by blast
qed

lemma placed_entries:
  assumes g: "graph_ok vac m dim r" and pl: "placed r r' ep np et nt"
  shows "index_entries r' = index_entries r + tup_entries et"
proof (rule index_entries_add)
  have l: "linked r" using g by (simp add: graph_ok_def)
  show "tup_at r' b off = Inr (ElementTup x) \<longleftrightarrow> (b = fst ep \<and> off = snd ep \<and> x = et) \<or> (\<not> (b = fst ep \<and> off = snd ep) \<and> tup_at r b off = Inr (ElementTup x))" for b off x
    using placed_element [OF pl l, of b off x] by (cases ep) auto
  fix x assume x: "tup_at r (fst ep) (snd ep) = Inr (ElementTup x)"
  then have "et_deleted x \<noteq> 0" using pl unfolding placed_def by auto
  moreover have "tuple_ok vac m dim r x" using g x unfolding graph_ok_def by blast
  ultimately have "tup_entries x = {#}" by (simp add: tuple_ok_def tup_entries_def)
  then show "tup_entries et = tup_entries x + tup_entries et" by simp
qed simp

section \<open>The tuples of the new element\<close>

lemma slots_nth:
  assumes "lc \<le> l" "i < HnswGetLayerM m lc"
  shows "concat (map (layer_slots es e m) (rev [0..<Suc l])) ! ((l - lc) * m + i) = layer_slots es e m lc ! i"
proof -
  let ?s = "concat (map (layer_slots es e m) (rev [0..<Suc l]))"
  have "(l - lc) * m + HnswGetLayerM m lc \<le> length ?s" unfolding slots_length by (rule layer_bound [OF assms(1)])
  then have "?s ! ((l - lc) * m + i) = take (HnswGetLayerM m lc) (drop ((l - lc) * m) ?s) ! i" using assms(2) by (simp del: upt_Suc)
  then show ?thesis by (simp only: slots_slice [OF assms(1)])
qed

lemma invalid_tid [simp]: "\<not> ItemPointerIsValid InvalidItemPointer"
  by (simp add: ItemPointerIsValid_def InvalidItemPointer_def)

lemma new_slots_ok:
  assumes n: "new_ok p m r es" and e: "e = es ! p"
  shows "slots_ok m r (he_level e) (concat (map (layer_slots es e m) (rev [0..<Suc (he_level e)])))"
  unfolding slots_ok_def slots_length
proof (intro conjI allI impI refl)
  fix lc i
  let ?s = "concat (map (layer_slots es e m) (rev [0..<Suc (he_level e)]))" and ?k = "(he_level e - lc) * m + i"
  assume lc: "lc \<le> he_level e" and i: "i < HnswGetLayerM m lc" and v: "ItemPointerIsValid (?s ! ?k)"
  obtain ns where ns: "he_neighbors e = Some ns" "arr_ok p m r es lc (ns ! lc)" using n lc by (auto simp: new_ok_def e)
  note s = slots_nth [OF lc i, of es e]
  let ?items = "na_items (ns ! lc)"
  have sl: "layer_slots es e m lc ! i = (if i < length ?items then elem_tid (es ! hc_element (?items ! i)) else InvalidItemPointer)"
    using i ns(1) by (simp add: layer_slots_def Let_def)
  have "i < length ?items" using v unfolding s sl by (auto split: if_splits)
  then show "live_tid r lc (?s ! ?k)" unfolding s sl using ns(2) by (simp add: arr_ok_def)
qed

lemma new_tuple:
  assumes v: "vec_wf v" "ItemPointerIsValid tid" and e: "he_value e = Some v" "he_heaptids e = [tid]" and t: "HnswSetElementTuple zero_etup e = Inr et"
  shows "et_deleted et = 0" "et_level et = he_level e" "et_data et = v" "et_version et = he_version e" "packed et" "tup_tids et = [tid]" "tup_entries et = {#(tid, v)#}"
proof -
  have et: "et_deleted et = 0 \<and> et_level et = he_level e \<and> et_data et = v \<and> et_version et = he_version e \<and> et_heaptids et = tid # replicate 9 InvalidItemPointer"
    using t e by (auto simp: HnswSetElementTuple_def hnsw_const numeral_eq_Suc)
  then show "et_deleted et = 0" "et_level et = he_level e" "et_data et = v" "et_version et = he_version e" by simp_all
  show tt: "tup_tids et = [tid]" using et v(2) by (simp add: tup_tids_def hnsw_const numeral_eq_Suc)
  show "packed et" unfolding packed_def tt using et by (simp add: hnsw_const)
  show "tup_entries et = {#(tid, v)#}" using tt et by (simp add: tup_entries_def)
qed

text \<open>Everything of a tuple that its version and its link do not touch.\<close>

lemma retag_simps [simp]:
  "tup_tids (et\<lparr>et_version := a, et_neighbortid := b\<rparr>) = tup_tids et" "packed (et\<lparr>et_version := a, et_neighbortid := b\<rparr>) = packed et"
  "tup_entries (et\<lparr>et_version := a, et_neighbortid := b\<rparr>) = tup_entries et"
  by (simp_all add: tup_tids_def packed_def tup_entries_def)

lemma vector_fits: "vec_wf v \<Longrightarrow> v_dim v = dim \<Longrightarrow> dim \<le> HNSW_MAX_DIM \<Longrightarrow> HNSW_ELEMENT_TUPLE_SIZE (nat (vl_len v)) \<le> HNSW_MAX_SIZE"
  by (auto simp: vec_wf_def VECTOR_SIZE_def HNSW_ELEMENT_TUPLE_SIZE_def MAXALIGN_def hnsw_const)

lemma new_arrays:
  assumes "new_ok p m r es"
  shows "arrays_ok es (es ! p)"
proof -
  obtain ns where ns: "he_neighbors (es ! p) = Some ns" "length ns = Suc (he_level (es ! p))" "\<forall>lc\<le>he_level (es ! p). arr_ok p m r es lc (ns ! lc)"
    using assms by (auto simp: new_ok_def)
  have "\<forall>hc\<in>set (na_items a). hc_element hc < length es" if a: "a \<in> set ns" for a
  proof -
    obtain i where "i \<le> he_level (es ! p)" "a = ns ! i" using a ns(2) by (auto simp: in_set_conv_nth less_Suc_eq_le)
    then show ?thesis using ns(3) by (auto simp: arr_ok_def)
  qed
  then show ?thesis using ns by (simp add: arrays_ok_def)
qed

lemma new_storable:
  assumes "new_ok p m r es" "HNSW_MIN_M \<le> m" "m \<le> HNSW_MAX_M" "he_level (es ! p) \<le> HnswGetMaxLevel m" "he_value (es ! p) = Some v" "vec_wf v" "v_dim v = dim" "dim \<le> HNSW_MAX_DIM"
  shows "storable es (es ! p) m"
  using assms(5) new_arrays [OF assms(1)] vector_fits [OF assms(6-8)] max_level_tuple [OF assms(2-4)] by (simp add: storable_def)

lemma level_slots: "HNSW_MIN_M \<le> m \<Longrightarrow> m \<le> HNSW_MAX_M \<Longrightarrow> l \<le> HnswGetMaxLevel m \<Longrightarrow> (l + 2) * m < 65536"
proof -
  assume "HNSW_MIN_M \<le> m" "m \<le> HNSW_MAX_M" "l \<le> HnswGetMaxLevel m"
  then have "HNSW_NEIGHBOR_TUPLE_SIZE l m \<le> HNSW_MAX_SIZE" by (rule max_level_tuple)
  then have "6 * ((l + 2) * m) \<le> 8192" by (simp add: HNSW_NEIGHBOR_TUPLE_SIZE_def MAXALIGN_def hnsw_const)
  then show ?thesis by linarith
qed

text \<open>Adding the element: the graph with it, and its entry.\<close>

lemma add_element_ok:
  assumes g: "graph_ok vac m dim r" and len: "Suc (length (rel_blocks r)) < InvalidBlockNumber" and ip: "block_ok r ip" and dim: "dim \<le> HNSW_MAX_DIM"
    and n: "new_ok 0 m r es" "es \<noteq> []" "he_level (es ! 0) \<le> HnswGetMaxLevel m" "he_value (es ! 0) = Some v" "he_heaptids (es ! 0) = [tid]"
    and v: "vec_wf v" "v_dim v = dim" "ItemPointerIsValid tid"
  shows "\<exists>r' e' nip. AddElementOnDisk r es 0 m ip = Inr (r', es[0 := e'], nip) \<and> graph_ok vac m dim r' \<and> index_entries r' = add_mset (tid, v) (index_entries r) \<and>
    (\<forall>lc t. live_tid r lc t \<longrightarrow> live_tid r' lc t) \<and> (\<forall>b off et. tup_at r b off = Inr (ElementTup et) \<longrightarrow> et_deleted et = 0 \<longrightarrow> tup_at r' b off = Inr (ElementTup et)) \<and>
    length (rel_blocks r) \<le> length (rel_blocks r') \<and> length (rel_blocks r') \<le> length (rel_blocks r) + 2 \<and> (\<forall>b. nip = Some b \<longrightarrow> block_ok r' b) \<and>
    he_level e' = he_level (es ! 0) \<and> he_value e' = Some v \<and> he_neighbors e' = he_neighbors (es ! 0) \<and>
    (\<exists>et. tup_at r' (he_blkno e') (he_offno e') = Inr (ElementTup et) \<and> et_deleted et = 0 \<and> et_level et = he_level (es ! 0))"
proof -
  have gs: "HNSW_MIN_M \<le> m" "m \<le> HNSW_MAX_M" "rel_wf r" "seq_chain r" "linked r" using g by (simp_all add: graph_ok_def)
  have p: "0 < length es" using n(2) by simp
  have st: "storable es (es ! 0) m" by (rule new_storable [OF n(1) gs(1,2) n(3,4) v(1,2) dim])
  have bk: "0 < ip" "ip < length (rel_blocks r)" using ip by (simp_all add: block_ok_def)
  obtain r' e' nip et0 et nt0 where a: "AddElementOnDisk r es 0 m ip = Inr (r', es[0 := e'], nip)"
    and e': "e' = (es ! 0)\<lparr>he_blkno := he_blkno e', he_neighborPage := he_neighborPage e', he_offno := he_offno e', he_neighborOffno := he_neighborOffno e'\<rparr>"
    and t: "HnswSetElementTuple zero_etup (es ! 0) = Inr et0" "HnswSetNeighborTuple es zero_ntup (es ! 0) m = Inr nt0"
      "et = et0\<lparr>et_version := et_version et, et_neighbortid := ItemPointerSet (he_neighborPage e') (he_neighborOffno e')\<rparr>"
    and pl: "placed r r' (he_blkno e', he_offno e') (he_neighborPage e', he_neighborOffno e') et (nt0\<lparr>nt_version := et_version et\<rparr>)"
    using AddElementOnDisk_placed [OF gs(3) bk p st] by auto
  note c = AddElementOnDisk_chain [OF gs(3,4) len p a]
  note nt = new_tuple [OF v(1,3) n(4,5) t(1)]
  have et: "et_deleted et = 0" "et_level et = he_level (es ! 0)" "et_data et = v" "packed et" "tup_entries et = {#(tid, v)#}" "tup_tids et = [tid]"
      "et_neighbortid et = ItemPointerSet (he_neighborPage e') (he_neighborOffno e')"
    by (subst t(3), simp add: nt)+
  let ?s = "concat (map (layer_slots es (es ! 0) m) (rev [0..<Suc (he_level (es ! 0))]))"
  have ar: "arrays_ok es (es ! 0)" using st by (simp add: storable_def)
  have nn: "nt_indextids nt0 = ?s" "nt_count nt0 = length ?s"
    using t(2) SetNeighborTuple_eq [OF ar, of zero_ntup m] level_slots [OF gs(1,2) n(3)] slots_length [of es "es ! 0" m "he_level (es ! 0)"] by auto
  have lf: "he_level e' = he_level (es ! 0)" "he_value e' = Some v" "he_neighbors e' = he_neighbors (es ! 0)" by (subst e', simp add: n(4))+
  have gr: "graph_ok vac m dim r'"
    by (rule placed_graph [OF g pl c(1) et(1)]) (use et v n(3) nn new_slots_ok [OF n(1) refl] in \<open>simp_all del: upt_Suc\<close>)
  have en: "index_entries r' = add_mset (tid, v) (index_entries r)" using placed_entries [OF g pl] et(5) by simp
  have lv: "\<forall>lc t. live_tid r lc t \<longrightarrow> live_tid r' lc t" using placed_live [OF pl gs(5)] by blast
  have ke: "tup_at r' b off = Inr (ElementTup x)" if x: "tup_at r b off = Inr (ElementTup x)" "et_deleted x = 0" for b off x
  proof -
    have "(b, off) \<noteq> (he_blkno e', he_offno e')" using pl x unfolding placed_def by auto
    then show ?thesis using placed_element [OF pl gs(5)] x(1) by blast
  qed
  have nb: "\<forall>b. nip = Some b \<longrightarrow> block_ok r' b"
  proof (intro allI impI)
    fix b assume "nip = Some b"
    then have "b = he_neighborPage e' \<or> block_ok r b" using c(4) p by simp
    then show "block_ok r' b" using placed_blocks(2) [OF pl] c(2) by (auto simp: block_ok_def)
  qed
  have at: "tup_at r' (he_blkno e') (he_offno e') = Inr (ElementTup et)" using pl by (simp add: placed_def)
  show ?thesis by (rule exI [of _ r'], rule exI [of _ e'], rule exI [of _ nip]) (use a gr en lv ke c(2,3) nb lf at et(1,2) in blast)
qed

section \<open>Linking the neighbours back\<close>

text \<open>Changing neighbour tuples keeps the elements, hence what is live and what has been loaded.\<close>

lemma repaired_live_tid: "repaired r r' \<Longrightarrow> live_tid r' lc t \<longleftrightarrow> live_tid r lc t"
  by (simp add: live_tid_iff repaired_element)

lemma repaired_loaded: "repaired r r' \<Longrightarrow> loaded r' e \<longleftrightarrow> loaded r e"
  by (simp add: loaded_def repaired_element)

lemma slots_disjoint:
  assumes "lc \<le> l" "lc' \<le> l" "i < HnswGetLayerM m lc" "j < HnswGetLayerM m lc'" "(l - lc) * m + i = (l - lc') * m + j"
  shows "lc = lc' \<and> i = j"
proof -
  have lt: "(l - a) * m + x < (l - b) * m + y" if "b < a" "a \<le> l" "x < HnswGetLayerM m a" for a b x y
  proof -
    have "x < m" using that(1,3) by (simp add: HnswGetLayerM_def split: if_splits)
    then have "(l - a) * m + x < Suc (l - a) * m" by simp
    also have "\<dots> \<le> (l - b) * m" using that(1,2) by (intro mult_le_mono1) simp
    finally show ?thesis by simp
  qed
  have "\<not> lc' < lc" using lt [OF _ assms(1,3), of lc' j] assms(5) by auto
  moreover have "\<not> lc < lc'" using lt [OF _ assms(2,4), of lc i] assms(5) by auto
  ultimately have "lc = lc'" by simp
  then show ?thesis using assms(5) by simp
qed

lemma slots_ok_set:
  assumes s: "slots_ok m r l tids" and lc: "lc \<le> l" "j < HnswGetLayerM m lc" and t: "live_tid r lc t"
  shows "slots_ok m r l (tids[(l - lc) * m + j := t])"
  unfolding slots_ok_def
proof (intro conjI allI impI)
  show "length (tids[(l - lc) * m + j := t]) = (l + 2) * m" using s by (simp add: slots_ok_def)
  fix lc' i assume a: "lc' \<le> l" "i < HnswGetLayerM m lc'" and v: "ItemPointerIsValid (tids[(l - lc) * m + j := t] ! ((l - lc') * m + i))"
  show "live_tid r lc' (tids[(l - lc) * m + j := t] ! ((l - lc') * m + i))"
  proof (cases "(l - lc) * m + j = (l - lc') * m + i")
    case True
    then have "lc = lc'" using slots_disjoint [OF lc(1) a(1) lc(2) a(2)] by blast
    moreover have "(l - lc) * m + j < length tids" using layer_bound [OF lc(1), of m] lc(2) s by (simp add: slots_ok_def)
    ultimately show ?thesis using True t by simp
  next
    case False
    then show ?thesis using v a s unfolding slots_ok_def by simp
  qed
qed

text \<open>Neighbour tuples gain links to \<open>T\<close> only.\<close>

definition adds_links :: "ItemPointerData set \<Rightarrow> Relation \<Rightarrow> Relation \<Rightarrow> bool" where
  "adds_links T r r' \<longleftrightarrow> (\<forall>b off n'. tup_at r' b off = Inr (NeighborTup n') \<longrightarrow>
     (\<exists>n. tup_at r b off = Inr (NeighborTup n) \<and> set (nt_indextids n') \<subseteq> set (nt_indextids n) \<union> T))"

lemma adds_links_refl [simp]: "adds_links T r r"
  by (auto simp: adds_links_def)

lemma adds_links_trans:
  assumes "adds_links T r1 r2" "adds_links T r2 r3"
  shows "adds_links T r1 r3"
  unfolding adds_links_def
proof (intro allI impI)
  fix b off n3 assume "tup_at r3 b off = Inr (NeighborTup n3)"
  then obtain n2 where n2: "tup_at r2 b off = Inr (NeighborTup n2)" "set (nt_indextids n3) \<subseteq> set (nt_indextids n2) \<union> T" using assms(2) unfolding adds_links_def by blast
  then obtain n1 where "tup_at r1 b off = Inr (NeighborTup n1)" "set (nt_indextids n2) \<subseteq> set (nt_indextids n1) \<union> T" using assms(1) unfolding adds_links_def by blast
  then show "\<exists>n. tup_at r1 b off = Inr (NeighborTup n) \<and> set (nt_indextids n3) \<subseteq> set (nt_indextids n) \<union> T" using n2(2) by blast
qed

text \<open>The graph after the neighbour tuple of one element has been rewritten.\<close>

lemma relink_graph:
  assumes g: "graph_ok vac m dim r" and et: "tup_at r b0 off0 = Inr (ElementTup et)" and rp: "repaired r r'"
    and t: "nbr_at r' et = Inr (NeighborTup n')"
      "\<And>b off t. (b, off) \<noteq> (ip_blkid (et_neighbortid et), ip_posid (et_neighbortid et)) \<Longrightarrow> tup_at r b off = Inr t \<Longrightarrow> tup_at r' b off = Inr t"
    and s: "slots_ok m r (et_level et) (nt_indextids n')"
  shows "graph_ok vac m dim r'"
proof -
  have wf: "linked r" using g by (simp add: graph_ok_def)
  note li = repaired_live_tid [OF rp]
  have "tuple_ok vac m dim r' x" if x: "tup_at r' b off = Inr (ElementTup x)" for b off x
  proof -
    have xr: "tup_at r b off = Inr (ElementTup x)" using x repaired_element [OF rp] by simp
    then have k: "tuple_ok vac m dim r x" using g unfolding graph_ok_def by blast
    show ?thesis
    proof (cases "et_neighbortid x = et_neighbortid et")
      case True
      then have "et = x" using linked_inj [OF wf xr et] xr et by auto
      moreover have "slots_ok m r' (et_level et) (nt_indextids n')" using slots_ok_live [OF s] li by simp
      ultimately show ?thesis using k t(1) by (simp add: tuple_ok_def)
    next
      case False
      then have "(ip_blkid (et_neighbortid x), ip_posid (et_neighbortid x)) \<noteq> (ip_blkid (et_neighbortid et), ip_posid (et_neighbortid et))"
        using ItemPointer_eq [of "et_neighbortid x"] ItemPointer_eq [of "et_neighbortid et"] by auto
      then have "nbr_at r' x = nbr_at r x" using t(2) linkedD [OF wf xr] by metis
      then show ?thesis using k slots_ok_live [of m r _ _ r'] li unfolding tuple_ok_def by (metis (no_types, lifting))
    qed
  qed
  moreover have "seq_chain r'" using rp g seq_chain_same unfolding repaired_def graph_ok_def by blast
  ultimately show ?thesis using g repaired_wf [OF rp] repaired_linked [OF rp wf] unfolding graph_ok_def by blast
qed

lemma link_neighbor_ok:
  assumes g: "graph_ok vac m dim r" and e: "loaded r e" "live_tid r lc (elem_tid e)" and new: "live_tid r lc (elem_tid new)"
    and idx: "idx = -2 \<or> (0 \<le> idx \<and> idx < int (HnswGetLayerM m lc))"
  shows "\<exists>r'. UpdateNeighborOnDisk e new idx m (HnswGetLayerM m lc) lc r chk = Inr r' \<and> graph_ok vac m dim r' \<and> adds_links {elem_tid new} r r'"
proof -
  have wf: "rel_wf r" using g by (simp add: graph_ok_def)
  obtain et n where et: "at_tid r (elem_tid e) = Inr (ElementTup et)" "lc \<le> et_level et" "nbr_at r et = Inr (NeighborTup n)" "nt_count n = (et_level et + 2) * m"
      "slots_ok m r (et_level et) (nt_indextids n)" by (rule graph_ok_live [OF g e(2)])
  have le: "he_level e = et_level et" "he_neighborPage e = ip_blkid (et_neighbortid et)" "he_neighborOffno e = ip_posid (et_neighbortid et)"
    using e(1) et(1) by (auto simp: loaded_def elem_tid_def ItemPointerSet_def)
  have len: "length (nt_indextids n) = (he_level e + 2) * m" using et(5) le(1) by (simp add: slots_ok_def)
  let ?s = "(he_level e - lc) * m"
  have nb: "tup_at r (he_neighborPage e) (he_neighborOffno e) = Inr (NeighborTup n)" using et(3) le by simp
  have lv: "lc \<le> he_level e" "nt_count n = (he_level e + 2) * m" using et(2,4) le(1) by simp_all
  obtain r' where r': "UpdateNeighborOnDisk e new idx m (HnswGetLayerM m lc) lc r chk = Inr r'"
    and c: "r' = r \<or> (\<exists>j<HnswGetLayerM m lc. \<forall>b off. tup_at r' b off = (if b = he_neighborPage e \<and> off = he_neighborOffno e
          then Inr (NeighborTup (n\<lparr>nt_indextids := (nt_indextids n)[?s + j := elem_tid new]\<rparr>)) else tup_at r b off))"
    using UpdateNeighborOnDisk_spec [OF wf nb lv len refl refl idx, of new chk] by blast
  have rp: "repaired r r'" using UpdateNeighborOnDisk_repaired [OF r' wf] by blast
  have "graph_ok vac m dim r' \<and> adds_links {elem_tid new} r r'" if j: "j < HnswGetLayerM m lc" and t: "\<forall>b off. tup_at r' b off = (if b = he_neighborPage e \<and> off = he_neighborOffno e
          then Inr (NeighborTup (n\<lparr>nt_indextids := (nt_indextids n)[?s + j := elem_tid new]\<rparr>)) else tup_at r b off)" for j
  proof
    show "graph_ok vac m dim r'" by (rule relink_graph [OF g et(1) rp, of "n\<lparr>nt_indextids := (nt_indextids n)[?s + j := elem_tid new]\<rparr>"])
      (use t le slots_ok_set [OF et(5,2) j new] in \<open>auto split: if_splits\<close>)
    show "adds_links {elem_tid new} r r'" unfolding adds_links_def using t nb set_update_subset_insert [of "nt_indextids n" "?s + j" "elem_tid new"] by auto
  qed
  then show ?thesis using r' c g adds_links_refl by blast
qed

text \<open>The slot to use: the neighbours of the neighbour are loaded into new cells.\<close>

lemma load_neighbor_elements_spec:
  "load_neighbor_elements es tids = (hcs, es') \<Longrightarrow> es' = es @ map (\<lambda>t. HnswInitElementFromBlock (ip_blkid t) (ip_posid t)) (takeWhile ItemPointerIsValid tids) \<and>
   map hc_element hcs = [length es..<length es']"
proof (induction tids arbitrary: es hcs es')
  case (Cons tid tids)
  show ?case
  proof (cases "ItemPointerIsValid tid")
    case True
    let ?es = "es @ [HnswInitElementFromBlock (ip_blkid tid) (ip_posid tid)]"
    obtain hcs' es1 where l: "load_neighbor_elements ?es tids = (hcs', es1)" by force
    note i = Cons.IH [OF l]
    have h: "map hc_element hcs = length es # map hc_element hcs'" "es' = es1" using Cons.prems True l by auto
    have "length es < length es1" using i by simp
    then have "[length es..<length es1] = length es # [length ?es..<length es1]" by (simp add: upt_conv_Cons)
    then show ?thesis using i h True by (simp only: append_assoc append_Cons append_Nil takeWhile.simps list.map if_True simp_thms)
  qed (use Cons.prems in simp)
qed simp

text \<open>Cells with the position of an element of the layer; loading one keeps all positions.\<close>

definition at_live :: "Relation \<Rightarrow> nat \<Rightarrow> elems \<Rightarrow> eptr \<Rightarrow> bool" where
  "at_live r lc es p \<longleftrightarrow> p < length es \<and> live_tid r lc (elem_tid (es ! p))"

lemma load_live:
  assumes g: "graph_ok vac m dim r" and d: "dist_ok support dim" "vec_wf q" "v_dim q = dim" and p: "at_live r lc es p"
  shows "\<exists>x v w. HnswLoadElement es p True (Some q) r support True None = Inr (Some x, es[p := v]) \<and> elem_tid v = elem_tid (es ! p) \<and>
    he_value v = Some w \<and> vec_wf w \<and> v_dim w = dim"
proof -
  have l: "p < length es" "live_tid r lc (elem_tid (es ! p))" using p by (simp_all add: at_live_def)
  obtain et n where et: "at_tid r (elem_tid (es ! p)) = Inr (ElementTup et)" "vec_wf (et_data et)" "v_dim (et_data et) = dim" by (rule graph_ok_live [OF g l(2)])
  obtain pg where pg: "read_page r (he_blkno (es ! p)) = Inr pg" "element_tuple pg (he_offno (es ! p)) = Inr et"
    using et(1) by (auto simp: tup_at_def element_tuple_at rbind_InrE elem_tid_def ItemPointerSet_def)
  obtain x where x: "sup_procinfo support q (et_data et) = Inr x" using d et(2,3) unfolding dist_ok_def by blast
  let ?v = "HnswLoadElementFromTuple (es ! p) et True True"
  have "HnswLoadElement es p True (Some q) r support True None = Inr (Some x, es[p := ?v])"
    using l(1) pg x by (simp add: HnswLoadElement_def HnswLoadElementImpl_def HnswGetDistance_def)
  moreover have "elem_tid ?v = elem_tid (es ! p)" by (simp add: HnswLoadElementFromTuple_def Let_def elem_tid_def)
  moreover have "he_value ?v = Some (et_data et)" by (simp add: HnswLoadElementFromTuple_def Let_def)
  ultimately show ?thesis using et(2,3) by blast
qed

lemma load_for_insert_total:
  assumes g: "graph_ok vac m dim r" and d: "dist_ok support dim" "vec_wf q" "v_dim q = dim"
  shows "\<forall>hc\<in>set hcs. at_live r lc es (hc_element hc) \<Longrightarrow> distinct (map hc_element hcs) \<Longrightarrow>
    \<exists>hcs' idx es'. load_for_insert es (Some q) r support i hcs = Inr (hcs', idx, es') \<and> map hc_element hcs' = map hc_element hcs \<and> length es' = length es \<and>
      (\<forall>p. p \<notin> hc_element ` set hcs \<longrightarrow> es' ! p = es ! p) \<and> (idx = -1 \<or> int i \<le> idx \<and> idx < int (i + length hcs)) \<and> (idx = -1 \<longrightarrow> cands_ok es' dim hcs)"
proof (induction hcs arbitrary: es i)
  case Nil
  then show ?case by (simp add: cands_ok_def)
next
  case (Cons hc hcs)
  let ?p = "hc_element hc"
  have p: "at_live r lc es ?p" "?p < length es" using Cons.prems(1) by (simp_all add: at_live_def)
  obtain x v w where l: "HnswLoadElement es ?p True (Some q) r support True None = Inr (Some x, es[?p := v])" "elem_tid v = elem_tid (es ! ?p)"
      "he_value v = Some w" "vec_wf w" "v_dim w = dim" using load_live [OF g d p(1)] by blast
  let ?es = "es[?p := v]" and ?hc = "hc\<lparr>hc_distance := f4_of_f8 x\<rparr>"
  have k: "at_live r lc ?es a = at_live r lc es a" for a using l(2) by (cases "a = ?p") (auto simp: at_live_def nth_list_update)
  have nin: "?p \<notin> hc_element ` set hcs" and dis: "distinct (map hc_element hcs)" using Cons.prems(2) by simp_all
  show ?case
  proof (cases "he_heaptids v = []")
    case True
    then have "load_for_insert es (Some q) r support i (hc # hcs) = Inr (?hc # hcs, int i, ?es)" using l(1) p(2) by simp
    then show ?thesis by (intro exI [of _ "?hc # hcs"] exI [of _ "int i"] exI [of _ ?es]) auto
  next
    case False
    from Cons.IH [of ?es "Suc i"] k Cons.prems(1) dis obtain hcs' idx es' where
      r: "load_for_insert ?es (Some q) r support (Suc i) hcs = Inr (hcs', idx, es')" "map hc_element hcs' = map hc_element hcs" "length es' = length es"
        "\<forall>p. p \<notin> hc_element ` set hcs \<longrightarrow> es' ! p = ?es ! p" "idx = -1 \<or> int (Suc i) \<le> idx \<and> idx < int (Suc i + length hcs)" "idx = -1 \<longrightarrow> cands_ok es' dim hcs" by auto
    have "load_for_insert es (Some q) r support i (hc # hcs) = Inr (?hc # hcs', idx, es')" using l(1) p(2) False r(1) by simp
    moreover have "es' ! ?p = v" using r(4) nin p(2) by simp
    then have "cand_value es' hc = Inr w" using p(2) r(3) l(3) by (simp add: cand_value_def)
    then have "idx = -1 \<longrightarrow> cands_ok es' dim (hc # hcs)" using r(6) l(4,5) by (simp add: cands_ok_def)
    ultimately show ?thesis using r(2-5) by (intro exI [of _ "?hc # hcs'"] exI [of _ idx] exI [of _ es']) auto
  qed
qed

lemma GetUpdateIndex_total:
  assumes g: "graph_ok vac m dim r" and d: "dist_ok support dim" and e: "p < length es" "loaded r (es ! p)" "live_tid r lc (elem_tid (es ! p))"
    and new: "new < length es" "he_value (es ! new) = Some v" "vec_wf v" "v_dim v = dim"
  shows "\<exists>idx es'. GetUpdateIndex es p new x m (HnswGetLayerM m lc) lc r support = Inr (idx, es') \<and>
    (idx = -1 \<or> idx = -2 \<or> 0 \<le> idx \<and> idx < int (HnswGetLayerM m lc))"
proof -
  let ?lm = "HnswGetLayerM m lc" and ?e = "es ! p"
  obtain et n where et: "at_tid r (elem_tid ?e) = Inr (ElementTup et)" "vec_wf (et_data et)" "v_dim (et_data et) = dim" by (rule graph_ok_live [OF g e(3)])
  have le: "he_level ?e = et_level et" "he_version ?e = et_version et" "he_neighborPage ?e = ip_blkid (et_neighbortid et)" "he_neighborOffno ?e = ip_posid (et_neighbortid et)"
      "he_value ?e = Some (et_data et)" using e(2) et(1) by (auto simp: loaded_def elem_tid_def ItemPointerSet_def)
  obtain tids where s: "HnswLoadNeighborTids ?e r m ?lm lc = Inr (Some tids)" "length tids = ?lm" "\<forall>x\<in>set tids. ItemPointerIsValid x \<longrightarrow> live_tid r lc x"
    using live_slice [OF g e(3)] et(1) slice_cong [OF le(1-4), of r m lc] by (auto simp: tid_tuple_at)
  obtain hcs es1 where h: "load_neighbor_elements es tids = (hcs, es1)" by force
  note hs = load_neighbor_elements_spec [OF h]
  have mx: "\<not> HNSW_MAX_M * 2 < length tids" using g s(2) by (simp add: graph_ok_def HnswGetLayerM_def)
  let ?a = "(HnswInitNeighborArray ?lm)\<lparr>na_items := hcs\<rparr>"
  have ln: "HnswLoadNeighbors es ?e r m ?lm lc = Inr (?a, es1)" using s(1) h mx by (simp add: HnswLoadNeighbors_def)
  have lh: "length hcs = length (takeWhile ItemPointerIsValid tids)" using hs by (metis length_map length_append length_upt add_diff_cancel_left')
  show ?thesis
  proof (cases "length hcs < ?lm")
    case True
    then show ?thesis using e(1) ln by (simp add: GetUpdateIndex_def)
  next
    case False
    have full: "length hcs = ?lm" using False lh s(2) length_takeWhile_le [of ItemPointerIsValid tids] by linarith
    have live: "\<forall>hc\<in>set hcs. at_live r lc es1 (hc_element hc)"
    proof
      fix hc assume "hc \<in> set hcs"
      then have "hc_element hc \<in> set (map hc_element hcs)" by simp
      then have k: "length es \<le> hc_element hc" "hc_element hc < length es1" using hs by auto
      let ?t = "takeWhile ItemPointerIsValid tids ! (hc_element hc - length es)"
      have b: "hc_element hc - length es < length (takeWhile ItemPointerIsValid tids)" using k hs by auto
      have "?t \<in> set (takeWhile ItemPointerIsValid tids)" by (rule nth_mem [OF b])
      then have "live_tid r lc ?t" using s(3) set_takeWhileD by fast
      moreover have "elem_tid (es1 ! hc_element hc) = ?t"
        using hs k(1) b by (simp add: nth_append elem_tid_def HnswInitElementFromBlock_def ItemPointer_collapse)
      ultimately show "at_live r lc es1 (hc_element hc)" using k(2) by (simp add: at_live_def)
    qed
    have dis: "distinct (map hc_element hcs)" using hs by simp
    obtain hcs' idx es2 where l: "load_for_insert es1 (Some (et_data et)) r support 0 hcs = Inr (hcs', idx, es2)" "map hc_element hcs' = map hc_element hcs" "length es2 = length es1"
        "\<forall>p. p \<notin> hc_element ` set hcs \<longrightarrow> es2 ! p = es1 ! p" "idx = -1 \<or> 0 \<le> idx \<and> idx < int (length hcs)" "idx = -1 \<longrightarrow> cands_ok es2 dim hcs"
      using load_for_insert_total [OF g d et(2,3) live dis, of 0] by auto
    show ?thesis
    proof (cases "idx = -1")
      case False
      then show ?thesis using e(1) ln full l(1,5) le(5) by (simp add: GetUpdateIndex_def LoadElementsForInsert_def)
    next
      case True
      have "new \<notin> hc_element ` set hcs"
      proof
        assume "new \<in> hc_element ` set hcs"
        then have "new \<in> set [length es..<length es1]" using hs by (metis set_map)
        then show False using new(1) by simp
      qed
      then have "es2 ! new = es ! new" using l(4) hs new(1) by (simp add: nth_append)
      then have nv: "cand_value es2 \<lparr>hc_element = new, hc_distance = x, hc_closer = False\<rparr> = Inr v" using new l(3) hs by (simp add: cand_value_def)
      have "cands_ok es2 dim hcs'" unfolding cands_ok_def
      proof
        fix hc assume "hc \<in> set hcs'"
        then have "hc_element hc \<in> hc_element ` set hcs" using l(2) by (metis image_eqI set_map)
        then obtain hc0 where "hc0 \<in> set hcs" "hc_element hc = hc_element hc0" by blast
        then show "\<exists>v. cand_value es2 hc = Inr v \<and> vec_wf v \<and> v_dim v = dim" using l(6) True cand_value_element [of hc hc0 es2] by (auto simp: cands_ok_def)
      qed
      then have c: "cands_ok es2 dim (na_items (?a\<lparr>na_items := hcs'\<rparr>) @ [\<lparr>hc_element = new, hc_distance = x, hc_closer = False\<rparr>])"
        using nv new(3,4) by (simp add: cands_ok_def)
      have lh': "length hcs' = ?lm" using l(2) full by (metis length_map)
      obtain a' upd where u: "HnswUpdateConnection es2 True (?a\<lparr>na_items := hcs'\<rparr>) new x ?lm support = Inr (a', upd)" "connected (?a\<lparr>na_items := hcs'\<rparr>) a' new ?lm upd"
        using HnswUpdateConnection_total [OF d c, of ?lm True] lh' by (auto simp: HnswInitNeighborArray_def)
      have "upd = None \<or> (\<exists>i. upd = Some i \<and> 0 \<le> i \<and> i < int ?lm)" using u(2) lh' by (auto simp: connected_def split: option.splits if_splits)
      moreover have "GetUpdateIndex es p new x m ?lm lc r support = Inr (case upd of None \<Rightarrow> -1 | Some i \<Rightarrow> i, es2)"
        using e(1) ln full l(1) le(5) True u(1) by (simp add: GetUpdateIndex_def LoadElementsForInsert_def)
      ultimately show ?thesis by auto
    qed
  qed
qed

lemma update_neighbors_total:
  assumes d: "dist_ok support dim" and v: "vec_wf v" "v_dim v = dim"
  shows "\<lbrakk>graph_ok vac m dim r; p < length es; he_value (es ! p) = Some v;
    \<forall>(lc, hc)\<in>set work. hc_element hc < length es \<and> loaded r (es ! hc_element hc) \<and> live_tid r lc (elem_tid (es ! hc_element hc)) \<and> live_tid r lc (elem_tid (es ! p))\<rbrakk> \<Longrightarrow>
   \<exists>r' es'. update_neighbors_loop es support p m chk work r = Inr (r', es') \<and> graph_ok vac m dim r' \<and> adds_links {elem_tid (es ! p)} r r'"
proof (induction work arbitrary: es r)
  case (Cons w work)
  obtain lc hc where w: "w = (lc, hc)" by (cases w)
  let ?p = "hc_element hc"
  have e: "?p < length es" "loaded r (es ! ?p)" "live_tid r lc (elem_tid (es ! ?p))" "live_tid r lc (elem_tid (es ! p))" using Cons.prems(4) w by auto
  have wf: "rel_wf r" using Cons.prems(1) by (simp add: graph_ok_def)
  note p0 = Cons.prems(2)
  obtain idx es1 where u: "GetUpdateIndex es ?p p (hc_distance hc) m (HnswGetLayerM m lc) lc r support = Inr (idx, es1)"
      "idx = -1 \<or> idx = -2 \<or> 0 \<le> idx \<and> idx < int (HnswGetLayerM m lc)"
    using GetUpdateIndex_total [OF Cons.prems(1) d e(1-3) p0 Cons.prems(3) v] by blast
  have gr: "grows es es1" by (rule GetUpdateIndex_grows [OF u(1)])
  have nth: "es1 ! i = es ! i" if "i < length es" for i by (rule grows_nth [OF gr that])
  have len: "length es \<le> length es1" by (rule grows_length [OF gr])
  have ne: "p < length es1" "he_value (es1 ! p) = Some v" using nth [OF p0] Cons.prems(2,3) len by auto
  have rest: "\<forall>(lc, hc)\<in>set work. hc_element hc < length es1 \<and> loaded r' (es1 ! hc_element hc) \<and> live_tid r' lc (elem_tid (es1 ! hc_element hc)) \<and> live_tid r' lc (elem_tid (es1 ! p))"
    if rp: "repaired r r'" for r'
  proof (intro ballI)
    fix y assume y: "y \<in> set work"
    obtain l h where lh: "y = (l, h)" by (cases y)
    then have "hc_element h < length es \<and> loaded r (es ! hc_element h) \<and> live_tid r l (elem_tid (es ! hc_element h)) \<and> live_tid r l (elem_tid (es ! p))" using Cons.prems(4) y by auto
    then show "case y of (lc, hc) \<Rightarrow> hc_element hc < length es1 \<and> loaded r' (es1 ! hc_element hc) \<and> live_tid r' lc (elem_tid (es1 ! hc_element hc)) \<and> live_tid r' lc (elem_tid (es1 ! p))"
      using nth [OF p0] nth [of "hc_element h"] len lh repaired_loaded [OF rp] repaired_live_tid [OF rp] by simp
  qed
  show ?case
  proof (cases "idx = -1")
    case True
    then show ?thesis using Cons.IH [OF Cons.prems(1) ne rest [OF repaired_refl [OF wf]]] u(1) w nth [OF p0] by simp
  next
    case False
    have nn: "nth_r es1 ?p = Inr (es ! ?p)" "nth_r es1 p = Inr (es ! p)" using e(1) p0 nth len by (auto simp: nth_r_def)
    obtain r1 where r1: "UpdateNeighborOnDisk (es ! ?p) (es ! p) idx m (HnswGetLayerM m lc) lc r chk = Inr r1" "graph_ok vac m dim r1" "adds_links {elem_tid (es ! p)} r r1"
      using link_neighbor_ok [OF Cons.prems(1) e(2,3,4)] u(2) False by blast
    have "repaired r r1" using UpdateNeighborOnDisk_repaired [OF r1(1) wf] by blast
    from Cons.IH [OF r1(2) ne rest [OF this]] obtain r' es' where "update_neighbors_loop es1 support p m chk work r1 = Inr (r', es')" "graph_ok vac m dim r'"
        "adds_links {elem_tid (es ! p)} r1 r'" unfolding nth [OF p0] by blast
    then show ?thesis using u(1) w False nn r1(1) adds_links_trans [OF r1(3)] by simp
  qed
qed simp

text \<open>The lists of the new element, layer by layer.\<close>

lemma HnswUpdateNeighbors_total:
  assumes g: "graph_ok vac m dim r" and d: "dist_ok support dim" and v: "vec_wf v" "v_dim v = dim" and es: "p < length es" "he_value (es ! p) = Some v"
    and ns: "he_neighbors (es ! p) = Some ns" "length ns = Suc (he_level (es ! p))"
    and k: "\<And>lc hc. lc \<le> he_level (es ! p) \<Longrightarrow> hc \<in> set (na_items (ns ! lc)) \<Longrightarrow> hc_element hc < length es \<and> loaded r (es ! hc_element hc) \<and> live_tid r lc (elem_tid (es ! hc_element hc))"
    and l: "\<And>lc. lc \<le> he_level (es ! p) \<Longrightarrow> live_tid r lc (elem_tid (es ! p))"
  shows "\<exists>r' es'. HnswUpdateNeighborsOnDisk es r support p m chk = Inr (r', es') \<and> graph_ok vac m dim r' \<and> repaired r r' \<and> read_meta r' = read_meta r \<and> grows es es' \<and> adds_links {elem_tid (es ! p)} r r'"
proof -
  let ?f = "\<lambda>lc. map (Pair lc) (na_items (ns ! lc))" and ?ls = "rev [0..<Suc (he_level (es ! p))]"
  have m: "mapM (\<lambda>lc. rbind (HnswGetNeighbors (es ! p) lc) (\<lambda>a. Inr (map (Pair lc) (na_items a)))) ?ls = Inr (map ?f ?ls)"
    by (rule mapM_total) (use ns in \<open>auto simp: HnswGetNeighbors_def simp del: upt_Suc\<close>)
  have w: "\<forall>(lc, hc)\<in>set (concat (map ?f ?ls)). hc_element hc < length es \<and> loaded r (es ! hc_element hc) \<and> live_tid r lc (elem_tid (es ! hc_element hc)) \<and> live_tid r lc (elem_tid (es ! p))"
    using k l by (auto simp: less_Suc_eq_le simp del: upt_Suc)
  obtain r' es' where u: "update_neighbors_loop es support p m chk (concat (map ?f ?ls)) r = Inr (r', es')" "graph_ok vac m dim r'" "adds_links {elem_tid (es ! p)} r r'"
    using update_neighbors_total [OF d v g es w] by blast
  have "rel_wf r" using g by (simp add: graph_ok_def)
  note rp = update_neighbors_repaired [OF u(1) this]
  have "HnswUpdateNeighborsOnDisk es r support p m chk = Inr (r', es')" using es(1) u(1) by (simp add: HnswUpdateNeighborsOnDisk_def m del: upt_Suc)
  then show ?thesis using u(2,3) rp by blast
qed

section \<open>Duplicates on disk\<close>

lemma add_duplicate_graph:
  assumes g: "graph_ok vac m dim r" and x: "tup_at r b off = Inr (ElementTup x)" "et_deleted x = 0"
    and r': "rel_wf r'" "same_pages r r'" "\<forall>c o'. tup_at r' c o' = (if c = b \<and> o' = off then Inr (ElementTup y) else tup_at r c o')"
    and y: "y = x\<lparr>et_heaptids := et_heaptids y\<rparr>" "packed y" "tup_tids y \<noteq> []"
  shows "graph_ok vac m dim r'"
proof -
  have l: "linked r" using g by (simp add: graph_ok_def)
  have nb: "nbr_at r' z = nbr_at r z" if z: "tup_at r c o' = Inr (ElementTup z)" for c o' z
  proof -
    obtain n where "nbr_at r z = Inr (NeighborTup n)" by (rule linkedD [OF l z])
    then show ?thesis using r'(3) x(1) by auto
  qed
  have yf: "et_deleted y = 0" "et_level y = et_level x" "et_neighbortid y = et_neighbortid x" "et_version y = et_version x" "et_data y = et_data x"
    by (subst y(1), simp add: x(2))+
  have lv: "live_tid r' lc t \<longleftrightarrow> live_tid r lc t" for lc t
    unfolding live_tid_iff using r'(3) x yf by auto
  have old: "\<exists>z0. tup_at r c o' = Inr (ElementTup z0) \<and> et_neighbortid z = et_neighbortid z0 \<and> et_version z = et_version z0 \<and> et_level z = et_level z0 \<and> et_data z = et_data z0 \<and>
      (z = z0 \<or> z = y \<and> z0 = x)" if z: "tup_at r' c o' = Inr (ElementTup z)" for c o' z
    using z r'(3) x(1) yf by (auto split: if_splits)
  have "tuple_ok vac m dim r' z" if z: "tup_at r' c o' = Inr (ElementTup z)" for c o' z
  proof -
    obtain z0 where z0: "tup_at r c o' = Inr (ElementTup z0)" "et_neighbortid z = et_neighbortid z0" "et_level z = et_level z0" "et_data z = et_data z0" "z = z0 \<or> z = y \<and> z0 = x"
      using old [OF z] by blast
    have k: "tuple_ok vac m dim r z0" using g z0(1) unfolding graph_ok_def by blast
    have n: "nbr_at r' z = nbr_at r z0" using nb [OF z0(1)] z0(2) by simp
    show ?thesis
    proof (cases "z = z0")
      case True
      then show ?thesis using k n slots_ok_live [of m r _ _ r'] lv unfolding tuple_ok_def by (metis (no_types, lifting))
    next
      case False
      then have "z = y" "z0 = x" using z0(5) by simp_all
      then show ?thesis using k n x(2) y(2,3) yf slots_ok_live [of m r _ _ r'] lv unfolding tuple_ok_def by (auto simp: slots_ok_def)
    qed
  qed
  moreover have "linked r'" unfolding linked_def
  proof (intro conjI allI impI)
    fix c o' z assume z: "tup_at r' c o' = Inr (ElementTup z)"
    obtain z0 where z0: "tup_at r c o' = Inr (ElementTup z0)" "et_neighbortid z = et_neighbortid z0" "et_version z = et_version z0" "z = z0 \<or> z = y \<and> z0 = x" using old [OF z] by blast
    obtain n where n: "nbr_at r z0 = Inr (NeighborTup n)" "nt_count n = length (nt_indextids n)" "nt_version n = et_version z0" "length (et_heaptids z0) = HNSW_HEAPTIDS"
      by (rule linkedD [OF l z0(1)])
    show "length (et_heaptids z) = HNSW_HEAPTIDS" using z0(4) n(4) y(2) by (auto simp: packed_def)
    show "\<exists>n. nbr_at r' z = Inr (NeighborTup n) \<and> nt_count n = length (nt_indextids n) \<and> nt_version n = et_version z" using n z0 nb [OF z0(1)] by auto
    fix c2 o2 z2 assume z2: "tup_at r' c2 o2 = Inr (ElementTup z2)" and e: "et_neighbortid z = et_neighbortid z2"
    obtain z3 where z3: "tup_at r c2 o2 = Inr (ElementTup z3)" "et_neighbortid z2 = et_neighbortid z3" using old [OF z2] by blast
    have "c = c2 \<and> o' = o2" using linked_inj [OF l z0(1) z3(1)] z0(2) z3(2) e by simp
    then show "c = c2" "o' = o2" by simp_all
  qed
  moreover have "seq_chain r'" using g r'(2) seq_chain_same unfolding graph_ok_def by blast
  ultimately show ?thesis using g r'(1) unfolding graph_ok_def by blast
qed

lemma AddDuplicate_ok:
  assumes g: "graph_ok vac m dim r" and x: "tup_at r (he_blkno dup) (he_offno dup) = Inr (ElementTup x)" "et_deleted x = 0"
    and t: "he_heaptids element = [tid]" "ItemPointerIsValid tid"
  shows "AddDuplicateOnDisk r element dup = Inr (False, r) \<or>
    (\<exists>r'. AddDuplicateOnDisk r element dup = Inr (True, r') \<and> graph_ok vac m dim r' \<and> index_entries r' = add_mset (tid, et_data x) (index_entries r) \<and>
       same_pages r r' \<and> read_meta r' = read_meta r \<and> (\<forall>lc t. live_tid r' lc t \<longleftrightarrow> live_tid r lc t))"
proof (cases "tup_tids x = [] \<or> length (tup_tids x) = HNSW_HEAPTIDS")
  case full: True
  have k: "packed x" using g x unfolding graph_ok_def tuple_ok_def by auto
  have "rel_wf r" using g by (simp add: graph_ok_def)
  from AddDuplicateOnDisk_spec [OF this x(1) k t] show ?thesis using full by simp
next
  case False
  let ?b = "he_blkno dup" and ?off = "he_offno dup"
  have k: "packed x" using g x unfolding graph_ok_def tuple_ok_def by auto
  have wf: "rel_wf r" using g by (simp add: graph_ok_def)
  obtain r' y where y: "AddDuplicateOnDisk r element dup = Inr (True, r')" "rel_wf r'" "tup_tids y = tup_tids x @ [tid]" "packed y"
      "\<forall>b off. tup_at r' b off = (if b = ?b \<and> off = ?off then Inr (ElementTup y) else tup_at r b off)"
    using AddDuplicateOnDisk_spec [OF wf x(1) k t] False by auto
  obtain p where p: "read_page r ?b = Inr p" "page_tuple p ?off = Inr (ElementTup x)" using x(1) by (auto simp: tup_at_def rbind_InrE)
  obtain h where h: "r' = set_tuple r ?b p ?off (ElementTup (x\<lparr>et_heaptids := h\<rparr>))"
    using y(1) p element_tuple_at [THEN iffD2, OF p(2)] by (auto simp: AddDuplicateOnDisk_def Let_def rbind_InrE set_tuple_def split: if_splits)
  have "replace_ok r (ElementTup x) (ElementTup (x\<lparr>et_heaptids := h\<rparr>))" using x(2) by (simp add: replace_ok_def)
  then have "tup_at r' ?b ?off = Inr (ElementTup (x\<lparr>et_heaptids := h\<rparr>))" unfolding h using set_tuple_spec(2) [OF wf p, of "ElementTup (x\<lparr>et_heaptids := h\<rparr>)"] by (simp add: tuple_size_def)
  then have yx: "y = x\<lparr>et_heaptids := h\<rparr>" using y(5) by simp
  have sp: "same_pages r r'" unfolding h set_tuple_def by (rule write_page_pages [OF p(1)]) simp
  have me: "read_meta r' = read_meta r" unfolding h set_tuple_def by (rule read_meta_write_page [OF rel_wf_page(1) [OF wf p(1)]])
  have gr: "graph_ok vac m dim r'" by (rule add_duplicate_graph [OF g x y(2) sp y(5) _ y(4)]) (simp_all add: yx, use y(3) yx in simp)
  have lv: "live_tid r' lc t \<longleftrightarrow> live_tid r lc t" for lc t unfolding live_tid_iff using y(5) x yx by auto
  have "index_entries r' = index_entries r + {#(tid, et_data x)#}"
  proof (rule index_entries_add)
    show "tup_at r' b off = Inr (ElementTup z) \<longleftrightarrow> (b = ?b \<and> off = ?off \<and> z = y) \<or> (\<not> (b = ?b \<and> off = ?off) \<and> tup_at r b off = Inr (ElementTup z))" for b off z
      using y(5) by auto
    show "tup_entries y = tup_entries z + {#(tid, et_data x)#}" if "tup_at r ?b ?off = Inr (ElementTup z)" for z
      using that x(1) y(3) yx by (simp add: tup_entries_def)
    show "tup_entries y = {#(tid, et_data x)#}" if "ItemPointerSet ?b ?off \<notin> elem_tids r" using that x(1) by (simp add: elem_tids_iff)
  qed
  then show ?thesis using y(1) gr sp me lv by auto
qed

lemma find_duplicate_total:
  assumes g: "graph_ok vac m dim r" and e: "he_heaptids element = [tid]" "ItemPointerIsValid tid" "he_value element = Some v"
  shows "\<forall>hc\<in>set hcs. hc_element hc < length es \<and> loaded r (es ! hc_element hc) \<and> live_tid r 0 (elem_tid (es ! hc_element hc)) \<Longrightarrow>
    find_duplicate_loop es r element hcs = Inr (False, r) \<or>
    (\<exists>r'. find_duplicate_loop es r element hcs = Inr (True, r') \<and> graph_ok vac m dim r' \<and> index_entries r' = add_mset (tid, v) (index_entries r) \<and>
       same_pages r r' \<and> read_meta r' = read_meta r \<and> (\<forall>lc t. live_tid r' lc t \<longleftrightarrow> live_tid r lc t))"
proof (induction hcs)
  case (Cons hc hcs)
  let ?ne = "es ! hc_element hc"
  have l: "hc_element hc < length es" "loaded r ?ne" "live_tid r 0 (elem_tid ?ne)" using Cons.prems by simp_all
  obtain x where x: "tup_at r (he_blkno ?ne) (he_offno ?ne) = Inr (ElementTup x)" "et_deleted x = 0"
    using l(3) by (auto simp: live_tid_iff elem_tid_def ItemPointerSet_def)
  have nv: "he_value ?ne = Some (et_data x)" using l(2) x(1) by (auto simp: loaded_def)
  show ?case
  proof (cases "v = et_data x")
    case False
    then show ?thesis using l(1) e(3) nv by (simp add: datumIsEqual_iff)
  next
    case True
    have eq: "find_duplicate_loop es r element (hc # hcs) =
        rbind (AddDuplicateOnDisk r element ?ne) (\<lambda>(ok, index1). if ok then Inr (True, index1) else find_duplicate_loop es r element hcs)"
      using l(1) e(3) nv True by (simp add: datumIsEqual_iff)
    show ?thesis using AddDuplicate_ok [OF g x e(1,2)] Cons.IH Cons.prems True unfolding eq by auto
  qed
qed simp

section \<open>A well-formed index\<close>

text \<open>The graph, and the metapage: an insert page of the chain, and an entry point that is an element of the level recorded; only an index without elements has none.\<close>

definition entry_ok_disk :: "Relation \<Rightarrow> HnswMetaPageData \<Rightarrow> bool" where
  "entry_ok_disk r mp \<longleftrightarrow> (if mp_entryBlkno mp = InvalidBlockNumber then mp_entryLevel mp = -1 \<and> (\<forall>b off et. tup_at r b off = Inr (ElementTup et) \<longrightarrow> et_deleted et \<noteq> 0)
     else \<exists>et. tup_at r (mp_entryBlkno mp) (mp_entryOffno mp) = Inr (ElementTup et) \<and> et_deleted et = 0 \<and> mp_entryLevel mp = int (et_level et))"

definition disk_ok :: "nat \<Rightarrow> int \<Rightarrow> Relation \<Rightarrow> bool" where
  "disk_ok m dim r \<longleftrightarrow> graph_ok False m dim r \<and> dim \<le> HNSW_MAX_DIM \<and>
     (\<exists>mp. read_meta r = Inr mp \<and> mp_magicNumber mp = HNSW_MAGIC_NUMBER \<and> mp_m mp = m \<and> block_ok r (mp_insertPage mp) \<and> entry_ok_disk r mp)"

lemma graph_ok_meta:
  assumes g: "graph_ok vac m dim r" and mp: "read_meta r = Inr mp"
  shows "graph_ok vac m dim (write_meta r mp')"
proof -
  note w = write_meta_spec [OF mp, of mp']
  have lv: "live_tid (write_meta r mp') lc t = live_tid r lc t" for lc t by (simp add: live_tid_iff w(3))
  have t: "tuple_ok vac m dim (write_meta r mp') x = tuple_ok vac m dim r x" for x unfolding tuple_ok_def slots_ok_def w(3) lv ..
  have "seq_chain (write_meta r mp') = seq_chain r" unfolding seq_chain_def w(2,4) ..
  moreover have "linked (write_meta r mp') = linked r" unfolding linked_def w(3) ..
  moreover have "rel_wf (write_meta r mp')" using write_meta_wf [OF _ mp] g by (simp add: graph_ok_def)
  ultimately show ?thesis using g unfolding graph_ok_def t w(3) by blast
qed

lemma max_level_byte: "l \<le> HnswGetMaxLevel m \<Longrightarrow> l < 256"
  by (simp add: HnswGetMaxLevel_def Let_def)

lemma entry_ok_live:
  "entry_ok_disk r mp \<longleftrightarrow> (if mp_entryBlkno mp = InvalidBlockNumber then mp_entryLevel mp = -1 \<and> (\<forall>t. \<not> live_tid r 0 t)
     else 0 \<le> mp_entryLevel mp \<and> live_tid r (nat (mp_entryLevel mp)) (ItemPointerSet (mp_entryBlkno mp) (mp_entryOffno mp)) \<and>
       \<not> live_tid r (Suc (nat (mp_entryLevel mp))) (ItemPointerSet (mp_entryBlkno mp) (mp_entryOffno mp)))"
proof -
  have "(\<forall>b off et. tup_at r b off = Inr (ElementTup et) \<longrightarrow> et_deleted et \<noteq> 0) \<longleftrightarrow> (\<forall>t. \<not> live_tid r 0 t)"
  proof
    assume a: "\<forall>t. \<not> live_tid r 0 t"
    show "\<forall>b off et. tup_at r b off = Inr (ElementTup et) \<longrightarrow> et_deleted et \<noteq> 0"
    proof (intro allI impI notI)
      fix b off et assume "tup_at r b off = Inr (ElementTup et)" "et_deleted et = 0"
      then have "live_tid r 0 (ItemPointerSet b off)" by (simp add: live_tid_iff ItemPointerSet_def)
      then show False using a by blast
    qed
  qed (auto simp: live_tid_iff)
  then show ?thesis unfolding entry_ok_disk_def live_tid_iff by (auto simp: ItemPointerSet_def)
qed

lemma disk_ok_same:
  assumes "disk_ok m dim r" "graph_ok False m dim r'" "read_meta r' = read_meta r" "length (rel_blocks r') = length (rel_blocks r)" "\<forall>lc t. live_tid r' lc t \<longleftrightarrow> live_tid r lc t"
  shows "disk_ok m dim r'"
proof -
  have "entry_ok_disk r' mp = entry_ok_disk r mp" "block_ok r' b = block_ok r b" for mp b using assms(4,5) by (simp_all add: entry_ok_live block_ok_def)
  then show ?thesis using assms(1-3) by (simp add: disk_ok_def)
qed

text \<open>The metapage after an insertion: the insert page that was found, and the new element as the entry point when it is the highest.\<close>

lemma insert_page_update:
  assumes g: "graph_ok False m dim r" and mp: "read_meta r = Inr mp" "block_ok r (mp_insertPage mp)" and nip: "\<forall>b. nip = Some b \<longrightarrow> block_ok r b"
  shows "\<exists>r' mp'. (case nip of None \<Rightarrow> Inr r | Some b \<Rightarrow> HnswUpdateMetaPage r NoUpdate None b) = Inr r' \<and> read_meta r' = Inr mp' \<and> graph_ok False m dim r' \<and>
    (\<forall>b off. tup_at r' b off = tup_at r b off) \<and> length (rel_blocks r') = length (rel_blocks r) \<and> mp' = mp\<lparr>mp_insertPage := mp_insertPage mp'\<rparr> \<and>
    block_ok r' (mp_insertPage mp')"
proof (cases nip)
  case None
  then show ?thesis using g mp by auto
next
  case (Some b)
  let ?mp = "HnswUpdateMetaPageInfo mp NoUpdate None b"
  note w = write_meta_spec [OF mp(1), of ?mp]
  have "(case nip of None \<Rightarrow> Inr r | Some b \<Rightarrow> HnswUpdateMetaPage r NoUpdate None b) = Inr (write_meta r ?mp)" using Some mp(1) by (simp add: HnswUpdateMetaPage_def)
  moreover have "?mp = mp\<lparr>mp_insertPage := mp_insertPage ?mp\<rparr>" "block_ok (write_meta r ?mp) (mp_insertPage ?mp)"
    using Some nip mp(2) w(4) by (auto simp: HnswUpdateMetaPageInfo_def Let_def block_ok_def)
  ultimately show ?thesis using w graph_ok_meta [OF g mp(1)] by blast
qed

lemma entry_point_update:
  assumes g: "graph_ok False m dim r" "dim \<le> HNSW_MAX_DIM" and len: "length (rel_blocks r) \<le> InvalidBlockNumber"
    and mp: "read_meta r = Inr mp" "mp_magicNumber mp = HNSW_MAGIC_NUMBER" "mp_m mp = m" "block_ok r (mp_insertPage mp)"
    and old: "if mp_entryBlkno mp = InvalidBlockNumber then upd \<and> mp_entryLevel mp = -1 else entry_ok_disk r mp"
    and e: "tup_at r (he_blkno e) (he_offno e) = Inr (ElementTup et)" "et_deleted et = 0" "et_level et = he_level e"
  shows "\<exists>r'. (if upd then HnswUpdateMetaPage r UpdateGreater (Some e) InvalidBlockNumber else Inr r) = Inr r' \<and> disk_ok m dim r' \<and>
    (\<forall>b off. tup_at r' b off = tup_at r b off) \<and> length (rel_blocks r') = length (rel_blocks r)"
proof (cases upd)
  case False
  then show ?thesis using g mp old by (auto simp: disk_ok_def split: if_splits)
next
  case True
  let ?mp = "HnswUpdateMetaPageInfo mp UpdateGreater (Some e) InvalidBlockNumber"
  note w = write_meta_spec [OF mp(1), of ?mp]
  have f: "mp_magicNumber ?mp = HNSW_MAGIC_NUMBER" "mp_m ?mp = m" "mp_insertPage ?mp = mp_insertPage mp" using mp by (simp_all add: HnswUpdateMetaPageInfo_def Let_def)
  have "entry_ok_disk (write_meta r ?mp) ?mp"
  proof (cases "int (he_level e) > mp_entryLevel mp")
    case hi: True
    then have "mp_entryBlkno ?mp = he_blkno e" "mp_entryOffno ?mp = he_offno e" "mp_entryLevel ?mp = int (he_level e)" by (simp_all add: HnswUpdateMetaPageInfo_def Let_def)
    moreover have "he_blkno e \<noteq> InvalidBlockNumber" using tup_at_page [OF e(1)] len by auto
    ultimately show ?thesis using e w(3) by (auto simp: entry_ok_disk_def)
  next
    case False
    then have "?mp = mp" "mp_entryBlkno mp \<noteq> InvalidBlockNumber" using old by (auto simp: HnswUpdateMetaPageInfo_def Let_def split: if_splits)
    then show ?thesis using old w(3) by (simp add: entry_ok_disk_def)
  qed
  then have "disk_ok m dim (write_meta r ?mp)" using graph_ok_meta [OF g(1) mp(1)] g(2) w(1,4) f mp(4) by (auto simp: disk_ok_def block_ok_def)
  then show ?thesis using True mp(1) w(3,4) by (auto simp: HnswUpdateMetaPage_def)
qed

text \<open>Linking a new element that has been placed.\<close>

lemma link_new_disk:
  assumes g: "graph_ok False m dim r" "graph_ok False m dim r2" and d: "dist_ok support dim" and v: "vec_wf v" "v_dim v = dim" and es: "es \<noteq> []" "new_ok 0 m r es"
    and e: "he_level e = he_level (es ! 0)" "he_value e = Some v" "he_neighbors e = he_neighbors (es ! 0)"
    and ke: "\<And>b off et. tup_at r b off = Inr (ElementTup et) \<Longrightarrow> et_deleted et = 0 \<Longrightarrow> tup_at r2 b off = Inr (ElementTup et)"
    and at: "tup_at r2 (he_blkno e) (he_offno e) = Inr (ElementTup et)" "et_deleted et = 0" "et_level et = he_level e"
  shows "\<exists>r' es'. HnswUpdateNeighborsOnDisk (es[0 := e]) r2 support 0 m False = Inr (r', es') \<and> graph_ok False m dim r' \<and> repaired r2 r' \<and> read_meta r' = read_meta r2 \<and>
    grows (es[0 := e]) es'"
proof -
  let ?es = "es[0 := e]"
  have p0: "0 < length es" "0 < length ?es" using es(1) by auto
  have h0: "?es ! 0 = e" using p0(1) by simp
  obtain ns where ns: "he_neighbors (es ! 0) = Some ns" "length ns = Suc (he_level (es ! 0))" "\<forall>lc\<le>he_level (es ! 0). arr_ok 0 m r es lc (ns ! lc)"
    using es(2) by (auto simp: new_ok_def)
  have k: "hc_element hc < length ?es \<and> loaded r2 (?es ! hc_element hc) \<and> live_tid r2 lc (elem_tid (?es ! hc_element hc))"
    if lc: "lc \<le> he_level (?es ! 0)" "hc \<in> set (na_items (ns ! lc))" for lc hc
  proof -
    have i: "0 < hc_element hc" "hc_element hc < length es" "loaded r (es ! hc_element hc)" "live_tid r lc (elem_tid (es ! hc_element hc))"
      using lc e(1) h0 ns(3) by (auto simp: arr_ok_def)
    obtain x where x: "tup_at r (he_blkno (es ! hc_element hc)) (he_offno (es ! hc_element hc)) = Inr (ElementTup x)" "et_deleted x = 0" "lc \<le> et_level x"
      using i(4) by (auto simp: live_tid_iff elem_tid_def ItemPointerSet_def)
    have "tup_at r2 (he_blkno (es ! hc_element hc)) (he_offno (es ! hc_element hc)) = Inr (ElementTup x)" by (rule ke [OF x(1,2)])
    then show ?thesis using i(1,2,3) x by (auto simp: loaded_def live_tid_iff elem_tid_def ItemPointerSet_def)
  qed
  have l: "live_tid r2 lc (elem_tid (?es ! 0))" if "lc \<le> he_level (?es ! 0)" for lc
    using at that h0 by (auto simp: live_tid_iff elem_tid_def ItemPointerSet_def)
  have nz: "he_value (?es ! 0) = Some v" "he_neighbors (?es ! 0) = Some ns" "length ns = Suc (he_level (?es ! 0))" using h0 e ns by simp_all
  show ?thesis using HnswUpdateNeighbors_total [OF g(2) d v p0(2) nz k l] by blast
qed

text \<open>The whole update of the graph: a duplicate gets the heap TID, or the element is added.\<close>

lemma update_graph_disk:
  assumes ok: "disk_ok m dim r" and d: "dist_ok support dim" and len: "Suc (length (rel_blocks r)) < InvalidBlockNumber"
    and v: "vec_wf v" "v_dim v = dim" "ItemPointerIsValid tid"
    and es: "es \<noteq> []" "new_ok 0 m r es" "he_level (es ! 0) \<le> HnswGetMaxLevel m" "he_value (es ! 0) = Some v" "he_heaptids (es ! 0) = [tid]"
    and mp: "read_meta r = Inr mp" and entry: "if mp_entryBlkno mp = InvalidBlockNumber then entry = None else entry = Some 1 \<and> 1 < length es"
  shows "\<exists>r' es'. UpdateGraphOnDisk es r support 0 m entry = Inr (r', es') \<and> disk_ok m dim r' \<and> index_entries r' = add_mset (tid, v) (index_entries r) \<and>
    length (rel_blocks r') \<le> length (rel_blocks r) + 2"
proof -
  have g: "graph_ok False m dim r" and dim: "dim \<le> HNSW_MAX_DIM" and mp_ok: "mp_magicNumber mp = HNSW_MAGIC_NUMBER" "mp_m mp = m" "block_ok r (mp_insertPage mp)" "entry_ok_disk r mp"
    using ok mp by (auto simp: disk_ok_def)
  have ne: "es \<noteq> []" and p0: "0 < length es" using es(1) by simp_all
  obtain ns where ns: "he_neighbors (es ! 0) = Some ns" "length ns = Suc (he_level (es ! 0))" "\<forall>lc\<le>he_level (es ! 0). arr_ok 0 m r es lc (ns ! lc)"
    using es(2) by (auto simp: new_ok_def)
  have it: "0 < hc_element hc \<and> hc_element hc < length es \<and> loaded r (es ! hc_element hc) \<and> live_tid r lc (elem_tid (es ! hc_element hc))"
    if "lc \<le> he_level (es ! 0)" "hc \<in> set (na_items (ns ! lc))" for lc hc using that ns(3) by (auto simp: arr_ok_def)
  have n0: "HnswGetNeighbors (es ! 0) 0 = Inr (ns ! 0)" using ns by (simp add: HnswGetNeighbors_def)
  have fd: "FindDuplicateOnDisk es r 0 = find_duplicate_loop es r (es ! 0) (na_items (ns ! 0))" using p0 n0 by (simp add: FindDuplicateOnDisk_def)
  have "\<forall>hc\<in>set (na_items (ns ! 0)). hc_element hc < length es \<and> loaded r (es ! hc_element hc) \<and> live_tid r 0 (elem_tid (es ! hc_element hc))" using it by blast
  from find_duplicate_total [OF g es(5) v(3) es(4) this] consider (no) "FindDuplicateOnDisk es r 0 = Inr (False, r)"
    | (dup) r' where "FindDuplicateOnDisk es r 0 = Inr (True, r')" "graph_ok False m dim r'" "index_entries r' = add_mset (tid, v) (index_entries r)" "same_pages r r'"
      "read_meta r' = read_meta r" "\<forall>lc t. live_tid r' lc t \<longleftrightarrow> live_tid r lc t" unfolding fd by blast
  then show ?thesis
  proof cases
    case dup
    have l: "length (rel_blocks r') = length (rel_blocks r)" using dup(4) by (simp add: same_pages_def)
    have "UpdateGraphOnDisk es r support 0 m entry = Inr (r', es)" using dup(1) by (simp add: UpdateGraphOnDisk_def)
    then show ?thesis using dup disk_ok_same [OF ok dup(2,5) l dup(6)] l by auto
  next
    case no
    obtain r2 e nip et where a: "AddElementOnDisk r es 0 m (mp_insertPage mp) = Inr (r2, es[0 := e], nip)" and g2: "graph_ok False m dim r2"
        and en: "index_entries r2 = add_mset (tid, v) (index_entries r)"
        and ke: "\<And>b off et. tup_at r b off = Inr (ElementTup et) \<Longrightarrow> et_deleted et = 0 \<Longrightarrow> tup_at r2 b off = Inr (ElementTup et)"
        and ln: "length (rel_blocks r) \<le> length (rel_blocks r2)" "length (rel_blocks r2) \<le> length (rel_blocks r) + 2" and nb: "\<forall>b. nip = Some b \<longrightarrow> block_ok r2 b"
        and e: "he_level e = he_level (es ! 0)" "he_value e = Some v" "he_neighbors e = he_neighbors (es ! 0)"
        and at: "tup_at r2 (he_blkno e) (he_offno e) = Inr (ElementTup et)" "et_deleted et = 0" "et_level et = he_level (es ! 0)"
      using add_element_ok [OF g len mp_ok(3) dim es(2) ne es(3-5) v] by blast
    have m2: "read_meta r2 = Inr mp" "block_ok r2 (mp_insertPage mp)" using AddElementOnDisk_meta [OF a mp] mp_ok(3) ln by (auto simp: block_ok_def)
    obtain r3 mp3 where r3: "(case nip of None \<Rightarrow> Inr r2 | Some b \<Rightarrow> HnswUpdateMetaPage r2 NoUpdate None b) = Inr r3" "read_meta r3 = Inr mp3" "graph_ok False m dim r3"
        "\<forall>b off. tup_at r3 b off = tup_at r2 b off" "length (rel_blocks r3) = length (rel_blocks r2)" "block_ok r3 (mp_insertPage mp3)"
        and mp3: "mp3 = mp\<lparr>mp_insertPage := mp_insertPage mp3\<rparr>"
      using insert_page_update [OF g2 m2 nb] by blast
    have k3: "tup_at r3 b off = Inr (ElementTup x)" if "tup_at r b off = Inr (ElementTup x)" "et_deleted x = 0" for b off x using ke [OF that] r3(4) by simp
    have at3: "tup_at r3 (he_blkno e) (he_offno e) = Inr (ElementTup et)" "et_level et = he_level e" using at r3(4) e(1) by simp_all
    obtain r4 es4 where u: "HnswUpdateNeighborsOnDisk (es[0 := e]) r3 support 0 m False = Inr (r4, es4)" "graph_ok False m dim r4" "repaired r3 r4" "read_meta r4 = read_meta r3"
        "grows (es[0 := e]) es4"
      using link_new_disk [OF g r3(3) d v(1,2) es(1,2) e k3 at3(1) at(2) at3(2)] by blast
    have n4: "nth_r es4 0 = Inr e" "entry = Some 1 \<Longrightarrow> nth_r es4 1 = Inr (es4 ! 1)"
      using grows_nth [OF u(5), of 0] grows_length [OF u(5)] p0 entry by (auto simp: nth_r_def split: if_splits)
    have el4: "tup_at r4 b off = Inr (ElementTup x) \<longleftrightarrow> tup_at r2 b off = Inr (ElementTup x)" for b off x using repaired_element [OF u(3)] r3(4) by simp
    have l4: "length (rel_blocks r4) = length (rel_blocks r2)" using u(3) r3(5) by (simp add: repaired_def same_pages_def)
    define upd where "upd = (case entry of None \<Rightarrow> True | Some ep \<Rightarrow> he_level e > he_level (es4 ! ep))"
    have f3: "mp_magicNumber mp3 = HNSW_MAGIC_NUMBER" "mp_m mp3 = m" "mp_entryBlkno mp3 = mp_entryBlkno mp" "mp_entryOffno mp3 = mp_entryOffno mp" "mp_entryLevel mp3 = mp_entryLevel mp"
      by (subst mp3, simp add: mp_ok)+
    have old: "if mp_entryBlkno mp3 = InvalidBlockNumber then upd \<and> mp_entryLevel mp3 = -1 else entry_ok_disk r4 mp3"
      using entry mp_ok(4) ke el4 by (auto simp: upd_def entry_ok_disk_def f3)
    have m4: "read_meta r4 = Inr mp3" "block_ok r4 (mp_insertPage mp3)" "length (rel_blocks r4) \<le> InvalidBlockNumber"
      using u(4) r3(2,5,6) l4 ln(2) len by (auto simp: block_ok_def)
    have at4: "tup_at r4 (he_blkno e) (he_offno e) = Inr (ElementTup et)" using at el4 by simp
    obtain r5 where r5: "(if upd then HnswUpdateMetaPage r4 UpdateGreater (Some e) InvalidBlockNumber else Inr r4) = Inr r5" "disk_ok m dim r5"
        "\<forall>b off. tup_at r5 b off = tup_at r4 b off" "length (rel_blocks r5) = length (rel_blocks r4)"
      using entry_point_update [OF u(2) dim m4(3,1) f3(1,2) m4(2) old at4 at(2) at3(2)] by blast
    have "(case entry of None \<Rightarrow> Inr True | Some ep \<Rightarrow> rbind (nth_r es4 ep) (\<lambda>ee. Inr (he_level e > he_level ee))) = Inr upd"
      using entry n4(2) by (auto simp: upd_def split: if_splits)
    then have "UpdateGraphOnDisk es r support 0 m entry = Inr (r5, es4)"
      using no a r3(1) u(1) n4(1) mp r5(1) by (simp add: UpdateGraphOnDisk_def GetInsertPage_def)
    moreover have "index_entries r5 = index_entries r2" by (rule index_entries_cong) (simp add: r5(3) el4)
    ultimately show ?thesis using r5(2,4) en l4 ln(2) by auto
  qed
qed

section \<open>Inserting a tuple\<close>

lemma insert_tuple_disk:
  assumes ok: "disk_ok m dim r" and d: "dist_ok support dim" and len: "Suc (length (rel_blocks r)) < InvalidBlockNumber"
    and v: "vec_wf v" "v_dim v = dim" "ItemPointerIsValid tid"
  shows "\<exists>r'. HnswInsertTupleOnDisk r support v tid randomLevel = Inr r' \<and> disk_ok m dim r' \<and> index_entries r' = add_mset (tid, v) (index_entries r) \<and>
    length (rel_blocks r') \<le> length (rel_blocks r) + 2"
proof -
  obtain mp where g: "graph_ok False m dim r" and mp: "read_meta r = Inr mp" "mp_magicNumber mp = HNSW_MAGIC_NUMBER" "mp_m mp = m" "entry_ok_disk r mp"
    using ok by (auto simp: disk_ok_def)
  let ?l = "min randomLevel (HnswGetMaxLevel m)"
  define el where "el = new_element tid m ?l v"
  have fl: "he_level el = ?l" "he_value el = Some v" "he_heaptids el = [tid]" "he_blkno el = 0" by (simp_all add: el_def new_element_def raw_element_def)
  let ?b = "mp_entryBlkno mp" and ?off = "mp_entryOffno mp"
  define ep where "ep = (if ?b \<noteq> InvalidBlockNumber then Some ((HnswInitElementFromBlock ?b ?off)\<lparr>he_level := nat (mp_entryLevel mp mod 256)\<rparr>) else None)"
  have i: "HnswGetMetaPageInfo r = Inr (m, ep)" "HnswGetEntryPoint r = Inr ep" using mp by (simp_all add: HnswGetEntryPoint_def HnswGetMetaPageInfo_def ep_def)
  let ?es = "el # (case ep of None \<Rightarrow> [] | Some e \<Rightarrow> [e])" and ?en = "case ep of None \<Rightarrow> None | Some _ \<Rightarrow> Some (1::nat)"
  have "\<exists>es' ns. HnswFindElementNeighbors ?es True 0 ?en (Some r) support m (HnswGetEfConstruction r) False = Inr es' \<and> es' \<noteq> [] \<and> new_ok 0 m r es' \<and>
      es' ! 0 = el\<lparr>he_neighbors := ns\<rparr> \<and> (?b \<noteq> InvalidBlockNumber \<longrightarrow> 1 < length es')"
  proof (cases "?b = InvalidBlockNumber")
    case True
    have "new_ok 0 m r [el]" by (rule unconnected_ok) (use unconnected_new in \<open>simp add: el_def\<close>)
    then show ?thesis using True fl(4) by (intro exI [of _ "[el]"] exI [of _ "he_neighbors el"]) (simp add: ep_def HnswFindElementNeighbors_def)
  next
    case False
    then obtain et where et: "tup_at r ?b ?off = Inr (ElementTup et)" "et_deleted et = 0" using mp(4) by (auto simp: entry_ok_disk_def)
    let ?es' = "[el, (HnswInitElementFromBlock ?b ?off)\<lparr>he_level := nat (mp_entryLevel mp mod 256)\<rparr>]"
    have "\<exists>es' ns. HnswFindElementNeighbors ?es' True 0 (Some 1) (Some r) support m (HnswGetEfConstruction r) False = Inr es' \<and> new_ok 0 m r es' \<and>
        es' ! 0 = (?es' ! 0)\<lparr>he_neighbors := ns\<rparr> \<and> length ?es' \<le> length es'"
      by (rule find_neighbors_at [OF g d v(1,2), where et = et]) (use et unconnected_new in \<open>auto simp: el_def HnswInitElementFromBlock_def less_Suc_eq\<close>)
    then show ?thesis using False by (fastforce simp: ep_def)
  qed
  then obtain es' ns where f: "HnswFindElementNeighbors ?es True 0 ?en (Some r) support m (HnswGetEfConstruction r) False = Inr es'" "es' \<noteq> []" "new_ok 0 m r es'"
      "es' ! 0 = el\<lparr>he_neighbors := ns\<rparr>" "?b \<noteq> InvalidBlockNumber \<longrightarrow> 1 < length es'" by blast
  have h: "he_level (es' ! 0) \<le> HnswGetMaxLevel m" "he_value (es' ! 0) = Some v" "he_heaptids (es' ! 0) = [tid]" using f(4) fl by simp_all
  have en: "if ?b = InvalidBlockNumber then ?en = None else ?en = Some 1 \<and> 1 < length es'" using f(5) by (simp add: ep_def)
  obtain r' es'' where u: "UpdateGraphOnDisk es' r support 0 m ?en = Inr (r', es'')" "disk_ok m dim r'" "index_entries r' = add_mset (tid, v) (index_entries r)"
      "length (rel_blocks r') \<le> length (rel_blocks r) + 2"
    using update_graph_disk [OF ok d len v f(2,3) h mp(1) en] by blast
  obtain e0 where e0: "HnswInitElement tid m randomLevel (HnswGetMaxLevel m) = Inr e0" using HnswInitElement_total by blast
  have "HnswInsertTupleOnDisk r support v tid randomLevel = Inr r'"
    using i e0 HnswInitElement_eq [OF e0, of v] f(1) u(1) by (simp add: HnswInsertTupleOnDisk_def Let_def el_def)
  then show ?thesis using u(2-4) by blast
qed

section \<open>What other operations need of a well-formed index\<close>

lemma disk_index_ok:
  assumes ok: "disk_ok m dim r" and d: "dist_ok support dim" "vec_wf q" "v_dim q = dim"
  shows "index_ok (Some q) support r"
proof -
  obtain mp where g: "graph_ok False m dim r" and mp: "read_meta r = Inr mp" "mp_magicNumber mp = HNSW_MAGIC_NUMBER" "mp_m mp = m" "entry_ok_disk r mp"
    using ok by (auto simp: disk_ok_def)
  have "0 \<le> mp_entryLevel mp \<and> mp_entryLevel mp < 256 \<and> (\<exists>et. tid_tuple r (ItemPointerSet (mp_entryBlkno mp) (mp_entryOffno mp)) = Inr et \<and> et_deleted et = 0 \<and>
      int (et_level et) = mp_entryLevel mp \<and> (\<forall>lc\<le>et_level et. pages_ok (Some q) support (mp_m mp) lc r))" if nz: "mp_entryBlkno mp \<noteq> InvalidBlockNumber"
  proof -
    obtain et where et: "tup_at r (mp_entryBlkno mp) (mp_entryOffno mp) = Inr (ElementTup et)" "et_deleted et = 0" "mp_entryLevel mp = int (et_level et)"
      using mp(4) nz by (auto simp: entry_ok_disk_def)
    have "tuple_ok False m dim r et" using g et(1) unfolding graph_ok_def by blast
    then have "et_level et < 256" using et(2) max_level_byte [of "et_level et" m] by (simp add: tuple_ok_def)
    then show ?thesis using et graph_pages_ok [OF g d] mp(3) by (simp add: tid_tuple_at ItemPointerSet_def)
  qed
  then show ?thesis using mp(1,2) by (auto simp: index_ok_def)
qed

lemma disk_chain:
  assumes ok: "disk_ok m dim r" and len: "length (rel_blocks r) \<le> InvalidBlockNumber"
  shows "rel_wf r" "linked r" "1 < length (rel_blocks r)" "page_chain r = [1..<length (rel_blocks r)]" "entry_on_chain r"
    "\<And>u t. at_tid r u = Inr t \<Longrightarrow> ip_blkid u \<in> set (page_chain r)"
proof -
  obtain mp where g: "rel_wf r" "seq_chain r" "linked r" and mp: "read_meta r = Inr mp" "block_ok r (mp_insertPage mp)" "entry_ok_disk r mp"
    using ok by (auto simp: disk_ok_def graph_ok_def)
  show wf: "rel_wf r" "linked r" "1 < length (rel_blocks r)" using g mp(2) by (auto simp: block_ok_def)
  show ch: "page_chain r = [1..<length (rel_blocks r)]"
    unfolding page_chain_def using seq_chain_from [OF g(1,2) len, of 1 "Suc (length (rel_blocks r))"] wf(3) by (simp add: hnsw_const)
  show on: "\<And>u t. at_tid r u = Inr t \<Longrightarrow> ip_blkid u \<in> set (page_chain r)"
    using tup_at_page rel_wf_page(1) [OF g(1)] by (fastforce simp: ch Suc_le_eq)
  have "mp_entryBlkno mp \<in> set (page_chain r)" if "tup_at r (mp_entryBlkno mp) (mp_entryOffno mp) = Inr x" for x
    using on [of "ItemPointerSet (mp_entryBlkno mp) (mp_entryOffno mp)"] that by (simp add: ItemPointerSet_def)
  then show "entry_on_chain r" using mp(1,3) by (auto simp: entry_on_chain_def entry_ok_disk_def split: if_splits)
qed

end
