(* ===== verification/HnswVacuumed.thy ===== *)
theory HnswVacuumed
  imports HnswInserted
begin

text \<open>
  VACUUM is correct (\<open>hnswbulkdelete\<close> of \<open>src/backend/access/hnsw/hnswvacuum.c\<close>): on a well-formed index it returns and leaves a
  well-formed index.  The repair takes every link to an element that is about to be marked deleted out of the lists of the elements that stay.
\<close>

section \<open>Links to dead elements\<close>

text \<open>The hash table of a VACUUM: the positions of the elements that have no heap TIDs left.\<close>

definition dead_ok :: "ItemPointerData set \<Rightarrow> Relation \<Rightarrow> bool" where
  "dead_ok D r \<longleftrightarrow> (\<forall>b off et. tup_at r b off = Inr (ElementTup et) \<longrightarrow> (ItemPointerSet b off \<in> D \<longleftrightarrow> tup_tids et = []))"

lemma dead_okD: "dead_ok D r \<Longrightarrow> at_tid r t = Inr (ElementTup et) \<Longrightarrow> t \<in> D \<longleftrightarrow> tup_tids et = []"
  unfolding dead_ok_def by (metis ItemPointer_eq)

lemma dead_ok_repaired: "repaired r r' \<Longrightarrow> dead_ok D r' \<longleftrightarrow> dead_ok D r"
  by (simp add: dead_ok_def repaired_element)

definition clean_tids :: "ItemPointerData set \<Rightarrow> ItemPointerData list \<Rightarrow> bool" where
  "clean_tids D ts \<longleftrightarrow> (\<forall>t\<in>set ts. ItemPointerIsValid t \<longrightarrow> t \<notin> D)"

text \<open>The list of an element has no link to a dead element.\<close>

definition clean :: "ItemPointerData set \<Rightarrow> Relation \<Rightarrow> HnswElementTupleData \<Rightarrow> bool" where
  "clean D r et \<longleftrightarrow> (\<forall>n. nbr_at r et = Inr (NeighborTup n) \<longrightarrow> clean_tids D (nt_indextids n))"

definition keeps_clean :: "ItemPointerData set \<Rightarrow> Relation \<Rightarrow> Relation \<Rightarrow> bool" where
  "keeps_clean D r r' \<longleftrightarrow> (\<forall>b off n'. tup_at r' b off = Inr (NeighborTup n') \<longrightarrow>
     (\<exists>n. tup_at r b off = Inr (NeighborTup n) \<and> (clean_tids D (nt_indextids n) \<longrightarrow> clean_tids D (nt_indextids n'))))"

lemma keeps_clean_clean: "keeps_clean D r r' \<Longrightarrow> clean D r et \<Longrightarrow> clean D r' et"
  unfolding keeps_clean_def clean_def by blast

lemma keeps_clean_refl [simp]: "keeps_clean D r r"
  by (simp add: keeps_clean_def)

lemma keeps_clean_trans: "keeps_clean D r1 r2 \<Longrightarrow> keeps_clean D r2 r3 \<Longrightarrow> keeps_clean D r1 r3"
  unfolding keeps_clean_def by meson

lemma adds_links_clean: "adds_links T r r' \<Longrightarrow> T \<inter> D = {} \<Longrightarrow> keeps_clean D r r'"
  unfolding adds_links_def keeps_clean_def clean_tids_def by blast

text \<open>A step of the repair.\<close>

definition mended :: "nat \<Rightarrow> int \<Rightarrow> ItemPointerData set \<Rightarrow> Relation \<Rightarrow> Relation \<Rightarrow> bool" where
  "mended m dim D r r' \<longleftrightarrow> graph_ok True m dim r' \<and> repaired r r' \<and> keeps_clean D r r'"

lemma mended_trans: "mended m dim D r1 r2 \<Longrightarrow> mended m dim D r2 r3 \<Longrightarrow> mended m dim D r1 r3"
  unfolding mended_def using repaired_trans keeps_clean_trans by blast

lemma mended_refl: "graph_ok True m dim r \<Longrightarrow> mended m dim D r r"
  by (simp add: mended_def repaired_refl graph_ok_def)

section \<open>Repairing one element\<close>

lemma graph_element:
  assumes g: "graph_ok vac m dim r" and at: "tup_at r b off = Inr (ElementTup et)" "et_deleted et = 0"
  obtains n where "vec_wf (et_data et)" "v_dim (et_data et) = dim" "et_level et \<le> HnswGetMaxLevel m" "nbr_at r et = Inr (NeighborTup n)"
    "nt_count n = (et_level et + 2) * m" "nt_version n = et_version et" "slots_ok m r (et_level et) (nt_indextids n)"
proof -
  have "live_tid r 0 (ItemPointerSet b off)" using at by (simp add: live_tid_iff ItemPointerSet_def)
  then obtain x n where h: "at_tid r (ItemPointerSet b off) = Inr (ElementTup x)" "vec_wf (et_data x)" "v_dim (et_data x) = dim" "et_level x \<le> HnswGetMaxLevel m"
      "nbr_at r x = Inr (NeighborTup n)" "nt_count n = (et_level x + 2) * m" "nt_version n = et_version x" "slots_ok m r (et_level x) (nt_indextids n)"
    by (rule graph_ok_live [OF g])
  have "x = et" using h(1) at(1) by (simp add: ItemPointerSet_def)
  then show thesis using that [of n] h(2-8) by blast
qed

text \<open>An element of the store stands for a tuple, apart from its heap TIDs and neighbours.\<close>

definition stands_for :: "Relation \<Rightarrow> HnswElementData \<Rightarrow> HnswElementTupleData \<Rightarrow> bool" where
  "stands_for r e et \<longleftrightarrow> tup_at r (he_blkno e) (he_offno e) = Inr (ElementTup et) \<and> he_level e = et_level et \<and> he_version e = et_version et \<and>
     he_neighborPage e = ip_blkid (et_neighbortid et) \<and> he_neighborOffno e = ip_posid (et_neighbortid et) \<and> he_value e = Some (et_data et)"

lemma stands_for_repaired: "repaired r r' \<Longrightarrow> stands_for r' e et \<longleftrightarrow> stands_for r e et"
  by (simp add: stands_for_def repaired_element)

lemma stands_for_neighbors [simp]: "stands_for r (e\<lparr>he_neighbors := ns\<rparr>) et \<longleftrightarrow> stands_for r e et" "stands_for r (e\<lparr>he_heaptids := ts\<rparr>) et \<longleftrightarrow> stands_for r e et"
  by (simp_all add: stands_for_def)

lemma stands_for_load: "tup_at r (he_blkno e) (he_offno e) = Inr (ElementTup et) \<Longrightarrow> stands_for r (HnswLoadElementFromTuple e et h True) et"
  by (simp add: stands_for_def HnswLoadElementFromTuple_def Let_def)

lemma new_slots_clean:
  assumes n: "new_ok p m r es" and d: "dead_ok D r"
  shows "clean_tids D (concat (map (layer_slots es (es ! p) m) (rev [0..<Suc (he_level (es ! p))])))"
  unfolding clean_tids_def
proof (intro ballI impI)
  fix t assume "t \<in> set (concat (map (layer_slots es (es ! p) m) (rev [0..<Suc (he_level (es ! p))])))" and v: "ItemPointerIsValid t"
  then obtain lc where lc: "lc \<le> he_level (es ! p)" "t \<in> set (layer_slots es (es ! p) m lc)" by (auto simp: less_Suc_eq_le simp del: upt_Suc)
  obtain ns where ns: "he_neighbors (es ! p) = Some ns" "arr_ok p m r es lc (ns ! lc)" using n lc(1) by (auto simp: new_ok_def)
  obtain i where i: "i < length (na_items (ns ! lc))" "t = elem_tid (es ! hc_element (na_items (ns ! lc) ! i))"
    using lc(2) v ns(1) by (auto simp: layer_slots_def Let_def split: if_splits)
  define hc where "hc = na_items (ns ! lc) ! i"
  have hc: "hc \<in> set (na_items (ns ! lc))" "t = elem_tid (es ! hc_element hc)" using i by (simp_all add: hc_def)
  from hc(1) have l: "loaded r (es ! hc_element hc)" "he_heaptids (es ! hc_element hc) \<noteq> []" using ns(2) by (auto simp: arr_ok_def)
  then obtain et where "tup_at r (he_blkno (es ! hc_element hc)) (he_offno (es ! hc_element hc)) = Inr (ElementTup et)" "tup_tids et \<noteq> []" by (auto simp: loaded_def)
  then show "t \<notin> D" using d unfolding dead_ok_def hc(2) elem_tid_def by blast
qed

text \<open>Rewriting the list of an element.\<close>

lemma rewrite_neighbors:
  assumes g: "graph_ok True m dim r" and d: "dead_ok D r" and n: "new_ok p m r es" and e: "stands_for r (es ! p) et" "et_deleted et = 0"
  shows "\<exists>nt r1. HnswSetNeighborTuple es zero_ntup (es ! p) m = Inr nt \<and>
    overwrite_tuple r (he_neighborPage (es ! p)) (he_neighborOffno (es ! p)) (NeighborTup nt) = Inr r1 \<and> mended m dim D r r1 \<and> read_meta r1 = read_meta r \<and> clean D r1 et"
proof -
  let ?e = "es ! p"
  let ?s = "concat (map (layer_slots es ?e m) (rev [0..<Suc (he_level ?e)]))"
  have wf: "rel_wf r" "HNSW_MIN_M \<le> m" "m \<le> HNSW_MAX_M" using g by (simp_all add: graph_ok_def)
  have et: "tup_at r (he_blkno ?e) (he_offno ?e) = Inr (ElementTup et)" "he_level ?e = et_level et" "he_version ?e = et_version et"
      "he_neighborPage ?e = ip_blkid (et_neighbortid et)" "he_neighborOffno ?e = ip_posid (et_neighbortid et)" using e(1) by (simp_all add: stands_for_def)
  obtain n0 where n0: "et_level et \<le> HnswGetMaxLevel m" "nbr_at r et = Inr (NeighborTup n0)" "nt_version n0 = et_version et" "slots_ok m r (et_level et) (nt_indextids n0)"
    by (rule graph_element [OF g et(1) e(2)])
  define nt where "nt = zero_ntup\<lparr>nt_indextids := ?s, nt_count := length ?s mod 65536, nt_version := he_version ?e\<rparr>"
  have nt: "HnswSetNeighborTuple es zero_ntup ?e m = Inr nt" unfolding nt_def by (rule SetNeighborTuple_eq [OF new_arrays [OF n]])
  have nf: "nt_indextids nt = ?s" "nt_version nt = nt_version n0" "nt_count nt = length (nt_indextids nt) mod 65536"
    using n0(3) et(3) by (simp_all add: nt_def)
  obtain pg where pg: "read_page r (ip_blkid (et_neighbortid et)) = Inr pg" "page_tuple pg (ip_posid (et_neighbortid et)) = Inr (NeighborTup n0)"
    using n0(2) by (auto simp: tup_at_def rbind_InrE)
  have "length ?s = length (nt_indextids n0)" using slots_length [of es ?e m "he_level ?e"] n0(4) et(2) by (simp add: slots_ok_def del: upt_Suc)
  then have sz: "tuple_size (NeighborTup nt) \<le> tuple_size (NeighborTup n0) + ip_exact_free_space pg" by (simp add: tuple_size_def nf(1) del: upt_Suc)
  obtain r1 where r1: "overwrite_tuple r (ip_blkid (et_neighbortid et)) (ip_posid (et_neighbortid et)) (NeighborTup nt) = Inr r1"
      "tup_at r1 (ip_blkid (et_neighbortid et)) (ip_posid (et_neighbortid et)) = Inr (NeighborTup nt)"
      "keeps_tuples r r1 {(ip_blkid (et_neighbortid et), ip_posid (et_neighbortid et))}" "only_new r r1 {(ip_blkid (et_neighbortid et), ip_posid (et_neighbortid et))}"
    using overwrite_replace [OF wf(1) pg sz] by (auto simp: replace_ok_def)
  have rp: "repaired r r1" "read_meta r1 = read_meta r" using overwrite_repaired [OF r1(1) wf(1) n0(2) nf(2,3)] by simp_all
  have sl: "slots_ok m r (et_level et) (nt_indextids nt)" using new_slots_ok [OF n refl] et(2) nf(1) by (simp del: upt_Suc)
  have g1: "graph_ok True m dim r1" by (rule relink_graph [OF g et(1) rp(1) r1(2) _ sl]) (use r1(3) in \<open>auto simp: keeps_tuples_def\<close>)
  have c: "clean_tids D (nt_indextids nt)" using new_slots_clean [OF n d] nf(1) by (simp del: upt_Suc)
  have "keeps_clean D r r1" unfolding keeps_clean_def
  proof (intro allI impI)
    fix b off n' assume n': "tup_at r1 b off = Inr (NeighborTup n')"
    show "\<exists>n. tup_at r b off = Inr (NeighborTup n) \<and> (clean_tids D (nt_indextids n) \<longrightarrow> clean_tids D (nt_indextids n'))"
    proof (cases "(b, off) = (ip_blkid (et_neighbortid et), ip_posid (et_neighbortid et))")
      case True
      then show ?thesis using n' r1(2) n0(2) c by auto
    next
      case False
      then show ?thesis using n' r1(4) unfolding only_new_def by blast
    qed
  qed
  moreover have "clean D r1 et" using c r1(2) by (simp add: clean_def)
  ultimately show ?thesis using nt r1(1) rp g1 et(4,5) by (auto simp: mended_def)
qed

text \<open>The whole repair of an element: its list is clean afterwards, and nothing else gets dirty.\<close>

lemma repair_element_graph:
  assumes g: "graph_ok True m dim (vs_index vs)" and d: "dead_ok D (vs_index vs)" "dist_ok (vs_support vs) dim" "vs_m vs = m"
    and p: "p < length es" "stands_for (vs_index vs) (es ! p) et" "et_deleted et = 0" "tup_tids et \<noteq> []"
    and en: "\<And>q. entry = Some q \<Longrightarrow> q < length es \<and> q \<noteq> p \<and> elem_tid (es ! q) \<noteq> elem_tid (es ! p) \<and>
      (\<exists>eq. tup_at (vs_index vs) (he_blkno (es ! q)) (he_offno (es ! q)) = Inr (ElementTup eq) \<and> et_deleted eq = 0)"
  shows "\<exists>r' es'. RepairGraphElement vs es p entry = Inr (vs\<lparr>vs_index := r'\<rparr>, es') \<and> mended m dim D (vs_index vs) r' \<and> read_meta r' = read_meta (vs_index vs) \<and>
    clean D r' et \<and> length es \<le> length es' \<and> stands_for r' (es' ! p) et \<and> elem_tid (es' ! p) = elem_tid (es ! p)"
proof -
  let ?r = "vs_index vs"
  define e1 where "e1 = (HnswInitNeighbors (es ! p) m)\<lparr>he_heaptids := []\<rparr>"
  define es1 where "es1 = es[p := e1]"
  have s1: "p < length es1" "es1 ! p = e1" "length es1 = length es" using p(1) by (simp_all add: es1_def)
  have e1: "stands_for ?r e1 et" "unconnected m (et_data et) e1" "elem_tid e1 = elem_tid (es ! p)"
    using p(2) by (simp_all add: e1_def HnswInitNeighbors_def unconnected_def stands_for_def elem_tid_def del: upt_Suc)
  have at: "tup_at ?r (he_blkno (es ! p)) (he_offno (es ! p)) = Inr (ElementTup et)" using p(2) by (simp add: stands_for_def)
  have "tuple_ok True m dim ?r et" using g at unfolding graph_ok_def by blast
  then have v: "vec_wf (et_data et)" "v_dim (et_data et) = dim" using p(3) by (simp_all add: tuple_ok_def)
  have "\<exists>es2 ns. HnswFindElementNeighbors es1 True p entry (Some ?r) (vs_support vs) m (vs_efConstruction vs) True = Inr es2 \<and> new_ok p m ?r es2 \<and>
      es2 ! p = e1\<lparr>he_neighbors := ns\<rparr> \<and> length es \<le> length es2"
  proof (cases entry)
    case None
    have "new_ok p m ?r es1" by (rule unconnected_ok) (use e1(2) s1(2) in simp)
    then show ?thesis using None s1 by (intro exI [of _ es1] exI [of _ "he_neighbors e1"]) (simp add: HnswFindElementNeighbors_def)
  next
    case (Some q)
    then obtain eq where q: "q < length es" "q \<noteq> p" "tup_at ?r (he_blkno (es ! q)) (he_offno (es ! q)) = Inr (ElementTup eq)" "et_deleted eq = 0" using en by blast
    have q1: "q < length es1" "es1 ! q = es ! q" using q(1,2) by (simp_all add: es1_def)
    show ?thesis unfolding Some using find_neighbors_at [OF g d(2) v s1(1) _ q1(1) q(2), of eq "vs_efConstruction vs" True] q(3,4) q1(2) e1(2) s1 by simp
  qed
  then obtain es2 ns where f: "HnswFindElementNeighbors es1 True p entry (Some ?r) (vs_support vs) m (vs_efConstruction vs) True = Inr es2" "new_ok p m ?r es2"
      "es2 ! p = e1\<lparr>he_neighbors := ns\<rparr>" "length es \<le> length es2" by blast
  have p2: "p < length es2" using p(1) f(4) by simp
  have e2: "stands_for ?r (es2 ! p) et" "elem_tid (es2 ! p) = elem_tid (es ! p)" using e1(1,3) f(3) by (simp_all add: elem_tid_def)
  obtain nt r1 where w: "HnswSetNeighborTuple es2 zero_ntup (es2 ! p) m = Inr nt" "overwrite_tuple ?r (he_neighborPage (es2 ! p)) (he_neighborOffno (es2 ! p)) (NeighborTup nt) = Inr r1"
      "mended m dim D ?r r1" "read_meta r1 = read_meta ?r" "clean D r1 et"
    using rewrite_neighbors [OF g d(1) f(2) e2(1) p(3)] by blast
  have m1: "graph_ok True m dim r1" "repaired ?r r1" using w(3) by (simp_all add: mended_def)
  obtain ls where ls: "he_neighbors (es2 ! p) = Some ls" "length ls = Suc (he_level (es2 ! p))" "\<forall>lc\<le>he_level (es2 ! p). arr_ok p m ?r es2 lc (ls ! lc)"
    using f(2) by (auto simp: new_ok_def)
  have k: "hc_element hc < length es2 \<and> loaded r1 (es2 ! hc_element hc) \<and> live_tid r1 lc (elem_tid (es2 ! hc_element hc))"
    if "lc \<le> he_level (es2 ! p)" "hc \<in> set (na_items (ls ! lc))" for lc hc
    using that ls(3) repaired_loaded [OF m1(2)] repaired_live_tid [OF m1(2)] by (simp add: arr_ok_def)
  have l: "live_tid r1 lc (elem_tid (es2 ! p))" if "lc \<le> he_level (es2 ! p)" for lc
    unfolding repaired_live_tid [OF m1(2)] using that e2(1) p(3) by (auto simp: live_tid_iff stands_for_def elem_tid_def ItemPointerSet_def)
  have val: "he_value (es2 ! p) = Some (et_data et)" using e2(1) by (simp add: stands_for_def)
  obtain r2 es3 where u: "HnswUpdateNeighborsOnDisk es2 r1 (vs_support vs) p m True = Inr (r2, es3)" "graph_ok True m dim r2" "repaired r1 r2" "read_meta r2 = read_meta r1"
      "grows es2 es3" "adds_links {elem_tid (es2 ! p)} r1 r2"
    using HnswUpdateNeighbors_total [OF m1(1) d(2) v p2 val ls(1,2) k l, of True] by blast
  have "elem_tid (es ! p) \<notin> D" using d(1) at p(4) unfolding elem_tid_def dead_ok_def by blast
  then have kc: "keeps_clean D r1 r2" by (intro adds_links_clean [OF u(6)]) (simp add: e2(2))
  then have me: "mended m dim D ?r r2" using mended_trans [OF w(3)] u(2,3) by (simp add: mended_def)
  have cl: "clean D r2 et" by (rule keeps_clean_clean [OF kc w(5)])
  have e3: "es3 ! p = es2 ! p" "length es \<le> length es3" using grows_nth [OF u(5) p2] grows_length [OF u(5)] f(4) by simp_all
  have "stands_for r2 (es3 ! p) et" using e2(1) e3(1) me stands_for_repaired by (auto simp: mended_def)
  moreover have "RepairGraphElement vs es p entry = Inr (vs\<lparr>vs_index := r2\<rparr>, es3)"
  proof -
    have "(case entry of None \<Rightarrow> Inr False
        | Some q \<Rightarrow> rbind (nth_r es q) (\<lambda>ep. Inr (he_blkno (es ! p) = he_blkno ep \<and> he_offno (es ! p) = he_offno ep))) = Inr False"
      using en by (auto simp: elem_tid_def split: option.splits)
    then show ?thesis unfolding RepairGraphElement_def using p(1) p2 f(1) w(1,2) u(1) d(3) by (simp add: e1_def es1_def)
  qed
  ultimately show ?thesis using me cl e2(2) e3 w(4) u(4) by auto
qed

section \<open>Elements that need no repair\<close>

lemma any_deleted_total:
  "i + k \<le> length ts \<Longrightarrow> any_deleted D ts i k = Inr (\<exists>j. i \<le> j \<and> j < i + k \<and> ItemPointerIsValid (ts ! j) \<and> ts ! j \<in> D)"
proof (induction k arbitrary: i)
  case (Suc k)
  show ?case
  proof (cases "ItemPointerIsValid (ts ! i) \<and> ts ! i \<in> D")
    case True
    then have "any_deleted D ts i (Suc k) = Inr True" using Suc.prems by (simp add: DeletedContains_def)
    moreover have "\<exists>j. i \<le> j \<and> j < i + Suc k \<and> ItemPointerIsValid (ts ! j) \<and> ts ! j \<in> D" using True by (intro exI [of _ i]) simp
    ultimately show ?thesis by simp
  next
    case False
    then have "any_deleted D ts i (Suc k) = any_deleted D ts (Suc i) k" using Suc.prems by (auto simp: DeletedContains_def)
    moreover have "(\<exists>j. Suc i \<le> j \<and> j < Suc i + k \<and> ItemPointerIsValid (ts ! j) \<and> ts ! j \<in> D) \<longleftrightarrow>
        (\<exists>j. i \<le> j \<and> j < i + Suc k \<and> ItemPointerIsValid (ts ! j) \<and> ts ! j \<in> D)"
      using False by (metis Suc_le_eq add_Suc_right add_Suc le_neq_implies_less less_imp_le)
    ultimately show ?thesis using Suc.IH [of "Suc i"] Suc.prems by simp
  qed
qed simp

lemma NeedsUpdated_total:
  assumes g: "graph_ok True m dim (vs_index vs)" and e: "stands_for (vs_index vs) e et" "et_deleted et = 0"
  shows "\<exists>need. NeedsUpdated vs e = Inr need \<and> (\<not> need \<longrightarrow> clean (vs_deleted vs) (vs_index vs) et)"
proof -
  let ?r = "vs_index vs"
  have at: "tup_at ?r (he_blkno e) (he_offno e) = Inr (ElementTup et)" using e(1) by (simp add: stands_for_def)
  obtain n where n: "nbr_at ?r et = Inr (NeighborTup n)" "nt_count n = (et_level et + 2) * m" "slots_ok m ?r (et_level et) (nt_indextids n)"
    by (rule graph_element [OF g at e(2)])
  have c: "nt_count n = length (nt_indextids n)" "nt_count n \<noteq> 0" using n(2,3) g by (auto simp: slots_ok_def graph_ok_def hnsw_const)
  obtain pg where pg: "read_page ?r (he_neighborPage e) = Inr pg" "page_tuple pg (he_neighborOffno e) = Inr (NeighborTup n)"
    using n(1) e(1) by (auto simp: tup_at_def rbind_InrE stands_for_def)
  define any where "any = (\<exists>j<nt_count n. ItemPointerIsValid (nt_indextids n ! j) \<and> nt_indextids n ! j \<in> vs_deleted vs)"
  have a: "any_deleted (vs_deleted vs) (nt_indextids n) 0 (nt_count n) = Inr any" using any_deleted_total [of 0 "nt_count n"] c(1) by (simp add: any_def)
  have "nth_r (nt_indextids n) (nt_count n - 1) = Inr (nt_indextids n ! (nt_count n - 1))" using c by (simp add: nth_r_def)
  then have "NeedsUpdated vs e = Inr (any \<or> \<not> ItemPointerIsValid (nt_indextids n ! (nt_count n - 1)))" using pg a c(2) by (cases any) (simp_all add: NeedsUpdated_def)
  moreover have "\<not> any \<longrightarrow> clean (vs_deleted vs) ?r et" using n(1) c(1) by (auto simp: any_def clean_def clean_tids_def in_set_conv_nth)
  ultimately show ?thesis by blast
qed

section \<open>The metapage during a repair\<close>

definition meta_ok :: "nat \<Rightarrow> Relation \<Rightarrow> HnswMetaPageData \<Rightarrow> bool" where
  "meta_ok m r mp \<longleftrightarrow> read_meta r = Inr mp \<and> mp_magicNumber mp = HNSW_MAGIC_NUMBER \<and> mp_m mp = m \<and> block_ok r (mp_insertPage mp)"

text \<open>The entry point has heap TIDs and a clean list, or no element has heap TIDs.\<close>

definition entry_done :: "ItemPointerData set \<Rightarrow> Relation \<Rightarrow> HnswMetaPageData \<Rightarrow> bool" where
  "entry_done D r mp \<longleftrightarrow> (if mp_entryBlkno mp = InvalidBlockNumber then mp_entryLevel mp = -1 \<and> (\<forall>b off et. tup_at r b off = Inr (ElementTup et) \<longrightarrow> tup_tids et = [])
     else \<exists>et. tup_at r (mp_entryBlkno mp) (mp_entryOffno mp) = Inr (ElementTup et) \<and> et_deleted et = 0 \<and> mp_entryLevel mp = int (et_level et) \<and> tup_tids et \<noteq> [] \<and> clean D r et)"

definition vac_ok :: "nat \<Rightarrow> int \<Rightarrow> ItemPointerData set \<Rightarrow> Relation \<Rightarrow> bool" where
  "vac_ok m dim D r \<longleftrightarrow> graph_ok True m dim r \<and> dead_ok D r \<and> length (rel_blocks r) \<le> InvalidBlockNumber \<and> (\<exists>mp. meta_ok m r mp \<and> entry_done D r mp)"

lemma meta_ok_mended: "mended m dim D r r' \<Longrightarrow> read_meta r' = read_meta r \<Longrightarrow> meta_ok m r mp \<Longrightarrow> meta_ok m r' mp"
  by (simp add: meta_ok_def mended_def block_ok_def repaired_def same_pages_def)

lemma entry_done_mended: "mended m dim D r r' \<Longrightarrow> entry_done D r mp \<Longrightarrow> entry_done D r' mp"
  unfolding entry_done_def mended_def using keeps_clean_clean repaired_element by (metis (no_types, lifting))

lemma vac_ok_mended:
  assumes "vac_ok m dim D r" "mended m dim D r r'" "read_meta r' = read_meta r"
  shows "vac_ok m dim D r'"
proof -
  obtain mp where "meta_ok m r mp" "entry_done D r mp" using assms(1) by (auto simp: vac_ok_def)
  then have "meta_ok m r' mp" "entry_done D r' mp" using meta_ok_mended [OF assms(2,3)] entry_done_mended [OF assms(2)] by blast+
  moreover have "length (rel_blocks r') = length (rel_blocks r)" using assms(2) by (simp add: mended_def repaired_def same_pages_def)
  ultimately show ?thesis using assms(1,2) dead_ok_repaired unfolding vac_ok_def mended_def by auto
qed

lemma meta_update:
  assumes g: "graph_ok True m dim r" "dead_ok D r" "length (rel_blocks r) \<le> InvalidBlockNumber" "meta_ok m r mp"
    and e: "entry_done D r (HnswUpdateMetaPageInfo mp u e InvalidBlockNumber)"
  shows "\<exists>r'. HnswUpdateMetaPage r u e InvalidBlockNumber = Inr r' \<and> vac_ok m dim D r' \<and> mended m dim D r r'"
proof -
  define mp' where "mp' = HnswUpdateMetaPageInfo mp u e InvalidBlockNumber"
  have mp: "read_meta r = Inr mp" "mp_magicNumber mp = HNSW_MAGIC_NUMBER" "mp_m mp = m" "block_ok r (mp_insertPage mp)" using g(4) by (simp_all add: meta_ok_def)
  have wf: "rel_wf r" using g(1) by (simp add: graph_ok_def)
  let ?r = "write_meta r mp'"
  have r': "HnswUpdateMetaPage r u e InvalidBlockNumber = Inr ?r" using mp(1) by (simp add: HnswUpdateMetaPage_def mp'_def)
  note w = write_meta_spec [OF mp(1), of mp']
  have me: "mended m dim D r ?r"
    using graph_ok_meta [OF g(1) mp(1)] HnswUpdateMetaPage_repaired(1) [OF r' wf] by (simp add: mended_def keeps_clean_def w(3))
  have "mp_magicNumber mp' = mp_magicNumber mp" "mp_m mp' = mp_m mp" "mp_insertPage mp' = mp_insertPage mp"
    by (simp_all add: mp'_def HnswUpdateMetaPageInfo_def Let_def split: option.splits)
  then have "meta_ok m ?r mp'" using w(1) mp w(4) by (simp add: meta_ok_def block_ok_def)
  moreover have "entry_done D ?r mp'" by (rule entry_done_mended [OF me]) (use e in \<open>simp add: mp'_def\<close>)
  moreover have "dead_ok D ?r" using g(2) by (simp add: dead_ok_def w(3))
  ultimately have "vac_ok m dim D ?r" using me g(3) w(4) by (auto simp: vac_ok_def mended_def)
  then show ?thesis using r' me by blast
qed

lemma entry_update:
  assumes g: "graph_ok True m dim r" "dead_ok D r" "length (rel_blocks r) \<le> InvalidBlockNumber" "meta_ok m r mp"
    and e: "stands_for r e et" "et_deleted et = 0" "tup_tids et \<noteq> []" "clean D r et" and u: "u = UpdateAlways \<or> u = UpdateGreater \<and> entry_done D r mp"
  shows "\<exists>r'. HnswUpdateMetaPage r u (Some e) InvalidBlockNumber = Inr r' \<and> vac_ok m dim D r' \<and> mended m dim D r r'"
proof (rule meta_update [OF g])
  let ?mp = "HnswUpdateMetaPageInfo mp u (Some e) InvalidBlockNumber"
  have at: "tup_at r (he_blkno e) (he_offno e) = Inr (ElementTup et)" "he_level e = et_level et" using e(1) by (simp_all add: stands_for_def)
  have nz: "he_blkno e \<noteq> InvalidBlockNumber" using tup_at_page [OF at(1)] g(3) by auto
  show "entry_done D r ?mp"
  proof (cases "u = UpdateAlways \<or> int (he_level e) > mp_entryLevel mp")
    case True
    then have "mp_entryBlkno ?mp = he_blkno e" "mp_entryOffno ?mp = he_offno e" "mp_entryLevel ?mp = int (he_level e)" using u by (auto simp: HnswUpdateMetaPageInfo_def Let_def)
    then show ?thesis using at nz e(2-4) by (simp add: entry_done_def)
  next
    case False
    then have "?mp = mp" using u by (simp add: HnswUpdateMetaPageInfo_def Let_def)
    then show ?thesis using u False by simp
  qed
qed

section \<open>Repairing the elements of the pages\<close>

lemma entry_point_at:
  assumes "meta_ok m r mp" "mp_entryBlkno mp \<noteq> InvalidBlockNumber"
  shows "HnswGetEntryPoint r = Inr (Some ((HnswInitElementFromBlock (mp_entryBlkno mp) (mp_entryOffno mp))\<lparr>he_level := nat (mp_entryLevel mp mod 256)\<rparr>))"
  using assms by (simp add: meta_ok_def HnswGetEntryPoint_def HnswGetMetaPageInfo_def)

lemma level_byte: "graph_ok vac m dim r \<Longrightarrow> tup_at r b off = Inr (ElementTup et) \<Longrightarrow> et_deleted et = 0 \<Longrightarrow> nat (int (et_level et) mod 256) = et_level et"
  using max_level_byte [of "et_level et" m] by (fastforce simp: graph_ok_def tuple_ok_def)

lemma repair_element_total:
  assumes v: "vac_ok m dim D (vs_index vs)" and vs: "vs_m vs = m" "vs_deleted vs = D" "dist_ok (vs_support vs) dim"
    and e: "stands_for (vs_index vs) e et" "et_deleted et = 0" "tup_tids et \<noteq> []"
  shows "\<exists>r'. repair_element vs e = Inr (vs\<lparr>vs_index := r'\<rparr>) \<and> vac_ok m dim D r' \<and> mended m dim D (vs_index vs) r' \<and> clean D r' et"
proof -
  let ?r = "vs_index vs"
  have g: "graph_ok True m dim ?r" "dead_ok D ?r" "length (rel_blocks ?r) \<le> InvalidBlockNumber" using v by (simp_all add: vac_ok_def)
  obtain mp where mp: "meta_ok m ?r mp" "entry_done D ?r mp" using v by (auto simp: vac_ok_def)
  obtain need where n: "NeedsUpdated vs e = Inr need" "\<not> need \<longrightarrow> clean D ?r et" using NeedsUpdated_total [OF g(1) e(1,2)] vs(2) by auto
  have at: "tup_at ?r (he_blkno e) (he_offno e) = Inr (ElementTup et)" "he_level e = et_level et" using e(1) by (simp_all add: stands_for_def)
  show ?thesis
  proof (cases need)
    case False
    then show ?thesis using n v mended_refl [OF g(1)] by (intro exI [of _ ?r]) (simp add: repair_element_def)
  next
    case True
    have nz: "mp_entryBlkno mp \<noteq> InvalidBlockNumber" using mp(2) at(1) e(3) unfolding entry_done_def by (auto split: if_splits)
    then obtain x where x: "tup_at ?r (mp_entryBlkno mp) (mp_entryOffno mp) = Inr (ElementTup x)" "et_deleted x = 0" "mp_entryLevel mp = int (et_level x)" "clean D ?r x"
      using mp(2) unfolding entry_done_def by auto
    define ee where "ee = (HnswInitElementFromBlock (mp_entryBlkno mp) (mp_entryOffno mp))\<lparr>he_level := nat (mp_entryLevel mp mod 256)\<rparr>"
    have ep: "HnswGetEntryPoint ?r = Inr (Some ee)" unfolding ee_def by (rule entry_point_at [OF mp(1) nz])
    have ee: "he_blkno ee = mp_entryBlkno mp" "he_offno ee = mp_entryOffno mp" "he_level ee = et_level x"
      using level_byte [OF g(1) x(1,2)] x(3) by (simp_all add: ee_def HnswInitElementFromBlock_def)
    have eq: "repair_element vs e = rbind (RepairGraphElement vs [e, ee] 0 (Some 1)) (\<lambda>(vs1, elems1). rbind (nth_r elems1 0) (\<lambda>e.
        rbind (rbind (nth_r elems1 1) (\<lambda>ee. Inr (he_level e > he_level ee))) (\<lambda>upd.
          if upd then rbind (HnswUpdateMetaPage (vs_index vs1) UpdateGreater (Some e) InvalidBlockNumber) (\<lambda>index. Inr (vs1\<lparr>vs_index := index\<rparr>))
          else Inr vs1)))"
      using n(1) True ep by (simp add: repair_element_def with_entry_def)
    show ?thesis
    proof (cases "elem_tid ee = elem_tid e")
      case same: True
      then have "x = et" using x(1) at(1) ee by (simp add: elem_tid_def)
      moreover have "RepairGraphElement vs [e, ee] 0 (Some 1) = Inr (vs, [e, ee])" using same by (simp add: RepairGraphElement_def elem_tid_def)
      ultimately have "repair_element vs e = Inr vs" "clean D ?r et" using eq ee(3) at(2) x(4) by simp_all
      then show ?thesis using v mended_refl [OF g(1)] by (intro exI [of _ ?r]) simp
    next
      case False
      obtain r1 es1 where s: "RepairGraphElement vs [e, ee] 0 (Some 1) = Inr (vs\<lparr>vs_index := r1\<rparr>, es1)" "mended m dim D ?r r1" "read_meta r1 = read_meta ?r"
          "clean D r1 et" "2 \<le> length es1" "stands_for r1 (es1 ! 0) et"
        using repair_element_graph [OF g(1,2) vs(3,1), of 0 "[e, ee]" et "Some 1"] e x(1,2) ee False by auto
      have v1: "vac_ok m dim D r1" by (rule vac_ok_mended [OF v s(2,3)])
      have g1: "graph_ok True m dim r1" "dead_ok D r1" "length (rel_blocks r1) \<le> InvalidBlockNumber" using v1 by (simp_all add: vac_ok_def)
      have m1: "meta_ok m r1 mp" "entry_done D r1 mp" using meta_ok_mended [OF s(2,3) mp(1)] entry_done_mended [OF s(2) mp(2)] by simp_all
      have nn: "nth_r es1 0 = Inr (es1 ! 0)" "nth_r es1 1 = Inr (es1 ! 1)" using s(5) by (auto simp: nth_r_def)
      show ?thesis
      proof (cases "he_level (es1 ! 0) > he_level (es1 ! 1)")
        case False
        then have "repair_element vs e = Inr (vs\<lparr>vs_index := r1\<rparr>)" using eq s(1) nn by simp
        then show ?thesis using v1 s(2,4) by blast
      next
        case up: True
        obtain r2 where r2: "HnswUpdateMetaPage r1 UpdateGreater (Some (es1 ! 0)) InvalidBlockNumber = Inr r2" "vac_ok m dim D r2" "mended m dim D r1 r2"
          using entry_update [OF g1 m1(1) s(6) e(2,3) s(4), of UpdateGreater] m1(2) by blast
        then have "repair_element vs e = Inr (vs\<lparr>vs_index := r2\<rparr>)" using eq s(1) nn up by simp
        moreover have "clean D r2 et" using r2(3) s(4) keeps_clean_clean by (auto simp: mended_def)
        ultimately show ?thesis using r2(2) mended_trans [OF s(2) r2(3)] by blast
      qed
    qed
  qed
qed

lemma repair_elements_total:
  "\<lbrakk>vac_ok m dim D (vs_index vs); vs_m vs = m; vs_deleted vs = D; dist_ok (vs_support vs) dim;
    \<forall>(e, et)\<in>set ps. stands_for (vs_index vs) e et \<and> et_deleted et = 0 \<and> tup_tids et \<noteq> []\<rbrakk> \<Longrightarrow>
   \<exists>r'. repair_elements (map fst ps) vs = Inr (vs\<lparr>vs_index := r'\<rparr>) \<and> vac_ok m dim D r' \<and> mended m dim D (vs_index vs) r' \<and> (\<forall>(e, et)\<in>set ps. clean D r' et)"
proof (induction ps arbitrary: vs)
  case Nil
  then show ?case by (intro exI [of _ "vs_index vs"]) (simp add: vac_ok_def mended_refl)
next
  case (Cons x ps)
  obtain e et where x: "x = (e, et)" by (cases x)
  have xe: "stands_for (vs_index vs) e et" "et_deleted et = 0" "tup_tids et \<noteq> []" using Cons.prems(5) x by simp_all
  obtain r1 where r1: "repair_element vs e = Inr (vs\<lparr>vs_index := r1\<rparr>)" "vac_ok m dim D r1" "mended m dim D (vs_index vs) r1" "clean D r1 et"
    using repair_element_total [OF Cons.prems(1-4) xe] by blast
  have rp: "repaired (vs_index vs) r1" using r1(3) by (simp add: mended_def)
  have "\<forall>(e, et)\<in>set ps. stands_for r1 e et \<and> et_deleted et = 0 \<and> tup_tids et \<noteq> []" using Cons.prems(5) stands_for_repaired [OF rp] by auto
  then obtain r2 where r2: "repair_elements (map fst ps) (vs\<lparr>vs_index := r1\<rparr>) = Inr (vs\<lparr>vs_index := r2\<rparr>)" "vac_ok m dim D r2" "mended m dim D r1 r2" "\<forall>(e, et)\<in>set ps. clean D r2 et"
    using Cons.IH [of "vs\<lparr>vs_index := r1\<rparr>"] r1(2) Cons.prems(2-4) by auto
  moreover have "clean D r2 et" using r2(3) r1(4) keeps_clean_clean by (auto simp: mended_def)
  ultimately show ?case using x r1(1) mended_trans [OF r1(3)] by auto
qed

text \<open>The elements of a page that stay.\<close>

lemma load_elements_total:
  "\<lbrakk>\<And>j. j < length ts \<Longrightarrow> tup_at r b (off + j) = Inr (ts ! j); \<And>et. ElementTup et \<in> set ts \<Longrightarrow> length (et_heaptids et) = HNSW_HEAPTIDS\<rbrakk> \<Longrightarrow>
   \<exists>ps. load_elements b off ts = Inr (map fst ps) \<and> (\<forall>(e, et)\<in>set ps. stands_for r e et \<and> tup_tids et \<noteq> []) \<and>
     (\<forall>et. ElementTup et \<in> set ts \<longrightarrow> tup_tids et \<noteq> [] \<longrightarrow> et \<in> snd ` set ps)"
proof (induction ts arbitrary: off)
  case Nil
  show ?case by (intro exI [of _ "[]"]) simp
next
  case (Cons t ts)
  obtain ps where ps: "load_elements b (Suc off) ts = Inr (map fst ps)" "\<forall>(e, et)\<in>set ps. stands_for r e et \<and> tup_tids et \<noteq> []"
      "\<forall>et. ElementTup et \<in> set ts \<longrightarrow> tup_tids et \<noteq> [] \<longrightarrow> et \<in> snd ` set ps"
    using Cons.IH [of "Suc off"] Cons.prems(1) [of "Suc _"] Cons.prems(2) by auto
  show ?case
  proof (cases t)
    case (NeighborTup n)
    then show ?thesis using ps by (intro exI [of _ ps]) simp
  next
    case (ElementTup et)
    let ?e = "HnswLoadElementFromTuple (HnswInitElementFromBlock b off) et False True"
    have at: "tup_at r b off = Inr (ElementTup et)" using Cons.prems(1) [of 0] ElementTup by simp
    have sf: "stands_for r ?e et" by (rule stands_for_load) (use at in \<open>simp add: HnswInitElementFromBlock_def\<close>)
    obtain f where f: "nth_r (et_heaptids et) 0 = Inr f" "ItemPointerIsValid f \<longleftrightarrow> tup_tids et \<noteq> []"
      using tup_tids_first [of et] Cons.prems(2) [of et] ElementTup by auto
    show ?thesis
    proof (cases "tup_tids et = []")
      case True
      then show ?thesis using ps f ElementTup by (intro exI [of _ ps]) auto
    next
      case False
      then show ?thesis using ps f ElementTup sf by (intro exI [of _ "(?e, et) # ps"]) auto
    qed
  qed
qed

lemma repair_page_total:
  assumes v: "vac_ok m dim D (vs_index vs)" and vs: "vs_m vs = m" "vs_deleted vs = D" "dist_ok (vs_support vs) dim" and p: "read_page (vs_index vs) b = Inr p"
  shows "\<exists>r'. repair_page b vs = Inr (hp_nextblkno p, vs\<lparr>vs_index := r'\<rparr>) \<and> vac_ok m dim D r' \<and> mended m dim D (vs_index vs) r' \<and>
    (\<forall>off et. tup_at r' b off = Inr (ElementTup et) \<longrightarrow> tup_tids et \<noteq> [] \<longrightarrow> clean D r' et)"
proof -
  let ?r = "vs_index vs"
  have g: "graph_ok True m dim ?r" "linked ?r" using v by (simp_all add: vac_ok_def graph_ok_def)
  have at: "tup_at ?r b (FirstOffsetNumber + j) = Inr (ip_items p ! j)" if "j < length (ip_items p)" for j
    using p that by (simp add: tup_at_def page_tuple_def ip_get_def FirstOffsetNumber_def)
  have ln: "length (et_heaptids et) = HNSW_HEAPTIDS" if "ElementTup et \<in> set (ip_items p)" for et
    using tup_at_item [OF p that] linkedD [OF g(2)] by metis
  obtain ps where ps: "load_elements b FirstOffsetNumber (ip_items p) = Inr (map fst ps)" "\<forall>(e, et)\<in>set ps. stands_for ?r e et \<and> tup_tids et \<noteq> []"
      "\<forall>et. ElementTup et \<in> set (ip_items p) \<longrightarrow> tup_tids et \<noteq> [] \<longrightarrow> et \<in> snd ` set ps"
    using load_elements_total [OF at ln] by blast
  have nd: "et_deleted et = 0" if "tup_at ?r c off = Inr (ElementTup et)" "tup_tids et \<noteq> []" for c off et
    using g(1) that unfolding graph_ok_def tuple_ok_def by metis
  have "\<forall>(e, et)\<in>set ps. stands_for ?r e et \<and> et_deleted et = 0 \<and> tup_tids et \<noteq> []" using ps(2) nd by (fastforce simp: stands_for_def)
  then obtain r' where r': "repair_elements (map fst ps) vs = Inr (vs\<lparr>vs_index := r'\<rparr>)" "vac_ok m dim D r'" "mended m dim D ?r r'" "\<forall>(e, et)\<in>set ps. clean D r' et"
    using repair_elements_total [OF v vs] by blast
  have "clean D r' et" if t: "tup_at r' b off = Inr (ElementTup et)" "tup_tids et \<noteq> []" for off et
  proof -
    have rp: "repaired ?r r'" using r'(3) by (simp add: mended_def)
    have "tup_at ?r b off = Inr (ElementTup et)" using t(1) repaired_element [OF rp] by simp
    then have "off - Suc 0 < length (ip_items p) \<and> ip_items p ! (off - Suc 0) = ElementTup et"
      using p by (auto simp: tup_at_def page_tuple_def ip_get_def nth_r_def split: if_splits)
    then have "ElementTup et \<in> set (ip_items p)" by (metis nth_mem)
    then have "et \<in> snd ` set ps" using ps(3) t(2) by blast
    then show ?thesis using r'(4) by auto
  qed
  moreover have "repair_page b vs = Inr (hp_nextblkno p, vs\<lparr>vs_index := r'\<rparr>)" using p ps(1) r'(1) by (simp add: repair_page_def)
  ultimately show ?thesis using r'(2,3) by blast
qed

text \<open>The pass over the pages, after the pages \<open>C\<close>.\<close>

definition mend_inv :: "nat \<Rightarrow> int \<Rightarrow> HnswVacuumState \<Rightarrow> nat set \<Rightarrow> HnswVacuumState \<Rightarrow> bool" where
  "mend_inv m dim vs0 C vs \<longleftrightarrow> vs = vs0\<lparr>vs_index := vs_index vs\<rparr> \<and> vs_m vs0 = m \<and> dist_ok (vs_support vs0) dim \<and> vac_ok m dim (vs_deleted vs0) (vs_index vs) \<and>
     mended m dim (vs_deleted vs0) (vs_index vs0) (vs_index vs) \<and>
     (\<forall>b off et. b \<in> C \<longrightarrow> tup_at (vs_index vs) b off = Inr (ElementTup et) \<longrightarrow> tup_tids et \<noteq> [] \<longrightarrow> clean (vs_deleted vs0) (vs_index vs) et)"

lemma mend_page:
  assumes i: "mend_inv m dim vs0 C vs" and p: "read_page (vs_index vs) b = Inr p"
  shows "\<exists>vs'. repair_page b vs = Inr (hp_nextblkno p, vs') \<and> mend_inv m dim vs0 (insert b C) vs' \<and> repaired (vs_index vs) (vs_index vs')"
proof -
  let ?D = "vs_deleted vs0"
  note h = i [unfolded mend_inv_def]
  have e: "vs = vs0\<lparr>vs_index := vs_index vs\<rparr>" using h by blast
  have m0: "vs_m vs0 = m" "dist_ok (vs_support vs0) dim" using h by blast+
  have f: "vs_m vs = m" "vs_deleted vs = ?D" "dist_ok (vs_support vs) dim" using m0 arg_cong [OF e, of vs_m] arg_cong [OF e, of vs_deleted] arg_cong [OF e, of vs_support] by simp_all
  have v: "vac_ok m dim ?D (vs_index vs)" using h by blast
  obtain r' where r': "repair_page b vs = Inr (hp_nextblkno p, vs\<lparr>vs_index := r'\<rparr>)" "vac_ok m dim ?D r'" "mended m dim ?D (vs_index vs) r'"
      "\<forall>off et. tup_at r' b off = Inr (ElementTup et) \<longrightarrow> tup_tids et \<noteq> [] \<longrightarrow> clean ?D r' et"
    using repair_page_total [OF v f p] by blast
  have "clean ?D r' et" if t: "c \<in> insert b C" "tup_at r' c off = Inr (ElementTup et)" "tup_tids et \<noteq> []" for c off et
  proof (cases "c = b")
    case True
    then show ?thesis using r'(4) t by blast
  next
    case False
    have rp: "repaired (vs_index vs) r'" using r'(3) by (simp add: mended_def)
    have "tup_at (vs_index vs) c off = Inr (ElementTup et)" using t(2) repaired_element [OF rp] by simp
    then have "clean ?D (vs_index vs) et" using h t(1,3) False by blast
    then show ?thesis using r'(3) keeps_clean_clean by (auto simp: mended_def)
  qed
  moreover have "mended m dim ?D (vs_index vs0) r'" using h mended_trans r'(3) by blast
  moreover have "vs\<lparr>vs_index := r'\<rparr> = vs0\<lparr>vs_index := r'\<rparr>" by (subst e) simp
  ultimately have "mend_inv m dim vs0 (insert b C) (vs\<lparr>vs_index := r'\<rparr>)" using h r'(2) unfolding mend_inv_def by simp
  then show ?thesis using r'(1,3) by (auto simp: mended_def)
qed

interpretation mending: page_walk_total repair_page vs_index "mend_inv m dim vs0" for m dim vs0
proof
  fix b s n s' C
  assume a: "repair_page b s = Inr (n, s')" and i: "mend_inv m dim vs0 C s"
  obtain p where p: "read_page (vs_index s) b = Inr p" using a by (auto simp: repair_page_def rbind_InrE)
  show "next_of (vs_index s) b = Some n \<and> mend_inv m dim vs0 (insert b C) s' \<and> rel_wf (vs_index s') \<and> next_of (vs_index s') = next_of (vs_index s) \<and>
      length (rel_blocks (vs_index s')) = length (rel_blocks (vs_index s))"
    using mend_page [OF i p] a next_of_page [OF p] by (auto simp: repaired_def same_pages_def)
next
  fix C s b p
  assume "mend_inv m dim vs0 C s" "read_page (vs_index s) b = Inr p"
  then show "\<exists>n s'. repair_page b s = Inr (n, s')" using mend_page by blast
qed

section \<open>Repairing the entry point\<close>

lemma load_point:
  assumes "tup_at r (he_blkno (es ! p)) (he_offno (es ! p)) = Inr (ElementTup et)" "p < length es"
  shows "\<exists>d v. HnswLoadElement es p False None r support True None = Inr (d, es[p := v]) \<and> stands_for r v et \<and> elem_tid v = elem_tid (es ! p)"
proof -
  obtain pg where pg: "read_page r (he_blkno (es ! p)) = Inr pg" "element_tuple pg (he_offno (es ! p)) = Inr et"
    using assms(1) by (auto simp: tup_at_def element_tuple_at rbind_InrE)
  let ?v = "HnswLoadElementFromTuple (es ! p) et True True"
  have "elem_tid ?v = elem_tid (es ! p)" by (simp add: HnswLoadElementFromTuple_def Let_def elem_tid_def)
  then show ?thesis using pg assms(2) stands_for_load [OF assms(1)] by (auto simp: HnswLoadElement_def HnswLoadElementImpl_def)
qed

text \<open>The highest point of the first pass: an element with heap TIDs besides the entry point, if there is any.\<close>

definition entry_tid :: "HnswMetaPageData \<Rightarrow> ItemPointerData" where
  "entry_tid mp = ItemPointerSet (mp_entryBlkno mp) (mp_entryOffno mp)"

definition high_point :: "Relation \<Rightarrow> HnswMetaPageData \<Rightarrow> HnswElementData \<Rightarrow> bool" where
  "high_point r mp hp \<longleftrightarrow>
     (if he_blkno hp = InvalidBlockNumber then \<forall>b off et. tup_at r b off = Inr (ElementTup et) \<longrightarrow> tup_tids et \<noteq> [] \<longrightarrow> ItemPointerSet b off = entry_tid mp
      else (\<exists>et. tup_at r (he_blkno hp) (he_offno hp) = Inr (ElementTup et) \<and> tup_tids et \<noteq> []) \<and> elem_tid hp \<noteq> entry_tid mp)"

lemma live_tuple: "graph_ok vac m dim r \<Longrightarrow> tup_at r b off = Inr (ElementTup et) \<Longrightarrow> tup_tids et \<noteq> [] \<Longrightarrow> et_deleted et = 0"
  unfolding graph_ok_def tuple_ok_def by metis

text \<open>The entry point before the repair: it may be dead, but it is not marked.\<close>

lemma entry_cell:
  assumes g: "graph_ok vac m dim r" and mp: "meta_ok m r mp" "entry_ok_disk r mp" "mp_entryBlkno mp \<noteq> InvalidBlockNumber"
  obtains ee x where "HnswGetEntryPoint r = Inr (Some ee)" "elem_tid ee = entry_tid mp" "tup_at r (he_blkno ee) (he_offno ee) = Inr (ElementTup x)" "et_deleted x = 0"
    "mp_entryLevel mp = int (et_level x)" "he_blkno ee = mp_entryBlkno mp" "he_offno ee = mp_entryOffno mp"
proof -
  obtain x where "tup_at r (mp_entryBlkno mp) (mp_entryOffno mp) = Inr (ElementTup x)" "et_deleted x = 0" "mp_entryLevel mp = int (et_level x)"
    using mp(2,3) by (auto simp: entry_ok_disk_def)
  then show thesis using that [OF entry_point_at [OF mp(1,3)]] by (simp add: HnswInitElementFromBlock_def elem_tid_def entry_tid_def)
qed

lemma repair_highest_total:
  assumes g: "graph_ok True m dim (vs_index vs)" "dead_ok D (vs_index vs)" and vs: "vs_m vs = m" "vs_deleted vs = D" "dist_ok (vs_support vs) dim"
    and mp: "meta_ok m (vs_index vs) mp" "entry_ok_disk (vs_index vs) mp" and hp: "high_point (vs_index vs) mp (vs_highestPoint vs)" "he_blkno (vs_highestPoint vs) \<noteq> InvalidBlockNumber"
  shows "\<exists>r' es et. repair_highest vs = Inr (vs\<lparr>vs_index := r'\<rparr>, es) \<and> mended m dim D (vs_index vs) r' \<and> read_meta r' = read_meta (vs_index vs) \<and> 0 < length es \<and>
    stands_for r' (es ! 0) et \<and> tup_tids et \<noteq> [] \<and> clean D r' et \<and> elem_tid (es ! 0) \<noteq> entry_tid mp"
proof -
  let ?r = "vs_index vs" and ?hp = "vs_highestPoint vs"
  obtain et where et: "tup_at ?r (he_blkno ?hp) (he_offno ?hp) = Inr (ElementTup et)" "tup_tids et \<noteq> []" and ne: "elem_tid ?hp \<noteq> entry_tid mp" using hp by (auto simp: high_point_def)
  have nd: "et_deleted et = 0" by (rule live_tuple [OF g(1) et])
  have nz: "mp_entryBlkno mp \<noteq> InvalidBlockNumber" using mp(2) et(1) nd by (auto simp: entry_ok_disk_def split: if_splits)
  obtain ee x where ee: "HnswGetEntryPoint ?r = Inr (Some ee)" "elem_tid ee = entry_tid mp" "tup_at ?r (he_blkno ee) (he_offno ee) = Inr (ElementTup x)" "et_deleted x = 0"
    by (rule entry_cell [OF g(1) mp nz])
  obtain d v where v: "HnswLoadElement [?hp] 0 False None ?r (vs_support vs) True None = Inr (d, [v])" "stands_for ?r v et" "elem_tid v = elem_tid ?hp"
    using load_point [of ?r "[?hp]" 0 et "vs_support vs"] et(1) by auto
  obtain need where n: "NeedsUpdated vs v = Inr need" "\<not> need \<longrightarrow> clean D ?r et" using NeedsUpdated_total [OF g(1) v(2) nd] vs(2) by auto
  show ?thesis
  proof (cases need)
    case False
    then have "repair_highest vs = Inr (vs, [v])" using v(1) n(1) by (simp add: repair_highest_def)
    then show ?thesis using False n(2) v(2,3) et(2) ne mended_refl [OF g(1)] by (intro exI [of _ ?r] exI [of _ "[v]"] exI [of _ et]) simp
  next
    case True
    then have e: "repair_highest vs = RepairGraphElement vs [v, ee] 0 (Some 1)" using v(1) n(1) ee(1) by (simp add: repair_highest_def with_entry_def)
    obtain r1 es1 where s: "RepairGraphElement vs [v, ee] 0 (Some 1) = Inr (vs\<lparr>vs_index := r1\<rparr>, es1)" "mended m dim D ?r r1" "read_meta r1 = read_meta ?r"
        "clean D r1 et" "2 \<le> length es1" "stands_for r1 (es1 ! 0) et" "elem_tid (es1 ! 0) = elem_tid v"
      using repair_element_graph [OF g vs(3,1), of 0 "[v, ee]" et "Some 1"] v(2,3) nd et(2) ee(2-4) ne by auto
    have "0 < length es1" "elem_tid (es1 ! 0) \<noteq> entry_tid mp" using s(5,7) v(3) ne by auto
    then show ?thesis using s(1-4,6) et(2) unfolding e by blast
  qed
qed

text \<open>The entry point is replaced when it is dead, and repaired otherwise.\<close>

lemma repair_entry_dead:
  assumes g: "graph_ok True m dim (vs_index vs)" "dead_ok D (vs_index vs)" "length (rel_blocks (vs_index vs)) \<le> InvalidBlockNumber" and vs: "vs_deleted vs = D"
    and mp: "meta_ok m (vs_index vs) mp" "entry_ok_disk (vs_index vs) mp" "mp_entryBlkno mp \<noteq> InvalidBlockNumber" "entry_tid mp \<in> D"
    and h: "0 < length es" "hv \<Longrightarrow> \<exists>et. stands_for (vs_index vs) (es ! 0) et \<and> tup_tids et \<noteq> [] \<and> clean D (vs_index vs) et"
    and none: "\<And>b off et. \<not> hv \<Longrightarrow> tup_at (vs_index vs) b off = Inr (ElementTup et) \<Longrightarrow> tup_tids et = []"
  shows "\<exists>r'. repair_entry hv es vs = Inr (vs\<lparr>vs_index := r'\<rparr>) \<and> vac_ok m dim D r' \<and> mended m dim D (vs_index vs) r'"
proof -
  let ?r = "vs_index vs"
  obtain ee where ee: "HnswGetEntryPoint ?r = Inr (Some ee)" "elem_tid ee = entry_tid mp" by (rule entry_cell [OF g(1) mp(1-3)])
  define hpo where "hpo = (if hv then Some (es ! 0) else None)"
  have "\<exists>r2. HnswUpdateMetaPage ?r UpdateAlways hpo InvalidBlockNumber = Inr r2 \<and> vac_ok m dim D r2 \<and> mended m dim D ?r r2"
  proof (cases hv)
    case True
    then obtain et where et: "stands_for ?r (es ! 0) et" "tup_tids et \<noteq> []" "clean D ?r et" using h(2) by blast
    then have "et_deleted et = 0" using live_tuple [OF g(1)] by (auto simp: stands_for_def)
    then show ?thesis using entry_update [OF g mp(1) et(1) _ et(2,3)] True by (simp add: hpo_def)
  next
    case False
    then have "entry_done D ?r (HnswUpdateMetaPageInfo mp UpdateAlways None InvalidBlockNumber)" using none by (simp add: entry_done_def HnswUpdateMetaPageInfo_def)
    then show ?thesis using meta_update [OF g mp(1), of UpdateAlways None] False by (simp add: hpo_def)
  qed
  then obtain r2 where r2: "HnswUpdateMetaPage ?r UpdateAlways hpo InvalidBlockNumber = Inr r2" "vac_ok m dim D r2" "mended m dim D ?r r2" by blast
  have "(if hv then rbind (nth_r es 0) (\<lambda>h. Inr (Some h)) else Inr None) = Inr hpo" using h(1) by (simp add: hpo_def)
  then have "repair_entry hv es vs = Inr (vs\<lparr>vs_index := r2\<rparr>)" using ee mp(4) r2(1) vs by (simp add: repair_entry_def DeletedContains_def elem_tid_def)
  then show ?thesis using r2(2,3) by blast
qed

lemma repair_entry_alive:
  assumes g: "graph_ok True m dim (vs_index vs)" "dead_ok D (vs_index vs)" "length (rel_blocks (vs_index vs)) \<le> InvalidBlockNumber"
    and vs: "vs_m vs = m" "vs_deleted vs = D" "dist_ok (vs_support vs) dim"
    and mp: "meta_ok m (vs_index vs) mp" "entry_ok_disk (vs_index vs) mp" "mp_entryBlkno mp \<noteq> InvalidBlockNumber" "entry_tid mp \<notin> D"
    and h: "0 < length es" "hv \<Longrightarrow> \<exists>et. stands_for (vs_index vs) (es ! 0) et \<and> tup_tids et \<noteq> [] \<and> elem_tid (es ! 0) \<noteq> entry_tid mp"
  shows "\<exists>r'. repair_entry hv es vs = Inr (vs\<lparr>vs_index := r'\<rparr>) \<and> vac_ok m dim D r' \<and> mended m dim D (vs_index vs) r'"
proof -
  let ?r = "vs_index vs" and ?en = "if hv then Some 0 else None :: eptr option"
  obtain ee x where ee: "HnswGetEntryPoint ?r = Inr (Some ee)" "elem_tid ee = entry_tid mp" "tup_at ?r (he_blkno ee) (he_offno ee) = Inr (ElementTup x)" "et_deleted x = 0"
      "mp_entryLevel mp = int (et_level x)" "he_blkno ee = mp_entryBlkno mp" "he_offno ee = mp_entryOffno mp"
    by (rule entry_cell [OF g(1) mp(1-3)])
  have tx: "tup_tids x \<noteq> []" using mp(4) ee(2,3) g(2) unfolding dead_ok_def elem_tid_def by metis
  have fin: "vac_ok m dim D r'" if c: "mended m dim D ?r r'" "read_meta r' = read_meta ?r" "clean D r' x" for r'
  proof -
    have rp: "repaired ?r r'" "graph_ok True m dim r'" using c(1) by (simp_all add: mended_def)
    have "entry_done D r' mp" using tx c(3) ee(3-7) mp(3) repaired_element [OF rp(1)] by (simp add: entry_done_def)
    moreover have "dead_ok D r'" "length (rel_blocks r') \<le> InvalidBlockNumber" using dead_ok_repaired [OF rp(1)] g(2,3) rp(1) by (simp_all add: repaired_def same_pages_def)
    ultimately show ?thesis using meta_ok_mended [OF c(1,2) mp(1)] rp(2) unfolding vac_ok_def by blast
  qed
  obtain d v where v: "HnswLoadElement (es @ [ee]) (length es) False None ?r (vs_support vs) True None = Inr (d, es @ [v])" "stands_for ?r v x" "elem_tid v = elem_tid ee"
    using load_point [of ?r "es @ [ee]" "length es" x "vs_support vs"] ee(3) by auto
  obtain need where n: "NeedsUpdated vs v = Inr need" "\<not> need \<longrightarrow> clean D ?r x" using NeedsUpdated_total [OF g(1) v(2) ee(4)] vs(2) by auto
  define es2 where "es2 = (if hv then (es @ [v])[0 := ((es @ [v]) ! 0)\<lparr>he_neighbors := None\<rparr>] else es @ [v])"
  have e: "repair_entry hv es vs = (if need then rbind (RepairGraphElement vs es2 (length es) ?en) (\<lambda>(vs2, _). Inr vs2) else Inr vs)"
    unfolding repair_entry_def es2_def using ee(1,2) mp(4) v(1) n(1) vs(2) by (cases hv; simp add: DeletedContains_def elem_tid_def Let_def del: list_update.simps)
  show ?thesis
  proof (cases need)
    case False
    then show ?thesis using e n(2) fin [OF mended_refl [OF g(1)]] mended_refl [OF g(1)] by (intro exI [of _ ?r]) simp
  next
    case True
    have l2: "length es < length es2" "es2 ! length es = v" "0 < length es2" using h(1) by (simp_all add: es2_def nth_append)
    have en: "q < length es2 \<and> q \<noteq> length es \<and> elem_tid (es2 ! q) \<noteq> elem_tid (es2 ! length es) \<and>
        (\<exists>eq. tup_at ?r (he_blkno (es2 ! q)) (he_offno (es2 ! q)) = Inr (ElementTup eq) \<and> et_deleted eq = 0)" if "?en = Some q" for q
    proof -
      have hq: "hv" "q = 0" using that by (simp_all split: if_splits)
      then have e0: "es2 ! q = (es ! 0)\<lparr>he_neighbors := None\<rparr>" using h(1) by (simp add: es2_def nth_append)
      obtain et where "tup_at ?r (he_blkno (es ! 0)) (he_offno (es ! 0)) = Inr (ElementTup et)" "tup_tids et \<noteq> []" "elem_tid (es ! 0) \<noteq> entry_tid mp"
        using h(2) hq(1) by (auto simp: stands_for_def)
      then show ?thesis unfolding e0 using hq(2) l2 h(1) v(3) ee(2) live_tuple [OF g(1)] by (simp add: elem_tid_def)
    qed
    have sv: "stands_for ?r (es2 ! length es) x" using l2(2) v(2) by simp
    obtain r2 es3 where s: "RepairGraphElement vs es2 (length es) ?en = Inr (vs\<lparr>vs_index := r2\<rparr>, es3)" "mended m dim D ?r r2" "read_meta r2 = read_meta ?r" "clean D r2 x"
      using repair_element_graph [OF g(1,2) vs(3,1) l2(1) sv ee(4) tx en] by blast
    then show ?thesis using e True fin [OF s(2-4)] by auto
  qed
qed

lemma RepairGraphEntryPoint_total:
  assumes g: "graph_ok True m dim (vs_index vs)" "dead_ok D (vs_index vs)" "length (rel_blocks (vs_index vs)) \<le> InvalidBlockNumber"
    and vs: "vs_m vs = m" "vs_deleted vs = D" "dist_ok (vs_support vs) dim"
    and mp: "meta_ok m (vs_index vs) mp" "entry_ok_disk (vs_index vs) mp" and hp: "high_point (vs_index vs) mp (vs_highestPoint vs)"
  shows "\<exists>r'. RepairGraphEntryPoint vs = Inr (vs\<lparr>vs_index := r'\<rparr>) \<and> vac_ok m dim D r' \<and> mended m dim D (vs_index vs) r'"
proof -
  let ?r = "vs_index vs" and ?hp = "vs_highestPoint vs"
  define hv where "hv \<longleftrightarrow> he_blkno ?hp \<noteq> InvalidBlockNumber"
  obtain r1 es where h: "(if hv then repair_highest vs else Inr (vs, [?hp])) = Inr (vs\<lparr>vs_index := r1\<rparr>, es)" "mended m dim D ?r r1" "read_meta r1 = read_meta ?r" "0 < length es"
      "hv \<longrightarrow> (\<exists>et. stands_for r1 (es ! 0) et \<and> tup_tids et \<noteq> [] \<and> clean D r1 et \<and> elem_tid (es ! 0) \<noteq> entry_tid mp)" "\<not> hv \<longrightarrow> r1 = ?r"
  proof (cases hv)
    case True
    then show ?thesis using that repair_highest_total [OF g(1,2) vs mp hp] hv_def by (metis (no_types, lifting))
  next
    case False
    then show ?thesis using that [of ?r "[?hp]"] mended_refl [OF g(1)] by simp
  qed
  let ?vs = "vs\<lparr>vs_index := r1\<rparr>"
  have eq: "RepairGraphEntryPoint vs = repair_entry hv es ?vs" unfolding RepairGraphEntryPoint_def Let_def hv_def [symmetric] h(1) by simp
  have rp: "repaired ?r r1" using h(2) by (simp add: mended_def)
  have g1: "graph_ok True m dim r1" "dead_ok D r1" "length (rel_blocks r1) \<le> InvalidBlockNumber"
    using h(2) g(2,3) dead_ok_repaired [OF rp] rp by (simp_all add: mended_def repaired_def same_pages_def)
  have m1: "meta_ok m r1 mp" "entry_ok_disk r1 mp" using meta_ok_mended [OF h(2,3) mp(1)] mp(2) by (simp_all add: entry_ok_disk_def repaired_element [OF rp])
  have none: "tup_tids et = []" if "\<not> hv" "tup_at r1 b off = Inr (ElementTup et)" "mp_entryBlkno mp = InvalidBlockNumber \<or> entry_tid mp \<in> D" for b off et
  proof (rule ccontr)
    assume n: "tup_tids et \<noteq> []"
    have at: "tup_at ?r b off = Inr (ElementTup et)" using that h(6) by simp
    then have e: "ItemPointerSet b off = entry_tid mp" using hp n that(1) by (simp add: high_point_def hv_def)
    then have "ItemPointerSet b off \<notin> D" "b = mp_entryBlkno mp" using g(2) at n by (auto simp: dead_ok_def entry_tid_def)
    then show False using that(3) g(3) e tup_at_page [OF at] by auto
  qed
  have "\<exists>r'. repair_entry hv es ?vs = Inr (?vs\<lparr>vs_index := r'\<rparr>) \<and> vac_ok m dim D r' \<and> mended m dim D r1 r'"
  proof (cases "mp_entryBlkno mp = InvalidBlockNumber")
    case True
    have nh: "\<not> hv"
    proof
      assume hv
      then obtain et where "tup_at r1 (he_blkno (es ! 0)) (he_offno (es ! 0)) = Inr (ElementTup et)" "tup_tids et \<noteq> []" using h(5) by (auto simp: stands_for_def)
      then show False using True m1(2) live_tuple [OF g1(1)] unfolding entry_ok_disk_def by metis
    qed
    have "HnswGetEntryPoint r1 = Inr None" using True m1(1) by (simp add: meta_ok_def HnswGetEntryPoint_def HnswGetMetaPageInfo_def)
    then have "repair_entry hv es ?vs = Inr ?vs" by (simp add: repair_entry_def)
    moreover have "entry_done D r1 mp" using True m1(2) none [OF nh] by (simp add: entry_done_def entry_ok_disk_def)
    then have "vac_ok m dim D r1" using g1 m1(1) unfolding vac_ok_def by blast
    ultimately show ?thesis using mended_refl [OF g1(1)] by (intro exI [of _ r1]) simp
  next
    case False
    show ?thesis
    proof (cases "entry_tid mp \<in> D")
      case True
      have "hv \<Longrightarrow> \<exists>et. stands_for r1 (es ! 0) et \<and> tup_tids et \<noteq> [] \<and> clean D r1 et" using h(5) by blast
      then show ?thesis using repair_entry_dead [of m dim ?vs D mp es hv] g1 vs m1 False True h(4) none by simp
    next
      case alive: False
      have "hv \<Longrightarrow> \<exists>et. stands_for r1 (es ! 0) et \<and> tup_tids et \<noteq> [] \<and> elem_tid (es ! 0) \<noteq> entry_tid mp" using h(5) by blast
      then show ?thesis using repair_entry_alive [of m dim ?vs D mp es hv] g1 vs m1 False alive h(4) by simp
    qed
  qed
  then show ?thesis unfolding eq using mended_trans [OF h(2)] by auto
qed

section \<open>The index after the first pass\<close>

lemma trimmed_element: "map_sum id (trim cb) x = Inr (ElementTup et) \<longleftrightarrow> (\<exists>et0. x = Inr (ElementTup et0) \<and> et = trim_tids cb et0)"
  by (cases x) (auto simp: trim_element)

lemma packed_trim: "packed et \<Longrightarrow> packed (trim_tids cb et)"
proof -
  assume p: "packed et"
  show ?thesis
  proof (cases "\<exists>t\<in>set (tup_tids et). cb t")
    case True
    let ?k = "filter (\<lambda>t. \<not> cb t) (tup_tids et)"
    have "et_heaptids (trim_tids cb et) = ?k @ replicate (HNSW_HEAPTIDS - length ?k) InvalidItemPointer" using True by (simp add: trim_tids_def)
    moreover have "length (et_heaptids (trim_tids cb et)) = HNSW_HEAPTIDS" using p trim_tids_length by (simp add: packed_def)
    ultimately show ?thesis by (simp add: packed_def)
  next
    case False
    then show ?thesis using p by (simp add: trim_tids_def)
  qed
qed

lemma trim_graph:
  assumes g: "graph_ok False m dim r" and w: "rel_wf r'" "same_pages r r'" and t: "\<And>b off. tup_at r' b off = map_sum id (trim cb) (tup_at r b off)"
  shows "graph_ok True m dim r'"
proof -
  have g0: "HNSW_MIN_M \<le> m" "m \<le> HNSW_MAX_M" "seq_chain r" "linked r" and tk: "\<And>b off et. tup_at r b off = Inr (ElementTup et) \<Longrightarrow> tuple_ok False m dim r et"
    using g by (auto simp: graph_ok_def)
  have lv: "live_tid r' lc u" if "live_tid r lc u" for lc u using that by (auto simp: live_tid_iff t)
  have "tuple_ok True m dim r' et" if e: "tup_at r' b off = Inr (ElementTup et)" for b off et
  proof -
    obtain et0 where e0: "tup_at r b off = Inr (ElementTup et0)" "et = trim_tids cb et0" using e unfolding t trimmed_element by blast
    have k: "tuple_ok False m dim r et0" by (rule tk [OF e0(1)])
    show ?thesis
    proof (cases "et_deleted et0 = 0")
      case True
      then obtain n where n: "nbr_at r et0 = Inr (NeighborTup n)" "slots_ok m r (et_level et0) (nt_indextids n)" using k by (auto simp: tuple_ok_def)
      have "nbr_at r' et = Inr (NeighborTup n)" "slots_ok m r' (et_level et) (nt_indextids n)" using n(1) slots_ok_live [OF n(2) lv] e0(2) by (simp_all add: t)
      then show ?thesis using k True e0(2) packed_trim by (simp add: tuple_ok_def)
    next
      case False
      then show ?thesis using k e0(2) by (simp add: tuple_ok_def)
    qed
  qed
  moreover have "linked r'" by (rule linked_trim [where D = UNIV, OF _ g0(4)]) (simp add: t)
  ultimately show ?thesis using g0 w seq_chain_same [OF w(2) g0(3)] unfolding graph_ok_def by blast
qed

lemma entry_ok_trim:
  assumes "\<And>b off. tup_at r' b off = map_sum id (trim cb) (tup_at r b off)"
  shows "entry_ok_disk r' mp \<longleftrightarrow> entry_ok_disk r mp"
proof -
  have "live_tid r' lc u \<longleftrightarrow> live_tid r lc u" for lc u by (auto simp: live_tid_iff assms trimmed_element)
  then show ?thesis by (simp add: entry_ok_live)
qed

lemma high_ok_point:
  assumes h: "high_ok ep r C (hp, hl)" and C: "\<And>b off t. tup_at r b off = Inr t \<Longrightarrow> b \<in> C" and len: "length (rel_blocks r) \<le> InvalidBlockNumber"
    and ep: "HnswGetEntryPoint r = Inr ep" "read_meta r = Inr mp"
  shows "high_point r mp hp"
proof -
  have at: "at_entry ep ip \<longleftrightarrow> ip = entry_tid mp \<and> mp_entryBlkno mp \<noteq> InvalidBlockNumber \<or> False" if "ip_blkid ip \<noteq> InvalidBlockNumber" for ip
    using HnswGetEntryPoint_eq [OF ep] that by (auto simp: at_entry_def entry_tid_def split: option.splits)
  have nz: "b \<noteq> InvalidBlockNumber" if "tup_at r b off = Inr t" for b off t using tup_at_page [OF that] len by auto
  show ?thesis
  proof (cases "he_blkno hp = InvalidBlockNumber")
    case True
    then have "\<forall>ip. ip_blkid ip \<in> C \<longrightarrow> tup_in r has_tids ip \<longrightarrow> at_entry ep ip" using h nz by (auto simp: high_ok_def tup_in_def)
    then have "ItemPointerSet b off = entry_tid mp" if "tup_at r b off = Inr (ElementTup et)" "tup_tids et \<noteq> []" for b off et
      using that C [OF that(1)] nz [OF that(1)] at [of "ItemPointerSet b off"] by (auto simp: tup_in_def tids_of_def)
    then show ?thesis using True by (simp add: high_point_def)
  next
    case False
    then have l: "tup_in r has_tids (high_tid hp)" "\<not> at_entry ep (high_tid hp)" using h by (auto simp: high_ok_def)
    have "high_tid hp \<noteq> entry_tid mp" using at [of "high_tid hp"] l(2) False by (auto simp: entry_tid_def high_tid_def)
    moreover obtain et where "tup_at r (he_blkno hp) (he_offno hp) = Inr (ElementTup et)" "tup_tids et \<noteq> []" using tup_in_live [OF l(1)] by auto
    ultimately show ?thesis using False by (auto simp: high_point_def high_tid_def elem_tid_def)
  qed
qed

lemma first_pass:
  assumes ok: "disk_ok m dim r" and len: "length (rel_blocks r) \<le> InvalidBlockNumber" and i: "InitVacuumState r support stats cb = Inr vs"
  shows "\<exists>vs1 mp. RemoveHeapTids vs = Inr vs1 \<and> graph_ok True m dim (vs_index vs1) \<and> dead_ok (vs_deleted vs1) (vs_index vs1) \<and>
    length (rel_blocks (vs_index vs1)) = length (rel_blocks r) \<and> vs_m vs1 = m \<and> vs_support vs1 = support \<and> meta_ok m (vs_index vs1) mp \<and>
    entry_ok_disk (vs_index vs1) mp \<and> high_point (vs_index vs1) mp (vs_highestPoint vs1)"
proof -
  let ?C = "set (page_chain r)"
  obtain mp where g: "graph_ok False m dim r" and mp: "meta_ok m r mp" "entry_ok_disk r mp" using ok by (auto simp: disk_ok_def meta_ok_def)
  note ch = disk_chain [OF ok len] and f = InitVacuumState_fields [OF i]
  have on: "b \<in> ?C" if "tup_at r b off = Inr t" for b off t using ch(6) [of "ItemPointerSet b off"] that by simp
  have ten: "\<forall>b off t. tup_at (vs_index vs) b off = Inr t \<longrightarrow> ten_tids t" using linkedD [OF ch(2)] f(1) by (auto simp: ten_tids_def split: HnswTuple.splits)
  obtain ep where ep: "HnswGetEntryPoint r = Inr ep" using f(5) by blast
  obtain vs1 hl vs0 where p: "RemoveHeapTids vs = Inr vs1" "rel_wf (vs_index vs1)" "same_pages r (vs_index vs1)"
      "vs0 = vs\<lparr>vs_highestPoint := vs_highestPoint vs0\<rparr>" "remove_inv ep vs0 ?C (vs1, hl)"
    using RemoveHeapTids_inv [of vs ep] ch(1,3) ten f ep unfolding same_pages_def by auto
  have v0: "vs_index vs0 = r" "vs_callback vs0 = cb" "vs_m vs0 = vs_m vs" "vs_support vs0 = support"
    using f arg_cong [OF p(4), of vs_index] arg_cong [OF p(4), of vs_callback] arg_cong [OF p(4), of vs_m] arg_cong [OF p(4), of vs_support] by simp_all
  let ?r = "vs_index vs1"
  note d = remove_invD [OF p(5), unfolded v0]
  have t: "tup_at ?r b off = map_sum id (trim cb) (tup_at r b off)" for b off
    using d(1) [of b off] on [of b off] by (cases "b \<in> ?C"; cases "tup_at r b off") auto
  have on1: "b \<in> ?C" if "tup_at ?r b off = Inr x" for b off x using that on unfolding t map_sum_Inr by blast
  have "dead_ok (vs_deleted vs1) ?r" using on1 by (auto simp: dead_ok_def d(3) tup_in_def empty_tuple_def)
  moreover have l: "length (rel_blocks ?r) = length (rel_blocks r)" using p(3) by (simp add: same_pages_def)
  moreover have m: "vs_m vs1 = m" using d(7) f(6) mp(1) by (auto simp: meta_ok_def)
  moreover have "meta_ok m ?r mp" using mp(1) d(2) l by (simp add: meta_ok_def block_ok_def)
  moreover have "high_point ?r mp (vs_highestPoint vs1)"
    by (rule high_ok_point [OF d(6) on1]) (use len l ep d(2) mp(1) HnswGetEntryPoint_meta [OF d(2)] in \<open>simp_all add: meta_ok_def\<close>)
  ultimately show ?thesis using p(1) trim_graph [OF g p(2,3) t] entry_ok_trim [OF t] mp(2) d(8) by blast
qed

section \<open>The index after the repair\<close>

lemma repair_pass:
  assumes g: "graph_ok True m dim (vs_index vs)" "dead_ok (vs_deleted vs) (vs_index vs)" "length (rel_blocks (vs_index vs)) \<le> InvalidBlockNumber"
    and vs: "vs_m vs = m" "dist_ok (vs_support vs) dim"
    and mp: "meta_ok m (vs_index vs) mp" "entry_ok_disk (vs_index vs) mp" and hp: "high_point (vs_index vs) mp (vs_highestPoint vs)"
  shows "\<exists>vs'. RepairGraph vs = Inr vs' \<and> vac_ok m dim (vs_deleted vs) (vs_index vs') \<and> mended m dim (vs_deleted vs) (vs_index vs) (vs_index vs') \<and>
    (\<forall>b off et. tup_at (vs_index vs') b off = Inr (ElementTup et) \<longrightarrow> tup_tids et \<noteq> [] \<longrightarrow> clean (vs_deleted vs) (vs_index vs') et)"
proof -
  let ?D = "vs_deleted vs"
  obtain r1 where r1: "RepairGraphEntryPoint vs = Inr (vs\<lparr>vs_index := r1\<rparr>)" "vac_ok m dim ?D r1" "mended m dim ?D (vs_index vs) r1"
    using RepairGraphEntryPoint_total [OF g vs(1) refl vs(2) mp hp] by blast
  let ?vs1 = "vs\<lparr>vs_index := r1\<rparr>"
  have i: "mend_inv m dim vs {} ?vs1" using r1(2,3) vs by (simp add: mend_inv_def)
  have w1: "rel_wf r1" "seq_chain r1" "length (rel_blocks r1) = length (rel_blocks (vs_index vs))"
    using r1(3) by (simp_all add: mended_def graph_ok_def repaired_def same_pages_def)
  have l1: "1 < length (rel_blocks r1)" using mp(1) w1(3) by (auto simp: meta_ok_def block_ok_def)
  obtain vs' where w: "walk_pages (Suc (length (rel_blocks r1))) repair_page HNSW_HEAD_BLKNO ?vs1 = Inr vs'" using mending.pass_total [OF i] w1(1) l1 by auto
  have "walk_pages (Suc (length (rel_blocks (vs_index ?vs1)))) repair_page HNSW_HEAD_BLKNO ?vs1 = Inr vs'" "rel_wf (vs_index ?vs1)" using w w1(1) by simp_all
  note ps = mending.pass_inv [OF this(1) i this(2)]
  have ps: "mend_inv m dim vs (set (page_chain r1)) vs'" "rel_wf (vs_index vs')" "length (rel_blocks (vs_index vs')) = length (rel_blocks r1)"
    using ps(1,2,4) by simp_all
  have ch: "page_chain r1 = [1..<length (rel_blocks r1)]"
    unfolding page_chain_def using seq_chain_from [OF w1(1,2), of 1 "Suc (length (rel_blocks r1))"] l1 g(3) w1(3) by (simp add: hnsw_const)
  have on: "b \<in> set (page_chain r1)" if "tup_at (vs_index vs') b off = Inr t" for b off t
    using tup_at_page [OF that] rel_wf_page(1) [OF ps(2)] ps(3) by (fastforce simp: ch Suc_le_eq)
  note m = ps(1) [unfolded mend_inv_def]
  have "clean ?D (vs_index vs') et" if "tup_at (vs_index vs') b off = Inr (ElementTup et)" "tup_tids et \<noteq> []" for b off et
    using m on [OF that(1)] that by blast
  moreover have "vac_ok m dim ?D (vs_index vs')" "mended m dim ?D (vs_index vs) (vs_index vs')" using m by blast+
  moreover have "RepairGraph vs = Inr vs'" using r1(1) w by (simp add: RepairGraph_def del: walk_pages.simps)
  ultimately show ?thesis by blast
qed

section \<open>The index after the last pass\<close>

lemma slots_ok_clean:
  assumes "slots_ok m r level tids" "clean_tids D tids" "\<And>lc t. live_tid r lc t \<Longrightarrow> t \<notin> D \<Longrightarrow> live_tid r' lc t"
  shows "slots_ok m r' level tids"
  unfolding slots_ok_def
proof (intro conjI allI impI)
  show len: "length tids = (level + 2) * m" using assms(1) by (simp add: slots_ok_def)
  fix lc i assume a: "lc \<le> level" "i < HnswGetLayerM m lc" "ItemPointerIsValid (tids ! ((level - lc) * m + i))"
  have "(level - lc) * m + i < length tids" using layer_bound [OF a(1), of m] a(2) len by linarith
  then have "tids ! ((level - lc) * m + i) \<notin> D" using assms(2) a(3) by (simp add: clean_tids_def)
  then show "live_tid r' lc (tids ! ((level - lc) * m + i))" using assms(1,3) a unfolding slots_ok_def by blast
qed

lemma marked_graph:
  assumes g: "graph_ok True m dim r" "dead_ok D r" and cl: "\<And>b off et. tup_at r b off = Inr (ElementTup et) \<Longrightarrow> tup_tids et \<noteq> [] \<Longrightarrow> clean D r et"
    and w: "rel_wf r'" "same_pages r r'" "marked r X r'" and X: "\<And>b off t. tup_at r b off = Inr t \<Longrightarrow> (b, off) \<in> X"
  shows "graph_ok False m dim r'"
proof -
  have g0: "HNSW_MIN_M \<le> m" "m \<le> HNSW_MAX_M" "seq_chain r" "linked r" and tk: "\<And>b off et. tup_at r b off = Inr (ElementTup et) \<Longrightarrow> tuple_ok True m dim r et"
    using g(1) by (auto simp: graph_ok_def)
  note me = marked_element [OF w(3) g0(4)]
  have kept: "live_tid r' lc u" if u: "live_tid r lc u" "u \<notin> D" for lc u
  proof -
    obtain et where et: "at_tid r u = Inr (ElementTup et)" "et_deleted et = 0" "lc \<le> et_level et" using u(1) by (auto simp: live_tid_iff)
    have "\<not> to_mark et" using dead_okD [OF g(2) et(1)] u(2) by (simp add: to_mark_def)
    then have "at_tid r' u = Inr (ElementTup et)" using me et(1) by auto
    then show ?thesis using et by (auto simp: live_tid_iff)
  qed
  have "tuple_ok False m dim r' et" if e: "tup_at r' b off = Inr (ElementTup et)" for b off et
  proof -
    obtain et0 where e0: "tup_at r b off = Inr (ElementTup et0)" "et = (if to_mark et0 then clear_element et0 else et0)" using e me X by auto
    have k: "tuple_ok True m dim r et0" by (rule tk [OF e0(1)])
    consider "to_mark et0" | "et_deleted et0 \<noteq> 0" "et = et0" | "et_deleted et0 = 0" "tup_tids et0 \<noteq> []" "et = et0" "\<not> to_mark et0" using e0(2) by (auto simp: to_mark_def)
    then show ?thesis
    proof cases
      case 1
      then show ?thesis using e0(2) by (simp add: tuple_ok_def to_mark_def)
    next
      case 2
      then show ?thesis using k by (simp add: tuple_ok_def)
    next
      case 3
      obtain n where n: "nbr_at r et0 = Inr (NeighborTup n)" "slots_ok m r (et_level et0) (nt_indextids n)" using k 3(1) by (auto simp: tuple_ok_def)
      have c: "clean_tids D (nt_indextids n)" using cl [OF e0(1) 3(2)] n(1) by (simp add: clean_def)
      have "slots_ok m r' (et_level et0) (nt_indextids n)" by (rule slots_ok_clean [OF n(2) c kept])
      moreover have "nbr_at r' et0 = Inr (NeighborTup n)" using marked_kept_nbr [OF w(3) g0(4) e0(1)] 3(4) n(1) by simp
      ultimately show ?thesis using k 3 by (simp add: tuple_ok_def)
    qed
  qed
  then show ?thesis using g0 w seq_chain_same [OF w(2) g0(3)] linked_marked [OF w(3) g0(4)] unfolding graph_ok_def by blast
qed

lemma marked_entry:
  assumes l: "linked r" and w: "marked r X r'" and X: "\<And>b off t. tup_at r b off = Inr t \<Longrightarrow> (b, off) \<in> X" and e: "entry_done D r mp"
    and mp: "mp_entryBlkno mp' = mp_entryBlkno mp" "mp_entryOffno mp' = mp_entryOffno mp" "mp_entryLevel mp' = mp_entryLevel mp"
  shows "entry_ok_disk r' mp'"
proof -
  note me = marked_element [OF w l]
  show ?thesis
  proof (cases "mp_entryBlkno mp = InvalidBlockNumber")
    case True
    then have n: "\<And>b off et. tup_at r b off = Inr (ElementTup et) \<Longrightarrow> tup_tids et = []" "mp_entryLevel mp = -1" using e by (simp_all add: entry_done_def)
    have "et_deleted et \<noteq> 0" if t: "tup_at r' b off = Inr (ElementTup et)" for b off et
    proof -
      obtain et0 where e0: "tup_at r b off = Inr (ElementTup et0)" "et = (if (b, off) \<in> X \<and> to_mark et0 then clear_element et0 else et0)" using t me by blast
      then show ?thesis using n(1) X by (cases "to_mark et0") (auto simp: to_mark_def)
    qed
    then show ?thesis using True n(2) mp by (simp add: entry_ok_disk_def)
  next
    case False
    then obtain et where et: "tup_at r (mp_entryBlkno mp) (mp_entryOffno mp) = Inr (ElementTup et)" "et_deleted et = 0" "mp_entryLevel mp = int (et_level et)" "tup_tids et \<noteq> []"
      using e by (auto simp: entry_done_def)
    then have "tup_at r' (mp_entryBlkno mp) (mp_entryOffno mp) = Inr (ElementTup et)" using me by (auto simp: to_mark_def)
    then show ?thesis using et False mp by (simp add: entry_ok_disk_def)
  qed
qed

text \<open>VACUUM of a well-formed index returns and leaves a well-formed index.\<close>

lemma vacuum_disk:
  assumes ok: "disk_ok m dim r" and d: "dist_ok support dim" and len: "length (rel_blocks r) \<le> InvalidBlockNumber"
  shows "\<exists>r' st. hnswbulkdelete r support stats cb = Inr (r', st) \<and> disk_ok m dim r' \<and> length (rel_blocks r') = length (rel_blocks r)"
proof -
  obtain mp0 where "read_meta r = Inr mp0" "mp_magicNumber mp0 = HNSW_MAGIC_NUMBER" and dm: "dim \<le> HNSW_MAX_DIM" using ok by (auto simp: disk_ok_def)
  then obtain vs where i: "InitVacuumState r support stats cb = Inr vs" by (auto simp: InitVacuumState_def HnswGetMetaPageInfo_def)
  obtain vs1 mp1 where v1: "RemoveHeapTids vs = Inr vs1" "graph_ok True m dim (vs_index vs1)" "dead_ok (vs_deleted vs1) (vs_index vs1)"
      "length (rel_blocks (vs_index vs1)) = length (rel_blocks r)" "vs_m vs1 = m" "vs_support vs1 = support" "meta_ok m (vs_index vs1) mp1"
      "entry_ok_disk (vs_index vs1) mp1" "high_point (vs_index vs1) mp1 (vs_highestPoint vs1)"
    using first_pass [OF ok len i] by blast
  let ?D = "vs_deleted vs1"
  obtain vs2 where v2: "RepairGraph vs1 = Inr vs2" "vac_ok m dim ?D (vs_index vs2)" "mended m dim ?D (vs_index vs1) (vs_index vs2)"
      "\<And>b off et. tup_at (vs_index vs2) b off = Inr (ElementTup et) \<Longrightarrow> tup_tids et \<noteq> [] \<Longrightarrow> clean ?D (vs_index vs2) et"
    using repair_pass [OF v1(2,3) _ v1(5) _ v1(7-9)] v1(4,6) len d by auto
  let ?r = "vs_index vs2" and ?X = "set (page_chain (vs_index vs2)) \<times> (UNIV :: nat set)"
  obtain mp where g: "graph_ok True m dim ?r" "dead_ok ?D ?r" "length (rel_blocks ?r) \<le> InvalidBlockNumber" and mp: "meta_ok m ?r mp" "entry_done ?D ?r mp"
    using v2(2) by (auto simp: vac_ok_def)
  have w: "rel_wf ?r" "seq_chain ?r" "linked ?r" "1 < length (rel_blocks ?r)" using g(1) mp(1) by (auto simp: graph_ok_def meta_ok_def block_ok_def)
  have ch: "page_chain ?r = [1..<length (rel_blocks ?r)]"
    unfolding page_chain_def using seq_chain_from [OF w(1,2) g(3), of 1 "Suc (length (rel_blocks ?r))"] w(4) by (simp add: hnsw_const)
  have X: "(b, off) \<in> ?X" if "tup_at ?r b off = Inr t" for b off t using tup_at_page [OF that] rel_wf_page(1) [OF w(1)] by (fastforce simp: ch Suc_le_eq)
  have rm: "read_meta ?r = Inr mp" using mp(1) by (simp add: meta_ok_def)
  obtain r3 ip where k: "MarkDeleted vs2 = Inr (vs2\<lparr>vs_index := r3\<rparr>)" "rel_wf r3" "same_pages ?r r3" "marked ?r ?X r3" "insert_page_ok r3 ?X ip"
      "read_meta r3 = Inr (if ip = InvalidBlockNumber then mp else mp\<lparr>mp_insertPage := ip\<rparr>)"
    using MarkDeleted_ok [OF w(1,3,4) rm] by blast
  let ?mp = "if ip = InvalidBlockNumber then mp else mp\<lparr>mp_insertPage := ip\<rparr>"
  have l3: "length (rel_blocks r3) = length (rel_blocks ?r)" using k(3) by (simp add: same_pages_def)
  have "block_ok r3 ip" if nz: "ip \<noteq> InvalidBlockNumber"
  proof -
    obtain off where "del_at r3 (ip, off)" using k(5) unfolding insert_page_ok_def if_not_P [OF nz] by blast
    then obtain off t where "tup_at r3 ip off = Inr t" by (auto simp: del_at_def)
    then show ?thesis using tup_at_page rel_wf_page(1) [OF k(2)] by (fastforce simp: block_ok_def)
  qed
  then have "block_ok r3 (mp_insertPage ?mp)" using mp(1) l3 by (auto simp: meta_ok_def block_ok_def)
  moreover have "entry_ok_disk r3 ?mp" by (rule marked_entry [OF w(3) k(4) X mp(2)]) auto
  moreover have "mp_magicNumber ?mp = HNSW_MAGIC_NUMBER" "mp_m ?mp = m" using mp(1) by (simp_all add: meta_ok_def)
  moreover have "graph_ok False m dim r3" by (rule marked_graph [OF g(1,2) v2(4) k(2-4) X])
  ultimately have "disk_ok m dim r3" using dm k(6) unfolding disk_ok_def by blast
  moreover have "hnswbulkdelete r support stats cb = Inr (r3, vs_stats vs2)" using i v1(1) v2(1) k(1) by (simp add: hnswbulkdelete_def)
  moreover have "length (rel_blocks r3) = length (rel_blocks r)" using l3 v2(3) v1(4) by (simp add: mended_def repaired_def same_pages_def)
  ultimately show ?thesis by blast
qed

end
