(* ===== verification/HnswBuilt.thy ===== *)
theory HnswBuilt
  imports HnswInserted
begin

text \<open>
  The build of an index (\<open>hnswbuild\<close> of \<open>src/backend/access/hnsw/hnswbuild.c\<close>) is correct for every memory budget: the graph that is built
  in memory is written as a well-formed index, and the rows that no longer fit in memory are inserted on disk.
\<close>

section \<open>The written graph as pages\<close>

text \<open>A written graph: the pages \<open>r\<close> hold the nodes \<open>ps\<close> of the store \<open>es\<close>, with positions as in \<open>es'\<close>.\<close>

definition written :: "int \<Rightarrow> nat \<Rightarrow> elems \<Rightarrow> eptr list \<Rightarrow> HnswGraph \<Rightarrow> elems \<Rightarrow> Relation \<Rightarrow> bool" where
  "written dim m es ps g es' r \<longleftrightarrow> mem_ok m dim (HnswGetMaxLevel m) ps g es \<and> located es es' (set ps) \<and> holds es es' (neighbor_data es' m) (set ps) r \<and>
     HNSW_MIN_M \<le> m \<and> m \<le> HNSW_MAX_M \<and> dim \<le> HNSW_MAX_DIM"

lemma element_data_fields:
  assumes "he_value e = Some v"
  shows "et_level (element_data e nt) = he_level e" "et_deleted (element_data e nt) = 0" "et_version (element_data e nt) = he_version e"
    "et_data (element_data e nt) = v" "et_neighbortid (element_data e nt) = nt" "length (et_heaptids (element_data e nt)) = HNSW_HEAPTIDS"
  using assms by (simp_all add: element_data_def HnswSetElementTuple_def)

lemma written_node:
  assumes "written dim m es ps g es' r" "p \<in> set ps"
  shows "\<exists>v. p < length es \<and> he_value (es ! p) = Some v \<and> vec_wf v \<and> v_dim v = dim \<and> he_level (es ! p) \<le> HnswGetMaxLevel m \<and>
    at_tid r (elem_tid (es' ! p)) = Inr (ElementTup (element_data (es ! p) (nbr_tid (es' ! p)))) \<and> at_tid r (nbr_tid (es' ! p)) = Inr (NeighborTup (neighbor_data es' m p))"
proof -
  have ok: "mem_ok m dim (HnswGetMaxLevel m) ps g es" and h: "holds es es' (neighbor_data es' m) (set ps) r" using assms(1) by (simp_all add: written_def)
  have b: "p < length es" by (rule mem_ok_bound [OF ok assms(2)])
  obtain v where v: "he_value (es ! p) = Some v" "vec_wf v" "v_dim v = dim" using graph_wf_value [OF _ b] ok unfolding mem_ok_def by blast
  have "he_level (es ! p) \<le> HnswGetMaxLevel m" using ok b by (simp add: mem_ok_def tids_ok_def)
  moreover have "at_tid r (elem_tid (es' ! p)) = Inr (ElementTup (element_data (es ! p) (nbr_tid (es' ! p))))" "at_tid r (nbr_tid (es' ! p)) = Inr (NeighborTup (neighbor_data es' m p))"
    using h assms(2) unfolding holds_def by blast+
  ultimately show ?thesis using b v by blast
qed

lemma written_tuple:
  assumes "written dim m es ps g es' r" "at_tid r t = Inr (ElementTup et)"
  shows "\<exists>p\<in>set ps. t = elem_tid (es' ! p) \<and> et = element_data (es ! p) (nbr_tid (es' ! p))"
  using assms unfolding written_def holds_def by auto

lemma slots_small:
  assumes "written dim m es ps g es' r" "p \<in> set ps"
  shows "(he_level (es ! p) + 2) * m < 65536"
proof -
  obtain v where "he_level (es ! p) \<le> HnswGetMaxLevel m" using written_node [OF assms] by blast
  then have "HNSW_NEIGHBOR_TUPLE_SIZE (he_level (es ! p)) m \<le> HNSW_MAX_SIZE" using assms(1) by (intro max_level_tuple) (simp_all add: written_def)
  then have "6 * ((he_level (es ! p) + 2) * m) \<le> 8192" by (simp add: HNSW_NEIGHBOR_TUPLE_SIZE_def MAXALIGN_def hnsw_const)
  then show ?thesis by linarith
qed

lemma written_storable: "written dim m es ps g es' r \<Longrightarrow> p \<in> set ps \<Longrightarrow> storable es (es ! p) m"
  unfolding written_def by (blast intro: mem_ok_storable)

lemma written_linked:
  assumes w: "written dim m es ps g es' r"
  shows "linked r"
proof -
  have l: "located es es' (set ps)" using w by (simp add: written_def)
  have n: "\<exists>n. nbr_at r et = Inr (NeighborTup n) \<and> nt_count n = length (nt_indextids n) \<and> nt_version n = et_version et"
    and h: "length (et_heaptids et) = HNSW_HEAPTIDS" if at: "at_tid r t = Inr (ElementTup et)" for t et
  proof -
    obtain p where p: "p \<in> set ps" "et = element_data (es ! p) (nbr_tid (es' ! p))" using written_tuple [OF w at] by blast
    obtain v where v: "p < length es" "he_value (es ! p) = Some v" "at_tid r (nbr_tid (es' ! p)) = Inr (NeighborTup (neighbor_data es' m p))"
      using written_node [OF w p(1)] by blast
    note ed = element_data_fields [OF v(2), of "nbr_tid (es' ! p)", folded p(2)]
    have nd: "neighbor_data es' m p = stored_neighbors (\<lambda>q. elem_tid (es' ! q)) (es ! p) m"
      by (rule neighbor_data_stored [OF l v(1) written_storable [OF w p(1)]])
    have "length (concat (map (stored_layer pos e m) (rev [0..<Suc k]))) = (k + 2) * m" for pos e k
      by (induction k) (simp_all add: stored_layer_def Let_def HnswGetLayerM_def)
    then have "nt_count (neighbor_data es' m p) = length (nt_indextids (neighbor_data es' m p))" using slots_small [OF w p(1)] by (simp add: nd stored_neighbors_def del: upt_Suc)
    moreover have "nt_version (neighbor_data es' m p) = et_version et" using ed by (simp add: nd stored_neighbors_def)
    ultimately show "\<exists>n. nbr_at r et = Inr (NeighborTup n) \<and> nt_count n = length (nt_indextids n) \<and> nt_version n = et_version et" using v(3) ed(5) by auto
    show "length (et_heaptids et) = HNSW_HEAPTIDS" by (rule ed(6))
  qed
  have inj: "t = t'" if at: "at_tid r t = Inr (ElementTup et)" "at_tid r t' = Inr (ElementTup et')" "et_neighbortid et = et_neighbortid et'" for t t' et et'
  proof -
    obtain p where p: "p \<in> set ps" "t = elem_tid (es' ! p)" "et = element_data (es ! p) (nbr_tid (es' ! p))" using written_tuple [OF w at(1)] by blast
    obtain p' where p': "p' \<in> set ps" "t' = elem_tid (es' ! p')" "et' = element_data (es ! p') (nbr_tid (es' ! p'))" using written_tuple [OF w at(2)] by blast
    have "nbr_tid (es' ! p) = nbr_tid (es' ! p')" using at(3) by (simp add: p(3) p'(3) element_data_def)
    then have "p = p'" using l p(1) p'(1) by (auto simp: located_def dest: inj_onD)
    then show ?thesis using p(2) p'(2) by simp
  qed
  show ?thesis unfolding linked_def
  proof (intro conjI allI impI)
    fix b off et b' off' et'
    assume a: "tup_at r b off = Inr (ElementTup et)" "tup_at r b' off' = Inr (ElementTup et')" and e: "et_neighbortid et = et_neighbortid et'"
    have "at_tid r (ItemPointerSet b off) = Inr (ElementTup et)" "at_tid r (ItemPointerSet b' off') = Inr (ElementTup et')" using a by simp_all
    then have "ItemPointerSet b off = ItemPointerSet b' off'" by (rule inj [OF _ _ e])
    then show "b = b'" "off = off'" by (simp_all add: ItemPointerSet_def)
  next
    fix b off et assume a: "tup_at r b off = Inr (ElementTup et)"
    then have "at_tid r (ItemPointerSet b off) = Inr (ElementTup et)" by simp
    then show "length (et_heaptids et) = HNSW_HEAPTIDS" "\<exists>n. nbr_at r et = Inr (NeighborTup n) \<and> nt_count n = length (nt_indextids n) \<and> nt_version n = et_version et"
      using n h by blast+
  qed
qed

text \<open>The slots of a written node point at nodes of the layer.\<close>

lemma written_live:
  assumes w: "written dim m es ps g es' r" and p: "p \<in> set ps" and lc: "lc \<le> he_level (es ! p)"
  shows "live_tid r lc (elem_tid (es' ! p))"
proof -
  obtain v where "he_value (es ! p) = Some v" "at_tid r (elem_tid (es' ! p)) = Inr (ElementTup (element_data (es ! p) (nbr_tid (es' ! p))))"
    using written_node [OF w p] by blast
  then show ?thesis using element_data_fields [of "es ! p" v] lc by (simp add: live_tid_iff)
qed

lemma written_slots:
  assumes w: "written dim m es ps g es' r" and p: "p \<in> set ps"
  shows "slots_ok m r (he_level (es ! p)) (nt_indextids (neighbor_data es' m p))"
proof -
  have l: "located es es' (set ps)" and wf: "graph_wf m dim es" "nbr_closed es (set ps)" using w by (simp_all add: written_def mem_ok_def)
  have pl: "p < length es" using written_node [OF w p] by blast
  note lf = located_fields [OF l pl]
  have "storable es' (es' ! p) m" unfolding lf(6) by (rule written_storable [OF w p])
  then have ar: "arrays_ok es' (es' ! p)" by (simp add: storable_def)
  have nd: "nt_indextids (neighbor_data es' m p) = concat (map (layer_slots es' (es' ! p) m) (rev [0..<Suc (he_level (es ! p))]))"
    unfolding neighbor_data_def SetNeighborTuple_eq [OF ar] using lf(3) by simp
  have "live_tid r lc (layer_slots es' (es' ! p) m lc ! i)"
    if lc: "lc \<le> he_level (es ! p)" and i: "i < HnswGetLayerM m lc" and v: "ItemPointerIsValid (layer_slots es' (es' ! p) m lc ! i)" for lc i
  proof -
    obtain a where a: "HnswGetNeighbors (es ! p) lc = Inr a" "array_wf m es lc a" using graph_wf_neighbors [OF wf(1) pl lc] by blast
    have it: "na_items (the (he_neighbors (es' ! p)) ! lc) = na_items a" using a(1) lf(5) by (auto simp: HnswGetNeighbors_def nth_r_def split: option.splits if_splits)
    have s: "layer_slots es' (es' ! p) m lc ! i = (if i < length (na_items a) then elem_tid (es' ! hc_element (na_items a ! i)) else InvalidItemPointer)"
      using i by (simp add: layer_slots_def it Let_def)
    then have il: "i < length (na_items a)" using v by (auto split: if_splits)
    let ?h = "na_items a ! i"
    have h: "?h \<in> set (na_items a)" using il by simp
    then have "?h \<in> set (layer_items es lc p)" using a(1) by (simp add: layer_items_def)
    then have "hc_element ?h \<in> set ps" using wf(2) p unfolding nbr_closed_def by blast
    moreover have "lc \<le> he_level (es ! hc_element ?h)" using a(2) h by (simp add: array_wf_def)
    ultimately show ?thesis using written_live [OF w] s il by simp
  qed
  then show ?thesis unfolding slots_ok_def nd slots_length by (simp add: slots_nth del: upt_Suc)
qed

lemma written_graph_ok:
  assumes w: "written dim m es ps g es' r" and e: "at_end r blk" and t: "\<forall>x\<in>set (indexed es ps). ItemPointerIsValid (fst x)"
  shows "graph_ok False m dim r"
proof -
  have "tuple_ok False m dim r et" if at: "tup_at r b off = Inr (ElementTup et)" for b off et
  proof -
    have "at_tid r (ItemPointerSet b off) = Inr (ElementTup et)" using at by (simp add: ItemPointerSet_def)
    then obtain p where p: "p \<in> set ps" "et = element_data (es ! p) (nbr_tid (es' ! p))" using written_tuple [OF w] by blast
    obtain v where v: "p < length es" "he_value (es ! p) = Some v" "vec_wf v" "v_dim v = dim" "he_level (es ! p) \<le> HnswGetMaxLevel m"
        "at_tid r (nbr_tid (es' ! p)) = Inr (NeighborTup (neighbor_data es' m p))" using written_node [OF w p(1)] by blast
    have ok: "tids_ok (HnswGetMaxLevel m) (es ! p)" using w v(1) by (simp add: written_def mem_ok_def)
    have val: "\<forall>t\<in>set (he_heaptids (es ! p)). ItemPointerIsValid t" using t p(1) by (force simp: indexed_def)
    note tt = tup_tids_element [OF v(2) _ val, of "nbr_tid (es' ! p)", folded p(2)]
    note ed = element_data_fields [OF v(2), of "nbr_tid (es' ! p)", folded p(2)]
    show ?thesis using ed v tt ok written_slots [OF w p(1)] by (auto simp: tuple_ok_def tids_ok_def)
  qed
  then show ?thesis using w e written_linked [OF w] by (simp add: graph_ok_def written_def at_end_def)
qed

lemma written_disk_ok:
  assumes w: "written dim m es ps g es' r" and e: "at_end r blk" and t: "\<forall>x\<in>set (indexed es ps). ItemPointerIsValid (fst x)"
    and mp: "read_meta r = Inr (HnswUpdateMetaPageInfo mp UpdateAlways (map_option ((!) es') (g_entryPoint g)) blk)" "mp_magicNumber mp = HNSW_MAGIC_NUMBER" "mp_m mp = m"
    and len: "length (rel_blocks r) \<le> InvalidBlockNumber"
  shows "disk_ok m dim r"
proof -
  let ?mp = "HnswUpdateMetaPageInfo mp UpdateAlways (map_option ((!) es') (g_entryPoint g)) blk"
  have b: "0 < blk" "blk < length (rel_blocks r)" "blk \<noteq> InvalidBlockNumber" using e len by (auto simp: at_end_def)
  have f: "mp_magicNumber ?mp = HNSW_MAGIC_NUMBER" "mp_m ?mp = m" "block_ok r (mp_insertPage ?mp)"
    using mp(2,3) b by (simp_all add: HnswUpdateMetaPageInfo_def Let_def block_ok_def split: option.splits)
  have "entry_ok_disk r ?mp"
  proof (cases "g_entryPoint g")
    case None
    then have "ps = []" using w by (simp add: written_def mem_ok_def entry_top_def)
    then have "tup_at r b off \<noteq> Inr (ElementTup et)" for b off et using written_tuple [OF w, of "ItemPointerSet b off" et] by (auto simp: ItemPointerSet_def)
    then show ?thesis using None b(3) by (simp add: entry_ok_disk_def HnswUpdateMetaPageInfo_def Let_def)
  next
    case (Some q)
    then have q: "q \<in> set ps" using w by (simp add: written_def mem_ok_def entry_top_def)
    obtain v where v: "q < length es" "he_value (es ! q) = Some v" "at_tid r (elem_tid (es' ! q)) = Inr (ElementTup (element_data (es ! q) (nbr_tid (es' ! q))))"
      using written_node [OF w q] by blast
    note ed = element_data_fields [OF v(2), of "nbr_tid (es' ! q)"]
    have "located es es' (set ps)" using w by (simp add: written_def)
    then have lv: "he_level (es' ! q) = he_level (es ! q)" by (rule located_fields(3) [OF _ v(1)])
    have at: "tup_at r (he_blkno (es' ! q)) (he_offno (es' ! q)) = Inr (ElementTup (element_data (es ! q) (nbr_tid (es' ! q))))" using v(3) by (simp add: elem_tid_def ItemPointerSet_def)
    moreover have "he_blkno (es' ! q) \<noteq> InvalidBlockNumber" using tup_at_page [OF at] len by auto
    ultimately show ?thesis using Some ed lv b(3) by (simp add: entry_ok_disk_def HnswUpdateMetaPageInfo_def Let_def)
  qed
  then show ?thesis using written_graph_ok [OF w e t] w mp(1) f by (auto simp: disk_ok_def written_def)
qed

section \<open>The state of a build\<close>

text \<open>After \<open>k\<close> rows with the entries \<open>E\<close>: the graph is in memory, or it has been flushed and the index on disk is well-formed.\<close>

definition in_memory :: "int \<Rightarrow> HnswBuildState \<Rightarrow> nat \<Rightarrow> (ItemPointerData \<times> Vector) multiset \<Rightarrow> HnswBuildState \<Rightarrow> bool" where
  "in_memory dim bs0 k E bs \<longleftrightarrow> (\<exists>es g ps. bs = bs0\<lparr>bs_elems := es, bs_graph := g\<rparr> \<and> mem_ok (bs_m bs0) dim (HnswGetMaxLevel (bs_m bs0)) ps g es \<and>
     mset (indexed es ps) = image_mset (map_prod id Some) E \<and> length es \<le> k \<and> g_indtuples g = size E \<and> \<not> g_flushed g)"

definition on_disk :: "int \<Rightarrow> HnswBuildState \<Rightarrow> nat \<Rightarrow> (ItemPointerData \<times> Vector) multiset \<Rightarrow> HnswBuildState \<Rightarrow> bool" where
  "on_disk dim bs0 k E bs \<longleftrightarrow> (\<exists>r g. bs = bs0\<lparr>bs_elems := [], bs_index := r, bs_graph := g\<rparr> \<and> disk_ok (bs_m bs0) dim r \<and> index_entries r = E \<and>
     g_indtuples g = size E \<and> g_flushed g \<and> length (rel_blocks r) \<le> 2 + 2 * k)"

text \<open>What a build starts from.\<close>

definition build_ready :: "int \<Rightarrow> HnswBuildState \<Rightarrow> bool" where
  "build_ready dim bs0 \<longleftrightarrow> rel_blocks (bs_index bs0) = [] \<and> HNSW_MIN_M \<le> bs_m bs0 \<and> bs_m bs0 \<le> HNSW_MAX_M \<and> dim \<le> HNSW_MAX_DIM \<and> dist_ok (bs_support bs0) dim \<and>
     bs_maxLevel bs0 = HnswGetMaxLevel (bs_m bs0)"

lemma in_memory_mono: "in_memory dim bs0 k E bs \<Longrightarrow> k \<le> k' \<Longrightarrow> in_memory dim bs0 k' E bs"
proof -
  assume m: "in_memory dim bs0 k E bs" and k: "k \<le> k'"
  obtain es g ps where "bs = bs0\<lparr>bs_elems := es, bs_graph := g\<rparr>" "mem_ok (bs_m bs0) dim (HnswGetMaxLevel (bs_m bs0)) ps g es"
      "mset (indexed es ps) = image_mset (map_prod id Some) E" "length es \<le> k" "g_indtuples g = size E" "\<not> g_flushed g"
    using m unfolding in_memory_def by blast
  then show ?thesis using k unfolding in_memory_def by (intro exI [of _ es] exI [of _ g] exI [of _ ps]) simp
qed

lemma on_disk_mono: "on_disk dim bs0 k E bs \<Longrightarrow> k \<le> k' \<Longrightarrow> on_disk dim bs0 k' E bs"
  unfolding on_disk_def by fastforce

lemma flush_on_disk:
  assumes b: "build_ready dim bs0" and m: "in_memory dim bs0 k E bs" and v: "\<forall>x\<in>#E. ItemPointerIsValid (fst x)" and len: "2 + 2 * k \<le> InvalidBlockNumber"
    and c: "bs' = bs\<lparr>bs_reltuples := a, bs_indtuples := c\<rparr>"
  shows "\<exists>bs''. FlushPages bs' = Inr bs'' \<and> on_disk dim (bs0\<lparr>bs_reltuples := a, bs_indtuples := c\<rparr>) k E bs''"
proof -
  obtain es g ps where s: "bs = bs0\<lparr>bs_elems := es, bs_graph := g\<rparr>" "mem_ok (bs_m bs0) dim (HnswGetMaxLevel (bs_m bs0)) ps g es"
      "mset (indexed es ps) = image_mset (map_prod id Some) E" "length es \<le> k" "g_indtuples g = size E"
    using m unfolding in_memory_def by blast
  have f: "rel_blocks (bs_index bs') = []" "bs_elems bs' = es" "bs_graph bs' = g" "bs_m bs' = bs_m bs0" using b s(1) c by (simp_all add: build_ready_def)
  have ls: "list_at (bs_elems bs') (g_head (bs_graph bs')) ps" "distinct ps" using s(2) f by (simp_all add: mem_ok_def)
  have st: "\<forall>p\<in>set ps. storable (bs_elems bs') (bs_elems bs' ! p) (bs_m bs')" using mem_ok_storable [OF s(2)] b f by (simp add: build_ready_def)
  have en: "\<forall>q. g_entryPoint (bs_graph bs') = Some q \<longrightarrow> q < length (bs_elems bs')" using s(2) mem_ok_bound [OF s(2)] f by (auto simp: mem_ok_def entry_top_def)
  obtain r es' blk mp where F: "FlushPages bs' = Inr (flushed bs' r)" "at_end r blk" "located es es' (set ps)" "holds es es' (neighbor_data es' (bs_m bs0)) (set ps) r"
      "read_meta r = Inr (HnswUpdateMetaPageInfo mp UpdateAlways (map_option ((!) es') (g_entryPoint g)) blk)" "mp_magicNumber mp = HNSW_MAGIC_NUMBER" "mp_m mp = bs_m bs0 mod 2 ^ 16"
    using FlushPages_ok [OF f(1) ls st en, unfolded f] by blast
  have w: "written dim (bs_m bs0) es ps g es' r" using F(3,4) s(2) b by (simp add: written_def build_ready_def)
  have "set (indexed es ps) = map_prod id Some ` set_mset E" using arg_cong [OF s(3), of set_mset] by simp
  then have t: "\<forall>x\<in>set (indexed es ps). ItemPointerIsValid (fst x)" using v by auto
  have bl: "length (rel_blocks r) \<le> 2 + 2 * k" using FlushPages_blocks [OF F(1) f(1)] f(2) s(4) by simp
  have "mp_m mp = bs_m bs0" using F(7) b by (simp add: build_ready_def hnsw_const)
  then have d: "disk_ok (bs_m bs0) dim r" using written_disk_ok [OF w F(2) t F(5,6)] bl len by simp
  have "index_entries r = image_mset (map_prod id the) (image_mset (map_prod id Some) E)" using holds_entries [OF F(4,3) s(2) t] s(3) by simp
  then have e: "index_entries r = E" by (simp add: multiset.map_comp prod.map_comp comp_def map_prod.id flip: id_def)
  have "flushed bs' r = (bs0\<lparr>bs_reltuples := a, bs_indtuples := c\<rparr>)\<lparr>bs_elems := [], bs_index := r, bs_graph := g\<lparr>g_flushed := True\<rparr>\<rparr>"
    using s(1) c by (simp add: flushed_def)
  then have "on_disk dim (bs0\<lparr>bs_reltuples := a, bs_indtuples := c\<rparr>) k E (flushed bs' r)"
    unfolding on_disk_def using d e s(5) bl by (intro exI [of _ r] exI [of _ "g\<lparr>g_flushed := True\<rparr>"]) simp
  then show ?thesis using F(1) by blast
qed

text \<open>One row: it is skipped, added in memory, or added on disk, after a flush when memory has run out.\<close>

lemma memory_row:
  assumes b: "build_ready dim bs0" and m: "in_memory dim bs0 k E bs" and w: "vec_wf w" "v_dim w = dim" and f: "HnswFormIndexValue (bs_typeInfo bs0) (bs_support bs0) v = Inr (Some w)"
    and room: "g_memoryUsed (bs_graph bs) < g_memoryTotal (bs_graph bs)"
  shows "\<exists>bs'. BuildCallback memAllocated (tid, Some v, rl) bs = Inr bs' \<and> in_memory dim bs0 (Suc k) (add_mset (tid, w) E) bs'"
proof -
  let ?m = "bs_m bs0"
  obtain es g ps where bs: "bs = bs0\<lparr>bs_elems := es, bs_graph := g\<rparr>" and ok: "mem_ok ?m dim (HnswGetMaxLevel ?m) ps g es"
    and e: "mset (indexed es ps) = image_mset (map_prod id Some) E" "length es \<le> k" "g_indtuples g = size E" "\<not> g_flushed g"
    using m unfolding in_memory_def by blast
  have d: "dist_ok (bs_support bs0) dim" and ml: "bs_maxLevel bs0 = HnswGetMaxLevel ?m" using b by (simp_all add: build_ready_def)
  let ?l = "min rl (HnswGetMaxLevel ?m)"
  obtain e0 where e0: "HnswInitElement tid ?m rl (bs_maxLevel bs0) = Inr e0" using HnswInitElement_total by blast
  have new: "e0\<lparr>he_value := Some w\<rparr> = new_element tid ?m ?l w" using HnswInitElement_eq [OF e0] ml by simp
  let ?es = "es @ [new_element tid ?m ?l w]"
  let ?g = "g\<lparr>g_memoryUsed := memAllocated ?es\<rparr>" and ?bs = "bs0\<lparr>bs_elems := ?es, bs_graph := g\<lparr>g_memoryUsed := memAllocated ?es\<rparr>\<rparr>"
  have ok': "mem_ok ?m dim (HnswGetMaxLevel ?m) ps ?g es" using ok by (simp add: mem_ok_def)
  have "\<exists>es' h en ps'. InsertTupleInMemory ?bs (length es) = Inr (?bs\<lparr>bs_elems := es', bs_graph := ?g\<lparr>g_head := h, g_entryPoint := en\<rparr>\<rparr>) \<and>
      mem_ok ?m dim (HnswGetMaxLevel ?m) ps' (?g\<lparr>g_head := h, g_entryPoint := en\<rparr>) es' \<and> mset (indexed es' ps') = add_mset (tid, Some w) (mset (indexed es ps)) \<and>
      length es' = Suc (length es)"
    by (rule insert_memory_ok [OF ok' d w]) simp_all
  then obtain es' h en ps' where i: "InsertTupleInMemory ?bs (length es) = Inr (?bs\<lparr>bs_elems := es', bs_graph := ?g\<lparr>g_head := h, g_entryPoint := en\<rparr>\<rparr>)"
      "mem_ok ?m dim (HnswGetMaxLevel ?m) ps' (?g\<lparr>g_head := h, g_entryPoint := en\<rparr>) es'" "mset (indexed es' ps') = image_mset (map_prod id Some) (add_mset (tid, w) E)" "length es' = Suc (length es)"
    unfolding e(1) by auto
  let ?g' = "?g\<lparr>g_head := h, g_entryPoint := en, g_indtuples := Suc (g_indtuples g)\<rparr>"
  have "BuildCallback memAllocated (tid, Some v, rl) bs = Inr (bs0\<lparr>bs_elems := es', bs_graph := ?g'\<rparr>)"
    using f e e0 i(1) bs room by (simp add: BuildCallback_def InsertTuple_def Let_def new)
  moreover have "mem_ok ?m dim (HnswGetMaxLevel ?m) ps' ?g' es'" using i(2) by (simp add: mem_ok_def)
  then have "in_memory dim bs0 (Suc k) (add_mset (tid, w) E) (bs0\<lparr>bs_elems := es', bs_graph := ?g'\<rparr>)"
    unfolding in_memory_def using i(3,4) e by (intro exI [of _ es'] exI [of _ ?g'] exI [of _ ps']) simp
  ultimately show ?thesis by blast
qed

lemma disk_row:
  assumes b: "build_ready dim bs0" and m: "on_disk dim bs0 k E bs" and w: "vec_wf w" "v_dim w = dim" and t: "ItemPointerIsValid tid" and len: "3 + 2 * k < InvalidBlockNumber"
  shows "\<exists>r. HnswInsertTupleOnDisk (bs_index bs) (bs_support bs) w tid rl = Inr r \<and>
    on_disk dim bs0 (Suc k) (add_mset (tid, w) E) (bs\<lparr>bs_index := r, bs_graph := (bs_graph bs)\<lparr>g_indtuples := Suc (g_indtuples (bs_graph bs))\<rparr>\<rparr>)"
proof -
  obtain r g where s: "bs = bs0\<lparr>bs_elems := [], bs_index := r, bs_graph := g\<rparr>" "disk_ok (bs_m bs0) dim r" "index_entries r = E" "g_indtuples g = size E" "g_flushed g"
      "length (rel_blocks r) \<le> 2 + 2 * k" using m unfolding on_disk_def by blast
  have d: "dist_ok (bs_support bs0) dim" using b by (simp add: build_ready_def)
  have l: "Suc (length (rel_blocks r)) < InvalidBlockNumber" using s(6) len by linarith
  obtain r' where r': "HnswInsertTupleOnDisk r (bs_support bs0) w tid rl = Inr r'" "disk_ok (bs_m bs0) dim r'" "index_entries r' = add_mset (tid, w) E"
      "length (rel_blocks r') \<le> length (rel_blocks r) + 2" using insert_tuple_disk [OF s(2) d l w t] unfolding s(3) by blast
  let ?g = "g\<lparr>g_indtuples := Suc (g_indtuples g)\<rparr>"
  have "on_disk dim bs0 (Suc k) (add_mset (tid, w) E) (bs0\<lparr>bs_elems := [], bs_index := r', bs_graph := ?g\<rparr>)"
    unfolding on_disk_def using r'(2-4) s(4-6) by (intro exI [of _ r'] exI [of _ ?g]) simp
  then show ?thesis using r'(1) s(1) by (intro exI [of _ r']) simp
qed

definition build_state :: "int \<Rightarrow> HnswBuildState \<Rightarrow> nat \<Rightarrow> (ItemPointerData \<times> Vector) multiset \<Rightarrow> HnswBuildState \<Rightarrow> bool" where
  "build_state dim bs0 k E bs \<longleftrightarrow> in_memory dim bs0 k E bs \<or> on_disk dim bs0 k E bs"

lemma build_row:
  assumes b: "build_ready dim bs0" and s: "build_state dim bs0 k E bs" and row: "row_ok (bs_typeInfo bs0) (bs_support bs0) dim row"
    and v: "\<forall>x\<in>#E. ItemPointerIsValid (fst x)" and len: "3 + 2 * k < InvalidBlockNumber"
  shows "\<exists>bs'. BuildCallback memAllocated row bs = Inr bs' \<and> build_state dim bs0 (Suc k) (E + mset (row_entries (bs_typeInfo bs0) (bs_support bs0) [row])) bs'"
proof -
  let ?ti = "bs_typeInfo bs0" and ?s = "bs_support bs0"
  have same: "build_state dim bs0 (Suc k) E bs" using s in_memory_mono [of dim bs0 k E bs "Suc k"] on_disk_mono [of dim bs0 k E bs "Suc k"] by (auto simp: build_state_def)
  obtain tid val rl where r: "row = (tid, val, rl)" by (cases row)
  have fs: "bs_typeInfo bs = ?ti" "bs_support bs = ?s" using s by (auto simp: build_state_def in_memory_def on_disk_def)
  show ?thesis
  proof (cases val)
    case None
    then show ?thesis using same r by (simp add: BuildCallback_def)
  next
    case (Some x)
    obtain y where y: "HnswFormIndexValue ?ti ?s x = Inr y" using row r Some by (auto simp: row_ok_def split: sum.splits)
    show ?thesis
    proof (cases y)
      case None
      then show ?thesis using same r Some y fs by (simp add: BuildCallback_def InsertTuple_def)
    next
      case w: (Some w)
      have vw: "vec_wf w" "v_dim w = dim" "ItemPointerIsValid tid" using row r Some y w by (simp_all add: row_ok_def)
      have en: "row_entries ?ti ?s [row] = [(tid, w)]" using r Some y w by simp
      have disk: "\<exists>bs'. BuildCallback memAllocated row bs = Inr bs' \<and> on_disk dim bs0 (Suc k) (add_mset (tid, w) E) bs'"
        if d: "on_disk dim bs0 k E bs1" and eq: "\<And>r. HnswInsertTupleOnDisk (bs_index bs1) (bs_support bs1) w tid rl = Inr r \<Longrightarrow> InsertTuple memAllocated x tid rl bs = Inr (True, bs1\<lparr>bs_index := r\<rparr>)" for bs1
      proof -
        obtain r' where r': "HnswInsertTupleOnDisk (bs_index bs1) (bs_support bs1) w tid rl = Inr r'"
            "on_disk dim bs0 (Suc k) (add_mset (tid, w) E) (bs1\<lparr>bs_index := r', bs_graph := (bs_graph bs1)\<lparr>g_indtuples := Suc (g_indtuples (bs_graph bs1))\<rparr>\<rparr>)"
          using disk_row [OF b d vw len] by blast
        then show ?thesis using eq r Some by (simp add: BuildCallback_def)
      qed
      consider (mem) "in_memory dim bs0 k E bs" "g_memoryUsed (bs_graph bs) < g_memoryTotal (bs_graph bs)"
        | (flush) "in_memory dim bs0 k E bs" "g_memoryTotal (bs_graph bs) \<le> g_memoryUsed (bs_graph bs)" | (disk) "on_disk dim bs0 k E bs"
        using s unfolding build_state_def by (meson not_le)
      then have "\<exists>bs'. BuildCallback memAllocated row bs = Inr bs' \<and> build_state dim bs0 (Suc k) (add_mset (tid, w) E) bs'"
      proof cases
        case mem
        from memory_row [OF b mem(1) vw(1,2) y [unfolded w] mem(2), of memAllocated tid rl] show ?thesis unfolding r Some build_state_def by blast
      next
        case flush
        have id: "bs = bs\<lparr>bs_reltuples := bs_reltuples bs0, bs_indtuples := bs_indtuples bs0\<rparr>" using flush(1) by (auto simp: in_memory_def)
        have len': "2 + 2 * k \<le> InvalidBlockNumber" using len by simp
        from flush_on_disk [OF b flush(1) v len' id] obtain bs1 where f: "FlushPages bs = Inr bs1" "on_disk dim bs0 k E bs1" by auto
        have "\<not> g_flushed (bs_graph bs)" using flush(1) by (auto simp: in_memory_def)
        then show ?thesis using disk [OF f(2)] f(1) flush(2) y w fs by (auto simp: InsertTuple_def build_state_def)
      next
        case d: disk
        have "g_flushed (bs_graph bs)" using d by (auto simp: on_disk_def)
        then show ?thesis using disk [OF d] y w fs by (auto simp: InsertTuple_def build_state_def)
      qed
      then show ?thesis using en by simp
    qed
  qed
qed

section \<open>Rows one after the other\<close>

text \<open>A series of operations on an index.  The contract of one operation relates the number of operations so far, an abstract value and the state: within the
  limit it succeeds and has its effect on the abstract value.\<close>

fun run_rows :: "('row \<Rightarrow> 's \<Rightarrow> 's result) \<Rightarrow> 'row list \<Rightarrow> 's \<Rightarrow> 's result" where
  "run_rows step [] s = Inr s"
| "run_rows step (row # rows) s = rbind (step row s) (run_rows step rows)"

locale op_sink =
  fixes step :: "'row \<Rightarrow> 's \<Rightarrow> 's result" and ok :: "'row \<Rightarrow> bool" and effect :: "'row \<Rightarrow> 'a \<Rightarrow> 'a" and st :: "nat \<Rightarrow> 'a \<Rightarrow> 's \<Rightarrow> bool" and limit :: nat
  assumes op_ok: "st k A s \<Longrightarrow> ok row \<Longrightarrow> k < limit \<Longrightarrow> \<exists>s'. step row s = Inr s' \<and> st (Suc k) (effect row A) s'"
begin

lemma run_total:
  "st k A s \<Longrightarrow> \<forall>row\<in>set rows. ok row \<Longrightarrow> k + length rows \<le> limit \<Longrightarrow>
   \<exists>s'. run_rows step rows s = Inr s' \<and> st (k + length rows) (fold effect rows A) s'"
proof (induction rows arbitrary: k A s)
  case (Cons row rows)
  obtain s1 where s1: "step row s = Inr s1" "st (Suc k) (effect row A) s1" using op_ok [OF Cons.prems(1), of row] Cons.prems(2,3) by auto
  obtain s' where "run_rows step rows s1 = Inr s'" "st (Suc k + length rows) (fold effect rows (effect row A)) s'"
    using Cons.IH [OF s1(2)] Cons.prems(2,3) by auto
  then show ?case using s1(1) by simp
qed simp

end

text \<open>An operation that takes a row at a time and adds what the row contributes: a build callback, or an insertion.\<close>

locale row_sink =
  fixes step :: "'row \<Rightarrow> 's \<Rightarrow> 's result" and ok :: "'row \<Rightarrow> bool" and contrib :: "'row \<Rightarrow> 'e list" and st :: "nat \<Rightarrow> 'e multiset \<Rightarrow> 's \<Rightarrow> bool" and limit :: nat
  assumes step_ok: "st k E s \<Longrightarrow> ok row \<Longrightarrow> k < limit \<Longrightarrow> \<exists>s'. step row s = Inr s' \<and> st (Suc k) (E + mset (contrib row)) s'"

sublocale row_sink \<subseteq> ops: op_sink step ok "\<lambda>row E. E + mset (contrib row)" st limit
  by unfold_locales (rule step_ok)

context row_sink
begin

lemma run_adds:
  assumes "st k E s" "\<forall>row\<in>set rows. ok row" "k + length rows \<le> limit"
  shows "\<exists>s'. run_rows step rows s = Inr s' \<and> st (k + length rows) (E + mset (concat (map contrib rows))) s'"
proof -
  have "fold (\<lambda>row E. E + mset (contrib row)) rows E = E + mset (concat (map contrib rows))" by (induction rows arbitrary: E) (simp_all add: ac_simps)
  then show ?thesis using ops.run_total [OF assms] by simp
qed

end

text \<open>The rows that two pages each leave room for.\<close>

definition max_rows :: nat where
  "max_rows = (InvalidBlockNumber - 2) div 2"

abbreviation row_entry :: "HnswTypeInfo \<Rightarrow> HnswSupport \<Rightarrow> heap_row \<Rightarrow> (ItemPointerData \<times> Vector) list" where
  "row_entry ti support row \<equiv> row_entries ti support [row]"

lemma row_entries_concat: "concat (map (row_entry ti support) rows) = row_entries ti support rows"
proof (induction rows)
  case (Cons row rows)
  then show ?case by (simp only: row_entries_Cons [of ti support row rows] list.map concat.simps)
qed simp

lemma build_scan_run: "build_scan memAllocated rows bs = run_rows (BuildCallback memAllocated) rows bs"
proof (induction rows arbitrary: bs)
  case (Cons row rows)
  then show ?case by (cases "BuildCallback memAllocated row bs") simp_all
qed simp

definition build_sink :: "int \<Rightarrow> HnswBuildState \<Rightarrow> nat \<Rightarrow> (ItemPointerData \<times> Vector) multiset \<Rightarrow> HnswBuildState \<Rightarrow> bool" where
  "build_sink dim bs0 k E bs \<longleftrightarrow> build_ready dim bs0 \<and> build_state dim bs0 k E bs \<and> (\<forall>x\<in>#E. ItemPointerIsValid (fst x))"

interpretation building: row_sink "BuildCallback memAllocated" "row_ok (bs_typeInfo bs0) (bs_support bs0) dim" "row_entry (bs_typeInfo bs0) (bs_support bs0)" "build_sink dim bs0" max_rows
  for memAllocated dim bs0
proof
  fix k E bs row
  assume s: "build_sink dim bs0 k E bs" and r: "row_ok (bs_typeInfo bs0) (bs_support bs0) dim row" and k: "k < max_rows"
  have "3 + 2 * k < InvalidBlockNumber" using k by (simp add: max_rows_def InvalidBlockNumber_def)
  then obtain bs' where "BuildCallback memAllocated row bs = Inr bs'" "build_state dim bs0 (Suc k) (E + mset (row_entry (bs_typeInfo bs0) (bs_support bs0) row)) bs'"
    using build_row [OF _ _ r] s unfolding build_sink_def by blast
  moreover have "\<forall>x\<in>#E + mset (row_entry (bs_typeInfo bs0) (bs_support bs0) row). ItemPointerIsValid (fst x)"
    using s row_entries_valid [of "[row]" "bs_typeInfo bs0" "bs_support bs0" dim] r by (auto simp: build_sink_def simp del: row_entries.simps)
  ultimately show "\<exists>bs'. BuildCallback memAllocated row bs = Inr bs' \<and> build_sink dim bs0 (Suc k) (E + mset (row_entry (bs_typeInfo bs0) (bs_support bs0) row)) bs'"
    using s unfolding build_sink_def by blast
qed

section \<open>The build\<close>

definition build_args :: "heap_row list \<Rightarrow> Relation \<Rightarrow> HnswTypeInfo \<Rightarrow> HnswSupport \<Rightarrow> int \<Rightarrow> bool" where
  "build_args rows index ti support dim \<longleftrightarrow> rel_blocks index = [] \<and> HNSW_MIN_M \<le> HnswGetM index \<and> HnswGetM index \<le> HNSW_MAX_M \<and>
     2 * HnswGetM index \<le> HnswGetEfConstruction index \<and> 0 \<le> dim \<and> dim \<le> ti_maxDimensions ti \<and> dim \<le> HNSW_MAX_DIM \<and> dist_ok support dim \<and>
     (\<forall>row\<in>set rows. row_ok ti support dim row) \<and> length rows \<le> max_rows"

text \<open>The start of a build, and its end: the graph is written out unless that has happened before.\<close>

lemma build_sink_start: "build_ready dim bs0 \<Longrightarrow> bs_elems bs0 = [] \<Longrightarrow> bs_graph bs0 = InitGraph x \<Longrightarrow> build_sink dim bs0 0 {#} bs0"
  unfolding build_sink_def build_state_def in_memory_def
  by (intro conjI disjI1 exI [of _ "[]"] exI [of _ "InitGraph x"])
    (cases bs0, simp_all add: InitGraph_def mem_ok_def graph_wf_def nbr_closed_def entry_top_def indexed_def)

lemma build_finish:
  assumes s: "build_sink dim bs0 k E bs1" and k: "k \<le> max_rows" and bs2: "bs2 = bs1\<lparr>bs_reltuples := reltuples, bs_indtuples := g_indtuples (bs_graph bs1)\<rparr>"
  shows "\<exists>bs3. (if g_flushed (bs_graph bs2) then Inr bs2 else FlushPages bs2) = Inr bs3 \<and>
    on_disk dim (bs0\<lparr>bs_reltuples := reltuples, bs_indtuples := size E\<rparr>) k E bs3"
proof -
  have b: "build_ready dim bs0" and st: "build_state dim bs0 k E bs1" and v: "\<forall>x\<in>#E. ItemPointerIsValid (fst x)" using s by (simp_all add: build_sink_def)
  have gi: "g_indtuples (bs_graph bs1) = size E" using st by (auto simp: build_state_def in_memory_def on_disk_def)
  show ?thesis
  proof (cases "on_disk dim bs0 k E bs1")
    case True
    then obtain r g where r: "bs1 = bs0\<lparr>bs_elems := [], bs_index := r, bs_graph := g\<rparr>" "disk_ok (bs_m bs0) dim r" "index_entries r = E" "g_indtuples g = size E" "g_flushed g"
        "length (rel_blocks r) \<le> 2 + 2 * k" unfolding on_disk_def by blast
    then have "g_flushed (bs_graph bs2)" "on_disk dim (bs0\<lparr>bs_reltuples := reltuples, bs_indtuples := size E\<rparr>) k E bs2"
      using gi unfolding on_disk_def by (simp_all add: bs2) (intro exI [of _ r] exI [of _ g], simp)
    then show ?thesis by simp
  next
    case False
    then have m: "in_memory dim bs0 k E bs1" using st by (simp add: build_state_def)
    have l: "2 + 2 * k \<le> InvalidBlockNumber" using k by (simp add: max_rows_def InvalidBlockNumber_def)
    have "\<not> g_flushed (bs_graph bs2)" using m by (auto simp: in_memory_def bs2)
    then show ?thesis using flush_on_disk [OF b m v l bs2] gi by simp
  qed
qed

lemma hnswbuild_disk:
  assumes "build_args rows index ti support dim"
  shows "\<exists>r. hnswbuild memAllocated maintenance_work_mem (rows, reltuples) index ti support False dim =
      Inr (r, \<lparr>heap_tuples = reltuples, index_tuples = length (row_entries ti support rows)\<rparr>) \<and>
    disk_ok (HnswGetM index) dim r \<and> index_entries r = mset (row_entries ti support rows) \<and> length (rel_blocks r) \<le> 2 + 2 * length rows"
proof -
  let ?m = "HnswGetM index" and ?E = "mset (row_entries ti support rows)"
  note a = assms [unfolded build_args_def]
  define bs0 where "bs0 = \<lparr>bs_index = index, bs_typeInfo = ti, bs_dimensions = dim, bs_m = ?m, bs_efConstruction = HnswGetEfConstruction index,
        bs_indtuples = 0, bs_reltuples = 0, bs_support = support, bs_graph = InitGraph (maintenance_work_mem * 1024), bs_maxLevel = HnswGetMaxLevel ?m, bs_elems = []\<rparr>"
  have i: "InitBuildState maintenance_work_mem index ti support False dim = Inr bs0" using a by (simp add: InitBuildState_def bs0_def Let_def)
  have f0: "bs_typeInfo bs0 = ti" "bs_support bs0 = support" "bs_m bs0 = ?m" by (simp_all add: bs0_def)
  have b: "build_ready dim bs0" using a by (simp add: build_ready_def bs0_def)
  have "build_sink dim bs0 0 {#} bs0" by (rule build_sink_start [OF b]) (simp_all add: bs0_def)
  from building.run_adds [OF this, of rows memAllocated] obtain bs1 where s: "build_scan memAllocated rows bs0 = Inr bs1" "build_sink dim bs0 (length rows) ?E bs1"
    using a unfolding f0 row_entries_concat build_scan_run by auto
  define bs2 where "bs2 = bs1\<lparr>bs_reltuples := reltuples, bs_indtuples := g_indtuples (bs_graph bs1)\<rparr>"
  let ?bs0 = "bs0\<lparr>bs_reltuples := reltuples, bs_indtuples := size ?E\<rparr>"
  obtain bs3 where f: "(if g_flushed (bs_graph bs2) then Inr bs2 else FlushPages bs2) = Inr bs3" "on_disk dim ?bs0 (length rows) ?E bs3"
    using build_finish [OF s(2) _ bs2_def] a by auto
  obtain r g where d: "bs3 = ?bs0\<lparr>bs_elems := [], bs_index := r, bs_graph := g\<rparr>" "disk_ok ?m dim r" "index_entries r = ?E" "length (rel_blocks r) \<le> 2 + 2 * length rows"
    using f(2) f0 by (auto simp: on_disk_def)
  have "BuildGraph memAllocated (Some (rows, reltuples)) bs0 = Inr bs3" using s(1) f(1) unfolding BuildGraph_def by (simp only: option.case prod.case rbind_simps bs2_def)
  then have "hnswbuild memAllocated maintenance_work_mem (rows, reltuples) index ti support False dim = Inr (r, \<lparr>heap_tuples = reltuples, index_tuples = length (row_entries ti support rows)\<rparr>)"
    using i d(1) by (simp add: hnswbuild_def BuildIndex_def)
  then show ?thesis using d(2-4) by blast
qed

text \<open>C2: the build is correct for every memory budget (\<open>maintenance_work_mem\<close>) and every memory use of the elements: \<open>hnswbuild\<close> of an
  acceptable table returns, the index it leaves is well-formed, and its entries are the TID and the value of every row whose value is neither
  NULL nor skipped by the operator class, each exactly once; the statistics count the heap tuples and those entries.  This covers the switch from the graph in memory
  to insertion on disk at any row, duplicates that are merged or missed, and values with more than \<open>HNSW_HEAPTIDS\<close> rows.\<close>

theorem build_index:
  assumes "rel_blocks index = []" and "HNSW_MIN_M \<le> HnswGetM index" and "HnswGetM index \<le> HNSW_MAX_M" and "2 * HnswGetM index \<le> HnswGetEfConstruction index"
    and "0 \<le> dim" and "dim \<le> ti_maxDimensions ti" and "dim \<le> HNSW_MAX_DIM" and "dist_ok support dim"
    and "\<forall>row\<in>set rows. row_ok ti support dim row" and "length rows \<le> max_rows"
  shows "\<exists>r. hnswbuild memAllocated maintenance_work_mem (rows, reltuples) index ti support False dim =
      Inr (r, \<lparr>heap_tuples = reltuples, index_tuples = length (row_entries ti support rows)\<rparr>) \<and>
    disk_ok (HnswGetM index) dim r \<and> index_entries r = mset (row_entries ti support rows)"
proof -
  have "build_args rows index ti support dim" using assms by (simp add: build_args_def)
  from hnswbuild_disk [OF this, of memAllocated maintenance_work_mem reltuples] show ?thesis by blast
qed

text \<open>A table with a NULL and a duplicate value.\<close>

definition pair_rows :: "heap_row list" where
  "pair_rows = [(ItemPointerSet 7 2, Some one_vec, 0), (ItemPointerSet 7 3, None, 0), (ItemPointerSet 7 4, Some one_vec, 1)]"

lemma pair_rows_ok: "\<forall>row\<in>set pair_rows. row_ok (HnswGetTypeInfo None) l2_support 1 row"
  "row_entries (HnswGetTypeInfo None) l2_support pair_rows = [(ItemPointerSet 7 2, one_vec), (ItemPointerSet 7 4, one_vec)]" "length pair_rows = 3"
  using one_vec_wf by (simp_all add: pair_rows_def row_ok_def HnswFormIndexValue_def HnswGetTypeInfo_def l2_support_def)

lemma default_options:
  "HnswGetM \<lparr>rel_options = None, rel_blocks = b\<rparr> = 16" "HnswGetEfConstruction \<lparr>rel_options = None, rel_blocks = b\<rparr> = 64" "ti_maxDimensions (HnswGetTypeInfo None) = 2000"
  by (simp_all add: HnswGetM_def HnswGetEfConstruction_def HnswGetTypeInfo_def hnsw_const)

lemma pair_build_args: "build_args pair_rows \<lparr>rel_options = None, rel_blocks = []\<rparr> (HnswGetTypeInfo None) l2_support 1"
  using pair_rows_ok dist_ok_l2 by (simp add: build_args_def default_options max_rows_def InvalidBlockNumber_def) (simp add: hnsw_const)

text \<open>With no memory at all every row is inserted on disk.\<close>

theorem build_index_witness:
  "\<exists>r. hnswbuild (\<lambda>es. 1000 * length es) 0 (pair_rows, 3) \<lparr>rel_options = None, rel_blocks = []\<rparr> (HnswGetTypeInfo None) l2_support False 1 =
      Inr (r, \<lparr>heap_tuples = 3, index_tuples = 2\<rparr>) \<and> index_entries r = {#(ItemPointerSet 7 2, one_vec), (ItemPointerSet 7 4, one_vec)#}"
proof -
  let ?i = "\<lparr>rel_options = None, rel_blocks = []\<rparr>" and ?ti = "HnswGetTypeInfo None" and ?mem = "\<lambda>es :: elems. 1000 * length es"
  note a = pair_build_args [unfolded build_args_def]
  have "\<exists>r. hnswbuild ?mem 0 (pair_rows, 3) ?i ?ti l2_support False 1 = Inr (r, \<lparr>heap_tuples = 3, index_tuples = length (row_entries ?ti l2_support pair_rows)\<rparr>) \<and>
      disk_ok (HnswGetM ?i) 1 r \<and> index_entries r = mset (row_entries ?ti l2_support pair_rows)"
    by (rule build_index) (use a in blast)+
  then show ?thesis unfolding pair_rows_ok(2) by (auto simp: numeral_2_eq_2)
qed

end
