(* ===== verification/HnswParallel.thy ===== *)
theory HnswParallel
  imports HnswBuilt
begin

text \<open>
  The coordination of a parallel build, \<open>src/backend/access/hnsw/hnswbuild.c\<close>: the leader and the launched workers scan the table
  together and insert into one graph in shared memory, each records its count under a spin lock and signals the leader, who waits on a
  condition variable (\<open>src/backend/storage/lmgr/condition_variable.c\<close>) until all are done.

  The processes are interleaved statement by statement where they touch the shared counters, the lock, the wait list and the latch; the
  insertion of one row is one step (the light-weight locks of the graph are not modelled).  Process 0 is the leader.  The blocks of the
  table are handed out one after the other, as by the parallel scan of a heap.  The memory that the shared allocator has handed out is
  a function of the elements, as for a serial build; the theorems hold for every such function.
\<close>

section \<open>Shared state and processes\<close>

text \<open>Where a process is: in \<open>HnswParallelScanAndInsert\<close>, or (the leader, afterwards) in \<open>ParallelHeapScan\<close>.  \<open>WakeUp q\<close> is the end of
  \<open>ConditionVariableSignal\<close> when \<open>q\<close> was taken off the wait list.\<close>

datatype par_pc =
    Scanning | LockShared | CountDone | AddTuples | UnlockShared | SignalLeader | WakeUp nat | WorkerDone
  | WaitLock | WaitTest | WaitUnlock "nat option" | WaitSleep | WaitLatch | WaitCancel nat | WaitDone nat

text \<open>The graph and the index that all participants work on are in the build state; the condition variable is its wait list.
  The immutable fields (the relations and \<open>isconcurrent\<close>) take no part in the coordination.\<close>

record HnswShared =
  sh_workersdonecv :: "nat list"
  sh_mutex :: "nat option"
  sh_nparticipantsdone :: nat
  sh_reltuples :: nat
  sh_build :: HnswBuildState

text \<open>\<open>ps_chunk\<close> is what is left of the block a process is scanning; \<open>ps_prepared\<close> says that \<open>cv_sleep_target\<close> of the leader is the
  condition variable.\<close>

record par_state =
  ps_shared :: HnswShared
  ps_blocks :: "heap_row list list"
  ps_chunk :: "nat \<Rightarrow> heap_row list"
  ps_pc :: "nat \<Rightarrow> par_pc"
  ps_latch :: "nat \<Rightarrow> bool"
  ps_prepared :: bool

text \<open>The workers that were launched, and for every process the number of tuples that its scan reports.\<close>

record par_env =
  pe_memAllocated :: "elems \<Rightarrow> nat"
  pe_nworkers_launched :: nat
  pe_reltuples :: "nat \<Rightarrow> nat"

text \<open>The leader takes part as well.\<close>

definition nparticipanttuplesorts :: "par_env \<Rightarrow> nat" where
  "nparticipanttuplesorts env = Suc (pe_nworkers_launched env)"

section \<open>Condition variable\<close>

definition ConditionVariablePrepareToSleep :: "nat \<Rightarrow> par_state \<Rightarrow> par_state" where
  "ConditionVariablePrepareToSleep p s =
     s\<lparr>ps_prepared := True, ps_shared := (ps_shared s)\<lparr>sh_workersdonecv := sh_workersdonecv (ps_shared s) @ [p]\<rparr>\<rparr>"

definition ConditionVariableCancelSleep :: "nat \<Rightarrow> par_state \<Rightarrow> par_state" where
  "ConditionVariableCancelSleep p s =
     (if ps_prepared s
      then s\<lparr>ps_prepared := False, ps_shared := (ps_shared s)\<lparr>sh_workersdonecv := removeAll p (sh_workersdonecv (ps_shared s))\<rparr>\<rparr>
      else s)"

text \<open>After the latch was set: a process that is no longer on the wait list was signalled; it puts itself back and returns.\<close>

definition cv_signaled :: "nat \<Rightarrow> par_state \<Rightarrow> bool" where
  "cv_signaled p s \<longleftrightarrow> p \<notin> set (sh_workersdonecv (ps_shared s))"

section \<open>Steps\<close>

abbreviation goto :: "nat \<Rightarrow> par_pc \<Rightarrow> par_state \<Rightarrow> par_state" where
  "goto p c s \<equiv> s\<lparr>ps_pc := (ps_pc s)(p := c)\<rparr>"

text \<open>After its part of the scan a worker is done and the leader waits.\<close>

definition after_scan :: "nat \<Rightarrow> par_pc" where
  "after_scan p = (if p = 0 then WaitLock else WorkerDone)"

inductive par_step :: "par_env \<Rightarrow> nat \<Rightarrow> par_state \<Rightarrow> par_state \<Rightarrow> bool" for env p where
  next_block: "\<lbrakk>ps_pc s p = Scanning; ps_chunk s p = []; ps_blocks s = b # bs\<rbrakk> \<Longrightarrow>
    par_step env p s (s\<lparr>ps_blocks := bs, ps_chunk := (ps_chunk s)(p := b)\<rparr>)"
| next_row: "\<lbrakk>ps_pc s p = Scanning; ps_chunk s p = row # rows; BuildCallback (pe_memAllocated env) row (sh_build (ps_shared s)) = Inr bs\<rbrakk> \<Longrightarrow>
    par_step env p s (s\<lparr>ps_shared := (ps_shared s)\<lparr>sh_build := bs\<rparr>, ps_chunk := (ps_chunk s)(p := rows)\<rparr>)"
| scan_end: "\<lbrakk>ps_pc s p = Scanning; ps_chunk s p = []; ps_blocks s = []\<rbrakk> \<Longrightarrow> par_step env p s (goto p LockShared s)"
| lock_shared: "\<lbrakk>ps_pc s p = LockShared; sh_mutex (ps_shared s) = None\<rbrakk> \<Longrightarrow>
    par_step env p s (goto p CountDone (s\<lparr>ps_shared := (ps_shared s)\<lparr>sh_mutex := Some p\<rparr>\<rparr>))"
| count_done: "ps_pc s p = CountDone \<Longrightarrow>
    par_step env p s (goto p AddTuples (s\<lparr>ps_shared := (ps_shared s)\<lparr>sh_nparticipantsdone := Suc (sh_nparticipantsdone (ps_shared s))\<rparr>\<rparr>))"
| add_tuples: "ps_pc s p = AddTuples \<Longrightarrow>
    par_step env p s (goto p UnlockShared (s\<lparr>ps_shared := (ps_shared s)\<lparr>sh_reltuples := sh_reltuples (ps_shared s) + pe_reltuples env p\<rparr>\<rparr>))"
| unlock_shared: "ps_pc s p = UnlockShared \<Longrightarrow> par_step env p s (goto p SignalLeader (s\<lparr>ps_shared := (ps_shared s)\<lparr>sh_mutex := None\<rparr>\<rparr>))"
| signal_none: "\<lbrakk>ps_pc s p = SignalLeader; sh_workersdonecv (ps_shared s) = []\<rbrakk> \<Longrightarrow> par_step env p s (goto p (after_scan p) s)"
| signal_one: "\<lbrakk>ps_pc s p = SignalLeader; sh_workersdonecv (ps_shared s) = q # qs\<rbrakk> \<Longrightarrow>
    par_step env p s (goto p (WakeUp q) (s\<lparr>ps_shared := (ps_shared s)\<lparr>sh_workersdonecv := qs\<rparr>\<rparr>))"
| set_latch: "ps_pc s p = WakeUp q \<Longrightarrow> par_step env p s (goto p (after_scan p) (s\<lparr>ps_latch := (ps_latch s)(q := True)\<rparr>))"
| wait_lock: "\<lbrakk>ps_pc s p = WaitLock; sh_mutex (ps_shared s) = None\<rbrakk> \<Longrightarrow>
    par_step env p s (goto p WaitTest (s\<lparr>ps_shared := (ps_shared s)\<lparr>sh_mutex := Some p\<rparr>\<rparr>))"
| wait_test: "ps_pc s p = WaitTest \<Longrightarrow>
    par_step env p s (goto p (WaitUnlock (if sh_nparticipantsdone (ps_shared s) = nparticipanttuplesorts env then Some (sh_reltuples (ps_shared s)) else None)) s)"
| wait_unlock: "ps_pc s p = WaitUnlock x \<Longrightarrow>
    par_step env p s (goto p (case x of Some r \<Rightarrow> WaitCancel r | None \<Rightarrow> WaitSleep) (s\<lparr>ps_shared := (ps_shared s)\<lparr>sh_mutex := None\<rparr>\<rparr>))"
| sleep_prepare: "\<lbrakk>ps_pc s p = WaitSleep; \<not> ps_prepared s\<rbrakk> \<Longrightarrow> par_step env p s (goto p WaitLock (ConditionVariablePrepareToSleep p s))"
| sleep_again: "\<lbrakk>ps_pc s p = WaitSleep; ps_prepared s\<rbrakk> \<Longrightarrow> par_step env p s (goto p WaitLatch s)"
| wake_signaled: "\<lbrakk>ps_pc s p = WaitLatch; ps_latch s p; cv_signaled p s\<rbrakk> \<Longrightarrow>
    par_step env p s (goto p WaitLock (s\<lparr>ps_latch := (ps_latch s)(p := False),
      ps_shared := (ps_shared s)\<lparr>sh_workersdonecv := sh_workersdonecv (ps_shared s) @ [p]\<rparr>\<rparr>))"
| wake_other: "\<lbrakk>ps_pc s p = WaitLatch; ps_latch s p; \<not> cv_signaled p s\<rbrakk> \<Longrightarrow> par_step env p s (s\<lparr>ps_latch := (ps_latch s)(p := False)\<rparr>)"
| wait_cancel: "ps_pc s p = WaitCancel r \<Longrightarrow> par_step env p s (goto p (WaitDone r) (ConditionVariableCancelSleep p s))"

code_pred (modes: i \<Rightarrow> i \<Rightarrow> i \<Rightarrow> o \<Rightarrow> bool) par_step .

text \<open>What \<open>HnswBeginParallel\<close> sets up and launches; without a shared memory segment (\<open>seg\<close>) or without workers it backs out, and the
  build is serial.\<close>

definition HnswBeginParallel :: "bool \<Rightarrow> par_env \<Rightarrow> heap_row list list \<Rightarrow> nat \<Rightarrow> HnswBuildState \<Rightarrow> par_state option" where
  "HnswBeginParallel seg env blocks maintenance_work_mem bs =
     (if \<not> seg \<or> pe_nworkers_launched env = 0 then None
      else Some \<lparr>ps_shared = \<lparr>sh_workersdonecv = [], sh_mutex = None, sh_nparticipantsdone = 0, sh_reltuples = 0,
                   sh_build = bs\<lparr>bs_graph := parallel_graph maintenance_work_mem\<rparr>\<rparr>,
      ps_blocks = blocks, ps_chunk = (\<lambda>_. []), ps_pc = (\<lambda>p. if p < nparticipanttuplesorts env then Scanning else WorkerDone),
      ps_latch = (\<lambda>_. False), ps_prepared = False\<rparr>)"

text \<open>A run: any process makes the next step.\<close>

inductive par_run :: "par_env \<Rightarrow> par_state \<Rightarrow> nat \<Rightarrow> par_state \<Rightarrow> bool" for env s0 where
  start: "par_run env s0 0 s0"
| step: "par_run env s0 n s \<Longrightarrow> p < nparticipanttuplesorts env \<Longrightarrow> par_step env p s s' \<Longrightarrow> par_run env s0 (Suc n) s'"

text \<open>The leader's build state when the participants are done, and the rest of \<open>BuildGraph\<close>.\<close>

definition parallel_finish :: "nat \<Rightarrow> par_state \<Rightarrow> HnswBuildState result" where
  "parallel_finish reltuples s =
     (let bs = sh_build (ps_shared s); bs2 = bs\<lparr>bs_reltuples := reltuples, bs_indtuples := g_indtuples (bs_graph bs)\<rparr> in
      if g_flushed (bs_graph bs2) then Inr bs2 else FlushPages bs2)"

section \<open>Invariants\<close>

text \<open>Phases of a process: it holds the spin lock, its part of the scan is counted, its tuples are added, it has signalled, it is the waiting leader.\<close>

fun locked :: "par_pc \<Rightarrow> bool" where
  "locked CountDone = True" | "locked AddTuples = True" | "locked UnlockShared = True" | "locked WaitTest = True" | "locked (WaitUnlock _) = True"
| "locked _ = False"

fun counted_pc :: "par_pc \<Rightarrow> bool" where
  "counted_pc Scanning = False" | "counted_pc LockShared = False" | "counted_pc CountDone = False" | "counted_pc _ = True"

fun added_pc :: "par_pc \<Rightarrow> bool" where
  "added_pc AddTuples = False" | "added_pc c = counted_pc c"

fun signalled :: "par_pc \<Rightarrow> bool" where
  "signalled UnlockShared = False" | "signalled SignalLeader = False" | "signalled c = added_pc c"

fun waiting :: "par_pc \<Rightarrow> bool" where
  "waiting WaitLock = True" | "waiting WaitTest = True" | "waiting (WaitUnlock _) = True" | "waiting WaitSleep = True" | "waiting WaitLatch = True"
| "waiting (WaitCancel _) = True" | "waiting (WaitDone _) = True" | "waiting _ = False"

text \<open>The waiting leader has seen a process that was not done.\<close>

fun unsatisfied :: "par_pc \<Rightarrow> bool" where
  "unsatisfied (WaitUnlock None) = True" | "unsatisfied WaitSleep = True" | "unsatisfied WaitLatch = True" | "unsatisfied _ = False"

fun answer :: "par_pc \<Rightarrow> nat option" where
  "answer (WaitUnlock x) = x" | "answer (WaitCancel r) = Some r" | "answer (WaitDone r) = Some r" | "answer _ = None"

lemma after_scan_pc [simp]: "counted_pc (after_scan p)" "added_pc (after_scan p)" "signalled (after_scan p)" "\<not> locked (after_scan p)" "\<not> unsatisfied (after_scan p)"
  "answer (after_scan p) = None" "after_scan p \<noteq> Scanning" "waiting (after_scan p) \<longleftrightarrow> p = 0" "after_scan p \<noteq> WakeUp q" "after_scan p = WorkerDone \<longleftrightarrow> p \<noteq> 0"
  "after_scan p \<noteq> WaitLatch"
  by (simp_all add: after_scan_def)

definition pcs_ok :: "par_env \<Rightarrow> par_state \<Rightarrow> bool" where
  "pcs_ok env s \<longleftrightarrow> 0 < nparticipanttuplesorts env \<and> ps_pc s 0 \<noteq> WorkerDone \<and>
     (\<forall>p. (nparticipanttuplesorts env \<le> p \<longrightarrow> ps_pc s p = WorkerDone) \<and> (waiting (ps_pc s p) \<longrightarrow> p = 0) \<and>
        (ps_pc s p \<noteq> Scanning \<longrightarrow> ps_chunk s p = [] \<and> (p < nparticipanttuplesorts env \<longrightarrow> ps_blocks s = [])))"

definition mutex_ok :: "par_state \<Rightarrow> bool" where
  "mutex_ok s \<longleftrightarrow> (\<forall>p. sh_mutex (ps_shared s) = Some p \<longleftrightarrow> locked (ps_pc s p))"

definition n_counted :: "par_env \<Rightarrow> (nat \<Rightarrow> par_pc) \<Rightarrow> nat" where
  "n_counted env pc = (\<Sum>p<nparticipanttuplesorts env. if counted_pc (pc p) then 1 else 0)"

definition n_added :: "par_env \<Rightarrow> (nat \<Rightarrow> par_pc) \<Rightarrow> nat" where
  "n_added env pc = (\<Sum>p<nparticipanttuplesorts env. if added_pc (pc p) then pe_reltuples env p else 0)"

definition counts_ok :: "par_env \<Rightarrow> par_state \<Rightarrow> bool" where
  "counts_ok env s \<longleftrightarrow> sh_nparticipantsdone (ps_shared s) = n_counted env (ps_pc s) \<and> sh_reltuples (ps_shared s) = n_added env (ps_pc s)"

definition answer_ok :: "par_env \<Rightarrow> par_state \<Rightarrow> bool" where
  "answer_ok env s \<longleftrightarrow> (\<forall>r. answer (ps_pc s 0) = Some r \<longrightarrow>
     r = (\<Sum>p<nparticipanttuplesorts env. pe_reltuples env p) \<and> (\<forall>p<nparticipanttuplesorts env. added_pc (ps_pc s p)))"

text \<open>Wake-ups are not lost: a leader that is off the wait list will find its latch set, and one that is on it and has seen a process that was
  not done will be signalled by such a process.\<close>

definition unsignalled :: "par_env \<Rightarrow> (nat \<Rightarrow> par_pc) \<Rightarrow> bool" where
  "unsignalled env pc \<longleftrightarrow> (\<exists>p<nparticipanttuplesorts env. \<not> signalled (pc p))"

definition waking :: "par_env \<Rightarrow> (nat \<Rightarrow> par_pc) \<Rightarrow> bool" where
  "waking env pc \<longleftrightarrow> (\<exists>p<nparticipanttuplesorts env. pc p = WakeUp 0)"

definition cv_ok :: "par_env \<Rightarrow> par_state \<Rightarrow> bool" where
  "cv_ok env s \<longleftrightarrow> (sh_workersdonecv (ps_shared s) = [] \<or> sh_workersdonecv (ps_shared s) = [0] \<and> ps_prepared s) \<and>
     (\<forall>p q. ps_pc s p = WakeUp q \<longrightarrow> q = 0) \<and> (ps_pc s 0 = WaitLatch \<longrightarrow> ps_prepared s) \<and>
     (ps_prepared s \<longrightarrow> cv_signaled 0 s \<longrightarrow> ps_latch s 0 \<or> waking env (ps_pc s)) \<and>
     (unsatisfied (ps_pc s 0) \<longrightarrow> \<not> cv_signaled 0 s \<longrightarrow> unsignalled env (ps_pc s))"

lemma unsignalled_move: "unsignalled env pc \<Longrightarrow> signalled (pc p) \<or> \<not> signalled x \<Longrightarrow> p < nparticipanttuplesorts env \<Longrightarrow> unsignalled env (pc(p := x))"
  unfolding unsignalled_def by (metis fun_upd_apply)

lemma waking_move: "waking env pc \<Longrightarrow> pc p \<noteq> WakeUp 0 \<Longrightarrow> waking env (pc(p := x))"
  unfolding waking_def by (metis fun_upd_apply)

lemma waking_new: "p < nparticipanttuplesorts env \<Longrightarrow> waking env (pc(p := WakeUp 0))"
  unfolding waking_def by (metis fun_upd_same)

lemmas cv_defs = ConditionVariablePrepareToSleep_def ConditionVariableCancelSleep_def cv_signaled_def

lemma pcs_step:
  assumes st: "par_step env p s s'" and p: "p < nparticipanttuplesorts env" and k: "pcs_ok env s"
  shows "pcs_ok env s'"
proof -
  have kp: "ps_pc s p \<noteq> Scanning \<Longrightarrow> ps_chunk s p = [] \<and> ps_blocks s = []" "waiting (ps_pc s p) \<Longrightarrow> p = 0" using k p by (auto simp: pcs_ok_def)
  from st show ?thesis using k p kp unfolding pcs_ok_def by cases (auto simp: cv_defs split: option.splits)
qed

lemma mutex_step:
  assumes st: "par_step env p s s'" and k: "mutex_ok s"
  shows "mutex_ok s'"
proof -
  have kp: "locked (ps_pc s p) \<Longrightarrow> locked (ps_pc s q) \<Longrightarrow> q = p" for q using k by (auto simp: mutex_ok_def) (metis option.inject)
  from st show ?thesis using k kp unfolding mutex_ok_def by cases (auto simp: cv_defs split: option.splits)
qed

lemma sum_move:
  fixes f :: "nat \<Rightarrow> 'b \<Rightarrow> 'c::comm_monoid_add"
  assumes "p < n"
  shows "(\<Sum>i<n. f i ((g(p := x)) i)) + f p (g p) = (\<Sum>i<n. f i (g i)) + f p x"
proof -
  have d: "(\<Sum>i<n. h i) = h p + (\<Sum>i\<in>{..<n} - {p}. h i)" for h :: "nat \<Rightarrow> 'c" using assms by (simp add: sum.remove)
  have "(\<Sum>i\<in>{..<n} - {p}. f i ((g(p := x)) i)) = (\<Sum>i\<in>{..<n} - {p}. f i (g i))" by (rule sum.cong) auto
  then show ?thesis unfolding d [of "\<lambda>i. f i ((g(p := x)) i)"] d [of "\<lambda>i. f i (g i)"] by (simp add: ac_simps)
qed

lemma n_counted_move:
  assumes "p < nparticipanttuplesorts env"
  shows "counted_pc x = counted_pc (pc p) \<Longrightarrow> n_counted env (pc(p := x)) = n_counted env pc"
    "counted_pc x \<Longrightarrow> \<not> counted_pc (pc p) \<Longrightarrow> n_counted env (pc(p := x)) = Suc (n_counted env pc)"
  using sum_move [OF assms, of "\<lambda>_ c. if counted_pc c then 1 else 0 :: nat" pc x] unfolding n_counted_def by (simp_all split: if_splits)

lemma n_added_move:
  assumes "p < nparticipanttuplesorts env"
  shows "added_pc x = added_pc (pc p) \<Longrightarrow> n_added env (pc(p := x)) = n_added env pc"
    "added_pc x \<Longrightarrow> \<not> added_pc (pc p) \<Longrightarrow> n_added env (pc(p := x)) = n_added env pc + pe_reltuples env p"
  using sum_move [OF assms, of "\<lambda>i c. if added_pc c then pe_reltuples env i else 0" pc x] unfolding n_added_def by (simp_all split: if_splits)

lemma counts_step:
  assumes st: "par_step env p s s'" and p: "p < nparticipanttuplesorts env" and k: "counts_ok env s"
  shows "counts_ok env s'"
proof -
  note m = n_counted_move [OF p, of _ "ps_pc s"] n_added_move [OF p, of _ "ps_pc s"]
  from st show ?thesis
  proof cases
    case (wait_unlock x)
    then show ?thesis using k by (cases x) (simp_all add: counts_ok_def m)
  qed (use k in \<open>simp_all add: counts_ok_def cv_defs m\<close>)
qed

lemma all_counted: "n_counted env pc = nparticipanttuplesorts env \<longleftrightarrow> (\<forall>p<nparticipanttuplesorts env. counted_pc (pc p))"
proof -
  have "n_counted env pc = card {p. p < nparticipanttuplesorts env \<and> counted_pc (pc p)}"
    unfolding n_counted_def by (simp add: sum.If_cases Int_def)
  moreover have "card {p. p < nparticipanttuplesorts env \<and> counted_pc (pc p)} = nparticipanttuplesorts env \<longleftrightarrow> {p. p < nparticipanttuplesorts env \<and> counted_pc (pc p)} = {..<nparticipanttuplesorts env}"
    by (metis (no_types, lifting) card_lessThan card_subset_eq finite_lessThan lessThan_iff mem_Collect_eq subsetI)
  ultimately show ?thesis by auto
qed

lemma answer_step:
  assumes st: "par_step env p s s'" and p: "p < nparticipanttuplesorts env" and k: "pcs_ok env s" "mutex_ok s" "counts_ok env s" and a: "answer_ok env s"
  shows "answer_ok env s'"
proof -
  have p0: "waiting (ps_pc s p) \<Longrightarrow> p = 0" using k(1) p by (auto simp: pcs_ok_def)
  have ap: "answer (ps_pc s 0) = Some r \<Longrightarrow> added_pc (ps_pc s p)" for r using a p by (simp add: answer_ok_def)
  from st show ?thesis
  proof cases
    case wait_test
    then have z: "p = 0" using p0 by simp
    have ad: "\<forall>q<nparticipanttuplesorts env. added_pc (ps_pc s q)" if c: "sh_nparticipantsdone (ps_shared s) = nparticipanttuplesorts env"
    proof (intro allI impI)
      fix q assume "q < nparticipanttuplesorts env"
      then have cq: "counted_pc (ps_pc s q)" using c k(3) all_counted unfolding counts_ok_def by metis
      have "ps_pc s q \<noteq> AddTuples"
      proof
        assume "ps_pc s q = AddTuples"
        then have "sh_mutex (ps_shared s) = Some q" "sh_mutex (ps_shared s) = Some p" using k(2) wait_test by (simp_all add: mutex_ok_def)
        then show False using wait_test \<open>ps_pc s q = AddTuples\<close> by simp
      qed
      then show "added_pc (ps_pc s q)" using cq by (cases "ps_pc s q") simp_all
    qed
    then have "sh_reltuples (ps_shared s) = (\<Sum>p<nparticipanttuplesorts env. pe_reltuples env p)" if "sh_nparticipantsdone (ps_shared s) = nparticipanttuplesorts env"
      using that k(3) by (simp add: counts_ok_def n_added_def)
    then show ?thesis using wait_test z ad by (auto simp: answer_ok_def)
  next
    case (wait_unlock x)
    then show ?thesis using a p0 by (cases x) (auto simp: answer_ok_def)
  qed (use a p0 ap in \<open>auto simp: answer_ok_def cv_defs\<close>)
qed

lemma not_all_counted: "n_counted env pc \<noteq> nparticipanttuplesorts env \<Longrightarrow> unsignalled env pc"
proof -
  assume "n_counted env pc \<noteq> nparticipanttuplesorts env"
  then obtain p where "p < nparticipanttuplesorts env" "\<not> counted_pc (pc p)" by (auto simp: all_counted)
  then show ?thesis unfolding unsignalled_def by (intro exI [of _ p]) (cases "pc p", simp_all)
qed

lemma cv_step:
  assumes st: "par_step env p s s'" and p: "p < nparticipanttuplesorts env" and k: "pcs_ok env s" "counts_ok env s" and a: "cv_ok env s"
  shows "cv_ok env s'"
proof -
  have p0: "waiting (ps_pc s p) \<Longrightarrow> p = 0" using k(1) p by (auto simp: pcs_ok_def)
  note m = unsignalled_move [OF _ _ p, of "ps_pc s"] waking_move [of env "ps_pc s" p]
  from st show ?thesis
  proof cases
    case wait_test
    then have z: "p = 0" using p0 by simp
    have "sh_nparticipantsdone (ps_shared s) \<noteq> nparticipanttuplesorts env \<Longrightarrow> unsignalled env (ps_pc s)" using not_all_counted k(2) by (simp add: counts_ok_def)
    then show ?thesis using wait_test z a m by (auto simp: cv_ok_def cv_defs)
  next
    case (wait_unlock x)
    then show ?thesis using a p0 m by (cases x) (auto simp: cv_ok_def cv_defs)
  next
    case (signal_one q qs)
    then have "q = 0" "qs = []" using a by (auto simp: cv_ok_def)
    then show ?thesis using signal_one a waking_new [OF p, of "ps_pc s"] by (auto simp: cv_ok_def cv_defs)
  next
    case (set_latch q)
    then have "q = 0" using a by (auto simp: cv_ok_def)
    then show ?thesis using set_latch a m by (auto simp: cv_ok_def cv_defs)
  qed (use a p0 m in \<open>auto simp: cv_ok_def cv_defs\<close>)
qed

section \<open>The rows\<close>

text \<open>The rows that are in the graph, in the order in which they were inserted, together with those in blocks and chunks are the rows of the table.\<close>

definition rows_ok :: "par_env \<Rightarrow> int \<Rightarrow> HnswBuildState \<Rightarrow> heap_row list \<Rightarrow> par_state \<Rightarrow> bool" where
  "rows_ok env dim bs0 rows s \<longleftrightarrow> (\<exists>dr. build_sink dim bs0 (length dr) (mset (row_entries (bs_typeInfo bs0) (bs_support bs0) dr)) (sh_build (ps_shared s)) \<and>
     mset dr + mset (concat (ps_blocks s)) + (\<Sum>p<nparticipanttuplesorts env. mset (ps_chunk s p)) = mset rows)"

lemma chunk_member:
  fixes p :: nat
  assumes "p < n" "c p = row # rs"
  shows "row \<in># (\<Sum>i<n. mset (c i :: 'a list))"
proof -
  have "(\<Sum>i<n. mset (c i)) = mset (c p) + (\<Sum>i\<in>{..<n} - {p}. mset (c i))" by (rule sum.remove) (use assms(1) in auto)
  then show ?thesis using assms(2) by simp
qed

lemma row_total:
  assumes k: "rows_ok env dim bs0 rows s" and ok: "\<forall>row\<in>set rows. row_ok (bs_typeInfo bs0) (bs_support bs0) dim row" "length rows \<le> max_rows"
    and c: "p < nparticipanttuplesorts env" "ps_chunk s p = row # rs"
  shows "\<exists>bs. BuildCallback mem row (sh_build (ps_shared s)) = Inr bs \<and>
    rows_ok env dim bs0 rows (s\<lparr>ps_shared := (ps_shared s)\<lparr>sh_build := bs\<rparr>, ps_chunk := (ps_chunk s)(p := rs)\<rparr>)"
proof -
  let ?e = "row_entries (bs_typeInfo bs0) (bs_support bs0)" and ?C = "\<lambda>c. \<Sum>p<nparticipanttuplesorts env. mset (c p :: heap_row list)"
  obtain dr where dr: "build_sink dim bs0 (length dr) (mset (?e dr)) (sh_build (ps_shared s))" "mset dr + mset (concat (ps_blocks s)) + ?C (ps_chunk s) = mset rows"
    using k by (auto simp: rows_ok_def)
  have m: "row \<in># ?C (ps_chunk s)" by (rule chunk_member [of p _ "ps_chunk s", OF c])
  then have r: "row \<in> set rows" using arg_cong [OF dr(2), of set_mset] by auto
  obtain A where "?C (ps_chunk s) = add_mset row A" using m by (metis mset_add)
  then have l: "length dr < max_rows" using arg_cong [OF dr(2), of size] ok(2) by simp
  have "row_ok (bs_typeInfo bs0) (bs_support bs0) dim row" using ok(1) r by blast
  from building.step_ok [OF dr(1) this l] obtain bs where b: "BuildCallback mem row (sh_build (ps_shared s)) = Inr bs" "build_sink dim bs0 (Suc (length dr)) (mset (?e dr) + mset (?e [row])) bs"
    by blast
  have e: "mset (?e (dr @ [row])) = mset (?e dr) + mset (?e [row])" by (metis row_entries_concat map_append concat_append mset_append)
  have "?C ((ps_chunk s)(p := rs)) + mset (ps_chunk s p) = ?C (ps_chunk s) + mset rs" by (rule sum_move [OF c(1), of "\<lambda>_. mset"])
  then have c1: "?C (ps_chunk s) = add_mset row (?C ((ps_chunk s)(p := rs)))" using c(2) by simp
  have "mset (dr @ [row]) + mset (concat (ps_blocks s)) + ?C ((ps_chunk s)(p := rs)) = mset rows" using dr(2) unfolding c1 by (simp del: fun_upd_apply)
  moreover have "build_sink dim bs0 (length (dr @ [row])) (mset (?e (dr @ [row]))) bs" using b(2) e by simp
  ultimately show ?thesis using b(1) unfolding rows_ok_def by (intro exI [of _ bs]) (auto intro!: exI [of _ "dr @ [row]"])
qed

lemma rows_step:
  assumes st: "par_step env p s s'" and p: "p < nparticipanttuplesorts env" and k: "rows_ok env dim bs0 rows s"
    and ok: "\<forall>row\<in>set rows. row_ok (bs_typeInfo bs0) (bs_support bs0) dim row" "length rows \<le> max_rows"
  shows "rows_ok env dim bs0 rows s'"
  using st
proof cases
  case (next_block b bs)
  have "(\<Sum>i<nparticipanttuplesorts env. mset (((ps_chunk s)(p := b)) i)) + mset (ps_chunk s p) = (\<Sum>i<nparticipanttuplesorts env. mset (ps_chunk s i)) + mset b"
    by (rule sum_move [OF p, of "\<lambda>_. mset"])
  then have "mset (concat bs) + (\<Sum>i<nparticipanttuplesorts env. mset (((ps_chunk s)(p := b)) i)) = mset (concat (ps_blocks s)) + (\<Sum>i<nparticipanttuplesorts env. mset (ps_chunk s i))"
    using next_block by (simp add: ac_simps)
  moreover obtain dr where "build_sink dim bs0 (length dr) (mset (row_entries (bs_typeInfo bs0) (bs_support bs0) dr)) (sh_build (ps_shared s))"
      "mset dr + (mset (concat (ps_blocks s)) + (\<Sum>i<nparticipanttuplesorts env. mset (ps_chunk s i))) = mset rows" using k unfolding rows_ok_def add.assoc by blast
  ultimately show ?thesis unfolding rows_ok_def add.assoc next_block(1) by (intro exI [of _ dr]) (simp del: fun_upd_apply)
next
  case (next_row row rs bs)
  then show ?thesis using row_total [OF k ok p next_row(3), of "pe_memAllocated env"] by auto
qed (use k in \<open>auto simp: rows_ok_def cv_defs split: option.splits\<close>)

section \<open>Runs\<close>

definition par_inv :: "par_env \<Rightarrow> int \<Rightarrow> HnswBuildState \<Rightarrow> heap_row list \<Rightarrow> par_state \<Rightarrow> bool" where
  "par_inv env dim bs0 rows s \<longleftrightarrow> pcs_ok env s \<and> mutex_ok s \<and> counts_ok env s \<and> answer_ok env s \<and> cv_ok env s \<and> rows_ok env dim bs0 rows s \<and>
     (\<forall>row\<in>set rows. row_ok (bs_typeInfo bs0) (bs_support bs0) dim row) \<and> length rows \<le> max_rows"

lemma par_inv_step: "par_step env p s s' \<Longrightarrow> p < nparticipanttuplesorts env \<Longrightarrow> par_inv env dim bs0 rows s \<Longrightarrow> par_inv env dim bs0 rows s'"
  unfolding par_inv_def by (meson pcs_step mutex_step counts_step answer_step cv_step rows_step)

lemma par_inv_run: "par_run env s0 n s \<Longrightarrow> par_inv env dim bs0 rows s0 \<Longrightarrow> par_inv env dim bs0 rows s"
  by (induction rule: par_run.induct) (blast intro: par_inv_step)+

lemma par_inv_start:
  assumes a: "build_args (concat blocks) index ti support dim" and i: "InitBuildState mwm index ti support False dim = Inr bs" and s: "HnswBeginParallel seg env blocks mwm bs = Some s0"
  shows "par_inv env dim (bs\<lparr>bs_graph := parallel_graph mwm\<rparr>) (concat blocks) s0"
proof -
  let ?bs = "bs\<lparr>bs_graph := parallel_graph mwm\<rparr>"
  have f: "bs_index bs = index" "bs_typeInfo bs = ti" "bs_support bs = support" "bs_m bs = HnswGetM index" "bs_maxLevel bs = HnswGetMaxLevel (HnswGetM index)" "bs_elems bs = []"
    using i by (auto simp: InitBuildState_def Let_def split: if_splits)
  note h = a [unfolded build_args_def]
  have "build_ready dim ?bs" using h f by (simp add: build_ready_def)
  then have b: "build_sink dim ?bs 0 {#} ?bs" by (rule build_sink_start) (use f in \<open>simp_all add: parallel_graph_def\<close>)
  have g: "sh_build (ps_shared s0) = ?bs" "sh_workersdonecv (ps_shared s0) = []" "sh_mutex (ps_shared s0) = None" "sh_nparticipantsdone (ps_shared s0) = 0" "sh_reltuples (ps_shared s0) = 0"
      "ps_blocks s0 = blocks" "ps_chunk s0 = (\<lambda>_. [])" "ps_pc s0 = (\<lambda>p. if p < nparticipanttuplesorts env then Scanning else WorkerDone)" "\<not> ps_prepared s0"
    using s by (auto simp: HnswBeginParallel_def split: if_splits)
  have z: "pcs_ok env s0" "mutex_ok s0" "cv_ok env s0" "answer_ok env s0" "counts_ok env s0"
    by (simp_all add: g pcs_ok_def mutex_ok_def cv_ok_def cv_signaled_def answer_ok_def counts_ok_def n_counted_def n_added_def nparticipanttuplesorts_def)
  have r: "rows_ok env dim ?bs (concat blocks) s0" unfolding rows_ok_def by (intro exI [of _ "[]"]) (use b f in \<open>simp add: g\<close>)
  show ?thesis unfolding par_inv_def using z r h f by simp
qed

section \<open>Runs end\<close>

text \<open>What is left to do: rows, blocks, statements of each process; the leader goes around its loop once to prepare its sleep and once for every signal.\<close>

fun pc_rank :: "par_pc \<Rightarrow> nat" where
  "pc_rank Scanning = 37" | "pc_rank LockShared = 36" | "pc_rank CountDone = 35" | "pc_rank AddTuples = 34" | "pc_rank UnlockShared = 33"
| "pc_rank SignalLeader = 32" | "pc_rank (WakeUp _) = 20" | "pc_rank WorkerDone = 0" | "pc_rank WaitLock = 6" | "pc_rank WaitTest = 5"
| "pc_rank (WaitUnlock _) = 4" | "pc_rank WaitSleep = 3" | "pc_rank WaitLatch = 2" | "pc_rank (WaitCancel _) = 1" | "pc_rank (WaitDone _) = 0"

definition n_rank :: "par_env \<Rightarrow> (nat \<Rightarrow> par_pc) \<Rightarrow> nat" where
  "n_rank env pc = (\<Sum>p<nparticipanttuplesorts env. pc_rank (pc p))"

definition n_chunk :: "par_env \<Rightarrow> (nat \<Rightarrow> heap_row list) \<Rightarrow> nat" where
  "n_chunk env c = (\<Sum>p<nparticipanttuplesorts env. length (c p))"

definition n_loops :: "par_state \<Rightarrow> nat" where
  "n_loops s = (if ps_prepared s then if cv_signaled 0 s then 8 else 0 else if pc_rank (ps_pc s 0) = 0 then 0 else 8) + (if ps_latch s 0 then 1 else 0)"

definition par_measure :: "par_env \<Rightarrow> par_state \<Rightarrow> nat" where
  "par_measure env s = length (concat (ps_blocks s)) + length (ps_blocks s) + n_chunk env (ps_chunk s) + n_rank env (ps_pc s) + n_loops s"

lemma n_rank_move:
  assumes "p < nparticipanttuplesorts env"
  shows "n_rank env (pc(p := x)) = n_rank env pc + pc_rank x - pc_rank (pc p)" "pc_rank (pc p) \<le> n_rank env pc"
proof -
  show "n_rank env (pc(p := x)) = n_rank env pc + pc_rank x - pc_rank (pc p)"
    using sum_move [OF assms, of "\<lambda>_. pc_rank" pc x] unfolding n_rank_def by linarith
  show "pc_rank (pc p) \<le> n_rank env pc" unfolding n_rank_def by (rule member_le_sum) (use assms in auto)
qed

lemma n_chunk_move:
  assumes "p < nparticipanttuplesorts env"
  shows "n_chunk env (c(p := x)) + length (c p) = n_chunk env c + length x"
  using sum_move [OF assms, of "\<lambda>_. length" c x] unfolding n_chunk_def .

lemma after_scan_rank: "pc_rank (after_scan p) \<le> 6"
  by (simp add: after_scan_def)

lemma measure_step:
  assumes st: "par_step env p s s'" and p: "p < nparticipanttuplesorts env" and k: "pcs_ok env s" "cv_ok env s"
  shows "par_measure env s' < par_measure env s"
proof -
  have p0: "waiting (ps_pc s p) \<Longrightarrow> p = 0" using k(1) p by (auto simp: pcs_ok_def)
  have nw: "\<not> waiting (ps_pc s p) \<Longrightarrow> ps_pc s 0 = ps_pc s p \<or> p \<noteq> 0" by auto
  note r = n_rank_move(1) [OF p, of "ps_pc s"] and le = n_rank_move(2) [OF p, of "ps_pc s"] and c = n_chunk_move [OF p, of "ps_chunk s"]
  from st show ?thesis
  proof cases
    case (next_block b bs)
    then show ?thesis using c [of b] by (simp add: par_measure_def n_loops_def cv_defs del: fun_upd_apply)
  next
    case (next_row row rs bs)
    then show ?thesis using c [of rs] by (simp add: par_measure_def n_loops_def cv_defs del: fun_upd_apply)
  next
    case signal_none
    then show ?thesis using r le after_scan_rank [of p] by (auto simp: par_measure_def n_loops_def cv_defs)
  next
    case (signal_one q qs)
    then have "q = 0" "qs = []" using k(2) by (auto simp: cv_ok_def)
    then show ?thesis using signal_one r le by (auto simp: par_measure_def n_loops_def cv_defs)
  next
    case (set_latch q)
    then show ?thesis using r le after_scan_rank [of p] by (auto simp: par_measure_def n_loops_def cv_defs)
  next
    case (wait_unlock x)
    then show ?thesis using r le p0 by (cases x) (auto simp: par_measure_def n_loops_def cv_defs)
  qed (use r le p0 k(2) in \<open>auto simp: par_measure_def n_loops_def cv_defs cv_ok_def\<close>)
qed

text \<open>A process that is not at its end waits for nothing but the spin lock or its latch.\<close>

lemma can_step:
  assumes i: "par_inv env dim bs0 rows s" and p: "p < nparticipanttuplesorts env" and e: "pc_rank (ps_pc s p) \<noteq> 0"
    and m: "sh_mutex (ps_shared s) = None \<or> locked (ps_pc s p)" and l: "ps_pc s p = WaitLatch \<Longrightarrow> ps_latch s p"
  shows "\<exists>s'. par_step env p s s'"
proof (cases "ps_pc s p")
  case Scanning
  show ?thesis
  proof (cases "ps_chunk s p")
    case Nil
    then show ?thesis using Scanning by (cases "ps_blocks s") (auto intro: par_step.intros)
  next
    case (Cons row rs)
    have "rows_ok env dim bs0 rows s" "\<forall>row\<in>set rows. row_ok (bs_typeInfo bs0) (bs_support bs0) dim row" "length rows \<le> max_rows" using i by (simp_all add: par_inv_def)
    then show ?thesis using row_total [OF _ _ _ p Cons, of dim bs0 rows "pe_memAllocated env"] Scanning Cons next_row by blast
  qed
next
  case SignalLeader
  then show ?thesis by (cases "sh_workersdonecv (ps_shared s)") (auto intro: signal_none signal_one)
next
  case WaitSleep
  then show ?thesis by (cases "ps_prepared s") (auto intro: sleep_prepare sleep_again)
next
  case WaitLatch
  then show ?thesis using l by (cases "cv_signaled p s") (auto intro: wake_signaled wake_other)
qed (use e m in \<open>auto intro: lock_shared count_done add_tuples unlock_shared set_latch wait_lock wait_test wait_unlock wait_cancel\<close>)

lemma progress:
  assumes i: "par_inv env dim bs0 rows s" and p: "p < nparticipanttuplesorts env" "pc_rank (ps_pc s p) \<noteq> 0"
  shows "\<exists>p s'. p < nparticipanttuplesorts env \<and> par_step env p s s'"
proof -
  have k: "pcs_ok env s" "mutex_ok s" "cv_ok env s" using i by (simp_all add: par_inv_def)
  have N: "q < nparticipanttuplesorts env" if "pc_rank (ps_pc s q) \<noteq> 0" for q using k(1) that unfolding pcs_ok_def by (metis leI pc_rank.simps(8))
  show ?thesis
  proof (cases "sh_mutex (ps_shared s)")
    case (Some q)
    then have q: "locked (ps_pc s q)" using k(2) by (auto simp: mutex_ok_def)
    then have "pc_rank (ps_pc s q) \<noteq> 0" "ps_pc s q \<noteq> WaitLatch" by (cases "ps_pc s q"; simp)+
    then show ?thesis using can_step [OF i N [of q]] q N [of q] by blast
  next
    case None
    show ?thesis
    proof (cases "ps_pc s p = WaitLatch \<and> \<not> ps_latch s p")
      case False
      then show ?thesis using can_step [OF i p] None p(1) by blast
    next
      case True
      then have z: "p = 0" using k(1) unfolding pcs_ok_def by (metis waiting.simps(5))
      then have w: "waking env (ps_pc s) \<or> unsignalled env (ps_pc s)" using True k(3) by (auto simp: cv_ok_def)
      then obtain q where "q < nparticipanttuplesorts env" "ps_pc s q = WakeUp 0 \<or> \<not> signalled (ps_pc s q)" by (auto simp: waking_def unsignalled_def)
      moreover from this have "pc_rank (ps_pc s q) \<noteq> 0" "ps_pc s q \<noteq> WaitLatch" by (cases "ps_pc s q"; simp)+
      ultimately show ?thesis using can_step [OF i, of q] None by blast
    qed
  qed
qed

lemma run_bound: "par_run env s0 n s \<Longrightarrow> par_inv env dim bs0 rows s0 \<Longrightarrow> n + par_measure env s \<le> par_measure env s0"
proof (induction rule: par_run.induct)
  case (step n s p s')
  have "par_inv env dim bs0 rows s" by (rule par_inv_run [OF step.hyps(1) step.prems])
  then have "par_measure env s' < par_measure env s" using measure_step [OF step.hyps(3,2)] by (simp add: par_inv_def)
  then show ?case using step.IH [OF step.prems] by simp
qed simp

text \<open>Every run can be continued until the leader has its answer and the workers are done.\<close>

lemma complete_run:
  assumes "par_inv env dim bs0 rows s0"
  shows "\<exists>n s. par_run env s0 n s \<and> (\<forall>p<nparticipanttuplesorts env. pc_rank (ps_pc s p) = 0)"
proof -
  have "\<exists>n' s'. par_run env s0 n' s' \<and> (\<forall>p<nparticipanttuplesorts env. pc_rank (ps_pc s' p) = 0)" if "par_run env s0 n s" for n s
    using that
  proof (induction "par_measure env s" arbitrary: n s rule: less_induct)
    case less
    have i: "par_inv env dim bs0 rows s" by (rule par_inv_run [OF less.prems assms])
    show ?case
    proof (cases "\<forall>p<nparticipanttuplesorts env. pc_rank (ps_pc s p) = 0")
      case False
      then obtain p s' where st: "p < nparticipanttuplesorts env" "par_step env p s s'" using progress [OF i] by blast
      have "par_measure env s' < par_measure env s" using measure_step [OF st(2,1)] i by (simp add: par_inv_def)
      then show ?thesis using less.hyps par_run.step [OF less.prems st] by blast
    qed (use less.prems in blast)
  qed
  then show ?thesis using par_run.start by blast
qed

lemma end_of_run:
  assumes "par_inv env dim bs0 rows s" "\<forall>p<nparticipanttuplesorts env. pc_rank (ps_pc s p) = 0"
  shows "\<exists>r. ps_pc s 0 = WaitDone r" "0 < p \<Longrightarrow> ps_pc s p = WorkerDone"
proof -
  have k: "pcs_ok env s" using assms(1) by (simp add: par_inv_def)
  have r: "pc_rank (ps_pc s q) = 0" for q using k assms(2) unfolding pcs_ok_def by (metis leI pc_rank.simps(8))
  show "\<exists>r. ps_pc s 0 = WaitDone r" using k r [of 0] by (cases "ps_pc s 0") (auto simp: pcs_ok_def)
  have "waiting (ps_pc s p) \<Longrightarrow> p = 0" using k by (simp add: pcs_ok_def)
  then show "0 < p \<Longrightarrow> ps_pc s p = WorkerDone" using r [of p] by (cases "ps_pc s p") auto
qed

section \<open>Properties\<close>

text \<open>The order of the rows does not matter for the entries.\<close>

lemma row_entries_perm:
  assumes "mset rows = mset rows'"
  shows "mset (row_entries ti support rows) = mset (row_entries ti support rows')"
proof -
  have e: "mset (row_entries ti support xs) = (\<Sum>x\<in>#mset xs. mset (row_entry ti support x))" for xs
    by (subst row_entries_concat [symmetric]) (simp only: mset_concat map_map comp_def mset_map sum_mset_sum_list flip: mset_map)
  show ?thesis by (rule trans [OF e trans [OF _ e [symmetric]]]) (simp only: assms)
qed


text \<open>A table of two blocks, scanned by the leader and two workers.\<close>

definition pair_env :: par_env where
  "pair_env = \<lparr>pe_memAllocated = (\<lambda>es. 1000 * length es), pe_nworkers_launched = 2, pe_reltuples = (\<lambda>p. if p = 0 then 2 else if p = 1 then 1 else 0)\<rparr>"

definition pair_blocks :: "heap_row list list" where
  "pair_blocks = [take 2 pair_rows, drop 2 pair_rows]"

lemma pair_parallel:
  "build_args (concat pair_blocks) \<lparr>rel_options = None, rel_blocks = []\<rparr> (HnswGetTypeInfo None) l2_support 1"
  "\<exists>bs. InitBuildState 65536 \<lparr>rel_options = None, rel_blocks = []\<rparr> (HnswGetTypeInfo None) l2_support False 1 = Inr bs" "\<exists>s0. HnswBeginParallel True pair_env pair_blocks 65536 bs = Some s0"
proof -
  show "build_args (concat pair_blocks) \<lparr>rel_options = None, rel_blocks = []\<rparr> (HnswGetTypeInfo None) l2_support 1" using pair_build_args by (simp add: pair_blocks_def)
  show "\<exists>bs. InitBuildState 65536 \<lparr>rel_options = None, rel_blocks = []\<rparr> (HnswGetTypeInfo None) l2_support False 1 = Inr bs"
    by (simp add: InitBuildState_def Let_def default_options)
qed (simp add: pair_env_def HnswBeginParallel_def)

lemma pair_complete:
  "\<exists>bs s0 n s r. InitBuildState 65536 \<lparr>rel_options = None, rel_blocks = []\<rparr> (HnswGetTypeInfo None) l2_support False 1 = Inr bs \<and>
     HnswBeginParallel True pair_env pair_blocks 65536 bs = Some s0 \<and> par_run pair_env s0 n s \<and> ps_pc s 0 = WaitDone r"
proof -
  obtain bs s0 where b: "InitBuildState 65536 \<lparr>rel_options = None, rel_blocks = []\<rparr> (HnswGetTypeInfo None) l2_support False 1 = Inr bs"
      "HnswBeginParallel True pair_env pair_blocks 65536 bs = Some s0" using pair_parallel(2,3) by blast
  note i = par_inv_start [OF pair_parallel(1) b]
  obtain n s where r: "par_run pair_env s0 n s" "\<forall>p<nparticipanttuplesorts pair_env. pc_rank (ps_pc s p) = 0" using complete_run [OF i] by blast
  show ?thesis using b r(1) end_of_run(1) [OF par_inv_run [OF r(1) i] r(2)] by blast
qed


text \<open>C6: a parallel build does not hang: no run is longer than a bound that is linear in the rows, the blocks and the participants, whatever the interleaving
  (so no process waits forever and the leader does not spin), and a run that cannot be continued is one in which the leader's wait has returned and all workers are done
  (no deadlock on the spin lock, no lost wake-up).\<close>

theorem parallel_build_ends:
  assumes "build_args (concat blocks) index ti support dim" and "InitBuildState mwm index ti support False dim = Inr bs" and "HnswBeginParallel seg env blocks mwm bs = Some s0"
    and "par_run env s0 n s"
  shows "n \<le> length (concat blocks) + length blocks + 37 * nparticipanttuplesorts env + 8 \<and>
    ((\<nexists>p s'. p < nparticipanttuplesorts env \<and> par_step env p s s') \<longrightarrow> (\<exists>r. ps_pc s 0 = WaitDone r) \<and> (\<forall>p>0. ps_pc s p = WorkerDone))"
proof
  note i0 = par_inv_start [OF assms(1-3)] and i = par_inv_run [OF assms(4) par_inv_start [OF assms(1-3)]]
  have "par_measure env s0 = length (concat blocks) + length blocks + 37 * nparticipanttuplesorts env + 8"
    using assms(3) by (auto simp: par_measure_def HnswBeginParallel_def n_chunk_def n_rank_def n_loops_def nparticipanttuplesorts_def split: if_splits)
  then show "n \<le> length (concat blocks) + length blocks + 37 * nparticipanttuplesorts env + 8" using run_bound [OF assms(4) i0] by simp
  show "(\<nexists>p s'. p < nparticipanttuplesorts env \<and> par_step env p s s') \<longrightarrow> (\<exists>r. ps_pc s 0 = WaitDone r) \<and> (\<forall>p>0. ps_pc s p = WorkerDone)"
    using progress [OF i] end_of_run [OF i] by blast
qed

theorem parallel_build_ends_witness:
  "\<exists>bs s0 n s r. InitBuildState 65536 \<lparr>rel_options = None, rel_blocks = []\<rparr> (HnswGetTypeInfo None) l2_support False 1 = Inr bs \<and>
     HnswBeginParallel True pair_env pair_blocks 65536 bs = Some s0 \<and> par_run pair_env s0 n s \<and> ps_pc s 0 = WaitDone r \<and> n \<le> 124"
proof -
  obtain bs s0 n s r where b: "InitBuildState 65536 \<lparr>rel_options = None, rel_blocks = []\<rparr> (HnswGetTypeInfo None) l2_support False 1 = Inr bs"
      "HnswBeginParallel True pair_env pair_blocks 65536 bs = Some s0" and r: "par_run pair_env s0 n s" "ps_pc s 0 = WaitDone r" using pair_complete by blast
  have "n \<le> length (concat pair_blocks) + length pair_blocks + 37 * nparticipanttuplesorts pair_env + 8" using parallel_build_ends [OF pair_parallel(1) b r(1)] by blast
  then have "n \<le> 124" by (simp add: pair_blocks_def pair_env_def pair_rows_def nparticipanttuplesorts_def)
  then show ?thesis using b r by blast
qed

end
