(* ===== verification/HnswLocks.thy ===== *)
theory HnswLocks
  imports Prelude
begin

text \<open>
  The locks under which the processes of a parallel build insert into the shared graph, \<open>InsertTuple\<close> and \<open>InsertTupleInMemory\<close> of
  \<open>src/backend/access/hnsw/hnswbuild.c\<close>: the flush lock, the allocator lock, the entry lock and the entry wait lock, with the two modes of
  the light-weight locks of \<open>src/backend/storage/lmgr/lwlock.c\<close>.

  The processes are interleaved at every acquisition, release, test and access to the graph.  An element is its level and the entry point of
  the graph the level of its element; the search for neighbours, \<open>FlushPages\<close> and an insertion on disk are one step each, and whether a
  duplicate is found is open.  The rows are those that form an index value.  The locks of the single elements are not modelled.
\<close>

section \<open>Light-weight locks\<close>

datatype LWLockMode = LW_EXCLUSIVE | LW_SHARED

text \<open>The state word: the exclusive bit and the number of shared holders.\<close>

record LWLock =
  lw_exclusive :: bool
  lw_shared :: nat

text \<open>\<open>None\<close>: the caller must wait.\<close>

definition LWLockAttemptLock :: "LWLock \<Rightarrow> LWLockMode \<Rightarrow> LWLock option" where
  "LWLockAttemptLock lock mode =
     (case mode of
        LW_EXCLUSIVE \<Rightarrow> if \<not> lw_exclusive lock \<and> lw_shared lock = 0 then Some (lock\<lparr>lw_exclusive := True\<rparr>) else None
      | LW_SHARED \<Rightarrow> if \<not> lw_exclusive lock then Some (lock\<lparr>lw_shared := Suc (lw_shared lock)\<rparr>) else None)"

definition LWLockRelease :: "LWLock \<Rightarrow> LWLockMode \<Rightarrow> LWLock" where
  "LWLockRelease lock mode =
     (case mode of LW_EXCLUSIVE \<Rightarrow> lock\<lparr>lw_exclusive := False\<rparr> | LW_SHARED \<Rightarrow> lock\<lparr>lw_shared := lw_shared lock - 1\<rparr>)"

text \<open>The lock agrees with what each of \<open>N\<close> processes holds of it.\<close>

definition lock_ok :: "nat \<Rightarrow> (nat \<Rightarrow> LWLockMode option) \<Rightarrow> LWLock \<Rightarrow> bool" where
  "lock_ok N h l \<longleftrightarrow> (lw_exclusive l \<longleftrightarrow> (\<exists>p<N. h p = Some LW_EXCLUSIVE)) \<and> lw_shared l = card {p. p < N \<and> h p = Some LW_SHARED} \<and>
     (\<forall>p<N. \<forall>q<N. h p = Some LW_EXCLUSIVE \<longrightarrow> q \<noteq> p \<longrightarrow> h q = None)"

lemma lock_ok_exclusive: "lock_ok N h l \<Longrightarrow> p < N \<Longrightarrow> h p = Some LW_EXCLUSIVE \<Longrightarrow> q < N \<Longrightarrow> q \<noteq> p \<Longrightarrow> h q = None"
  unfolding lock_ok_def by blast

lemma lock_ok_free:
  assumes "lock_ok N h l" and "\<forall>p<N. h p = None"
  shows "LWLockAttemptLock l mode \<noteq> None"
proof -
  have "{p. p < N \<and> h p = Some LW_SHARED} = {}" using assms(2) by auto
  then show ?thesis using assms by (cases mode) (auto simp: lock_ok_def LWLockAttemptLock_def)
qed

lemma lock_ok_acquire:
  assumes "lock_ok N h l" and "p < N" and "h p = None" and "LWLockAttemptLock l mode = Some l'"
  shows "lock_ok N (h(p := Some mode)) l'"
proof (cases mode)
  case LW_EXCLUSIVE
  then have l: "\<not> lw_exclusive l" "lw_shared l = 0" "l' = l\<lparr>lw_exclusive := True\<rparr>" using assms(4) by (auto simp: LWLockAttemptLock_def split: if_splits)
  then have s: "{q. q < N \<and> h q = Some LW_SHARED} = {}" using assms(1) by (auto simp: lock_ok_def)
  have "h q = None" if "q < N" for q
  proof (cases "h q")
    case (Some m)
    then show ?thesis using s l(1) assms(1) that by (cases m) (auto simp: lock_ok_def)
  qed
  moreover from s have "{q. q < N \<and> (h(p := Some mode)) q = Some LW_SHARED} = {}" using LW_EXCLUSIVE by auto
  ultimately show ?thesis using l assms(2) LW_EXCLUSIVE unfolding lock_ok_def by auto
next
  case LW_SHARED
  then have l: "\<not> lw_exclusive l" "l' = l\<lparr>lw_shared := Suc (lw_shared l)\<rparr>" using assms(4) by (auto simp: LWLockAttemptLock_def split: if_splits)
  have "{q. q < N \<and> (h(p := Some mode)) q = Some LW_SHARED} = insert p {q. q < N \<and> h q = Some LW_SHARED}" using assms(2) LW_SHARED by auto
  moreover have "p \<notin> {q. q < N \<and> h q = Some LW_SHARED}" using assms(3) by simp
  ultimately have "card {q. q < N \<and> (h(p := Some mode)) q = Some LW_SHARED} = Suc (card {q. q < N \<and> h q = Some LW_SHARED})" by simp
  then show ?thesis using l assms(1) LW_SHARED unfolding lock_ok_def by auto
qed

lemma lock_ok_release:
  assumes "lock_ok N h l" and "p < N" and "h p = Some mode"
  shows "lock_ok N (h(p := None)) (LWLockRelease l mode)"
proof (cases mode)
  case LW_EXCLUSIVE
  then have n: "(h(p := None)) q = None" if "q < N" for q using that lock_ok_exclusive [OF assms(1,2), of q] assms(3) by simp
  have e: "{q. q < N \<and> h q = Some LW_SHARED} = {}" "{q. q < N \<and> (h(p := None)) q = Some LW_SHARED} = {}"
    using n lock_ok_exclusive [OF assms(1,2)] assms(3) LW_EXCLUSIVE by fastforce+
  have "lw_shared l = 0" using assms(1) unfolding lock_ok_def e by simp
  then show ?thesis unfolding lock_ok_def e using n LW_EXCLUSIVE by (simp add: LWLockRelease_def)
next
  case LW_SHARED
  have "{q. q < N \<and> (h(p := None)) q = Some LW_SHARED} = {q. q < N \<and> h q = Some LW_SHARED} - {p}" by auto
  then have "card {q. q < N \<and> (h(p := None)) q = Some LW_SHARED} = card {q. q < N \<and> h q = Some LW_SHARED} - 1"
    using assms(2,3) LW_SHARED by simp
  moreover have "lw_exclusive (LWLockRelease l mode) = lw_exclusive l" "lw_shared (LWLockRelease l mode) = lw_shared l - 1" using LW_SHARED by (simp_all add: LWLockRelease_def)
  moreover have "(h(p := None)) q = Some LW_EXCLUSIVE \<longleftrightarrow> h q = Some LW_EXCLUSIVE" for q using assms(3) LW_SHARED by simp
  moreover have "h q = None \<Longrightarrow> (h(p := None)) q = None" for q by simp
  ultimately show ?thesis using assms(1) unfolding lock_ok_def by (simp only:) blast
qed

section \<open>Inserting a tuple\<close>

datatype graph_lock = flushLock | allocatorLock | entryWaitLock | entryLock

text \<open>Where a process is, in the order of the code; between two rows it is at \<open>NextRow\<close>.  The processes that hold the entry point they have
  read carry it along.\<close>

datatype ins_pc =
    NextRow
  | AcquireFlush | TestFlushed | ReleaseFlushOnDisk
  | AcquireAllocator | TestMemory | ReleaseAllocatorFull | ReleaseFlushFull | AcquireFlushExclusive | TestFlushedAgain | CallFlushPages | ReleaseFlushExclusive
  | InsertOnDisk
  | InitElement | ReleaseAllocator
  | AcquireWait | ReleaseWait | AcquireEntry | GetEntryPoint
  | ReleaseEntryShared | AcquireWaitAgain | AcquireEntryExclusive | ReleaseWaitAgain | GetLatestEntryPoint
  | FindNeighbors LWLockMode "nat option" | UpdateGraph LWLockMode "nat option" | ReleaseEntry LWLockMode | ReleaseFlush

record ins_state =
  is_locks :: "graph_lock \<Rightarrow> LWLock"
  is_pc :: "nat \<Rightarrow> ins_pc"
  is_rows :: "nat \<Rightarrow> nat list"
  is_flushed :: bool
  is_flushes :: nat
  is_memoryUsed :: nat
  is_memoryTotal :: nat
  is_entryPoint :: "nat option"
  is_graph :: "nat multiset"
  is_dups :: "nat multiset"
  is_disk :: "nat multiset"

text \<open>\<open>LWLockAcquire\<close> and \<open>LWLockRelease\<close> in the code: the lock, the mode and what comes next.\<close>

fun acquires :: "ins_pc \<Rightarrow> (graph_lock \<times> LWLockMode \<times> ins_pc) option" where
  "acquires AcquireFlush = Some (flushLock, LW_SHARED, TestFlushed)"
| "acquires AcquireAllocator = Some (allocatorLock, LW_EXCLUSIVE, TestMemory)"
| "acquires AcquireFlushExclusive = Some (flushLock, LW_EXCLUSIVE, TestFlushedAgain)"
| "acquires AcquireWait = Some (entryWaitLock, LW_EXCLUSIVE, ReleaseWait)"
| "acquires AcquireEntry = Some (entryLock, LW_SHARED, GetEntryPoint)"
| "acquires AcquireWaitAgain = Some (entryWaitLock, LW_EXCLUSIVE, AcquireEntryExclusive)"
| "acquires AcquireEntryExclusive = Some (entryLock, LW_EXCLUSIVE, ReleaseWaitAgain)"
| "acquires _ = None"

fun releases :: "ins_pc \<Rightarrow> (graph_lock \<times> LWLockMode \<times> ins_pc) option" where
  "releases ReleaseFlushOnDisk = Some (flushLock, LW_SHARED, InsertOnDisk)"
| "releases ReleaseAllocatorFull = Some (allocatorLock, LW_EXCLUSIVE, ReleaseFlushFull)"
| "releases ReleaseFlushFull = Some (flushLock, LW_SHARED, AcquireFlushExclusive)"
| "releases ReleaseFlushExclusive = Some (flushLock, LW_EXCLUSIVE, InsertOnDisk)"
| "releases ReleaseAllocator = Some (allocatorLock, LW_EXCLUSIVE, AcquireWait)"
| "releases ReleaseWait = Some (entryWaitLock, LW_EXCLUSIVE, AcquireEntry)"
| "releases ReleaseEntryShared = Some (entryLock, LW_SHARED, AcquireWaitAgain)"
| "releases ReleaseWaitAgain = Some (entryWaitLock, LW_EXCLUSIVE, GetLatestEntryPoint)"
| "releases (ReleaseEntry mode) = Some (entryLock, mode, ReleaseFlush)"
| "releases ReleaseFlush = Some (flushLock, LW_SHARED, NextRow)"
| "releases _ = None"

text \<open>An element becomes the entry point when there is none or its level is higher.\<close>

definition above :: "nat \<Rightarrow> nat option \<Rightarrow> bool" where
  "above level entryPoint \<longleftrightarrow> (case entryPoint of None \<Rightarrow> True | Some e \<Rightarrow> level > e)"

abbreviation ins_goto :: "nat \<Rightarrow> ins_pc \<Rightarrow> ins_state \<Rightarrow> ins_state" where
  "ins_goto p c s \<equiv> s\<lparr>is_pc := (is_pc s)(p := c)\<rparr>"

text \<open>\<open>elemSize\<close> is what the allocator takes for an element of a level.\<close>

inductive insert_step :: "(nat \<Rightarrow> nat) \<Rightarrow> nat \<Rightarrow> ins_state \<Rightarrow> ins_state \<Rightarrow> bool" for elemSize p where
  next_row: "\<lbrakk>is_pc s p = NextRow; is_rows s p \<noteq> []\<rbrakk> \<Longrightarrow> insert_step elemSize p s (ins_goto p AcquireFlush s)"
| acquire: "\<lbrakk>acquires (is_pc s p) = Some (k, mode, c); LWLockAttemptLock (is_locks s k) mode = Some l\<rbrakk> \<Longrightarrow>
    insert_step elemSize p s (ins_goto p c (s\<lparr>is_locks := (is_locks s)(k := l)\<rparr>))"
| release: "releases (is_pc s p) = Some (k, mode, c) \<Longrightarrow>
    insert_step elemSize p s (ins_goto p c (s\<lparr>is_locks := (is_locks s)(k := LWLockRelease (is_locks s k) mode)\<rparr>))"
| test_flushed: "is_pc s p = TestFlushed \<Longrightarrow> insert_step elemSize p s (ins_goto p (if is_flushed s then ReleaseFlushOnDisk else AcquireAllocator) s)"
| test_memory: "is_pc s p = TestMemory \<Longrightarrow>
    insert_step elemSize p s (ins_goto p (if is_memoryUsed s \<ge> is_memoryTotal s then ReleaseAllocatorFull else InitElement) s)"
| test_again: "is_pc s p = TestFlushedAgain \<Longrightarrow> insert_step elemSize p s (ins_goto p (if is_flushed s then ReleaseFlushExclusive else CallFlushPages) s)"
| flush_pages: "is_pc s p = CallFlushPages \<Longrightarrow>
    insert_step elemSize p s (ins_goto p ReleaseFlushExclusive (s\<lparr>is_flushed := True, is_flushes := Suc (is_flushes s)\<rparr>))"
| on_disk: "\<lbrakk>is_pc s p = InsertOnDisk; is_rows s p = level # rows\<rbrakk> \<Longrightarrow>
    insert_step elemSize p s (ins_goto p NextRow (s\<lparr>is_rows := (is_rows s)(p := rows), is_disk := add_mset level (is_disk s)\<rparr>))"
| init_element: "\<lbrakk>is_pc s p = InitElement; is_rows s p = level # rows\<rbrakk> \<Longrightarrow>
    insert_step elemSize p s (ins_goto p ReleaseAllocator (s\<lparr>is_memoryUsed := is_memoryUsed s + elemSize level\<rparr>))"
| get_entry: "\<lbrakk>is_pc s p = GetEntryPoint; is_rows s p = level # rows\<rbrakk> \<Longrightarrow>
    insert_step elemSize p s (ins_goto p (if above level (is_entryPoint s) then ReleaseEntryShared else FindNeighbors LW_SHARED (is_entryPoint s)) s)"
| get_latest: "is_pc s p = GetLatestEntryPoint \<Longrightarrow> insert_step elemSize p s (ins_goto p (FindNeighbors LW_EXCLUSIVE (is_entryPoint s)) s)"
| find_neighbors: "is_pc s p = FindNeighbors mode e \<Longrightarrow> insert_step elemSize p s (ins_goto p (UpdateGraph mode e) s)"
| duplicate: "\<lbrakk>is_pc s p = UpdateGraph mode e; e \<noteq> None; is_rows s p = level # rows\<rbrakk> \<Longrightarrow>
    insert_step elemSize p s (ins_goto p (ReleaseEntry mode) (s\<lparr>is_rows := (is_rows s)(p := rows), is_dups := add_mset level (is_dups s)\<rparr>))"
| update_graph: "\<lbrakk>is_pc s p = UpdateGraph mode e; is_rows s p = level # rows\<rbrakk> \<Longrightarrow>
    insert_step elemSize p s (ins_goto p (ReleaseEntry mode) (s\<lparr>is_rows := (is_rows s)(p := rows), is_graph := add_mset level (is_graph s),
      is_entryPoint := (if above level e then Some level else is_entryPoint s)\<rparr>))"

code_pred (modes: i \<Rightarrow> i \<Rightarrow> i \<Rightarrow> o \<Rightarrow> bool) insert_step .

definition ins_start :: "nat \<Rightarrow> (nat \<Rightarrow> nat list) \<Rightarrow> ins_state" where
  "ins_start memoryTotal rows = \<lparr>is_locks = (\<lambda>_. \<lparr>lw_exclusive = False, lw_shared = 0\<rparr>), is_pc = (\<lambda>_. NextRow), is_rows = rows, is_flushed = False, is_flushes = 0,
     is_memoryUsed = 0, is_memoryTotal = memoryTotal, is_entryPoint = None, is_graph = {#}, is_dups = {#}, is_disk = {#}\<rparr>"

inductive ins_run :: "(nat \<Rightarrow> nat) \<Rightarrow> nat \<Rightarrow> ins_state \<Rightarrow> nat \<Rightarrow> ins_state \<Rightarrow> bool" for elemSize N s0 where
  start: "ins_run elemSize N s0 0 s0"
| step: "ins_run elemSize N s0 n s \<Longrightarrow> p < N \<Longrightarrow> insert_step elemSize p s s' \<Longrightarrow> ins_run elemSize N s0 (Suc n) s'"

section \<open>What a process holds\<close>

fun held_flush :: "ins_pc \<Rightarrow> LWLockMode option" where
  "held_flush NextRow = None" | "held_flush AcquireFlush = None" | "held_flush InsertOnDisk = None" | "held_flush AcquireFlushExclusive = None"
| "held_flush TestFlushedAgain = Some LW_EXCLUSIVE" | "held_flush CallFlushPages = Some LW_EXCLUSIVE" | "held_flush ReleaseFlushExclusive = Some LW_EXCLUSIVE"
| "held_flush _ = Some LW_SHARED"

fun held_allocator :: "ins_pc \<Rightarrow> LWLockMode option" where
  "held_allocator TestMemory = Some LW_EXCLUSIVE" | "held_allocator ReleaseAllocatorFull = Some LW_EXCLUSIVE"
| "held_allocator InitElement = Some LW_EXCLUSIVE" | "held_allocator ReleaseAllocator = Some LW_EXCLUSIVE"
| "held_allocator _ = None"

fun held_wait :: "ins_pc \<Rightarrow> LWLockMode option" where
  "held_wait ReleaseWait = Some LW_EXCLUSIVE" | "held_wait AcquireEntryExclusive = Some LW_EXCLUSIVE" | "held_wait ReleaseWaitAgain = Some LW_EXCLUSIVE"
| "held_wait _ = None"

fun held_entry :: "ins_pc \<Rightarrow> LWLockMode option" where
  "held_entry GetEntryPoint = Some LW_SHARED" | "held_entry ReleaseEntryShared = Some LW_SHARED"
| "held_entry ReleaseWaitAgain = Some LW_EXCLUSIVE" | "held_entry GetLatestEntryPoint = Some LW_EXCLUSIVE"
| "held_entry (FindNeighbors mode _) = Some mode" | "held_entry (UpdateGraph mode _) = Some mode" | "held_entry (ReleaseEntry mode) = Some mode"
| "held_entry _ = None"

fun held :: "ins_pc \<Rightarrow> graph_lock \<Rightarrow> LWLockMode option" where
  "held c flushLock = held_flush c" | "held c allocatorLock = held_allocator c" | "held c entryWaitLock = held_wait c" | "held c entryLock = held_entry c"

text \<open>The process inserts in memory, having seen that the graph is not flushed.\<close>

fun in_memory :: "ins_pc \<Rightarrow> bool" where
  "in_memory TestFlushed = False" | "in_memory ReleaseFlushOnDisk = False" | "in_memory c \<longleftrightarrow> held_flush c = Some LW_SHARED"

text \<open>The process is done with its row.\<close>

fun between :: "ins_pc \<Rightarrow> bool" where
  "between NextRow = True" | "between (ReleaseEntry _) = True" | "between ReleaseFlush = True" | "between _ = False"

lemma held_eqI:
  "held_flush c = held_flush d \<Longrightarrow> held_allocator c = held_allocator d \<Longrightarrow> held_wait c = held_wait d \<Longrightarrow> held_entry c = held_entry d \<Longrightarrow> held c = held d"
  by (rule ext, case_tac x) simp_all

lemma held_acquires: "acquires c = Some (k, mode, c') \<Longrightarrow> held c k = None \<and> held c' = (held c)(k := Some mode)"
  by (cases c; auto intro!: ext split: graph_lock.splits) (case_tac [!] x; simp)+

lemma held_releases: "releases c = Some (k, mode, c') \<Longrightarrow> held c k = Some mode \<and> held c' = (held c)(k := None)"
  by (cases c; auto intro!: ext) (case_tac [!] x; simp)+

lemma lock_move:
  assumes "acquires c = Some (k, mode, c') \<or> releases c = Some (k, mode, c')"
  shows "in_memory c' \<Longrightarrow> in_memory c" "between c \<Longrightarrow> between c'" "c' \<noteq> InitElement" "c' \<noteq> CallFlushPages" "c' \<noteq> FindNeighbors m e" "c' \<noteq> UpdateGraph m e"
  using assms by (cases c; auto)+

lemma in_memory_held: "in_memory c \<Longrightarrow> held c flushLock = Some LW_SHARED"
  by (cases c) simp_all

section \<open>Invariants\<close>

definition locks_ok :: "nat \<Rightarrow> ins_state \<Rightarrow> bool" where
  "locks_ok N s \<longleftrightarrow> (\<forall>k. lock_ok N (\<lambda>p. held (is_pc s p) k) (is_locks s k))"

lemma alone:
  "locks_ok N s \<Longrightarrow> p < N \<Longrightarrow> held (is_pc s p) k = Some LW_EXCLUSIVE \<Longrightarrow> q < N \<Longrightarrow> q \<noteq> p \<Longrightarrow> held (is_pc s q) k = None"
  using lock_ok_exclusive [of N "\<lambda>p. held (is_pc s p) k"] unfolding locks_ok_def by blast

lemma locks_ok_same:
  assumes "locks_ok N s" and "is_locks s' = is_locks s" and "is_pc s' = (is_pc s)(p := c)" and "held c = held (is_pc s p)"
  shows "locks_ok N s'"
proof -
  have "(\<lambda>q. held (is_pc s' q) k) = (\<lambda>q. held (is_pc s q) k)" for k using assms(3,4) by auto
  then show ?thesis using assms(1) by (simp add: locks_ok_def assms(2))
qed

lemma locks_ok_move:
  assumes "locks_ok N s" and "is_locks s' = (is_locks s)(k := l)" and "is_pc s' = (is_pc s)(p := c)" and "held c = (held (is_pc s p))(k := x)"
    and "lock_ok N ((\<lambda>q. held (is_pc s q) k)(p := x)) l"
  shows "locks_ok N s'"
  unfolding locks_ok_def
proof
  fix k'
  have h: "(\<lambda>q. held (is_pc s' q) k') = (if k' = k then (\<lambda>q. held (is_pc s q) k)(p := x) else (\<lambda>q. held (is_pc s q) k'))" using assms(3,4) by auto
  show "lock_ok N (\<lambda>q. held (is_pc s' q) k') (is_locks s' k')" unfolding h using assms(1,2,5) by (simp add: locks_ok_def)
qed

lemma locks_ok_step:
  assumes "insert_step elemSize p s s'" and "p < N" and "locks_ok N s"
  shows "locks_ok N s'"
proof -
  have ok: "lock_ok N (\<lambda>q. held (is_pc s q) k) (is_locks s k)" for k using assms(3) by (simp add: locks_ok_def)
  show ?thesis
    using assms(1)
  proof cases
    case (acquire k mode c l)
    have h: "held (is_pc s p) k = None" "held c = (held (is_pc s p))(k := Some mode)" using held_acquires [OF acquire(2)] by simp_all
    show ?thesis by (rule locks_ok_move [OF assms(3) _ _ h(2) lock_ok_acquire [OF ok assms(2) h(1) acquire(3)]]) (simp_all add: acquire(1))
  next
    case (release k mode c)
    have h: "held (is_pc s p) k = Some mode" "held c = (held (is_pc s p))(k := None)" using held_releases [OF release(2)] by simp_all
    show ?thesis by (rule locks_ok_move [OF assms(3) _ _ h(2) lock_ok_release [OF ok assms(2) h(1)]]) (simp_all add: release(1))
  qed (rule locks_ok_same [OF assms(3)], simp, simp, rule held_eqI, (simp; fail)+)+
qed

text \<open>The graph: its entry point is of the highest level, and a process that has read the entry point still sees the current one; whoever may store it holds
  the lock exclusively.\<close>

definition entry_ok :: "nat \<Rightarrow> ins_state \<Rightarrow> bool" where
  "entry_ok N s \<longleftrightarrow> is_entryPoint s = (if is_graph s = {#} then None else Some (Max_mset (is_graph s))) \<and>
     (\<forall>p<N. \<forall>mode e. is_pc s p = FindNeighbors mode e \<or> is_pc s p = UpdateGraph mode e \<longrightarrow>
        e = is_entryPoint s \<and> (mode = LW_SHARED \<longrightarrow> \<not> above (hd (is_rows s p)) e))"

text \<open>The flush happens once, while nobody inserts in memory; memory is not overdrawn by more than one element.\<close>

definition flush_ok :: "nat \<Rightarrow> ins_state \<Rightarrow> bool" where
  "flush_ok N s \<longleftrightarrow> is_flushes s = (if is_flushed s then 1 else 0) \<and>
     (\<forall>p<N. (is_flushed s \<longrightarrow> \<not> in_memory (is_pc s p) \<and> is_pc s p \<noteq> CallFlushPages) \<and> (is_pc s p = InitElement \<longrightarrow> is_memoryUsed s < is_memoryTotal s))"

definition rows_kept :: "nat \<Rightarrow> nat multiset \<Rightarrow> ins_state \<Rightarrow> bool" where
  "rows_kept N M s \<longleftrightarrow> is_graph s + is_dups s + is_disk s + (\<Sum>p<N. mset (is_rows s p)) = M \<and> (\<forall>p<N. is_rows s p = [] \<longrightarrow> between (is_pc s p))"

lemma rows_upd:
  assumes "p < (N::nat)" and "f p = a # as"
  shows "(\<Sum>q<N. mset (f q)) = add_mset a (\<Sum>q<N. mset ((f(p := as)) q))"
proof -
  have "(\<Sum>q<N. mset (f q)) = mset (f p) + (\<Sum>q\<in>{..<N} - {p}. mset (f q))" for f :: "nat \<Rightarrow> 'a list" using assms(1) by (simp add: sum.remove)
  moreover have "(\<Sum>q\<in>{..<N} - {p}. mset ((f(p := as)) q)) = (\<Sum>q\<in>{..<N} - {p}. mset (f q))" by (rule sum.cong) simp_all
  ultimately show ?thesis using assms(2) by (metis fun_upd_same mset.simps(2) union_mset_add_mset_left)
qed

lemma rows_kept_step:
  assumes "insert_step elemSize p s s'" and "p < N" and "rows_kept N M s"
  shows "rows_kept N M s'"
  using assms(1)
proof cases
  case (acquire k mode c l)
  then show ?thesis using assms(2,3) lock_move(2) [of "is_pc s p" k mode c] by (auto simp: rows_kept_def)
next
  case (release k mode c)
  then show ?thesis using assms(2,3) lock_move(2) [of "is_pc s p" k mode c] by (auto simp: rows_kept_def)
next
  case (on_disk level rows)
  then show ?thesis using assms(2,3) rows_upd [where f = "is_rows s", OF assms(2) on_disk(3)] by (auto simp: rows_kept_def)
next
  case (duplicate mode e level rows)
  then show ?thesis using assms(2,3) rows_upd [where f = "is_rows s", OF assms(2) duplicate(4)] by (auto simp: rows_kept_def)
next
  case (update_graph mode e level rows)
  then show ?thesis using assms(2,3) rows_upd [where f = "is_rows s", OF assms(2) update_graph(3)] by (auto simp: rows_kept_def)
qed (use assms(2,3) in \<open>auto simp: rows_kept_def\<close>)

lemma flush_ok_step:
  assumes "insert_step elemSize p s s'" and "p < N" and "locks_ok N s" and "flush_ok N s"
  shows "flush_ok N s'"
  using assms(1)
proof cases
  case (acquire k mode c l)
  then show ?thesis using assms(2,4) lock_move(1,3,4) [of "is_pc s p" k mode c] by (auto simp: flush_ok_def)
next
  case (release k mode c)
  then show ?thesis using assms(2,4) lock_move(1,3,4) [of "is_pc s p" k mode c] by (auto simp: flush_ok_def)
next
  case flush_pages
  have f: "\<not> is_flushed s" using assms(2,4) flush_pages(2) by (auto simp: flush_ok_def)
  have a: "held (is_pc s q) flushLock = None" if "q < N" "q \<noteq> p" for q using alone [OF assms(3,2) _ that, of flushLock] flush_pages(2) by simp
  have "\<not> in_memory (is_pc s q) \<and> is_pc s q \<noteq> CallFlushPages" if "q < N" "q \<noteq> p" for q using a [OF that] in_memory_held [of "is_pc s q"] by auto
  then show ?thesis using assms(4) f flush_pages by (auto simp: flush_ok_def)
next
  case (init_element level rows)
  have "is_pc s q \<noteq> InitElement" if "q < N" "q \<noteq> p" for q using alone [OF assms(3,2) _ that, of allocatorLock] init_element(2) by auto
  then show ?thesis using assms(2,4) init_element by (auto simp: flush_ok_def)
qed (use assms(2,4) in \<open>auto simp: flush_ok_def split: if_splits\<close>)

lemma entry_ok_step:
  assumes "insert_step elemSize p s s'" and "p < N" and "locks_ok N s" and "entry_ok N s"
  shows "entry_ok N s'"
  using assms(1)
proof cases
  case (acquire k mode c l)
  then show ?thesis using assms(2,4) lock_move(5,6) [of "is_pc s p" k mode c] by (auto simp: entry_ok_def)
next
  case (release k mode c)
  then show ?thesis using assms(2,4) lock_move(5,6) [of "is_pc s p" k mode c] by (auto simp: entry_ok_def)
next
  case (update_graph mode e level rows)
  have e: "is_entryPoint s = (if is_graph s = {#} then None else Some (Max_mset (is_graph s)))" "e = is_entryPoint s" "mode = LW_SHARED \<Longrightarrow> \<not> above level e"
    using assms(2,4) update_graph(2,3) by (auto simp: entry_ok_def)
  have m: "(if above level e then Some level else is_entryPoint s) = Some (Max_mset (add_mset level (is_graph s)))"
  proof (cases "is_graph s = {#}")
    case False
    define M where "M = Max_mset (is_graph s)"
    have "Max_mset (add_mset level (is_graph s)) = max level M" using False by (simp add: M_def)
    moreover have "e = Some M" "is_entryPoint s = Some M" using e(1,2) False by (simp_all add: M_def)
    ultimately show ?thesis by (simp add: above_def max_def)
  qed (use e in \<open>simp add: above_def\<close>)
  show ?thesis
  proof (cases mode)
    case LW_SHARED
    then show ?thesis using assms(2,4) update_graph e(3) m by (auto simp: entry_ok_def)
  next
    case LW_EXCLUSIVE
    then have "is_pc s q \<noteq> FindNeighbors mode' e' \<and> is_pc s q \<noteq> UpdateGraph mode' e'" if "q < N" "q \<noteq> p" for q mode' e'
      using alone [OF assms(3,2) _ that, of entryLock] update_graph(2) by auto
    then show ?thesis using m update_graph(1) by (auto simp: entry_ok_def)
  qed
qed (use assms(2,4) in \<open>auto simp: entry_ok_def split: if_splits\<close>)

definition ins_inv :: "nat \<Rightarrow> nat multiset \<Rightarrow> ins_state \<Rightarrow> bool" where
  "ins_inv N M s \<longleftrightarrow> locks_ok N s \<and> entry_ok N s \<and> flush_ok N s \<and> rows_kept N M s"

lemma ins_inv_step: "insert_step elemSize p s s' \<Longrightarrow> p < N \<Longrightarrow> ins_inv N M s \<Longrightarrow> ins_inv N M s'"
  unfolding ins_inv_def by (elim conjE, intro conjI) (erule (2) locks_ok_step, erule (3) entry_ok_step, erule (3) flush_ok_step, erule (2) rows_kept_step)

definition all_rows :: "nat \<Rightarrow> (nat \<Rightarrow> nat list) \<Rightarrow> nat multiset" where
  "all_rows N rows = (\<Sum>p<N. mset (rows p))"

lemma ins_inv_run: "ins_run elemSize N (ins_start memoryTotal rows) n s \<Longrightarrow> ins_inv N (all_rows N rows) s"
proof (induction rule: ins_run.induct)
  case start
  then show ?case
    by (auto simp: ins_inv_def locks_ok_def lock_ok_def entry_ok_def flush_ok_def rows_kept_def ins_start_def all_rows_def) (case_tac k; simp)+
qed (use ins_inv_step in blast)

section \<open>Progress\<close>

text \<open>The locks are ordered: whoever waits for one holds only earlier ones.\<close>

fun lock_rank :: "graph_lock \<Rightarrow> nat" where
  "lock_rank flushLock = 0" | "lock_rank allocatorLock = 1" | "lock_rank entryWaitLock = 2" | "lock_rank entryLock = 3"

lemma acquires_rank: "acquires c = Some (k, mode, c') \<Longrightarrow> held c k' \<noteq> None \<Longrightarrow> lock_rank k' < lock_rank k"
  by (cases c; cases k'; auto)

text \<open>A process that neither waits for a lock nor is done can go on.\<close>

lemma runs:
  assumes "rows_kept N M s" and "p < N" and "acquires (is_pc s p) = None" and "is_pc s p \<noteq> NextRow \<or> is_rows s p \<noteq> []"
  shows "\<exists>s'. insert_step elemSize p s s'"
proof -
  have "between (is_pc s p) \<or> (\<exists>level rows. is_rows s p = level # rows)" using assms(1,2) by (cases "is_rows s p") (auto simp: rows_kept_def)
  moreover have "\<exists>s'. insert_step elemSize p s s'" if "releases (is_pc s p) = Some x" for x using that insert_step.release by (cases x) blast
  ultimately show ?thesis using assms(3,4) by (cases "is_pc s p") (auto intro: insert_step.intros)
qed

lemma ins_progress:
  assumes i: "ins_inv N M s" and p: "p < N" "is_pc s p \<noteq> NextRow \<or> is_rows s p \<noteq> []"
  shows "\<exists>q s'. q < N \<and> insert_step elemSize q s s'"
proof (rule ccontr)
  assume stuck: "\<not> ?thesis"
  have k: "locks_ok N s" "rows_kept N M s" using i by (simp_all add: ins_inv_def)
  have w: "acquires (is_pc s q) \<noteq> None \<or> is_pc s q = NextRow" if "q < N" for q using runs [OF k(2) that] stuck that by blast
  have nobody: "acquires (is_pc s q) = None" if "q < N" for q
  proof -
    have "acquires (is_pc s q) \<noteq> None \<Longrightarrow> False" if "q < N" for q
      using that
    proof (induction "3 - lock_rank (fst (the (acquires (is_pc s q))))" arbitrary: q rule: less_induct)
      case less
      obtain l mode c where a: "acquires (is_pc s q) = Some (l, mode, c)" using less.prems by auto
      have "held (is_pc s r) l = None" if r: "r < N" for r
      proof (rule ccontr)
        assume h: "held (is_pc s r) l \<noteq> None"
        then have "is_pc s r \<noteq> NextRow" by (cases l) auto
        then obtain l' mode' c' where b: "acquires (is_pc s r) = Some (l', mode', c')" using w [OF r] by auto
        have "lock_rank l < lock_rank l'" "lock_rank l' \<le> 3" using acquires_rank [OF b h] by (simp, cases l') simp_all
        then have "3 - lock_rank l' < 3 - lock_rank l" by linarith
        then show False using less.hyps [of r] a b r by simp
      qed
      then obtain x where "LWLockAttemptLock (is_locks s l) mode = Some x" using lock_ok_free [of N "\<lambda>r. held (is_pc s r) l" "is_locks s l" mode] k(1) unfolding locks_ok_def by blast
      then show False using insert_step.acquire [OF a] stuck less.prems(2) by blast
    qed
    then show ?thesis using that by blast
  qed
  then show False using runs [OF k(2) p(1) _ p(2)] p(1) stuck by blast
qed

text \<open>A row takes at most thirty steps.\<close>

fun ins_rank :: "ins_pc \<Rightarrow> nat" where
  "ins_rank (ReleaseEntry _) = 31" | "ins_rank ReleaseFlush = 30" | "ins_rank NextRow = 29" | "ins_rank AcquireFlush = 28" | "ins_rank TestFlushed = 27"
| "ins_rank ReleaseFlushOnDisk = 26" | "ins_rank AcquireAllocator = 26" | "ins_rank TestMemory = 25" | "ins_rank ReleaseAllocatorFull = 24"
| "ins_rank ReleaseFlushFull = 23" | "ins_rank AcquireFlushExclusive = 22" | "ins_rank TestFlushedAgain = 21" | "ins_rank CallFlushPages = 20"
| "ins_rank ReleaseFlushExclusive = 19" | "ins_rank InsertOnDisk = 18" | "ins_rank InitElement = 24" | "ins_rank ReleaseAllocator = 23"
| "ins_rank AcquireWait = 22" | "ins_rank ReleaseWait = 21" | "ins_rank AcquireEntry = 20" | "ins_rank GetEntryPoint = 19" | "ins_rank ReleaseEntryShared = 18"
| "ins_rank AcquireWaitAgain = 17" | "ins_rank AcquireEntryExclusive = 16" | "ins_rank ReleaseWaitAgain = 15" | "ins_rank GetLatestEntryPoint = 14"
| "ins_rank (FindNeighbors _ _) = 13" | "ins_rank (UpdateGraph _ _) = 12"

definition work :: "ins_state \<Rightarrow> nat \<Rightarrow> nat" where
  "work s p = 30 * length (is_rows s p) + ins_rank (is_pc s p)"

lemma rank_move: "acquires c = Some (k, mode, c') \<or> releases c = Some (k, mode, c') \<Longrightarrow> ins_rank c' < ins_rank c"
  by (cases c) auto

lemma work_step: "insert_step elemSize p s s' \<Longrightarrow> work s' p < work s p \<and> (\<forall>q. q \<noteq> p \<longrightarrow> work s' q = work s q)"
  by (erule insert_step.cases) (auto simp: work_def intro: rank_move)

lemma ins_run_bound: "ins_run elemSize N s0 n s \<Longrightarrow> n + (\<Sum>p<N. work s p) \<le> (\<Sum>p<N. work s0 p)"
proof (induction rule: ins_run.induct)
  case (step n s p s')
  have w: "work s' p < work s p" "\<And>q. q \<noteq> p \<Longrightarrow> work s' q = work s q" using work_step [OF step.hyps(3)] by simp_all
  have "(\<Sum>q<N. work s' q) < (\<Sum>q<N. work s q)"
  proof (rule sum_strict_mono_ex1)
    show "\<forall>q\<in>{..<N}. work s' q \<le> work s q" using w by (metis less_imp_le order_refl)
    show "\<exists>q\<in>{..<N}. work s' q < work s q" using w(1) step.hyps(2) by blast
  qed simp
  then show ?case using step.IH by simp
qed simp

definition finished :: "nat \<Rightarrow> ins_state \<Rightarrow> bool" where
  "finished N s \<longleftrightarrow> (\<forall>p<N. is_pc s p = NextRow \<and> is_rows s p = [])"

lemma ins_complete: "\<exists>n s. ins_run elemSize N (ins_start memoryTotal rows) n s \<and> finished N s"
proof -
  have "\<exists>n' s'. ins_run elemSize N (ins_start memoryTotal rows) n' s' \<and> finished N s'" if "ins_run elemSize N (ins_start memoryTotal rows) n s" for n s
    using that
  proof (induction "\<Sum>p<N. work s p" arbitrary: n s rule: less_induct)
    case less
    show ?case
    proof (cases "finished N s")
      case False
      then obtain p where p: "p < N" "is_pc s p \<noteq> NextRow \<or> is_rows s p \<noteq> []" by (auto simp: finished_def)
      obtain q s' where q: "q < N" "insert_step elemSize q s s'" using ins_progress [OF ins_inv_run [OF less.prems] p] by blast
      have "ins_run elemSize N s (Suc 0) s'" using ins_run.step [OF ins_run.start q] .
      then have "(\<Sum>p<N. work s' p) < (\<Sum>p<N. work s p)" using ins_run_bound [of elemSize N s "Suc 0" s'] by simp
      then show ?thesis using less.hyps ins_run.step [OF less.prems q] by blast
    qed (use less.prems in blast)
  qed
  then show ?thesis using ins_run.start by blast
qed

section \<open>Properties\<close>

text \<open>C7: under every interleaving of any number of processes the locks of an insertion do what they are for.  \<open>FlushPages\<close> runs at most once, while no process
  inserts in memory, and no process inserts in memory after it; elements are allocated one at a time and only below the limit; a process that stores a new entry point
  is the only one that works with the entry point, so that the entry point is always of the highest level in the graph; and every row that has been taken is in the
  graph, a duplicate or on disk, exactly once.\<close>

theorem insert_locks:
  assumes "ins_run elemSize N (ins_start memoryTotal rows) n s"
  shows "is_flushes s \<le> 1 \<and> (\<forall>p q. p < N \<and> q < N \<and> q \<noteq> p \<and> is_pc s p = CallFlushPages \<longrightarrow> \<not> in_memory (is_pc s q)) \<and>
    (\<forall>p. p < N \<and> is_flushed s \<longrightarrow> \<not> in_memory (is_pc s p)) \<and>
    (\<forall>p. p < N \<and> is_pc s p = InitElement \<longrightarrow> is_memoryUsed s < is_memoryTotal s \<and> (\<forall>q. q < N \<and> q \<noteq> p \<longrightarrow> is_pc s q \<noteq> InitElement)) \<and>
    (\<forall>p q mode e. p < N \<and> q < N \<and> q \<noteq> p \<and> is_pc s p = UpdateGraph mode e \<and> above (hd (is_rows s p)) e \<longrightarrow> held (is_pc s q) entryLock = None) \<and>
    is_entryPoint s = (if is_graph s = {#} then None else Some (Max_mset (is_graph s))) \<and>
    is_graph s + is_dups s + is_disk s + all_rows N (is_rows s) = all_rows N rows"
proof -
  have i: "locks_ok N s" "entry_ok N s" "flush_ok N s" "rows_kept N (all_rows N rows) s" using ins_inv_run [OF assms] by (simp_all add: ins_inv_def)
  have "is_flushes s \<le> 1" using i(3) by (simp add: flush_ok_def)
  moreover have "\<not> in_memory (is_pc s q)" if "p < N" "q < N" "q \<noteq> p" "is_pc s p = CallFlushPages" for p q
    using alone [OF i(1) that(1) _ that(2,3), of flushLock] that(4) in_memory_held [of "is_pc s q"] by auto
  moreover have "\<not> in_memory (is_pc s p)" if "p < N" "is_flushed s" for p using i(3) that by (simp add: flush_ok_def)
  moreover have "is_memoryUsed s < is_memoryTotal s \<and> (\<forall>q. q < N \<and> q \<noteq> p \<longrightarrow> is_pc s q \<noteq> InitElement)" if "p < N" "is_pc s p = InitElement" for p
    using i(3) that alone [OF i(1) that(1), of allocatorLock] by (fastforce simp: flush_ok_def)
  moreover have "held (is_pc s q) entryLock = None" if "p < N" "q < N" "q \<noteq> p" "is_pc s p = UpdateGraph mode e" "above (hd (is_rows s p)) e" for p q mode e
  proof -
    have "mode = LW_EXCLUSIVE" using i(2) that(1,4,5) by (cases mode) (auto simp: entry_ok_def)
    then show ?thesis using alone [OF i(1) that(1) _ that(2,3), of entryLock] that(4) by simp
  qed
  moreover have "is_entryPoint s = (if is_graph s = {#} then None else Some (Max_mset (is_graph s)))" using i(2) by (simp add: entry_ok_def)
  moreover have "is_graph s + is_dups s + is_disk s + all_rows N (is_rows s) = all_rows N rows" using i(4) by (simp add: rows_kept_def all_rows_def)
  ultimately show ?thesis by blast
qed

theorem insert_locks_witness:
  "\<exists>n s. ins_run (\<lambda>_. 1) 2 (ins_start 1 (\<lambda>p. [p, 0])) n s \<and> finished 2 s \<and> is_flushes s \<le> 1 \<and> is_graph s + is_dups s + is_disk s = {#0, 0, 1, 0#}"
proof -
  obtain n s where r: "ins_run (\<lambda>_. 1) 2 (ins_start 1 (\<lambda>p. [p, 0])) n s" "finished 2 s" using ins_complete by blast
  have "all_rows 2 (is_rows s) = {#}" "all_rows 2 (\<lambda>p. [p, 0]) = {#0, 0, 1, 0#}" using r(2) by (simp_all add: all_rows_def finished_def eval_nat_numeral)
  then show ?thesis using insert_locks [OF r(1)] r by auto
qed

text \<open>C8: insertions do not deadlock or run forever: a run takes at most thirty steps for a row, and one that cannot be continued has inserted all rows.  The locks
  are taken in one order (flush, allocator, entry wait, entry), so that a process that waits is never waited for by those that hold its lock.\<close>

theorem insert_locks_progress:
  assumes "ins_run elemSize N (ins_start memoryTotal rows) n s"
  shows "n \<le> 30 * (\<Sum>p<N. length (rows p)) + 29 * N \<and> ((\<nexists>p s'. p < N \<and> insert_step elemSize p s s') \<longrightarrow> finished N s)"
proof
  have "(\<Sum>p<N. work (ins_start memoryTotal rows) p) = 30 * (\<Sum>p<N. length (rows p)) + 29 * N" by (simp add: work_def ins_start_def sum.distrib sum_distrib_left)
  then show "n \<le> 30 * (\<Sum>p<N. length (rows p)) + 29 * N" using ins_run_bound [OF assms] by simp
  show "(\<nexists>p s'. p < N \<and> insert_step elemSize p s s') \<longrightarrow> finished N s" using ins_progress [OF ins_inv_run [OF assms]] unfolding finished_def by blast
qed

theorem insert_locks_progress_witness:
  "\<exists>n s. ins_run (\<lambda>_. 1) 2 (ins_start 1 (\<lambda>p. [p, 0])) n s \<and> finished 2 s \<and> n \<le> 178"
proof -
  obtain n s where r: "ins_run (\<lambda>_. 1) 2 (ins_start 1 (\<lambda>p. [p, 0])) n s" "finished 2 s" using ins_complete by blast
  have "(\<Sum>p<2. length [p, 0::nat]) = 4" by (simp add: eval_nat_numeral)
  then show ?thesis using insert_locks_progress [OF r(1)] r by auto
qed

end
