(* ===== verification/HnswLifecycle.thy ===== *)
theory HnswLifecycle
  imports HnswBuilt HnswVacuumed
begin

text \<open>
  The life of an index, across components: it is built from a table, grows by insertions, is scanned and is vacuumed.  What a scan
  returns and what a VACUUM leaves are stated in terms of the rows of the table.
\<close>

section \<open>Insertion\<close>

text \<open>One row is inserted into an index.\<close>

definition insert_row :: "HnswTypeInfo \<Rightarrow> HnswSupport \<Rightarrow> heap_row \<Rightarrow> Relation \<Rightarrow> Relation result" where
  "insert_row ti support row index = (case row of (tid, val, randomLevel) \<Rightarrow> hnswinsert index ti support val tid randomLevel)"

lemma insert_row_disk:
  assumes ok: "disk_ok m dim r" and d: "dist_ok support dim" and len: "Suc (length (rel_blocks r)) < InvalidBlockNumber" and row: "row_ok ti support dim row"
  shows "\<exists>r'. insert_row ti support row r = Inr r' \<and> disk_ok m dim r' \<and> index_entries r' = index_entries r + mset (row_entry ti support row) \<and>
    length (rel_blocks r') \<le> length (rel_blocks r) + 2"
proof -
  obtain tid val rl where r: "row = (tid, val, rl)" by (cases row)
  show ?thesis
  proof (cases val)
    case None
    then show ?thesis using ok r by (simp add: insert_row_def hnswinsert_def)
  next
    case (Some v)
    obtain x where x: "HnswFormIndexValue ti support v = Inr x" using row r Some by (auto simp: row_ok_def split: sum.splits)
    show ?thesis
    proof (cases x)
      case None
      then show ?thesis using ok r Some x by (simp add: insert_row_def hnswinsert_def HnswInsertTuple_def)
    next
      case w: (Some w)
      have "vec_wf w" "v_dim w = dim" "ItemPointerIsValid tid" using row r Some x w by (simp_all add: row_ok_def)
      then show ?thesis using insert_tuple_disk [OF ok d len, of w tid rl] r Some x w by (auto simp: insert_row_def hnswinsert_def HnswInsertTuple_def)
    qed
  qed
qed

definition insert_sink :: "nat \<Rightarrow> int \<Rightarrow> HnswSupport \<Rightarrow> nat \<Rightarrow> (ItemPointerData \<times> Vector) multiset \<Rightarrow> Relation \<Rightarrow> bool" where
  "insert_sink m dim support k E r \<longleftrightarrow> dist_ok support dim \<and> disk_ok m dim r \<and> index_entries r = E \<and> length (rel_blocks r) \<le> 2 + 2 * k"

interpretation inserting: row_sink "insert_row ti support" "row_ok ti support dim" "row_entry ti support" "insert_sink m dim support" max_rows
  for ti support dim m
proof
  fix k E r row
  assume s: "insert_sink m dim support k E r" and row: "row_ok ti support dim row" and k: "k < max_rows"
  have len: "Suc (length (rel_blocks r)) < InvalidBlockNumber" using k s by (simp add: insert_sink_def max_rows_def InvalidBlockNumber_def)
  have d: "disk_ok m dim r" "dist_ok support dim" using s by (simp_all add: insert_sink_def)
  from insert_row_disk [OF d len row] obtain r' where "insert_row ti support row r = Inr r'" "disk_ok m dim r'"
      "index_entries r' = index_entries r + mset (row_entry ti support row)" "length (rel_blocks r') \<le> length (rel_blocks r) + 2" by blast
  then show "\<exists>r'. insert_row ti support row r = Inr r' \<and> insert_sink m dim support (Suc k) (E + mset (row_entry ti support row)) r'"
    using s by (auto simp: insert_sink_def simp del: row_entries.simps)
qed

text \<open>C3: insertion into an index on disk is correct: on a well-formed index \<open>hnswinsert\<close> of an acceptable row returns, keeps the index
  well-formed and adds exactly the entry of the row (nothing for a NULL or skipped value); no other entry is lost, changed or added,
  wherever the element is placed, whether it joins a duplicate, replaces a deleted element or displaces neighbours.\<close>

theorem insert_on_disk:
  assumes "disk_ok m dim r" and "dist_ok support dim" and "Suc (length (rel_blocks r)) < InvalidBlockNumber" and "row_ok ti support dim (tid, val, randomLevel)"
  shows "\<exists>r'. hnswinsert r ti support val tid randomLevel = Inr r' \<and> disk_ok m dim r' \<and>
    index_entries r' = index_entries r + mset (row_entries ti support [(tid, val, randomLevel)])"
  using insert_row_disk [OF assms] unfolding insert_row_def prod.case by blast

theorem insert_on_disk_witness:
  "\<exists>r0 st r. hnswbuild (\<lambda>es. 1000 * length es) 64 (pair_rows, 3) \<lparr>rel_options = None, rel_blocks = []\<rparr> (HnswGetTypeInfo None) l2_support False 1 = Inr (r0, st) \<and>
     hnswinsert r0 (HnswGetTypeInfo None) l2_support (Some one_vec) (ItemPointerSet 9 1) 2 = Inr r \<and>
     index_entries r = {#(ItemPointerSet 7 2, one_vec), (ItemPointerSet 7 4, one_vec), (ItemPointerSet 9 1, one_vec)#}"
proof -
  obtain r0 st where b: "hnswbuild (\<lambda>es. 1000 * length es) 64 (pair_rows, 3) \<lparr>rel_options = None, rel_blocks = []\<rparr> (HnswGetTypeInfo None) l2_support False 1 = Inr (r0, st)"
      "disk_ok 16 1 r0" "index_entries r0 = {#(ItemPointerSet 7 2, one_vec), (ItemPointerSet 7 4, one_vec)#}" "length (rel_blocks r0) \<le> 8"
    using hnswbuild_disk [OF pair_build_args, of "\<lambda>es. 1000 * length es" 64 3] unfolding pair_rows_ok default_options by auto
  have l: "Suc (length (rel_blocks r0)) < InvalidBlockNumber" using b(4) by (simp add: InvalidBlockNumber_def)
  have o: "row_ok (HnswGetTypeInfo None) l2_support 1 (ItemPointerSet 9 1, Some one_vec, 2)" 
    "row_entries (HnswGetTypeInfo None) l2_support [(ItemPointerSet 9 1, Some one_vec, 2)] = [(ItemPointerSet 9 1, one_vec)]"
    using one_vec_wf by (simp_all add: row_ok_def HnswFormIndexValue_def HnswGetTypeInfo_def l2_support_def)
  then obtain r where "hnswinsert r0 (HnswGetTypeInfo None) l2_support (Some one_vec) (ItemPointerSet 9 1) 2 = Inr r"
      "index_entries r = index_entries r0 + {#(ItemPointerSet 9 1, one_vec)#}" using insert_on_disk [OF b(2) dist_ok_l2 l o(1)] unfolding o(2) by auto
  then show ?thesis using b(1,3) by auto
qed

section \<open>Scanning\<close>

definition value_closer :: "Vector \<Rightarrow> HnswSupport \<Rightarrow> Vector \<Rightarrow> Vector \<Rightarrow> bool" where
  "value_closer q support a b = (case (HnswGetDistance q a support, HnswGetDistance q b support) of (Inr da, Inr db) \<Rightarrow> \<not> f8_lt db da | _ \<Rightarrow> False)"

text \<open>The entries that elements contribute to a scan.\<close>

definition elem_out :: "Relation \<Rightarrow> ItemPointerData \<Rightarrow> (ItemPointerData \<times> Vector) list" where
  "elem_out r u = map (\<lambda>t. (t, et_data (elem_at r u))) (disk_tids r u)"

lemma elem_out_tids: "map fst (concat (map (elem_out r) us)) = concat (map (disk_tids r) us)"
  by (induction us) (simp_all add: elem_out_def comp_def)

lemma elem_out_mset: "u \<in> elem_tids r \<Longrightarrow> mset (elem_out r u) = tup_entries (elem_at r u)"
  by (auto simp: elem_tids_def elem_out_def disk_tids_def tup_entries_def elem_at_def tid_tuple_at [THEN iffD2])

lemma scan_out_subset:
  assumes "distinct us" "set us \<subseteq> elem_tids r"
  shows "mset (concat (map (elem_out r) us)) \<subseteq># index_entries r"
proof -
  have "mset (concat (map (elem_out r) us)) = (\<Sum>u\<in>set us. mset (elem_out r u))"
    using assms(1) by (simp add: mset_concat comp_def sum_list_distinct_conv_sum_set [symmetric])
  also have "\<dots> = (\<Sum>u\<in>set us. tup_entries (elem_at r u))" using assms(2) by (intro sum.cong) (auto simp: elem_out_mset)
  also have "\<dots> \<subseteq># index_entries r" unfolding index_entries_def using assms(2) finite_elem_tids
    by (metis mset_subset_eq_add_left sum.subset_diff union_commute)
  finally show ?thesis .
qed

lemma value_closer_refl:
  assumes "dist_ok support dim" "vec_wf q" "v_dim q = dim" "vec_wf v" "v_dim v = dim"
  shows "value_closer q support v v"
proof -
  obtain d where "sup_procinfo support q v = Inr d" "\<not> f8_isnan d" using assms unfolding dist_ok_def by blast
  then show ?thesis by (simp add: value_closer_def HnswGetDistance_def f8_lt_key)
qed

lemma tid_distance_value: "a \<in> elem_tids r \<Longrightarrow> tid_distance (Some q) support r a = HnswGetDistance q (et_data (elem_at r a)) support"
  by (auto simp: elem_tids_def tid_distance_def elem_at_def tid_tuple_at [THEN iffD2])

lemma tid_closer_value:
  assumes "a \<in> elem_tids r" "b \<in> elem_tids r"
  shows "tid_closer (Some q) support r a b = value_closer q support (et_data (elem_at r a)) (et_data (elem_at r b))"
  using tid_distance_value [OF assms(1)] tid_distance_value [OF assms(2)] by (simp add: tid_closer_def value_closer_def)

lemma sorted_out:
  assumes "sorted_wrt (\<lambda>a b. P (et_data (elem_at r a)) (et_data (elem_at r b))) us" "\<forall>u\<in>set us. P (et_data (elem_at r u)) (et_data (elem_at r u))"
  shows "sorted_wrt (\<lambda>a b. P (snd a) (snd b)) (concat (map (elem_out r) us))"
  using assms
proof (induction us)
  case (Cons u us)
  have "sorted_wrt (\<lambda>a b. P (snd a) (snd b)) (map (\<lambda>t. (t, v)) ts)" if "P v v" for v and ts :: "ItemPointerData list" using that by (induction ts) simp_all
  then have "sorted_wrt (\<lambda>a b. P (snd a) (snd b)) (elem_out r u)" using Cons.prems(2) by (simp add: elem_out_def)
  moreover have "\<forall>x\<in>set (elem_out r u). \<forall>y\<in>set (concat (map (elem_out r) us)). P (snd x) (snd y)" using Cons.prems(1) by (auto simp: elem_out_def)
  moreover have "sorted_wrt (\<lambda>a b. P (snd a) (snd b)) (concat (map (elem_out r) us))" using Cons by simp
  ultimately show ?case by (simp only: list.map concat.simps sorted_wrt_append)
qed simp

lemma live_element: "live_tid r lc u \<Longrightarrow> u \<in> elem_tids r"
  by (cases "tid_tuple r u") (auto simp: live_tid_def elem_tids_def tid_tuple_at)

lemma tuple_live:
  assumes "disk_ok m dim r" "u \<in> elem_tids r" "live_tid r 0 u"
  shows "vec_wf (et_data (elem_at r u)) \<and> v_dim (et_data (elem_at r u)) = dim \<and> disk_tids r u \<noteq> []"
proof -
  obtain et where et: "at_tid r u = Inr (ElementTup et)" using assms(2) by (auto simp: elem_tids_def)
  then have "et_deleted et = 0" "tuple_ok False m dim r et" using assms(1,3) by (auto simp: live_tid_def tid_tuple_at [THEN iffD2] disk_ok_def graph_ok_def)
  then show ?thesis using et by (simp add: tuple_ok_def elem_at_def disk_tids_def tid_tuple_at [THEN iffD2])
qed

text \<open>An index without an entry point has no entries.\<close>

lemma no_entry_point:
  assumes ok: "disk_ok m dim r" and mp: "read_meta r = Inr mp"
  shows "mp_entryBlkno mp = InvalidBlockNumber \<longleftrightarrow> index_entries r = {#}"
proof
  have en: "entry_ok_disk r mp" and g: "graph_ok False m dim r" using ok mp by (auto simp: disk_ok_def)
  show "index_entries r = {#}" if n: "mp_entryBlkno mp = InvalidBlockNumber"
  proof -
    have "tup_entries (elem_at r t) = {#}" if t: "t \<in> elem_tids r" for t
    proof -
      obtain et where et: "at_tid r t = Inr (ElementTup et)" using t by (auto simp: elem_tids_def)
      then have "et_deleted et \<noteq> 0" using en n unfolding entry_ok_disk_def by simp
      moreover have "tuple_ok False m dim r et" using g et unfolding graph_ok_def by blast
      ultimately show ?thesis using et by (simp add: tuple_ok_def tup_entries_def elem_at_def)
    qed
    then show ?thesis by (simp add: index_entries_def)
  qed
  show "mp_entryBlkno mp = InvalidBlockNumber" if e: "index_entries r = {#}"
  proof (rule ccontr)
    assume "mp_entryBlkno mp \<noteq> InvalidBlockNumber"
    then obtain et where et: "tup_at r (mp_entryBlkno mp) (mp_entryOffno mp) = Inr (ElementTup et)" "et_deleted et = 0" using en by (auto simp: entry_ok_disk_def)
    let ?t = "ItemPointerSet (mp_entryBlkno mp) (mp_entryOffno mp)"
    have "tuple_ok False m dim r et" using g et(1) unfolding graph_ok_def by blast
    then have "tup_entries (elem_at r ?t) \<noteq> {#}" using et by (simp add: tuple_ok_def tup_entries_def elem_at_eq)
    moreover have "?t \<in> elem_tids r" using et(1) by (auto simp: elem_tids_iff)
    ultimately show False using e sum.remove [OF finite_elem_tids, of ?t r "\<lambda>t. tup_entries (elem_at r t)"] by (simp add: index_entries_def)
  qed
qed

lemma scan_disk:
  assumes ok: "disk_ok m dim r" and d: "dist_ok support dim" and off: "hnsw_iterative_scan guc = HNSW_ITERATIVE_SCAN_OFF" and so: "sd_opaque scan0 = Some so" "so_support so = support" "sd_mvcc scan0"
    and q: "GetScanValue arg so = Inr (Some q)" "vec_wf q" "v_dim q = dim"
  shows "\<exists>scan out. hnswrescan (scan0\<lparr>sd_index := r\<rparr>) (Some arg) = Inr scan \<and> (\<forall>n>length out. \<exists>scan'. fetch_all guc mem n scan = Inr (map fst out, True, scan')) \<and>
    mset out \<subseteq># index_entries r \<and> (out = [] \<longleftrightarrow> index_entries r = {#}) \<and> sorted_wrt (\<lambda>a b. value_closer q support (snd a) (snd b)) out"
proof -
  let ?s = "scan0\<lparr>sd_index := r\<rparr>"
  obtain mp where mp: "read_meta r = Inr mp" using ok by (auto simp: disk_ok_def)
  obtain scan where s: "hnswrescan ?s (Some arg) = Inr scan" using so by (simp add: hnswrescan_def)
  have ix: "index_ok (Some q) (so_support so) (sd_index ?s)" "sd_opaque ?s = Some so" "sd_mvcc ?s" "read_meta (sd_index ?s) = Inr mp" "sd_index ?s = r"
    using disk_index_ok [OF ok d q(2,3)] so mp by simp_all
  from scan_off_result [OF off ix(2,3) s q(1) ix(4,1), of mem, unfolded ix(5) so(2)]
  obtain us where us: "\<forall>n>length (concat (map (disk_tids r) us)). \<exists>scan'. fetch_all guc mem n scan = Inr (concat (map (disk_tids r) us), True, scan')"
      "distinct us" "us = [] \<longleftrightarrow> mp_entryBlkno mp = InvalidBlockNumber" "sorted_wrt (tid_closer (Some q) support r) us" "\<forall>u\<in>set us. live_tid r 0 u"
    by blast
  let ?out = "concat (map (elem_out r) us)"
  have sub: "set us \<subseteq> elem_tids r" using us(5) live_element by blast
  have ut: "vec_wf (et_data (elem_at r u)) \<and> v_dim (et_data (elem_at r u)) = dim \<and> disk_tids r u \<noteq> []" if "u \<in> set us" for u
    using tuple_live [OF ok] sub us(5) that by blast
  have "mset ?out \<subseteq># index_entries r" by (rule scan_out_subset [OF us(2) sub])
  moreover have "sorted_wrt (\<lambda>a b. value_closer q support (et_data (elem_at r a)) (et_data (elem_at r b))) us"
    using us(4) by (rule sorted_wrt_mono_rel [rotated]) (use sub tid_closer_value in blast)
  then have "sorted_wrt (\<lambda>a b. value_closer q support (snd a) (snd b)) ?out"
    by (rule sorted_out) (use ut value_closer_refl [OF d q(2,3)] in blast)
  moreover have "?out = [] \<longleftrightarrow> us = []" using ut by (cases us) (auto simp: elem_out_def)
  then have "?out = [] \<longleftrightarrow> index_entries r = {#}" using us(3) no_entry_point [OF ok mp] by simp
  moreover have "map fst ?out = concat (map (disk_tids r) us)" by (rule elem_out_tids)
  moreover have "length (concat (map (disk_tids r) us)) = length ?out" using arg_cong [OF elem_out_tids, of length] by simp
  ultimately show ?thesis using us(1) s by (intro exI [of _ scan] exI [of _ ?out]) auto
qed

section \<open>Vacuuming\<close>

lemma tup_entries_vacuumed: "tup_entries (vacuumed cb et) = filter_mset (\<lambda>x. \<not> cb (fst x)) (tup_entries et)"
proof -
  have t: "tup_tids (vacuumed cb et) = filter (\<lambda>t. \<not> cb t) (tup_tids et)" by simp
  show ?thesis
  proof (cases "filter (\<lambda>t. \<not> cb t) (tup_tids et) = []")
    case True
    then show ?thesis using t by (auto simp: tup_entries_def filter_mset_image_mset comp_def filter_empty_conv)
  next
    case False
    have "tup_tids (trim_tids cb et) = filter (\<lambda>t. \<not> cb t) (tup_tids et)" by simp
    then have "\<not> to_mark (trim_tids cb et)" using False by (simp add: to_mark_def)
    then have "et_data (vacuumed cb et) = et_data et" by (simp add: vacuumed_def Let_def trim_tids_def)
    then show ?thesis using t by (simp add: tup_entries_def filter_mset_image_mset comp_def)
  qed
qed

lemma vacuum_index_entries:
  assumes wf: "rel_wf r" "linked r" "1 < length (rel_blocks r)" "entry_on_chain r" and c: "\<And>u. u \<in> elem_tids r \<Longrightarrow> ip_blkid u \<in> set (page_chain r)"
    and run: "hnswbulkdelete r support stats cb = Inr (r', st)"
  shows "index_entries r' = filter_mset (\<lambda>x. \<not> cb (fst x)) (index_entries r)"
proof -
  obtain vs where i: "InitVacuumState r support stats cb = Inr vs" using run by (auto simp: hnswbulkdelete_def rbind_InrE)
  have e: "tup_at r' b off = Inr (ElementTup et') \<longleftrightarrow> (\<exists>et. tup_at r b off = Inr (ElementTup et) \<and> et' = (if b \<in> set (page_chain r) then vacuumed cb et else et))" for b off et'
    using hnswbulkdelete_ok [OF wf run i] by blast
  have ch: "b \<in> set (page_chain r)" if "tup_at r b off = Inr (ElementTup et)" for b off et
    using c [of "ItemPointerSet b off"] that by (simp add: elem_tids_iff)
  have "tup_at r' b off = Inr (ElementTup et') \<longleftrightarrow> (\<exists>et. tup_at r b off = Inr (ElementTup et) \<and> et' = vacuumed cb et)" for b off et'
    using e [of b off et'] ch [of b off] by auto
  then show ?thesis by (rule index_entries_map [where f = "\<lambda>_. vacuumed cb"]) (simp_all add: tup_entries_vacuumed)
qed


text \<open>The counters of a VACUUM count entries.\<close>

definition page_elem_tids :: "Relation \<Rightarrow> nat \<Rightarrow> ItemPointerData set" where
  "page_elem_tids r b = {t \<in> elem_tids r. ip_blkid t = b}"

lemma page_count:
  "length (filter P (page_tids r b)) = (\<Sum>t\<in>page_elem_tids r b. size (filter_mset (\<lambda>x. P (fst x)) (tup_entries (elem_at r t))))"
proof (cases "read_page r b")
  case (Inl e)
  then have "page_elem_tids r b = {}" by (auto simp: page_elem_tids_def elem_tids_def tup_at_def)
  then show ?thesis using Inl by (simp add: page_tids_def)
next
  case (Inr p)
  let ?f = "\<lambda>t. length (filter P (tids_of t))" and ?I = "ip_items p"
  define J where "J = {j. j < length ?I \<and> (\<exists>et. ?I ! j = ElementTup et)}"
  have at: "tup_at r b (Suc j) = (if j < length ?I then Inr (?I ! j) else Inl UndefinedBehaviour)" for j
    using Inr by (simp add: tup_at_def page_tuple_def ip_get_def nth_r_def)
  have z: "\<nexists>t. tup_at r b 0 = Inr t" using Inr by (simp add: tup_at_def page_tuple_def ip_get_def)
  have e: "page_elem_tids r b = (\<lambda>j. ItemPointerSet b (Suc j)) ` J"
  proof (intro set_eqI iffI)
    fix t assume "t \<in> page_elem_tids r b"
    then obtain et where t: "t = ItemPointerSet b (ip_posid t)" "tup_at r b (ip_posid t) = Inr (ElementTup et)"
      by (auto simp: page_elem_tids_def elem_tids_def ItemPointer_collapse)
    then obtain j where "ip_posid t = Suc j" using z by (cases "ip_posid t") auto
    then show "t \<in> (\<lambda>j. ItemPointerSet b (Suc j)) ` J" using t at [of j] by (auto simp: J_def split: if_splits)
  qed (auto simp: page_elem_tids_def elem_tids_iff J_def at)
  have g: "size (filter_mset (\<lambda>x. P (fst x)) (tup_entries (elem_at r (ItemPointerSet b (Suc j))))) = ?f (?I ! j)" if j: "j \<in> J" for j
  proof -
    obtain et where et: "?I ! j = ElementTup et" "j < length ?I" using j by (auto simp: J_def)
    then have "elem_at r (ItemPointerSet b (Suc j)) = et" using at [of j] by (intro elem_at_eq) simp
    then show ?thesis using et(1) by (simp add: tup_entries_def tids_of_def filter_mset_image_mset comp_def flip: mset_filter)
  qed
  have "length (filter P (page_tids r b)) = sum_list (map ?f ?I)" using Inr by (simp add: page_tids_def filter_concat length_concat comp_def)
  also have "\<dots> = (\<Sum>j<length ?I. ?f (?I ! j))" by (simp add: sum_list_sum_nth atLeast0LessThan)
  also have "\<dots> = (\<Sum>j\<in>J. ?f (?I ! j))" by (rule sum.mono_neutral_right) (auto simp: J_def tids_of_def split: HnswTuple.splits)
  also have "\<dots> = (\<Sum>t\<in>page_elem_tids r b. size (filter_mset (\<lambda>x. P (fst x)) (tup_entries (elem_at r t))))"
    unfolding e using g by (subst sum.reindex) (auto simp: inj_on_def)
  finally show ?thesis .
qed

lemma entries_count:
  assumes "finite C" "\<And>t. t \<in> elem_tids r \<Longrightarrow> ip_blkid t \<in> C"
  shows "(\<Sum>b\<in>C. length (filter P (page_tids r b))) = size (filter_mset (\<lambda>x. P (fst x)) (index_entries r))"
proof -
  let ?g = "\<lambda>t. filter_mset (\<lambda>x. P (fst x)) (tup_entries (elem_at r t))"
  have f: "filter_mset Q (\<Sum>t\<in>A. h t) = (\<Sum>t\<in>A. filter_mset Q (h t))" for Q A and h :: "ItemPointerData \<Rightarrow> (ItemPointerData \<times> Vector) multiset"
    by (induction A rule: infinite_finite_induct) simp_all
  have "(\<Sum>b\<in>C. length (filter P (page_tids r b))) = (\<Sum>b\<in>C. \<Sum>t\<in>page_elem_tids r b. size (?g t))" by (simp only: page_count)
  also have "\<dots> = (\<Sum>t\<in>elem_tids r. size (?g t))"
    unfolding page_elem_tids_def by (rule sum.group) (use assms finite_elem_tids in auto)
  also have "\<dots> = size (filter_mset (\<lambda>x. P (fst x)) (index_entries r))" by (simp add: index_entries_def f size_multiset_sum)
  finally show ?thesis .
qed

text \<open>One VACUUM, on a well-formed index.\<close>

lemma vacuum_entries:
  assumes ok: "disk_ok m dim r" and d: "dist_ok support dim" and len: "length (rel_blocks r) \<le> InvalidBlockNumber"
  shows "\<exists>r' st. hnswbulkdelete r support None cb = Inr (r', st) \<and> disk_ok m dim r' \<and> length (rel_blocks r') = length (rel_blocks r) \<and>
    index_entries r' = filter_mset (\<lambda>x. \<not> cb (fst x)) (index_entries r) \<and>
    num_index_tuples st = size (index_entries r') \<and> tuples_removed st = size (filter_mset (\<lambda>x. cb (fst x)) (index_entries r))"
proof -
  obtain r' st where v: "hnswbulkdelete r support None cb = Inr (r', st)" "disk_ok m dim r'" "length (rel_blocks r') = length (rel_blocks r)"
    using vacuum_disk [OF ok d len, of None cb] by blast
  note b = disk_chain [OF ok len]
  have on: "ip_blkid u \<in> set (page_chain r)" if "u \<in> elem_tids r" for u using that by (auto simp: elem_tids_def intro: b(6))
  have e: "index_entries r' = filter_mset (\<lambda>x. \<not> cb (fst x)) (index_entries r)" by (rule vacuum_index_entries [OF b(1-3,5) on v(1)])
  obtain vs where i: "InitVacuumState r support None cb = Inr vs" using v(1) by (auto simp: hnswbulkdelete_def rbind_InrE)
  have s0: "num_index_tuples (vs_stats vs) = 0" "tuples_removed (vs_stats vs) = 0" using i by (auto simp: InitVacuumState_def rbind_InrE)
  have "st = stats_after cb r (set (page_chain r)) (vs_stats vs)" using hnswbulkdelete_ok [OF b(1-3,5) v(1) i] by blast
  then have "num_index_tuples st = size (index_entries r')" "tuples_removed st = size (filter_mset (\<lambda>x. cb (fst x)) (index_entries r))"
    using s0 on by (simp_all add: stats_after_def entries_count e)
  then show ?thesis using v e by blast
qed

text \<open>C4: VACUUM of an index on disk is correct: on a well-formed index \<open>hnswbulkdelete\<close> returns, keeps the index well-formed (the neighbour lists that
  pointed at dead elements are repaired, the entry point is an element that stays, and only unreferenced elements are marked deleted) and removes
  exactly the entries whose heap TIDs the callback reports dead; its counters are the numbers of entries left and removed.\<close>

theorem vacuum_on_disk:
  assumes "disk_ok m dim r" and "dist_ok support dim" and "length (rel_blocks r) \<le> InvalidBlockNumber"
  shows "\<exists>r' st. hnswbulkdelete r support None cb = Inr (r', st) \<and> disk_ok m dim r' \<and> index_entries r' = filter_mset (\<lambda>x. \<not> cb (fst x)) (index_entries r) \<and>
    num_index_tuples st = size (index_entries r') \<and> tuples_removed st = size (filter_mset (\<lambda>x. cb (fst x)) (index_entries r))"
  using vacuum_entries [OF assms] by blast

theorem vacuum_on_disk_witness:
  "\<exists>r0 st r' vst. hnswbuild (\<lambda>es. 1000 * length es) 64 (pair_rows, 3) \<lparr>rel_options = None, rel_blocks = []\<rparr> (HnswGetTypeInfo None) l2_support False 1 = Inr (r0, st) \<and>
     hnswbulkdelete r0 l2_support None (\<lambda>t. t = ItemPointerSet 7 2) = Inr (r', vst) \<and> index_entries r' = {#(ItemPointerSet 7 4, one_vec)#} \<and>
     num_index_tuples vst = 1 \<and> tuples_removed vst = 1"
proof -
  obtain r0 st where b: "hnswbuild (\<lambda>es. 1000 * length es) 64 (pair_rows, 3) \<lparr>rel_options = None, rel_blocks = []\<rparr> (HnswGetTypeInfo None) l2_support False 1 = Inr (r0, st)"
      "disk_ok 16 1 r0" "index_entries r0 = {#(ItemPointerSet 7 2, one_vec), (ItemPointerSet 7 4, one_vec)#}" "length (rel_blocks r0) \<le> 8"
    using hnswbuild_disk [OF pair_build_args, of "\<lambda>es. 1000 * length es" 64 3] unfolding pair_rows_ok default_options by auto
  have "length (rel_blocks r0) \<le> InvalidBlockNumber" using b(4) by (simp add: InvalidBlockNumber_def)
  from vacuum_on_disk [OF b(2) dist_ok_l2 this, of "\<lambda>t. t = ItemPointerSet 7 2"] show ?thesis using b(1,3) by auto
qed

section \<open>A series of operations\<close>

datatype index_op = InsertRow heap_row | VacuumRows "ItemPointerData \<Rightarrow> bool"

fun run_op :: "HnswTypeInfo \<Rightarrow> HnswSupport \<Rightarrow> index_op \<Rightarrow> Relation \<Rightarrow> Relation result" where
  "run_op ti support (InsertRow row) index = insert_row ti support row index"
| "run_op ti support (VacuumRows callback) index = rbind (hnswbulkdelete index support None callback) (\<lambda>(index', stats). Inr index')"

text \<open>What an operation does to the abstract index.\<close>

fun op_effect :: "HnswTypeInfo \<Rightarrow> HnswSupport \<Rightarrow> index_op \<Rightarrow> (ItemPointerData \<times> Vector) multiset \<Rightarrow> (ItemPointerData \<times> Vector) multiset" where
  "op_effect ti support (InsertRow row) E = E + mset (row_entry ti support row)"
| "op_effect ti support (VacuumRows callback) E = filter_mset (\<lambda>x. \<not> callback (fst x)) E"

fun op_ok :: "HnswTypeInfo \<Rightarrow> HnswSupport \<Rightarrow> int \<Rightarrow> index_op \<Rightarrow> bool" where
  "op_ok ti support dim (InsertRow row) = row_ok ti support dim row"
| "op_ok ti support dim (VacuumRows callback) = True"

interpretation living: op_sink "run_op ti support" "op_ok ti support dim" "op_effect ti support" "insert_sink m dim support" max_rows
  for ti support dim m
proof
  fix k E r op
  assume s: "insert_sink m dim support k E r" and o: "op_ok ti support dim op" and k: "k < max_rows"
  have d: "disk_ok m dim r" "dist_ok support dim" "index_entries r = E" "length (rel_blocks r) \<le> 2 + 2 * k" using s by (simp_all add: insert_sink_def)
  show "\<exists>r'. run_op ti support op r = Inr r' \<and> insert_sink m dim support (Suc k) (op_effect ti support op E) r'"
  proof (cases op)
    case (InsertRow row)
    then show ?thesis using inserting.step_ok [OF s _ k, of ti row] o by simp
  next
    case (VacuumRows cb)
    have "length (rel_blocks r) \<le> InvalidBlockNumber" using d(4) k by (simp add: max_rows_def InvalidBlockNumber_def)
    from vacuum_entries [OF d(1,2) this, of cb] obtain r' st where "hnswbulkdelete r support None cb = Inr (r', st)" "disk_ok m dim r'" "length (rel_blocks r') = length (rel_blocks r)"
        "index_entries r' = filter_mset (\<lambda>x. \<not> cb (fst x)) E" unfolding d(3) by blast
    then show ?thesis using VacuumRows d by (auto simp: insert_sink_def)
  qed
qed

text \<open>C1: from the table to the answer of a query.  An index is built from rows of a table, goes through any series of insertions and VACUUMs, and is scanned
  (not iteratively) for a query vector.  All of this returns.  The index has exactly the entries that the abstract index has after the same operations (a row
  adds its entry, a VACUUM removes the dead ones); the scan gives heap TIDs of entries, each entry at most once, nearest first by the distance of the value to
  the query, then reports its end; it returns nothing only when there are no entries.\<close>

theorem index_lifecycle:
  assumes "build_args rows index ti support dim" and "\<forall>op\<in>set ops. op_ok ti support dim op" and "length rows + length ops \<le> max_rows"
    and "hnsw_iterative_scan guc = HNSW_ITERATIVE_SCAN_OFF" and "sd_opaque scan0 = Some so" and "so_support so = support" and "sd_mvcc scan0"
    and "GetScanValue arg so = Inr (Some q)" and "vec_wf q" and "v_dim q = dim"
  shows "\<exists>r0 st r scan out. hnswbuild memAllocated mwm (rows, reltuples) index ti support False dim = Inr (r0, st) \<and> run_rows (run_op ti support) ops r0 = Inr r \<and>
    disk_ok (HnswGetM index) dim r \<and> index_entries r = fold (op_effect ti support) ops (mset (row_entries ti support rows)) \<and>
    hnswrescan (scan0\<lparr>sd_index := r\<rparr>) (Some arg) = Inr scan \<and> (\<forall>n>length out. \<exists>scan'. fetch_all guc scanmem n scan = Inr (map fst out, True, scan')) \<and>
    mset out \<subseteq># index_entries r \<and> (out = [] \<longleftrightarrow> index_entries r = {#}) \<and> sorted_wrt (\<lambda>a b. value_closer q support (snd a) (snd b)) out"
proof -
  let ?E = "mset (row_entries ti support rows)"
  obtain r0 st where r0: "hnswbuild memAllocated mwm (rows, reltuples) index ti support False dim = Inr (r0, st)" "disk_ok (HnswGetM index) dim r0" "index_entries r0 = ?E"
      "length (rel_blocks r0) \<le> 2 + 2 * length rows" using hnswbuild_disk [OF assms(1), of memAllocated mwm reltuples] by blast
  have d: "dist_ok support dim" using assms(1) by (simp add: build_args_def)
  have "insert_sink (HnswGetM index) dim support (length rows) ?E r0" using r0 d by (simp add: insert_sink_def)
  from living.run_total [OF this assms(2,3)] obtain r where r: "run_rows (run_op ti support) ops r0 = Inr r" "disk_ok (HnswGetM index) dim r"
      "index_entries r = fold (op_effect ti support) ops ?E" by (auto simp: insert_sink_def)
  from scan_disk [OF r(2) d assms(4-10), of scanmem] show ?thesis using r0(1) r by blast
qed

text \<open>A VACUUM of the first row, then another row.\<close>

definition late_ops :: "index_op list" where
  "late_ops = [VacuumRows (\<lambda>t. t = ItemPointerSet 7 2), InsertRow (ItemPointerSet 9 1, Some one_vec, 2)]"

lemma late_ops_ok: "\<forall>op\<in>set late_ops. op_ok (HnswGetTypeInfo None) l2_support 1 op" "length pair_rows + length late_ops \<le> max_rows"
  "fold (op_effect (HnswGetTypeInfo None) l2_support) late_ops (mset (row_entries (HnswGetTypeInfo None) l2_support pair_rows)) =
     {#(ItemPointerSet 7 4, one_vec), (ItemPointerSet 9 1, one_vec)#}"
  using one_vec_wf pair_rows_ok
  by (simp_all add: pair_rows_def late_ops_def row_ok_def HnswFormIndexValue_def HnswGetTypeInfo_def l2_support_def max_rows_def InvalidBlockNumber_def)

theorem index_lifecycle_witness:
  "\<exists>r0 st r scan out scan'. hnswbuild (\<lambda>es. 1000 * length es) 64 (pair_rows, 3) \<lparr>rel_options = None, rel_blocks = []\<rparr> (HnswGetTypeInfo None) l2_support False 1 = Inr (r0, st) \<and>
     run_rows (run_op (HnswGetTypeInfo None) l2_support) late_ops r0 = Inr r \<and> index_entries r = {#(ItemPointerSet 7 4, one_vec), (ItemPointerSet 9 1, one_vec)#} \<and>
     hnswrescan (pair_scan\<lparr>sd_index := r\<rparr>) (Some (Some one_vec)) = Inr scan \<and> fetch_all pair_guc (\<lambda>_. 0) (Suc (length out)) scan = Inr (map fst out, True, scan') \<and>
     out \<noteq> [] \<and> mset out \<subseteq># {#(ItemPointerSet 7 4, one_vec), (ItemPointerSet 9 1, one_vec)#}"
proof -
  obtain so where o: "sd_opaque pair_scan = Some so" "so_support so = l2_support" by (simp add: pair_scan_def)
  have v: "GetScanValue (Some one_vec) so = Inr (Some one_vec)" using o by (simp add: GetScanValue_def l2_support_def)
  have g: "hnsw_iterative_scan pair_guc = HNSW_ITERATIVE_SCAN_OFF" and p: "sd_mvcc pair_scan" by (simp_all add: pair_guc_def pair_scan_def)
  from index_lifecycle [OF pair_build_args late_ops_ok(1,2) g o p v one_vec_wf(1,2), of "\<lambda>es. 1000 * length es" 64 3 "\<lambda>_. 0"]
  show ?thesis unfolding late_ops_ok(3) by fastforce
qed

end
