(* ===== verification/CNumber.thy ===== *)
theory CNumber
  imports VectorType
begin

text \<open>
  Numbers of C that the options and the cost estimate use beside \<open>CFloat\<close>: \<open>strtol\<close> and \<open>strtod\<close>, conversions between integers and
  \<open>double\<close>, \<open>rint\<close>, and \<open>parse_int\<close> of \<open>src/backend/utils/misc/guc.c\<close>.  The lemmas show that rounding is monotone, from which the
  bounds on products, differences and quotients follow.
\<close>

section \<open>Integers and \<open>double\<close>\<close>

definition INT_MAX :: int where
  "INT_MAX = 2147483647"

definition INT_MIN :: int where
  "INT_MIN = -2147483648"

definition f8_of_int :: "int \<Rightarrow> float8" where
  "f8_of_int i = of_nat (f_make binary64 (i < 0) (round_mag binary64 (nat \<bar>i\<bar> * 2 ^ unit_exp binary64) 1))"

text \<open>The integer part of a finite number, and the nearest integer with ties to even.\<close>

definition f8_trunc :: "float8 \<Rightarrow> int" where
  "f8_trunc a = (let q = int (mag_int binary64 (f_mag binary64 (unat a)) div 2 ^ unit_exp binary64) in if f_neg binary64 (unat a) then - q else q)"

definition f8_rint :: "float8 \<Rightarrow> int" where
  "f8_rint a =
     (let u = 2 ^ unit_exp binary64; x = mag_int binary64 (f_mag binary64 (unat a)); q = x div u; r = x mod u;
          n = int (if 2 * r > u \<or> (2 * r = u \<and> odd q) then q + 1 else q)
      in if f_neg binary64 (unat a) then - n else n)"

text \<open>An \<open>int\<close> result: leaving the range is undefined.\<close>

definition c_int :: "int \<Rightarrow> int result" where
  "c_int i = (if INT_MIN \<le> i \<and> i \<le> INT_MAX then Inr i else Inl UndefinedBehaviour)"

text \<open>The conversion of a \<open>double\<close> to \<open>int\<close>.\<close>

definition int_of_f8 :: "float8 \<Rightarrow> int result" where
  "int_of_f8 a = (if f8_isnan a \<or> f8_isinf a then Inl UndefinedBehaviour else c_int (f8_trunc a))"

section \<open>Parsing integers\<close>

text \<open>\<open>strtol(s, &end, 0)\<close> for a 64-bit \<open>long\<close>: the value, how many characters \<open>end\<close> is past \<open>s\<close>, and whether \<open>errno\<close> is \<open>ERANGE\<close>.\<close>

definition strtol :: "string \<Rightarrow> int \<times> nat \<times> bool" where
  "strtol s =
     (let ws = length (takeWhile vector_isspace s);
          s1 = drop ws s;
          sl = (case s1 of [] \<Rightarrow> 0 | d # _ \<Rightarrow> if d = CHR ''+'' \<or> d = CHR ''-'' then 1 else (0::nat));
          s2 = drop sl s1;
          (base, pre) = (if ci_prefix ''0x'' s2 \<and> takeWhile c_isxdigit (drop 2 s2) \<noteq> [] then (16, 2) else if take 1 s2 = ''0'' then (8, 0) else (10, 0::nat));
          ds = takeWhile (\<lambda>c. c_isxdigit c \<and> digit_value c < base) (drop pre s2);
          v = (if sl = 1 \<and> hd s1 = CHR ''-'' then - int (digits_value base ds) else int (digits_value base ds))
      in if ds = [] then (0, 0, False)
         else (max (- (2 ^ 63)) (min (2 ^ 63 - 1) v), ws + sl + pre + length ds, v < - (2 ^ 63) \<or> 2 ^ 63 - 1 < v))"

definition strtod :: "string \<Rightarrow> float8 \<times> nat \<times> bool" where
  "strtod s = (let (b, n, er) = strto binary64 s in (of_nat b, n, er))"

text \<open>\<open>parse_int\<close> for a setting without unit (\<open>flags\<close> is 0): \<open>None\<close> for false.\<close>

definition parse_int :: "string \<Rightarrow> int option" where
  "parse_int value =
     (let (l, n1, er1) = strtol value;
          (val, n, er) = (if take 1 (drop n1 value) \<in> {''.'', ''e'', ''E''} \<or> er1 then strtod value else (f8_of_int l, n1, False))
      in if n = 0 \<or> er then None
         else if f8_isnan val then None
         else if dropWhile vector_isspace (drop n value) \<noteq> [] then None
         else if f8_isinf val \<or> f8_rint val > INT_MAX \<or> f8_rint val < INT_MIN then None
         else Some (f8_rint val))"

section \<open>Rounding is monotone\<close>

context float_format
begin

lemma mag_int_scaled:
  assumes "x \<le> 2 * 2 ^ mbits F" and "j = 0 \<or> 2 ^ mbits F \<le> x"
  shows "mag_int F (j * 2 ^ mbits F + x) = x * 2 ^ j"
proof -
  define B where "B = (2::nat) ^ mbits F"
  have B: "0 < B" by (simp add: B_def)
  consider "x < B" | "B \<le> x" "x < 2 * B" | "x = 2 * B" using assms(1) by (fold B_def) linarith
  then show ?thesis
  proof cases
    case 1
    then show ?thesis using assms(2) by (simp add: mag_int_def Let_def flip: B_def)
  next
    case 2
    then have "(j * B + x) div B = Suc j" "(j * B + x) mod B = x - B" using B
      by (simp_all add: div_nat_eqI mod_if [of x B])
    then show ?thesis using 2 by (simp add: mag_int_def Let_def flip: B_def)
  next
    case 3
    then have "(j * B + x) div B = Suc (Suc j)" "(j * B + x) mod B = 0" using B by simp_all
    then show ?thesis using 3 by (simp add: mag_int_def Let_def flip: B_def)
  qed
qed

text \<open>The significand that rounding works on.\<close>

lemma round_mag_shape:
  assumes "0 < den"
  obtains j n r where "num = n * (den * 2 ^ j) + r" and "r < den * 2 ^ j" and "n < 2 * 2 ^ mbits F" and "j = 0 \<or> 2 ^ mbits F \<le> n"
    and "round_mag F num den = min (j * 2 ^ mbits F + (if 2 * r > den * 2 ^ j \<or> (2 * r = den * 2 ^ j \<and> odd n) then n + 1 else n)) (inf_mag F)"
proof -
  define q j n r where "q = num div den" and "j = drop_of F q" and "n = num div (den * 2 ^ j)" and "r = num mod (den * 2 ^ j)"
  have nq: "n = q div 2 ^ j" by (simp add: n_def q_def div_mult2_eq)
  have up: "q < 2 * 2 ^ mbits F * 2 ^ j"
  proof (cases "q = 0")
    case False
    then have "q < 2 ^ Suc (lg2 q)" using lg2_bounds by simp
    also have "\<dots> \<le> 2 ^ Suc (mbits F + j)" by (intro power_increasing) (auto simp: j_def drop_of_def)
    finally show ?thesis by (simp add: power_add)
  qed simp
  have lo: "2 ^ mbits F \<le> n" if "j \<noteq> 0"
  proof -
    have "lg2 q = mbits F + j" using that by (auto simp: j_def drop_of_def)
    moreover have "lg2 0 = 0" by (subst lg2.simps) simp
    then have "0 < q" using that by (cases "q = 0") (auto simp: j_def drop_of_def)
    ultimately have "2 ^ mbits F * 2 ^ j \<le> q" using lg2_bounds [of q] by (simp add: power_add)
    then show ?thesis unfolding nq by (simp add: less_eq_div_iff_mult_less_eq)
  qed
  show ?thesis
  proof (rule that [of n j r])
    show "num = n * (den * 2 ^ j) + r" unfolding n_def r_def by (rule div_mult_mod_eq [symmetric])
    show "r < den * 2 ^ j" using assms by (simp add: r_def)
    show "n < 2 * 2 ^ mbits F" unfolding nq using up by (simp add: less_mult_imp_div_less)
    show "j = 0 \<or> 2 ^ mbits F \<le> n" using lo by blast
    show "round_mag F num den = min (j * 2 ^ mbits F + (if 2 * r > den * 2 ^ j \<or> (2 * r = den * 2 ^ j \<and> odd n) then n + 1 else n)) (inf_mag F)"
      by (simp only: round_mag_def Let_def mag_of_def flip: j_def n_def r_def q_def)
  qed
qed

lemma round_mag_upper:
  assumes "0 < den" and "num \<le> mag_int F g * den"
  shows "round_mag F num den \<le> g"
proof (rule ccontr)
  assume "\<not> ?thesis"
  moreover obtain j n r where s: "num = n * (den * 2 ^ j) + r" "r < den * 2 ^ j" "n < 2 * 2 ^ mbits F" "j = 0 \<or> 2 ^ mbits F \<le> n"
      "round_mag F num den = min (j * 2 ^ mbits F + (if 2 * r > den * 2 ^ j \<or> (2 * r = den * 2 ^ j \<and> odd n) then n + 1 else n)) (inf_mag F)"
    by (rule round_mag_shape [OF assms(1), of num]) blast
  ultimately have g: "g < j * 2 ^ mbits F + (if 2 * r > den * 2 ^ j \<or> (2 * r = den * 2 ^ j \<and> odd n) then n + 1 else n)" by auto
  have m: "mag_int F (j * 2 ^ mbits F + n) = n * 2 ^ j" using s(3,4) by (intro mag_int_scaled) auto
  have le: "mag_int F g * den \<le> n * 2 ^ j * den" if "g \<le> j * 2 ^ mbits F + n" using that m mag_int_less_iff [of "j * 2 ^ mbits F + n" g] by (simp add: not_less [symmetric])
  show False
  proof (cases "g < j * 2 ^ mbits F + n")
    case True
    then have "mag_int F g * den < n * 2 ^ j * den" using m mag_int_mono [OF True] assms(1) by simp
    moreover have "n * 2 ^ j * den \<le> num" using s(1) by simp
    ultimately show False using assms(2) by linarith
  next
    case False
    then have "g \<le> j * 2 ^ mbits F + n" "0 < r" using g s(2) by (auto split: if_splits)
    then have "mag_int F g * den \<le> n * 2 ^ j * den" "n * 2 ^ j * den < num" using le s(1) by simp_all
    then show False using assms(2) by linarith
  qed
qed

lemma round_mag_lower:
  assumes "0 < den" and "mag_int F g * den \<le> num" and "g \<le> inf_mag F"
  shows "g \<le> round_mag F num den"
proof (rule ccontr)
  assume "\<not> ?thesis"
  moreover obtain j n r where s: "num = n * (den * 2 ^ j) + r" "r < den * 2 ^ j" "n < 2 * 2 ^ mbits F" "j = 0 \<or> 2 ^ mbits F \<le> n"
      "round_mag F num den = min (j * 2 ^ mbits F + (if 2 * r > den * 2 ^ j \<or> (2 * r = den * 2 ^ j \<and> odd n) then n + 1 else n)) (inf_mag F)"
    by (rule round_mag_shape [OF assms(1), of num]) blast
  ultimately have "j * 2 ^ mbits F + (n + 1) \<le> g" using assms(3) by (auto split: if_splits)
  then have "mag_int F (j * 2 ^ mbits F + (n + 1)) \<le> mag_int F g" using mag_int_less_iff by (simp add: not_less [symmetric])
  moreover have "mag_int F (j * 2 ^ mbits F + (n + 1)) = (n + 1) * 2 ^ j" using s(3,4) by (intro mag_int_scaled) auto
  ultimately have "(n + 1) * 2 ^ j * den \<le> num" using assms(2) by (metis le_trans mult_le_mono1)
  then show False using s(1,2) by (simp add: algebra_simps)
qed

text \<open>Integers that fit the significand are exact.\<close>

lemma round_mag_int:
  assumes "n < 2 * 2 ^ mbits F" and "k + 2 < 2 ^ ebits F - 1"
  shows "mag_int F (round_mag F (n * 2 ^ k) 1) = n * 2 ^ k" and "round_mag F (n * 2 ^ k) 1 < inf_mag F"
proof -
  obtain g where g: "mag_int F g = n * 2 ^ k" "g < inf_mag F"
  proof (cases "n * 2 ^ k < 2 * 2 ^ mbits F")
    case True
    have "2 * 2 ^ mbits F < inf_mag F" using assms(2) by (simp add: inf_mag_def)
    then show ?thesis using that [of "n * 2 ^ k"] True mag_int_scaled [of "n * 2 ^ k" 0] by simp
  next
    case False
    define j where "j = drop_of F (n * 2 ^ k)"
    have n: "0 < n" using False by (cases n) auto
    have lg: "lg2 (n * 2 ^ k) = lg2 n + k" using lg2_bounds [OF n] by (intro lg2_unique) (simp_all add: power_add)
    have "mbits F < lg2 (n * 2 ^ k)"
    proof (rule ccontr)
      assume "\<not> ?thesis"
      then have "(2::nat) ^ Suc (lg2 (n * 2 ^ k)) \<le> 2 ^ Suc (mbits F)" by (intro power_increasing) auto
      moreover have "n * 2 ^ k < 2 ^ Suc (lg2 (n * 2 ^ k))" using lg2_bounds [of "n * 2 ^ k"] n by simp
      ultimately show False using False by (simp only: power_Suc)
    qed
    then have j: "lg2 (n * 2 ^ k) = mbits F + j" by (simp add: j_def drop_of_def)
    have "lg2 n \<le> mbits F" using assms(1) by (intro lg2_less) simp
    then have jk: "j \<le> k" using j lg by simp
    define x where "x = n * 2 ^ (k - j)"
    have x: "x * 2 ^ j = n * 2 ^ k" using jk by (simp add: x_def flip: power_add)
    have "2 ^ mbits F * 2 ^ j \<le> x * 2 ^ j" "x * 2 ^ j < 2 * 2 ^ mbits F * 2 ^ j" using lg2_bounds [of "n * 2 ^ k"] n j x by (simp_all add: power_add)
    then have xb: "2 ^ mbits F \<le> x" "x < 2 * 2 ^ mbits F" by simp_all
    have "j * 2 ^ mbits F + x < (j + 2) * 2 ^ mbits F" using xb(2) by simp
    also have "\<dots> \<le> (k + 2) * 2 ^ mbits F" using jk by simp
    also have "\<dots> < inf_mag F" unfolding inf_mag_def using assms(2) by (intro mult_strict_right_mono) auto
    finally have "j * 2 ^ mbits F + x < inf_mag F" .
    moreover have "mag_int F (j * 2 ^ mbits F + x) = n * 2 ^ k" using mag_int_scaled [of x j] xb x by simp
    ultimately show ?thesis using that by blast
  qed
  then have "round_mag F (n * 2 ^ k) 1 = g" using round_mag_exact [OF g(2), of 1] by simp
  then show "mag_int F (round_mag F (n * 2 ^ k) 1) = n * 2 ^ k" "round_mag F (n * 2 ^ k) 1 < inf_mag F" using g by simp_all
qed

end

section \<open>Numbers of the modelled code\<close>

text \<open>\<open>f8_val\<close>: the magnitude of a finite number in units of \<open>2 ^ - unit_exp\<close>.\<close>

abbreviation f8_val :: "float8 \<Rightarrow> nat" where
  "f8_val a \<equiv> mag_int binary64 (f_mag binary64 (unat a))"

abbreviation f8_unit :: nat where
  "f8_unit \<equiv> 2 ^ unit_exp binary64"

definition f8_fin :: "float8 \<Rightarrow> bool" where
  "f8_fin a \<longleftrightarrow> f_isfin binary64 (unat a)"

lemma f8_fin_class: "f8_fin a \<Longrightarrow> \<not> f8_isnan a" "f8_fin a \<Longrightarrow> \<not> f8_isinf a"
  by (simp_all add: f8_fin_def f8_isnan_def f8_isinf_def b64.f_isfin_class)

lemma f8_fin_iff: "f8_fin a \<longleftrightarrow> \<not> f8_isnan a \<and> \<not> f8_isinf a"
  by (auto simp: f8_fin_def f8_isnan_def f8_isinf_def f_isfin_def f_isnan_def f_isinf_def)

lemma f8_of_int_exact:
  assumes "\<bar>i\<bar> < 2 ^ 53"
  shows "f8_fin (f8_of_int i)" "f8_val (f8_of_int i) = nat \<bar>i\<bar> * f8_unit" "f_neg binary64 (unat (f8_of_int i)) \<longleftrightarrow> i < 0"
proof -
  have n: "nat \<bar>i\<bar> < 2 * 2 ^ mbits binary64" using assms by (simp add: binary64_def nat_less_iff)
  have k: "unit_exp binary64 + 2 < 2 ^ ebits binary64 - 1" by (simp add: unit_exp_def binary64_def)
  have u: "unat (f8_of_int i) = f_make binary64 (i < 0) (round_mag binary64 (nat \<bar>i\<bar> * f8_unit) 1)"
    unfolding f8_of_int_def by (rule unat_of_nat8) (rule b64.f_make_lt2, rule b64.round_lt_sign)
  show "f8_fin (f8_of_int i)" using b64.round_mag_int(2) [OF n k] unfolding f8_fin_def f_isfin_def u by simp
  show "f8_val (f8_of_int i) = nat \<bar>i\<bar> * f8_unit" using b64.round_mag_int(1) [OF n k] unfolding u by simp
  show "f_neg binary64 (unat (f8_of_int i)) \<longleftrightarrow> i < 0" unfolding u by simp
qed

lemma f8_rint_of_int: "\<bar>i\<bar> < 2 ^ 53 \<Longrightarrow> f8_rint (f8_of_int i) = i"
  by (simp add: f8_rint_def f8_of_int_exact Let_def)

text \<open>Plain decimal digits are read as their value.\<close>

lemma parse_int_decimal:
  assumes "ds \<noteq> []" and "\<forall>c\<in>set ds. c_isdigit c" and "hd ds \<noteq> CHR ''0''" and "int (digits_value 10 ds) \<le> INT_MAX"
  shows "parse_int ds = Some (int (digits_value 10 ds))"
proof -
  obtain d r where d: "ds = d # r" using assms(1) by (cases ds) auto
  have dig: "c_isdigit c \<Longrightarrow> \<not> vector_isspace c \<and> c \<noteq> CHR ''+'' \<and> c \<noteq> CHR ''-'' \<and> c_isxdigit c \<and> digit_value c < 10" for c
    by (auto simp: c_isdigit_def vector_isspace_def c_isxdigit_def digit_value_def)
  have ws: "takeWhile vector_isspace ds = []" using dig [of d] assms(2) d by simp
  have sg: "(case ds of [] \<Rightarrow> 0 | d # _ \<Rightarrow> if d = CHR ''+'' \<or> d = CHR ''-'' then 1 else (0::nat)) = 0" using dig [of d] assms(2) d by simp
  have d0: "d \<noteq> CHR ''0''" using assms(3) d by simp
  have x: "\<not> ci_prefix ''0x'' ds" using d0 assms(2) d by (auto simp: ci_prefix_def c_tolower_def c_isdigit_def)
  have tw: "takeWhile (\<lambda>c. c_isxdigit c \<and> digit_value c < 10) ds = ds" using dig assms(2) by (intro takeWhile_eq_all_conv [THEN iffD2]) blast
  have v: "strtol ds = (int (digits_value 10 ds), length ds, False)"
    unfolding strtol_def Let_def ws list.size(3) drop_0 sg using x d0 tw assms(1,4) d by (simp add: INT_MAX_def)
  have b: "\<bar>int (digits_value 10 ds)\<bar> < 2 ^ 53" "INT_MIN \<le> int (digits_value 10 ds)" using assms(4) by (simp_all add: INT_MAX_def INT_MIN_def)
  note f = f8_of_int_exact(1) [OF b(1)] f8_rint_of_int [OF b(1)]
  show ?thesis using assms(1,4) b(2) f by (simp add: parse_int_def v f8_fin_class)
qed

section \<open>Bounds on the arithmetic\<close>

abbreviation f8_mag :: "float8 \<Rightarrow> nat" where
  "f8_mag a \<equiv> f_mag binary64 (unat a)"

abbreviation f8_neg :: "float8 \<Rightarrow> bool" where
  "f8_neg a \<equiv> f_neg binary64 (unat a)"

lemma f8_key_pos: "f8_pos a \<Longrightarrow> f8_key a = int (f8_mag a)"
  by (simp add: f8_pos_def f8_key_def f_key_def)

lemma f8_fin_mag: "f8_fin a \<longleftrightarrow> f8_mag a < inf_mag binary64"
  by (simp add: f8_fin_def f_isfin_def)

lemma f8_val_le: "f8_val a \<le> f8_val b \<longleftrightarrow> f8_mag a \<le> f8_mag b"
  using b64.mag_int_less_iff by (simp add: not_less [symmetric])

lemma f8_val_0: "f8_val a = 0 \<longleftrightarrow> f8_mag a = 0"
  using b64.mag_int_less_iff [of 0 "f8_mag a"] by auto

lemma f8_isnan_mag: "f8_isnan a \<longleftrightarrow> inf_mag binary64 < f8_mag a"
  by (simp add: f8_isnan_def f_isnan_def)

lemma unat_f8_ops:
  "unat (f8_add a b) = f_add binary64 (unat a) (unat b)" "unat (f8_sub a b) = f_sub binary64 (unat a) (unat b)"
  "unat (f8_mul a b) = f_mul binary64 (unat a) (unat b)" "unat (f8_div a b) = f_div binary64 (unat a) (unat b)"
  by (simp_all only: f_op_defs unat_f_ops)

text \<open>Products and quotients of finite numbers.\<close>

lemma f8_mul_fields:
  assumes "f8_fin a" and "f8_fin b"
  shows "f8_mag (f8_mul a b) = round_mag binary64 (f8_val a * f8_val b) f8_unit" and "f8_neg (f8_mul a b) \<longleftrightarrow> f8_neg a \<noteq> f8_neg b"
    and "\<not> f8_isnan (f8_mul a b)"
  using assms by (simp_all add: unat_f8_ops f_mul_def Let_def f8_fin_def f8_isnan_def b64.f_isfin_class)

lemma f8_div_fields:
  assumes "f8_fin a" and "f8_fin b" and "f8_val b \<noteq> 0"
  shows "f8_mag (f8_div a b) = round_mag binary64 (f8_val a * f8_unit) (f8_val b)" and "f8_neg (f8_div a b) \<longleftrightarrow> f8_neg a \<noteq> f8_neg b"
    and "\<not> f8_isnan (f8_div a b)"
  using assms by (simp_all add: unat_f8_ops f_div_def Let_def f8_fin_def f8_isnan_def b64.f_isfin_class f8_val_0 f_iszero_def)

lemma f8_mul_pos: "f8_fin a \<Longrightarrow> f8_fin b \<Longrightarrow> f8_pos a \<Longrightarrow> f8_pos b \<Longrightarrow> f8_pos (f8_mul a b)"
  by (simp add: f8_pos_def f8_mul_fields)

lemma f8_mul_upper:
  assumes "f8_fin a" and "f8_fin b" and "f8_val a * f8_val b \<le> f8_val c * f8_unit"
  shows "f8_mag (f8_mul a b) \<le> f8_mag c"
  unfolding f8_mul_fields(1) [OF assms(1,2)] by (rule b64.round_mag_upper) (use assms(3) in simp_all)

lemma f8_mul_lower:
  assumes "f8_fin a" and "f8_fin b" and "f8_fin c" and "f8_val c * f8_unit \<le> f8_val a * f8_val b"
  shows "f8_mag c \<le> f8_mag (f8_mul a b)"
  unfolding f8_mul_fields(1) [OF assms(1,2)] by (rule b64.round_mag_lower) (use assms(3,4) in \<open>simp_all add: f8_fin_mag\<close>)

lemma f8_div_upper:
  assumes "f8_fin a" and "f8_fin b" and "f8_val b \<noteq> 0" and "f8_val a * f8_unit \<le> f8_val c * f8_val b"
  shows "f8_mag (f8_div a b) \<le> f8_mag c"
  unfolding f8_div_fields(1) [OF assms(1-3)] by (rule b64.round_mag_upper) (use assms(3,4) in simp_all)

lemma f8_div_pos:
  assumes "f8_pos a" and "f8_fin b" and "f8_pos b" and "f8_val b \<noteq> 0"
  shows "f8_pos (f8_div a b)"
proof (cases "f8_fin a")
  case True
  then show ?thesis using assms by (simp add: f8_pos_def f8_div_fields)
next
  case False
  then have "f8_isinf a" using assms(1) by (simp add: f8_fin_iff f8_pos_def)
  then show ?thesis using assms by (simp add: unat_f8_ops f_div_def Let_def f8_fin_def f8_isinf_def f8_isnan_def f8_pos_def b64.f_isfin_class)
qed

text \<open>Sums and differences.\<close>

lemma f8_add_fields:
  assumes "f8_fin a" and "f8_fin b" and "f8_pos a" and "f8_pos b"
  shows "f8_mag (f8_add a b) = round_mag binary64 (f8_val a + f8_val b) 1"
proof -
  have i: "f_int binary64 (unat a) = int (f8_val a)" "f_int binary64 (unat b) = int (f8_val b)" using assms by (simp_all add: f_int_def f8_pos_def)
  have "f8_val a + f8_val b = 0 \<Longrightarrow> ?thesis" using assms by (simp add: unat_f8_ops f_add_def Let_def i f8_fin_def b64.f_isfin_class)
  moreover have "f8_val a + f8_val b \<noteq> 0 \<Longrightarrow> ?thesis"
    using assms by (simp add: unat_f8_ops f_add_def Let_def i f8_fin_def b64.f_isfin_class nat_int_add flip: of_nat_add)
  ultimately show ?thesis by blast
qed

lemma f_negate_int: "f_int binary64 (f_negate binary64 b) = - f_int binary64 b"
  by (rule b64.f_int_negate)

text \<open>A number is above a number whose value is not larger, and subtracting moves down.\<close>

lemma f_add_key_le:
  assumes "f_isfin binary64 a" and "f_isfin binary64 b" and "f_int binary64 b \<le> 0"
  shows "f_key binary64 (f_add binary64 a b) \<le> f_key binary64 a"
proof -
  let ?s = "f_int binary64 a + f_int binary64 b" and ?g = "f_mag binary64 a"
  have g: "?g \<le> inf_mag binary64" using assms(1) by (simp add: f_isfin_def)
  have eq: "f_add binary64 a b = (if ?s = 0 then f_make binary64 (f_neg binary64 a \<and> f_neg binary64 b) 0 else f_make binary64 (?s < 0) (round_mag binary64 (nat \<bar>?s\<bar>) 1))"
    using assms(1,2) by (simp add: f_add_def Let_def b64.f_isfin_class)
  show ?thesis
  proof (cases "f_neg binary64 a")
    case True
    then have i: "f_int binary64 a = - int (mag_int binary64 ?g)" by (simp add: f_int_def)
    show ?thesis
    proof (cases "?s = 0")
      case True
      then have "mag_int binary64 ?g = 0" using i assms(3) by linarith
      then have "?g = 0" using b64.mag_int_less_iff [of 0 ?g] by auto
      then show ?thesis using eq True by (simp add: f_key_def)
    next
      case False
      then have "?s < 0" "mag_int binary64 ?g * 1 \<le> nat \<bar>?s\<bar>" using i assms(3) by linarith+
      then have "?g \<le> round_mag binary64 (nat \<bar>?s\<bar>) 1" using b64.round_mag_lower [of 1 ?g] g by simp
      then show ?thesis using eq False True \<open>?s < 0\<close> by (simp add: f_key_def)
    qed
  next
    case False
    then have i: "f_int binary64 a = int (mag_int binary64 ?g)" by (simp add: f_int_def)
    show ?thesis
    proof (cases "?s > 0")
      case True
      then have "nat \<bar>?s\<bar> \<le> mag_int binary64 ?g * 1" using i assms(3) by linarith
      then have "round_mag binary64 (nat \<bar>?s\<bar>) 1 \<le> ?g" using b64.round_mag_upper [of 1] by simp
      then show ?thesis using eq False True by (simp add: f_key_def)
    next
      case s: False
      then show ?thesis using eq False by (auto simp: f_key_def)
    qed
  qed
qed

lemma f8_sub_le:
  assumes "\<not> f8_isnan a" and "f8_key a < int (inf_mag binary64)" and "f8_pos x"
  shows "\<not> f8_isnan (f8_sub a x)" and "f8_key (f8_sub a x) \<le> f8_key a"
proof -
  let ?a = "unat a" and ?x = "f_negate binary64 (unat x)"
  have x: "\<not> f_isnan binary64 (unat x)" "\<not> f8_neg x" using assms(3) by (simp_all add: f8_pos_def f8_isnan_def)
  have sub: "unat (f8_sub a x) = f_add binary64 ?a ?x" using x by (simp add: unat_f8_ops f_sub_def)
  have n: "f_neg binary64 ?x" "f_mag binary64 ?x = f8_mag x" using x by (simp_all add: f_negate_def)
  have na: "\<not> f_isnan binary64 ?a" using assms(1) by (simp add: f8_isnan_def)
  have "\<not> f_isnan binary64 (f_add binary64 ?a ?x) \<and> f_key binary64 (f_add binary64 ?a ?x) \<le> f_key binary64 ?a"
  proof (cases "f_isfin binary64 ?a \<and> f_isfin binary64 (unat x)")
    case True
    then have "f_isfin binary64 ?x" "f_int binary64 ?x \<le> 0" using n by (simp_all add: f_isfin_def f_int_def)
    then show ?thesis using f_add_key_le [of ?a ?x] True b64.f_sub_notnan [of ?a "unat x"] x(1) by (simp add: f_sub_def)
  next
    case False
    have c: "f_isfin binary64 y \<or> f_isinf binary64 y" if "\<not> f_isnan binary64 y" for y using that by (auto simp: f_isfin_def f_isinf_def f_isnan_def)
    have i: "f_neg binary64 ?a" if "f_isinf binary64 ?a" using that assms(2) by (auto simp: f_isinf_def f8_key_def f_key_def split: if_splits)
    have xi: "f_isinf binary64 ?x \<longleftrightarrow> f_isinf binary64 (unat x)" "\<not> f_isnan binary64 ?x" using n x(1) by (simp_all add: f_isinf_def f_isnan_def)
    have lo: "- int (inf_mag binary64) \<le> f_key binary64 ?a" using na by (auto simp: f_isnan_def f_key_def)
    have k: "f_key binary64 (f_inf binary64 True) = - int (inf_mag binary64)" using b64.inf_lt_sign by (simp add: f_inf_def f_key_def)
    have "f_add binary64 ?a ?x = f_inf binary64 True" using False c [OF na] c [OF x(1)] i xi n(1) na b64.f_isfin_class by (auto simp: f_add_def)
    then show ?thesis using lo k by simp
  qed
  then show "\<not> f8_isnan (f8_sub a x)" "f8_key (f8_sub a x) \<le> f8_key a" by (simp_all add: f8_isnan_def f8_key_def sub)
qed

lemma f8_sub_pos:
  assumes "f8_fin a" and "f8_fin b" and "f8_pos a" and "f8_pos b" and "f8_key b \<le> f8_key a"
  shows "f8_pos (f8_sub a b)" and "f8_fin (f8_sub a b)"
proof -
  have f: "f_isfin binary64 (unat a)" "f_isfin binary64 (unat b)" "\<not> f8_neg a" "\<not> f8_neg b" using assms by (simp_all add: f8_fin_def f8_pos_def)
  have "f8_val b \<le> f8_val a" using assms by (simp add: f8_val_le f8_key_pos)
  then have "0 \<le> f_int binary64 (unat a) - f_int binary64 (unat b)" using f by (simp add: f_int_def)
  then have "\<not> f8_neg (f8_sub a b)" using f by (auto simp: unat_f8_ops f_sub_def f_add_def Let_def b64.f_isfin_class)
  moreover have k: "f8_key a < int (inf_mag binary64)" using assms(1,3) by (simp add: f8_key_pos f8_fin_mag)
  ultimately show p: "f8_pos (f8_sub a b)" using f8_sub_le(1) [OF _ k assms(4)] assms(1) by (simp add: f8_pos_def f8_fin_class)
  show "f8_fin (f8_sub a b)" using f8_sub_le(2) [OF _ k assms(4)] assms(1) k f8_key_pos [OF p] by (simp add: f8_fin_mag f8_fin_class)
qed

end
