(* ===== verification/Reloptions.thy ===== *)
theory Reloptions
  imports CNumber HnswUtils
begin

text \<open>
  The storage parameters of an index: their registration and parse table in \<open>src/backend/access/hnsw/hnsw.c\<close> and the parser of
  \<open>src/backend/access/common/reloptions.c\<close>, for integer parameters (the only ones this access method has).  A text array is a list of
  strings, a null pointer \<open>None\<close>; the offset of a field in the parsed structure is its update function.
\<close>

section \<open>The parser\<close>

record relopt_int =
  ro_name :: string
  ro_default :: int
  ro_min :: int
  ro_max :: int

record relopt_value =
  rv_gen :: relopt_int
  rv_isset :: bool
  rv_int_val :: int

definition parse_one_reloption :: "relopt_value \<Rightarrow> string \<Rightarrow> bool \<Rightarrow> relopt_value result" where
  "parse_one_reloption option text validate =
     (let gen = rv_gen option; value = drop (length (ro_name gen) + 1) text in
      if rv_isset option \<and> validate then Inl (ErrSpecifiedTwice (ro_name gen))
      else case parse_int value of
        None \<Rightarrow> if validate then Inl (ErrInvalidValue (ro_name gen)) else Inr (option\<lparr>rv_int_val := 0\<rparr>)
      | Some v \<Rightarrow>
          if validate \<and> (v < ro_min gen \<or> v > ro_max gen) then Inl (ErrValueOutOfBounds (ro_name gen))
          else Inr (option\<lparr>rv_int_val := v, rv_isset := True\<rparr>))"

definition option_matches :: "string \<Rightarrow> relopt_value \<Rightarrow> bool" where
  "option_matches text option =
     (let name = ro_name (rv_gen option); kw_len = length name in
      length text > kw_len \<and> text ! kw_len = CHR ''='' \<and> take kw_len text = name)"

text \<open>The search for the option of one text.\<close>

fun parse_text :: "string \<Rightarrow> bool \<Rightarrow> relopt_value list \<Rightarrow> relopt_value list result" where
  "parse_text text validate [] = (if validate then Inl (ErrUnrecognizedParameter (takeWhile (\<lambda>c. c \<noteq> CHR ''='') text)) else Inr [])"
| "parse_text text validate (opt # opts) =
     (if option_matches text opt then rbind (parse_one_reloption opt text validate) (\<lambda>opt1. Inr (opt1 # opts))
      else rbind (parse_text text validate opts) (\<lambda>opts1. Inr (opt # opts1)))"

fun parseRelOptionsInternal :: "string list \<Rightarrow> bool \<Rightarrow> relopt_value list \<Rightarrow> relopt_value list result" where
  "parseRelOptionsInternal [] validate opts = Inr opts"
| "parseRelOptionsInternal (text # texts) validate opts =
     rbind (parse_text text validate opts) (parseRelOptionsInternal texts validate)"

definition parseRelOptions :: "string list option \<Rightarrow> bool \<Rightarrow> relopt_int list \<Rightarrow> relopt_value list result" where
  "parseRelOptions options validate kind =
     (let reloptions = map (\<lambda>gen. \<lparr>rv_gen = gen, rv_isset = False, rv_int_val = 0\<rparr>) kind in
      case options of None \<Rightarrow> Inr reloptions | Some texts \<Rightarrow> parseRelOptionsInternal texts validate reloptions)"

definition relopt_result :: "relopt_value \<Rightarrow> int" where
  "relopt_result option = (if rv_isset option then rv_int_val option else ro_default (rv_gen option))"

fun fillRelOptions :: "'r \<Rightarrow> relopt_value list \<Rightarrow> bool \<Rightarrow> (string \<times> (int \<Rightarrow> 'r \<Rightarrow> 'r)) list \<Rightarrow> 'r result" where
  "fillRelOptions rdopts [] validate elems = Inr rdopts"
| "fillRelOptions rdopts (opt # opts) validate elems =
     (case map_of elems (ro_name (rv_gen opt)) of
        Some set_field \<Rightarrow> fillRelOptions (set_field (relopt_result opt) rdopts) opts validate elems
      | None \<Rightarrow> if validate then Inl (ErrNotInParseTable (ro_name (rv_gen opt))) else fillRelOptions rdopts opts validate elems)"

definition build_reloptions ::
    "string list option \<Rightarrow> bool \<Rightarrow> relopt_int list \<Rightarrow> 'r \<Rightarrow> (string \<times> (int \<Rightarrow> 'r \<Rightarrow> 'r)) list \<Rightarrow> 'r option result" where
  "build_reloptions reloptions validate kind zeroed relopt_elems =
     rbind (parseRelOptions reloptions validate kind) (\<lambda>options.
       if length options > length relopt_elems then Inl AssertionFailed
       else if options = [] then Inr None
       else rbind (fillRelOptions zeroed options validate relopt_elems) (\<lambda>rdopts. Inr (Some rdopts)))"

section \<open>The parameters of the index\<close>

text \<open>What \<open>HnswInit\<close> registers.\<close>

definition hnsw_relopt_kind :: "relopt_int list" where
  "hnsw_relopt_kind =
     [\<lparr>ro_name = ''m'', ro_default = int HNSW_DEFAULT_M, ro_min = int HNSW_MIN_M, ro_max = int HNSW_MAX_M\<rparr>,
      \<lparr>ro_name = ''ef_construction'', ro_default = int HNSW_DEFAULT_EF_CONSTRUCTION, ro_min = int HNSW_MIN_EF_CONSTRUCTION,
        ro_max = int HNSW_MAX_EF_CONSTRUCTION\<rparr>]"

text \<open>The structure the parser fills, with C integers; \<open>rd_options\<close> is what the index reads of it (fields that passed the bounds
  are not negative).\<close>

record hnsw_rdopts =
  rd_m :: int
  rd_efConstruction :: int

definition rd_options :: "hnsw_rdopts \<Rightarrow> HnswOptions" where
  "rd_options r = \<lparr>opt_m = nat (rd_m r), opt_efConstruction = nat (rd_efConstruction r)\<rparr>"

definition hnswoptions :: "string list option \<Rightarrow> bool \<Rightarrow> hnsw_rdopts option result" where
  "hnswoptions reloptions validate =
     build_reloptions reloptions validate hnsw_relopt_kind \<lparr>rd_m = 0, rd_efConstruction = 0\<rparr>
       [(''m'', \<lambda>v r. r\<lparr>rd_m := v\<rparr>), (''ef_construction'', \<lambda>v r. r\<lparr>rd_efConstruction := v\<rparr>)]"

section \<open>What the parser accepts\<close>

text \<open>A text \<open>name=value\<close> for an option, and whether its value is acceptable.\<close>

definition is_for :: "relopt_int \<Rightarrow> string \<Rightarrow> bool" where
  "is_for gen text \<longleftrightarrow> take (Suc (length (ro_name gen))) text = ro_name gen @ ''=''"

definition value_of :: "relopt_int \<Rightarrow> string \<Rightarrow> int option" where
  "value_of gen text = parse_int (drop (length (ro_name gen) + 1) text)"

definition good :: "relopt_int \<Rightarrow> string \<Rightarrow> bool" where
  "good gen text \<longleftrightarrow> (case value_of gen text of None \<Rightarrow> False | Some v \<Rightarrow> ro_min gen \<le> v \<and> v \<le> ro_max gen)"

definition options_ok :: "relopt_int list \<Rightarrow> string list \<Rightarrow> bool" where
  "options_ok kind texts \<longleftrightarrow> (\<forall>t\<in>set texts. \<exists>gen\<in>set kind. is_for gen t \<and> good gen t) \<and> (\<forall>gen\<in>set kind. length (filter (is_for gen) texts) \<le> 1)"

definition option_value :: "relopt_int \<Rightarrow> string list \<Rightarrow> int" where
  "option_value gen texts =
     (case filter (is_for gen) texts of [] \<Rightarrow> ro_default gen | t # _ \<Rightarrow> (case value_of gen t of None \<Rightarrow> 0 | Some v \<Rightarrow> v))"

definition parse_errors :: "error set" where
  "parse_errors = range ErrSpecifiedTwice \<union> range ErrInvalidValue \<union> range ErrValueOutOfBounds \<union> range ErrUnrecognizedParameter"

text \<open>No text is for two options of a kind.\<close>

definition kind_ok :: "relopt_int list \<Rightarrow> bool" where
  "kind_ok kind \<longleftrightarrow> distinct kind \<and> (\<forall>g\<in>set kind. \<forall>h\<in>set kind. \<forall>t. is_for g t \<longrightarrow> is_for h t \<longrightarrow> g = h)"

lemma option_matches_iff: "option_matches text option \<longleftrightarrow> is_for (rv_gen option) text"
proof -
  have "take (Suc n) text = xs @ [c] \<longleftrightarrow> n < length text \<and> text ! n = c \<and> take n text = xs" if "length xs = n" for n xs and c :: char
    using that by (cases "n < length text") (auto simp: take_Suc_conv_app_nth dest: arg_cong [where f = length])
  from this [of "ro_name (rv_gen option)" "length (ro_name (rv_gen option))" "CHR ''=''"] show ?thesis
    by (auto simp: option_matches_def is_for_def Let_def)
qed

text \<open>The options are kept as a function on the kind.\<close>

abbreviation gens_ok :: "(relopt_int \<Rightarrow> relopt_value) \<Rightarrow> bool" where
  "gens_ok f \<equiv> \<forall>g. rv_gen (f g) = g"

lemma parse_text_none:
  assumes "gens_ok f" and "\<forall>g\<in>set kind. \<not> is_for g t"
  shows "parse_text t validate (map f kind) = (if validate then Inl (ErrUnrecognizedParameter (takeWhile (\<lambda>c. c \<noteq> CHR ''='') t)) else Inr (map f kind))"
  using assms(2) by (induction kind) (simp_all add: option_matches_iff assms(1))

lemma parse_text_one:
  assumes "gens_ok f" and "kind_ok kind" and "gen \<in> set kind" and "is_for gen t"
  shows "parse_text t validate (map f kind) = rbind (parse_one_reloption (f gen) t validate) (\<lambda>opt. Inr (map (f(gen := opt)) kind))"
proof -
  have "distinct kind" "\<forall>g\<in>set kind. is_for g t \<longrightarrow> g = gen" using assms(2-4) by (auto simp: kind_ok_def)
  then show ?thesis using assms(3)
  proof (induction kind)
    case (Cons g kind)
    show ?case
    proof (cases "g = gen")
      case True
      then have "gen \<notin> set kind" using Cons.prems(1) by simp
      then show ?thesis using True assms(1,4) by (simp add: option_matches_iff fun_upd_same del: fun_upd_apply)
    next
      case False
      then show ?thesis using Cons assms(1) by (cases "parse_one_reloption (f gen) t validate") (auto simp: option_matches_iff)
    qed
  qed simp
qed

text \<open>An option after the texts that are for it.\<close>

definition option_after :: "relopt_value \<Rightarrow> string list \<Rightarrow> relopt_value" where
  "option_after opt texts =
     (case filter (is_for (rv_gen opt)) texts of [] \<Rightarrow> opt
      | t # _ \<Rightarrow> opt\<lparr>rv_int_val := (case value_of (rv_gen opt) t of None \<Rightarrow> 0 | Some v \<Rightarrow> v), rv_isset := True\<rparr>)"

definition room :: "relopt_value \<Rightarrow> nat" where
  "room opt = (if rv_isset opt then 0 else 1)"

lemma parse_one_validated:
  assumes "is_for (rv_gen opt) t"
  shows "parse_one_reloption opt t True = Inr opt' \<longleftrightarrow> \<not> rv_isset opt \<and> good (rv_gen opt) t \<and> opt' = option_after opt [t]"
    and "parse_one_reloption opt t True = Inl e \<Longrightarrow> e \<in> parse_errors"
    and "good (rv_gen opt) t \<Longrightarrow> parse_one_reloption opt t False = Inr (option_after opt [t])"
  using assms by (auto simp: parse_one_reloption_def Let_def value_of_def good_def option_after_def parse_errors_def split: option.splits if_splits)

lemma option_after_gen [simp]: "rv_gen (option_after opt texts) = rv_gen opt"
  by (simp add: option_after_def split: list.splits)

text \<open>One text is taken: its option is set, and the other texts find the options as if it had been among them.\<close>

lemma option_after_step:
  assumes "gens_ok f" and "kind_ok kind" and "gen \<in> set kind" and "is_for gen t" and "h \<in> set kind"
    and "length (filter (is_for h) texts) \<le> room ((f(gen := option_after (f gen) [t])) h)"
  shows "option_after ((f(gen := option_after (f gen) [t])) h) texts = option_after (f h) (t # texts)"
proof (cases "h = gen")
  case True
  then have "filter (is_for gen) texts = []" using assms(1,4,6) by (simp add: room_def option_after_def)
  then show ?thesis using True assms(1,4) by (simp add: option_after_def)
next
  case False
  then have "\<not> is_for h t" using assms(2-5) by (metis kind_ok_def)
  then show ?thesis using False assms(1) by (simp add: option_after_def)
qed

lemma room_step:
  assumes "gens_ok f" and "kind_ok kind" and "gen \<in> set kind" and "is_for gen t" and "h \<in> set kind" and "\<not> rv_isset (f gen)"
  shows "length (filter (is_for h) texts) \<le> room ((f(gen := option_after (f gen) [t])) h) \<longleftrightarrow> length (filter (is_for h) (t # texts)) \<le> room (f h)"
proof -
  have "is_for h t \<longleftrightarrow> h = gen" using assms(2-5) by (metis kind_ok_def)
  then show ?thesis using assms(1,4,6) by (auto simp: room_def option_after_def)
qed

text \<open>A validated text array is accepted exactly when every text gives an acceptable value to an option and none is given twice.\<close>

lemma parse_validated:
  assumes "kind_ok kind" and "gens_ok f"
  shows "parseRelOptionsInternal texts True (map f kind) = Inr opts \<longleftrightarrow>
      (\<forall>t\<in>set texts. \<exists>gen\<in>set kind. is_for gen t \<and> good gen t) \<and> (\<forall>gen\<in>set kind. length (filter (is_for gen) texts) \<le> room (f gen)) \<and>
      opts = map (\<lambda>gen. option_after (f gen) texts) kind"
  using assms(2)
proof (induction texts arbitrary: f)
  case Nil
  then show ?case by (auto simp: option_after_def)
next
  case (Cons t texts)
  show ?case
  proof (cases "\<exists>gen\<in>set kind. is_for gen t")
    case False
    then show ?thesis using parse_text_none [OF Cons.prems, of kind t True] by auto
  next
    case True
    then obtain gen where g: "gen \<in> set kind" "is_for gen t" by blast
    have u: "is_for h t \<longleftrightarrow> h = gen" if "h \<in> set kind" for h using assms(1) g that by (auto simp: kind_ok_def)
    note p = parse_text_one [OF Cons.prems assms(1) g, of True] and v = parse_one_validated(1) [of "f gen" t]
    show ?thesis
    proof (cases "\<not> rv_isset (f gen) \<and> good gen t")
      case False
      then have "parse_one_reloption (f gen) t True \<noteq> Inr opt" for opt using v g(2) Cons.prems by auto
      then obtain e where "parse_one_reloption (f gen) t True = Inl e" by (cases "parse_one_reloption (f gen) t True") auto
      then show ?thesis using False p g u by (auto simp: room_def)
    next
      case True
      let ?f = "f(gen := option_after (f gen) [t])"
      have q: "parse_one_reloption (f gen) t True = Inr (option_after (f gen) [t])" using v g(2) True Cons.prems by simp
      have fg: "gens_ok ?f" using Cons.prems by simp
      have e: "parseRelOptionsInternal (t # texts) True (map f kind) = parseRelOptionsInternal texts True (map ?f kind)" by (simp add: p q)
      have a: "map (\<lambda>gen. option_after (?f gen) texts) kind = map (\<lambda>gen. option_after (f gen) (t # texts)) kind"
        if "\<forall>h\<in>set kind. length (filter (is_for h) texts) \<le> room (?f h)"
        using option_after_step [OF Cons.prems assms(1) g] that by (intro map_cong refl) blast
      have l: "(\<forall>h\<in>set kind. length (filter (is_for h) texts) \<le> room (?f h)) \<longleftrightarrow> (\<forall>h\<in>set kind. length (filter (is_for h) (t # texts)) \<le> room (f h))"
        using room_step [OF Cons.prems assms(1) g] True by (intro ball_cong refl) blast
      show ?thesis unfolding e Cons.IH [OF fg] using a l g True by auto
    qed
  qed
qed

lemma parse_validated_error:
  assumes "kind_ok kind" and "gens_ok f" and "parseRelOptionsInternal texts True (map f kind) = Inl e"
  shows "e \<in> parse_errors"
  using assms(2,3)
proof (induction texts arbitrary: f)
  case (Cons t texts)
  show ?case
  proof (cases "\<exists>gen\<in>set kind. is_for gen t")
    case False
    then show ?thesis using parse_text_none [OF Cons.prems(1), of kind t True] Cons.prems(2) by (auto simp: parse_errors_def)
  next
    case True
    then obtain gen where g: "gen \<in> set kind" "is_for gen t" by blast
    show ?thesis
    proof (cases "parse_one_reloption (f gen) t True")
      case (Inl e')
      then show ?thesis using parse_one_validated(2) [of "f gen" t] g(2) parse_text_one [OF Cons.prems(1) assms(1) g, of True] Cons.prems by simp
    next
      case (Inr opt)
      then have "rv_gen opt = gen" using parse_one_validated(1) [of "f gen" t] g(2) Cons.prems(1) by simp
      then have "gens_ok (f(gen := opt))" using Cons.prems(1) by simp
      then show ?thesis using Inr Cons.IH parse_text_one [OF Cons.prems(1) assms(1) g, of True] Cons.prems by (simp del: fun_upd_apply)
    qed
  qed
qed simp

text \<open>Reading a validated array again, without validation, gives the same.\<close>

lemma parse_again:
  assumes "kind_ok kind" and "gens_ok f" and "parseRelOptionsInternal texts True (map f kind) = Inr opts"
  shows "parseRelOptionsInternal texts False (map f kind) = Inr opts"
  using assms(2,3)
proof (induction texts arbitrary: f)
  case (Cons t texts)
  show ?case
  proof (cases "\<exists>gen\<in>set kind. is_for gen t")
    case False
    then show ?thesis using parse_text_none [OF Cons.prems(1), of kind t True] Cons.prems(2) by auto
  next
    case True
    then obtain gen where g: "gen \<in> set kind" "is_for gen t" by blast
    note p = parse_text_one [OF Cons.prems(1) assms(1) g] and v = parse_one_validated [of "f gen" t]
    obtain opt where o: "parse_one_reloption (f gen) t True = Inr opt" using Cons.prems(2) p [of True] by (cases "parse_one_reloption (f gen) t True") auto
    then have "good gen t" "opt = option_after (f gen) [t]" using v(1) g(2) Cons.prems(1) by simp_all
    moreover from this have "gens_ok (f(gen := opt))" using Cons.prems(1) by simp
    ultimately show ?thesis using o p v(3) g(2) Cons.prems Cons.IH [of "f(gen := opt)"] by (simp del: fun_upd_apply)
  qed
qed simp

section \<open>The parameters of the index are valid\<close>

lemma hnsw_kind_ok: "kind_ok hnsw_relopt_kind"
proof -
  have m: "\<not> (is_for \<lparr>ro_name = ''m'', ro_default = a, ro_min = b, ro_max = c\<rparr> t \<and> is_for \<lparr>ro_name = ''ef_construction'', ro_default = a', ro_min = b', ro_max = c'\<rparr> t)"
    for a b c a' b' c' t by (cases t) (auto simp: is_for_def)
  show ?thesis unfolding kind_ok_def hnsw_relopt_kind_def using m by auto
qed

lemma relopt_result_after:
  "relopt_result (option_after \<lparr>rv_gen = gen, rv_isset = False, rv_int_val = 0\<rparr> texts) = option_value gen texts"
  by (simp add: relopt_result_def option_after_def option_value_def split: list.splits)

lemma option_value_good:
  assumes "options_ok kind texts" and "kind_ok kind" and "gen \<in> set kind" and "ro_min gen \<le> ro_default gen" and "ro_default gen \<le> ro_max gen"
  shows "ro_min gen \<le> option_value gen texts" and "option_value gen texts \<le> ro_max gen"
proof -
  have "good gen t" if "filter (is_for gen) texts = t # ts" for t ts
  proof -
    have "t \<in> set texts" "is_for gen t" using that by (auto dest: filter_eq_ConsD)
    moreover from this obtain h where "h \<in> set kind" "is_for h t" "good h t" using assms(1) by (auto simp: options_ok_def)
    ultimately show ?thesis using assms(2,3) by (metis kind_ok_def)
  qed
  then show "ro_min gen \<le> option_value gen texts" "option_value gen texts \<le> ro_max gen" using assms(4,5)
    by (auto simp: option_value_def good_def split: list.splits option.splits)
qed

text \<open>The fields of the structure after the fill.\<close>

lemma hnswoptions_eq:
  assumes "parseRelOptionsInternal texts validate (map (\<lambda>gen. \<lparr>rv_gen = gen, rv_isset = False, rv_int_val = 0\<rparr>) hnsw_relopt_kind) =
      Inr (map (\<lambda>gen. option_after \<lparr>rv_gen = gen, rv_isset = False, rv_int_val = 0\<rparr> texts) hnsw_relopt_kind)"
  shows "hnswoptions (Some texts) validate =
    Inr (Some \<lparr>rd_m = option_value (hnsw_relopt_kind ! 0) texts, rd_efConstruction = option_value (hnsw_relopt_kind ! 1) texts\<rparr>)"
  unfolding hnswoptions_def build_reloptions_def parseRelOptions_def Let_def option.case assms
  by (simp add: hnsw_relopt_kind_def relopt_result_after)


text \<open>Two texts.\<close>

lemma hnsw_options_example:
  "hnswoptions (Some [''m=32'', ''ef_construction=100'']) True = Inr (Some \<lparr>rd_m = 32, rd_efConstruction = 100\<rparr>)"
proof -
  have d: "c_isdigit CHR ''0''" "c_isdigit CHR ''1''" "c_isdigit CHR ''2''" "c_isdigit CHR ''3''" by (simp_all add: c_isdigit_def)
  have "parse_int ''32'' = Some (int (digits_value 10 ''32''))" by (rule parse_int_decimal) (simp_all add: d digits_value_def digit_value_def INT_MAX_def)
  moreover have "parse_int ''100'' = Some (int (digits_value 10 ''100''))" by (rule parse_int_decimal) (simp_all add: d digits_value_def digit_value_def INT_MAX_def)
  ultimately show ?thesis
    by (simp add: d digits_value_def digit_value_def hnswoptions_def build_reloptions_def parseRelOptions_def hnsw_relopt_kind_def parse_one_reloption_def
        option_matches_def Let_def relopt_result_def hnsw_const)
qed

end
