(* ===== verification/HnswCost.thy ===== *)
theory HnswCost
  imports CNumber HnswScan
begin

text \<open>
  The planner's cost estimate of an index scan, \<open>hnswcostestimate\<close> of \<open>src/backend/access/hnsw/hnsw.c\<close>, in IEEE arithmetic.  The
  generic estimate of the planner, the cost of a sequential page of the tablespace and the natural logarithm of the C library are
  arguments.
\<close>

section \<open>The estimate\<close>

definition HNSW_MIN_EF_SEARCH :: nat where [hnsw_const]: "HNSW_MIN_EF_SEARCH = 1"
definition HNSW_MAX_EF_SEARCH :: nat where [hnsw_const]: "HNSW_MAX_EF_SEARCH = 1000"

text \<open>The fields of the generic estimate that the function uses.\<close>

record GenericCosts =
  gc_indexTotalCost :: float8
  gc_indexSelectivity :: float8
  gc_indexCorrelation :: float8
  gc_numIndexPages :: float8
  gc_spc_random_page_cost :: float8

text \<open>The outputs.\<close>

record index_costs =
  indexStartupCost :: float8
  indexTotalCost :: float8
  indexSelectivity :: float8
  indexCorrelation :: float8
  indexPages :: float8
  disabled_nodes :: nat

definition HnswGetMl :: "(float8 \<Rightarrow> float8) \<Rightarrow> nat \<Rightarrow> float8" where
  "HnswGetMl log m = f8_div f8_one (log (f8_of_int (int m)))"

text \<open>The share of the index that is read before the first row.\<close>

definition scan_ratio :: "(float8 \<Rightarrow> float8) \<Rightarrow> nat \<Rightarrow> nat \<Rightarrow> float8 \<Rightarrow> float8 result" where
  "scan_ratio log m ef_search tuples =
     (if f8_lt f8_zero tuples then
        (let scalingFactor = 0x3FE199999999999A in
         rbind (int_of_f8 (f8_mul (log tuples) (HnswGetMl log m))) (\<lambda>entryLevel.
         rbind (c_int (int (HnswGetLayerM m 0) * int ef_search)) (\<lambda>layer0TuplesMax.
         rbind (c_int (entryLevel * int m)) (\<lambda>floorTuples.
           let layer0Selectivity = f8_div (f8_mul scalingFactor (log tuples))
                 (f8_mul (log (f8_of_int (int m))) (f8_add f8_one (log (f8_of_int (int ef_search)))));
               ratio = f8_div (f8_add (f8_of_int floorTuples) (f8_mul (f8_of_int layer0TuplesMax) layer0Selectivity)) tuples
           in Inr (if f8_lt f8_one ratio then f8_one else ratio)))))
      else Inr f8_one)"

text \<open>\<open>indexorderbys\<close> says that the path has an \<open>ORDER BY\<close>; \<open>nodes\<close> is its count of disabled nodes so far;
  \<open>tuples\<close> and \<open>pages\<close> are the sizes of the index and of the table.\<close>

definition hnswcostestimate ::
    "(float8 \<Rightarrow> float8) \<Rightarrow> hnsw_settings \<Rightarrow> Relation \<Rightarrow> bool \<Rightarrow> nat \<Rightarrow> float8 \<Rightarrow> nat \<Rightarrow> GenericCosts \<Rightarrow> float8 \<Rightarrow> index_costs result" where
  "hnswcostestimate log guc index indexorderbys nodes tuples pages costs spc_seq_page_cost =
     (if \<not> indexorderbys then
        Inr \<lparr>indexStartupCost = f8_infinity, indexTotalCost = f8_infinity, indexSelectivity = f8_zero, indexCorrelation = f8_zero, indexPages = f8_zero,
          disabled_nodes = 2\<rparr>
      else
        rbind (HnswGetMetaPageInfo index) (\<lambda>(m, _).
        rbind (scan_ratio log m (hnsw_ef_search guc) tuples) (\<lambda>ratio.
          let startup = f8_mul (gc_indexTotalCost costs) ratio;
              startupPages = f8_mul (gc_numIndexPages costs) ratio;
              startup2 =
                (if f8_lt (f8_of_int (int pages)) startupPages \<and> f8_lt ratio 0x3FE0000000000000
                 then f8_sub (f8_sub startup (f8_mul startupPages (f8_sub (gc_spc_random_page_cost costs) spc_seq_page_cost)))
                        (f8_mul (f8_sub startupPages (f8_of_int (int pages))) spc_seq_page_cost)
                 else startup)
          in Inr \<lparr>indexStartupCost = startup2, indexTotalCost = gc_indexTotalCost costs, indexSelectivity = gc_indexSelectivity costs,
                indexCorrelation = gc_indexCorrelation costs, indexPages = gc_numIndexPages costs, disabled_nodes = nodes\<rparr>)))"

section \<open>The share is a share\<close>

text \<open>What the estimate relies on of the logarithm: on numbers from 1 it is defined, not negative and below 710 (the logarithm of the largest
  \<open>double\<close>), and on numbers from 2 it is at least one half.\<close>

definition log_ok :: "(float8 \<Rightarrow> float8) \<Rightarrow> bool" where
  "log_ok log \<longleftrightarrow> (\<forall>x. f8_fin x \<longrightarrow> f8_key f8_one \<le> f8_key x \<longrightarrow> f8_pos (log x) \<and> f8_key (log x) \<le> f8_key (f8_of_int 710) \<and>
     (f8_key (f8_of_int 2) \<le> f8_key x \<longrightarrow> f8_key 0x3FE0000000000000 \<le> f8_key (log x)))"

lemma f8_mags: "f8_mag f8_one = 0x3FF0000000000000" "f8_mag 0x3FE0000000000000 = 0x3FE0000000000000" "f8_mag 0x3FE199999999999A = 0x3FE199999999999A"
  "inf_mag binary64 = 0x7FF0000000000000"
  by (simp_all add: f8_one_def f_mag_def sign_bit_def binary64_def inf_mag_def)

lemma f8_unit_pow: "f8_unit = 2 * 2 ^ 1073"
  by (simp add: unit_exp_def binary64_def flip: power_Suc)

lemma f8_consts:
  "f8_pos f8_one" "f8_fin f8_one" "f8_val f8_one = f8_unit" "f8_pos 0x3FE0000000000000" "f8_fin 0x3FE0000000000000" "2 * f8_val 0x3FE0000000000000 = f8_unit"
  "f8_pos 0x3FE199999999999A" "f8_fin 0x3FE199999999999A" "f8_val 0x3FE199999999999A \<le> f8_unit"
proof -
  show "f8_val f8_one = f8_unit" "2 * f8_val 0x3FE0000000000000 = f8_unit" unfolding f8_mags by (simp_all add: mag_int_def Let_def unit_exp_def binary64_def)
  moreover have "f8_val 0x3FE199999999999A \<le> f8_val f8_one" unfolding f8_val_le unfolding f8_mags by simp
  ultimately show "f8_val 0x3FE199999999999A \<le> f8_unit" by linarith
qed (simp_all add: f8_pos_def f8_isnan_mag f8_fin_mag f_mag_def inf_mag_def f_neg_def f8_one_def sign_bit_def binary64_def)

text \<open>Numbers from 0 to an integer.\<close>

definition bounded :: "nat \<Rightarrow> float8 \<Rightarrow> bool" where
  "bounded n a \<longleftrightarrow> n < 2 ^ 53 \<and> f8_pos a \<and> f8_mag a \<le> f8_mag (f8_of_int (int n))"

lemma of_int_bounded: "n < 2 ^ 53 \<Longrightarrow> bounded n (f8_of_int (int n))"
  by (simp add: bounded_def f8_pos_def f8_of_int_exact f8_fin_class)

lemma boundedD:
  assumes "bounded n a"
  shows "f8_fin a" "f8_pos a" "f8_val a \<le> n * f8_unit"
proof -
  have n: "f8_fin (f8_of_int (int n))" "f8_val (f8_of_int (int n)) = n * f8_unit" using assms f8_of_int_exact [of "int n"] by (simp_all add: bounded_def)
  show "f8_fin a" using assms n(1) by (simp add: bounded_def f8_fin_mag)
  show "f8_val a \<le> n * f8_unit" using assms n(2) by (simp only: bounded_def f8_val_le [symmetric])
  show "f8_pos a" using assms by (simp add: bounded_def)
qed

lemma bounded_val: "n < 2 ^ 53 \<Longrightarrow> f8_val (f8_of_int (int n)) = n * f8_unit"
  using f8_of_int_exact(2) [of "int n"] by simp

lemma bounded_mul:
  assumes "bounded n a" and "bounded k b" and "n * k < 2 ^ 53"
  shows "bounded (n * k) (f8_mul a b)"
proof -
  note a = boundedD [OF assms(1)] and b = boundedD [OF assms(2)]
  have "f8_val a * f8_val b \<le> n * f8_unit * (k * f8_unit)" by (rule mult_le_mono [OF a(3) b(3)])
  also have "\<dots> = f8_val (f8_of_int (int (n * k))) * f8_unit" by (subst bounded_val [OF assms(3)]) (simp only: ac_simps)
  finally show ?thesis using f8_mul_upper [OF a(1) b(1)] f8_mul_pos [OF a(1) b(1) a(2) b(2)] assms(3) by (simp add: bounded_def)
qed

lemma bounded_add:
  assumes "bounded n a" and "bounded k b" and "n + k < 2 ^ 53"
  shows "bounded (n + k) (f8_add a b)"
proof -
  note a = boundedD [OF assms(1)] and b = boundedD [OF assms(2)]
  have "f8_val a + f8_val b \<le> f8_val (f8_of_int (int (n + k))) * 1" unfolding bounded_val [OF assms(3)] using a(3) b(3) by (simp add: algebra_simps)
  then have "f8_mag (f8_add a b) \<le> f8_mag (f8_of_int (int (n + k)))" unfolding f8_add_fields [OF a(1) b(1) a(2) b(2)] by (intro b64.round_mag_upper) simp_all
  then show ?thesis using assms(3) f8_add_pos [OF a(2) b(2)] by (simp add: bounded_def)
qed

lemma bounded_div:
  assumes "bounded n a" and "bounded k b" and "f8_unit \<le> 2 * f8_val b" and "2 * n < 2 ^ 53"
  shows "bounded (2 * n) (f8_div a b)"
proof -
  note a = boundedD [OF assms(1)] and b = boundedD [OF assms(2)]
  have z: "f8_val b \<noteq> 0" using assms(3) by (intro notI) simp
  have "f8_val a * f8_unit \<le> n * f8_unit * (2 * f8_val b)" by (rule mult_le_mono [OF a(3) assms(3)])
  also have "\<dots> = f8_val (f8_of_int (int (2 * n))) * f8_val b" by (subst bounded_val [OF assms(4)]) (simp only: ac_simps)
  finally show ?thesis using f8_div_upper [OF a(1) b(1) z] f8_div_pos [OF a(2) b(1,2) z] assms(4) by (simp add: bounded_def)
qed

lemma bounded_one: "bounded 1 f8_one"
  using f8_consts(1) f8_consts(3) f8_val_le [of f8_one "f8_of_int 1"] bounded_val [of 1] by (simp add: bounded_def)

lemma log_bounded:
  assumes "log_ok log" and "f8_fin x" and "f8_key f8_one \<le> f8_key x"
  shows "bounded 710 (log x)" and "f8_key (f8_of_int 2) \<le> f8_key x \<Longrightarrow> f8_unit \<le> 2 * f8_val (log x)"
proof -
  have l: "f8_pos (log x)" "f8_key (log x) \<le> f8_key (f8_of_int 710)" "f8_key (f8_of_int 2) \<le> f8_key x \<Longrightarrow> f8_key 0x3FE0000000000000 \<le> f8_key (log x)"
    using assms by (simp_all add: log_ok_def)
  have p: "f8_pos (f8_of_int 710)" using of_int_bounded [of 710] by (simp add: bounded_def)
  show "bounded 710 (log x)" using l(1,2) by (simp add: bounded_def f8_key_pos p)
  show "f8_unit \<le> 2 * f8_val (log x)" if "f8_key (f8_of_int 2) \<le> f8_key x"
  proof -
    have "f8_mag 0x3FE0000000000000 \<le> f8_mag (log x)" using l(3) [OF that] f8_key_pos [OF l(1)] f8_key_pos [OF f8_consts(4)] by linarith
    then have "f8_val 0x3FE0000000000000 \<le> f8_val (log x)" by (simp only: f8_val_le)
    then show ?thesis using f8_consts(6) by linarith
  qed
qed

lemma int_of_bounded:
  assumes "bounded n a" and "int n \<le> INT_MAX"
  shows "\<exists>i. int_of_f8 a = Inr i \<and> 0 \<le> i \<and> i \<le> int n"
proof -
  note a = boundedD [OF assms(1)]
  have "f8_val a div f8_unit \<le> n * f8_unit div f8_unit" by (rule div_le_mono [OF a(3)])
  then have "f8_val a div f8_unit \<le> n" by simp
  then have i: "0 \<le> f8_trunc a \<and> f8_trunc a \<le> int n" using a(2) by (simp add: f8_trunc_def f8_pos_def)
  then show ?thesis using a(1) assms(2) by (auto simp: int_of_f8_def f8_fin_class c_int_def INT_MIN_def)
qed

lemma scaled_log:
  assumes "bounded 710 l"
  shows "bounded 710 (f8_mul 0x3FE199999999999A l)"
proof -
  note l = boundedD [OF assms]
  have "f8_val 0x3FE199999999999A * f8_val l \<le> f8_unit * (710 * f8_unit)" by (rule mult_le_mono [OF f8_consts(9) l(3)])
  also have "\<dots> = f8_val (f8_of_int (int 710)) * f8_unit" by (subst bounded_val) (simp_all only: ac_simps, simp)
  finally show ?thesis using f8_mul_upper [OF f8_consts(8) l(1)] f8_mul_pos [OF f8_consts(8) l(1) f8_consts(7) l(2)] by (simp add: bounded_def)
qed

text \<open>The denominator of the selectivity stays away from zero.\<close>

lemma log_product:
  assumes "bounded 710 a" and "f8_unit \<le> 2 * f8_val a" and "bounded 710 b"
  shows "bounded (710 * 711) (f8_mul a (f8_add f8_one b))" and "f8_unit \<le> 2 * f8_val (f8_mul a (f8_add f8_one b))"
proof -
  have s: "bounded 711 (f8_add f8_one b)" using bounded_add [OF bounded_one assms(3)] by simp
  show "bounded (710 * 711) (f8_mul a (f8_add f8_one b))" using bounded_mul [OF assms(1) s] by simp
  have "f8_mag f8_one \<le> f8_mag (f8_add f8_one b)"
    unfolding f8_add_fields [OF f8_consts(2) boundedD(1) [OF assms(3)] f8_consts(1) boundedD(2) [OF assms(3)]]
    by (rule b64.round_mag_lower) (simp_all add: f8_mags(4) f8_mags(1))
  then have o: "f8_unit \<le> f8_val (f8_add f8_one b)" using f8_consts(3) by (simp only: f8_val_le [symmetric])
  have "f8_val 0x3FE0000000000000 \<le> f8_val a" using assms(2) f8_consts(6) by linarith
  then have "f8_val 0x3FE0000000000000 * f8_unit \<le> f8_val a * f8_val (f8_add f8_one b)" using o by (rule mult_le_mono)
  then have "f8_mag 0x3FE0000000000000 \<le> f8_mag (f8_mul a (f8_add f8_one b))"
    by (rule f8_mul_lower [OF boundedD(1) [OF assms(1)] boundedD(1) [OF s] f8_consts(5)])
  then have "f8_val 0x3FE0000000000000 \<le> f8_val (f8_mul a (f8_add f8_one b))" by (simp only: f8_val_le)
  then show "f8_unit \<le> 2 * f8_val (f8_mul a (f8_add f8_one b))" using f8_consts(6) by linarith
qed

lemma of_int_key_mono: "0 \<le> i \<Longrightarrow> i \<le> j \<Longrightarrow> j < 2 ^ 53 \<Longrightarrow> f8_key (f8_of_int i) \<le> f8_key (f8_of_int j)"
proof -
  assume a: "0 \<le> i" "i \<le> j" "j < 2 ^ 53"
  have p: "f8_pos (f8_of_int i)" "f8_pos (f8_of_int j)" using a of_int_bounded [of "nat i"] of_int_bounded [of "nat j"] by (simp_all add: bounded_def nat_less_iff)
  have "f8_val (f8_of_int i) \<le> f8_val (f8_of_int j)" using a by (simp add: f8_of_int_exact)
  then show ?thesis by (simp only: f8_val_le f8_key_pos [OF p(1)] f8_key_pos [OF p(2)] of_nat_le_iff)
qed

lemma one_key: "f8_key f8_one = f8_key (f8_of_int 1)"
proof -
  have "f8_val f8_one = f8_val (f8_of_int 1)" using f8_consts(3) bounded_val [of 1] by simp
  then have "f8_mag f8_one = f8_mag (f8_of_int 1)" by (metis f8_val_le le_antisym order_refl)
  then show ?thesis using f8_consts(1) of_int_bounded [of 1] by (simp add: bounded_def f8_key_pos)
qed

lemma scan_ratio_share:
  assumes "log_ok log" and "HNSW_MIN_M \<le> m" and "m \<le> HNSW_MAX_M" and "HNSW_MIN_EF_SEARCH \<le> ef" and "ef \<le> HNSW_MAX_EF_SEARCH" and "f8_fin tuples"
    and "f8_key tuples \<le> 0 \<or> f8_key f8_one \<le> f8_key tuples"
  shows "\<exists>ratio. scan_ratio log m ef tuples = Inr ratio \<and> f8_pos ratio \<and> f8_key ratio \<le> f8_key f8_one"
proof (cases "f8_lt f8_zero tuples")
  case False
  then show ?thesis using f8_consts(1) by (simp add: scan_ratio_def)
next
  case True
  have z: "f8_key f8_zero = 0" by (simp add: f8_key_def f_key_def f8_zero_def f_mag_def)
  then have t1: "f8_key f8_one \<le> f8_key tuples" using True assms(7) by (simp add: f8_lt_key)
  have tp: "f8_pos tuples"
    using True z by (auto simp: f8_lt_key f8_pos_def f8_key_def f_key_def split: if_splits)
  have "f8_val f8_one \<le> f8_val tuples" using t1 by (simp only: f8_key_pos [OF tp] f8_key_pos [OF f8_consts(1)] f8_val_le of_nat_le_iff)
  then have tv: "f8_val tuples \<noteq> 0" using f8_consts(3) by (intro notI) simp
  have k: "f8_key f8_one \<le> f8_key (f8_of_int (int n))" if "1 \<le> n" "n < 2 ^ 53" for n
    unfolding one_key using that by (intro of_int_key_mono) simp_all
  have m: "2 \<le> m" "m \<le> 100" "1 \<le> ef" "ef \<le> 1000" using assms(2-5) by (simp_all add: hnsw_const)
  have fi: "f8_fin (f8_of_int (int n))" if "n < 2 ^ 53" for n using boundedD(1) [OF of_int_bounded] that by blast
  note lt = log_bounded(1) [OF assms(1,6) t1]
  have lm: "bounded 710 (log (f8_of_int (int m)))" using log_bounded(1) [OF assms(1) fi k] m by simp
  have lm2: "f8_unit \<le> 2 * f8_val (log (f8_of_int (int m)))"
    by (rule log_bounded(2) [OF assms(1) fi k of_int_key_mono]) (use m in simp_all)
  have le: "bounded 710 (log (f8_of_int (int ef)))" using log_bounded(1) [OF assms(1) fi k] m by simp
  have ml: "bounded 2 (HnswGetMl log m)" unfolding HnswGetMl_def using bounded_div [OF bounded_one lm lm2] by simp
  have "bounded 1420 (f8_mul (log tuples) (HnswGetMl log m))" using bounded_mul [OF lt ml] by simp
  then obtain entryLevel where e: "int_of_f8 (f8_mul (log tuples) (HnswGetMl log m)) = Inr entryLevel" "0 \<le> entryLevel" "entryLevel \<le> 1420"
    using int_of_bounded by (fastforce simp: INT_MAX_def)
  have em: "entryLevel * int m \<le> 1420 * 100" using e m by (intro mult_mono) simp_all
  have em0: "0 \<le> entryLevel * int m" using e(2) by simp
  have lf: "HnswGetLayerM m 0 * ef \<le> 200 * 1000" using m by (intro mult_le_mono) (simp_all add: HnswGetLayerM_def)
  have c: "c_int (entryLevel * int m) = Inr (entryLevel * int m)" "c_int (int (HnswGetLayerM m 0) * int ef) = Inr (int (HnswGetLayerM m 0 * ef))"
    using em em0 lf by (simp_all add: c_int_def INT_MAX_def INT_MIN_def flip: of_nat_mult)
  define sel where "sel = f8_div (f8_mul 0x3FE199999999999A (log tuples)) (f8_mul (log (f8_of_int (int m))) (f8_add f8_one (log (f8_of_int (int ef)))))"
  have s: "bounded 1420 sel" unfolding sel_def using bounded_div [OF scaled_log [OF lt] log_product [OF lm lm2 le]] by simp
  have x: "f8_pos (f8_of_int (entryLevel * int m))" using boundedD(2) [OF of_int_bounded, of "nat (entryLevel * int m)"] em em0 by (simp add: nat_less_iff)
  have y: "bounded (HnswGetLayerM m 0 * ef) (f8_of_int (int (HnswGetLayerM m 0 * ef)))" using lf by (intro of_int_bounded) simp
  define ratio where "ratio = f8_div (f8_add (f8_of_int (entryLevel * int m)) (f8_mul (f8_of_int (int (HnswGetLayerM m 0 * ef))) sel)) tuples"
  have p: "f8_pos ratio" unfolding ratio_def
    by (rule f8_div_pos [OF f8_add_pos [OF x f8_mul_pos [OF boundedD(1) [OF y] boundedD(1) [OF s] boundedD(2) [OF y] boundedD(2) [OF s]]] assms(6) tp tv])
  have "scan_ratio log m ef tuples = Inr (if f8_lt f8_one ratio then f8_one else ratio)"
    unfolding scan_ratio_def Let_def using True by (simp only: if_True e(1) c rbind_simps ratio_def sel_def)
  moreover have "f8_key ratio \<le> f8_key f8_one" if "\<not> f8_lt f8_one ratio" using that p f8_consts(1) by (auto simp: f8_lt_key f8_pos_def)
  ultimately show ?thesis using p f8_consts(1) by simp
qed

section \<open>Properties\<close>

text \<open>The generic estimate: costs are finite and not negative, and a random page costs at least as much as a sequential one.\<close>

definition costs_ok :: "GenericCosts \<Rightarrow> float8 \<Rightarrow> bool" where
  "costs_ok costs seq \<longleftrightarrow> f8_pos (gc_indexTotalCost costs) \<and> f8_fin (gc_indexTotalCost costs) \<and> f8_pos (gc_numIndexPages costs) \<and> f8_fin (gc_numIndexPages costs) \<and>
     f8_pos seq \<and> f8_fin seq \<and> f8_pos (gc_spc_random_page_cost costs) \<and> f8_fin (gc_spc_random_page_cost costs) \<and> f8_key seq \<le> f8_key (gc_spc_random_page_cost costs)"

lemma share_mul:
  assumes "f8_pos a" and "f8_fin a" and "f8_pos ratio" and "f8_key ratio \<le> f8_key f8_one"
  shows "f8_pos (f8_mul a ratio)" and "f8_fin (f8_mul a ratio)" and "f8_key (f8_mul a ratio) \<le> f8_key a"
proof -
  have "f8_mag ratio \<le> f8_mag f8_one" using assms(4) by (simp only: f8_key_pos [OF assms(3)] f8_key_pos [OF f8_consts(1)] of_nat_le_iff)
  then have r: "f8_fin ratio" "f8_val ratio \<le> f8_unit" using f8_consts(2) f8_val_le [of ratio f8_one] unfolding f8_consts(3) by (simp_all add: f8_fin_mag)
  show p: "f8_pos (f8_mul a ratio)" by (rule f8_mul_pos [OF assms(2) r(1) assms(1,3)])
  have u: "f8_mag (f8_mul a ratio) \<le> f8_mag a" using r(2) by (intro f8_mul_upper [OF assms(2) r(1)] mult_le_mono2)
  then show "f8_fin (f8_mul a ratio)" using assms(2) by (simp add: f8_fin_mag)
  show "f8_key (f8_mul a ratio) \<le> f8_key a" using u by (simp add: f8_key_pos p assms(1))
qed

text \<open>C28: the cost estimate of a scan is usable: without an \<open>ORDER BY\<close> the path costs infinitely much; with one the estimate returns (no conversion or product overflows),
  the share of the index that is read before the first row is a number from 0 to 1, and the startup cost is a number (not a NaN) that is at most the
  total cost; the other outputs are those of the generic estimate.\<close>

theorem cost_estimate:
  assumes "log_ok log" and "HnswGetMetaPageInfo index = Inr (m, ep)" and "HNSW_MIN_M \<le> m" and "m \<le> HNSW_MAX_M"
    and "HNSW_MIN_EF_SEARCH \<le> hnsw_ef_search guc" and "hnsw_ef_search guc \<le> HNSW_MAX_EF_SEARCH" and "f8_fin tuples" and "f8_key tuples \<le> 0 \<or> f8_key f8_one \<le> f8_key tuples"
    and "costs_ok costs seq" and "pages < 2 ^ 32"
  shows "(\<exists>c. hnswcostestimate log guc index False nodes tuples pages costs seq = Inr c \<and> indexStartupCost c = f8_infinity \<and> indexTotalCost c = f8_infinity) \<and>
    (\<exists>c ratio. hnswcostestimate log guc index True nodes tuples pages costs seq = Inr c \<and> scan_ratio log m (hnsw_ef_search guc) tuples = Inr ratio \<and>
      f8_pos ratio \<and> f8_key ratio \<le> f8_key f8_one \<and> \<not> f8_isnan (indexStartupCost c) \<and> f8_key (indexStartupCost c) \<le> f8_key (indexTotalCost c) \<and>
      indexTotalCost c = gc_indexTotalCost costs \<and> indexSelectivity c = gc_indexSelectivity costs \<and> indexPages c = gc_numIndexPages costs)"
proof
  show "\<exists>c. hnswcostestimate log guc index False nodes tuples pages costs seq = Inr c \<and> indexStartupCost c = f8_infinity \<and> indexTotalCost c = f8_infinity"
    by (simp add: hnswcostestimate_def)
  obtain ratio where r: "scan_ratio log m (hnsw_ef_search guc) tuples = Inr ratio" "f8_pos ratio" "f8_key ratio \<le> f8_key f8_one"
    using scan_ratio_share [OF assms(1,3-8)] by blast
  have c: "f8_pos (gc_indexTotalCost costs)" "f8_fin (gc_indexTotalCost costs)" "f8_pos (gc_numIndexPages costs)" "f8_fin (gc_numIndexPages costs)"
      "f8_pos seq" "f8_fin seq" "f8_pos (gc_spc_random_page_cost costs)" "f8_fin (gc_spc_random_page_cost costs)" "f8_key seq \<le> f8_key (gc_spc_random_page_cost costs)"
    using assms(9) by (simp_all add: costs_ok_def)
  define startup where "startup = f8_mul (gc_indexTotalCost costs) ratio"
  define sp where "sp = f8_mul (gc_numIndexPages costs) ratio"
  note s = share_mul [OF c(1,2) r(2,3), folded startup_def] and sp = share_mul [OF c(3,4) r(2,3), folded sp_def]
  have pg: "bounded pages (f8_of_int (int pages))" using assms(10) by (intro of_int_bounded) simp
  define d1 where "d1 = f8_mul sp (f8_sub (gc_spc_random_page_cost costs) seq)"
  define d2 where "d2 = f8_mul (f8_sub sp (f8_of_int (int pages))) seq"
  note rs = f8_sub_pos [OF c(8,6,7,5,9)]
  have d1: "f8_pos d1" unfolding d1_def by (rule f8_mul_pos [OF sp(2) rs(2) sp(1) rs(1)])
  define startup2 where "startup2 = (if f8_lt (f8_of_int (int pages)) sp \<and> f8_lt ratio 0x3FE0000000000000 then f8_sub (f8_sub startup d1) d2 else startup)"
  have k: "f8_key startup < int (inf_mag binary64)" using s(1,2) by (simp add: f8_key_pos f8_fin_mag)
  have ns: "\<not> f8_isnan startup" using s(2) by (rule f8_fin_class)
  have "\<not> f8_isnan startup2 \<and> f8_key startup2 \<le> f8_key startup"
  proof (cases "f8_lt (f8_of_int (int pages)) sp")
    case True
    then have "f8_key (f8_of_int (int pages)) \<le> f8_key sp" by (simp add: f8_lt_key)
    note ps = f8_sub_pos [OF sp(2) boundedD(1) [OF pg] sp(1) boundedD(2) [OF pg] this]
    have d2: "f8_pos d2" unfolding d2_def by (rule f8_mul_pos [OF ps(2) c(6) ps(1) c(5)])
    note a = f8_sub_le [OF ns k d1]
    have "\<not> f8_isnan (f8_sub (f8_sub startup d1) d2)" "f8_key (f8_sub (f8_sub startup d1) d2) \<le> f8_key (f8_sub startup d1)"
      using f8_sub_le [OF a(1) _ d2] a(2) k by simp_all
    then show ?thesis using a(2) ns by (simp add: startup2_def)
  qed (use ns in \<open>simp add: startup2_def\<close>)
  moreover have "hnswcostestimate log guc index True nodes tuples pages costs seq =
      Inr \<lparr>indexStartupCost = startup2, indexTotalCost = gc_indexTotalCost costs, indexSelectivity = gc_indexSelectivity costs,
        indexCorrelation = gc_indexCorrelation costs, indexPages = gc_numIndexPages costs, disabled_nodes = nodes\<rparr>"
    unfolding hnswcostestimate_def Let_def startup2_def d1_def d2_def startup_def sp_def by (simp add: assms(2) r(1))
  ultimately show "\<exists>c ratio. hnswcostestimate log guc index True nodes tuples pages costs seq = Inr c \<and> scan_ratio log m (hnsw_ef_search guc) tuples = Inr ratio \<and>
      f8_pos ratio \<and> f8_key ratio \<le> f8_key f8_one \<and> \<not> f8_isnan (indexStartupCost c) \<and> f8_key (indexStartupCost c) \<le> f8_key (indexTotalCost c) \<and>
      indexTotalCost c = gc_indexTotalCost costs \<and> indexSelectivity c = gc_indexSelectivity costs \<and> indexPages c = gc_numIndexPages costs"
    using r s(3) by auto
qed

text \<open>An estimate for the index of two elements, with a crude logarithm.\<close>

definition step_log :: "float8 \<Rightarrow> float8" where
  "step_log x = (if f8_key (f8_of_int 2) \<le> f8_key x then f8_one else f8_zero)"

definition pair_costs :: GenericCosts where
  "pair_costs = \<lparr>gc_indexTotalCost = f8_of_int 100, gc_indexSelectivity = f8_one, gc_indexCorrelation = f8_zero, gc_numIndexPages = f8_of_int 2,
     gc_spc_random_page_cost = f8_of_int 4\<rparr>"

lemma step_log_ok: "log_ok step_log"
proof -
  have h: "f8_key 0x3FE0000000000000 \<le> f8_key f8_one" by (simp add: f8_key_def f_key_def f8_one_def f_mag_def f_neg_def sign_bit_def binary64_def)
  have z: "f8_key f8_zero = 0" by (simp add: f8_key_def f_key_def f8_zero_def f_mag_def)
  have "0 \<le> f8_key f8_one" "f8_key f8_one \<le> f8_key (f8_of_int 710)" unfolding one_key
    using f8_pos_key [OF boundedD(2) [OF of_int_bounded [of 1]]] of_int_key_mono [of 1 710] by simp_all
  then show ?thesis using h z f8_consts(1) f8_pos_zero by (simp add: log_ok_def step_log_def)
qed

lemma pair_costs_ok: "costs_ok pair_costs f8_one"
  using boundedD [OF of_int_bounded [of 100]] boundedD [OF of_int_bounded [of 2]] boundedD [OF of_int_bounded [of 4]] f8_consts(1,2) of_int_key_mono [of 1 4]
  by (simp add: costs_ok_def pair_costs_def one_key)

theorem cost_estimate_witness:
  "\<exists>c. hnswcostestimate step_log pair_guc pair_rel True 0 (f8_of_int 2) 1 pair_costs f8_one = Inr c \<and> f8_key (indexStartupCost c) \<le> f8_key (f8_of_int 100)"
proof -
  have m: "HnswGetMetaPageInfo pair_rel = Inr (2, Some ((HnswInitElementFromBlock 1 1)\<lparr>he_level := 0\<rparr>))"
    by (simp add: HnswGetMetaPageInfo_def read_meta_def pair_rel_def pair_meta_def hnsw_const)
  have t: "f8_fin (f8_of_int 2)" "f8_key f8_one \<le> f8_key (f8_of_int 2)" using boundedD(1) [OF of_int_bounded [of 2]] of_int_key_mono [of 1 2] by (simp_all add: one_key)
  show ?thesis using cost_estimate [OF step_log_ok m _ _ _ _ t(1) disjI2 [OF t(2)] pair_costs_ok, of pair_guc 1 0]
    by (auto simp: hnsw_const pair_guc_def pair_costs_def)
qed

end
